(* ===== verification/Prelude.thy ===== *)
theory Prelude
  imports Complex_Main "HOL-Library.AList" "HOL-Library.Product_Lexorder" "HOL-Library.List_Lexorder" "HOL-Library.Char_ord"
begin

text \<open>
  Shared vocabulary of the development: the Python exceptions the sources raise, results that
  are either an exception or a value, dictionaries as association lists in insertion order
  (Python's iteration order), and the list operations that appear in several components
  (keep the last \<open>n\<close> entries, take an element out of a queue).
\<close>

named_theorems dict_simps \<open>lookup laws of dictionaries\<close>
named_theorems res_simps \<open>when a chain of fallible steps succeeds\<close>

section \<open>Exceptions and results\<close>

text \<open>
  One constructor per exception class that the modelled sources raise or catch. A constructor
  with a string carries the message of the raise statement.
\<close>

datatype exc =
    ValidationError string
  | PolicyOutputError string
  | ContextMismatch string
  | ProofCAError string
  | ValueErr string
  | OverflowErr
  | TypeErr
  | AttributeErr
  | KeyErr
  | IndexErr
  | LogicLimit string
  | AssertionErr string

text \<open>The classes that \<open>except (ProofCAError, ContextMismatch)\<close> catches: \<open>ProofCAError\<close> and its
  subclasses. All of them are subclasses of \<open>ValueError\<close>.\<close>

fun is_ca_error :: "exc \<Rightarrow> bool" where
  "is_ca_error (ValidationError _) = True"
| "is_ca_error (PolicyOutputError _) = True"
| "is_ca_error (ContextMismatch _) = True"
| "is_ca_error (ProofCAError _) = True"
| "is_ca_error _ = False"

fun exc_text :: "exc \<Rightarrow> string" where
  "exc_text (ValidationError s) = s"
| "exc_text (PolicyOutputError s) = s"
| "exc_text (ContextMismatch s) = s"
| "exc_text (ProofCAError s) = s"
| "exc_text (ValueErr s) = s"
| "exc_text (LogicLimit s) = s"
| "exc_text (AssertionErr s) = s"
| "exc_text _ = []"

fun exc_type :: "exc \<Rightarrow> string" where
  "exc_type (ValidationError _) = ''ValidationError''"
| "exc_type (PolicyOutputError _) = ''PolicyOutputError''"
| "exc_type (ContextMismatch _) = ''ContextMismatch''"
| "exc_type (ProofCAError _) = ''ProofCAError''"
| "exc_type (ValueErr _) = ''ValueError''"
| "exc_type OverflowErr = ''OverflowError''"
| "exc_type TypeErr = ''TypeError''"
| "exc_type AttributeErr = ''AttributeError''"
| "exc_type KeyErr = ''KeyError''"
| "exc_type IndexErr = ''IndexError''"
| "exc_type (LogicLimit _) = ''LogicLimit''"
| "exc_type (AssertionErr _) = ''AssertionError''"

fun rbind :: "'e + 'a \<Rightarrow> ('a \<Rightarrow> 'e + 'b) \<Rightarrow> 'e + 'b" where
  "rbind (Inl e) f = Inl e"
| "rbind (Inr x) f = f x"

text \<open>\<open>ensure b e\<close> is the source's \<open>if not b: raise e\<close>.\<close>

definition ensure :: "bool \<Rightarrow> 'e \<Rightarrow> 'e + unit" where
  "ensure b e = (if b then Inr () else Inl e)"

primrec rmap :: "('a \<Rightarrow> 'e + 'b) \<Rightarrow> 'a list \<Rightarrow> 'e + 'b list" where
  "rmap f [] = Inr []"
| "rmap f (x # xs) = rbind (f x) (\<lambda>y. rbind (rmap f xs) (\<lambda>ys. Inr (y # ys)))"

lemma rbind_Inr_iff [res_simps]: "rbind m f = Inr y \<longleftrightarrow> (\<exists>x. m = Inr x \<and> f x = Inr y)"
  by (cases m) auto

lemma ensure_Inr_iff [res_simps]: "ensure b e = Inr u \<longleftrightarrow> b"
  by (simp add: ensure_def)

lemma ensure_True [simp]: "ensure True e = Inr ()"
  and ensure_False [simp]: "ensure False e = Inl e"
  by (simp_all add: ensure_def)

lemma rbind_cong [fundef_cong]:
  "m = m' \<Longrightarrow> (\<And>x. m' = Inr x \<Longrightarrow> f x = f' x) \<Longrightarrow> rbind m f = rbind m' f'"
  by (cases m') auto

lemma rmap_cong [fundef_cong]:
  "xs = ys \<Longrightarrow> (\<And>x. x \<in> set ys \<Longrightarrow> f x = g x) \<Longrightarrow> rmap f xs = rmap g ys"
  by (induction ys arbitrary: xs) auto

lemma rmap_Inr_iff:
  "rmap f xs = Inr ys \<longleftrightarrow> list_all2 (\<lambda>x y. f x = Inr y) xs ys"
  by (induction xs arbitrary: ys) (auto simp: res_simps list_all2_Cons1)

lemma rmap_total: "(\<And>x. x \<in> set xs \<Longrightarrow> f x = Inr (g x)) \<Longrightarrow> rmap f xs = Inr (map g xs)"
  by (induction xs) auto

section \<open>Dictionaries\<close>

text \<open>
  A Python dictionary is an association list with distinct keys in insertion order:
  \<open>dict_set\<close> overwrites in place or appends, \<open>dict_pop\<close> removes, \<open>map_of\<close> looks up.
\<close>

definition dict_set :: "'k \<Rightarrow> 'v \<Rightarrow> ('k \<times> 'v) list \<Rightarrow> ('k \<times> 'v) list" where
  "dict_set k v d = AList.update k v d"

definition dict_pop :: "'k \<Rightarrow> ('k \<times> 'v) list \<Rightarrow> ('k \<times> 'v) list" where
  "dict_pop k d = AList.delete k d"

definition dict_default :: "'k \<Rightarrow> 'v \<Rightarrow> ('k \<times> 'v) list \<Rightarrow> ('k \<times> 'v) list" where
  "dict_default k v d = (if map_of d k = None then d @ [(k, v)] else d)"

lemma map_of_dict_set [dict_simps]: "map_of (dict_set k v d) = (map_of d)(k \<mapsto> v)"
  by (simp add: dict_set_def update_conv')

lemma map_of_dict_pop [dict_simps]: "map_of (dict_pop k d) = (map_of d)(k := None)"
  by (simp add: dict_pop_def delete_conv')

lemma map_of_dict_default [dict_simps]:
  "map_of (dict_default k v d) = (if map_of d k = None then (map_of d)(k \<mapsto> v) else map_of d)"
  by (auto simp: dict_default_def map_add_def fun_eq_iff split: option.splits)

lemma distinct_dict_set: "distinct (map fst d) \<Longrightarrow> distinct (map fst (dict_set k v d))"
  by (simp add: dict_set_def distinct_update)

lemma distinct_dict_pop: "distinct (map fst d) \<Longrightarrow> distinct (map fst (dict_pop k d))"
  by (simp add: dict_pop_def distinct_delete)

lemma set_dict_set_subset: "set (dict_set k v d) \<subseteq> insert (k, v) (set d)"
  unfolding dict_set_def by (induction d) auto

lemma set_dict_pop_subset: "set (dict_pop k d) \<subseteq> set d"
  by (auto simp: dict_pop_def AList.delete_eq)

lemma keys_dict_set: "fst ` set (dict_set k v d) = insert k (fst ` set d)"
  by (simp add: dict_set_def dom_update)

lemma keys_dict_pop: "fst ` set (dict_pop k d) = fst ` set d - {k}"
  by (auto simp: dict_pop_def AList.delete_eq)

lemma length_dict_set:
  "length (dict_set k v d) = (if k \<in> fst ` set d then length d else Suc (length d))"
  unfolding dict_set_def by (induction d) auto

section \<open>Lists\<close>

text \<open>Python's \<open>xs[-n:]\<close> for positive \<open>n\<close>.\<close>

definition last_n :: "nat \<Rightarrow> 'a list \<Rightarrow> 'a list" where
  "last_n n xs = drop (length xs - n) xs"

lemma length_last_n [simp]: "length (last_n n xs) = min n (length xs)"
  by (simp add: last_n_def)

lemma set_last_n_subset: "set (last_n n xs) \<subseteq> set xs"
  by (simp add: last_n_def set_drop_subset)

lemma last_n_all: "length xs \<le> n \<Longrightarrow> last_n n xs = xs"
  by (simp add: last_n_def)

lemma distinct_last_n: "distinct xs \<Longrightarrow> distinct (last_n n xs)"
  by (simp add: last_n_def)

lemma last_n_snoc: "0 < n \<Longrightarrow> last_n n (xs @ [x]) = last_n (n - 1) xs @ [x]"
  by (cases "n \<le> length xs") (auto simp: last_n_def Suc_diff_le)

lemma find_SomeD: "find P xs = Some x \<Longrightarrow> P x \<and> x \<in> set xs"
  by (induction xs) (auto split: if_splits)

text \<open>\<open>rows.pop(i)\<close>: the element at a position and the list without it.\<close>

definition remove_at :: "nat \<Rightarrow> 'a list \<Rightarrow> 'a list" where
  "remove_at i xs = take i xs @ drop (Suc i) xs"

lemma set_remove_at: "i < length xs \<Longrightarrow> insert (xs ! i) (set (remove_at i xs)) = set xs"
  by (metis id_take_nth_drop list.simps(15) remove_at_def set_append Un_insert_right)

lemma distinct_remove_at:
  assumes "i < length xs" and "distinct xs"
  shows "distinct (remove_at i xs) \<and> xs ! i \<notin> set (remove_at i xs)"
proof -
  have "distinct (take i xs @ xs ! i # drop (Suc i) xs)"
    using assms id_take_nth_drop [OF assms(1)] by simp
  then show ?thesis by (auto simp: remove_at_def)
qed

lemma length_remove_at: "i < length xs \<Longrightarrow> length (remove_at i xs) = length xs - 1"
  by (simp add: remove_at_def)

end
