(* ===== verification/Py_Values.thy ===== *)
theory Py_Values
  imports Prelude
begin

text \<open>
  The dynamically typed values that \<open>jevops/proof_ca.py\<close> passes through its boundaries
  (policy answers, proposal payloads, verifier receipts, event payloads), their JSON text and
  the content digest. Floats are exact rationals plus the non-finite values; a mapping with a
  key that is not a string carries the items before the first such key and the items with string
  keys behind it; \<open>POther\<close> is any object JSON
  does not carry (a set, a function). SHA-256 and the number-to-text conversions of the standard
  library are the fields of \<open>pylib\<close>; everything else is defined here.
\<close>

section \<open>Values\<close>

datatype pyfloat = Finite rat | Infinite bool | NaN

datatype pyval =
    PNone
  | PBool bool
  | PInt int
  | PFloat pyfloat
  | PStr string
  | PList "pyval list"
  | PDict "(string \<times> pyval) list"
  | PBadKeys "(string \<times> pyval) list" "(string \<times> pyval) list"
  | POther string

type_synonym row = "(string \<times> pyval) list"

text \<open>Standard-library conversions: SHA-256 hex digest of a text, \<open>repr\<close> of a float, \<open>float(s)\<close>
  of a string, and \<open>str\<close> of a container.\<close>

record pylib =
  sha256_hex :: "string \<Rightarrow> string"
  float_repr :: "rat \<Rightarrow> string"
  float_of_text :: "string \<Rightarrow> pyfloat option"
  repr_of :: "pyval \<Rightarrow> string"

fun truthy :: "pyval \<Rightarrow> bool" where
  "truthy PNone = False"
| "truthy (PBool b) = b"
| "truthy (PInt i) = (i \<noteq> 0)"
| "truthy (PFloat (Finite r)) = (r \<noteq> 0)"
| "truthy (PFloat _) = True"
| "truthy (PStr s) = (s \<noteq> [])"
| "truthy (PList xs) = (xs \<noteq> [])"
| "truthy (PDict d) = (d \<noteq> [])"
| "truthy (PBadKeys _ _) = True"
| "truthy (POther _) = True"

text \<open>Decimal text of an integer.\<close>

fun nat_text :: "nat \<Rightarrow> string" where
  "nat_text n = (if n < 10 then [char_of (48 + n)] else nat_text (n div 10) @ [char_of (48 + n mod 10)])"

declare nat_text.simps [simp del]

definition int_text :: "int \<Rightarrow> string" where
  "int_text i = (if i < 0 then CHR ''-'' # nat_text (nat (- i)) else nat_text (nat i))"

text \<open>\<open>str(v)\<close>.\<close>

fun py_str :: "pylib \<Rightarrow> pyval \<Rightarrow> string" where
  "py_str L PNone = ''None''"
| "py_str L (PBool b) = (if b then ''True'' else ''False'')"
| "py_str L (PInt i) = int_text i"
| "py_str L (PFloat (Finite r)) = float_repr L r"
| "py_str L (PFloat (Infinite neg)) = (if neg then ''-inf'' else ''inf'')"
| "py_str L (PFloat NaN) = ''nan''"
| "py_str L (PStr s) = s"
| "py_str L v = repr_of L v"

text \<open>\<open>str(d.get(k) or "")\<close> and \<open>d.get(k)\<close>.\<close>

definition row_get :: "row \<Rightarrow> string \<Rightarrow> pyval" where
  "row_get d k = (case map_of d k of None \<Rightarrow> PNone | Some v \<Rightarrow> v)"

definition row_str :: "pylib \<Rightarrow> row \<Rightarrow> string \<Rightarrow> string" where
  "row_str L d k = (let v = row_get d k in if truthy v then py_str L v else [])"

text \<open>Iterating over a value: lists give their items, strings their characters, mappings their
  keys; numbers raise \<open>TypeError\<close>.\<close>

fun py_iter :: "pyval \<Rightarrow> exc + pyval list" where
  "py_iter (PList xs) = Inr xs"
| "py_iter (PStr s) = Inr (map (\<lambda>c. PStr [c]) s)"
| "py_iter (PDict d) = Inr (map (PStr \<circ> fst) d)"
| "py_iter _ = Inl TypeErr"

text \<open>\<open>tuple(str(item) for item in d.get(k) or ())\<close>.\<close>

definition row_strs :: "pylib \<Rightarrow> row \<Rightarrow> string \<Rightarrow> exc + string list" where
  "row_strs L d k = (let v = row_get d k in
     if truthy v then rbind (py_iter v) (\<lambda>xs. Inr (map (py_str L) xs)) else Inr [])"

text \<open>\<open>float(v)\<close>. An integer that would round to a power of two past the largest finite double raises
  \<open>OverflowError\<close>.\<close>

definition too_big :: "int \<Rightarrow> bool" where
  "too_big i \<longleftrightarrow> 2 ^ 1024 - 2 ^ 970 \<le> \<bar>i\<bar>"

fun py_float :: "pylib \<Rightarrow> pyval \<Rightarrow> exc + pyfloat" where
  "py_float L (PBool b) = Inr (Finite (if b then 1 else 0))"
| "py_float L (PInt i) = (if too_big i then Inl OverflowErr else Inr (Finite (of_int i)))"
| "py_float L (PFloat f) = Inr f"
| "py_float L (PStr s) = (case float_of_text L s of None \<Rightarrow> Inl (ValueErr ''could not convert string to float'') | Some f \<Rightarrow> Inr f)"
| "py_float L _ = Inl TypeErr"

section \<open>Canonical values, JSON text and digests\<close>

lemma size_item_less: "kv \<in> set d \<Longrightarrow> size (snd kv) < Suc (size_list (size_prod (\<lambda>_. 0) size) d)"
proof (induction d)
  case (Cons a d)
  then show ?case by (cases "kv = a") (simp_all add: size_prod_simp less_Suc_eq_le trans_le_add2)
qed simp

text \<open>\<open>_strict_value\<close>: reject non-finite numbers, non-string keys and foreign objects.\<close>

function strict_value :: "pyval \<Rightarrow> exc + pyval" where
  "strict_value PNone = Inr PNone"
| "strict_value (PBool b) = Inr (PBool b)"
| "strict_value (PInt i) = Inr (PInt i)"
| "strict_value (PStr s) = Inr (PStr s)"
| "strict_value (PFloat f) = (case f of Finite r \<Rightarrow> Inr (PFloat (Finite r)) | _ \<Rightarrow> Inl (ValidationError ''non_finite_number''))"
| "strict_value (PDict d) =
     rbind (rmap (\<lambda>kv. rbind (strict_value (snd kv)) (\<lambda>w. Inr (fst kv, w))) d) (\<lambda>e. Inr (PDict e))"
| "strict_value (PBadKeys d e) =
     rbind (rmap (\<lambda>kv. rbind (strict_value (snd kv)) (\<lambda>w. Inr (fst kv, w))) d)
       (\<lambda>_. Inl (ValidationError ''mapping_keys_must_be_strings''))"
| "strict_value (PList xs) = rbind (rmap strict_value xs) (\<lambda>ys. Inr (PList ys))"
| "strict_value (POther t) = Inl (ValidationError (''unsupported_serialization_type:'' @ t))"
  by pat_completeness auto
termination
  by (relation "measure size") (auto simp: size_item_less less_Suc_eq_le size_list_estimation' intro!: trans_le_add1)

text \<open>\<open>json.dumps(..., sort_keys=True)\<close> orders the items of every mapping by key.\<close>

primrec sort_keys :: "pyval \<Rightarrow> pyval" where
  "sort_keys PNone = PNone"
| "sort_keys (PBool b) = PBool b"
| "sort_keys (PInt i) = PInt i"
| "sort_keys (PFloat f) = PFloat f"
| "sort_keys (PStr s) = PStr s"
| "sort_keys (PList xs) = PList (map sort_keys xs)"
| "sort_keys (PDict d) = PDict (sort_key fst (map (map_prod id sort_keys) d))"
| "sort_keys (PBadKeys d e) = PBadKeys d e"
| "sort_keys (POther t) = POther t"

text \<open>JSON string escapes with \<open>ensure_ascii=False\<close>.\<close>

definition hex_digit :: "nat \<Rightarrow> char" where
  "hex_digit n = char_of (if n < 10 then 48 + n else 87 + n)"

definition json_char :: "char \<Rightarrow> string" where
  "json_char c =
     (if c = CHR 0x22 then [CHR 0x5C, CHR 0x22]
      else if c = CHR 0x5C then [CHR 0x5C, CHR 0x5C]
      else if c = CHR 0x0A then [CHR 0x5C, CHR ''n'']
      else if c = CHR 0x0D then [CHR 0x5C, CHR ''r'']
      else if c = CHR 0x09 then [CHR 0x5C, CHR ''t'']
      else if c = CHR 0x0C then [CHR 0x5C, CHR ''f'']
      else if c = CHR 0x08 then [CHR 0x5C, CHR ''b'']
      else if of_char c < (32 :: nat)
        then [CHR 0x5C, CHR ''u'', CHR ''0'', CHR ''0'', hex_digit (of_char c div 16), hex_digit (of_char c mod 16)]
      else [c])"

definition json_string :: "string \<Rightarrow> string" where
  "json_string s = [CHR 0x22] @ concat (map json_char s) @ [CHR 0x22]"

text \<open>Items separated by commas.\<close>

fun commas :: "string list \<Rightarrow> string" where
  "commas [] = []"
| "commas [x] = x"
| "commas (x # xs) = x @ '','' @ commas xs"

primrec json_text :: "pylib \<Rightarrow> pyval \<Rightarrow> string" where
  "json_text L PNone = ''null''"
| "json_text L (PBool b) = (if b then ''true'' else ''false'')"
| "json_text L (PInt i) = int_text i"
| "json_text L (PFloat f) = (case f of Finite r \<Rightarrow> float_repr L r | _ \<Rightarrow> [])"
| "json_text L (PStr s) = json_string s"
| "json_text L (PList xs) = ''['' @ commas (map (json_text L) xs) @ '']''"
| "json_text L (PDict d) = ''{'' @ commas (map (\<lambda>kv. json_string (fst kv) @ '':'' @ snd kv) (map (map_prod id (json_text L)) d)) @ ''}''"
| "json_text L (PBadKeys d e) = []"
| "json_text L (POther t) = []"

definition canonical_json :: "pylib \<Rightarrow> pyval \<Rightarrow> exc + string" where
  "canonical_json L v = rbind (strict_value v) (\<lambda>w. Inr (json_text L (sort_keys w)))"

definition sha256_digest :: "pylib \<Rightarrow> pyval \<Rightarrow> exc + string" where
  "sha256_digest L v = rbind (canonical_json L v) (\<lambda>t. Inr (''sha256:'' @ sha256_hex L t))"

text \<open>The digest of a value the program builds itself from strings and numbers, where the
  strict check cannot fail.\<close>

definition digest :: "pylib \<Rightarrow> pyval \<Rightarrow> string" where
  "digest L v = ''sha256:'' @ sha256_hex L (json_text L (sort_keys v))"

end
