(* ===== verification/CA_Types.thy ===== *)
theory CA_Types
  imports Py_Values
begin

text \<open>
  The immutable records of \<open>jevops/proof_ca.py\<close>: ground atoms, Horn rules, context
  identities, evidence, cells and their four state parts, edges, snapshots, policy answers,
  proposals, receipts, messages, and the resource ledger. A constructor that validates its
  fields (\<open>__post_init__\<close>) is a function \<open>mk_...\<close> into \<open>exc + record\<close>; a \<open>make\<close> method that
  computes a content digest is a function \<open>make_...\<close>.
\<close>

section \<open>Atoms and rules\<close>

definition schema_id :: string where
  "schema_id = ''jevops-proof-ca/v1''"

definition max_proposal_bytes :: nat where
  "max_proposal_bytes = 16384"

definition max_message_bytes :: nat where
  "max_message_bytes = 16384"

definition is_letter :: "char \<Rightarrow> bool" where
  "is_letter c = (let n = (of_char c :: nat) in 65 \<le> n \<and> n \<le> 90 \<or> 97 \<le> n \<and> n \<le> 122)"

definition is_digit :: "char \<Rightarrow> bool" where
  "is_digit c = (let n = (of_char c :: nat) in 48 \<le> n \<and> n \<le> 57)"

text \<open>The patterns \<open>_IDENT\<close> and \<open>_GROUND\<close>, matched against the whole text.\<close>

fun is_ident :: "string \<Rightarrow> bool" where
  "is_ident [] = False"
| "is_ident (c # cs) = (is_letter c \<and> list_all (\<lambda>d. is_letter d \<or> is_digit d \<or> d = CHR ''_'') cs)"

definition is_ground :: "string \<Rightarrow> bool" where
  "is_ground s = (s \<noteq> [] \<and> list_all (\<lambda>d. is_letter d \<or> is_digit d \<or> d \<in> set ''_./:-'') s)"

record atom =
  predicate :: string
  atom_args :: "string list"

definition mk_atom :: "string \<Rightarrow> string list \<Rightarrow> exc + atom" where
  "mk_atom p as =
     (if \<not> is_ident p then Inl (ValidationError ''invalid_predicate'')
      else if \<not> list_all is_ground as then Inl (ValidationError ''invalid_ground_argument'')
      else Inr \<lparr>predicate = p, atom_args = as\<rparr>)"

definition atom_key :: "atom \<Rightarrow> string" where
  "atom_key a = (if atom_args a = [] then predicate a
     else predicate a @ ''('' @ commas (atom_args a) @ '')'')"

definition atom_dict :: "atom \<Rightarrow> pyval" where
  "atom_dict a = PDict [(''predicate'', PStr (predicate a)), (''args'', PList (map PStr (atom_args a))),
     (''key'', PStr (atom_key a))]"

definition atom_from_dict :: "pylib \<Rightarrow> row \<Rightarrow> exc + atom" where
  "atom_from_dict L d = rbind (row_strs L d ''args'') (\<lambda>as. mk_atom (row_str L d ''predicate'') as)"

record hrule =
  rule_id :: string
  rule_premises :: "atom list"
  rule_conclusion :: atom

definition mk_rule :: "string \<Rightarrow> atom list \<Rightarrow> atom \<Rightarrow> exc + hrule" where
  "mk_rule rid ps c =
     (if \<not> is_ground rid then Inl (ValidationError ''invalid_rule_id'')
      else if \<not> distinct (map atom_key ps) then Inl (ValidationError ''duplicate_rule_premise'')
      else Inr \<lparr>rule_id = rid, rule_premises = ps, rule_conclusion = c\<rparr>)"

definition rule_dict :: "hrule \<Rightarrow> pyval" where
  "rule_dict r = PDict [(''rule_id'', PStr (rule_id r)), (''premises'', PList (map atom_dict (rule_premises r))),
     (''conclusion'', atom_dict (rule_conclusion r))]"

section \<open>Context identity\<close>

record context_identity =
  facts_revision :: string
  rules_revision :: string
  ctx_target :: string
  candidate_artifact :: string
  source_dependencies :: "string list"
  verifier_id :: string
  verifier_version :: string
  verifier_options :: row
  axiom_policy :: string
  ctx_schema :: string

text \<open>\<open>_pairs\<close>: the items of a mapping in key order, after the strict check.\<close>

definition pairs_of :: "row \<Rightarrow> exc + row" where
  "pairs_of d = rbind (strict_value (PDict d)) (\<lambda>_. Inr (sort_key fst d))"

definition mk_context :: "string \<Rightarrow> string \<Rightarrow> string \<Rightarrow> string \<Rightarrow> string list \<Rightarrow> string \<Rightarrow> string \<Rightarrow> row \<Rightarrow> string
    \<Rightarrow> exc + context_identity" where
  "mk_context facts rules tgt artifact deps vid vver opts axioms =
     (if facts = [] then Inl (ValidationError ''empty_context_facts_revision'')
      else if rules = [] then Inl (ValidationError ''empty_context_rules_revision'')
      else rbind (pairs_of opts) (\<lambda>ps. Inr
        \<lparr>facts_revision = facts, rules_revision = rules, ctx_target = tgt, candidate_artifact = artifact,
         source_dependencies = sort (remdups (filter (\<lambda>s. s \<noteq> []) deps)),
         verifier_id = vid, verifier_version = vver, verifier_options = ps, axiom_policy = axioms,
         ctx_schema = schema_id\<rparr>))"

definition context_dict :: "context_identity \<Rightarrow> pyval" where
  "context_dict c = PDict [(''schema'', PStr (ctx_schema c)), (''facts_revision'', PStr (facts_revision c)),
     (''rules_revision'', PStr (rules_revision c)), (''target'', PStr (ctx_target c)),
     (''candidate_artifact'', PStr (candidate_artifact c)),
     (''source_dependencies'', PList (map PStr (source_dependencies c))),
     (''verifier_id'', PStr (verifier_id c)), (''verifier_version'', PStr (verifier_version c)),
     (''verifier_options'', PDict (verifier_options c)), (''axiom_policy'', PStr (axiom_policy c))]"

definition context_id :: "pylib \<Rightarrow> context_identity \<Rightarrow> string" where
  "context_id L c = digest L (context_dict c)"

section \<open>Evidence\<close>

datatype evidence_kind = EK_TRUSTED_ASSUMPTION | EK_RULE_DERIVATION | EK_EXTERNAL_VERIFICATION
  | EK_COUNTEREXAMPLE | EK_TEST_OBSERVATION | EK_INCONCLUSIVE | EK_ERROR

datatype evidence_status = ES_ASSUMED | ES_VERIFIED | ES_COUNTEREXAMPLE | ES_INCONCLUSIVE
  | ES_ERROR | ES_TRANSIENT_FAILURE

fun evidence_kind_value :: "evidence_kind \<Rightarrow> string" where
  "evidence_kind_value EK_TRUSTED_ASSUMPTION = ''trusted_assumption''"
| "evidence_kind_value EK_RULE_DERIVATION = ''checked_rule_derivation''"
| "evidence_kind_value EK_EXTERNAL_VERIFICATION = ''external_verification''"
| "evidence_kind_value EK_COUNTEREXAMPLE = ''counterexample''"
| "evidence_kind_value EK_TEST_OBSERVATION = ''test_observation''"
| "evidence_kind_value EK_INCONCLUSIVE = ''inconclusive''"
| "evidence_kind_value EK_ERROR = ''error''"

fun evidence_status_value :: "evidence_status \<Rightarrow> string" where
  "evidence_status_value ES_ASSUMED = ''assumed''"
| "evidence_status_value ES_VERIFIED = ''verified''"
| "evidence_status_value ES_COUNTEREXAMPLE = ''counterexample''"
| "evidence_status_value ES_INCONCLUSIVE = ''inconclusive''"
| "evidence_status_value ES_ERROR = ''error''"
| "evidence_status_value ES_TRANSIENT_FAILURE = ''transient_failure''"

record evidence =
  evidence_id :: string
  ev_kind :: evidence_kind
  ev_status :: evidence_status
  subject :: atom
  ev_context :: string
  ev_rule :: string
  premise_atoms :: "string list"
  supporting_evidence :: "string list"
  ev_source :: string
  ev_details :: row

definition evidence_body :: "evidence_kind \<Rightarrow> evidence_status \<Rightarrow> atom \<Rightarrow> string \<Rightarrow> string \<Rightarrow> string list
    \<Rightarrow> string list \<Rightarrow> string \<Rightarrow> row \<Rightarrow> pyval" where
  "evidence_body k s a ctx rid ps spt src det = PDict
     [(''schema'', PStr schema_id), (''kind'', PStr (evidence_kind_value k)),
      (''status'', PStr (evidence_status_value s)), (''subject'', atom_dict a),
      (''context_id'', PStr ctx), (''rule_id'', PStr rid), (''premise_atoms'', PList (map PStr ps)),
      (''supporting_evidence'', PList (map PStr spt)), (''source'', PStr src), (''details'', PDict det)]"

text \<open>\<open>Evidence.make\<close>; its callers pass no details or a receipt that passed the strict check.\<close>

definition make_evidence :: "pylib \<Rightarrow> evidence_kind \<Rightarrow> evidence_status \<Rightarrow> atom \<Rightarrow> string \<Rightarrow> string
    \<Rightarrow> string list \<Rightarrow> string list \<Rightarrow> string \<Rightarrow> row \<Rightarrow> evidence" where
  "make_evidence L k s a ctx rid ps spt src det =
     \<lparr>evidence_id = digest L (evidence_body k s a ctx rid ps spt src det), ev_kind = k, ev_status = s,
      subject = a, ev_context = ctx, ev_rule = rid, premise_atoms = ps, supporting_evidence = spt,
      ev_source = src, ev_details = sort_key fst det\<rparr>"

definition authoritative :: "evidence \<Rightarrow> bool" where
  "authoritative e =
     (ev_kind e = EK_TRUSTED_ASSUMPTION \<and> ev_status e = ES_ASSUMED
      \<or> (ev_kind e = EK_RULE_DERIVATION \<or> ev_kind e = EK_EXTERNAL_VERIFICATION) \<and> ev_status e = ES_VERIFIED)"

definition evidence_dict :: "evidence \<Rightarrow> pyval" where
  "evidence_dict e = PDict
     [(''evidence_id'', PStr (evidence_id e)), (''kind'', PStr (evidence_kind_value (ev_kind e))),
      (''status'', PStr (evidence_status_value (ev_status e))), (''subject'', atom_dict (subject e)),
      (''context_id'', PStr (ev_context e)), (''rule_id'', PStr (ev_rule e)),
      (''premise_atoms'', PList (map PStr (premise_atoms e))),
      (''supporting_evidence'', PList (map PStr (supporting_evidence e))),
      (''source'', PStr (ev_source e)), (''details'', PDict (ev_details e))]"

section \<open>Cells and edges\<close>

datatype cell_type = CT_FACT | CT_RULE | CT_TARGET | CT_VERIFIER | CT_POLICY | CT_BUDGET

datatype edge_type = ET_PREMISE | ET_CONCLUSION | ET_DEPENDENCY | ET_VERIFIER

fun cell_type_value :: "cell_type \<Rightarrow> string" where
  "cell_type_value CT_FACT = ''fact''"
| "cell_type_value CT_RULE = ''rule''"
| "cell_type_value CT_TARGET = ''target''"
| "cell_type_value CT_VERIFIER = ''verifier''"
| "cell_type_value CT_POLICY = ''policy''"
| "cell_type_value CT_BUDGET = ''budget''"

fun edge_type_value :: "edge_type \<Rightarrow> string" where
  "edge_type_value ET_PREMISE = ''premise''"
| "edge_type_value ET_CONCLUSION = ''conclusion''"
| "edge_type_value ET_DEPENDENCY = ''dependency''"
| "edge_type_value ET_VERIFIER = ''verifier''"

record symbolic_state =
  sym_atom :: "atom option"
  sym_rule_id :: string
  sym_conclusion :: "atom option"
  sym_target :: bool
  sym_dependencies :: "string list"
  accepted_derivations :: "string list"
  obligation :: string
  target_identity :: string

record policy_state =
  activation :: rat
  latent_features :: "rat list"
  uncertainty :: rat
  observations :: nat
  last_answer :: "pyval option"

record runtime_state =
  version :: nat
  execution_status :: string
  pending_count :: nat
  resource_ref :: string

record cell =
  cell_id :: string
  cell_kind :: cell_type
  symbolic :: symbolic_state
  policy :: policy_state
  evidence_refs :: "string list"
  runtime :: runtime_state

definition default_symbolic :: symbolic_state where
  "default_symbolic = \<lparr>sym_atom = None, sym_rule_id = [], sym_conclusion = None, sym_target = False,
     sym_dependencies = [], accepted_derivations = [], obligation = [], target_identity = []\<rparr>"

definition default_policy :: policy_state where
  "default_policy = \<lparr>activation = 1 / 2, latent_features = [], uncertainty = 0, observations = 0, last_answer = None\<rparr>"

definition default_runtime :: runtime_state where
  "default_runtime = \<lparr>version = 0, execution_status = ''idle'', pending_count = 0, resource_ref = ''operations''\<rparr>"

record dependency_edge =
  edge_id :: string
  edge_source :: string
  edge_target :: string
  edge_kind :: edge_type
  edge_rule :: string
  premise_index :: "nat option"

definition make_edge :: "pylib \<Rightarrow> string \<Rightarrow> string \<Rightarrow> edge_type \<Rightarrow> string \<Rightarrow> nat option \<Rightarrow> dependency_edge" where
  "make_edge L src tgt k rid ix =
     \<lparr>edge_id = digest L (PDict
        [(''schema'', PStr schema_id), (''source'', PStr src), (''target'', PStr tgt),
         (''edge_type'', PStr (edge_type_value k)), (''rule_id'', PStr rid),
         (''premise_index'', case ix of None \<Rightarrow> PNone | Some i \<Rightarrow> PInt (int i))]),
      edge_source = src, edge_target = tgt, edge_kind = k, edge_rule = rid, premise_index = ix\<rparr>"

end
