(* ===== verification/CA_Protocol.thy ===== *)
theory CA_Protocol
  imports CA_Types
begin

text \<open>
  What crosses the boundary of the automaton of \<open>jevops/proof_ca.py\<close>: the snapshot a policy
  sees, its answer and proposal, the verifier's receipt, local messages, the metrics and the
  operation ledger. The policy and the verifier are not code of this program: a policy call
  yields any \<open>policy_result\<close>, a verifier call any \<open>verifier_result\<close>; the two policies the
  source ships are defined here.
\<close>

section \<open>Conversions\<close>

fun pair_item :: "pyval \<Rightarrow> exc + string \<times> pyval" where
  "pair_item (PList [PStr k, v]) = Inr (k, v)"
| "pair_item (PStr [a, b]) = Inr ([a], PStr [b])"
| "pair_item (PDict [(a, _), (b, _)]) = Inr (a, PStr b)"
| "pair_item (PList _) = Inl (ValueErr ''dictionary update sequence element'')"
| "pair_item (PStr _) = Inl (ValueErr ''dictionary update sequence element'')"
| "pair_item (PDict _) = Inl (ValueErr ''dictionary update sequence element'')"
| "pair_item _ = Inl TypeErr"

definition dict_of_pairs :: "('k \<times> 'v) list \<Rightarrow> ('k \<times> 'v) list" where
  "dict_of_pairs ps = fold (\<lambda>(k, v) d. dict_set k v d) ps []"

text \<open>\<open>dict(v or {})\<close>.\<close>

definition py_dict :: "pyval \<Rightarrow> exc + row" where
  "py_dict v = (if \<not> truthy v then Inr [] else
     (case v of PDict d \<Rightarrow> Inr d
      | PBadKeys d e \<Rightarrow> Inl (ValidationError ''mapping_keys_must_be_strings'')
      | PList xs \<Rightarrow> rbind (rmap pair_item xs) (\<lambda>ps. Inr (dict_of_pairs ps))
      | PStr s \<Rightarrow> rbind (rmap (\<lambda>c. pair_item (PStr [c])) s) (\<lambda>ps. Inr (dict_of_pairs ps))
      | _ \<Rightarrow> Inl TypeErr))"

text \<open>\<open>_finite_unit\<close>: a finite number between 0 and 1; an overflow is not caught.\<close>

definition finite_unit :: "pylib \<Rightarrow> string \<Rightarrow> pyval \<Rightarrow> exc + rat" where
  "finite_unit L fieldname v =
     (case py_float L v of
        Inl e \<Rightarrow> Inl (if e = OverflowErr then e else ValidationError (fieldname @ ''_must_be_numeric''))
      | Inr (Finite r) \<Rightarrow> if 0 \<le> r \<and> r \<le> 1 then Inr r else Inl (ValidationError (fieldname @ ''_out_of_range''))
      | Inr _ \<Rightarrow> Inl (ValidationError (fieldname @ ''_out_of_range'')))"

lemma finite_unit_range: "finite_unit L f v = Inr r \<Longrightarrow> 0 \<le> r \<and> r \<le> 1"
  by (auto simp: finite_unit_def split: sum.splits pyfloat.splits if_splits)

section \<open>Snapshots\<close>

record rule_observation =
  obs_rule_id :: string
  obs_premises :: "string list"
  obs_conclusion :: string
  obs_evidence :: "string list"
  obs_enabled :: bool

record neighbor_observation =
  nb_cell :: string
  nb_type :: string
  nb_edge :: string
  nb_atom :: string
  nb_accepted :: bool
  nb_activation :: rat
  nb_version :: nat

record local_snapshot =
  sn_context :: string
  sn_cell :: string
  sn_cell_type :: string
  sn_atom :: string
  sn_rule :: string
  sn_step :: nat
  mandatory_dependencies :: "string list"
  enabled_rules :: "rule_observation list"
  neighbor_summaries :: "neighbor_observation list"
  full_neighbor_count :: nat
  feature_map :: row
  allowed_actions :: "string list"
  sn_fingerprint :: string

section \<open>Actions, answers and proposals\<close>

datatype action_type = ATTEMPT_RULE | REQUEST_DEPENDENCY | REQUEST_EXTERNAL_VERIFICATION
  | UPDATE_POLICY | DEFER

fun action_value :: "action_type \<Rightarrow> string" where
  "action_value ATTEMPT_RULE = ''attempt_rule''"
| "action_value REQUEST_DEPENDENCY = ''request_dependency''"
| "action_value REQUEST_EXTERNAL_VERIFICATION = ''request_external_verification''"
| "action_value UPDATE_POLICY = ''update_policy''"
| "action_value DEFER = ''defer''"

definition all_actions :: "action_type list" where
  "all_actions = [ATTEMPT_RULE, REQUEST_DEPENDENCY, REQUEST_EXTERNAL_VERIFICATION, UPDATE_POLICY, DEFER]"

definition action_of_value :: "string \<Rightarrow> exc + action_type" where
  "action_of_value s = (case find (\<lambda>a. action_value a = s) all_actions of
     None \<Rightarrow> Inl (ValueErr ''not a valid ActionType'') | Some a \<Rightarrow> Inr a)"

record policy_answer =
  selected :: string
  probabilities :: "(string \<times> rat) list"
  confidence :: "rat option"
  question_version :: string
  model_id :: string
  fixture :: bool
  raw :: row

definition mk_policy_answer :: "pylib \<Rightarrow> string \<Rightarrow> (string \<times> pyval) list \<Rightarrow> pyval \<Rightarrow> string \<Rightarrow> string \<Rightarrow> bool
    \<Rightarrow> row \<Rightarrow> exc + policy_answer" where
  "mk_policy_answer L sel probs conf qv mid fx rw =
     rbind (ensure (sel \<noteq> []) (PolicyOutputError ''missing_policy_selection'')) (\<lambda>_.
     rbind (rmap (\<lambda>kv. rbind (finite_unit L ''probability'' (snd kv)) (\<lambda>r. Inr (fst kv, r))) probs) (\<lambda>ps.
     rbind (ensure (\<not> sum_list (map snd ps) > 1000001 / 1000000) (PolicyOutputError ''probabilities_sum_over_one'')) (\<lambda>_.
     rbind (if conf = PNone then Inr None else rbind (finite_unit L ''confidence'' conf) (\<lambda>r. Inr (Some r))) (\<lambda>cf.
     rbind (pairs_of rw) (\<lambda>rws. Inr
       \<lparr>selected = sel, probabilities = ps, confidence = cf, question_version = qv, model_id = mid,
        fixture = fx, raw = rws\<rparr>)))))"

definition answer_dict :: "policy_answer \<Rightarrow> pyval" where
  "answer_dict a = PDict
     [(''selected'', PStr (selected a)),
      (''probabilities'', PDict (map (\<lambda>(k, r). (k, PFloat (Finite r))) (dict_of_pairs (probabilities a)))),
      (''confidence'', case confidence a of None \<Rightarrow> PNone | Some r \<Rightarrow> PFloat (Finite r)),
      (''question_version'', PStr (question_version a)), (''model_id'', PStr (model_id a)),
      (''fixture'', PBool (fixture a)), (''raw'', PDict (raw a))]"

text \<open>\<open>PolicyAnswer.from_mapping\<close>: the choice and every probability key must be allowed actions.\<close>

definition get_default :: "row \<Rightarrow> string \<Rightarrow> pyval \<Rightarrow> pyval" where
  "get_default d k v = (case map_of d k of None \<Rightarrow> v | Some w \<Rightarrow> w)"

definition answer_from_mapping :: "pylib \<Rightarrow> row \<Rightarrow> string list \<Rightarrow> exc + policy_answer" where
  "answer_from_mapping L d allowed =
     (case get_default d ''selected'' (get_default d ''choice'' (row_get d ''action'')) of
        PStr sel \<Rightarrow>
          if sel \<notin> set allowed then Inl (PolicyOutputError ''choice_outside_allowed_action_set'')
          else (case get_default d ''probabilities'' (get_default d ''distribution'' (PDict [])) of
              PBadKeys _ _ \<Rightarrow> Inl (PolicyOutputError ''probability_choice_outside_allowed_action_set'')
            | pv \<Rightarrow>
              rbind (case pv of PNone \<Rightarrow> Inr [] | PDict ps \<Rightarrow> Inr ps
                     | _ \<Rightarrow> Inl (PolicyOutputError ''probabilities_must_be_mapping'')) (\<lambda>ps.
              rbind (ensure (\<forall>kv \<in> set ps. fst kv \<in> set allowed)
                 (PolicyOutputError ''probability_choice_outside_allowed_action_set'')) (\<lambda>_.
              rbind (strict_value (PDict d)) (\<lambda>_.
              rbind (rmap (\<lambda>kv. rbind (py_float L (snd kv)) (\<lambda>f. Inr (fst kv, PFloat f))) ps) (\<lambda>fs.
              mk_policy_answer L sel fs (row_get d ''confidence'') (row_str L d ''question_version'')
                (row_str L d ''model_id'') (truthy (get_default d ''fixture'' (PBool False))) d)))))
      | _ \<Rightarrow> Inl (PolicyOutputError ''choice_outside_allowed_action_set''))"

record proposal =
  proposal_id :: string
  pr_context :: string
  target_cell :: string
  action :: action_type
  payload :: row
  dependency_fingerprint :: string
  idempotency_key :: string
  pr_answer :: "policy_answer option"

definition mk_proposal :: "pylib \<Rightarrow> string \<Rightarrow> string \<Rightarrow> string \<Rightarrow> action_type \<Rightarrow> row \<Rightarrow> string \<Rightarrow> string
    \<Rightarrow> policy_answer option \<Rightarrow> exc + proposal" where
  "mk_proposal L pid ctx tcell act pl fpr idem ans =
     rbind (ensure (pid \<noteq> [] \<and> ctx \<noteq> []) (ValidationError ''proposal_identity_missing'')) (\<lambda>_.
     rbind (ensure (tcell \<noteq> []) (ValidationError ''proposal_target_missing'')) (\<lambda>_.
     rbind (pairs_of pl) (\<lambda>ps.
     rbind (canonical_json L (PDict ps)) (\<lambda>t.
     rbind (ensure (\<not> length t > max_proposal_bytes) (ValidationError ''proposal_payload_too_large'')) (\<lambda>_.
     rbind (ensure (fpr \<noteq> []) (ValidationError ''proposal_dependency_fingerprint_missing'')) (\<lambda>_.
     rbind (ensure (idem \<noteq> []) (ValidationError ''proposal_idempotency_missing'')) (\<lambda>_. Inr
       \<lparr>proposal_id = pid, pr_context = ctx, target_cell = tcell, action = act, payload = ps,
        dependency_fingerprint = fpr, idempotency_key = idem, pr_answer = ans\<rparr>)))))))"

definition proposal_body :: "string \<Rightarrow> string \<Rightarrow> action_type \<Rightarrow> row \<Rightarrow> string \<Rightarrow> policy_answer option \<Rightarrow> pyval" where
  "proposal_body ctx tcell act pl fpr ans = PDict
     [(''schema'', PStr schema_id), (''context_id'', PStr ctx), (''target_cell'', PStr tcell),
      (''action'', PStr (action_value act)), (''payload'', PDict pl),
      (''dependency_fingerprint'', PStr fpr),
      (''answer'', case ans of None \<Rightarrow> PNone | Some a \<Rightarrow> answer_dict a)]"

definition make_proposal :: "pylib \<Rightarrow> string \<Rightarrow> string \<Rightarrow> action_type \<Rightarrow> row \<Rightarrow> string \<Rightarrow> policy_answer option
    \<Rightarrow> string \<Rightarrow> exc + proposal" where
  "make_proposal L ctx tcell act pl fpr ans idem =
     rbind (sha256_digest L (proposal_body ctx tcell act pl fpr ans)) (\<lambda>pid.
     mk_proposal L pid ctx tcell act pl fpr (if idem \<noteq> [] then idem else pid) ans)"

text \<open>What a call of an injected policy yields.\<close>

datatype policy_result =
    OutPolicyOutput proposal policy_answer
  | OutProposal proposal
  | OutMapping row
  | OutOther
  | OutRaises exc

section \<open>The policies the source ships\<close>

definition deterministic_defer :: "pylib \<Rightarrow> local_snapshot \<Rightarrow> exc + proposal \<times> policy_answer" where
  "deterministic_defer L sn =
     rbind (mk_policy_answer L (action_value DEFER) [(action_value DEFER, PFloat (Finite 1))] PNone
       ''deterministic/v1'' ''deterministic-baseline'' True []) (\<lambda>ans.
     rbind (make_proposal L (sn_context sn) (sn_cell sn) DEFER [(''reason'', PStr ''no_enabled_rule'')]
       (sn_fingerprint sn) (Some ans) []) (\<lambda>p. Inr (p, ans)))"

definition deterministic_propose :: "pylib \<Rightarrow> local_snapshot \<Rightarrow> string list \<Rightarrow> exc + proposal \<times> policy_answer" where
  "deterministic_propose L sn allowed =
     (case enabled_rules sn of
        ob # _ \<Rightarrow>
          if action_value ATTEMPT_RULE \<in> set allowed then
            rbind (mk_policy_answer L (action_value ATTEMPT_RULE)
                [(action_value ATTEMPT_RULE, PFloat (Finite 1))] PNone ''deterministic/v1''
                ''deterministic-baseline'' True
                [(''selected'', PStr (action_value ATTEMPT_RULE)), (''rule_id'', PStr (obs_rule_id ob))]) (\<lambda>ans.
            rbind (make_proposal L (sn_context sn) (sn_cell sn) ATTEMPT_RULE
                [(''rule_id'', PStr (obs_rule_id ob)), (''conclusion'', PStr (obs_conclusion ob)),
                 (''premises'', PList (map PStr (obs_premises ob))),
                 (''premise_evidence'', PList (map PStr (obs_evidence ob)))]
                (sn_fingerprint sn) (Some ans) []) (\<lambda>p. Inr (p, ans)))
          else deterministic_defer L sn
      | [] \<Rightarrow> deterministic_defer L sn)"

definition jev_keys :: "string list" where
  "jev_keys = [''rule_id'', ''conclusion'', ''premises'', ''premise_evidence'', ''dependency_cell_id'', ''target'']"

text \<open>Top-level keys of an answer that its payload does not have yet.\<close>

definition merge_payload :: "row \<Rightarrow> row \<Rightarrow> row" where
  "merge_payload d pl = fold (\<lambda>k q. case map_of d k of
     None \<Rightarrow> q | Some v \<Rightarrow> dict_default k v q) jev_keys pl"

text \<open>\<open>JevPolicyAdapter.propose\<close> on what the injected answer function returned; \<open>mid\<close>, \<open>qv\<close> and
  \<open>fx\<close> are the adapter's own fields.\<close>

definition jev_propose :: "pylib \<Rightarrow> string \<Rightarrow> string \<Rightarrow> bool \<Rightarrow> pyval \<Rightarrow> local_snapshot \<Rightarrow> string list
    \<Rightarrow> exc + proposal \<times> policy_answer" where
  "jev_propose L mid qv fx ret sn allowed =
     (case ret of
        PDict d0 \<Rightarrow>
          (let d = dict_default ''fixture'' (PBool fx) (dict_default ''model_id'' (PStr mid)
                 (dict_default ''question_version'' (PStr qv) d0))
           in rbind (answer_from_mapping L d allowed) (\<lambda>ans.
              rbind (py_dict (row_get d ''payload'')) (\<lambda>pl0.
              let pl1 = merge_payload d pl0;
                  pl2 = (if selected ans = action_value ATTEMPT_RULE \<and> map_of pl1 ''rule_id'' = None then
                     (let pl = dict_set ''rule_id'' (PStr (sn_rule sn)) pl1 in
                      case find (\<lambda>ob. obs_rule_id ob = sn_rule sn) (enabled_rules sn) of
                        None \<Rightarrow> pl
                      | Some ob \<Rightarrow> dict_set ''premise_evidence'' (PList (map PStr (obs_evidence ob)))
                          (dict_set ''premises'' (PList (map PStr (obs_premises ob)))
                            (dict_set ''conclusion'' (PStr (obs_conclusion ob)) pl)))
                    else pl1)
              in rbind (action_of_value (selected ans)) (\<lambda>act.
                 rbind (make_proposal L (sn_context sn) (sn_cell sn) act pl2 (sn_fingerprint sn) (Some ans)
                   (row_str L d ''idempotency_key'')) (\<lambda>p. Inr (p, ans))))))
      | PBadKeys d e \<Rightarrow> Inl (PolicyOutputError ''choice_outside_allowed_action_set'')
      | _ \<Rightarrow> Inl (PolicyOutputError ''policy_answer_must_be_mapping''))"

section \<open>Verifier receipts\<close>

datatype verification_status = VS_VERIFIED | VS_COUNTEREXAMPLE | VS_INCONCLUSIVE
  | VS_TRANSIENT_FAILURE | VS_ERROR

fun verification_status_value :: "verification_status \<Rightarrow> string" where
  "verification_status_value VS_VERIFIED = ''verified''"
| "verification_status_value VS_COUNTEREXAMPLE = ''counterexample''"
| "verification_status_value VS_INCONCLUSIVE = ''inconclusive''"
| "verification_status_value VS_TRANSIENT_FAILURE = ''transient_failure''"
| "verification_status_value VS_ERROR = ''error''"

definition verification_status_of :: "string \<Rightarrow> exc + verification_status" where
  "verification_status_of s =
     (case find (\<lambda>v. verification_status_value v = s)
        [VS_VERIFIED, VS_COUNTEREXAMPLE, VS_INCONCLUSIVE, VS_TRANSIENT_FAILURE, VS_ERROR] of
        None \<Rightarrow> Inl (ValueErr ''not a valid VerificationStatus'') | Some v \<Rightarrow> Inr v)"

record verification_request =
  vr_context :: string
  vr_target :: string
  vr_artifact :: string
  vr_dependencies :: "string list"
  vr_verifier :: string
  vr_version :: string
  vr_options :: row
  vr_axiom_policy :: string

record receipt =
  receipt_id :: string
  rc_context :: string
  rc_target :: string
  rc_status :: verification_status
  rc_verifier :: string
  rc_version :: string
  rc_artifact :: string
  rc_dependencies :: "string list"
  rc_details :: row

definition mk_receipt :: "string \<Rightarrow> string \<Rightarrow> string \<Rightarrow> verification_status \<Rightarrow> string \<Rightarrow> string \<Rightarrow> string
    \<Rightarrow> string list \<Rightarrow> row \<Rightarrow> exc + receipt" where
  "mk_receipt rid ctx tgt st vid vver art deps det =
     (if rid = [] \<or> ctx = [] \<or> tgt = [] then Inl (ValidationError ''verification_receipt_identity_missing'')
      else rbind (pairs_of det) (\<lambda>ps. Inr
        \<lparr>receipt_id = rid, rc_context = ctx, rc_target = tgt, rc_status = st, rc_verifier = vid,
         rc_version = vver, rc_artifact = art, rc_dependencies = sort (remdups deps), rc_details = ps\<rparr>))"

definition receipt_dict :: "receipt \<Rightarrow> pyval" where
  "receipt_dict r = PDict
     [(''receipt_id'', PStr (receipt_id r)), (''context_id'', PStr (rc_context r)),
      (''target'', PStr (rc_target r)), (''status'', PStr (verification_status_value (rc_status r))),
      (''verifier_id'', PStr (rc_verifier r)), (''verifier_version'', PStr (rc_version r)),
      (''candidate_artifact'', PStr (rc_artifact r)),
      (''source_dependencies'', PList (map PStr (rc_dependencies r))), (''details'', PDict (rc_details r))]"

text \<open>\<open>from_mapping\<close> looks its fields up, so items under other keys do not matter to it.\<close>

definition receipt_from_mapping :: "pylib \<Rightarrow> pyval \<Rightarrow> exc + receipt" where
  "receipt_from_mapping L v =
     rbind (case v of PDict d \<Rightarrow> Inr d | PBadKeys d e \<Rightarrow> Inr (d @ e) | _ \<Rightarrow> Inl AttributeErr) (\<lambda>d.
          rbind (verification_status_of (row_str L d ''status'')) (\<lambda>st.
          rbind (row_strs L d ''source_dependencies'') (\<lambda>deps.
          rbind (py_dict (row_get d ''details'')) (\<lambda>det.
          rbind (pairs_of det) (\<lambda>ps.
          mk_receipt (row_str L d ''receipt_id'') (row_str L d ''context_id'') (row_str L d ''target'') st
            (row_str L d ''verifier_id'') (row_str L d ''verifier_version'')
            (row_str L d ''candidate_artifact'') deps ps)))))"

datatype verifier_result = VerReceipt receipt | VerMapping pyval | VerRaises exc

section \<open>Messages, metrics and the operation ledger\<close>

record message =
  message_id :: string
  ms_context :: string
  ms_source :: string
  ms_target :: string
  ms_kind :: string
  ms_payload :: row

definition message_body :: "string \<Rightarrow> string \<Rightarrow> string \<Rightarrow> string \<Rightarrow> row \<Rightarrow> pyval" where
  "message_body ctx src tgt k pl = PDict
     [(''schema'', PStr schema_id), (''context_id'', PStr ctx), (''source_cell'', PStr src),
      (''target_cell'', PStr tgt), (''kind'', PStr k), (''payload'', PDict pl)]"

definition make_message :: "pylib \<Rightarrow> string \<Rightarrow> string \<Rightarrow> string \<Rightarrow> string \<Rightarrow> row \<Rightarrow> message" where
  "make_message L ctx src tgt k pl =
     \<lparr>message_id = digest L (message_body ctx src tgt k pl), ms_context = ctx, ms_source = src,
      ms_target = tgt, ms_kind = k, ms_payload = sort_key fst pl\<rparr>"

definition message_dict :: "message \<Rightarrow> row" where
  "message_dict m =
     [(''message_id'', PStr (message_id m)), (''context_id'', PStr (ms_context m)),
      (''source_cell'', PStr (ms_source m)), (''target_cell'', PStr (ms_target m)),
      (''kind'', PStr (ms_kind m)), (''payload'', PDict (ms_payload m))]"

record metrics =
  cells_visited :: nat
  edges_traversed :: nat
  messages_delivered :: nat
  policy_calls :: nat
  rule_attempts :: nat
  verifier_attempts :: nat
  policy_rejections :: nat
  duplicate_messages :: nat
  retrieval_requests :: nat
  steps :: nat

definition zero_metrics :: metrics where
  "zero_metrics = \<lparr>cells_visited = 0, edges_traversed = 0, messages_delivered = 0, policy_calls = 0,
     rule_attempts = 0, verifier_attempts = 0, policy_rejections = 0, duplicate_messages = 0,
     retrieval_requests = 0, steps = 0\<rparr>"

record ledger =
  operation_limit :: "int option"
  consumed :: int
  reservations :: "(string \<times> int) list"

definition mk_ledger :: "int option \<Rightarrow> int \<Rightarrow> (string \<times> int) list \<Rightarrow> exc + ledger" where
  "mk_ledger lmt used res =
     (if (case lmt of None \<Rightarrow> False | Some n \<Rightarrow> n < 0) then Inl (ValidationError ''negative_operation_budget'')
      else if used < 0 then Inl (ValidationError ''negative_consumed_budget'')
      else if (case lmt of None \<Rightarrow> False | Some n \<Rightarrow> used > n) then Inl (ValidationError ''consumed_budget_exceeds_limit'')
      else Inr \<lparr>operation_limit = lmt, consumed = used, reservations = res\<rparr>)"

definition remaining :: "ledger \<Rightarrow> int option" where
  "remaining l = (case operation_limit l of None \<Rightarrow> None | Some n \<Rightarrow> Some (max 0 (n - consumed l)))"

definition remaining_val :: "ledger \<Rightarrow> pyval" where
  "remaining_val l = (case remaining l of None \<Rightarrow> PNone | Some n \<Rightarrow> PInt n)"

definition reserve :: "ledger \<Rightarrow> string \<Rightarrow> int \<Rightarrow> exc + ledger \<times> row" where
  "reserve l key amount =
     (if key = [] \<or> amount \<le> 0 then Inl (ValidationError ''invalid_resource_reservation'')
      else if map_of (reservations l) key \<noteq> None
        then Inr (l, [(''reserved'', PBool False), (''duplicate'', PBool True), (''remaining'', remaining_val l)])
      else if (case remaining l of None \<Rightarrow> False | Some n \<Rightarrow> n < amount)
        then Inr (l, [(''reserved'', PBool False), (''exhausted'', PBool True), (''remaining'', remaining_val l)])
      else (let l' = l\<lparr>reservations := dict_set key amount (reservations l), consumed := consumed l + amount\<rparr>
        in Inr (l', [(''reserved'', PBool True), (''duplicate'', PBool False), (''remaining'', remaining_val l')])))"

text \<open>The ledger's invariant: what is consumed is the sum of the reservations, and never more
  than the limit.\<close>

definition ledger_ok :: "ledger \<Rightarrow> bool" where
  "ledger_ok l \<longleftrightarrow> 0 \<le> consumed l \<and> (case operation_limit l of None \<Rightarrow> True | Some n \<Rightarrow> consumed l \<le> n)"

lemma mk_ledger_ok: "mk_ledger lmt used res = Inr l \<Longrightarrow> ledger_ok l"
  by (auto simp: mk_ledger_def ledger_ok_def split: if_splits option.splits)

lemma reserve_cases:
  assumes "reserve l key amount = Inr (l', r)"
  obtains "l' = l" "row_get r ''reserved'' = PBool False"
  | "l' = l\<lparr>reservations := dict_set key amount (reservations l), consumed := consumed l + amount\<rparr>"
    "row_get r ''reserved'' = PBool True" "0 < amount" "map_of (reservations l) key = None"
    "\<And>n. remaining l = Some n \<Longrightarrow> amount \<le> n"
proof -
  show ?thesis
    using assms by (auto simp: reserve_def Let_def row_get_def split: if_splits option.splits intro: that)
qed

lemma reserve_ledger_ok:
  assumes "ledger_ok l" and "reserve l key amount = Inr (l', r)"
  shows "ledger_ok l'"
  using assms(2)
proof (cases rule: reserve_cases)
  case 1
  with assms(1) show ?thesis by simp
next
  case 2
  then show ?thesis using assms(1)
    by (auto simp: ledger_ok_def remaining_def split: option.splits)
qed

end
