(* ===== verification/CA_State.thy ===== *)
theory CA_State
  imports CA_Protocol
begin

text \<open>
  The state of \<open>ProofGraphCA\<close> in \<open>jevops/proof_ca.py\<close>, its construction, and the message
  queue. \<open>ca_config\<close> holds what the constructor fixes (the atom universe, the rules sorted by
  id, the declared assumptions and targets, the context, the limits); \<open>ca\<close> holds what the
  operations change. Dictionaries are association lists in insertion order. An operation that
  may raise returns \<open>(exc + result) \<times> ca\<close>: the state at the point of the exception is kept,
  as Python keeps it.
\<close>

section \<open>Configuration and state\<close>

record ca_config =
  lib :: pylib
  atoms :: "atom list"
  predicate_table :: "(string \<times> int) list"
  rules :: "hrule list"
  assumptions :: "atom list"
  targets :: "atom list"
  ca_context :: context_identity
  neighbor_limit :: nat
  max_events :: nat
  max_evidence :: nat
  has_verifier :: bool
  has_rng :: bool

record ca =
  cells :: "(string \<times> cell) list"
  edges :: "(string \<times> dependency_edge) list"
  forward_edges :: "(string \<times> string list) list"
  reverse_edges :: "(string \<times> string list) list"
  rules_by_premise :: "(string \<times> string list) list"
  rules_by_conclusion :: "(string \<times> string list) list"
  evidence_store :: "(string \<times> evidence) list"
  historical_evidence :: "(string \<times> evidence) list"
  fact_evidence :: "(string \<times> string list) list"
  accepted_facts :: "string set"
  pending_messages :: "message list"
  delivered_message_ids :: "string set"
  ready_queue :: "string list"
  queued_rules :: "string set"
  applied_proposals :: "(string \<times> row) list"
  idempotency_keys :: "(string \<times> string) list"
  verification_cache :: "(string \<times> row) list"
  policy_retrievals :: "row list"
  event_log :: "row list"
  event_sequence :: nat
  scheduler_step :: nat
  runtime_error :: "string option"
  mets :: metrics
  resources :: ledger

type_synonym 'a act = "(exc + 'a) \<times> ca"

fun pbind :: "'a act \<Rightarrow> ('a \<Rightarrow> ca \<Rightarrow> 'b act) \<Rightarrow> 'b act" where
  "pbind (Inl e, s) f = (Inl e, s)"
| "pbind (Inr x, s) f = f x s"

definition lift_res :: "exc + 'a \<Rightarrow> ca \<Rightarrow> 'a act" where
  "lift_res r s = (r, s)"

definition atom_by_key :: "ca_config \<Rightarrow> string \<Rightarrow> atom option" where
  "atom_by_key C k = find (\<lambda>a. atom_key a = k) (atoms C)"

definition rule_by_id :: "ca_config \<Rightarrow> string \<Rightarrow> hrule option" where
  "rule_by_id C rid = find (\<lambda>r. rule_id r = rid) (rules C)"

abbreviation cid_of :: "ca_config \<Rightarrow> string" where
  "cid_of C \<equiv> context_id (lib C) (ca_context C)"

definition fact_prefix :: string where "fact_prefix = ''cell://fact/''"
definition rule_prefix :: string where "rule_prefix = ''cell://rule/''"

definition fact_cell_id :: "string \<Rightarrow> string" where
  "fact_cell_id k = fact_prefix @ k"

definition rule_cell_id :: "string \<Rightarrow> string" where
  "rule_cell_id rid = rule_prefix @ rid"

section \<open>Validation of the declared system\<close>

definition rule_atoms :: "hrule \<Rightarrow> atom list" where
  "rule_atoms r = rule_premises r @ [rule_conclusion r]"

definition validate_universe :: "atom list \<Rightarrow> hrule list \<Rightarrow> (string \<times> int) list \<Rightarrow> exc + unit" where
  "validate_universe as rs table =
     rbind (ensure (as \<noteq> []) (ValidationError ''empty_atom_universe'')) (\<lambda>_.
     rbind (ensure (distinct (map atom_key as)) (ValidationError ''duplicate_declared_atom'')) (\<lambda>_.
     (let missing = sort (filter (\<lambda>k. k \<notin> set (map atom_key as))
            (map atom_key (as @ concat (map rule_atoms rs)))) in
     rbind (case missing of [] \<Rightarrow> Inr () | k # _ \<Rightarrow> Inl (ValidationError (''undeclared_atom:'' @ k))) (\<lambda>_.
     if table = [] then Inr ()
     else rbind (rmap (\<lambda>na. ensure (is_ident (fst na) \<and> 0 \<le> snd na) (ValidationError ''malformed_predicate_table'')) table) (\<lambda>_.
       rbind (rmap (\<lambda>a. ensure (map_of table (predicate a) = Some (int (length (atom_args a))))
          (ValidationError (''predicate_arity_mismatch:'' @ atom_key a))) as) (\<lambda>_. Inr ()))))))"

primrec predicate_fold :: "atom list \<Rightarrow> (string \<times> int) list \<Rightarrow> exc + (string \<times> int) list" where
  "predicate_fold [] t = Inr t"
| "predicate_fold (a # as) t =
     (let n = int (length (atom_args a)); t' = dict_default (predicate a) n t in
      if map_of t' (predicate a) \<noteq> Some n then Inl (ValidationError (''predicate_arity_mismatch:'' @ predicate a))
      else predicate_fold as t')"

definition build_predicate_table :: "atom list \<Rightarrow> (string \<times> int) list \<Rightarrow> exc + (string \<times> int) list" where
  "build_predicate_table as table = rbind (predicate_fold as []) (\<lambda>t.
     Inr (fold (\<lambda>(n, k) d. dict_set n k d) table t))"

definition validate_rules :: "atom list \<Rightarrow> hrule list \<Rightarrow> exc + hrule list" where
  "validate_rules as rs =
     rbind (ensure (distinct (map rule_id rs)) (ValidationError ''duplicate_rule_id'')) (\<lambda>_.
     rbind (rmap (\<lambda>r. ensure (\<forall>a \<in> set (rule_atoms r). atom_key a \<in> set (map atom_key as))
        (ValidationError (''rule_uses_undeclared_atom:'' @ rule_id r))) rs) (\<lambda>_.
     Inr (sort_key rule_id rs)))"

definition validate_atom_list :: "atom list \<Rightarrow> atom list \<Rightarrow> string \<Rightarrow> exc + atom list" where
  "validate_atom_list as rows what =
     rbind (ensure (distinct (map atom_key rows)) (ValidationError (''duplicate_'' @ what @ ''_atom''))) (\<lambda>_.
     rbind (rmap (\<lambda>a. ensure (atom_key a \<in> set (map atom_key as))
        (ValidationError (what @ ''_uses_undeclared_atom:'' @ atom_key a))) rows) (\<lambda>_. Inr rows))"

definition default_context :: "pylib \<Rightarrow> atom list \<Rightarrow> hrule list \<Rightarrow> atom list \<Rightarrow> exc + context_identity" where
  "default_context L as rs assume_rows =
     mk_context
       (digest L (PDict [(''atoms'', PList (map atom_dict as)),
          (''assumptions'', PList (map (\<lambda>a. PStr (atom_key a)) assume_rows))]))
       (digest L (PList (map rule_dict rs))) [] [] [] [] [] [] []"

text \<open>The checks and defaults at the top of \<open>__init__\<close>.\<close>

definition mk_config :: "pylib \<Rightarrow> atom list \<Rightarrow> hrule list \<Rightarrow> atom list \<Rightarrow> atom list \<Rightarrow> (string \<times> int) list
    \<Rightarrow> context_identity option \<Rightarrow> nat \<Rightarrow> nat \<Rightarrow> nat \<Rightarrow> bool \<Rightarrow> bool \<Rightarrow> exc + ca_config" where
  "mk_config L as rs asm tgts table ctxo nlimit mevents mevidence ver rng =
     rbind (validate_universe as rs table) (\<lambda>_.
     rbind (build_predicate_table as table) (\<lambda>t.
     rbind (validate_rules as rs) (\<lambda>srs.
     rbind (validate_atom_list as asm ''assumptions'') (\<lambda>asm'.
     rbind (validate_atom_list as tgts ''targets'') (\<lambda>tgts'.
     rbind (case ctxo of Some c \<Rightarrow> Inr c | None \<Rightarrow> default_context L as srs asm') (\<lambda>c. Inr
       \<lparr>lib = L, atoms = as, predicate_table = t, rules = srs, assumptions = asm', targets = tgts',
        ca_context = c, neighbor_limit = max 1 nlimit, max_events = max 1 mevents,
        max_evidence = max 1 mevidence, has_verifier = ver, has_rng = rng\<rparr>))))))"

section \<open>The dependency graph\<close>

definition dict_append :: "'k \<Rightarrow> 'v \<Rightarrow> ('k \<times> 'v list) list \<Rightarrow> ('k \<times> 'v list) list" where
  "dict_append k x d = (case map_of d k of None \<Rightarrow> d @ [(k, [x])] | Some xs \<Rightarrow> dict_set k (xs @ [x]) d)"

definition add_edge :: "ca_config \<Rightarrow> string \<Rightarrow> string \<Rightarrow> edge_type \<Rightarrow> string \<Rightarrow> nat option \<Rightarrow> ca \<Rightarrow> ca" where
  "add_edge C src tgt k rid ix s =
     (let e = make_edge (lib C) src tgt k rid ix in
      s\<lparr>edges := dict_set (edge_id e) e (edges s),
        forward_edges := dict_append src (edge_id e) (forward_edges s),
        reverse_edges := dict_append tgt (edge_id e) (reverse_edges s)\<rparr>)"

definition add_fact_cell :: "ca_config \<Rightarrow> atom \<Rightarrow> ca \<Rightarrow> ca" where
  "add_fact_cell C a s =
     (let c = fact_cell_id (atom_key a); tgt = (atom_key a \<in> set (map atom_key (targets C))) in
      s\<lparr>cells := dict_set c
        \<lparr>cell_id = c, cell_kind = (if tgt then CT_TARGET else CT_FACT),
         symbolic = default_symbolic\<lparr>sym_atom := Some a, sym_target := tgt,
           obligation := (if tgt then ''prove:'' @ atom_key a else []),
           target_identity := (if tgt then ''target:'' @ atom_key a else [])\<rparr>,
         policy = default_policy, evidence_refs = [], runtime = default_runtime\<rparr> (cells s)\<rparr>)"

definition add_premise :: "ca_config \<Rightarrow> hrule \<Rightarrow> nat \<times> atom \<Rightarrow> ca \<Rightarrow> ca" where
  "add_premise C r ip s =
     add_edge C (fact_cell_id (atom_key (snd ip))) (rule_cell_id (rule_id r)) ET_PREMISE (rule_id r) (Some (fst ip))
       (s\<lparr>rules_by_premise := dict_append (atom_key (snd ip)) (rule_id r) (rules_by_premise s)\<rparr>)"

definition add_rule_cell :: "ca_config \<Rightarrow> hrule \<Rightarrow> ca \<Rightarrow> ca" where
  "add_rule_cell C r s =
     (let c = rule_cell_id (rule_id r);
          s1 = s\<lparr>cells := dict_set c
            \<lparr>cell_id = c, cell_kind = CT_RULE,
             symbolic = default_symbolic\<lparr>sym_rule_id := rule_id r, sym_conclusion := Some (rule_conclusion r),
               sym_dependencies := map (\<lambda>a. fact_cell_id (atom_key a)) (rule_premises r)\<rparr>,
             policy = default_policy, evidence_refs = [], runtime = default_runtime\<rparr> (cells s),
            rules_by_conclusion := dict_append (atom_key (rule_conclusion r)) (rule_id r) (rules_by_conclusion s)\<rparr>;
          s2 = fold (add_premise C r) (enumerate 0 (rule_premises r)) s1
      in add_edge C c (fact_cell_id (atom_key (rule_conclusion r))) ET_CONCLUSION (rule_id r) None s2)"

definition build_graph :: "ca_config \<Rightarrow> ca \<Rightarrow> ca" where
  "build_graph C s =
     (let s2 = fold (add_rule_cell C) (rules C) (fold (add_fact_cell C) (atoms C) s) in
      s2\<lparr>rules_by_premise := map (map_prod id sort) (rules_by_premise s2),
         rules_by_conclusion := map (map_prod id sort) (rules_by_conclusion s2)\<rparr>)"

definition empty_ca :: "ledger \<Rightarrow> ca" where
  "empty_ca l = \<lparr>cells = [], edges = [], forward_edges = [], reverse_edges = [], rules_by_premise = [],
     rules_by_conclusion = [], evidence_store = [], historical_evidence = [], fact_evidence = [],
     accepted_facts = {}, pending_messages = [], delivered_message_ids = {}, ready_queue = [],
     queued_rules = {}, applied_proposals = [], idempotency_keys = [], verification_cache = [],
     policy_retrievals = [], event_log = [], event_sequence = 0, scheduler_step = 0, runtime_error = None,
     mets = zero_metrics, resources = l\<rparr>"

section \<open>Events, cells and the message queue\<close>

definition record_event :: "ca_config \<Rightarrow> string \<Rightarrow> row \<Rightarrow> ca \<Rightarrow> ca" where
  "record_event C typ pl s =
     (let n = Suc (event_sequence s);
          ev = [(''event_id'', PStr (digest (lib C) (PDict [(''schema'', PStr schema_id),
                   (''context_id'', PStr (cid_of C)), (''sequence'', PInt (int n)), (''type'', PStr typ),
                   (''payload'', PDict pl)]))),
                (''sequence'', PInt (int n)), (''context_id'', PStr (cid_of C)), (''type'', PStr typ),
                (''payload'', PDict pl)]
      in s\<lparr>event_sequence := n, event_log := last_n (max_events C) (event_log s @ [ev])\<rparr>)"

text \<open>\<open>_cell\<close>.\<close>

definition get_cell :: "ca \<Rightarrow> string \<Rightarrow> exc + cell" where
  "get_cell s k = (case map_of (cells s) k of
     None \<Rightarrow> Inl (ValidationError (''unknown_cell:'' @ k)) | Some c \<Rightarrow> Inr c)"

definition put_cell :: "cell \<Rightarrow> ca \<Rightarrow> ca" where
  "put_cell c s = s\<lparr>cells := dict_set (cell_id c) c (cells s)\<rparr>"

definition set_pending_counts :: "ca \<Rightarrow> ca" where
  "set_pending_counts s =
     s\<lparr>cells := map (map_prod id (\<lambda>c. c\<lparr>runtime := (runtime c)\<lparr>pending_count := length (pending_messages s)\<rparr>\<rparr>)) (cells s)\<rparr>"

definition enqueue_rule :: "ca_config \<Rightarrow> string \<Rightarrow> string \<Rightarrow> ca \<Rightarrow> ca" where
  "enqueue_rule C rid reason s =
     (if rid \<in> queued_rules s then s
      else if rule_by_id C rid = None then s
      else record_event C ''rule_enqueued'' [(''rule_id'', PStr rid), (''reason'', PStr reason)]
        (s\<lparr>queued_rules := insert rid (queued_rules s), ready_queue := ready_queue s @ [rid]\<rparr>))"

definition starts_with :: "string \<Rightarrow> string \<Rightarrow> bool" where
  "starts_with p s = (take (length p) s = p)"

definition not_delivered :: "string \<Rightarrow> message \<Rightarrow> row" where
  "not_delivered why m = [(''delivered'', PBool False), (''outcome'', PStr why), (''message_id'', PStr (message_id m))]"

definition deliver_message :: "ca_config \<Rightarrow> message \<Rightarrow> ca \<Rightarrow> row act" where
  "deliver_message C m s =
     (if message_id m = [] \<or> ms_source m = [] \<or> ms_target m = [] \<or> ms_kind m = []
        then (Inr (not_delivered ''INVALID_MESSAGE'' m), s)
      else if ms_context m \<noteq> cid_of C then (Inr (not_delivered ''STALE_MESSAGE'' m), s)
      else if map_of (cells s) (ms_source m) = None \<or> map_of (cells s) (ms_target m) = None
        then (Inr (not_delivered ''INVALID_MESSAGE'' m), s)
      else pbind (lift_res (sha256_digest (lib C)
             (message_body (ms_context m) (ms_source m) (ms_target m) (ms_kind m) (ms_payload m))) s) (\<lambda>expected s.
        if message_id m \<noteq> expected then (Inr (not_delivered ''INVALID_MESSAGE'' m), s)
        else if message_id m \<in> delivered_message_ids s
          then (Inr [(''delivered'', PBool False), (''duplicate'', PBool True), (''message_id'', PStr (message_id m))],
                s\<lparr>mets := (mets s)\<lparr>duplicate_messages := Suc (duplicate_messages (mets s))\<rparr>\<rparr>)
        else pbind (lift_res (canonical_json (lib C) (PDict (message_dict m))) s) (\<lambda>text s.
        if length text > max_message_bytes then (Inr (not_delivered ''MESSAGE_TOO_LARGE'' m), s)
        else
          (let s1 = s\<lparr>delivered_message_ids := insert (message_id m) (delivered_message_ids s)\<rparr>;
               s2 = (if ms_kind m = ''fact_available'' \<and> starts_with rule_prefix (ms_target m)
                     then enqueue_rule C (drop (length rule_prefix) (ms_target m)) ''message'' s1 else s1);
               s3 = s2\<lparr>mets := (mets s2)\<lparr>messages_delivered := Suc (messages_delivered (mets s2))\<rparr>\<rparr>
           in (Inr [(''delivered'', PBool True), (''message_id'', PStr (message_id m)), (''target_cell'', PStr (ms_target m))],
               set_pending_counts (record_event C ''message_delivered'' (message_dict m) s3))))))"

text \<open>The loop of \<open>deliver_pending\<close>: at most \<open>n\<close> messages from the front (or the back when
  \<open>rev\<close>); the first component counts the deliveries.\<close>

primrec deliver_loop :: "ca_config \<Rightarrow> bool \<Rightarrow> nat \<Rightarrow> nat \<Rightarrow> ca \<Rightarrow> nat act" where
  "deliver_loop C rv 0 cnt s = (Inr cnt, s)"
| "deliver_loop C rv (Suc n) cnt s =
     (case pending_messages s of
        [] \<Rightarrow> (Inr cnt, s)
      | m # ms \<Rightarrow>
          (if rv \<and> ms \<noteq> []
           then pbind (deliver_message C (last ms) (s\<lparr>pending_messages := butlast (m # ms)\<rparr>))
             (\<lambda>_ s'. deliver_loop C rv n (Suc cnt) s')
           else pbind (deliver_message C m (s\<lparr>pending_messages := ms\<rparr>))
             (\<lambda>_ s'. deliver_loop C rv n (Suc cnt) s')))"

definition deliver_pending :: "ca_config \<Rightarrow> nat option \<Rightarrow> bool \<Rightarrow> ca \<Rightarrow> row act" where
  "deliver_pending C limit rv s =
     pbind (deliver_loop C rv (case limit of None \<Rightarrow> length (pending_messages s) | Some n \<Rightarrow> n) 0 s) (\<lambda>cnt s'.
       (Inr [(''delivered'', PInt (int cnt)), (''pending'', PInt (int (length (pending_messages s'))))],
        set_pending_counts s'))"

end
