(* ===== verification/CA_Admission.thy ===== *)
theory CA_Admission
  imports CA_State
begin

text \<open>
  The admission path of \<open>ProofGraphCA\<close>: storing evidence, checking that authoritative evidence
  applies to this context, accepting a fact and notifying the rules that use it; then the
  construction of a runtime, which admits the declared assumptions.
\<close>

section \<open>Evidence store\<close>

definition referenced :: "ca \<Rightarrow> string \<Rightarrow> bool" where
  "referenced s eid \<longleftrightarrow> (\<exists>refs \<in> snd ` set (fact_evidence s). eid \<in> set refs)"

definition store_evidence :: "ca_config \<Rightarrow> evidence \<Rightarrow> ca \<Rightarrow> row act" where
  "store_evidence C e s =
     (if ev_context e \<noteq> cid_of C then (Inl (ContextMismatch ''evidence_context_mismatch''), s)
      else case map_of (evidence_store s) (evidence_id e) of
        Some old \<Rightarrow>
          if old \<noteq> e then (Inl (ValidationError ''evidence_id_collision''), s)
          else (Inr [(''stored'', PBool False), (''duplicate'', PBool True)], s)
      | None \<Rightarrow>
          pbind
            (if max_evidence C \<le> length (evidence_store s) then
               (case find (\<lambda>kv. \<not> authoritative (snd kv) \<and> \<not> referenced s (fst kv)) (evidence_store s) of
                  None \<Rightarrow> (Inl (ProofCAError ''evidence_store_full''), s)
                | Some kv \<Rightarrow> (Inr (), s\<lparr>evidence_store := dict_pop (fst kv) (evidence_store s)\<rparr>))
             else (Inr (), s)) (\<lambda>_ s1.
            (Inr [(''stored'', PBool True), (''duplicate'', PBool False)],
             record_event C ''evidence_stored''
               [(''evidence_id'', PStr (evidence_id e)), (''kind'', PStr (evidence_kind_value (ev_kind e))),
                (''subject'', PStr (atom_key (subject e)))]
               (s1\<lparr>evidence_store := dict_set (evidence_id e) e (evidence_store s1)\<rparr>))))"

section \<open>Applicability of authoritative evidence\<close>

text \<open>The receipt inside the details of an evidence record; a mapping is required.\<close>

definition details_receipt :: "pylib \<Rightarrow> evidence \<Rightarrow> string \<Rightarrow> exc + receipt" where
  "details_receipt L e why =
     (case map_of (ev_details e) ''receipt'' of
        Some (PDict d) \<Rightarrow> receipt_from_mapping L (PDict d)
      | Some (PBadKeys d r) \<Rightarrow> receipt_from_mapping L (PBadKeys d r)
      | _ \<Rightarrow> Inl (ValidationError why))"

definition check_premise :: "ca_config \<Rightarrow> ca \<Rightarrow> string \<times> string \<Rightarrow> exc + unit" where
  "check_premise C s ke =
     (let k = fst ke; eid = snd ke in
      if atom_by_key C k = None then Inl (ValidationError ''derivation_uses_undeclared_premise'')
      else if k \<notin> accepted_facts s then Inl (ValidationError ''premise_not_accepted'')
      else case map_of (evidence_store s) eid of
        None \<Rightarrow> Inl (ValidationError ''supporting_evidence_missing_or_stale'')
      | Some sup_ev \<Rightarrow>
          if ev_context sup_ev \<noteq> cid_of C then Inl (ValidationError ''supporting_evidence_missing_or_stale'')
          else if atom_key (subject sup_ev) \<noteq> k \<or> \<not> authoritative sup_ev
            then Inl (ValidationError ''supporting_evidence_subject_mismatch'')
          else (case map_of (fact_evidence s) k of
              None \<Rightarrow> Inl (ValidationError ''supporting_evidence_not_attached'')
            | Some refs \<Rightarrow> ensure (eid \<in> set refs) (ValidationError ''supporting_evidence_not_attached'')))"

definition validate_assumption :: "ca_config \<Rightarrow> evidence \<Rightarrow> exc + unit" where
  "validate_assumption C e =
     (if ev_status e \<noteq> ES_ASSUMED \<or> atom_key (subject e) \<notin> set (map atom_key (assumptions C))
        then Inl (ValidationError ''undeclared_trusted_assumption'')
      else if ev_rule e \<noteq> [] \<or> supporting_evidence e \<noteq> []
        then Inl (ValidationError ''malformed_assumption_evidence'')
      else Inr ())"

definition validate_external :: "ca_config \<Rightarrow> evidence \<Rightarrow> exc + unit" where
  "validate_external C e =
     (if ev_status e \<noteq> ES_VERIFIED then Inl (ValidationError ''external_evidence_not_verified'')
      else if ev_source e = [] then Inl (ValidationError ''external_evidence_missing_source'')
      else rbind (details_receipt (lib C) e ''external_evidence_missing_receipt'') (\<lambda>rc.
        ensure (rc_context rc = cid_of C \<and> rc_target rc = atom_key (subject e) \<and> rc_status rc = VS_VERIFIED
            \<and> rc_verifier rc = verifier_id (ca_context C) \<and> rc_version rc = verifier_version (ca_context C))
          (ValidationError ''external_receipt_not_applicable'')))"

definition validate_derivation :: "ca_config \<Rightarrow> ca \<Rightarrow> evidence \<Rightarrow> exc + unit" where
  "validate_derivation C s e =
     (case rule_by_id C (ev_rule e) of
        None \<Rightarrow> Inl (ValidationError ''unknown_derivation_rule'')
      | Some r \<Rightarrow>
          if subject e \<noteq> rule_conclusion r then Inl (ValidationError ''derivation_conclusion_mismatch'')
          else if premise_atoms e \<noteq> map atom_key (rule_premises r)
            then Inl (ValidationError ''derivation_premises_mismatch'')
          else if length (supporting_evidence e) \<noteq> length (rule_premises r)
            then Inl (ValidationError ''missing_premise_evidence'')
          else rbind (rmap (check_premise C s) (zip (premise_atoms e) (supporting_evidence e))) (\<lambda>_. Inr ()))"

definition validate_authoritative :: "ca_config \<Rightarrow> ca \<Rightarrow> evidence \<Rightarrow> exc + unit" where
  "validate_authoritative C s e =
     (if ev_context e \<noteq> cid_of C then Inl (ContextMismatch ''evidence_context_mismatch'')
      else if atom_by_key C (atom_key (subject e)) = None then Inl (ValidationError ''evidence_subject_undeclared'')
      else if \<not> authoritative e then Inl (ValidationError ''evidence_not_authoritative'')
      else (case ev_kind e of
          EK_TRUSTED_ASSUMPTION \<Rightarrow> validate_assumption C e
        | EK_EXTERNAL_VERIFICATION \<Rightarrow> validate_external C e
        | EK_RULE_DERIVATION \<Rightarrow>
            if ev_status e \<noteq> ES_VERIFIED then Inl (ValidationError ''unsupported_authoritative_evidence'')
            else validate_derivation C s e
        | _ \<Rightarrow> Inl (ValidationError ''unsupported_authoritative_evidence'')))"

section \<open>Accepting a fact\<close>

text \<open>One notification per rule that has the fact among its premises.\<close>

definition notify_rule :: "ca_config \<Rightarrow> string \<Rightarrow> string \<Rightarrow> string \<Rightarrow> string \<Rightarrow> ca \<Rightarrow> ca" where
  "notify_rule C key src eid rid s =
     (let m = make_message (lib C) (cid_of C) src (rule_cell_id rid) ''fact_available''
            [(''atom'', PStr key), (''evidence_id'', PStr eid)]
      in record_event C ''message_enqueued'' (message_dict m) (s\<lparr>pending_messages := pending_messages s @ [m]\<rparr>))"

definition attach_evidence :: "string \<Rightarrow> string \<Rightarrow> ca \<Rightarrow> ca" where
  "attach_evidence key eid s =
     (let d = dict_default key [] (fact_evidence s);
          refs = (case map_of d key of None \<Rightarrow> [] | Some xs \<Rightarrow> xs)
      in s\<lparr>fact_evidence := (if eid \<in> set refs then d else dict_set key (refs @ [eid]) d)\<rparr>)"

definition fact_refs :: "ca \<Rightarrow> string \<Rightarrow> string list" where
  "fact_refs s key = (case map_of (fact_evidence s) key of None \<Rightarrow> [] | Some xs \<Rightarrow> xs)"

definition accept_fact :: "ca_config \<Rightarrow> evidence \<Rightarrow> ca \<Rightarrow> row act" where
  "accept_fact C e s0 =
     (let key = atom_key (subject e); eid = evidence_id e; s = attach_evidence key eid s0; refs = fact_refs s key in
      if key \<in> accepted_facts s then
        pbind (lift_res (get_cell s (fact_cell_id key)) s) (\<lambda>c s.
          (Inr [(''accepted'', PBool True), (''new_fact'', PBool False), (''outcome'', PStr ''FACT_ALREADY_ACCEPTED''),
                (''atom'', PStr key), (''evidence_id'', PStr eid)],
           put_cell (c\<lparr>evidence_refs := refs\<rparr>) s))
      else
        (let s1 = s\<lparr>accepted_facts := insert key (accepted_facts s)\<rparr> in
        pbind (lift_res (get_cell s1 (fact_cell_id key)) s1) (\<lambda>c s1.
          let c' = c\<lparr>symbolic := (symbolic c)\<lparr>accepted_derivations := refs\<rparr>, evidence_refs := refs,
                runtime := \<lparr>version = Suc (version (runtime c)), execution_status = ''accepted'',
                  pending_count = length (pending_messages s1), resource_ref = resource_ref (runtime c)\<rparr>\<rparr>;
              s2 = record_event C ''fact_accepted''
                [(''atom'', PStr key), (''cell_id'', PStr (cell_id c)), (''evidence_id'', PStr eid),
                 (''kind'', PStr (evidence_kind_value (ev_kind e)))] (put_cell c' s1);
              rids = (case map_of (rules_by_premise s2) key of None \<Rightarrow> [] | Some xs \<Rightarrow> xs);
              s3 = fold (notify_rule C key (cell_id c) eid) rids s2
          in (Inr [(''accepted'', PBool True), (''new_fact'', PBool True), (''outcome'', PStr ''FACT_ACCEPTED''),
                   (''atom'', PStr key), (''evidence_id'', PStr eid)],
              set_pending_counts s3))))"

definition admit_evidence :: "ca_config \<Rightarrow> evidence \<Rightarrow> bool \<Rightarrow> ca \<Rightarrow> row act" where
  "admit_evidence C e accept s =
     (if accept then
        pbind (lift_res (validate_authoritative C s e) s) (\<lambda>_ s.
        pbind (store_evidence C e s) (\<lambda>_ s. accept_fact C e s))
      else pbind (store_evidence C e s) (\<lambda>_ s.
        (Inr [(''accepted'', PBool False), (''stored'', PBool True), (''evidence_id'', PStr (evidence_id e))], s)))"

definition assumption_evidence :: "ca_config \<Rightarrow> atom \<Rightarrow> evidence" where
  "assumption_evidence C a =
     make_evidence (lib C) EK_TRUSTED_ASSUMPTION ES_ASSUMED a (cid_of C) [] [] [] ''declared_assumption'' []"

definition admit_assumption :: "ca_config \<Rightarrow> atom \<Rightarrow> ca \<Rightarrow> row act" where
  "admit_assumption C a s = admit_evidence C (assumption_evidence C a) True s"

section \<open>Construction\<close>

primrec admit_assumptions :: "ca_config \<Rightarrow> atom list \<Rightarrow> ca \<Rightarrow> unit act" where
  "admit_assumptions C [] s = (Inr (), s)"
| "admit_assumptions C (a # as) s = pbind (admit_assumption C a s) (\<lambda>_ s'. admit_assumptions C as s')"

definition seed_rules :: "ca_config \<Rightarrow> ca \<Rightarrow> ca" where
  "seed_rules C s = fold (\<lambda>r s. if rule_premises r = [] then enqueue_rule C (rule_id r) ''zero_premise_rule'' s else s)
     (rules C) s"

definition init_ca :: "ca_config \<Rightarrow> int option \<Rightarrow> exc + ca" where
  "init_ca C budget =
     rbind (mk_ledger budget 0 []) (\<lambda>l.
     (case pbind (admit_assumptions C (assumptions C) (build_graph C (empty_ca l))) (\<lambda>_ s.
        pbind (deliver_pending C None False s) (\<lambda>_ s. (Inr (), seed_rules C s)))
      of (Inl e, _) \<Rightarrow> Inl e | (Inr _, s) \<Rightarrow> Inr s))"

end
