(* ===== verification/CA_Actions.thy ===== *)
theory CA_Actions
  imports CA_Admission
begin

text \<open>
  The five local actions of \<open>ProofGraphCA\<close> and the checker in front of them,
  \<open>checked_apply\<close>: rule attempts, dependency requests, external verification with its
  context-keyed cache, policy updates and deferral. An external verification takes what the
  verifier adapter yields as its argument \<open>vres\<close>.
\<close>

section \<open>Fingerprints and proposal validation\<close>

definition rule_enabled :: "ca \<Rightarrow> hrule \<Rightarrow> bool" where
  "rule_enabled s r \<longleftrightarrow> (\<forall>a \<in> set (rule_premises r). atom_key a \<in> accepted_facts s)"

text \<open>\<open>_premise_evidence\<close>: the newest reference of every premise.\<close>

definition premise_evidence :: "ca \<Rightarrow> hrule \<Rightarrow> exc + string list" where
  "premise_evidence s r = rmap (\<lambda>a. case map_of (fact_evidence s) (atom_key a) of
     None \<Rightarrow> Inl KeyErr | Some [] \<Rightarrow> Inl IndexErr | Some refs \<Rightarrow> Inr (last refs)) (rule_premises r)"

definition rule_fingerprint :: "ca_config \<Rightarrow> ca \<Rightarrow> hrule \<Rightarrow> string" where
  "rule_fingerprint C s r = digest (lib C) (PDict
     [(''context_id'', PStr (cid_of C)),
      (''dependencies'', PList
        (map (\<lambda>a. PDict [(''cell_id'', PStr (fact_cell_id (atom_key a))), (''atom'', PStr (atom_key a)),
                (''evidence'', PList (map PStr (fact_refs s (atom_key a))))]) (rule_premises r)
         @ [PDict [(''cell_id'', PStr (rule_cell_id (rule_id r))), (''rule'', rule_dict r)]]))])"

definition external_fingerprint :: "ca_config \<Rightarrow> ca \<Rightarrow> string \<Rightarrow> string" where
  "external_fingerprint C s tgt = digest (lib C) (PDict
     [(''context_id'', PStr (cid_of C)), (''cell_id'', PStr (fact_cell_id tgt)), (''atom'', PStr tgt),
      (''evidence'', PList (map PStr (fact_refs s tgt)))])"

definition refusal :: "string \<Rightarrow> string \<Rightarrow> row" where
  "refusal outcome reason = [(''applied'', PBool False), (''accepted'', PBool False),
     (''outcome'', PStr outcome), (''reason'', PStr reason)]"

text \<open>\<open>str(payload.get("target") or self.context.target or "")\<close>.\<close>

definition external_target :: "ca_config \<Rightarrow> row \<Rightarrow> string" where
  "external_target C pl = (let v = row_get pl ''target'' in
     if truthy v then py_str (lib C) v else ctx_target (ca_context C))"

definition validate_proposal :: "ca_config \<Rightarrow> ca \<Rightarrow> proposal \<Rightarrow> row option" where
  "validate_proposal C s p =
     (if pr_context p \<noteq> cid_of C then Some (refusal ''STALE_CONTEXT'' ''proposal_context_mismatch'')
      else if (case map_of (idempotency_keys s) (idempotency_key p) of
            None \<Rightarrow> False | Some prev \<Rightarrow> prev \<noteq> [] \<and> prev \<noteq> proposal_id p)
        then Some (refusal ''IDEMPOTENCY_CONFLICT'' ''idempotency_key_reused'')
      else if dependency_fingerprint p = [] then None
      else if (case rule_by_id C (row_str (lib C) (payload p) ''rule_id'') of
            None \<Rightarrow> False | Some r \<Rightarrow> dependency_fingerprint p \<noteq> rule_fingerprint C s r)
        then Some (refusal ''STALE_PROPOSAL'' ''stale_dependency_fingerprint'')
      else if action p = REQUEST_EXTERNAL_VERIFICATION
          \<and> atom_by_key C (external_target C (payload p)) \<noteq> None
          \<and> dependency_fingerprint p \<noteq> external_fingerprint C s (external_target C (payload p))
        then Some (refusal ''STALE_PROPOSAL'' ''stale_target_fingerprint'')
      else None)"

section \<open>Rule attempts and dependency requests\<close>

definition has_key :: "row \<Rightarrow> string \<Rightarrow> bool" where
  "has_key d k \<longleftrightarrow> map_of d k \<noteq> None"

definition forges_authority :: "row \<Rightarrow> bool" where
  "forges_authority pl \<longleftrightarrow> has_key pl ''theorem_ok'' \<or> has_key pl ''lake_ok'' \<or> has_key pl ''verified''"

definition derivation_evidence :: "ca_config \<Rightarrow> hrule \<Rightarrow> string list \<Rightarrow> evidence" where
  "derivation_evidence C r evs =
     make_evidence (lib C) EK_RULE_DERIVATION ES_VERIFIED (rule_conclusion r) (cid_of C) (rule_id r)
       (map atom_key (rule_premises r)) evs ''local_transition_checker'' []"

definition apply_rule_proposal :: "ca_config \<Rightarrow> proposal \<Rightarrow> ca \<Rightarrow> row act" where
  "apply_rule_proposal C p s =
     (let pl = payload p; rid = row_str (lib C) pl ''rule_id'' in
      if forges_authority pl then (Inr (refusal ''AUTHORITY_FIELD_REJECTED'' ''policy_cannot_forge_evidence''), s)
      else case rule_by_id C rid of
        None \<Rightarrow> (Inr (refusal ''INVALID_RULE'' ''unknown_rule''), s)
      | Some r \<Rightarrow>
          if target_cell p \<noteq> rule_cell_id rid then (Inr (refusal ''INVALID_TARGET'' ''rule_cell_mismatch''), s)
          else pbind (lift_res (row_strs (lib C) pl ''premises'') s) (\<lambda>ps s.
          pbind (lift_res (row_strs (lib C) pl ''premise_evidence'') s) (\<lambda>evs s.
          if row_str (lib C) pl ''conclusion'' \<noteq> atom_key (rule_conclusion r)
            then (Inr (refusal ''INVALID_CONCLUSION'' ''conclusion_mismatch''), s)
          else if ps \<noteq> map atom_key (rule_premises r)
            then (Inr (refusal ''INVALID_PREMISES'' ''premise_identity_mismatch''), s)
          else if \<not> rule_enabled s r then (Inr (refusal ''NOT_ENABLED'' ''missing_premise''), s)
          else
            (let e = derivation_evidence C r evs in
             case admit_evidence C e True s of
               (Inl x, s') \<Rightarrow> if is_ca_error x then (Inr (refusal ''DERIVATION_REJECTED'' (exc_text x)), s') else (Inl x, s')
             | (Inr res, s') \<Rightarrow>
                 (Inr (res @ [(''rule_id'', PStr (rule_id r)), (''conclusion'', PStr (atom_key (rule_conclusion r))),
                    (''premises'', PList (map PStr ps)), (''derivation_evidence'', evidence_dict e)]),
                  s'\<lparr>mets := (mets s')\<lparr>rule_attempts := Suc (rule_attempts (mets s'))\<rparr>\<rparr>)))))"

definition apply_dependency_request :: "ca_config \<Rightarrow> proposal \<Rightarrow> ca \<Rightarrow> row act" where
  "apply_dependency_request C p s =
     (let pl = payload p; dep = row_str (lib C) pl ''dependency_cell_id''; rid = row_str (lib C) pl ''rule_id'' in
      case rule_by_id C rid of
        None \<Rightarrow> (Inr (refusal ''DEPENDENCY_TARGET_MISMATCH'' ''retrieval_rule_cell_mismatch''), s)
      | Some r \<Rightarrow>
          if target_cell p \<noteq> rule_cell_id rid
            then (Inr (refusal ''DEPENDENCY_TARGET_MISMATCH'' ''retrieval_rule_cell_mismatch''), s)
          else if dep \<notin> set (map (\<lambda>a. fact_cell_id (atom_key a)) (rule_premises r))
            then (Inr (refusal ''DEPENDENCY_NOT_LOCAL'' ''explicit_retrieval_outside_neighborhood''), s)
          else
            (let rw = [(''cell_id'', PStr dep), (''target_cell'', PStr (target_cell p)),
                       (''step'', PInt (int (scheduler_step s)))];
                 s1 = s\<lparr>mets := (mets s)\<lparr>retrieval_requests := Suc (retrieval_requests (mets s))\<rparr>,
                        policy_retrievals := policy_retrievals s @ [rw]\<rparr>
             in (Inr [(''applied'', PBool True), (''accepted'', PBool False), (''outcome'', PStr ''DEPENDENCY_RETRIEVED''),
                      (''dependency_cell_id'', PStr dep)],
                 record_event C ''dependency_retrieved'' rw s1)))"

section \<open>External verification\<close>

fun status_evidence :: "verification_status \<Rightarrow> evidence_kind \<times> evidence_status" where
  "status_evidence VS_VERIFIED = (EK_EXTERNAL_VERIFICATION, ES_VERIFIED)"
| "status_evidence VS_COUNTEREXAMPLE = (EK_COUNTEREXAMPLE, ES_COUNTEREXAMPLE)"
| "status_evidence VS_INCONCLUSIVE = (EK_INCONCLUSIVE, ES_INCONCLUSIVE)"
| "status_evidence VS_TRANSIENT_FAILURE = (EK_ERROR, ES_TRANSIENT_FAILURE)"
| "status_evidence VS_ERROR = (EK_ERROR, ES_ERROR)"

fun external_outcome :: "verification_status \<Rightarrow> string" where
  "external_outcome VS_VERIFIED = ''EXTERNAL_VERIFIED''"
| "external_outcome VS_COUNTEREXAMPLE = ''EXTERNAL_COUNTEREXAMPLE''"
| "external_outcome VS_INCONCLUSIVE = ''EXTERNAL_INCONCLUSIVE''"
| "external_outcome VS_TRANSIENT_FAILURE = ''EXTERNAL_TRANSIENT_FAILURE''"
| "external_outcome VS_ERROR = ''EXTERNAL_ERROR''"

definition validate_cached :: "ca_config \<Rightarrow> ca \<Rightarrow> evidence \<Rightarrow> row \<Rightarrow> string \<Rightarrow> exc + receipt" where
  "validate_cached C s e cached tgt =
     (if ev_context e \<noteq> cid_of C \<or> atom_key (subject e) \<noteq> tgt
        then Inl (ContextMismatch ''cached_external_context_mismatch'')
      else rbind (details_receipt (lib C) e ''cached_external_receipt_missing'') (\<lambda>rc.
        if rc_context rc \<noteq> cid_of C \<or> rc_target rc \<noteq> tgt \<or> rc_verifier rc \<noteq> verifier_id (ca_context C)
            \<or> rc_version rc \<noteq> verifier_version (ca_context C) \<or> ev_source e \<noteq> rc_verifier rc
            \<or> row_str (lib C) cached ''status'' \<noteq> verification_status_value (rc_status rc)
          then Inl (ValidationError ''cached_external_receipt_not_applicable'')
        else if (ev_kind e, ev_status e) \<noteq> status_evidence (rc_status rc)
          then Inl (ValidationError ''cached_external_evidence_status_mismatch'')
        else if rc_status rc = VS_TRANSIENT_FAILURE \<or> rc_status rc = VS_ERROR
          then Inl (ValidationError ''cached_external_failure_not_reusable'')
        else if authoritative e then rbind (validate_authoritative C s e) (\<lambda>_. Inr rc)
        else Inr rc))"

definition external_cache_key :: "ca_config \<Rightarrow> string \<Rightarrow> string" where
  "external_cache_key C tgt = digest (lib C) (PDict
     [(''context_id'', PStr (cid_of C)), (''target'', PStr tgt),
      (''candidate_artifact'', PStr (candidate_artifact (ca_context C))),
      (''source_dependencies'', PList (map PStr (source_dependencies (ca_context C)))),
      (''verifier_id'', PStr (verifier_id (ca_context C))),
      (''verifier_version'', PStr (verifier_version (ca_context C))),
      (''verifier_options'', PDict (verifier_options (ca_context C))),
      (''axiom_policy'', PStr (axiom_policy (ca_context C)))])"

definition verification_request_of :: "ca_config \<Rightarrow> string \<Rightarrow> verification_request" where
  "verification_request_of C tgt =
     \<lparr>vr_context = cid_of C, vr_target = tgt, vr_artifact = candidate_artifact (ca_context C),
      vr_dependencies = source_dependencies (ca_context C), vr_verifier = verifier_id (ca_context C),
      vr_version = verifier_version (ca_context C), vr_options = verifier_options (ca_context C),
      vr_axiom_policy = axiom_policy (ca_context C)\<rparr>"

definition received_receipt :: "pylib \<Rightarrow> verifier_result \<Rightarrow> exc + receipt" where
  "received_receipt L v = (case v of VerReceipt r \<Rightarrow> Inr r | VerMapping m \<Rightarrow> receipt_from_mapping L m | VerRaises e \<Rightarrow> Inl e)"

text \<open>The part of \<open>_apply_external_request\<close> after a receipt has arrived.\<close>

definition admit_receipt :: "ca_config \<Rightarrow> string \<Rightarrow> atom \<Rightarrow> receipt \<Rightarrow> ca \<Rightarrow> row act" where
  "admit_receipt C tgt a rc s =
     (if rc_context rc \<noteq> cid_of C \<or> rc_target rc \<noteq> tgt
        then (Inr (refusal ''RECEIPT_MISMATCH'' ''receipt_context_or_target_mismatch''), s)
      else if rc_verifier rc \<noteq> verifier_id (ca_context C) \<or> rc_version rc \<noteq> verifier_version (ca_context C)
        then (Inr (refusal ''RECEIPT_MISMATCH'' ''receipt_verifier_mismatch''), s)
      else
        (let st = rc_status rc; accepts = (st = VS_VERIFIED);
             e = make_evidence (lib C) (fst (status_evidence st)) (snd (status_evidence st)) a (cid_of C) [] [] []
                   (rc_verifier rc) [(''receipt'', receipt_dict rc)] in
         case admit_evidence C e accepts s of
           (Inl x, s') \<Rightarrow> if is_ca_error x then (Inr (refusal ''EVIDENCE_REJECTED'' (exc_text x)), s') else (Inl x, s')
         | (Inr stored, s') \<Rightarrow>
             (let s1 = (if st = VS_ERROR then s'\<lparr>runtime_error := Some ''verifier_reported_error''\<rparr> else s');
                  s2 = (if st = VS_TRANSIENT_FAILURE \<or> st = VS_ERROR then s1
                    else s1\<lparr>verification_cache := dict_set (external_cache_key C tgt)
                      [(''evidence_id'', PStr (evidence_id e)), (''receipt'', receipt_dict rc),
                       (''status'', PStr (verification_status_value st))] (verification_cache s1)\<rparr>)
              in (Inr (dict_set ''evidence_id'' (PStr (evidence_id e)) (dict_set ''receipt'' (receipt_dict rc)
                     (dict_set ''outcome'' (PStr (external_outcome st)) stored))), s2))))"

definition query_verifier :: "ca_config \<Rightarrow> verifier_result \<Rightarrow> string \<Rightarrow> atom \<Rightarrow> ca \<Rightarrow> row act" where
  "query_verifier C vres tgt a s =
     (if \<not> has_verifier C then (Inr (refusal ''VERIFIER_UNAVAILABLE'' ''no_verifier_adapter''), s)
      else
        (let s1 = s\<lparr>mets := (mets s)\<lparr>verifier_attempts := Suc (verifier_attempts (mets s))\<rparr>\<rparr> in
         case received_receipt (lib C) vres of
           Inl x \<Rightarrow> (Inr (refusal ''VERIFIER_ERROR'' (exc_type x)),
             record_event C ''verifier_error'' [(''target'', PStr tgt), (''error'', PStr (exc_type x))]
               (s1\<lparr>runtime_error := Some ''verifier_error''\<rparr>))
         | Inr rc \<Rightarrow> admit_receipt C tgt a rc s1))"

definition cache_hit :: "bool \<Rightarrow> evidence \<Rightarrow> receipt \<Rightarrow> row" where
  "cache_hit acc e rc = [(''applied'', PBool False), (''accepted'', PBool acc), (''outcome'', PStr ''EXTERNAL_CACHE_HIT''),
     (''cache_hit'', PBool True), (''verification_event'', PBool False), (''evidence_id'', PStr (evidence_id e)),
     (''receipt'', receipt_dict rc)]"

definition apply_external_request :: "ca_config \<Rightarrow> verifier_result \<Rightarrow> proposal \<Rightarrow> ca \<Rightarrow> row act" where
  "apply_external_request C vres p s =
     (let tgt = external_target C (payload p) in
      case atom_by_key C tgt of
        None \<Rightarrow> (Inr (refusal ''INVALID_EXTERNAL_TARGET'' ''undeclared_target''), s)
      | Some a \<Rightarrow>
          if target_cell p \<noteq> fact_cell_id tgt then (Inr (refusal ''INVALID_EXTERNAL_TARGET'' ''target_cell_mismatch''), s)
          else if verifier_id (ca_context C) = []
            then (Inr (refusal ''VERIFIER_CONTEXT_MISSING'' ''context_has_no_verifier_identity''), s)
          else if ctx_target (ca_context C) \<noteq> [] \<and> tgt \<noteq> ctx_target (ca_context C)
            then (Inr (refusal ''EXTERNAL_TARGET_MISMATCH'' ''context_target_mismatch''), s)
          else
            (let key = external_cache_key C tgt in
             case map_of (verification_cache s) key of
               None \<Rightarrow> query_verifier C vres tgt a s
             | Some [] \<Rightarrow> query_verifier C vres tgt a s
             | Some cached \<Rightarrow>
                 (case map_of (evidence_store s) (row_str (lib C) cached ''evidence_id'') of
                    None \<Rightarrow> query_verifier C vres tgt a s
                  | Some e \<Rightarrow>
                      (case validate_cached C s e cached tgt of
                         Inl _ \<Rightarrow> query_verifier C vres tgt a (s\<lparr>verification_cache := dict_pop key (verification_cache s)\<rparr>)
                       | Inr rc \<Rightarrow>
                           if authoritative e then
                             pbind (accept_fact C e s) (\<lambda>res s'.
                               (Inr (cache_hit (truthy (row_get res ''accepted'')) e rc), s'))
                           else (Inr (cache_hit False e rc), s)))))"

section \<open>Policy updates\<close>

definition finite_of :: "pyfloat \<Rightarrow> exc + rat" where
  "finite_of f = (case f of Finite r \<Rightarrow> Inr r | _ \<Rightarrow> Inl (ValidationError ''latent_feature_not_finite''))"

definition updated_policy :: "ca_config \<Rightarrow> cell \<Rightarrow> proposal \<Rightarrow> exc + policy_state" where
  "updated_policy C c p =
     (let L = lib C; pl = payload p; old = policy c in
      rbind (case map_of pl ''latent_features'' of
          None \<Rightarrow> Inr (map Finite (latent_features old))
        | Some v \<Rightarrow> rbind (py_iter v) (\<lambda>xs. rmap (py_float L) xs)) (\<lambda>lat.
      rbind (case map_of pl ''activation'' of None \<Rightarrow> finite_unit L ''activation'' (PFloat (Finite (activation old)))
         | Some v \<Rightarrow> finite_unit L ''activation'' v) (\<lambda>act.
      rbind (case map_of pl ''uncertainty'' of None \<Rightarrow> finite_unit L ''uncertainty'' (PFloat (Finite (uncertainty old)))
         | Some v \<Rightarrow> finite_unit L ''uncertainty'' v) (\<lambda>unc.
      rbind (rmap finite_of lat) (\<lambda>feats. Inr
        \<lparr>activation = act, latent_features = feats, uncertainty = unc, observations = Suc (observations old),
         last_answer = (case pr_answer p of None \<Rightarrow> last_answer old | Some a \<Rightarrow> Some (answer_dict a))\<rparr>)))))"

definition apply_policy_update :: "ca_config \<Rightarrow> proposal \<Rightarrow> ca \<Rightarrow> row act" where
  "apply_policy_update C p s =
     pbind (lift_res (get_cell s (target_cell p)) s) (\<lambda>c s.
     case updated_policy C c p of
       Inl x \<Rightarrow> (if x = OverflowErr then Inl x else Inr (refusal ''POLICY_STATE_REJECTED'' (exc_text x)), s)
     | Inr ps \<Rightarrow>
         (Inr [(''applied'', PBool True), (''accepted'', PBool False), (''outcome'', PStr ''POLICY_STATE_UPDATED''),
               (''cell_id'', PStr (cell_id c))],
          put_cell (c\<lparr>policy := ps, runtime :=
            \<lparr>version = Suc (version (runtime c)), execution_status = ''policy_updated'',
             pending_count = length (pending_messages s), resource_ref = resource_ref (runtime c)\<rparr>\<rparr>) s))"

section \<open>The checker\<close>

definition dispatch_action :: "ca_config \<Rightarrow> verifier_result \<Rightarrow> proposal \<Rightarrow> ca \<Rightarrow> row act" where
  "dispatch_action C vres p s =
     (case action p of
        ATTEMPT_RULE \<Rightarrow> apply_rule_proposal C p s
      | REQUEST_DEPENDENCY \<Rightarrow> apply_dependency_request C p s
      | REQUEST_EXTERNAL_VERIFICATION \<Rightarrow> apply_external_request C vres p s
      | UPDATE_POLICY \<Rightarrow> apply_policy_update C p s
      | DEFER \<Rightarrow> (Inr (refusal ''DEFERRED'' (let v = row_get (payload p) ''reason'' in
          if truthy v then py_str (lib C) v else ''policy_defer'')), s))"

definition checked_apply :: "ca_config \<Rightarrow> verifier_result \<Rightarrow> proposal \<Rightarrow> ca \<Rightarrow> row act" where
  "checked_apply C vres p s =
     (case map_of (applied_proposals s) (proposal_id p) of
        Some prior \<Rightarrow> (Inr (dict_set ''duplicate'' (PBool True) prior), s)
      | None \<Rightarrow>
          (case validate_proposal C s p of
             Some invalid \<Rightarrow>
               (Inr invalid, record_event C ''proposal_rejected'' ((''proposal_id'', PStr (proposal_id p)) # invalid)
                 (s\<lparr>applied_proposals := dict_set (proposal_id p) invalid (applied_proposals s),
                    idempotency_keys := dict_default (idempotency_key p) (proposal_id p) (idempotency_keys s)\<rparr>))
           | None \<Rightarrow>
               pbind (dispatch_action C vres p s) (\<lambda>result s1.
                 (Inr result, record_event C ''proposal_applied''
                   ([(''proposal_id'', PStr (proposal_id p)), (''action'', PStr (action_value (action p)))] @ result)
                   (s1\<lparr>applied_proposals := dict_set (proposal_id p) result (applied_proposals s1),
                       idempotency_keys := dict_set (idempotency_key p) (proposal_id p) (idempotency_keys s1)\<rparr>)))))"

text \<open>The variant for a proposal given as a mapping.\<close>

definition proposal_of_mapping :: "pylib \<Rightarrow> row \<Rightarrow> exc + proposal" where
  "proposal_of_mapping L d =
     rbind (case map_of d ''policy_answer'' of
         Some (PDict a) \<Rightarrow> rbind (answer_from_mapping L a (map action_value all_actions)) (\<lambda>ans. Inr (Some ans))
       | Some (PBadKeys a b) \<Rightarrow> Inl (ValidationError ''mapping_keys_must_be_strings'')
       | _ \<Rightarrow> Inr None) (\<lambda>ans.
     rbind (action_of_value (row_str L d ''action'')) (\<lambda>act.
     rbind (py_dict (row_get d ''payload'')) (\<lambda>pl.
     rbind (pairs_of pl) (\<lambda>ps.
     mk_proposal L (row_str L d ''proposal_id'') (row_str L d ''context_id'') (row_str L d ''target_cell'') act ps
       (row_str L d ''dependency_fingerprint'') (row_str L d ''idempotency_key'') ans))))"

definition checked_apply_mapping :: "ca_config \<Rightarrow> verifier_result \<Rightarrow> row \<Rightarrow> ca \<Rightarrow> row act" where
  "checked_apply_mapping C vres d s =
     (case proposal_of_mapping (lib C) d of
        Inl x \<Rightarrow> (if x = OverflowErr then Inl x else Inr (refusal ''INVALID_PROPOSAL'' (exc_text x)), s)
      | Inr p \<Rightarrow> checked_apply C vres p s)"

end
