(* ===== verification/CA_Scheduler.thy ===== *)
theory CA_Scheduler
  imports CA_Actions
begin

text \<open>
  The scheduler of \<open>ProofGraphCA\<close>: the snapshot handed to the policy, the normalisation of
  what the policy returns, the fair fallback proposal, one scheduler step, and the run loop.
  What the environment decides in a step (the policy's result, the verifier's result, the
  index the seeded generator picks) is the argument \<open>step_input\<close>.
\<close>

section \<open>Snapshots\<close>

definition edge_ids_of :: "ca \<Rightarrow> string \<Rightarrow> string list" where
  "edge_ids_of s c = (case map_of (forward_edges s) c of None \<Rightarrow> [] | Some xs \<Rightarrow> xs)
     @ (case map_of (reverse_edges s) c of None \<Rightarrow> [] | Some xs \<Rightarrow> xs)"

text \<open>Edge ids in order, later repetitions dropped (\<open>seen_edges\<close>).\<close>

definition first_occurrences :: "'a list \<Rightarrow> 'a list" where
  "first_occurrences xs = rev (remdups (rev xs))"

definition neighbor_of :: "ca \<Rightarrow> string \<Rightarrow> string \<Rightarrow> exc + neighbor_observation" where
  "neighbor_of s own eid =
     (case map_of (edges s) eid of
        None \<Rightarrow> Inl KeyErr
      | Some e \<Rightarrow>
          rbind (get_cell s (if edge_source e = own then edge_target e else edge_source e)) (\<lambda>other.
          let k = (case sym_atom (symbolic other) of None \<Rightarrow> [] | Some a \<Rightarrow> atom_key a) in Inr
          \<lparr>nb_cell = cell_id other, nb_type = cell_type_value (cell_kind other), nb_edge = edge_type_value (edge_kind e),
           nb_atom = k, nb_accepted = (k \<noteq> [] \<and> k \<in> accepted_facts s), nb_activation = activation (policy other),
           nb_version = version (runtime other)\<rparr>))"

definition rule_observation_of :: "ca \<Rightarrow> hrule \<Rightarrow> exc + rule_observation" where
  "rule_observation_of s r =
     rbind (if rule_enabled s r then premise_evidence s r
            else Inr (map (\<lambda>a. case fact_refs s (atom_key a) of [] \<Rightarrow> [] | refs \<Rightarrow> last refs) (rule_premises r))) (\<lambda>evs. Inr
       \<lparr>obs_rule_id = rule_id r, obs_premises = map atom_key (rule_premises r),
        obs_conclusion = atom_key (rule_conclusion r), obs_evidence = evs, obs_enabled = rule_enabled s r\<rparr>)"

definition snapshot_features :: "ca_config \<Rightarrow> ca \<Rightarrow> hrule \<Rightarrow> cell \<Rightarrow> string list \<Rightarrow> nat \<Rightarrow> exc + row" where
  "snapshot_features C s r c eids n =
     rbind (rmap (\<lambda>eid. case map_of (edges s) eid of None \<Rightarrow> Inl KeyErr
        | Some e \<Rightarrow> Inr (edge_type_value (edge_kind e))) eids) (\<lambda>kinds. pairs_of
     [(''cell_type'', PStr (cell_type_value (cell_kind c))),
      (''edge_types'', PList (map PStr (sort (remdups kinds)))),
      (''n_mandatory_dependencies'', PInt (int (length (rule_premises r)))),
      (''n_missing_premises'', PInt (int (length (filter (\<lambda>a. atom_key a \<notin> accepted_facts s) (rule_premises r))))),
      (''full_neighbor_count'', PInt (int n)), (''bounded_neighbor_count'', PInt (int (min n (neighbor_limit C))))])"

definition take_snapshot :: "ca_config \<Rightarrow> hrule \<Rightarrow> ca \<Rightarrow> local_snapshot act" where
  "take_snapshot C r s =
     pbind (lift_res (get_cell s (rule_cell_id (rule_id r))) s) (\<lambda>c s.
     (let eids = edge_ids_of s (cell_id c) in
     pbind (lift_res (rmap (neighbor_of s (cell_id c)) (first_occurrences eids)) s) (\<lambda>nbs0 s.
     pbind (lift_res (rule_observation_of s r) s) (\<lambda>ob s.
     (let nbs = sort_key (\<lambda>n. (nb_cell n, nb_edge n)) nbs0;
          s1 = s\<lparr>mets := (mets s)\<lparr>cells_visited := Suc (cells_visited (mets s)),
                 edges_traversed := edges_traversed (mets s) + length eids\<rparr>\<rparr> in
     pbind (lift_res (snapshot_features C s1 r c eids (length nbs)) s1) (\<lambda>feats s1.
     (Inr \<lparr>sn_context = cid_of C, sn_cell = cell_id c, sn_cell_type = cell_type_value (cell_kind c),
        sn_atom = atom_key (rule_conclusion r), sn_rule = rule_id r, sn_step = scheduler_step s1,
        mandatory_dependencies = map (\<lambda>a. fact_cell_id (atom_key a)) (rule_premises r),
        enabled_rules = [ob], neighbor_summaries = take (neighbor_limit C) nbs, full_neighbor_count = length nbs,
        feature_map = feats, allowed_actions = map action_value all_actions,
        sn_fingerprint = rule_fingerprint C s1 r\<rparr>, s1)))))))"

section \<open>Policy output\<close>

definition unknown_answer :: "string \<Rightarrow> policy_answer" where
  "unknown_answer sel = \<lparr>selected = sel, probabilities = [], confidence = None, question_version = ''unknown'',
     model_id = ''unknown'', fixture = False, raw = []\<rparr>"

definition interpret_output :: "pylib \<Rightarrow> policy_result \<Rightarrow> local_snapshot \<Rightarrow> exc + proposal \<times> policy_answer" where
  "interpret_output L out sn =
     (case out of
        OutPolicyOutput p a \<Rightarrow> Inr (p, a)
      | OutProposal p \<Rightarrow> Inr (p, case pr_answer p of Some a \<Rightarrow> a | None \<Rightarrow> unknown_answer (action_value (action p)))
      | OutMapping d \<Rightarrow>
          rbind (answer_from_mapping L d (allowed_actions sn)) (\<lambda>a.
          rbind (py_dict (row_get d ''payload'')) (\<lambda>pl.
          rbind (action_of_value (selected a)) (\<lambda>act.
          rbind (make_proposal L (sn_context sn) (sn_cell sn) act (merge_payload d pl)
             (let f = row_str L d ''dependency_fingerprint'' in if f \<noteq> [] then f else sn_fingerprint sn)
             (Some a) (row_str L d ''idempotency_key'')) (\<lambda>p. Inr (p, a)))))
      | OutOther \<Rightarrow> Inl (PolicyOutputError ''unsupported_policy_output'')
      | OutRaises e \<Rightarrow> Inl e)"

definition normalize_output :: "ca_config \<Rightarrow> policy_result \<Rightarrow> local_snapshot \<Rightarrow> exc + proposal \<times> policy_answer" where
  "normalize_output C out sn =
     rbind (interpret_output (lib C) out sn) (\<lambda>pa. let p = fst pa; a = snd pa; allowed = set (allowed_actions sn) in
     rbind (ensure (selected a \<in> allowed) (PolicyOutputError ''answer_choice_not_allowed'')) (\<lambda>_.
     rbind (ensure (\<forall>kv \<in> set (probabilities a). fst kv \<in> allowed) (PolicyOutputError ''probability_choice_not_allowed'')) (\<lambda>_.
     rbind (ensure (action_value (action p) = selected a) (PolicyOutputError ''proposal_action_answer_mismatch'')) (\<lambda>_.
     rbind (ensure (case pr_answer p of None \<Rightarrow> True | Some b \<Rightarrow> selected b \<in> allowed)
        (PolicyOutputError ''proposal_answer_choice_not_allowed'')) (\<lambda>_.
     rbind (ensure (case pr_answer p of None \<Rightarrow> True | Some b \<Rightarrow> selected b = action_value (action p))
        (PolicyOutputError ''proposal_answer_action_mismatch'')) (\<lambda>_.
     rbind (ensure (pr_context p = cid_of C) (PolicyOutputError ''policy_proposal_context_mismatch'')) (\<lambda>_.
     rbind (ensure (target_cell p = sn_cell sn) (PolicyOutputError ''policy_proposal_target_mismatch'')) (\<lambda>_.
     rbind (ensure (action_value (action p) \<in> allowed) (PolicyOutputError ''policy_action_not_allowed'')) (\<lambda>_.
     Inr (p, a))))))))))"

definition invalid_policy_result :: "ca_config \<Rightarrow> hrule \<Rightarrow> string \<Rightarrow> ca \<Rightarrow> ca" where
  "invalid_policy_result C r reason s =
     enqueue_rule C (rule_id r) ''policy_rejected''
       (record_event C ''policy_rejected'' [(''rule_id'', PStr (rule_id r)), (''reason'', PStr reason)]
         (s\<lparr>mets := (mets s)\<lparr>policy_rejections := Suc (policy_rejections (mets s))\<rparr>\<rparr>))"

definition fallback_answer :: policy_answer where
  "fallback_answer = \<lparr>selected = ''attempt_rule'', probabilities = [(''attempt_rule'', 1)], confidence = None,
     question_version = ''deterministic/v1'', model_id = ''fairness-fallback'', fixture = True,
     raw = [(''reason'', PStr ''periodic_fifo_service'')]\<rparr>"

definition rule_payload :: "hrule \<Rightarrow> string list \<Rightarrow> row" where
  "rule_payload r evs =
     [(''rule_id'', PStr (rule_id r)), (''conclusion'', PStr (atom_key (rule_conclusion r))),
      (''premises'', PList (map (\<lambda>a. PStr (atom_key a)) (rule_premises r))),
      (''premise_evidence'', PList (map PStr evs))]"

definition fallback_proposal :: "ca_config \<Rightarrow> ca \<Rightarrow> local_snapshot \<Rightarrow> hrule \<Rightarrow> exc + proposal" where
  "fallback_proposal C s sn r =
     rbind (premise_evidence s r) (\<lambda>evs.
     make_proposal (lib C) (cid_of C) (rule_cell_id (rule_id r)) ATTEMPT_RULE (rule_payload r evs) (sn_fingerprint sn)
       (Some fallback_answer) (''fair:'' @ nat_text (scheduler_step s) @ '':'' @ rule_id r))"

definition record_observation :: "ca_config \<Rightarrow> string \<Rightarrow> policy_answer \<Rightarrow> ca \<Rightarrow> unit act" where
  "record_observation C k a s =
     pbind (lift_res (get_cell s k) s) (\<lambda>c s. (Inr (),
       record_event C ''policy_observation''
         [(''cell_id'', PStr k), (''answer'', answer_dict a), (''authoritative'', PBool False)]
         (put_cell (c\<lparr>policy := (policy c)\<lparr>observations := Suc (observations (policy c)), last_answer := Some (answer_dict a)\<rparr>\<rparr>) s)))"

text \<open>\<open>_is_structural_attempt\<close>; the conjuncts are evaluated in order and may raise.\<close>

definition is_structural_attempt :: "ca_config \<Rightarrow> ca \<Rightarrow> proposal \<Rightarrow> hrule \<Rightarrow> exc + bool" where
  "is_structural_attempt C s p r =
     (let pl = payload p; L = lib C in
      if \<not> (action p = ATTEMPT_RULE \<and> target_cell p = rule_cell_id (rule_id r) \<and> pr_context p = cid_of C
            \<and> row_str L pl ''rule_id'' = rule_id r \<and> row_str L pl ''conclusion'' = atom_key (rule_conclusion r))
        then Inr False
      else rbind (row_strs L pl ''premises'') (\<lambda>ps.
        if ps \<noteq> map atom_key (rule_premises r) then Inr False
        else rbind (row_strs L pl ''premise_evidence'') (\<lambda>evs.
          rbind (premise_evidence s r) (\<lambda>expected. Inr
            (evs = expected \<and> dependency_fingerprint p = rule_fingerprint C s r \<and> \<not> forges_authority pl)))))"

section \<open>One step\<close>

record step_input =
  policy_out :: policy_result
  verifier_out :: verifier_result
  rng_pick :: nat

definition choose_rule :: "ca_config \<Rightarrow> bool \<Rightarrow> nat \<Rightarrow> ca \<Rightarrow> string option \<times> ca" where
  "choose_rule C fifo pick s =
     (case ready_queue s of
        [] \<Rightarrow> (None, s)
      | q # qs \<Rightarrow>
          (let i = (if fifo \<or> \<not> has_rng C \<or> qs = [] then 0 else pick mod length (q # qs));
               rid = (q # qs) ! i
           in (Some rid, s\<lparr>ready_queue := remove_at i (q # qs), queued_rules := queued_rules s - {rid}\<rparr>)))"

datatype run_status = VERIFIED_COMPLETE | QUIESCENT_INCOMPLETE | BUDGET_EXHAUSTED | ERROR

fun run_status_value :: "run_status \<Rightarrow> string" where
  "run_status_value VERIFIED_COMPLETE = ''VERIFIED_COMPLETE''"
| "run_status_value QUIESCENT_INCOMPLETE = ''QUIESCENT_INCOMPLETE''"
| "run_status_value BUDGET_EXHAUSTED = ''BUDGET_EXHAUSTED''"
| "run_status_value ERROR = ''ERROR''"

definition terminal_status :: "ca_config \<Rightarrow> ca \<Rightarrow> run_status" where
  "terminal_status C s =
     (if (case runtime_error s of None \<Rightarrow> False | Some e \<Rightarrow> e \<noteq> []) then ERROR
      else if targets C \<noteq> [] \<and> (\<forall>a \<in> set (targets C). atom_key a \<in> accepted_facts s) then VERIFIED_COMPLETE
      else QUIESCENT_INCOMPLETE)"

definition has_error :: "ca \<Rightarrow> bool" where
  "has_error s \<longleftrightarrow> (case runtime_error s of None \<Rightarrow> False | Some e \<Rightarrow> e \<noteq> [])"

text \<open>The \<open>try\<close> block around the policy call, with the fallback on a FIFO turn: either a proposal
  with its answer, or the type of the exception that rejected the policy.\<close>

definition policy_turn :: "ca_config \<Rightarrow> bool \<Rightarrow> policy_result \<Rightarrow> local_snapshot \<Rightarrow> hrule \<Rightarrow> ca
    \<Rightarrow> exc + (string + proposal \<times> policy_answer)" where
  "policy_turn C fifo out sn r s =
     (case normalize_output C out sn of
        Inr pa \<Rightarrow> Inr (Inr pa)
      | Inl x \<Rightarrow>
          if fifo then rbind (fallback_proposal C s sn r) (\<lambda>p. Inr (Inr (p, fallback_answer)))
          else Inr (Inl (exc_type x)))"

definition fair_turn :: "ca_config \<Rightarrow> bool \<Rightarrow> local_snapshot \<Rightarrow> hrule \<Rightarrow> proposal \<times> policy_answer \<Rightarrow> ca
    \<Rightarrow> exc + proposal \<times> policy_answer" where
  "fair_turn C fifo sn r pa s =
     (if \<not> fifo then Inr pa
      else rbind (is_structural_attempt C s (fst pa) r) (\<lambda>ok.
        if ok then Inr pa
        else rbind (fallback_proposal C s sn r) (\<lambda>p. Inr (p, fallback_answer))))"

text \<open>The end of \<open>step\<close>: the answer is recorded, the proposal goes through the admission path,
  and the rule is queued again while its conclusion is not accepted.\<close>

definition perform_proposal :: "ca_config \<Rightarrow> step_input \<Rightarrow> hrule \<Rightarrow> local_snapshot \<Rightarrow> proposal \<times> policy_answer \<Rightarrow> ca \<Rightarrow> row act" where
  "perform_proposal C inp r sn pa s =
     pbind (record_observation C (sn_cell sn) (snd pa) s) (\<lambda>_ s.
     pbind (checked_apply C (verifier_out inp) (fst pa) s) (\<lambda>result s.
     (Inr [(''status'', let v = row_get result ''outcome'' in if truthy v then v else PStr ''ACTION_APPLIED''),
           (''rule_id'', PStr (rule_id r)), (''policy_answer'', answer_dict (snd pa)), (''result'', PDict result)],
      if atom_key (rule_conclusion r) \<in> accepted_facts s then s else enqueue_rule C (rule_id r) ''retry'' s)))"

definition handle_turn :: "ca_config \<Rightarrow> bool \<Rightarrow> step_input \<Rightarrow> hrule \<Rightarrow> local_snapshot \<Rightarrow> string + proposal \<times> policy_answer \<Rightarrow> ca \<Rightarrow> row act" where
  "handle_turn C fifo inp r sn turn s =
     (case turn of
        Inl why \<Rightarrow> (Inr ([(''status'', PStr ''POLICY_REJECTED'')] @ refusal ''POLICY_REJECTED'' why @ [(''rule_id'', PStr (rule_id r))]),
                    invalid_policy_result C r why s)
      | Inr pa \<Rightarrow> pbind (lift_res (fair_turn C fifo sn r pa s) s) (\<lambda>pa s. perform_proposal C inp r sn pa s))"

text \<open>The part of \<open>step\<close> that serves one enabled rule.\<close>

definition serve_rule :: "ca_config \<Rightarrow> bool \<Rightarrow> step_input \<Rightarrow> hrule \<Rightarrow> ca \<Rightarrow> row act" where
  "serve_rule C fifo inp r s =
     pbind (take_snapshot C r s) (\<lambda>sn s.
     (let s = s\<lparr>mets := (mets s)\<lparr>policy_calls := Suc (policy_calls (mets s))\<rparr>\<rparr> in
     pbind (lift_res (policy_turn C fifo (policy_out inp) sn r s) s) (\<lambda>turn s. handle_turn C fifo inp r sn turn s)))"

text \<open>The part of \<open>step\<close> after a rule was taken from the queue.\<close>

definition serve_choice :: "ca_config \<Rightarrow> bool \<Rightarrow> step_input \<Rightarrow> string \<Rightarrow> ca \<Rightarrow> row act" where
  "serve_choice C fifo inp rid s =
     (case rule_by_id C rid of
        None \<Rightarrow> (Inl KeyErr, s)
      | Some r \<Rightarrow>
          if \<not> rule_enabled s r then (Inr [(''status'', PStr ''STALE_WORK''), (''rule_id'', PStr rid)], s)
          else
            pbind (lift_res (reserve (resources s) (''step:'' @ nat_text (scheduler_step s)) 1) s) (\<lambda>lr s.
            (let s = s\<lparr>resources := fst lr\<rparr> in
             if truthy (row_get (snd lr) ''reserved'') then serve_rule C fifo inp r s
             else (Inr [(''status'', PStr ''BUDGET_EXHAUSTED''), (''rule_id'', PStr rid), (''resource'', PDict (snd lr))],
               enqueue_rule C rid ''budget_wait'' s))))"

definition schedule :: "ca_config \<Rightarrow> nat \<Rightarrow> step_input \<Rightarrow> ca \<Rightarrow> row act" where
  "schedule C fair_period inp s =
     (let s = s\<lparr>scheduler_step := Suc (scheduler_step s), mets := (mets s)\<lparr>steps := Suc (steps (mets s))\<rparr>\<rparr>;
          period = max 1 fair_period;
          fifo = (period = 1 \<or> scheduler_step s mod period = 0) in
      case choose_rule C fifo (rng_pick inp) s of
        (None, s) \<Rightarrow> (Inr [(''status'', PStr (run_status_value (terminal_status C s))), (''outcome'', PStr ''NO_READY_WORK'')], s)
      | (Some rid, s) \<Rightarrow> serve_choice C fifo inp rid s)"

definition ca_step :: "ca_config \<Rightarrow> nat \<Rightarrow> step_input \<Rightarrow> ca \<Rightarrow> row act" where
  "ca_step C fair_period inp s =
     (if has_error s then (Inr [(''status'', PStr ''ERROR''), (''reason'', PStr (the (runtime_error s)))], s)
      else if pending_messages s \<noteq> [] then
        pbind (deliver_pending C (Some 1) False s) (\<lambda>d s. (Inr ((''status'', PStr ''MESSAGE_DELIVERED'') # d), s))
      else schedule C fair_period inp s)"

section \<open>The run loop\<close>

text \<open>
  \<open>run\<close> with \<open>fuel\<close> loop iterations; the \<open>n\<close>-th call of \<open>step\<close> gets the input \<open>inp n\<close>.
  \<open>None\<close> means the fuel ran out before the loop ended. A message delivery outside a step is
  not protected by the \<open>try\<close> and its exception leaves \<open>run\<close>.
\<close>

fun ca_run :: "ca_config \<Rightarrow> nat \<Rightarrow> nat option \<Rightarrow> (nat \<Rightarrow> step_input) \<Rightarrow> nat \<Rightarrow> nat \<Rightarrow> ca \<Rightarrow> run_status act option" where
  "ca_run C fp max_steps inp 0 n s = None"
| "ca_run C fp max_steps inp (Suc fuel) n s =
     (if pending_messages s = [] \<and> ready_queue s = [] then Some (Inr (terminal_status C s), s)
      else if (case max_steps of None \<Rightarrow> False | Some k \<Rightarrow> k \<le> steps (mets s))
        then Some (Inr (if has_error s then ERROR else BUDGET_EXHAUSTED), s)
      else if pending_messages s \<noteq> [] then
        (case deliver_pending C (Some 1) False s of
           (Inl x, s') \<Rightarrow> Some (Inl x, s')
         | (Inr _, s') \<Rightarrow> ca_run C fp max_steps inp fuel n s')
      else
        (case ca_step C fp (inp n) s of
           (Inl x, s') \<Rightarrow> Some (Inr ERROR, record_event C ''runtime_error'' [(''error'', PStr (exc_type x))]
                             (s'\<lparr>runtime_error := Some (exc_type x)\<rparr>))
         | (Inr res, s') \<Rightarrow>
             if row_get res ''status'' = PStr ''ERROR'' then Some (Inr ERROR, s')
             else if row_get res ''status'' = PStr ''BUDGET_EXHAUSTED''
               then Some (Inr (if has_error s' then ERROR else BUDGET_EXHAUSTED), s')
             else ca_run C fp max_steps inp fuel (Suc n) s'))"

end
