(* ===== verification/CA_Frames.thy ===== *)
theory CA_Frames
  imports CA_Scheduler
begin

text \<open>
  Frame facts of the automaton: which state fields the small operations leave alone (all of
  them simplification rules), and the growth order on states: accepted facts, attached
  evidence references and authoritative stored evidence are never lost.
\<close>

section \<open>Fields an operation does not touch\<close>

lemma frame_record_event [simp]:
  "cells (record_event C t p s) = cells s"
  "edges (record_event C t p s) = edges s"
  "forward_edges (record_event C t p s) = forward_edges s"
  "reverse_edges (record_event C t p s) = reverse_edges s"
  "rules_by_premise (record_event C t p s) = rules_by_premise s"
  "rules_by_conclusion (record_event C t p s) = rules_by_conclusion s"
  "evidence_store (record_event C t p s) = evidence_store s"
  "historical_evidence (record_event C t p s) = historical_evidence s"
  "fact_evidence (record_event C t p s) = fact_evidence s"
  "accepted_facts (record_event C t p s) = accepted_facts s"
  "pending_messages (record_event C t p s) = pending_messages s"
  "delivered_message_ids (record_event C t p s) = delivered_message_ids s"
  "ready_queue (record_event C t p s) = ready_queue s"
  "queued_rules (record_event C t p s) = queued_rules s"
  "applied_proposals (record_event C t p s) = applied_proposals s"
  "idempotency_keys (record_event C t p s) = idempotency_keys s"
  "verification_cache (record_event C t p s) = verification_cache s"
  "policy_retrievals (record_event C t p s) = policy_retrievals s"
  "scheduler_step (record_event C t p s) = scheduler_step s"
  "runtime_error (record_event C t p s) = runtime_error s"
  "mets (record_event C t p s) = mets s"
  "resources (record_event C t p s) = resources s"
  by (simp_all add: record_event_def Let_def)

lemma frame_set_pending_counts [simp]:
  "edges (set_pending_counts s) = edges s"
  "forward_edges (set_pending_counts s) = forward_edges s"
  "reverse_edges (set_pending_counts s) = reverse_edges s"
  "rules_by_premise (set_pending_counts s) = rules_by_premise s"
  "rules_by_conclusion (set_pending_counts s) = rules_by_conclusion s"
  "evidence_store (set_pending_counts s) = evidence_store s"
  "historical_evidence (set_pending_counts s) = historical_evidence s"
  "fact_evidence (set_pending_counts s) = fact_evidence s"
  "accepted_facts (set_pending_counts s) = accepted_facts s"
  "pending_messages (set_pending_counts s) = pending_messages s"
  "delivered_message_ids (set_pending_counts s) = delivered_message_ids s"
  "ready_queue (set_pending_counts s) = ready_queue s"
  "queued_rules (set_pending_counts s) = queued_rules s"
  "applied_proposals (set_pending_counts s) = applied_proposals s"
  "idempotency_keys (set_pending_counts s) = idempotency_keys s"
  "verification_cache (set_pending_counts s) = verification_cache s"
  "policy_retrievals (set_pending_counts s) = policy_retrievals s"
  "event_log (set_pending_counts s) = event_log s"
  "event_sequence (set_pending_counts s) = event_sequence s"
  "scheduler_step (set_pending_counts s) = scheduler_step s"
  "runtime_error (set_pending_counts s) = runtime_error s"
  "mets (set_pending_counts s) = mets s"
  "resources (set_pending_counts s) = resources s"
  by (simp_all add: set_pending_counts_def)

lemma frame_put_cell [simp]:
  "edges (put_cell c s) = edges s"
  "forward_edges (put_cell c s) = forward_edges s"
  "reverse_edges (put_cell c s) = reverse_edges s"
  "rules_by_premise (put_cell c s) = rules_by_premise s"
  "rules_by_conclusion (put_cell c s) = rules_by_conclusion s"
  "evidence_store (put_cell c s) = evidence_store s"
  "historical_evidence (put_cell c s) = historical_evidence s"
  "fact_evidence (put_cell c s) = fact_evidence s"
  "accepted_facts (put_cell c s) = accepted_facts s"
  "pending_messages (put_cell c s) = pending_messages s"
  "delivered_message_ids (put_cell c s) = delivered_message_ids s"
  "ready_queue (put_cell c s) = ready_queue s"
  "queued_rules (put_cell c s) = queued_rules s"
  "applied_proposals (put_cell c s) = applied_proposals s"
  "idempotency_keys (put_cell c s) = idempotency_keys s"
  "verification_cache (put_cell c s) = verification_cache s"
  "policy_retrievals (put_cell c s) = policy_retrievals s"
  "event_log (put_cell c s) = event_log s"
  "event_sequence (put_cell c s) = event_sequence s"
  "scheduler_step (put_cell c s) = scheduler_step s"
  "runtime_error (put_cell c s) = runtime_error s"
  "mets (put_cell c s) = mets s"
  "resources (put_cell c s) = resources s"
  by (simp_all add: put_cell_def)

lemma frame_enqueue_rule [simp]:
  "cells (enqueue_rule C rid why s) = cells s"
  "edges (enqueue_rule C rid why s) = edges s"
  "forward_edges (enqueue_rule C rid why s) = forward_edges s"
  "reverse_edges (enqueue_rule C rid why s) = reverse_edges s"
  "rules_by_premise (enqueue_rule C rid why s) = rules_by_premise s"
  "rules_by_conclusion (enqueue_rule C rid why s) = rules_by_conclusion s"
  "evidence_store (enqueue_rule C rid why s) = evidence_store s"
  "historical_evidence (enqueue_rule C rid why s) = historical_evidence s"
  "fact_evidence (enqueue_rule C rid why s) = fact_evidence s"
  "accepted_facts (enqueue_rule C rid why s) = accepted_facts s"
  "pending_messages (enqueue_rule C rid why s) = pending_messages s"
  "delivered_message_ids (enqueue_rule C rid why s) = delivered_message_ids s"
  "applied_proposals (enqueue_rule C rid why s) = applied_proposals s"
  "idempotency_keys (enqueue_rule C rid why s) = idempotency_keys s"
  "verification_cache (enqueue_rule C rid why s) = verification_cache s"
  "policy_retrievals (enqueue_rule C rid why s) = policy_retrievals s"
  "scheduler_step (enqueue_rule C rid why s) = scheduler_step s"
  "runtime_error (enqueue_rule C rid why s) = runtime_error s"
  "mets (enqueue_rule C rid why s) = mets s"
  "resources (enqueue_rule C rid why s) = resources s"
  by (simp_all add: enqueue_rule_def)

lemma frame_notify_rule [simp]:
  "cells (notify_rule C k src eid rid s) = cells s"
  "edges (notify_rule C k src eid rid s) = edges s"
  "forward_edges (notify_rule C k src eid rid s) = forward_edges s"
  "reverse_edges (notify_rule C k src eid rid s) = reverse_edges s"
  "rules_by_premise (notify_rule C k src eid rid s) = rules_by_premise s"
  "rules_by_conclusion (notify_rule C k src eid rid s) = rules_by_conclusion s"
  "evidence_store (notify_rule C k src eid rid s) = evidence_store s"
  "historical_evidence (notify_rule C k src eid rid s) = historical_evidence s"
  "fact_evidence (notify_rule C k src eid rid s) = fact_evidence s"
  "accepted_facts (notify_rule C k src eid rid s) = accepted_facts s"
  "delivered_message_ids (notify_rule C k src eid rid s) = delivered_message_ids s"
  "ready_queue (notify_rule C k src eid rid s) = ready_queue s"
  "queued_rules (notify_rule C k src eid rid s) = queued_rules s"
  "applied_proposals (notify_rule C k src eid rid s) = applied_proposals s"
  "idempotency_keys (notify_rule C k src eid rid s) = idempotency_keys s"
  "verification_cache (notify_rule C k src eid rid s) = verification_cache s"
  "policy_retrievals (notify_rule C k src eid rid s) = policy_retrievals s"
  "scheduler_step (notify_rule C k src eid rid s) = scheduler_step s"
  "runtime_error (notify_rule C k src eid rid s) = runtime_error s"
  "mets (notify_rule C k src eid rid s) = mets s"
  "resources (notify_rule C k src eid rid s) = resources s"
  by (simp_all add: notify_rule_def Let_def)

lemma frame_notify_rules [simp]:
  "cells (fold (notify_rule C k src eid) rids s) = cells s"
  "edges (fold (notify_rule C k src eid) rids s) = edges s"
  "forward_edges (fold (notify_rule C k src eid) rids s) = forward_edges s"
  "reverse_edges (fold (notify_rule C k src eid) rids s) = reverse_edges s"
  "rules_by_premise (fold (notify_rule C k src eid) rids s) = rules_by_premise s"
  "rules_by_conclusion (fold (notify_rule C k src eid) rids s) = rules_by_conclusion s"
  "evidence_store (fold (notify_rule C k src eid) rids s) = evidence_store s"
  "historical_evidence (fold (notify_rule C k src eid) rids s) = historical_evidence s"
  "fact_evidence (fold (notify_rule C k src eid) rids s) = fact_evidence s"
  "accepted_facts (fold (notify_rule C k src eid) rids s) = accepted_facts s"
  "delivered_message_ids (fold (notify_rule C k src eid) rids s) = delivered_message_ids s"
  "ready_queue (fold (notify_rule C k src eid) rids s) = ready_queue s"
  "queued_rules (fold (notify_rule C k src eid) rids s) = queued_rules s"
  "applied_proposals (fold (notify_rule C k src eid) rids s) = applied_proposals s"
  "idempotency_keys (fold (notify_rule C k src eid) rids s) = idempotency_keys s"
  "verification_cache (fold (notify_rule C k src eid) rids s) = verification_cache s"
  "policy_retrievals (fold (notify_rule C k src eid) rids s) = policy_retrievals s"
  "scheduler_step (fold (notify_rule C k src eid) rids s) = scheduler_step s"
  "runtime_error (fold (notify_rule C k src eid) rids s) = runtime_error s"
  "mets (fold (notify_rule C k src eid) rids s) = mets s"
  "resources (fold (notify_rule C k src eid) rids s) = resources s"
  by (induction rids arbitrary: s) simp_all

lemma frame_attach_evidence [simp]:
  "cells (attach_evidence k eid s) = cells s"
  "edges (attach_evidence k eid s) = edges s"
  "forward_edges (attach_evidence k eid s) = forward_edges s"
  "reverse_edges (attach_evidence k eid s) = reverse_edges s"
  "rules_by_premise (attach_evidence k eid s) = rules_by_premise s"
  "rules_by_conclusion (attach_evidence k eid s) = rules_by_conclusion s"
  "evidence_store (attach_evidence k eid s) = evidence_store s"
  "historical_evidence (attach_evidence k eid s) = historical_evidence s"
  "accepted_facts (attach_evidence k eid s) = accepted_facts s"
  "pending_messages (attach_evidence k eid s) = pending_messages s"
  "delivered_message_ids (attach_evidence k eid s) = delivered_message_ids s"
  "ready_queue (attach_evidence k eid s) = ready_queue s"
  "queued_rules (attach_evidence k eid s) = queued_rules s"
  "applied_proposals (attach_evidence k eid s) = applied_proposals s"
  "idempotency_keys (attach_evidence k eid s) = idempotency_keys s"
  "verification_cache (attach_evidence k eid s) = verification_cache s"
  "policy_retrievals (attach_evidence k eid s) = policy_retrievals s"
  "event_log (attach_evidence k eid s) = event_log s"
  "event_sequence (attach_evidence k eid s) = event_sequence s"
  "scheduler_step (attach_evidence k eid s) = scheduler_step s"
  "runtime_error (attach_evidence k eid s) = runtime_error s"
  "mets (attach_evidence k eid s) = mets s"
  "resources (attach_evidence k eid s) = resources s"
  by (simp_all add: attach_evidence_def Let_def)

lemma frame_invalid_policy_result [simp]:
  "cells (invalid_policy_result C r why s) = cells s"
  "edges (invalid_policy_result C r why s) = edges s"
  "forward_edges (invalid_policy_result C r why s) = forward_edges s"
  "reverse_edges (invalid_policy_result C r why s) = reverse_edges s"
  "rules_by_premise (invalid_policy_result C r why s) = rules_by_premise s"
  "rules_by_conclusion (invalid_policy_result C r why s) = rules_by_conclusion s"
  "evidence_store (invalid_policy_result C r why s) = evidence_store s"
  "historical_evidence (invalid_policy_result C r why s) = historical_evidence s"
  "fact_evidence (invalid_policy_result C r why s) = fact_evidence s"
  "accepted_facts (invalid_policy_result C r why s) = accepted_facts s"
  "pending_messages (invalid_policy_result C r why s) = pending_messages s"
  "delivered_message_ids (invalid_policy_result C r why s) = delivered_message_ids s"
  "applied_proposals (invalid_policy_result C r why s) = applied_proposals s"
  "idempotency_keys (invalid_policy_result C r why s) = idempotency_keys s"
  "verification_cache (invalid_policy_result C r why s) = verification_cache s"
  "policy_retrievals (invalid_policy_result C r why s) = policy_retrievals s"
  "scheduler_step (invalid_policy_result C r why s) = scheduler_step s"
  "runtime_error (invalid_policy_result C r why s) = runtime_error s"
  "resources (invalid_policy_result C r why s) = resources s"
  by (simp_all add: invalid_policy_result_def)


lemma fact_refs_frames [simp]:
  "fact_refs (record_event C t p s) k = fact_refs s k"
  "fact_refs (set_pending_counts s) k = fact_refs s k"
  "fact_refs (put_cell c s) k = fact_refs s k"
  "fact_refs (enqueue_rule C rid why s) k = fact_refs s k"
  "fact_refs (fold (notify_rule C key src eid) rids s) k = fact_refs s k"
  by (simp_all add: fact_refs_def)

lemma fact_refs_attach:
  "fact_refs (attach_evidence key eid s) k =
     (if k = key \<and> eid \<notin> set (fact_refs s key) then fact_refs s key @ [eid] else fact_refs s k)"
  by (auto simp: attach_evidence_def fact_refs_def Let_def dict_simps split: option.splits)

lemma cells_pending [simp]: "map (map_prod id cell_id) (cells (set_pending_counts s)) = map (map_prod id cell_id) (cells s)"
  by (auto simp: set_pending_counts_def)

lemma cells_put_cell: "cells (put_cell c s) = dict_set (cell_id c) c (cells s)"
  by (simp add: put_cell_def)

section \<open>Growth\<close>

definition grows :: "ca \<Rightarrow> ca \<Rightarrow> bool" where
  "grows s s' \<longleftrightarrow> accepted_facts s \<subseteq> accepted_facts s'
     \<and> (\<forall>k. set (fact_refs s k) \<subseteq> set (fact_refs s' k))
     \<and> (\<forall>eid e. map_of (evidence_store s) eid = Some e \<longrightarrow> authoritative e
          \<longrightarrow> map_of (evidence_store s') eid = Some e)"

lemma grows_refl [simp, intro]: "grows s s"
  by (simp add: grows_def)

lemma grows_trans [trans]: "grows s t \<Longrightarrow> grows t u \<Longrightarrow> grows s u"
  unfolding grows_def by blast

text \<open>The three fields that soundness and growth speak about.\<close>

definition same_core :: "ca \<Rightarrow> ca \<Rightarrow> bool" where
  "same_core s s' \<longleftrightarrow> evidence_store s' = evidence_store s \<and> fact_evidence s' = fact_evidence s
     \<and> accepted_facts s' = accepted_facts s"

lemma same_core_grows: "same_core s s' \<Longrightarrow> grows s s'"
  by (simp add: same_core_def grows_def fact_refs_def)

lemma same_core_refl [simp, intro]: "same_core s s"
  by (simp add: same_core_def)

lemma same_core_trans: "same_core s t \<Longrightarrow> same_core t u \<Longrightarrow> same_core s u"
  by (simp add: same_core_def)

lemma pbind_cases:
  assumes "pbind m f = (r, s')"
  obtains e t where "m = (Inl e, t)" "r = Inl e" "s' = t"
  | x t where "m = (Inr x, t)" "f x t = (r, s')"
proof -
  obtain a t where m: "m = (a, t)" by (cases m)
  show ?thesis
    using assms that by (cases a) (auto simp: m)
qed

lemma pbind_lift_cases:
  assumes "pbind (lift_res q s) f = (r, s')"
  obtains e where "q = Inl e" "r = Inl e" "s' = s"
  | x where "q = Inr x" "f x s = (r, s')"
  using assms by (cases q) (auto simp: lift_res_def)

section \<open>Admission grows the state\<close>

lemma store_evidence_effect:
  assumes "store_evidence C e s = (r, s')" and dist: "distinct (map fst (evidence_store s))"
  shows "fact_evidence s' = fact_evidence s" and "accepted_facts s' = accepted_facts s"
    and "\<And>eid x. map_of (evidence_store s) eid = Some x \<Longrightarrow> authoritative x
          \<Longrightarrow> map_of (evidence_store s') eid = Some x"
    and "\<And>v. r = Inr v \<Longrightarrow> map_of (evidence_store s') (evidence_id e) = Some e \<and> ev_context e = cid_of C"
    and "distinct (map fst (evidence_store s'))"
    and "\<And>kv. kv \<in> set (evidence_store s') \<Longrightarrow>
          kv \<in> set (evidence_store s) \<or> kv = (evidence_id e, e) \<and> ev_context e = cid_of C"
    and "\<And>x. r = Inl x \<Longrightarrow> s' = s"
proof -
  let ?pick = "find (\<lambda>kv. \<not> authoritative (snd kv) \<and> \<not> referenced s (fst kv)) (evidence_store s)"
  have pick: "\<not> authoritative b \<and> map_of (evidence_store s) a = Some b" if "?pick = Some (a, b)" for a b
    using find_SomeD [OF that] dist by simp
  note split_all = if_splits option.splits prod.splits
  show "fact_evidence s' = fact_evidence s" "accepted_facts s' = accepted_facts s"
    using assms(1) by (auto simp: store_evidence_def split: split_all)
  show "map_of (evidence_store s') eid = Some x"
    if "map_of (evidence_store s) eid = Some x" "authoritative x" for eid x
    using assms(1) pick that by (auto simp: store_evidence_def dict_simps split: split_all)
  show "map_of (evidence_store s') (evidence_id e) = Some e \<and> ev_context e = cid_of C" if "r = Inr v" for v
    using assms(1) that by (auto simp: store_evidence_def dict_simps split: split_all)
  show "distinct (map fst (evidence_store s'))"
    using assms by (auto simp: store_evidence_def distinct_dict_set distinct_dict_pop split: split_all)
  show "kv \<in> set (evidence_store s) \<or> kv = (evidence_id e, e) \<and> ev_context e = cid_of C"
    if "kv \<in> set (evidence_store s')" for kv
    using assms(1) that
    by (auto simp: store_evidence_def split: split_all
        dest!: subsetD [OF set_dict_set_subset] subsetD [OF set_dict_pop_subset])
  show "s' = s" if "r = Inl x" for x
    using assms(1) that by (auto simp: store_evidence_def split: split_all)
qed

text \<open>What acceptance does to the three core fields, whatever happens to the cells.\<close>

lemma accept_fact_core:
  assumes "accept_fact C e s = (r, s')"
  shows "evidence_store s' = evidence_store s"
    and "accepted_facts s' = insert (atom_key (subject e)) (accepted_facts s)"
    and "fact_refs s' k = fact_refs (attach_evidence (atom_key (subject e)) (evidence_id e) s) k"
  using assms
  by (auto simp: accept_fact_def Let_def fact_refs_def elim!: pbind_lift_cases split: if_splits)

lemma accept_fact_grows: "accept_fact C e s = (r, s') \<Longrightarrow> grows s s'"
  by (auto simp: grows_def accept_fact_core fact_refs_attach)

section \<open>Rule and proposal lookups\<close>

lemma rule_by_idD: "rule_by_id C rid = Some r \<Longrightarrow> r \<in> set (rules C) \<and> rule_id r = rid"
  by (auto simp: rule_by_id_def dest: find_SomeD)

lemma atom_by_keyD: "atom_by_key C k = Some a \<Longrightarrow> a \<in> set (atoms C) \<and> atom_key a = k"
  by (auto simp: atom_by_key_def dest: find_SomeD)

lemma atom_by_key_None: "atom_by_key C k = None \<longleftrightarrow> k \<notin> atom_key ` set (atoms C)"
  by (auto simp: atom_by_key_def find_None_iff)

lemma rule_by_id_None: "rule_by_id C rid = None \<longleftrightarrow> rid \<notin> rule_id ` set (rules C)"
  by (auto simp: rule_by_id_def find_None_iff)

end
