(* ===== verification/Machines.thy ===== *)
theory Machines
  imports Prelude
begin

text \<open>
  The interface every stateful component of the development is used through: a step function
  that keeps an invariant, optionally one that also moves the state upwards in a preorder.
  Components interpret these locales on their own step functions and get the facts about
  whole runs.
\<close>

locale machine =
  fixes step :: "'i \<Rightarrow> 's \<Rightarrow> 's" and inv :: "'s \<Rightarrow> bool"
  assumes inv_step: "inv s \<Longrightarrow> inv (step i s)"
begin

lemma inv_run: "inv s \<Longrightarrow> inv (fold step is s)"
  by (induction "is" arbitrary: s) (auto intro: inv_step)

end

locale growing_machine = machine step inv
  for step :: "'i \<Rightarrow> 's \<Rightarrow> 's" and inv :: "'s \<Rightarrow> bool" +
  fixes le :: "'s \<Rightarrow> 's \<Rightarrow> bool"
  assumes le_refl: "le s s"
    and le_trans: "le s t \<Longrightarrow> le t u \<Longrightarrow> le s u"
    and step_le: "inv s \<Longrightarrow> le s (step i s)"
begin

lemma run_le: "inv s \<Longrightarrow> le s (fold step is s)"
proof (induction "is" arbitrary: s)
  case Nil
  then show ?case by (simp add: le_refl)
next
  case (Cons i "is")
  have "le s (step i s)" using Cons.prems by (rule step_le)
  moreover have "le (step i s) (fold step is (step i s))"
    using Cons.prems by (intro Cons.IH inv_step)
  ultimately show ?case by (auto intro: le_trans)
qed

lemma run_le_prefix: "inv s \<Longrightarrow> le (fold step is s) (fold step (is @ js) s)"
  by (simp add: run_le inv_run)

end

end
