(* ===== verification/CA_Runs.thy ===== *)
theory CA_Runs
  imports CA_Frames Machines
begin

text \<open>
  Relations between the states around a scheduler step. A relation that is reflexive, transitive
  and respected by the building blocks of a step (the admission path, message delivery, the
  queue operations, the bookkeeping) is respected by the step. Soundness, the queue invariant
  and the resource bound are instances.
\<close>

lemma lift_res_snd [simp]: "snd (lift_res q s) = s"
  by (simp add: lift_res_def)

lemma take_snapshot_effect: "\<exists>m. snd (take_snapshot C r s) = s\<lparr>mets := m\<rparr>"
proof -
  have "\<exists>m. s = s\<lparr>mets := m\<rparr>" by (metis ca.surjective ca.update_convs(23))
  then show ?thesis
    by (cases "take_snapshot C r s") (fastforce simp: take_snapshot_def Let_def elim!: pbind_lift_cases)
qed

text \<open>The building blocks that work on a rule already chosen.\<close>

locale work_relation =
  fixes C :: ca_config and R :: "ca \<Rightarrow> ca \<Rightarrow> bool"
  assumes rel_refl: "R s s"
    and rel_trans: "R s t \<Longrightarrow> R t u \<Longrightarrow> R s u"
    and rel_mets: "R s (s\<lparr>mets := m\<rparr>)"
    and rel_tick: "R s (s\<lparr>scheduler_step := Suc (scheduler_step s), mets := m\<rparr>)"
    and rel_reserve: "reserve (resources s) rid 1 = Inr lr \<Longrightarrow> R s (s\<lparr>resources := fst lr\<rparr>)"
    and rel_enqueue: "R s (enqueue_rule C rid why s)"
    and rel_reject: "R s (invalid_policy_result C r why s)"
    and rel_observe: "R s (snd (record_observation C k a s))"
    and rel_apply: "R s (snd (checked_apply C v p s))"
    and rel_deliver: "R s (snd (deliver_pending C limit rv s))"
    and rel_error: "R s (record_event C k pl (s\<lparr>runtime_error := err\<rparr>))"
begin

lemma rel_pbind:
  assumes "R s (snd m)" and "\<And>x t. m = (Inr x, t) \<Longrightarrow> R t (snd (f x t))"
  shows "R s (snd (pbind m f))"
proof -
  obtain a t where m: "m = (a, t)" by (cases m)
  show ?thesis using assms by (cases a) (auto simp: m intro: rel_trans)
qed

lemma rel_lift: "(\<And>x. q = Inr x \<Longrightarrow> R s (snd (f x s))) \<Longrightarrow> R s (snd (pbind (lift_res q s) f))"
  by (cases q) (simp_all add: lift_res_def rel_refl)

lemma rel_snapshot: "R s (snd (take_snapshot C r s))"
  using take_snapshot_effect [of C r s] rel_mets [of s] by auto

lemma rel_perform: "R s (snd (perform_proposal C inp r sn pa s))"
  unfolding perform_proposal_def
  by (intro rel_pbind rel_observe rel_apply) (simp add: rel_refl rel_enqueue)

lemma rel_handle: "R s (snd (handle_turn C fifo inp r sn turn s))"
  unfolding handle_turn_def
  by (cases turn) (simp_all add: rel_reject rel_lift rel_perform)

lemma rel_serve: "R s (snd (serve_rule C fifo inp r s))"
  unfolding serve_rule_def Let_def
  by (rule rel_pbind [OF rel_snapshot], rule rel_trans [OF rel_mets], rule rel_lift, rule rel_handle)

lemma rel_serve_choice: "R s (snd (serve_choice C fifo inp rid s))"
proof (cases "rule_by_id C rid")
  case None
  then show ?thesis by (simp add: serve_choice_def rel_refl)
next
  case (Some r)
  have "R s (snd (let u = s\<lparr>resources := fst lr\<rparr> in
      if truthy (row_get (snd lr) ''reserved'') then serve_rule C fifo inp r u
      else (Inr [(''status'', PStr ''BUDGET_EXHAUSTED''), (''rule_id'', PStr rid), (''resource'', PDict (snd lr))],
        enqueue_rule C rid ''budget_wait'' u)))"
    if "reserve (resources s) (''step:'' @ nat_text (scheduler_step s)) 1 = Inr lr" for lr
    using rel_trans [OF rel_reserve [OF that]] rel_serve rel_enqueue by (simp add: Let_def)
  then show ?thesis using Some
    by (auto simp: serve_choice_def rel_refl intro!: rel_lift)
qed

end

text \<open>With the choice of the rule, whole steps and runs.\<close>

locale step_relation = work_relation +
  assumes rel_choose: "R s (snd (choose_rule C fifo pick s))"
begin

lemma rel_schedule: "R s (snd (schedule C fp inp s))"
proof -
  let ?s = "s\<lparr>scheduler_step := Suc (scheduler_step s), mets := (mets s)\<lparr>steps := Suc (steps (mets s))\<rparr>\<rparr>"
  have "R ?s (snd (case choose_rule C f p ?s of
      (None, u) \<Rightarrow> (Inr (res u), u) | (Some rid, u) \<Rightarrow> serve_choice C f inp rid u))" for f p and res :: "ca \<Rightarrow> row"
    using rel_choose [of ?s f p] rel_trans rel_serve_choice
    by (auto split: prod.split option.split)
  then show ?thesis
    unfolding schedule_def Let_def by (rule rel_trans [OF rel_tick])
qed

lemma rel_step: "R s (snd (ca_step C fp inp s))"
  unfolding ca_step_def
  by (auto simp: rel_refl rel_schedule intro!: rel_pbind rel_deliver)

lemma rel_run: "ca_run C fp ms inp fuel n s = Some (r, s') \<Longrightarrow> R s s'"
proof (induction fuel arbitrary: n s)
  case (Suc fuel)
  have d: "R s t" if "deliver_pending C l v s = (q, t)" for l v q t
    using rel_deliver [of s l v] that by simp
  have st: "R s t" if "ca_step C fp i s = (q, t)" for i q t
    using rel_step [of s fp i] that by simp
  show ?case using Suc.prems
    by (auto split: if_splits prod.splits sum.splits dest!: Suc.IH
        intro: rel_refl d st rel_trans [OF d] rel_trans [OF st] rel_trans [OF st rel_error])
qed simp

end

end
