(* ===== verification/CA_Soundness.thy ===== *)
theory CA_Soundness
  imports CA_Runs
begin

text \<open>
  The automaton is sound: a fact it accepts is derivable by the declared Horn rules from the
  declared assumptions and the facts an applicable verifier receipt supports, and every
  accepted fact carries evidence that passes the authority check again at any later time.
  Policies and verifiers are arbitrary.
\<close>

section \<open>The specification: ground Horn derivability\<close>

inductive derivable :: "ca_config \<Rightarrow> string set \<Rightarrow> string \<Rightarrow> bool" for C X where
  assumed: "k \<in> atom_key ` set (assumptions C) \<Longrightarrow> derivable C X k"
| verified: "k \<in> X \<Longrightarrow> derivable C X k"
| by_rule: "r \<in> set (rules C) \<Longrightarrow> (\<And>a. a \<in> set (rule_premises r) \<Longrightarrow> derivable C X (atom_key a))
    \<Longrightarrow> derivable C X (atom_key (rule_conclusion r))"

lemma derivable_mono: "derivable C X k \<Longrightarrow> X \<subseteq> Y \<Longrightarrow> derivable C Y k"
  by (induction rule: derivable.induct) (auto intro: derivable.intros)

text \<open>Facts with a stored, applicable external receipt.\<close>

definition ext_keys :: "ca_config \<Rightarrow> ca \<Rightarrow> string set" where
  "ext_keys C s = {k. \<exists>eid e. map_of (evidence_store s) eid = Some e \<and> ev_kind e = EK_EXTERNAL_VERIFICATION
     \<and> validate_external C e = Inr () \<and> atom_key (subject e) = k}"

definition attached :: "ca_config \<Rightarrow> ca \<Rightarrow> string \<Rightarrow> string \<Rightarrow> bool" where
  "attached C s k eid \<longleftrightarrow> (\<exists>e. map_of (evidence_store s) eid = Some e \<and> atom_key (subject e) = k
     \<and> validate_authoritative C s e = Inr ())"

definition sound :: "ca_config \<Rightarrow> ca \<Rightarrow> bool" where
  "sound C s \<longleftrightarrow> distinct (map fst (evidence_store s))
     \<and> (\<forall>(eid, e) \<in> set (evidence_store s). evidence_id e = eid \<and> ev_context e = cid_of C)
     \<and> (\<forall>k. \<forall>eid \<in> set (fact_refs s k). k \<in> accepted_facts s \<and> attached C s k eid)
     \<and> (\<forall>k \<in> accepted_facts s. fact_refs s k \<noteq> [] \<and> derivable C (ext_keys C s) k)"

lemma soundD:
  assumes "sound C s"
  shows "distinct (map fst (evidence_store s))"
    and "map_of (evidence_store s) eid = Some e \<Longrightarrow> evidence_id e = eid"
    and "eid \<in> set (fact_refs s k) \<Longrightarrow> k \<in> accepted_facts s \<and> attached C s k eid"
    and "k \<in> accepted_facts s \<Longrightarrow> fact_refs s k \<noteq> []"
    and "k \<in> accepted_facts s \<Longrightarrow> derivable C (ext_keys C s) k"
  using assms by (auto simp: sound_def dest!: map_of_SomeD)

section \<open>Growth keeps what was checked\<close>

lemma check_premise_iff:
  "check_premise C s (k, eid) = Inr () \<longleftrightarrow> atom_by_key C k \<noteq> None \<and> k \<in> accepted_facts s
     \<and> (\<exists>e. map_of (evidence_store s) eid = Some e \<and> ev_context e = cid_of C \<and> atom_key (subject e) = k
          \<and> authoritative e) \<and> eid \<in> set (fact_refs s k)"
  by (auto simp: check_premise_def fact_refs_def ensure_Inr_iff split: option.splits)

lemma check_premise_mono:
  assumes "grows s s'" and "check_premise C s ke = Inr ()"
  shows "check_premise C s' ke = Inr ()"
proof -
  obtain k eid where ke: "ke = (k, eid)" by (cases ke)
  from assms show ?thesis unfolding ke check_premise_iff grows_def by blast
qed

lemma validate_authoritative_mono:
  assumes "grows s s'" and "validate_authoritative C s e = Inr ()"
  shows "validate_authoritative C s' e = Inr ()"
proof -
  have "rmap (check_premise C s) xs = Inr ys \<Longrightarrow> rmap (check_premise C s') xs = Inr ys" for xs ys
    using check_premise_mono [OF assms(1)] by (auto simp: rmap_Inr_iff elim: list_all2_mono)
  then show ?thesis using assms(2)
    by (auto simp: validate_authoritative_def validate_derivation_def res_simps
        split: if_splits option.splits evidence_kind.splits)
qed

lemma validate_authoritativeD:
  assumes "validate_authoritative C s e = Inr ()"
  shows "authoritative e" and "ev_context e = cid_of C"
    and "atom_key (subject e) \<in> atom_key ` set (atoms C)"
proof -
  show "authoritative e" "ev_context e = cid_of C"
    using assms by (auto simp: validate_authoritative_def split: if_splits)
  have "atom_by_key C (atom_key (subject e)) \<noteq> None"
    using assms by (auto simp: validate_authoritative_def split: if_splits)
  then show "atom_key (subject e) \<in> atom_key ` set (atoms C)"
    by (simp only: atom_by_key_None not_not)
qed

lemma ext_keys_mono: "grows s s' \<Longrightarrow> ext_keys C s \<subseteq> ext_keys C s'"
proof
  fix k
  assume g: "grows s s'" and "k \<in> ext_keys C s"
  then obtain eid e where e: "map_of (evidence_store s) eid = Some e" "ev_kind e = EK_EXTERNAL_VERIFICATION"
    "validate_external C e = Inr ()" "atom_key (subject e) = k"
    by (auto simp: ext_keys_def)
  then have "authoritative e"
    by (auto simp: validate_external_def authoritative_def split: if_splits)
  with g e(1) have "map_of (evidence_store s') eid = Some e"
    by (simp add: grows_def)
  with e(2,3,4) show "k \<in> ext_keys C s'"
    unfolding ext_keys_def by blast
qed

lemma attached_mono: "grows s s' \<Longrightarrow> attached C s k eid \<Longrightarrow> attached C s' k eid"
  using validate_authoritative_mono validate_authoritativeD(1)
  by (fastforce simp: attached_def grows_def)

text \<open>Authoritative evidence for a state makes its subject derivable.\<close>

lemma validated_derivable:
  assumes v: "validate_authoritative C s e = Inr ()"
    and stored: "map_of (evidence_store s') (evidence_id e) = Some e"
    and acc: "\<And>k. k \<in> accepted_facts s \<Longrightarrow> derivable C (ext_keys C s') k"
  shows "derivable C (ext_keys C s') (atom_key (subject e))"
proof (cases "ev_kind e")
  case EK_TRUSTED_ASSUMPTION
  with v have "atom_key (subject e) \<in> atom_key ` set (assumptions C)"
    by (auto simp: validate_authoritative_def validate_assumption_def split: if_splits)
  then show ?thesis by (rule derivable.assumed)
next
  case EK_EXTERNAL_VERIFICATION
  with v have "validate_external C e = Inr ()"
    by (auto simp: validate_authoritative_def split: if_splits)
  with EK_EXTERNAL_VERIFICATION stored show ?thesis
    by (auto simp: ext_keys_def intro: derivable.verified)
next
  case EK_RULE_DERIVATION
  with v obtain r us where r: "rule_by_id C (ev_rule e) = Some r" "subject e = rule_conclusion r"
      "premise_atoms e = map atom_key (rule_premises r)" "length (supporting_evidence e) = length (rule_premises r)"
      "rmap (check_premise C s) (zip (premise_atoms e) (supporting_evidence e)) = Inr us"
    by (auto simp: validate_authoritative_def validate_derivation_def res_simps split: if_splits option.splits)
  have "derivable C (ext_keys C s') (atom_key a)" if "a \<in> set (rule_premises r)" for a
  proof -
    from that obtain i where i: "i < length (rule_premises r)" "rule_premises r ! i = a"
      by (auto simp: in_set_conv_nth)
    with r(3,4,5) have "check_premise C s (atom_key a, supporting_evidence e ! i) = Inr ()"
      by (auto simp: rmap_Inr_iff list_all2_conv_all_nth)
    then show ?thesis by (simp add: check_premise_iff acc)
  qed
  with r(1,2) show ?thesis
    using derivable.by_rule [of r C] rule_by_idD [OF r(1)] by simp
qed (use v in \<open>auto simp: validate_authoritative_def split: if_splits\<close>)

section \<open>Operations\<close>

text \<open>An operation advances: it keeps soundness and only grows the state.\<close>

definition advances :: "ca_config \<Rightarrow> ca \<Rightarrow> ca \<Rightarrow> bool" where
  "advances C s s' \<longleftrightarrow> (sound C s \<longrightarrow> sound C s' \<and> grows s s')"

lemma advances_refl [simp, intro]: "advances C s s"
  by (simp add: advances_def)

lemma advances_trans [trans]: "advances C s t \<Longrightarrow> advances C t u \<Longrightarrow> advances C s u"
  by (auto simp: advances_def intro: grows_trans)

lemma sound_cong:
  assumes "same_core s s'"
  shows "sound C s' \<longleftrightarrow> sound C s"
proof -
  have f: "fact_refs s' = fact_refs s" "evidence_store s' = evidence_store s" "accepted_facts s' = accepted_facts s"
    "fact_evidence s' = fact_evidence s"
    using assms by (auto simp: same_core_def fact_refs_def fun_eq_iff)
  have "check_premise C s' = check_premise C s"
    by (rule ext) (simp only: check_premise_def f)
  then have "validate_derivation C s' = validate_derivation C s"
    by (intro ext) (simp only: validate_derivation_def)
  then have "validate_authoritative C s' = validate_authoritative C s"
    by (intro ext) (simp only: validate_authoritative_def)
  then show ?thesis by (simp add: sound_def attached_def ext_keys_def f)
qed

lemma same_core_advances: "same_core s s' \<Longrightarrow> advances C s s'"
  by (simp add: advances_def sound_cong same_core_grows)

text \<open>Adding one fact on evidence that passes the authority check advances the state, whatever
  the other fields do.\<close>

lemma accept_core_advances:
  assumes store: "evidence_store s' = evidence_store s"
    and facts: "accepted_facts s' = insert (atom_key (subject e)) (accepted_facts s)"
    and refs: "\<And>k. set (fact_refs s' k) =
          (if k = atom_key (subject e) then insert (evidence_id e) (set (fact_refs s k)) else set (fact_refs s k))"
    and stored: "map_of (evidence_store s) (evidence_id e) = Some e"
    and valid: "validate_authoritative C s e = Inr ()"
  shows "advances C s s'"
  unfolding advances_def
proof (intro impI conjI)
  assume snd: "sound C s"
  show g: "grows s s'" by (auto simp: grows_def store facts refs)
  have der: "derivable C (ext_keys C s') k" if "k \<in> accepted_facts s" for k
    using soundD(5) [OF snd that] ext_keys_mono [OF g] by (rule derivable_mono)
  have new: "derivable C (ext_keys C s') (atom_key (subject e))"
    using valid stored der by (intro validated_derivable) (simp_all add: store)
  have att: "attached C s' (atom_key (subject e)) (evidence_id e)"
    using stored validate_authoritative_mono [OF g valid] by (auto simp: attached_def store)
  show "sound C s'"
    unfolding sound_def
  proof (intro conjI)
    show "\<forall>k. \<forall>eid \<in> set (fact_refs s' k). k \<in> accepted_facts s' \<and> attached C s' k eid"
      using soundD(3) [OF snd] attached_mono [OF g] att by (auto simp: facts refs split: if_splits)
    show "\<forall>k \<in> accepted_facts s'. fact_refs s' k \<noteq> [] \<and> derivable C (ext_keys C s') k"
    proof
      fix k
      assume "k \<in> accepted_facts s'"
      then consider "k = atom_key (subject e)" | "k \<in> accepted_facts s" by (auto simp: facts)
      then show "fact_refs s' k \<noteq> [] \<and> derivable C (ext_keys C s') k"
        using new der soundD(4) [OF snd] refs [of k] by cases (auto simp flip: set_empty split: if_splits)
    qed
  qed (use snd in \<open>simp_all add: store sound_def\<close>)
qed

lemma accept_fact_advances:
  assumes acc: "accept_fact C e s = (r, s')"
    and stored: "map_of (evidence_store s) (evidence_id e) = Some e"
    and valid: "validate_authoritative C s e = Inr ()"
  shows "advances C s s'"
  using stored valid
  by (rule accept_core_advances [rotated 3]) (auto simp: accept_fact_core [OF acc] fact_refs_attach)

lemma store_evidence_advances:
  assumes st: "store_evidence C e s = (r, s')"
  shows "advances C s s'"
  unfolding advances_def
proof (intro impI conjI)
  assume snd: "sound C s"
  note eff = store_evidence_effect [OF st soundD(1) [OF snd]]
  have refs: "fact_refs s' = fact_refs s" by (simp add: fun_eq_iff fact_refs_def eff)
  show g: "grows s s'" using eff(3) by (simp add: grows_def refs eff)
  show "sound C s'"
    using snd attached_mono [OF g] derivable_mono [OF _ ext_keys_mono [OF g]] eff(5,6)
    unfolding sound_def refs eff(1,2) by fastforce
qed

lemma admit_evidence_advances:
  assumes "admit_evidence C e b s = (r, s')"
  shows "advances C s s'"
proof (cases b)
  case False
  then show ?thesis using assms
    by (auto simp: admit_evidence_def elim!: pbind_cases intro: store_evidence_advances)
next
  case True
  with assms consider "s' = s"
    | x where "validate_authoritative C s e = Inr ()" "store_evidence C e s = (Inl x, s')"
    | v t where "validate_authoritative C s e = Inr ()" "store_evidence C e s = (Inr v, t)" "accept_fact C e t = (r, s')"
    by (auto simp: admit_evidence_def elim!: pbind_cases pbind_lift_cases)
  then show ?thesis
  proof cases
    case 3
    have "advances C t s'" if snd: "sound C s"
    proof -
      note eff = store_evidence_effect [OF 3(2) soundD(1) [OF snd]]
      have "grows s t" using store_evidence_advances [OF 3(2)] snd by (simp add: advances_def)
      from 3(3) eff(4) [OF refl] validate_authoritative_mono [OF this 3(1)]
      show ?thesis by (intro accept_fact_advances) auto
    qed
    then show ?thesis
      using store_evidence_advances [OF 3(2)] by (auto simp: advances_def intro: grows_trans)
  qed (auto intro: store_evidence_advances)
qed

section \<open>Messages\<close>

lemma deliver_message_same_core: "deliver_message C m s = (r, s') \<Longrightarrow> same_core s s'"
  by (auto simp: deliver_message_def Let_def same_core_def elim!: pbind_lift_cases split: if_splits)

lemma deliver_loop_same_core: "deliver_loop C rv n cnt s = (r, s') \<Longrightarrow> same_core s s'"
proof (induction n arbitrary: rv cnt s)
  case (Suc n)
  show ?case
  proof (cases "pending_messages s")
    case (Cons m ms)
    have upd: "same_core s t" if "same_core (s\<lparr>pending_messages := q\<rparr>) t" for q t
      using that by (simp add: same_core_def)
    show ?thesis using Suc.prems Cons
      by (auto split: if_splits elim!: pbind_cases
          dest!: deliver_message_same_core Suc.IH dest: upd intro: same_core_trans)
  qed (use Suc.prems in simp)
qed simp

lemma deliver_pending_same_core: "deliver_pending C limit rv s = (r, s') \<Longrightarrow> same_core s s'"
  by (auto simp: deliver_pending_def same_core_def elim!: pbind_cases dest!: deliver_loop_same_core)

section \<open>Actions\<close>

lemma apply_rule_proposal_advances: "apply_rule_proposal C p s = (r, s') \<Longrightarrow> advances C s s'"
proof -
  assume a: "apply_rule_proposal C p s = (r, s')"
  have upd: "advances C s (t\<lparr>mets := m\<rparr>)" if "advances C s t" for t m
    using that by (rule advances_trans) (simp add: same_core_advances same_core_def)
  show ?thesis using a
    by (auto simp: apply_rule_proposal_def Let_def elim!: pbind_lift_cases
        split: if_splits option.splits prod.splits sum.splits dest!: admit_evidence_advances intro: upd)
qed

lemma apply_dependency_request_same_core: "apply_dependency_request C p s = (r, s') \<Longrightarrow> same_core s s'"
  by (auto simp: apply_dependency_request_def Let_def same_core_def split: if_splits option.splits)

lemma apply_policy_update_same_core: "apply_policy_update C p s = (r, s') \<Longrightarrow> same_core s s'"
  by (auto simp: apply_policy_update_def same_core_def elim!: pbind_lift_cases split: sum.splits)

lemma admit_receipt_advances: "admit_receipt C tgt a rc s = (r, s') \<Longrightarrow> advances C s s'"
proof -
  assume a: "admit_receipt C tgt a rc s = (r, s')"
  have upd: "advances C s t'" if "advances C s t" "same_core t t'" for t t'
    using that(1) same_core_advances [OF that(2)] by (rule advances_trans)
  show ?thesis using a
    by (auto simp: admit_receipt_def Let_def split: if_splits prod.splits sum.splits
        dest!: admit_evidence_advances elim!: upd simp: same_core_def)
qed

lemma query_verifier_advances: "query_verifier C vres tgt a s = (r, s') \<Longrightarrow> advances C s s'"
proof -
  assume q: "query_verifier C vres tgt a s = (r, s')"
  let ?s1 = "s\<lparr>mets := (mets s)\<lparr>verifier_attempts := Suc (verifier_attempts (mets s))\<rparr>\<rparr>"
  have "advances C s ?s1" by (simp add: same_core_advances same_core_def)
  moreover have "advances C ?s1 s' \<or> same_core s s'" using q
    by (auto simp: query_verifier_def Let_def same_core_def split: if_splits sum.splits dest: admit_receipt_advances)
  ultimately show ?thesis by (auto intro: advances_trans same_core_advances)
qed

lemma validate_cached_authoritative:
  "validate_cached C s e cached tgt = Inr rc \<Longrightarrow> authoritative e \<Longrightarrow> validate_authoritative C s e = Inr ()"
  by (auto simp: validate_cached_def res_simps split: if_splits)

lemma apply_external_request_advances:
  assumes a: "apply_external_request C vres p s = (r, s')"
  shows "advances C s s'"
proof -
  have drop: "advances C s t" if "query_verifier C vres tgt a (s\<lparr>verification_cache := d\<rparr>) = (r, t)" for tgt a d t
    using query_verifier_advances [OF that] same_core_advances [of s "s\<lparr>verification_cache := d\<rparr>" C]
    by (auto simp: same_core_def intro: advances_trans)
  have hit: "advances C s t"
    if "map_of (evidence_store s) eid = Some e" "validate_cached C s e cached tgt = Inr rc" "authoritative e"
      "accept_fact C e s = (q, t)" for eid e cached tgt rc q t
  proof -
    have "advances C s t" if snd: "sound C s"
      using that \<open>map_of (evidence_store s) eid = Some e\<close> soundD(2) [OF snd]
      by (intro accept_fact_advances [OF \<open>accept_fact C e s = (q, t)\<close>]
          validate_cached_authoritative [OF \<open>validate_cached C s e cached tgt = Inr rc\<close> \<open>authoritative e\<close>]) auto
    then show ?thesis by (auto simp: advances_def)
  qed
  show ?thesis using a
    by (auto simp: apply_external_request_def Let_def elim!: pbind_cases
        split: if_splits option.splits list.splits sum.splits
        intro: query_verifier_advances drop hit)
qed

lemma dispatch_action_advances: "dispatch_action C vres p s = (r, s') \<Longrightarrow> advances C s s'"
  by (auto simp: dispatch_action_def split: action_type.splits
      intro: apply_rule_proposal_advances apply_external_request_advances
        same_core_advances [OF apply_dependency_request_same_core] same_core_advances [OF apply_policy_update_same_core])

lemma checked_apply_advances: "checked_apply C vres p s = (r, s') \<Longrightarrow> advances C s s'"
proof -
  assume a: "checked_apply C vres p s = (r, s')"
  have upd: "advances C s t'" if "dispatch_action C vres p s = (q, t)" "same_core t t'" for q t t'
    using dispatch_action_advances [OF that(1)] same_core_advances [OF that(2)] by (rule advances_trans)
  have "same_core s s' \<or> (\<exists>q t. dispatch_action C vres p s = (q, t) \<and> same_core t s')"
    using a by (auto simp: checked_apply_def same_core_def split: option.splits elim!: pbind_cases)
  then show ?thesis by (auto intro: upd same_core_advances)
qed

section \<open>The scheduler\<close>

lemma take_snapshot_same_core: "take_snapshot C r s = (q, s') \<Longrightarrow> same_core s s'"
  by (auto simp: take_snapshot_def Let_def same_core_def elim!: pbind_lift_cases)

lemma record_observation_same_core: "record_observation C k a s = (q, s') \<Longrightarrow> same_core s s'"
  by (auto simp: record_observation_def same_core_def elim!: pbind_lift_cases)

lemma choose_rule_same_core: "choose_rule C fifo pick s = (q, s') \<Longrightarrow> same_core s s'"
  by (auto simp: choose_rule_def Let_def same_core_def split: list.splits)

lemma same_core_enqueue: "same_core s (enqueue_rule C rid why s)"
  and same_core_reject: "same_core s (invalid_policy_result C r why s)"
  by (simp_all add: same_core_def)

interpretation adv: step_relation C "advances C" for C
proof
  fix s t u and m :: metrics
  show "advances C s t \<Longrightarrow> advances C t u \<Longrightarrow> advances C s u" by (rule advances_trans)
  show "advances C s (snd (record_observation C k a s))" for k a
    by (metis record_observation_same_core same_core_advances prod.collapse)
  show "advances C s (snd (checked_apply C v p s))" for v p
    by (metis checked_apply_advances prod.collapse)
  show "advances C s (snd (deliver_pending C limit rv s))" for limit rv
    by (metis deliver_pending_same_core same_core_advances prod.collapse)
  show "advances C s (snd (choose_rule C fifo pick s))" for fifo pick
    by (metis choose_rule_same_core same_core_advances prod.collapse)
qed (simp_all add: same_core_advances same_core_enqueue same_core_reject same_core_def)


section \<open>Construction and reachable states\<close>

definition untouched :: "ca \<Rightarrow> bool" where
  "untouched s \<longleftrightarrow> evidence_store s = [] \<and> fact_evidence s = [] \<and> accepted_facts s = {}"

lemma fold_invariant: "P s \<Longrightarrow> (\<And>x t. P t \<Longrightarrow> P (f x t)) \<Longrightarrow> P (fold f xs s)"
  by (induction xs arbitrary: s) auto

lemma untouched_build: "untouched s \<Longrightarrow> untouched (build_graph C s)"
proof -
  have e: "untouched t \<Longrightarrow> untouched (add_edge C a b k rid ix t)" for a b k rid ix t
    by (simp add: untouched_def add_edge_def Let_def)
  have p: "untouched t \<Longrightarrow> untouched (add_premise C r ip t)" for r ip t
    unfolding add_premise_def by (rule e) (simp add: untouched_def)
  have r: "untouched t \<Longrightarrow> untouched (add_rule_cell C r t)" for r t
    unfolding add_rule_cell_def Let_def by (intro e fold_invariant [where P = untouched] p) (simp_all add: untouched_def)
  assume "untouched s"
  then have "untouched (fold (add_rule_cell C) (rules C) (fold (add_fact_cell C) (atoms C) s))"
    by (intro fold_invariant [where P = untouched] r) (simp_all add: untouched_def add_fact_cell_def Let_def)
  then show ?thesis by (simp add: build_graph_def Let_def untouched_def)
qed

lemma untouched_sound: "untouched s \<Longrightarrow> sound C s"
  by (simp add: untouched_def sound_def fact_refs_def)

lemma admit_assumptions_advances: "advances C s (snd (admit_assumptions C as s))"
proof (induction as arbitrary: s)
  case (Cons a as)
  have "advances C s (snd (admit_assumption C a s))"
    by (metis admit_assumption_def admit_evidence_advances prod.collapse)
  then show ?case using Cons by (simp add: adv.rel_pbind)
qed simp

lemma seed_rules_same_core: "same_core s (seed_rules C s)"
  unfolding seed_rules_def
  by (rule fold_invariant [where P = "same_core s"]) (auto intro: same_core_trans same_core_enqueue)

lemma init_ca_cases:
  assumes "init_ca C budget = Inr s"
  obtains l t u q d where "mk_ledger budget 0 [] = Inr l" "admit_assumptions C (assumptions C) (build_graph C (empty_ca l)) = (Inr q, t)"
    "deliver_pending C None False t = (Inr d, u)" "s = seed_rules C u"
proof -
  from assms obtain l where l: "mk_ledger budget 0 [] = Inr l"
    by (auto simp: init_ca_def rbind_Inr_iff)
  obtain v w where w: "pbind (admit_assumptions C (assumptions C) (build_graph C (empty_ca l))) (\<lambda>_ s.
        pbind (deliver_pending C None False s) (\<lambda>_ s. (Inr (), seed_rules C s))) = (v, w)"
    by (rule prod.exhaust)
  with assms have "v = Inr ()" "s = w"
    by (auto simp: init_ca_def l split: sum.splits)
  with w show thesis by (auto elim!: pbind_cases intro: that [OF l])
qed

lemma init_ca_sound: "init_ca C budget = Inr s \<Longrightarrow> sound C s"
proof (erule init_ca_cases)
  fix l t u q d
  assume *: "admit_assumptions C (assumptions C) (build_graph C (empty_ca l)) = (Inr q, t)"
    "deliver_pending C None False t = (Inr d, u)" "s = seed_rules C u"
  have "sound C (build_graph C (empty_ca l))"
    by (intro untouched_sound untouched_build) (simp add: untouched_def empty_ca_def)
  with admit_assumptions_advances [of C "build_graph C (empty_ca l)" "assumptions C"] * have "sound C t"
    by (simp add: advances_def)
  then show "sound C s"
    using *(2,3) same_core_trans [OF deliver_pending_same_core seed_rules_same_core] sound_cong by blast
qed

end
