(* ===== verification/CA_Reach.thy ===== *)
theory CA_Reach
  imports CA_Soundness
begin

text \<open>
  The states a \<open>ProofGraphCA\<close> can be in: those its public operations reach from a freshly built
  runtime, with policies, verifiers, messages and proposals of any kind.
\<close>

inductive moves :: "ca_config \<Rightarrow> ca \<Rightarrow> ca \<Rightarrow> bool" for C where
  stay: "moves C s s"
| by_step: "moves C s t \<Longrightarrow> moves C s (snd (ca_step C fair_period inp t))"
| by_run: "moves C s t \<Longrightarrow> ca_run C fair_period max_steps inps fuel n t = Some (r, u) \<Longrightarrow> moves C s u"
| by_delivery: "moves C s t \<Longrightarrow> moves C s (snd (deliver_pending C limit rv t))"
| by_message: "moves C s t \<Longrightarrow> moves C s (snd (deliver_message C m t))"
| by_proposal: "moves C s t \<Longrightarrow> moves C s (snd (checked_apply C v p t))"
| by_proposal_mapping: "moves C s t \<Longrightarrow> moves C s (snd (checked_apply_mapping C v d t))"

definition reach :: "ca_config \<Rightarrow> ca \<Rightarrow> bool" where
  "reach C s \<longleftrightarrow> (\<exists>budget s0. init_ca C budget = Inr s0 \<and> moves C s0 s)"

lemma checked_apply_mapping_cases:
  "snd (checked_apply_mapping C v d s) = s \<or> (\<exists>p. snd (checked_apply_mapping C v d s) = snd (checked_apply C v p s))"
  by (auto simp: checked_apply_mapping_def lift_res_def split: sum.splits)

context step_relation
begin

lemma rel_moves:
  assumes "moves C s t" and msg: "\<And>m u. R u (snd (deliver_message C m u))"
  shows "R s t"
  using assms(1)
proof (induction rule: moves.induct)
  case (by_proposal_mapping s t v d)
  then show ?case
    using checked_apply_mapping_cases [of C v d t] rel_trans rel_apply by metis
qed (auto intro: rel_refl rel_trans [OF _ rel_step] rel_trans [OF _ rel_run] rel_trans [OF _ rel_deliver]
    rel_trans [OF _ rel_apply] rel_trans [OF _ msg])

end

lemma deliver_message_advances: "advances C s (snd (deliver_message C m s))"
  by (metis deliver_message_same_core same_core_advances prod.collapse)

lemma moves_advances: "moves C s t \<Longrightarrow> advances C s t"
  by (erule adv.rel_moves) (rule deliver_message_advances)

lemma reach_sound: "reach C s \<Longrightarrow> sound C s"
  using init_ca_sound moves_advances by (auto simp: reach_def advances_def)

lemma reach_moves: "reach C s \<Longrightarrow> moves C s t \<Longrightarrow> sound C t \<and> grows s t"
  using reach_sound moves_advances by (auto simp: advances_def)

text \<open>Sequences of steps, as runs of the general machine.\<close>

interpretation ca: growing_machine "\<lambda>i s. snd (ca_step C fp i s)" "sound C" grows for C fp
proof
  fix s t u :: ca and i :: step_input
  have adv: "advances C s (snd (ca_step C fp i s))" by (rule adv.rel_step)
  show "sound C s \<Longrightarrow> sound C (snd (ca_step C fp i s))"
    and "sound C s \<Longrightarrow> grows s (snd (ca_step C fp i s))" using adv by (simp_all add: advances_def)
  show "grows s s" by (rule grows_refl)
  show "grows s t \<Longrightarrow> grows t u \<Longrightarrow> grows s u" by (rule grows_trans)
qed

lemma steps_sound: "reach C s \<Longrightarrow> sound C (fold (\<lambda>i s. snd (ca_step C fp i s)) is s)"
  by (rule ca.inv_run) (rule reach_sound)

lemma steps_grow:
  "reach C s \<Longrightarrow> grows (fold (\<lambda>i s. snd (ca_step C fp i s)) is s) (fold (\<lambda>i s. snd (ca_step C fp i s)) (is @ js) s)"
  by (rule ca.run_le_prefix) (rule reach_sound)

section \<open>A small system for the examples\<close>

text \<open>Atoms \<open>p\<close> and \<open>q\<close>, the rule \<open>r1: p \<Longrightarrow> q\<close>, the assumption \<open>p\<close>, the target \<open>q\<close>. The
  digest of a text looks at one of its characters only: it tells a derivation apart from an
  assumption, which is all this system needs.\<close>

definition demo_lib :: pylib where
  "demo_lib = \<lparr>sha256_hex = (\<lambda>t. if take 1 (drop 46 t) = ''c'' then ''c'' else ''h''), float_repr = (\<lambda>_. ''0.0''), float_of_text = (\<lambda>_. None), repr_of = (\<lambda>_. [])\<rparr>"

definition demo_p :: atom where "demo_p = \<lparr>predicate = ''p'', atom_args = []\<rparr>"
definition demo_q :: atom where "demo_q = \<lparr>predicate = ''q'', atom_args = []\<rparr>"
definition demo_r1 :: hrule where "demo_r1 = \<lparr>rule_id = ''r1'', rule_premises = [demo_p], rule_conclusion = demo_q\<rparr>"

definition demo_context :: context_identity where
  "demo_context = \<lparr>facts_revision = ''h'', rules_revision = ''h'', ctx_target = [], candidate_artifact = [],
     source_dependencies = [], verifier_id = ''lean'', verifier_version = ''4'', verifier_options = [],
     axiom_policy = [], ctx_schema = ''s''\<rparr>"

definition demo_config :: ca_config where
  "demo_config = \<lparr>lib = demo_lib, atoms = [demo_p, demo_q], predicate_table = [(''p'', 0), (''q'', 0)],
     rules = [demo_r1], assumptions = [demo_p], targets = [demo_q], ca_context = demo_context,
     neighbor_limit = 8, max_events = 256, max_evidence = 1024, has_verifier = True, has_rng = False\<rparr>"

lemma demo_context_id [simp]: "context_id demo_lib demo_context = ''sha256:c''"
  by code_simp

lemma demo_evidence_p [simp]: "digest demo_lib (evidence_body EK_TRUSTED_ASSUMPTION ES_ASSUMED demo_p ''sha256:c'' [] [] []
    ''declared_assumption'' []) = ''sha256:h''"
  by code_simp

lemma demo_evidence_q [simp]: "digest demo_lib (evidence_body EK_RULE_DERIVATION ES_VERIFIED demo_q ''sha256:c'' ''r1'' [''p'']
    [''sha256:h''] ''local_transition_checker'' []) = ''sha256:c''"
  by code_simp

lemma demo_message_id [simp]: "digest demo_lib (message_body ''sha256:c'' ''cell://fact/p'' ''cell://rule/r1'' ''fact_available''
    [(''atom'', PStr ''p''), (''evidence_id'', PStr ''sha256:h'')]) = ''sha256:h''"
  by code_simp

lemma demo_edges [simp]:
  "make_edge demo_lib ''cell://fact/p'' ''cell://rule/r1'' ET_PREMISE ''r1'' (Some 0) = \<lparr>edge_id = ''sha256:h'',
     edge_source = ''cell://fact/p'', edge_target = ''cell://rule/r1'', edge_kind = ET_PREMISE, edge_rule = ''r1'', premise_index = Some 0\<rparr>"
  "make_edge demo_lib ''cell://rule/r1'' ''cell://fact/q'' ET_CONCLUSION ''r1'' None = \<lparr>edge_id = ''sha256:h'',
     edge_source = ''cell://rule/r1'', edge_target = ''cell://fact/q'', edge_kind = ET_CONCLUSION, edge_rule = ''r1'', premise_index = None\<rparr>"
  by code_simp+

lemma demo_fields [simp]:
  "lib demo_config = demo_lib" "atoms demo_config = [demo_p, demo_q]" "rules demo_config = [demo_r1]"
  "assumptions demo_config = [demo_p]" "targets demo_config = [demo_q]" "ca_context demo_config = demo_context"
  "max_evidence demo_config = 1024" "max_events demo_config = 256" "neighbor_limit demo_config = 8"
  "has_verifier demo_config" "\<not> has_rng demo_config"
  "atom_key demo_p = ''p''" "atom_key demo_q = ''q''"
  "rule_id demo_r1 = ''r1''" "rule_premises demo_r1 = [demo_p]" "rule_conclusion demo_r1 = demo_q"
  by (simp_all add: demo_config_def demo_p_def demo_q_def demo_r1_def atom_key_def)

lemma demo_mk_config: "mk_config demo_lib [demo_p, demo_q] [demo_r1] [demo_p] [demo_q] [] (Some demo_context) 8 256 1024 True False
    = Inr demo_config"
  by (simp add: mk_config_def validate_universe_def rule_atoms_def ensure_def build_predicate_table_def validate_rules_def
      validate_atom_list_def) (simp add: demo_config_def demo_p_def demo_q_def dict_default_def dict_set_def Let_def)

lemma demo_message_json: "case canonical_json demo_lib (PDict (message_dict (make_message demo_lib ''sha256:c'' ''cell://fact/p''
    ''cell://rule/r1'' ''fact_available'' [(''atom'', PStr ''p''), (''evidence_id'', PStr ''sha256:h'')])))
   of Inl _ \<Rightarrow> False | Inr t \<Rightarrow> length t \<le> max_message_bytes"
  by code_simp
lemma demo_message_digest: "sha256_digest demo_lib (message_body ''sha256:c'' ''cell://fact/p'' ''cell://rule/r1'' ''fact_available''
    [(''atom'', PStr ''p''), (''evidence_id'', PStr ''sha256:h'')]) = Inr ''sha256:h''"
  using demo_message_id
  by (simp add: sha256_digest_def canonical_json_def message_body_def digest_def del: sort_keys.simps json_text.simps demo_message_id)

definition demo_edge :: dependency_edge where
  "demo_edge = \<lparr>edge_id = ''sha256:h'', edge_source = ''cell://rule/r1'', edge_target = ''cell://fact/q'',
     edge_kind = ET_CONCLUSION, edge_rule = ''r1'', premise_index = None\<rparr>"

definition demo_message :: message where
  "demo_message = make_message demo_lib ''sha256:c'' ''cell://fact/p'' ''cell://rule/r1'' ''fact_available''
     [(''atom'', PStr ''p''), (''evidence_id'', PStr ''sha256:h'')]"

text \<open>What the constructor leaves in the fields a scheduler step reads.\<close>

definition demo_base :: "ca \<Rightarrow> bool" where
  "demo_base s \<longleftrightarrow> accepted_facts s = {''p''} \<and> fact_evidence s = [(''p'', [''sha256:h''])]
     \<and> evidence_store s = [(''sha256:h'', assumption_evidence demo_config demo_p)]
     \<and> edges s = [(''sha256:h'', demo_edge)] \<and> rules_by_premise s = [(''p'', [''r1''])]
     \<and> forward_edges s = [(''cell://fact/p'', [''sha256:h'']), (''cell://rule/r1'', [''sha256:h''])]
     \<and> reverse_edges s = [(''cell://rule/r1'', [''sha256:h'']), (''cell://fact/q'', [''sha256:h''])]
     \<and> applied_proposals s = [] \<and> idempotency_keys s = [] \<and> runtime_error s = None
     \<and> (\<forall>k \<in> {''cell://fact/p'', ''cell://fact/q'', ''cell://rule/r1''}. map_of (map (map_prod id cell_id) (cells s)) k = Some k)"

lemma demo_assumption: "assumption_evidence demo_config demo_p = \<lparr>evidence_id = ''sha256:h'', ev_kind = EK_TRUSTED_ASSUMPTION,
    ev_status = ES_ASSUMED, subject = demo_p, ev_context = ''sha256:c'', ev_rule = [], premise_atoms = [],
    supporting_evidence = [], ev_source = ''declared_assumption'', ev_details = []\<rparr>"
  by (simp add: assumption_evidence_def make_evidence_def)

lemma demo_built:
  assumes "mk_ledger None 0 [] = Inr l"
  shows "\<exists>s. admit_assumptions demo_config [demo_p] (build_graph demo_config (empty_ca l)) = (Inr (), s) \<and> demo_base s
     \<and> scheduler_step s = 0 \<and> resources s = l
     \<and> ready_queue s = [] \<and> queued_rules s = {} \<and> delivered_message_ids s = {} \<and> pending_messages s = [demo_message]"
  using assms
  by (simp add: demo_base_def demo_message_def demo_edge_def demo_assumption build_graph_def Let_def add_fact_cell_def
      add_rule_cell_def add_premise_def add_edge_def empty_ca_def fact_cell_id_def rule_cell_id_def fact_prefix_def
      rule_prefix_def dict_append_def dict_set_def admit_assumption_def admit_evidence_def validate_authoritative_def
      authoritative_def validate_assumption_def atom_by_key_def lift_res_def store_evidence_def accept_fact_def get_cell_def
      fact_refs_def attach_evidence_def dict_default_def put_cell_def notify_rule_def set_pending_counts_def
      make_message_def record_event_def)

lemma demo_base_cong:
  assumes "same_core s t" "edges t = edges s" "rules_by_premise t = rules_by_premise s" "forward_edges t = forward_edges s"
    "reverse_edges t = reverse_edges s" "applied_proposals t = applied_proposals s" "idempotency_keys t = idempotency_keys s"
    "runtime_error t = runtime_error s"
    "map (map_prod id cell_id) (cells t) = map (map_prod id cell_id) (cells s)"
  shows "demo_base t = demo_base s"
  using assms by (simp add: demo_base_def same_core_def)

lemma demo_cell: "map_of (map (map_prod id cell_id) cs) k = Some i \<longleftrightarrow> (\<exists>c. map_of cs k = Some c \<and> cell_id c = i)"
  by (induction cs) auto

lemma demo_init: "\<exists>s. init_ca demo_config None = Inr s \<and> demo_base s \<and> ready_queue s = [''r1''] \<and> queued_rules s = {''r1''}
   \<and> pending_messages s = [] \<and> scheduler_step s = 0 \<and> mk_ledger None 0 [] = Inr (resources s)"
proof -
  obtain l where l: "mk_ledger None 0 [] = Inr l" by (simp add: mk_ledger_def)
  obtain s where s: "admit_assumptions demo_config [demo_p] (build_graph demo_config (empty_ca l)) = (Inr (), s)"
    "demo_base s" "scheduler_step s = 0" "resources s = l" "ready_queue s = []" "queued_rules s = {}" "delivered_message_ids s = {}" "pending_messages s = [demo_message]"
    using demo_built [OF l] by (elim exE conjE) blast
  obtain t where t: "canonical_json demo_lib (PDict (message_dict demo_message)) = Inr t" "length t \<le> max_message_bytes"
    using demo_message_json by (auto simp: demo_message_def split: sum.splits)
  have c: "\<exists>c. map_of (cells s) ''cell://fact/p'' = Some c" "\<exists>c. map_of (cells s) ''cell://rule/r1'' = Some c"
    using s(2) by (auto simp: demo_base_def demo_cell)
  define u where "u = snd (deliver_pending demo_config None False s)"
  have u: "deliver_pending demo_config None False s = (Inr [(''delivered'', PInt 1), (''pending'', PInt 0)], u)"
    "ready_queue u = [''r1'']" "queued_rules u = {''r1''}" "pending_messages u = []" "scheduler_step u = 0" "resources u = l"
    using s(3-) t c unfolding u_def demo_message_def
    by (simp_all add: deliver_pending_def deliver_message_def make_message_def demo_message_digest lift_res_def
        starts_with_def rule_prefix_def enqueue_rule_def rule_by_id_def)
  have "demo_base u"
    using s(3-) t c unfolding u_def demo_message_def
    by (intro iffD2 [OF demo_base_cong s(2)])
      (simp_all add: deliver_pending_def deliver_message_def make_message_def demo_message_digest lift_res_def
        starts_with_def rule_prefix_def enqueue_rule_def rule_by_id_def same_core_def)
  with u show ?thesis
    by (simp add: init_ca_def l s(1) seed_rules_def del: admit_assumptions.simps)
qed

lemma demo_reach: "\<exists>s. reach demo_config s \<and> accepted_facts s = {''p''} \<and> fact_refs s ''p'' = [''sha256:h''] \<and> ready_queue s = [''r1'']"
  using demo_init moves.stay unfolding reach_def fact_refs_def demo_base_def by fastforce

section \<open>Properties\<close>

text \<open>C1: in every reachable state an accepted fact is derivable from the declared assumptions
  and the facts that carry a stored, applicable, verified receipt, by the declared Horn rules.
  The policy, the verifier, the messages and the proposals are arbitrary.\<close>

theorem accepted_facts_derivable:
  assumes "reach C s" and "k \<in> accepted_facts s"
  shows "derivable C (ext_keys C s) k"
  using reach_sound [OF assms(1)] assms(2) by (rule soundD(5))

theorem accepted_facts_derivable_witness:
  "\<exists>s. reach demo_config s \<and> derivable demo_config (ext_keys demo_config s) ''p''"
proof -
  obtain s where "reach demo_config s" "accepted_facts s = {''p''}" using demo_reach by blast
  with accepted_facts_derivable [of demo_config s "''p''"] show ?thesis by auto
qed

text \<open>C2: accepted facts carry their proof for good. Whatever the runtime does after a state
  \<open>s\<close>, a fact accepted in \<open>s\<close> stays accepted, has attached evidence, and every piece of
  evidence attached to it in \<open>s\<close> is still stored and passes the authority check again.\<close>

theorem accepted_facts_keep_evidence:
  assumes "reach C s" and "moves C s t" and "k \<in> accepted_facts s"
  shows "k \<in> accepted_facts t \<and> fact_refs s k \<noteq> [] \<and> (\<forall>eid \<in> set (fact_refs s k). eid \<in> set (fact_refs t k)
    \<and> (\<exists>e. map_of (evidence_store t) eid = Some e \<and> atom_key (subject e) = k \<and> validate_authoritative C t e = Inr ()))"
proof -
  have snd: "sound C s" and g: "sound C t" "grows s t"
    using assms(1,2) reach_sound reach_moves by blast+
  have "attached C t k eid" if "eid \<in> set (fact_refs s k)" for eid
    using soundD(3) [OF snd that] g(2) attached_mono by blast
  then show ?thesis
    using assms(3) g(2) soundD(4) [OF snd] unfolding attached_def grows_def by blast
qed

theorem accepted_facts_keep_evidence_witness:
  "\<exists>s. reach demo_config s \<and> (\<forall>inp. ''p'' \<in> accepted_facts (snd (ca_step demo_config 3 inp s)))"
proof -
  obtain s where s: "reach demo_config s" "accepted_facts s = {''p''}" using demo_reach by blast
  then show ?thesis
    using accepted_facts_keep_evidence [OF s(1) moves.by_step [OF moves.stay], of "''p''"] by auto
qed

end
