(* ===== verification/CA_Agenda.thy ===== *)
theory CA_Agenda
  imports CA_Reach
begin

text \<open>
  No enabled rule is forgotten: the agenda invariant. Every declared rule whose premises are
  accepted and whose conclusion is not is in the ready queue, or a message that will put it
  there is pending, or one of its notifications is lost: it is larger than the limit on
  messages, or another notification of the same run has the same digest.
\<close>

section \<open>Well-formed systems\<close>

definition config_ok :: "ca_config \<Rightarrow> bool" where
  "config_ok C \<longleftrightarrow> distinct (map rule_id (rules C))
     \<and> (\<forall>r \<in> set (rules C). \<forall>a \<in> set (rule_atoms r). atom_key a \<in> atom_key ` set (atoms C))
     \<and> atom_key ` set (assumptions C) \<subseteq> atom_key ` set (atoms C)"

lemma rmap_ensure_iff: "(\<exists>ys. rmap (\<lambda>x. ensure (P x) (f x)) xs = Inr ys) \<longleftrightarrow> (\<forall>x \<in> set xs. P x)"
  by (induction xs) (auto simp: res_simps ensure_Inr_iff)

lemma mk_config_ok:
  assumes "mk_config L as rs asm tgts table ctxo nl me mv ver rng = Inr C"
  shows "config_ok C"
proof -
  from assms have r: "distinct (map rule_id rs)" "rules C = sort_key rule_id rs" "atoms C = as" "assumptions C = asm"
    and u: "\<exists>us. rmap (\<lambda>r. ensure (\<forall>a \<in> set (rule_atoms r). atom_key a \<in> set (map atom_key as))
        (ValidationError (''rule_uses_undeclared_atom:'' @ rule_id r))) rs = Inr us"
      "\<exists>us. rmap (\<lambda>a. ensure (atom_key a \<in> set (map atom_key as))
        (ValidationError (''assumptions'' @ ''_uses_undeclared_atom:'' @ atom_key a))) asm = Inr us"
    by (auto simp: mk_config_def validate_rules_def validate_atom_list_def res_simps ensure_Inr_iff)
  have "distinct (map rule_id (sort_key rule_id rs))"
    using r(1) by (metis distinct_map distinct_sort set_sort)
  then show ?thesis
    using u unfolding rmap_ensure_iff by (auto simp: config_ok_def r)
qed

text \<open>The notification for premise \<open>k\<close> of rule \<open>rid\<close>.\<close>

definition fact_message :: "ca_config \<Rightarrow> string \<Rightarrow> string \<Rightarrow> string \<Rightarrow> message" where
  "fact_message C k rid eid = make_message (lib C) (cid_of C) (fact_cell_id k) (rule_cell_id rid)
     ''fact_available'' [(''atom'', PStr k), (''evidence_id'', PStr eid)]"

definition link :: "ca_config \<Rightarrow> string \<Rightarrow> string \<Rightarrow> bool" where
  "link C k rid \<longleftrightarrow> (\<exists>r \<in> set (rules C). rule_id r = rid \<and> k \<in> atom_key ` set (rule_premises r))"

text \<open>The notifications a state has sent: one for each accepted fact and each rule it is a premise of, with
  the first evidence of the fact. \<open>deliver_message\<close> drops one that is too large, and takes one for a
  duplicate when an earlier one has its digest.\<close>

definition notice :: "ca_config \<Rightarrow> ca \<Rightarrow> string \<Rightarrow> string \<Rightarrow> message" where
  "notice C s k rid = fact_message C k rid (hd (fact_refs s k))"

definition notices :: "ca_config \<Rightarrow> ca \<Rightarrow> message set" where
  "notices C s = {notice C s k rid | k rid. k \<in> accepted_facts s \<and> link C k rid}"

definition too_large :: "ca_config \<Rightarrow> message \<Rightarrow> bool" where
  "too_large C m \<longleftrightarrow> max_message_bytes < length (json_text (lib C) (sort_keys (PDict (message_dict m))))"

definition clashes :: "ca_config \<Rightarrow> ca \<Rightarrow> message \<Rightarrow> bool" where
  "clashes C s m \<longleftrightarrow> (\<exists>m' \<in> notices C s. m' \<noteq> m \<and> message_id m' = message_id m)"

definition lost :: "ca_config \<Rightarrow> ca \<Rightarrow> message \<Rightarrow> bool" where
  "lost C s m \<longleftrightarrow> too_large C m \<or> clashes C s m"

definition notice_lost :: "ca_config \<Rightarrow> ca \<Rightarrow> hrule \<Rightarrow> bool" where
  "notice_lost C s r \<longleftrightarrow> (\<exists>k \<in> accepted_facts s. link C k (rule_id r) \<and> lost C s (notice C s k (rule_id r)))"

lemma noticeI: "k \<in> accepted_facts s \<Longrightarrow> link C k rid \<Longrightarrow> notice C s k rid \<in> notices C s"
  by (auto simp: notices_def)

text \<open>The fields notifications depend on only grow: later facts, and later evidence of a fact behind
  its first one.\<close>

definition notes_kept :: "ca \<Rightarrow> ca \<Rightarrow> bool" where
  "notes_kept s t \<longleftrightarrow> (\<forall>k \<in> accepted_facts s. k \<in> accepted_facts t \<and> hd (fact_refs t k) = hd (fact_refs s k))"

lemma notice_kept: "notes_kept s t \<Longrightarrow> k \<in> accepted_facts s \<Longrightarrow> notice C t k rid = notice C s k rid"
  by (simp add: notes_kept_def notice_def)

lemma notices_kept: "notes_kept s t \<Longrightarrow> notices C s \<subseteq> notices C t" for C
proof
  assume kept: "notes_kept s t"
  fix m
  assume "m \<in> notices C s"
  then obtain k rid where m: "m = notice C s k rid" "k \<in> accepted_facts s" "link C k rid" by (auto simp: notices_def)
  then have "k \<in> accepted_facts t" "m = notice C t k rid"
    using kept notice_kept [OF kept, of k] by (simp_all add: notes_kept_def)
  then show "m \<in> notices C t" using m(3) noticeI by simp
qed

lemma lost_kept: "notes_kept s t \<Longrightarrow> lost C s m \<Longrightarrow> lost C t m"
  using notices_kept unfolding lost_def clashes_def by blast

lemma notice_lost_kept: "notes_kept s t \<Longrightarrow> notice_lost C s r \<Longrightarrow> notice_lost C t r"
  unfolding notice_lost_def using lost_kept notice_kept by (metis notes_kept_def)

section \<open>The invariant\<close>

definition cells_ok :: "ca_config \<Rightarrow> (string \<times> cell) list \<Rightarrow> bool" where
  "cells_ok C cs \<longleftrightarrow> (\<forall>(k, c) \<in> set cs. cell_id c = k)
     \<and> (\<forall>a \<in> set (atoms C). fact_cell_id (atom_key a) \<in> fst ` set cs)
     \<and> (\<forall>r \<in> set (rules C). rule_cell_id (rule_id r) \<in> fst ` set cs)"

definition users :: "ca \<Rightarrow> string \<Rightarrow> string list" where
  "users s k = (case map_of (rules_by_premise s) k of None \<Rightarrow> [] | Some xs \<Rightarrow> xs)"

definition needed :: "ca_config \<Rightarrow> ca \<Rightarrow> hrule \<Rightarrow> bool" where
  "needed C s r \<longleftrightarrow> r \<in> set (rules C) \<and> rule_enabled s r \<and> atom_key (rule_conclusion r) \<notin> accepted_facts s"

definition notified :: "ca \<Rightarrow> hrule \<Rightarrow> bool" where
  "notified s r \<longleftrightarrow> (\<exists>m \<in> set (pending_messages s). ms_target m = rule_cell_id (rule_id r)
     \<and> message_id m \<notin> delivered_message_ids s)"

definition notes_ok :: "ca_config \<Rightarrow> ca \<Rightarrow> bool" where
  "notes_ok C s \<longleftrightarrow> set (pending_messages s) \<subseteq> notices C s \<and> delivered_message_ids s \<subseteq> message_id ` notices C s
     \<and> (\<forall>k. fact_refs s k = [] \<longleftrightarrow> k \<notin> accepted_facts s)"

definition agenda :: "ca_config \<Rightarrow> string set \<Rightarrow> ca \<Rightarrow> bool" where
  "agenda C X s \<longleftrightarrow> cells_ok C (cells s)
     \<and> (\<forall>k. set (users s k) = {rid. link C k rid})
     \<and> queued_rules s = set (ready_queue s) \<and> distinct (ready_queue s)
     \<and> notes_ok C s
     \<and> (\<forall>r. needed C s r \<longrightarrow> rule_id r \<in> X \<or> rule_id r \<in> queued_rules s \<or> notified s r \<or> notice_lost C s r)"

lemma agenda_waiting:
  "agenda C X s \<Longrightarrow> needed C s r \<Longrightarrow> rule_id r \<in> X \<or> rule_id r \<in> queued_rules s \<or> notified s r \<or> notice_lost C s r"
  unfolding agenda_def by blast

text \<open>The fields the invariant reads.\<close>

definition same_agenda :: "ca \<Rightarrow> ca \<Rightarrow> bool" where
  "same_agenda s t \<longleftrightarrow> map (map_prod id cell_id) (cells t) = map (map_prod id cell_id) (cells s)
     \<and> rules_by_premise t = rules_by_premise s \<and> evidence_store t = evidence_store s
     \<and> fact_evidence t = fact_evidence s \<and> accepted_facts t = accepted_facts s \<and> pending_messages t = pending_messages s
     \<and> delivered_message_ids t = delivered_message_ids s
     \<and> ready_queue t = ready_queue s \<and> queued_rules t = queued_rules s"

lemma same_agenda_refl [simp, intro]: "same_agenda s s"
  by (simp add: same_agenda_def)

lemma same_agenda_trans: "same_agenda s t \<Longrightarrow> same_agenda t u \<Longrightarrow> same_agenda s u"
  by (simp add: same_agenda_def)

lemma cells_ok_iff:
  "cells_ok C cs \<longleftrightarrow> (\<forall>(k, i) \<in> set (map (map_prod id cell_id) cs). i = k)
     \<and> (\<forall>a \<in> set (atoms C). fact_cell_id (atom_key a) \<in> fst ` set (map (map_prod id cell_id) cs))
     \<and> (\<forall>r \<in> set (rules C). rule_cell_id (rule_id r) \<in> fst ` set (map (map_prod id cell_id) cs))"
  by (auto simp: cells_ok_def image_image)

text \<open>What the notifications of a state are made of.\<close>

lemma notices_cong:
  assumes "fact_evidence t = fact_evidence s" and "accepted_facts t = accepted_facts s"
  shows "notice C t = notice C s" "notices C t = notices C s" "lost C t = lost C s" "notice_lost C t = notice_lost C s"
proof -
  have "fact_refs t = fact_refs s" using assms(1) by (simp add: fun_eq_iff fact_refs_def)
  then show n: "notice C t = notice C s" by (simp add: fun_eq_iff notice_def)
  then show "notices C t = notices C s" by (simp add: notices_def assms(2))
  then show "lost C t = lost C s" by (simp add: fun_eq_iff lost_def clashes_def)
  then show "notice_lost C t = notice_lost C s" by (simp add: fun_eq_iff notice_lost_def n assms(2))
qed

lemma agenda_cong:
  assumes "same_agenda s t"
  shows "agenda C X t \<longleftrightarrow> agenda C X s"
proof -
  note f = assms [unfolded same_agenda_def]
  have "cells_ok C (cells t) = cells_ok C (cells s)"
    unfolding cells_ok_iff using f by simp
  then show ?thesis using f
    by (simp add: agenda_def users_def needed_def notified_def notes_ok_def rule_enabled_def fact_refs_def
        notices_cong [of t s])
qed

lemma agenda_widen: "agenda C X s \<Longrightarrow> X \<subseteq> Y \<Longrightarrow> agenda C Y s"
  by (auto simp: agenda_def)


section \<open>Operations that keep the agenda\<close>

text \<open>Only the queue changes.\<close>

lemma agenda_requeue:
  assumes ag: "agenda C Y s"
    and same: "cells t = cells s" "rules_by_premise t = rules_by_premise s" "fact_evidence t = fact_evidence s"
      "accepted_facts t = accepted_facts s" "pending_messages t = pending_messages s"
      "delivered_message_ids t = delivered_message_ids s"
    and queue: "queued_rules t = set (ready_queue t)" "distinct (ready_queue t)"
    and kept: "\<And>r. needed C s r \<Longrightarrow> rule_id r \<in> Y \<or> rule_id r \<in> queued_rules s \<Longrightarrow> rule_id r \<in> X \<or> rule_id r \<in> queued_rules t"
  shows "agenda C X t"
proof -
  have n: "needed C t = needed C s" "notified t = notified s" "users t = users s" "notes_ok C t = notes_ok C s"
    using same by (auto simp: fun_eq_iff needed_def rule_enabled_def notified_def users_def notes_ok_def fact_refs_def
        notices_cong [of t s])
  note n = n notices_cong(4) [OF same(3,4)]
  show ?thesis
    using ag kept queue unfolding agenda_def n same by blast
qed

lemma agenda_enqueue:
  assumes ag: "agenda C (insert rid X) s"
  shows "agenda C X (enqueue_rule C rid why s)"
proof (rule agenda_requeue [OF ag])
  have q: "queued_rules s = set (ready_queue s)" "distinct (ready_queue s)" using ag by (simp_all add: agenda_def)
  then show "queued_rules (enqueue_rule C rid why s) = set (ready_queue (enqueue_rule C rid why s))"
    "distinct (ready_queue (enqueue_rule C rid why s))"
    by (auto simp: enqueue_rule_def)
  fix r
  assume "needed C s r" and *: "rule_id r \<in> insert rid X \<or> rule_id r \<in> queued_rules s"
  then have "rule_by_id C (rule_id r) \<noteq> None" unfolding needed_def rule_by_id_None by blast
  then show "rule_id r \<in> X \<or> rule_id r \<in> queued_rules (enqueue_rule C rid why s)"
    using * by (auto simp: enqueue_rule_def)
qed simp_all

lemma agenda_enqueue_keep: "agenda C X s \<Longrightarrow> agenda C X (enqueue_rule C rid why s)"
  by (rule agenda_enqueue) (erule agenda_widen, auto)

lemma get_cell_fact:
  assumes "agenda C X s" and "k \<in> atom_key ` set (atoms C)"
  shows "\<exists>c. get_cell s (fact_cell_id k) = Inr c \<and> cell_id c = fact_cell_id k"
proof -
  have ok: "cells_ok C (cells s)" using assms(1) by (simp add: agenda_def)
  then have "fact_cell_id k \<in> fst ` set (cells s)" using assms(2) by (auto simp: cells_ok_def)
  then obtain c where c: "map_of (cells s) (fact_cell_id k) = Some c"
    by (metis domI domIff map_of_eq_None_iff not_None_eq)
  moreover have "cell_id c = fact_cell_id k"
    using ok map_of_SomeD [OF c] by (auto simp: cells_ok_def)
  ultimately show ?thesis by (simp add: get_cell_def)
qed

lemma put_same_cells:
  "map_of (cells s) (cell_id c) = Some c' \<Longrightarrow> cell_id c' = cell_id c
    \<Longrightarrow> map (map_prod id cell_id) (dict_set (cell_id c) c (cells s)) = map (map_prod id cell_id) (cells s)"
proof -
  have "map_of d k = Some c' \<Longrightarrow> cell_id c' = cell_id c \<Longrightarrow> map (map_prod id cell_id) (dict_set k c d) = map (map_prod id cell_id) d" for d k
    by (induction d) (auto simp: dict_set_def split: if_splits)
  then show "map_of (cells s) (cell_id c) = Some c' \<Longrightarrow> cell_id c' = cell_id c
    \<Longrightarrow> map (map_prod id cell_id) (dict_set (cell_id c) c (cells s)) = map (map_prod id cell_id) (cells s)" .
qed


lemma notify_all:
  "pending_messages (fold (notify_rule C k (fact_cell_id k) eid) rids s)
    = pending_messages s @ map (\<lambda>rid. fact_message C k rid eid) rids"
  by (induction rids arbitrary: s) (simp_all add: notify_rule_def fact_message_def Let_def)

lemma fact_message_fields [simp]:
  "ms_target (fact_message C k rid eid) = rule_cell_id rid" "ms_source (fact_message C k rid eid) = fact_cell_id k"
  "ms_kind (fact_message C k rid eid) = ''fact_available''" "ms_context (fact_message C k rid eid) = cid_of C"
  "ms_payload (fact_message C k rid eid) = [(''atom'', PStr k), (''evidence_id'', PStr eid)]"
  "message_id (fact_message C k rid eid) = digest (lib C) (message_body (cid_of C) (fact_cell_id k) (rule_cell_id rid)
     ''fact_available'' [(''atom'', PStr k), (''evidence_id'', PStr eid)])"
  by (simp_all add: fact_message_def make_message_def)

lemma linked_premise: "r \<in> set (rules C) \<Longrightarrow> a \<in> set (rule_premises r) \<Longrightarrow> link C (atom_key a) (rule_id r)"
  by (auto simp: link_def)

text \<open>A new fact: its rules are notified, the other rules keep their place.\<close>

lemma agenda_new_fact:
  assumes ag: "agenda C X s" and new: "k \<notin> accepted_facts s"
    and same: "map (map_prod id cell_id) (cells t) = map (map_prod id cell_id) (cells s)" "rules_by_premise t = rules_by_premise s"
      "accepted_facts t = insert k (accepted_facts s)"
      "\<And>j. fact_refs t j = (if j = k then fact_refs s k @ [eid] else fact_refs s j)"
      "pending_messages t = pending_messages s @ map (\<lambda>rid. fact_message C k rid eid) (users s k)"
      "delivered_message_ids t = delivered_message_ids s" "ready_queue t = ready_queue s" "queued_rules t = queued_rules s"
  shows "agenda C X t"
proof -
  have u: "set (users s j) = {rid. link C j rid}" for j using ag by (simp add: agenda_def)
  have nts: "set (pending_messages s) \<subseteq> notices C s" "delivered_message_ids s \<subseteq> message_id ` notices C s"
    and refs: "fact_refs s j = [] \<longleftrightarrow> j \<notin> accepted_facts s" for j
    using ag by (simp_all add: agenda_def notes_ok_def)
  note waiting = agenda_waiting [OF ag]
  have kept: "notes_kept s t" using new by (auto simp: notes_kept_def same)
  have "fact_refs s k = []" using new refs by simp
  then have msg: "fact_message C k rid eid = notice C t k rid" for rid by (simp add: notice_def same)
  have sent: "notice C t k rid \<in> notices C t" if "link C k rid" for rid by (rule noticeI) (use that same in auto)
  note grown = notices_kept [OF kept, of C]
  have "set (pending_messages t) \<subseteq> notices C t" using nts(1) grown sent by (auto simp: same u msg)
  moreover have "delivered_message_ids t \<subseteq> message_id ` notices C t"
    unfolding same using nts(2) image_mono [OF grown, of message_id] by (rule subset_trans)
  ultimately have nts': "notes_ok C t" using refs by (simp add: notes_ok_def same)
  have need: "rule_id r \<in> X \<or> rule_id r \<in> queued_rules t \<or> notified t r \<or> notice_lost C t r" if n: "needed C t r" for r
  proof (cases "needed C s r")
    case True
    have "notified s r \<Longrightarrow> notified t r" by (auto simp: notified_def same)
    then show ?thesis using waiting [OF True] notice_lost_kept [OF kept] same by metis
  next
    case False
    with n obtain a where a: "r \<in> set (rules C)" "a \<in> set (rule_premises r)" "atom_key a = k"
      by (auto simp: needed_def rule_enabled_def same)
    then have l: "link C k (rule_id r)" by (auto simp: link_def)
    let ?m = "notice C t k (rule_id r)"
    have m: "?m \<in> set (pending_messages t)" "ms_target ?m = rule_cell_id (rule_id r)" using l
      by (simp_all add: same u msg) (simp add: notice_def)
    show ?thesis
    proof (cases "message_id ?m \<in> delivered_message_ids s")
      case False
      then show ?thesis using m unfolding notified_def same(6) by blast
    next
      case True
      then obtain m' where m': "m' \<in> notices C s" "message_id m' = message_id ?m"
        using nts(2) by (metis image_iff subsetD)
      have "m' \<noteq> ?m"
      proof
        assume "m' = ?m"
        with m'(1) obtain j i where "j \<in> accepted_facts s" "notice C s j i = ?m" by (auto simp: notices_def)
        then have "ms_source (notice C s j i) = fact_cell_id k" "j \<noteq> k" using new by (auto simp: notice_def)
        then show False by (simp add: notice_def fact_cell_id_def)
      qed
      then have "clashes C t ?m" using m' grown unfolding clashes_def by blast
      then have "notice_lost C t r" using l same(3) by (auto simp: notice_lost_def lost_def)
      then show ?thesis by simp
    qed
  qed
  have "cells_ok C (cells t)" using ag same(1) unfolding agenda_def cells_ok_iff by simp
  moreover have "users t = users s" by (simp add: fun_eq_iff users_def same)
  ultimately show ?thesis using ag nts' need by (simp add: agenda_def same)
qed

text \<open>More evidence for an accepted fact.\<close>

lemma agenda_attach:
  assumes ag: "agenda C X s" and k: "k \<in> accepted_facts s"
  shows "agenda C X (attach_evidence k eid s)"
proof -
  let ?t = "attach_evidence k eid s"
  note ag' = ag [unfolded agenda_def]
  have refs: "fact_refs s j = [] \<longleftrightarrow> j \<notin> accepted_facts s" for j using ag' by (simp add: notes_ok_def)
  have same: "cells ?t = cells s" "rules_by_premise ?t = rules_by_premise s" "accepted_facts ?t = accepted_facts s"
    "pending_messages ?t = pending_messages s" "delivered_message_ids ?t = delivered_message_ids s"
    "ready_queue ?t = ready_queue s" "queued_rules ?t = queued_rules s"
    by (simp_all add: attach_evidence_def Let_def)
  have "notice C ?t j rid = notice C s j rid" if "j \<in> accepted_facts s" for j rid
    using that refs [of j] by (auto simp: notice_def fact_refs_attach)
  then have n: "notices C ?t = notices C s" unfolding notices_def same by (intro Collect_cong) metis
  have kept: "notes_kept s ?t" using refs by (auto simp: notes_kept_def same fact_refs_attach)
  have nts: "notes_ok C ?t"
    using ag' k refs by (auto simp: notes_ok_def n same fact_refs_attach)
  have f: "users ?t = users s" "needed C ?t = needed C s" "notified ?t = notified s"
    by (simp_all add: fun_eq_iff users_def needed_def notified_def rule_enabled_def same)
  show ?thesis
    using ag' nts notice_lost_kept [OF kept] unfolding agenda_def f same by blast
qed

lemma accept_fact_agenda:
  assumes ag: "agenda C X s" and key: "atom_key (subject e) \<in> atom_key ` set (atoms C)"
  shows "\<exists>res t. accept_fact C e s = (Inr res, t) \<and> agenda C X t"
proof -
  let ?k = "atom_key (subject e)"
  let ?s = "attach_evidence ?k (evidence_id e) s"
  have att: "cells ?s = cells s" "rules_by_premise ?s = rules_by_premise s" "accepted_facts ?s = accepted_facts s"
    "pending_messages ?s = pending_messages s" "delivered_message_ids ?s = delivered_message_ids s"
    "ready_queue ?s = ready_queue s" "queued_rules ?s = queued_rules s"
    by (simp_all add: attach_evidence_def Let_def)
  obtain c where c: "get_cell ?s (fact_cell_id ?k) = Inr c" "cell_id c = fact_cell_id ?k"
    using get_cell_fact [OF ag key] by (auto simp: get_cell_def att split: option.splits)
  have put: "map (map_prod id cell_id) (dict_set (fact_cell_id ?k) c' (cells s)) = map (map_prod id cell_id) (cells s)"
    if "cell_id c' = fact_cell_id ?k" for c'
    using put_same_cells [of s c' c] c that by (auto simp: get_cell_def att split: option.splits)
  show ?thesis
  proof (cases "?k \<in> accepted_facts s")
    case True
    then have ag2: "agenda C X ?s" by (rule agenda_attach [OF ag])
    from True c show ?thesis
      by (auto simp: accept_fact_def Let_def lift_res_def get_cell_def att
          intro!: iffD2 [OF agenda_cong ag2] simp: same_agenda_def put_cell_def put)
  next
    case False
    have refs: "fact_refs s ?k = []" using ag False by (simp add: agenda_def notes_ok_def)
    have g: "get_cell (?s\<lparr>accepted_facts := A\<rparr>) k = get_cell ?s k" for A k by (simp add: get_cell_def)
    have "\<exists>res t. accept_fact C e s = (Inr res, t)
      \<and> map (map_prod id cell_id) (cells t) = map (map_prod id cell_id) (cells s) \<and> rules_by_premise t = rules_by_premise s
      \<and> accepted_facts t = insert ?k (accepted_facts s)
      \<and> pending_messages t = pending_messages s @ map (\<lambda>rid. fact_message C ?k rid (evidence_id e)) (users s ?k)
      \<and> delivered_message_ids t = delivered_message_ids s \<and> ready_queue t = ready_queue s \<and> queued_rules t = queued_rules s"
      using False c
      by (simp add: accept_fact_def Let_def lift_res_def g att cells_put_cell put users_def notify_all
          cong: option.case_cong)
    then obtain res t where acc: "accept_fact C e s = (Inr res, t)"
      and same: "map (map_prod id cell_id) (cells t) = map (map_prod id cell_id) (cells s)" "rules_by_premise t = rules_by_premise s"
        "accepted_facts t = insert ?k (accepted_facts s)"
        "pending_messages t = pending_messages s @ map (\<lambda>rid. fact_message C ?k rid (evidence_id e)) (users s ?k)"
        "delivered_message_ids t = delivered_message_ids s" "ready_queue t = ready_queue s" "queued_rules t = queued_rules s"
      by blast
    have "fact_refs t j = (if j = ?k then fact_refs s ?k @ [evidence_id e] else fact_refs s j)" for j
      using accept_fact_core(3) [OF acc, of j] refs by (simp add: fact_refs_attach)
    then show ?thesis using acc agenda_new_fact [OF ag False same(1-3) _ same(4-7)] by blast
  qed
qed


text \<open>With the store: every applicable verified receipt has been accepted.\<close>

definition on_track :: "ca_config \<Rightarrow> string set \<Rightarrow> ca \<Rightarrow> bool" where
  "on_track C X s \<longleftrightarrow> agenda C X s \<and> distinct (map fst (evidence_store s)) \<and> ext_keys C s \<subseteq> accepted_facts s"

lemma on_track_cong: "same_agenda s t \<Longrightarrow> on_track C X t \<longleftrightarrow> on_track C X s"
  by (simp add: on_track_def agenda_cong) (simp add: same_agenda_def ext_keys_def)

lemma store_evidence_frame:
  assumes "store_evidence C e s = (r, t)"
  shows "cells t = cells s" "rules_by_premise t = rules_by_premise s" "pending_messages t = pending_messages s"
    "delivered_message_ids t = delivered_message_ids s" "ready_queue t = ready_queue s" "queued_rules t = queued_rules s"
    "fact_evidence t = fact_evidence s"
  using assms by (auto simp: store_evidence_def split: if_splits option.splits)

lemma store_evidence_agenda:
  assumes st: "store_evidence C e s = (r, t)" and ot: "on_track C X s"
  shows "agenda C X t" and "distinct (map fst (evidence_store t))"
    and "k \<in> ext_keys C t \<Longrightarrow> k \<in> accepted_facts s \<or> ev_kind e = EK_EXTERNAL_VERIFICATION \<and> k = atom_key (subject e)"
proof -
  have dist: "distinct (map fst (evidence_store s))" and ag: "agenda C X s" and ext: "ext_keys C s \<subseteq> accepted_facts s"
    using ot by (simp_all add: on_track_def)
  note eff = store_evidence_effect [OF st dist] and fr = store_evidence_frame [OF st]
  show "distinct (map fst (evidence_store t))" by (rule eff(5))
  show "agenda C X t"
    by (rule agenda_requeue [OF ag]) (use ag in \<open>simp_all add: fr eff(2) agenda_def\<close>)
  assume "k \<in> ext_keys C t"
  then obtain i x where x: "map_of (evidence_store t) i = Some x" "ev_kind x = EK_EXTERNAL_VERIFICATION"
    "validate_external C x = Inr ()" "atom_key (subject x) = k" by (auto simp: ext_keys_def)
  from eff(6) [OF map_of_SomeD [OF x(1)]] show "k \<in> accepted_facts s \<or> ev_kind e = EK_EXTERNAL_VERIFICATION \<and> k = atom_key (subject e)"
  proof
    assume "(i, x) \<in> set (evidence_store s)"
    then have "map_of (evidence_store s) i = Some x" using dist by simp
    with x ext show ?thesis by (auto simp: ext_keys_def)
  qed (use x in auto)
qed

lemma admit_evidence_on_track:
  assumes ad: "admit_evidence C e b s = (r, t)" and ot: "on_track C X s" and kind: "b \<or> ev_kind e \<noteq> EK_EXTERNAL_VERIFICATION"
  shows "on_track C X t"
proof (cases b)
  case False
  with ad have "\<exists>q. store_evidence C e s = (q, t)"
    by (auto simp: admit_evidence_def elim!: pbind_cases)
  then obtain q where st: "store_evidence C e s = (q, t)" ..
  have "accepted_facts t = accepted_facts s"
    using store_evidence_effect(2) [OF st] ot by (simp add: on_track_def)
  then show ?thesis
    using store_evidence_agenda [OF st ot] kind False by (auto simp: on_track_def)
next
  case True
  with ad consider "t = s" | x where "store_evidence C e s = (Inl x, t)"
    | q u where "validate_authoritative C s e = Inr ()" "store_evidence C e s = (Inr q, u)" "accept_fact C e u = (r, t)"
    by (auto simp: admit_evidence_def elim!: pbind_cases pbind_lift_cases)
  then show ?thesis
  proof cases
    case 2
    then show ?thesis using store_evidence_effect(7) [OF 2] ot by (simp add: on_track_def)
  next
    case 3
    note acc = accept_fact_core [OF 3(3)] and st = store_evidence_agenda [OF 3(2) ot]
    have a: "accepted_facts u = accepted_facts s"
      using store_evidence_effect(2) [OF 3(2)] ot by (simp add: on_track_def)
    have "agenda C X t"
      using accept_fact_agenda [OF st(1) validate_authoritativeD(3) [OF 3(1)]] 3(3) by auto
    moreover have "ext_keys C t = ext_keys C u" by (simp add: ext_keys_def acc)
    ultimately show ?thesis using st(2,3) by (auto simp: on_track_def acc a)
  qed (use ot in simp)
qed


section \<open>Actions\<close>

definition keeps_track :: "ca_config \<Rightarrow> string set \<Rightarrow> ca \<Rightarrow> ca \<Rightarrow> bool" where
  "keeps_track C X s t \<longleftrightarrow> (on_track C X s \<longrightarrow> on_track C X t)"

lemma same_agenda_keeps: "same_agenda s t \<Longrightarrow> keeps_track C X s t"
  by (simp add: keeps_track_def on_track_cong)

lemma keeps_trans: "keeps_track C X s t \<Longrightarrow> keeps_track C X t u \<Longrightarrow> keeps_track C X s u"
  by (simp add: keeps_track_def)

lemma keeps_same: "keeps_track C X s t \<Longrightarrow> same_agenda t u \<Longrightarrow> keeps_track C X s u"
  by (simp add: keeps_track_def on_track_cong)

lemma admit_keeps:
  "admit_evidence C e b s = (r, t) \<Longrightarrow> b \<or> ev_kind e \<noteq> EK_EXTERNAL_VERIFICATION \<Longrightarrow> keeps_track C X s t"
  using admit_evidence_on_track by (auto simp: keeps_track_def)

lemma put_cell_keeps:
  assumes c: "get_cell s k = Inr c" and c': "cell_id c' = cell_id c"
  shows "keeps_track C X s (put_cell c' s)"
  unfolding keeps_track_def
proof
  assume ot: "on_track C X s"
  have m: "map_of (cells s) k = Some c" using c by (auto simp: get_cell_def split: option.splits)
  have "cell_id c = k" using ot map_of_SomeD [OF m] by (auto simp: on_track_def agenda_def cells_ok_def)
  with m c' have "same_agenda s (put_cell c' s)"
    using put_same_cells [of s c' c] by (simp add: same_agenda_def cells_put_cell)
  with ot show "on_track C X (put_cell c' s)" by (simp add: on_track_cong)
qed

lemma make_evidence_fields [simp]:
  "ev_kind (make_evidence L k st a ctx rid ps spt src det) = k"
  "evidence_id (make_evidence L k st a ctx rid ps spt src det) = digest L (evidence_body k st a ctx rid ps spt src det)"
  by (simp_all add: make_evidence_def)

lemma apply_rule_keeps:
  assumes a: "apply_rule_proposal C p s = (r, t)"
  shows "keeps_track C X s t"
proof -
  have ev: "keeps_track C X s u" if "admit_evidence C (derivation_evidence C rl evs) True s = (q, u)" for rl evs q u
    using that by (rule admit_keeps) simp
  have met: "keeps_track C X s (u\<lparr>mets := m\<rparr>)" if "keeps_track C X s u" for u m
    using that by (rule keeps_same) (simp add: same_agenda_def)
  show ?thesis using a
    by (auto simp: apply_rule_proposal_def Let_def same_agenda_keeps elim!: pbind_lift_cases
        split: if_splits option.splits prod.splits sum.splits dest!: ev intro: met)
qed

lemma status_evidence_external: "fst (status_evidence st) = EK_EXTERNAL_VERIFICATION \<Longrightarrow> st = VS_VERIFIED"
  by (cases st) simp_all

lemma admit_receipt_keeps:
  assumes a: "admit_receipt C tgt x rc s = (r, t)"
  shows "keeps_track C X s t"
proof -
  define e where "e = make_evidence (lib C) (fst (status_evidence (rc_status rc))) (snd (status_evidence (rc_status rc))) x
    (cid_of C) [] [] [] (rc_verifier rc) [(''receipt'', receipt_dict rc)]"
  obtain q u where ad: "admit_evidence C e (rc_status rc = VS_VERIFIED) s = (q, u)" by (rule prod.exhaust)
  then have "keeps_track C X s u"
    by (rule admit_keeps) (auto simp: e_def dest: status_evidence_external)
  moreover have "same_agenda s t \<or> same_agenda u t"
    using a [unfolded admit_receipt_def Let_def, folded e_def] unfolding ad
    by (auto simp: same_agenda_def split: if_splits sum.splits)
  ultimately show ?thesis by (auto intro: keeps_same same_agenda_keeps)
qed

lemma query_verifier_keeps:
  assumes q: "query_verifier C vres tgt a s = (r, t)"
  shows "keeps_track C X s t"
proof -
  let ?s1 = "s\<lparr>mets := (mets s)\<lparr>verifier_attempts := Suc (verifier_attempts (mets s))\<rparr>\<rparr>"
  have "keeps_track C X s ?s1" by (simp add: same_agenda_keeps same_agenda_def)
  moreover have "keeps_track C X ?s1 t \<or> same_agenda s t" using q
    by (auto simp: query_verifier_def Let_def same_agenda_def split: if_splits sum.splits dest: admit_receipt_keeps)
  ultimately show ?thesis by (auto intro: keeps_trans same_agenda_keeps)
qed

lemma cached_accept_keeps:
  assumes st: "map_of (evidence_store s) eid = Some e" and v: "validate_authoritative C s e = Inr ()"
    and acc: "accept_fact C e s = (r, t)"
  shows "keeps_track C X s t"
  unfolding keeps_track_def
proof
  assume ot: "on_track C X s"
  then have "agenda C X s" by (simp add: on_track_def)
  from accept_fact_agenda [OF this validate_authoritativeD(3) [OF v]] acc have "agenda C X t" by auto
  moreover have "ext_keys C t = ext_keys C s" using accept_fact_core(1) [OF acc] by (simp add: ext_keys_def)
  ultimately show "on_track C X t"
    using ot accept_fact_core(1,2) [OF acc] by (auto simp: on_track_def)
qed

lemma apply_external_keeps:
  assumes a: "apply_external_request C vres p s = (r, t)"
  shows "keeps_track C X s t"
proof -
  have drop: "keeps_track C X s u" if "query_verifier C vres tgt a (s\<lparr>verification_cache := d\<rparr>) = (r, u)" for tgt a d u
    using query_verifier_keeps [OF that] same_agenda_keeps [of s "s\<lparr>verification_cache := d\<rparr>"]
    by (auto simp: same_agenda_def intro: keeps_trans)
  have hit: "keeps_track C X s u"
    if "map_of (evidence_store s) eid = Some e" "validate_cached C s e cached tgt = Inr rc" "authoritative e"
      "accept_fact C e s = (q, u)" for eid e cached tgt rc q u
    using cached_accept_keeps [OF that(1) validate_cached_authoritative [OF that(2,3)] that(4)] .
  show ?thesis using a
    by (auto simp: apply_external_request_def Let_def same_agenda_keeps elim!: pbind_cases
        split: if_splits option.splits list.splits sum.splits
        intro: query_verifier_keeps drop hit)
qed

lemma apply_policy_update_keeps: "apply_policy_update C p s = (r, t) \<Longrightarrow> keeps_track C X s t"
  by (auto simp: apply_policy_update_def same_agenda_keeps elim!: pbind_lift_cases split: sum.splits intro!: put_cell_keeps)

lemma dispatch_keeps: "dispatch_action C vres p s = (r, t) \<Longrightarrow> keeps_track C X s t"
  by (auto simp: dispatch_action_def same_agenda_keeps split: action_type.splits
      intro: apply_rule_keeps apply_external_keeps apply_policy_update_keeps)
    (auto simp: apply_dependency_request_def Let_def same_agenda_def split: if_splits option.splits intro!: same_agenda_keeps)

lemma checked_apply_keeps:
  assumes a: "checked_apply C vres p s = (r, t)"
  shows "keeps_track C X s t"
proof -
  have "same_agenda s t \<or> (\<exists>q u. dispatch_action C vres p s = (q, u) \<and> same_agenda u t)"
    using a by (auto simp: checked_apply_def same_agenda_def split: option.splits elim!: pbind_cases)
  then show ?thesis by (auto intro: keeps_same dispatch_keeps same_agenda_keeps)
qed


section \<open>Message delivery\<close>

lemma ext_keys_cong: "evidence_store t = evidence_store s \<Longrightarrow> ext_keys C t = ext_keys C s"
  by (simp add: ext_keys_def)

lemma fact_message_json:
  "canonical_json L (PDict (message_dict (fact_message C k rid eid)))
    = Inr (json_text L (sort_keys (PDict (message_dict (fact_message C k rid eid)))))"
  by (simp add: canonical_json_def message_dict_def del: sort_keys.simps json_text.simps)

lemma fact_message_digest:
  "sha256_digest (lib C) (message_body (cid_of C) (fact_cell_id k) (rule_cell_id rid) ''fact_available''
     [(''atom'', PStr k), (''evidence_id'', PStr eid)]) = Inr (message_id (fact_message C k rid eid))"
  by (simp add: sha256_digest_def canonical_json_def message_body_def digest_def del: sort_keys.simps json_text.simps)

lemma cell_ids_inj [simp]: "rule_cell_id a = rule_cell_id b \<longleftrightarrow> a = b" "fact_cell_id a = fact_cell_id b \<longleftrightarrow> a = b"
  by (simp_all add: rule_cell_id_def fact_cell_id_def)

lemma deliver_fact_message:
  assumes src: "map_of (cells s) (fact_cell_id k) \<noteq> None" "map_of (cells s) (rule_cell_id rid) \<noteq> None"
  shows "\<exists>res t. deliver_message C (fact_message C k rid eid) s = (Inr res, t) \<and>
     (let i = message_id (fact_message C k rid eid) in
      if i \<in> delivered_message_ids s \<or> too_large C (fact_message C k rid eid) then same_agenda s t
      else same_agenda (enqueue_rule C rid ''message'' (s\<lparr>delivered_message_ids := insert i (delivered_message_ids s)\<rparr>)) t)"
proof -
  have nonempty: "message_id (fact_message C k rid eid) \<noteq> []" by (simp add: digest_def)
  have drop_prefix: "drop (length rule_prefix) (rule_cell_id rid) = rid" "starts_with rule_prefix (rule_cell_id rid)"
    by (simp_all add: rule_cell_id_def starts_with_def)
  have cells_nonempty: "fact_cell_id k \<noteq> []" "rule_cell_id rid \<noteq> []"
    by (simp_all add: fact_cell_id_def fact_prefix_def rule_cell_id_def rule_prefix_def)
  obtain c1 c2 where "map_of (cells s) (fact_cell_id k) = Some c1" "map_of (cells s) (rule_cell_id rid) = Some c2"
    using src by blast
  then show ?thesis
    using nonempty cells_nonempty
    by (simp add: too_large_def not_less deliver_message_def Let_def lift_res_def fact_message_digest fact_message_json drop_prefix
        same_agenda_def del: fact_message_fields(6) sort_keys.simps json_text.simps)
qed


lemma notice_lost_target:
  "m \<in> notices C s \<Longrightarrow> ms_target m = rule_cell_id (rule_id r) \<Longrightarrow> lost C s m \<Longrightarrow> notice_lost C s r"
  by (auto simp: notices_def notice_lost_def notice_def)

text \<open>Taking one message out of the pending ones: the rules it does not stand for stay notified, unless
  their own notification has its digest.\<close>

lemma other_notified:
  assumes n: "notified s r" and pend: "pending_messages s = l @ m # l'" and ok: "notes_ok C s"
  shows "(\<exists>m' \<in> set (l @ l'). ms_target m' = rule_cell_id (rule_id r) \<and> message_id m' \<notin> insert (message_id m) (delivered_message_ids s))
    \<or> notice_lost C s r \<or> ms_target m = rule_cell_id (rule_id r) \<and> message_id m \<notin> delivered_message_ids s"
proof -
  from n obtain m' where m': "m' \<in> set (pending_messages s)" "ms_target m' = rule_cell_id (rule_id r)"
    "message_id m' \<notin> delivered_message_ids s" by (auto simp: notified_def)
  have sent: "m' \<in> notices C s" "m \<in> notices C s" using m'(1) ok pend by (auto simp: notes_ok_def)
  consider "m' = m" | "m' \<noteq> m" "message_id m' = message_id m" | "message_id m' \<noteq> message_id m" by blast
  then show ?thesis
  proof cases
    case 2
    then have "lost C s m'" using sent by (auto simp: lost_def clashes_def)
    then show ?thesis using notice_lost_target [OF sent(1) m'(2)] by simp
  next
    case 3
    then have "m' \<in> set (l @ l')" using m'(1) pend by auto
    then show ?thesis using 3 m' by blast
  qed (use m' in simp)
qed

lemma keep_delivery:
  assumes ot: "on_track C X s" and ok: "config_ok C"
    and pend: "pending_messages s = l @ m # l'"
  shows "\<exists>res t. deliver_message C m (s\<lparr>pending_messages := l @ l'\<rparr>) = (Inr res, t) \<and> on_track C X t"
proof -
  let ?s = "s\<lparr>pending_messages := l @ l'\<rparr>"
  have ag: "agenda C X s" using ot by (simp add: on_track_def)
  then have nts: "notes_ok C s" and cells: "cells_ok C (cells s)" by (simp_all add: agenda_def)
  note waiting = agenda_waiting [OF ag]
  have sent: "m \<in> notices C s" using nts by (simp add: notes_ok_def pend)
  then obtain k rid eid where m: "link C k rid" "k \<in> accepted_facts s" "m = fact_message C k rid eid"
    by (auto simp: notices_def notice_def)
  let ?i = "message_id m"
  have "k \<in> atom_key ` set (atoms C)" and "\<exists>r \<in> set (rules C). rule_id r = rid"
    using m(1) ok(1) by (auto simp: link_def config_ok_def rule_atoms_def)
  then have "fact_cell_id k \<in> fst ` set (cells s)" "rule_cell_id rid \<in> fst ` set (cells s)"
    using cells unfolding cells_ok_def by blast+
  then have "map_of (cells ?s) (fact_cell_id k) \<noteq> None" "map_of (cells ?s) (rule_cell_id rid) \<noteq> None"
    by (auto simp: map_of_eq_None_iff)
  from deliver_fact_message [OF this, of C eid]
  obtain res t where t: "deliver_message C m ?s = (Inr res, t)"
    and cases: "if ?i \<in> delivered_message_ids s \<or> too_large C m then same_agenda ?s t
      else same_agenda (enqueue_rule C rid ''message'' (?s\<lparr>delivered_message_ids := insert ?i (delivered_message_ids s)\<rparr>)) t"
    unfolding m(3) [symmetric] Let_def by (elim exE conjE) (simp cong del: if_weak_cong)
  have target: "ms_target m = rule_cell_id r \<longleftrightarrow> r = rid" for r by (auto simp: m(3))
  note other = other_notified [OF _ pend, of _ C]
  have refs: "fact_refs ?s = fact_refs s" "fact_refs (?s\<lparr>delivered_message_ids := d\<rparr>) = fact_refs s" for d
    by (simp_all add: fun_eq_iff fact_refs_def)
  have nt: "notices C ?s = notices C s" "notices C (?s\<lparr>delivered_message_ids := d\<rparr>) = notices C s"
    "notice_lost C ?s = notice_lost C s" "notice_lost C (?s\<lparr>delivered_message_ids := d\<rparr>) = notice_lost C s" for d
    by (intro notices_cong [of ?s s C] notices_cong [of "?s\<lparr>delivered_message_ids := d\<rparr>" s C]; simp)+
  have notes1: "notes_ok C ?s" "notes_ok C (?s\<lparr>delivered_message_ids := insert ?i (delivered_message_ids s)\<rparr>)"
    using nts sent unfolding notes_ok_def nt refs by (simp_all add: pend)
  have frames: "needed C ?s = needed C s" "users ?s = users s"
    "needed C (?s\<lparr>delivered_message_ids := d\<rparr>) = needed C s" "users (?s\<lparr>delivered_message_ids := d\<rparr>) = users s" for d
    by (simp_all add: fun_eq_iff needed_def users_def rule_enabled_def)
  have "agenda C X t"
  proof (cases "?i \<in> delivered_message_ids s \<or> too_large C m")
    case True
    have "notified ?s r \<or> notice_lost C s r" if "notified s r" for r
    proof -
      have "notice_lost C s r" if "ms_target m = rule_cell_id (rule_id r)" "message_id m \<notin> delivered_message_ids s"
        using True notice_lost_target [OF sent that(1)] that(2) by (simp add: lost_def)
      moreover have "notified ?s r" if "m' \<in> set (l @ l')" "ms_target m' = rule_cell_id (rule_id r)"
        "message_id m' \<notin> insert (message_id m) (delivered_message_ids s)" for m'
        using that by (auto simp: notified_def)
      ultimately show ?thesis using other [OF that nts] by blast
    qed
    then have "rule_id r \<in> X \<or> rule_id r \<in> queued_rules s \<or> notified ?s r \<or> notice_lost C s r" if "needed C s r" for r
      using waiting [OF that] by blast
    then have "agenda C X ?s"
      using ag notes1(1) by (simp add: agenda_def frames nt)
    with cases True show ?thesis by (simp add: agenda_cong)
  next
    case False
    let ?d = "?s\<lparr>delivered_message_ids := insert ?i (delivered_message_ids s)\<rparr>"
    have "notified ?d r \<or> notice_lost C s r \<or> rule_id r = rid" if "notified s r" for r
    proof -
      have "notified ?d r" if "m' \<in> set (l @ l')" "ms_target m' = rule_cell_id (rule_id r)"
        "message_id m' \<notin> insert (message_id m) (delivered_message_ids s)" for m'
        using that by (auto simp: notified_def)
      then show ?thesis using other [OF that nts] target by blast
    qed
    then have "rule_id r = rid \<or> rule_id r \<in> X \<or> rule_id r \<in> queued_rules s \<or> notified ?d r \<or> notice_lost C s r"
      if "needed C s r" for r using waiting [OF that] by blast
    then have "agenda C (insert rid X) ?d"
      using ag notes1(2) by (simp add: agenda_def frames nt)
    then have "agenda C X (enqueue_rule C rid ''message'' ?d)" by (rule agenda_enqueue)
    with cases False show ?thesis by (simp add: agenda_cong)
  qed
  moreover have "evidence_store t = evidence_store s" "accepted_facts t = accepted_facts s"
    using cases by (auto simp: same_agenda_def split: if_splits)
  ultimately show ?thesis
    using t ot ext_keys_cong [of t s C] by (simp add: on_track_def)
qed

lemma keep_deliver_loop:
  assumes "on_track C X s" and "config_ok C"
  shows "\<exists>n' t. deliver_loop C rv n cnt s = (Inr n', t) \<and> on_track C X t"
  using assms(1)
proof (induction n arbitrary: cnt s)
  case (Suc n)
  note ok = assms(2)
  show ?case
  proof (cases "pending_messages s")
    case (Cons m ms)
    show ?thesis
    proof (cases "rv \<and> ms \<noteq> []")
      case True
      then have "pending_messages s = butlast (m # ms) @ last ms # []" using Cons by (simp add: append_butlast_last_id)
      from keep_delivery [OF Suc.prems ok this] obtain res t where
        "deliver_message C (last ms) (s\<lparr>pending_messages := butlast (m # ms)\<rparr>) = (Inr res, t)" "on_track C X t" by auto
      then show ?thesis using Cons True Suc.IH by auto
    next
      case False
      from Cons have "pending_messages s = [] @ m # ms" by simp
      from keep_delivery [OF Suc.prems ok this] obtain res t where
        "deliver_message C m (s\<lparr>pending_messages := ms\<rparr>) = (Inr res, t)" "on_track C X t" by auto
      then show ?thesis using Cons False Suc.IH by auto
    qed
  qed (use Suc.prems in simp)
qed simp

lemma keep_deliver_pending:
  assumes "on_track C X s" and "config_ok C"
  shows "\<exists>res t. deliver_pending C limit rv s = (Inr res, t) \<and> on_track C X t"
proof -
  obtain n t where t: "deliver_loop C rv (case limit of None \<Rightarrow> length (pending_messages s) | Some n \<Rightarrow> n) 0 s = (Inr n, t)"
    "on_track C X t" using keep_deliver_loop [OF assms] by blast
  have "same_agenda t (set_pending_counts t)" by (simp add: same_agenda_def)
  then have "on_track C X (set_pending_counts t)" using t(2) by (simp only: on_track_cong)
  then show ?thesis using t(1) by (simp add: deliver_pending_def)
qed

section \<open>Steps\<close>

definition keeps :: "ca_config \<Rightarrow> string set \<Rightarrow> ca \<Rightarrow> ca \<Rightarrow> bool" where
  "keeps C X s t \<longleftrightarrow> (config_ok C \<longrightarrow> keeps_track C X s t)"

lemma keeps_same_agenda: "same_agenda s t \<Longrightarrow> keeps C X s t"
  by (simp add: keeps_def same_agenda_keeps)

lemma enqueue_on_track: "on_track C (insert rid X) s \<Longrightarrow> on_track C X (enqueue_rule C rid why s)"
  by (simp add: on_track_def agenda_enqueue ext_keys_cong [of "enqueue_rule C rid why s" s])

lemma on_track_widen: "on_track C X s \<Longrightarrow> X \<subseteq> Y \<Longrightarrow> on_track C Y s"
  by (auto simp: on_track_def intro: agenda_widen)

lemma on_track_mets [simp]: "on_track C X (s\<lparr>mets := m\<rparr>) = on_track C X s"
  by (rule on_track_cong) (simp add: same_agenda_def)

lemma on_track_event [simp]: "on_track C X (record_event C k pl s) = on_track C X s"
  by (rule on_track_cong) (simp add: same_agenda_def)

lemma reject_on_track: "on_track C (insert (rule_id r) X) s \<Longrightarrow> on_track C X (invalid_policy_result C r why s)"
  unfolding invalid_policy_result_def
  by (rule enqueue_on_track) simp

interpretation ag: work_relation C "keeps C X" for C X
proof
  fix s t u :: ca and m :: metrics
  show "keeps C X s t \<Longrightarrow> keeps C X t u \<Longrightarrow> keeps C X s u" by (auto simp: keeps_def intro: keeps_trans)
  show "keeps C X s (enqueue_rule C rid why s)" for rid why
    by (auto simp: keeps_def keeps_track_def intro!: enqueue_on_track elim: on_track_widen)
  show "keeps C X s (invalid_policy_result C r why s)" for r why
    by (auto simp: keeps_def keeps_track_def intro!: reject_on_track elim: on_track_widen)
  show "keeps C X s (snd (record_observation C k a s))" for k a
  proof (cases "get_cell s k")
    case (Inr c)
    let ?t = "put_cell (c\<lparr>policy := (policy c)\<lparr>observations := Suc (observations (policy c)), last_answer := Some (answer_dict a)\<rparr>\<rparr>) s"
    have "keeps_track C X s ?t" by (rule put_cell_keeps [OF Inr]) simp
    with Inr show ?thesis
      by (auto simp: record_observation_def lift_res_def keeps_def intro!: keeps_same [of C X s ?t] simp: same_agenda_def)
  qed (simp add: record_observation_def lift_res_def keeps_def same_agenda_keeps)
  show "keeps C X s (snd (checked_apply C v p s))" for v p
    by (cases "checked_apply C v p s") (auto simp: keeps_def dest: checked_apply_keeps)
  show "keeps C X s (snd (deliver_pending C limit rv s))" for limit rv
    using keep_deliver_pending [of C X s limit rv] by (auto simp: keeps_def keeps_track_def)
qed (simp_all add: keeps_same_agenda same_agenda_def)

end
