(* ===== verification/CA_Complete.thy ===== *)
theory CA_Complete
  imports CA_Agenda
begin

text \<open>
  Completeness at quiescence: a run that ends neither in an error nor out of budget has
  accepted exactly the least model of the declared Horn system over the assumptions and the
  verified receipts, unless a rule is left over one of whose notifications was lost.
\<close>

section \<open>One step keeps the agenda\<close>

lemma on_track_done:
  assumes ot: "on_track C {rule_id r} s" and ok: "config_ok C" and r: "r \<in> set (rules C)"
    and idle: "atom_key (rule_conclusion r) \<in> accepted_facts s \<or> \<not> rule_enabled s r"
  shows "on_track C {} s"
proof -
  have "rule_id r' \<noteq> rule_id r" if "needed C s r'" for r'
  proof
    assume "rule_id r' = rule_id r"
    then have "r' = r"
      using ok r that by (auto simp: config_ok_def needed_def distinct_map inj_on_def)
    with that idle show False by (simp add: needed_def)
  qed
  then show ?thesis using ot by (auto simp: on_track_def agenda_def)
qed

lemma keepsD: "keeps C X s t \<Longrightarrow> config_ok C \<Longrightarrow> on_track C X s \<Longrightarrow> on_track C X t"
  by (simp add: keeps_def keeps_track_def)

lemma perform_on_track:
  assumes p: "perform_proposal C inp r sn pa s = (Inr v, t)" and good: "config_ok C"
    and ot: "on_track C {rule_id r} s" and r: "r \<in> set (rules C)"
  shows "on_track C {} t"
proof -
  from p obtain s1 q s2 where o: "record_observation C (sn_cell sn) (snd pa) s = (Inr (), s1)"
    and a: "checked_apply C (verifier_out inp) (fst pa) s1 = (Inr q, s2)"
    and t: "t = (if atom_key (rule_conclusion r) \<in> accepted_facts s2 then s2 else enqueue_rule C (rule_id r) ''retry'' s2)"
    by (auto simp: perform_proposal_def elim!: pbind_cases)
  have "on_track C {rule_id r} s1"
    using keepsD [OF ag.rel_observe good ot] o by (metis snd_conv)
  then have "on_track C {rule_id r} s2"
    using keepsD [OF ag.rel_apply good] a by (metis snd_conv)
  then show ?thesis
    using on_track_done [OF _ _ r] good t by (auto simp: intro: enqueue_on_track)
qed

lemma handle_on_track:
  assumes "handle_turn C fifo inp r sn turn s = (Inr v, t)" and "config_ok C"
    and "on_track C {rule_id r} s" and "r \<in> set (rules C)"
  shows "on_track C {} t"
  using assms
  by (auto simp: handle_turn_def split: sum.splits elim!: pbind_lift_cases intro: reject_on_track perform_on_track)

lemma serve_rule_on_track:
  assumes p: "serve_rule C fifo inp r s = (Inr v, t)" and good: "config_ok C"
    and ot: "on_track C {rule_id r} s" and r: "r \<in> set (rules C)"
  shows "on_track C {} t"
proof -
  from p obtain sn s1 where sn: "take_snapshot C r s = (Inr sn, s1)"
    and rest: "(let s = s1\<lparr>mets := (mets s1)\<lparr>policy_calls := Suc (policy_calls (mets s1))\<rparr>\<rparr> in
      pbind (lift_res (policy_turn C fifo (policy_out inp) sn r s) s) (\<lambda>turn s. handle_turn C fifo inp r sn turn s)) = (Inr v, t)"
    unfolding serve_rule_def by (elim pbind_cases) auto
  have "on_track C {rule_id r} s1"
    using keepsD [OF ag.rel_snapshot good ot] sn by (metis snd_conv)
  then show ?thesis
    using rest by (auto simp: Let_def elim!: pbind_lift_cases intro: handle_on_track [OF _ good _ r])
qed

lemma serve_choice_on_track:
  assumes p: "serve_choice C fifo inp rid s = (Inr v, t)" and good: "config_ok C" and ot: "on_track C {rid} s"
  shows "on_track C {} t"
proof -
  from p obtain r where r: "rule_by_id C rid = Some r" by (auto simp: serve_choice_def split: option.splits)
  then have r': "r \<in> set (rules C)" "rule_id r = rid" using rule_by_idD by auto
  show ?thesis
  proof (cases "rule_enabled s r")
    case False
    then show ?thesis
      using p r r' ot on_track_done [of C r s] good by (auto simp: serve_choice_def config_ok_def)
  next
    case True
    with p r obtain lr where res: "reserve (resources s) (''step:'' @ nat_text (scheduler_step s)) 1 = Inr lr"
      and rest: "(let s = s\<lparr>resources := fst lr\<rparr> in
           if truthy (row_get (snd lr) ''reserved'') then serve_rule C fifo inp r s
           else (Inr [(''status'', PStr ''BUDGET_EXHAUSTED''), (''rule_id'', PStr rid), (''resource'', PDict (snd lr))],
             enqueue_rule C rid ''budget_wait'' s)) = (Inr v, t)"
      by (auto simp: serve_choice_def elim!: pbind_lift_cases)
    have "on_track C {rid} (s\<lparr>resources := fst lr\<rparr>)"
      using keepsD [OF ag.rel_reserve [OF res] good ot] .
    then show ?thesis
      using rest serve_rule_on_track [OF _ good _ r'(1)] r'(2)
      by (auto simp: Let_def split: if_splits intro: enqueue_on_track)
  qed
qed

lemma choose_rule_on_track:
  assumes c: "choose_rule C fifo pick s = (q, t)" and ot: "on_track C {} s"
  shows "on_track C (case q of None \<Rightarrow> {} | Some rid \<Rightarrow> {rid}) t"
proof (cases "ready_queue s")
  case Nil
  then show ?thesis using c ot by (auto simp: choose_rule_def)
next
  case (Cons a qs)
  define i where "i = (if fifo \<or> \<not> has_rng C \<or> qs = [] then 0 else pick mod length (a # qs))"
  then have i: "i < length (ready_queue s)" using Cons by simp
  have q: "q = Some (ready_queue s ! i)"
    and t: "t = s\<lparr>ready_queue := remove_at i (ready_queue s), queued_rules := queued_rules s - {ready_queue s ! i}\<rparr>"
    using c Cons by (simp_all add: choose_rule_def Let_def i_def)
  have ag: "agenda C {} s" using ot by (simp add: on_track_def)
  have set: "set (remove_at i (ready_queue s)) = set (ready_queue s) - {ready_queue s ! i}" "distinct (remove_at i (ready_queue s))"
    using ag i set_remove_at [OF i] distinct_remove_at [OF i] by (auto simp: agenda_def)
  have "agenda C {ready_queue s ! i} t"
    by (rule agenda_requeue [OF ag]) (use ag set in \<open>auto simp: t agenda_def\<close>)
  then show ?thesis using ot ext_keys_cong [of t s C] by (simp add: on_track_def q t)
qed

lemma ca_step_on_track:
  assumes st: "ca_step C fp inp s = (Inr v, t)" and good: "config_ok C" and ot: "on_track C {} s"
  shows "on_track C {} t"
proof -
  have sch: "on_track C {} u" if "schedule C fp inp s = (Inr w, u)" for w u
  proof -
    let ?s = "s\<lparr>scheduler_step := Suc (scheduler_step s), mets := (mets s)\<lparr>steps := Suc (steps (mets s))\<rparr>\<rparr>"
    let ?fifo = "max 1 fp = 1 \<or> Suc (scheduler_step s) mod max 1 fp = 0"
    obtain q t1 where q: "choose_rule C ?fifo (rng_pick inp) ?s = (q, t1)" by (rule prod.exhaust)
    have "on_track C {} ?s" using keepsD [OF ag.rel_tick good ot] .
    from choose_rule_on_track [OF q this] that q show ?thesis
      by (auto simp: schedule_def Let_def split: option.splits intro: serve_choice_on_track [OF _ good])
  qed
  have dl: "on_track C {} u" if "deliver_pending C l rv s = (w, u)" for l rv w u
    using keepsD [OF ag.rel_deliver good ot, of l rv] that by simp
  show ?thesis using st ot
    by (auto simp: ca_step_def split: if_splits elim!: pbind_cases intro: sch dl)
qed


section \<open>The initial agenda\<close>

definition blank :: "ca \<Rightarrow> bool" where
  "blank s \<longleftrightarrow> evidence_store s = [] \<and> fact_evidence s = [] \<and> accepted_facts s = {} \<and> pending_messages s = [] \<and> delivered_message_ids s = {}
     \<and> ready_queue s = [] \<and> queued_rules s = {} \<and> (\<forall>(k, c) \<in> set (cells s). cell_id c = k)"

lemma add_edge_frame [simp]:
  "cells (add_edge C a b k rid ix s) = cells s" "rules_by_premise (add_edge C a b k rid ix s) = rules_by_premise s"
  "blank (add_edge C a b k rid ix s) = blank s"
  by (simp_all add: add_edge_def Let_def blank_def)

lemma blank_premise [simp]: "blank (add_premise C r ip s) = blank s" "cells (add_premise C r ip s) = cells s"
  by (simp_all add: add_premise_def blank_def [of "s\<lparr>rules_by_premise := d\<rparr>" for d]) (simp add: blank_def)

lemma users_premise: "users (add_premise C r ip s) k = users s k @ (if atom_key (snd ip) = k then [rule_id r] else [])"
  by (auto simp: add_premise_def users_def dict_append_def dict_simps split: option.splits)

lemma fold_premises:
  "cells (fold (add_premise C r) ips s) = cells s" "blank (fold (add_premise C r) ips s) = blank s"
  "set (users (fold (add_premise C r) ips s) k) = set (users s k) \<union> (if k \<in> (atom_key \<circ> snd) ` set ips then {rule_id r} else {})"
  by (induction ips arbitrary: s) (auto simp: users_premise)

lemma blank_put: "blank s \<Longrightarrow> cell_id c = k \<Longrightarrow> blank (s\<lparr>cells := dict_set k c (cells s)\<rparr>)"
  by (auto simp: blank_def dest!: subsetD [OF set_dict_set_subset])

lemma add_fact_cell_effect:
  assumes "blank s"
  shows "blank (add_fact_cell C a s)" "users (add_fact_cell C a s) = users s"
    "fst ` set (cells (add_fact_cell C a s)) = insert (fact_cell_id (atom_key a)) (fst ` set (cells s))"
  using assms by (auto simp: add_fact_cell_def Let_def blank_put users_def fun_eq_iff keys_dict_set)

lemma add_rule_cell_effect:
  assumes "blank s"
  shows "blank (add_rule_cell C r s)"
    "set (users (add_rule_cell C r s) k) = set (users s k) \<union> (if k \<in> atom_key ` set (rule_premises r) then {rule_id r} else {})"
    "fst ` set (cells (add_rule_cell C r s)) = insert (rule_cell_id (rule_id r)) (fst ` set (cells s))"
proof -
  have u: "users (add_edge C a b k rid ix t) = users t" for a b k rid ix t by (simp add: users_def fun_eq_iff)
  have snds: "(atom_key \<circ> snd) ` set (enumerate 0 (rule_premises r)) = atom_key ` set (rule_premises r)"
    by (metis image_comp map_snd_enumerate set_map)
  have b: "blank (s\<lparr>cells := dict_set k c (cells s), rules_by_conclusion := d\<rparr>)" if "cell_id c = k" for k c d
    using blank_put [OF assms that] by (simp add: blank_def)
  show "blank (add_rule_cell C r s)"
    by (simp add: add_rule_cell_def Let_def fold_premises b)
  show "set (users (add_rule_cell C r s) k) = set (users s k) \<union> (if k \<in> atom_key ` set (rule_premises r) then {rule_id r} else {})"
    by (simp add: add_rule_cell_def Let_def u fold_premises snds [unfolded comp_def] comp_def) (simp add: users_def)
  show "fst ` set (cells (add_rule_cell C r s)) = insert (rule_cell_id (rule_id r)) (fst ` set (cells s))"
    by (simp add: add_rule_cell_def Let_def fold_premises keys_dict_set)
qed

lemma fold_facts_effect:
  assumes "blank s"
  shows "blank (fold (add_fact_cell C) as s)" "users (fold (add_fact_cell C) as s) = users s"
    "fst ` set (cells (fold (add_fact_cell C) as s)) = (\<lambda>a. fact_cell_id (atom_key a)) ` set as \<union> fst ` set (cells s)"
  using assms by (induction as arbitrary: s) (auto simp: add_fact_cell_effect)

lemma fold_rules_effect:
  assumes "blank s"
  shows "blank (fold (add_rule_cell C) rs s)"
    "set (users (fold (add_rule_cell C) rs s) k) = set (users s k) \<union> {rid. \<exists>r \<in> set rs. rule_id r = rid \<and> k \<in> atom_key ` set (rule_premises r)}"
    "fst ` set (cells (fold (add_rule_cell C) rs s)) = (\<lambda>r. rule_cell_id (rule_id r)) ` set rs \<union> fst ` set (cells s)"
  using assms by (induction rs arbitrary: s) (auto simp: add_rule_cell_effect)

lemma map_of_map_prod: "map_of (map (map_prod id f) d) k = map_option f (map_of d k)"
  by (induction d) auto

lemma built_agenda: "agenda C {rule_id r | r. r \<in> set (rules C) \<and> rule_premises r = []} (build_graph C (empty_ca l))"
proof -
  let ?e = "empty_ca l"
  let ?g = "fold (add_rule_cell C) (rules C) (fold (add_fact_cell C) (atoms C) ?e)"
  have e: "blank ?e" "\<And>k. users ?e k = []" by (simp_all add: blank_def empty_ca_def users_def)
  note f = fold_facts_effect [OF e(1), of C "atoms C"]
  note g = fold_rules_effect [OF f(1), of C "rules C", unfolded f(2,3)]
  let ?b = "build_graph C ?e"
  have b: "blank ?b" "cells ?b = cells ?g" using g(1) by (simp_all add: build_graph_def Let_def blank_def)
  have "set (users ?b k) = set (users ?g k)" for k
    by (simp add: build_graph_def Let_def users_def map_of_map_prod split: option.split)
  then have users: "set (users ?b k) = {rid. link C k rid}" for k
    by (simp add: g(2) e(2) link_def)
  have "cells_ok C (cells ?b)"
    using b(1) g(3) unfolding cells_ok_def b(2) by (auto simp: blank_def b(2))
  then show ?thesis
    using b(1) users by (auto simp: agenda_def blank_def notes_ok_def needed_def rule_enabled_def fact_refs_def)
qed


lemma admit_assumptions_on_track:
  assumes "on_track C X s" and "admit_assumptions C as s = (r, t)"
  shows "on_track C X t"
  using assms
proof (induction as arbitrary: s)
  case (Cons a as)
  have st: "on_track C X u" if "admit_assumption C a s = (q, u)" for q u
    using that unfolding admit_assumption_def
    by (rule admit_evidence_on_track [OF _ Cons.prems(1)]) (simp add: assumption_evidence_def)
  show ?case using Cons.prems(2) by (auto elim!: pbind_cases dest: st intro: Cons.IH)
qed simp

lemma seed_rules_on_track:
  assumes "on_track C {rule_id r | r. r \<in> set (rules C) \<and> rule_premises r = []} s"
  shows "on_track C {} (seed_rules C s)"
proof -
  have "on_track C X s \<Longrightarrow> on_track C (X - {rule_id r | r. r \<in> set rs \<and> rule_premises r = []})
      (fold (\<lambda>r s. if rule_premises r = [] then enqueue_rule C (rule_id r) ''zero_premise_rule'' s else s) rs s)" for rs :: "hrule list" and X s
  proof (induction rs arbitrary: s X)
    case (Cons r rs)
    show ?case
    proof (cases "rule_premises r = []")
      case True
      have "on_track C (X - {rule_id r}) (enqueue_rule C (rule_id r) ''zero_premise_rule'' s)"
        using Cons.prems by (auto intro!: enqueue_on_track elim!: on_track_widen)
      moreover have "X - {rule_id r} - {rule_id r' | r'. r' \<in> set rs \<and> rule_premises r' = []}
          = X - {rule_id r' | r'. r' \<in> set (r # rs) \<and> rule_premises r' = []}"
        using True by auto
      ultimately show ?thesis using Cons.IH [of "X - {rule_id r}"] True by simp
    next
      case False
      have "{rule_id r' | r'. r' \<in> set (r # rs) \<and> rule_premises r' = []} = {rule_id r' | r'. r' \<in> set rs \<and> rule_premises r' = []}"
        using False by auto
      then show ?thesis using Cons.IH [OF Cons.prems] False by simp
    qed
  qed simp
  from this [OF assms, of "rules C"] show ?thesis by (simp add: seed_rules_def)
qed

lemma init_ca_on_track:
  assumes "init_ca C budget = Inr s" and good: "config_ok C"
  shows "on_track C {} s"
  using assms(1)
proof (rule init_ca_cases)
  let ?Z = "{rule_id r | r. r \<in> set (rules C) \<and> rule_premises r = []}"
  fix l t u q d
  assume *: "admit_assumptions C (assumptions C) (build_graph C (empty_ca l)) = (Inr q, t)"
    "deliver_pending C None False t = (Inr d, u)" "s = seed_rules C u"
  have "untouched (build_graph C (empty_ca l))"
    by (intro untouched_build) (simp add: untouched_def empty_ca_def)
  then have "on_track C ?Z (build_graph C (empty_ca l))"
    using built_agenda by (simp add: on_track_def untouched_def ext_keys_def)
  then have "on_track C ?Z t"
    using *(1) good by (auto simp: intro: admit_assumptions_on_track)
  then have "on_track C ?Z u"
    using keep_deliver_pending [OF _ good, of ?Z t None False] *(2) by auto
  then show "on_track C {} s" unfolding *(3) by (rule seed_rules_on_track)
qed


section \<open>Runs\<close>

lemma ca_run_quiescent:
  assumes "ca_run C fp ms inps fuel n s = Some (Inr st, t)" and "config_ok C" and "on_track C {} s"
    and "st \<noteq> ERROR" "st \<noteq> BUDGET_EXHAUSTED"
  shows "on_track C {} t \<and> pending_messages t = [] \<and> ready_queue t = [] \<and> st = terminal_status C t"
  using assms(1,3)
proof (induction fuel arbitrary: n s)
  case (Suc fuel)
  show ?case
  proof (cases "pending_messages s = []")
    case False
    obtain q u where d: "deliver_pending C (Some 1) False s = (q, u)" by (rule prod.exhaust)
    then have "on_track C {} u" using keepsD [OF ag.rel_deliver assms(2) Suc.prems(2), of "Some 1" False] by simp
    then show ?thesis
      using Suc.prems(1) False d assms(4,5) by (auto split: if_splits sum.splits dest: Suc.IH)
  next
    case True
    obtain q u where c: "ca_step C fp (inps n) s = (q, u)" by (rule prod.exhaust)
    have "on_track C {} u" if "q = Inr x" for x
      using ca_step_on_track [OF _ assms(2) Suc.prems(2)] c that by blast
    then show ?thesis
      using Suc.prems True c assms(4,5) by (auto split: if_splits sum.splits dest: Suc.IH)
  qed
qed simp

text \<open>The rules a quiescent state is not closed under have lost a notification.\<close>

definition stuck :: "ca_config \<Rightarrow> ca \<Rightarrow> hrule \<Rightarrow> bool" where
  "stuck C s r \<longleftrightarrow> rule_enabled s r \<and> atom_key (rule_conclusion r) \<notin> accepted_facts s \<and> notice_lost C s r"

lemma quiescent_closed:
  assumes "on_track C {} s" "pending_messages s = []" "ready_queue s = []" "r \<in> set (rules C)"
    and "\<And>a. a \<in> set (rule_premises r) \<Longrightarrow> atom_key a \<in> accepted_facts s" and "\<not> stuck C s r"
  shows "atom_key (rule_conclusion r) \<in> accepted_facts s"
proof (rule ccontr)
  assume "atom_key (rule_conclusion r) \<notin> accepted_facts s"
  with assms(4,5) have n: "needed C s r" by (simp add: needed_def rule_enabled_def)
  then have "\<not> notice_lost C s r" using assms(6) by (simp add: needed_def stuck_def)
  with n assms(1,2,3) show False by (auto simp: on_track_def agenda_def notified_def)
qed

lemma admit_accepts: "admit_evidence C e True s = (Inr v, u) \<Longrightarrow> atom_key (subject e) \<in> accepted_facts u"
  unfolding admit_evidence_def if_True
  by (elim pbind_lift_cases pbind_cases) (simp_all add: accept_fact_core(2))

lemma admit_assumptions_accepts:
  assumes "admit_assumptions C as s = (Inr q, t)" and "sound C s"
  shows "atom_key ` set as \<subseteq> accepted_facts t"
  using assms
proof (induction as arbitrary: s)
  case (Cons a as)
  from Cons.prems(1) obtain v u where u: "admit_assumption C a s = (Inr v, u)" "admit_assumptions C as u = (Inr q, t)"
    by (auto elim!: pbind_cases)
  have "atom_key a \<in> accepted_facts u"
    using admit_accepts [OF u(1) [unfolded admit_assumption_def]] by (simp add: assumption_evidence_def make_evidence_def)
  moreover have su: "sound C u"
    using admit_evidence_advances u(1) Cons.prems(2) by (auto simp: admit_assumption_def advances_def)
  moreover have "grows u t" using admit_assumptions_advances [of C u as] su u(2) by (simp add: advances_def)
  ultimately show ?case using Cons.IH [OF u(2) su] by (auto simp: grows_def)
qed simp

lemma init_ca_assumptions:
  assumes "init_ca C budget = Inr s"
  shows "atom_key ` set (assumptions C) \<subseteq> accepted_facts s"
  using assms
proof (rule init_ca_cases)
  fix l t u q d
  assume *: "admit_assumptions C (assumptions C) (build_graph C (empty_ca l)) = (Inr q, t)"
    "deliver_pending C None False t = (Inr d, u)" "s = seed_rules C u"
  have "sound C (build_graph C (empty_ca l))"
    by (intro untouched_sound untouched_build) (simp add: untouched_def empty_ca_def)
  then show ?thesis
    using admit_assumptions_accepts [OF *(1)] deliver_pending_same_core [OF *(2)] seed_rules_same_core [of u C]
    by (simp add: same_core_def *(3))
qed

lemma init_run_reach: "init_ca C budget = Inr s \<Longrightarrow> ca_run C fp ms inps fuel n s = Some (r, t) \<Longrightarrow> reach C t"
  unfolding reach_def using moves.by_run [OF moves.stay] by blast

lemma quiescent_least_model:
  assumes good: "config_ok C" and init: "init_ca C budget = Inr s"
    and run: "ca_run C fp ms inps fuel n s = Some (Inr st, t)" and st: "st \<noteq> ERROR" "st \<noteq> BUDGET_EXHAUSTED"
  shows "accepted_facts t \<subseteq> {k. derivable C (ext_keys C t) k}"
    and "(\<And>r. r \<in> set (rules C) \<Longrightarrow> \<not> stuck C t r) \<Longrightarrow> {k. derivable C (ext_keys C t) k} \<subseteq> accepted_facts t"
proof -
  show "accepted_facts t \<subseteq> {k. derivable C (ext_keys C t) k}"
    using soundD(5) [OF reach_sound [OF init_run_reach [OF init run]]] by blast
  have q: "on_track C {} t" "pending_messages t = []" "ready_queue t = []"
    using ca_run_quiescent [OF run good init_ca_on_track [OF init good] st] by auto
  have "grows s t" using adv.rel_run [OF run] init_ca_sound [OF init] by (simp add: advances_def)
  then have asm: "atom_key ` set (assumptions C) \<subseteq> accepted_facts t"
    using init_ca_assumptions [OF init] by (auto simp: grows_def)
  have ext: "ext_keys C t \<subseteq> accepted_facts t" using q(1) by (simp add: on_track_def)
  assume closed: "\<And>r. r \<in> set (rules C) \<Longrightarrow> \<not> stuck C t r"
  have "derivable C (ext_keys C t) k \<Longrightarrow> k \<in> accepted_facts t" for k
    by (induction rule: derivable.induct) (use asm ext in \<open>auto intro: quiescent_closed [OF q _ _ closed]\<close>)
  then show "{k. derivable C (ext_keys C t) k} \<subseteq> accepted_facts t" by blast
qed

text \<open>What the message limit does to a notification: it is taken off the pending ones and nothing else
  happens, so its rule is not queued.\<close>

lemma large_notice_dropped:
  assumes "pending_messages s = m # ms" and "m = fact_message C k rid eid" and "too_large C m"
    and "map_of (cells s) (fact_cell_id k) \<noteq> None" "map_of (cells s) (rule_cell_id rid) \<noteq> None"
  shows "\<exists>res t. deliver_pending C (Some 1) False s = (Inr res, t) \<and> pending_messages t = ms
    \<and> ready_queue t = ready_queue s \<and> accepted_facts t = accepted_facts s"
proof -
  let ?s = "s\<lparr>pending_messages := ms\<rparr>"
  obtain res t where "deliver_message C m ?s = (Inr res, t)" "same_agenda ?s t"
    using deliver_fact_message [of ?s k rid C eid] assms(2-5) by (auto simp: Let_def)
  then show ?thesis using assms(1) by (simp add: deliver_pending_def same_agenda_def)
qed

section \<open>The small system run to its end\<close>

lemma demo_payload_sorted: "pairs_of (rule_payload demo_r1 [''sha256:h'']) = Inr [(''conclusion'', PStr ''q''), (''premise_evidence'', PList [PStr ''sha256:h'']),
   (''premises'', PList [PStr ''p'']), (''rule_id'', PStr ''r1'')]"
  by code_simp
lemma demo_payload_size: "case canonical_json demo_lib (PDict [(''conclusion'', PStr ''q''), (''premise_evidence'', PList [PStr ''sha256:h'']),
   (''premises'', PList [PStr ''p'']), (''rule_id'', PStr ''r1'')]) of Inl _ \<Rightarrow> False | Inr t \<Rightarrow> length t \<le> max_proposal_bytes"
  by code_simp
definition demo_proposal :: "string \<Rightarrow> string \<Rightarrow> string \<Rightarrow> proposal" where
  "demo_proposal pid fpr idem = \<lparr>proposal_id = pid, pr_context = ''sha256:c'', target_cell = ''cell://rule/r1'', action = ATTEMPT_RULE,
   payload = [(''conclusion'', PStr ''q''), (''premise_evidence'', PList [PStr ''sha256:h'']),
   (''premises'', PList [PStr ''p'']), (''rule_id'', PStr ''r1'')], dependency_fingerprint = fpr, idempotency_key = idem, pr_answer = Some fallback_answer\<rparr>"

lemma demo_fallback:
  assumes "fact_evidence s = [(''p'', [''sha256:h''])]" "sn_fingerprint sn \<noteq> []"
  shows "\<exists>pid idem. idem \<noteq> [] \<and> fallback_proposal demo_config s sn demo_r1 = Inr (demo_proposal pid (sn_fingerprint sn) idem)"
proof -
  obtain t where t: "canonical_json demo_lib (PDict [(''conclusion'', PStr ''q''), (''premise_evidence'', PList [PStr ''sha256:h'']),
   (''premises'', PList [PStr ''p'']), (''rule_id'', PStr ''r1'')]) = Inr t" "length t \<le> max_proposal_bytes"
    using demo_payload_size by (auto split: sum.splits)
  have "\<exists>pid. sha256_digest demo_lib (proposal_body ''sha256:c'' ''cell://rule/r1'' ATTEMPT_RULE (rule_payload demo_r1 [''sha256:h''])
      (sn_fingerprint sn) (Some fallback_answer)) = Inr pid \<and> pid \<noteq> []"
    by (simp add: sha256_digest_def canonical_json_def proposal_body_def rule_payload_def answer_dict_def fallback_answer_def dict_of_pairs_def dict_set_def)
  then show ?thesis using assms t
    by (auto simp: fallback_proposal_def premise_evidence_def make_proposal_def mk_proposal_def rule_cell_id_def rule_prefix_def
       demo_payload_sorted ensure_def demo_proposal_def)
qed

lemma demo_snapshot:
  assumes "demo_base s"
  shows "\<exists>sn t. take_snapshot demo_config demo_r1 s = (Inr sn, t) \<and> sn_cell sn = ''cell://rule/r1''
    \<and> sn_fingerprint sn = rule_fingerprint demo_config s demo_r1 \<and> (\<exists>m. t = s\<lparr>mets := m\<rparr>)"
  using assms unfolding demo_base_def
  by (auto simp: demo_cell take_snapshot_def Let_def lift_res_def get_cell_def rule_cell_id_def rule_prefix_def edge_ids_of_def
     first_occurrences_def neighbor_of_def rule_observation_of_def rule_enabled_def premise_evidence_def snapshot_features_def
    demo_edge_def pairs_of_def rule_fingerprint_def fact_refs_def)


lemma demo_enabled: "demo_base s \<Longrightarrow> rule_enabled s demo_r1"
  by (simp add: demo_base_def rule_enabled_def)

lemma demo_apply:
  assumes "demo_base s" "fpr = rule_fingerprint demo_config s demo_r1" "idem \<noteq> []" and q: "map_of (cells s) ''cell://fact/q'' \<noteq> None"
  shows "\<exists>v t. checked_apply demo_config vr (demo_proposal pid fpr idem) s = (Inr v, t) \<and> accepted_facts t = {''p'', ''q''} \<and> row_get v ''outcome'' = PStr ''FACT_ACCEPTED''
    \<and> pending_messages t = pending_messages s \<and> ready_queue t = ready_queue s \<and> runtime_error t = None"
  using assms unfolding demo_base_def demo_assumption
  by (auto simp: checked_apply_def validate_proposal_def demo_proposal_def row_str_def row_get_def rule_by_id_def rule_fingerprint_def
    dispatch_action_def apply_rule_proposal_def Let_def forges_authority_def has_key_def rule_cell_id_def rule_prefix_def lift_res_def row_strs_def
   rule_enabled_def admit_evidence_def derivation_evidence_def make_evidence_def validate_authoritative_def atom_by_key_def authoritative_def
   validate_derivation_def check_premise_def ensure_def store_evidence_def accept_fact_def get_cell_def fact_cell_id_def fact_prefix_def
   attach_evidence_def fact_refs_def dict_default_def)

definition demo_input :: step_input where
  "demo_input = \<lparr>policy_out = OutOther, verifier_out = VerRaises KeyErr, rng_pick = 0\<rparr>"


lemma demo_structural: "fact_evidence s = [(''p'', [''sha256:h''])] \<Longrightarrow> fpr = rule_fingerprint demo_config s demo_r1
  \<Longrightarrow> is_structural_attempt demo_config s (demo_proposal pid fpr idem) demo_r1 = Inr True"
  by (simp add: is_structural_attempt_def demo_proposal_def rule_cell_id_def rule_prefix_def row_str_def row_get_def row_strs_def
     premise_evidence_def forges_authority_def has_key_def Let_def)

lemma demo_fingerprint_cong: "fact_evidence t = fact_evidence s \<Longrightarrow> rule_fingerprint C t r = rule_fingerprint C s r"
  by (simp add: rule_fingerprint_def fact_refs_def)

lemma demo_base_keep:
  "demo_base s \<Longrightarrow> same_core s t \<Longrightarrow> edges t = edges s \<Longrightarrow> rules_by_premise t = rules_by_premise s
    \<Longrightarrow> forward_edges t = forward_edges s \<Longrightarrow> reverse_edges t = reverse_edges s
    \<Longrightarrow> applied_proposals t = applied_proposals s \<Longrightarrow> idempotency_keys t = idempotency_keys s
    \<Longrightarrow> runtime_error t = runtime_error s
    \<Longrightarrow> map (map_prod id cell_id) (cells t) = map (map_prod id cell_id) (cells s) \<Longrightarrow> demo_base t"
  using demo_base_cong by blast

lemma demo_serve:
  assumes b: "demo_base s" and q: "queued_rules s = {}" "ready_queue s = []" "pending_messages s = []"
  shows "\<exists>v t. serve_rule demo_config True demo_input demo_r1 s = (Inr v, t) \<and> accepted_facts t = {''p'', ''q''}
    \<and> row_get v ''status'' = PStr ''FACT_ACCEPTED'' \<and> pending_messages t = [] \<and> ready_queue t = [] \<and> runtime_error t = None"
proof -
  obtain sn m where sn: "take_snapshot demo_config demo_r1 s = (Inr sn, s\<lparr>mets := m\<rparr>)" "sn_cell sn = ''cell://rule/r1''"
    "sn_fingerprint sn = rule_fingerprint demo_config s demo_r1"
    using demo_snapshot [OF b] by blast
  define u where "u = s\<lparr>mets := m\<lparr>policy_calls := Suc (policy_calls m)\<rparr>\<rparr>"
  have ub: "demo_base u" by (rule demo_base_keep [OF b]) (simp_all add: u_def same_core_def)
  have uf: "fact_evidence u = [(''p'', [''sha256:h''])]" using ub by (simp add: demo_base_def)
  have fpr: "sn_fingerprint sn = rule_fingerprint demo_config u demo_r1" "sn_fingerprint sn \<noteq> []"
    by (simp_all add: sn(3) u_def rule_fingerprint_def digest_def fact_refs_def)
  obtain pid idem where i: "idem \<noteq> []" and p: "fallback_proposal demo_config u sn demo_r1 = Inr (demo_proposal pid (sn_fingerprint sn) idem)"
    using demo_fallback [OF uf fpr(2)] by blast
  let ?p = "demo_proposal pid (sn_fingerprint sn) idem"
  have turn: "policy_turn demo_config True OutOther sn demo_r1 u = Inr (Inr (?p, fallback_answer))"
    by (simp add: policy_turn_def normalize_output_def interpret_output_def p)
  have fair: "fair_turn demo_config True sn demo_r1 (?p, fallback_answer) u = Inr (?p, fallback_answer)"
    by (simp add: fair_turn_def demo_structural [OF uf fpr(1)])
  obtain c where c: "map_of (cells u) ''cell://rule/r1'' = Some c" "cell_id c = ''cell://rule/r1''"
    using ub by (auto simp: demo_base_def demo_cell)
  define w where "w = snd (record_observation demo_config (sn_cell sn) fallback_answer u)"
  have w: "record_observation demo_config (sn_cell sn) fallback_answer u = (Inr (), w)"
    using c by (simp add: w_def record_observation_def lift_res_def get_cell_def sn(2))
  have wf: "fact_evidence w = fact_evidence u" "pending_messages w = []" "ready_queue w = []"
    using c q by (simp_all add: w_def record_observation_def lift_res_def get_cell_def sn(2) u_def)
  have wb: "demo_base w"
    using c put_same_cells [of u "c\<lparr>policy := p\<rparr>" c for p]
    by (intro demo_base_keep [OF ub])
      (simp_all add: w_def record_observation_def lift_res_def get_cell_def sn(2) same_core_def cells_put_cell)
  have "map_of (cells w) ''cell://fact/q'' \<noteq> None" using wb by (auto simp: demo_base_def demo_cell)
  from demo_apply [OF wb _ i this, of "sn_fingerprint sn" "VerRaises KeyErr" pid]
  obtain v t where t: "checked_apply demo_config (VerRaises KeyErr) ?p w = (Inr v, t)" "accepted_facts t = {''p'', ''q''}"
    "row_get v ''outcome'' = PStr ''FACT_ACCEPTED''" "pending_messages t = []" "ready_queue t = []" "runtime_error t = None"
    using demo_fingerprint_cong [OF wf(1)] fpr(1) wf(2,3) by auto
  show ?thesis
    by (simp add: serve_rule_def sn(1) Let_def turn lift_res_def handle_turn_def fair perform_proposal_def w t demo_input_def
       flip: u_def)
      (simp add: row_get_def)
qed

lemma demo_run: "\<exists>s t. init_ca demo_config None = Inr s \<and> ca_run demo_config 1 None (\<lambda>_. demo_input) 2 0 s = Some (Inr VERIFIED_COMPLETE, t)
   \<and> accepted_facts t = {''p'', ''q''}"
proof -
  obtain s where s: "init_ca demo_config None = Inr s" "demo_base s" "ready_queue s = [''r1'']" "queued_rules s = {''r1''}"
    "pending_messages s = []" "scheduler_step s = 0" "mk_ledger None 0 [] = Inr (resources s)"
    using demo_init by blast
  obtain lr where lr: "reserve (resources s) ''step:1'' 1 = Inr lr" "row_get (snd lr) ''reserved'' = PBool True"
  proof -
    have "resources s = \<lparr>operation_limit = None, consumed = 0, reservations = []\<rparr>" using s(7) by (simp add: mk_ledger_def)
    then have "\<exists>lr. reserve (resources s) ''step:1'' 1 = Inr lr \<and> row_get (snd lr) ''reserved'' = PBool True"
      by (simp add: reserve_def remaining_def Let_def row_get_def)
    then show thesis using that by blast
  qed
  define u where "u = s\<lparr>scheduler_step := 1, mets := (mets s)\<lparr>steps := Suc (steps (mets s))\<rparr>, ready_queue := [], queued_rules := {}, resources := fst lr\<rparr>"
  have ub: "demo_base u" by (rule demo_base_keep [OF s(2)]) (simp_all add: u_def same_core_def)
  from demo_serve [OF ub] obtain v t where t: "serve_rule demo_config True demo_input demo_r1 u = (Inr v, t)" "accepted_facts t = {''p'', ''q''}"
    "row_get v ''status'' = PStr ''FACT_ACCEPTED''" "pending_messages t = []" "ready_queue t = []" "runtime_error t = None"
    using s by (auto simp: u_def)
  have err: "runtime_error s = None" using s(2) by (simp add: demo_base_def)
  have n: "nat_text (Suc 0) = ''1''" by code_simp
  have en: "rule_enabled x demo_r1" if "accepted_facts x = {''p''}" for x using that by (simp add: rule_enabled_def)
  have "accepted_facts s = {''p''}" using s(2) by (simp add: demo_base_def)
  then have "ca_step demo_config 1 demo_input s = (Inr v, t)"
    using t(1) lr
    by (simp add: ca_step_def has_error_def err s schedule_def Let_def choose_rule_def remove_at_def serve_choice_def rule_by_id_def
       en lift_res_def n flip: u_def) (simp add: u_def)
  then have "ca_run demo_config 1 None (\<lambda>_. demo_input) 2 0 s = Some (Inr (terminal_status demo_config t), t)"
    using s t by (simp add: numeral_2_eq_2)
  moreover have "terminal_status demo_config t = VERIFIED_COMPLETE"
    using t by (simp add: terminal_status_def)
  ultimately show ?thesis using s(1) t(2) by auto
qed

section \<open>Properties\<close>

text \<open>C3: a run of a validated system that ends \<open>VERIFIED_COMPLETE\<close> or \<open>QUIESCENT_INCOMPLETE\<close> has
  accepted derivable facts only, and exactly the facts derivable from the assumptions and the
  verified receipts, for any policy and any fair period, unless a rule is left whose premises are
  accepted, whose conclusion is not, and one of whose notifications this very run lost: because it
  exceeds the 16384 bytes of a message, or because another notification the run sent has its
  digest. It ends \<open>VERIFIED_COMPLETE\<close> precisely when there are targets and all are accepted.\<close>

theorem quiescent_run_is_least_model:
  assumes "mk_config L as rs asm tgts table ctxo nl me mv ver rng = Inr C" and "init_ca C budget = Inr s"
    and "ca_run C fp ms inps fuel n s = Some (Inr st, t)" and "st \<noteq> ERROR" and "st \<noteq> BUDGET_EXHAUSTED"
  shows "accepted_facts t \<subseteq> {k. derivable C (ext_keys C t) k}
    \<and> (accepted_facts t = {k. derivable C (ext_keys C t) k} \<or> (\<exists>r \<in> set (rules C). stuck C t r))
    \<and> (st = VERIFIED_COMPLETE \<longleftrightarrow> targets C \<noteq> [] \<and> atom_key ` set (targets C) \<subseteq> accepted_facts t)"
proof -
  have good: "config_ok C" using mk_config_ok [OF assms(1)] .
  note lm = quiescent_least_model [OF good assms(2-5)]
  have "st = terminal_status C t"
    using ca_run_quiescent [OF assms(3) good init_ca_on_track [OF assms(2) good] assms(4,5)] by blast
  then have "st = VERIFIED_COMPLETE \<longleftrightarrow> targets C \<noteq> [] \<and> atom_key ` set (targets C) \<subseteq> accepted_facts t"
    using assms(4) by (auto simp: terminal_status_def split: if_splits)
  then show ?thesis using lm by blast
qed

theorem quiescent_run_is_least_model_witness:
  "\<exists>t. {k. derivable demo_config (ext_keys demo_config t) k} = {''p'', ''q''}"
proof -
  obtain s t where r: "init_ca demo_config None = Inr s" "accepted_facts t = {''p'', ''q''}"
    "ca_run demo_config 1 None (\<lambda>_. demo_input) 2 0 s = Some (Inr VERIFIED_COMPLETE, t)" using demo_run by blast
  have "\<not> stuck demo_config t r" if "r \<in> set (rules demo_config)" for r using that r(2) by (simp add: stuck_def)
  with quiescent_run_is_least_model [OF demo_mk_config r(1,3)] r(2) show ?thesis by auto
qed

end
