(* ===== verification/CA_Checker.thy ===== *)
theory CA_Checker
  imports CA_Complete
begin

text \<open>
  What \<open>checked_apply\<close> admits: a fact enters the accepted set only through a declared rule whose
  premises are accepted, or through a verified receipt that applies to the context; repeating a
  proposal changes nothing; and fact keys identify atoms.
\<close>

section \<open>What one action can accept\<close>

lemma store_evidence_stored:
  "store_evidence C e s = (Inr v, t) \<Longrightarrow> map_of (evidence_store t) (evidence_id e) = Some e"
  by (auto simp: store_evidence_def dict_simps split: if_splits option.splits)

lemma store_accepted: "store_evidence C e s = (q, u) \<Longrightarrow> accepted_facts u = accepted_facts s"
  by (auto simp: store_evidence_def split: if_splits option.splits prod.splits)

text \<open>A fact admitted with evidence is the subject of that evidence, which has passed the authority
  check, is stored and is attached to the fact.\<close>

definition backed_by :: "ca \<Rightarrow> string \<Rightarrow> evidence \<Rightarrow> bool" where
  "backed_by t k e \<longleftrightarrow> map_of (evidence_store t) (evidence_id e) = Some e \<and> atom_key (subject e) = k
     \<and> evidence_id e \<in> set (fact_refs t k)"

lemma admit_new:
  assumes a: "admit_evidence C e b s = (r, t)" and k: "k \<in> accepted_facts t" "k \<notin> accepted_facts s"
  shows "b \<and> validate_authoritative C s e = Inr () \<and> backed_by t k e"
proof (cases b)
  case False
  then show ?thesis using a k by (auto simp: admit_evidence_def dest: store_accepted elim!: pbind_cases)
next
  case True
  with a k obtain v u where v: "validate_authoritative C s e = Inr ()" and u: "store_evidence C e s = (Inr v, u)"
    and acc: "accept_fact C e u = (r, t)"
    by (auto simp: admit_evidence_def dest: store_accepted elim!: pbind_cases pbind_lift_cases)
  then show ?thesis
    using True k store_accepted [OF u] store_evidence_stored [OF u] accept_fact_core [OF acc]
    by (auto simp: backed_by_def fact_refs_attach)
qed

text \<open>Admission by a rule: the rule is declared and concludes the fact, its premises are accepted, and
  the proposal names its cell, claims no authority and carries no stale fingerprint.\<close>

definition rule_admission :: "ca_config \<Rightarrow> ca \<Rightarrow> proposal \<Rightarrow> string \<Rightarrow> bool" where
  "rule_admission C s p k \<longleftrightarrow> action p = ATTEMPT_RULE \<and> \<not> forges_authority (payload p)
     \<and> (\<exists>r \<in> set (rules C). rule_id r = row_str (lib C) (payload p) ''rule_id'' \<and> k = atom_key (rule_conclusion r)
          \<and> target_cell p = rule_cell_id (rule_id r) \<and> rule_enabled s r
          \<and> dependency_fingerprint p \<in> {[], rule_fingerprint C s r})"

text \<open>A receipt that verifies a fact in this context: its status is \<open>verified\<close> and it names the context,
  the fact and the verifier of the context.\<close>

definition verifies :: "ca_config \<Rightarrow> string \<Rightarrow> receipt \<Rightarrow> bool" where
  "verifies C k rc \<longleftrightarrow> rc_status rc = VS_VERIFIED \<and> rc_context rc = cid_of C \<and> rc_target rc = k
     \<and> rc_verifier rc = verifier_id (ca_context C) \<and> rc_version rc = verifier_version (ca_context C)"

text \<open>The receipt behind an external admission is either the one the verifier has just returned, now
  stored as the details of the fact's evidence, or the one inside the stored evidence the
  verification cache names for this fact.\<close>

definition answered_now :: "ca_config \<Rightarrow> verifier_result \<Rightarrow> ca \<Rightarrow> string \<Rightarrow> receipt \<Rightarrow> bool" where
  "answered_now C vres t k rc \<longleftrightarrow> has_verifier C \<and> received_receipt (lib C) vres = Inr rc
     \<and> (\<exists>e. backed_by t k e \<and> (ev_kind e, ev_status e) = (EK_EXTERNAL_VERIFICATION, ES_VERIFIED)
          \<and> ev_context e = cid_of C \<and> ev_details e = [(''receipt'', receipt_dict rc)])"

definition answered_before :: "ca_config \<Rightarrow> ca \<Rightarrow> ca \<Rightarrow> string \<Rightarrow> receipt \<Rightarrow> bool" where
  "answered_before C s t k rc \<longleftrightarrow> (\<exists>cached e. map_of (verification_cache s) (external_cache_key C k) = Some cached
     \<and> map_of (evidence_store s) (row_str (lib C) cached ''evidence_id'') = Some e
     \<and> (ev_kind e, ev_status e) = (EK_EXTERNAL_VERIFICATION, ES_VERIFIED) \<and> ev_context e = cid_of C
     \<and> atom_key (subject e) = k \<and> details_receipt (lib C) e [] = Inr rc \<and> evidence_id e \<in> set (fact_refs t k))"

definition external_admission :: "ca_config \<Rightarrow> verifier_result \<Rightarrow> ca \<Rightarrow> ca \<Rightarrow> proposal \<Rightarrow> string \<Rightarrow> bool" where
  "external_admission C vres s t p k \<longleftrightarrow> action p = REQUEST_EXTERNAL_VERIFICATION \<and> k = external_target C (payload p)
     \<and> target_cell p = fact_cell_id k \<and> ctx_target (ca_context C) \<in> {[], k} \<and> verifier_id (ca_context C) \<noteq> []
     \<and> (\<exists>rc. verifies C k rc \<and> (answered_now C vres t k rc \<or> answered_before C s t k rc))"

lemma apply_rule_new:
  assumes a: "apply_rule_proposal C p s = (r, t)" and k: "k \<in> accepted_facts t" "k \<notin> accepted_facts s"
  shows "\<not> forges_authority (payload p) \<and> (\<exists>rl \<in> set (rules C). rule_by_id C (row_str (lib C) (payload p) ''rule_id'') = Some rl
     \<and> rule_id rl = row_str (lib C) (payload p) ''rule_id''
     \<and> k = atom_key (rule_conclusion rl) \<and> target_cell p = rule_cell_id (rule_id rl) \<and> rule_enabled s rl)"
proof -
  have new: "k = atom_key (rule_conclusion rl)"
    if "admit_evidence C (derivation_evidence C rl evs) True s = (q, u)" "k \<in> accepted_facts u" for rl evs q u
    using admit_new [OF that(1,2) k(2)] by (simp add: backed_by_def derivation_evidence_def make_evidence_def)
  show ?thesis using a k
    by (auto simp: apply_rule_proposal_def Let_def elim!: pbind_lift_cases
        split: if_splits option.splits prod.splits sum.splits dest: rule_by_idD intro!: bexI)
      (blast intro: new)+
qed

lemma backed_by_cong: "evidence_store t = evidence_store u \<Longrightarrow> fact_evidence t = fact_evidence u \<Longrightarrow> backed_by t k e = backed_by u k e"
  by (simp add: backed_by_def fact_refs_def)

lemma external_admission_cong:
  assumes "evidence_store t = evidence_store u" and "fact_evidence t = fact_evidence u"
  shows "external_admission C vres s t p k = external_admission C vres s u p k"
  using assms by (simp add: external_admission_def answered_now_def answered_before_def backed_by_cong [OF assms] fact_refs_def)

lemma admit_receipt_new:
  assumes a: "admit_receipt C tgt x rc s = (r, t)" and k: "k \<in> accepted_facts t" "k \<notin> accepted_facts s" and x: "atom_key x = tgt"
  shows "k = tgt \<and> verifies C tgt rc \<and> (\<exists>e. backed_by t tgt e \<and> (ev_kind e, ev_status e) = (EK_EXTERNAL_VERIFICATION, ES_VERIFIED)
     \<and> ev_context e = cid_of C \<and> ev_details e = [(''receipt'', receipt_dict rc)])"
proof -
  define e where "e = make_evidence (lib C) (fst (status_evidence (rc_status rc))) (snd (status_evidence (rc_status rc))) x
    (cid_of C) [] [] [] (rc_verifier rc) [(''receipt'', receipt_dict rc)]"
  obtain q u where ad: "admit_evidence C e (rc_status rc = VS_VERIFIED) s = (q, u)" by (rule prod.exhaust)
  have t: "t = s \<or> accepted_facts t = accepted_facts u \<and> evidence_store t = evidence_store u \<and> fact_evidence t = fact_evidence u"
    and applies: "t = s \<or> rc_context rc = cid_of C \<and> rc_target rc = tgt \<and> rc_verifier rc = verifier_id (ca_context C)
      \<and> rc_version rc = verifier_version (ca_context C)"
    using a [unfolded admit_receipt_def Let_def, folded e_def] unfolding ad by (auto split: if_splits sum.splits)
  have ts: "t \<noteq> s" using k by blast
  then have "k \<in> accepted_facts u" using t k by auto
  from admit_new [OF ad this k(2)] have st: "rc_status rc = VS_VERIFIED" and "backed_by u k e" by auto
  then have b: "backed_by t k e" using t ts backed_by_cong [of t u] by blast
  moreover have "k = tgt" using b x by (simp add: backed_by_def e_def make_evidence_def)
  moreover have "(ev_kind e, ev_status e) = (EK_EXTERNAL_VERIFICATION, ES_VERIFIED) \<and> ev_context e = cid_of C
      \<and> ev_details e = [(''receipt'', receipt_dict rc)]"
    using st by (simp add: e_def make_evidence_def)
  ultimately show ?thesis using st applies ts by (auto simp: verifies_def)
qed

lemma query_verifier_new:
  assumes "query_verifier C vres tgt a s = (r, t)" and "k \<in> accepted_facts t" "k \<notin> accepted_facts s" and "atom_key a = tgt"
  shows "k = tgt \<and> (\<exists>rc. verifies C tgt rc \<and> answered_now C vres t tgt rc)"
  using assms by (auto simp: query_verifier_def Let_def answered_now_def split: if_splits sum.splits dest!: admit_receipt_new)

lemma validate_cached_receipt:
  assumes "validate_cached C s e cached tgt = Inr rc" and "authoritative e"
  shows "verifies C tgt rc \<and> (ev_kind e, ev_status e) = (EK_EXTERNAL_VERIFICATION, ES_VERIFIED) \<and> ev_context e = cid_of C
    \<and> atom_key (subject e) = tgt \<and> details_receipt (lib C) e [] = Inr rc"
proof -
  from assms(1) have c: "rc_context rc = cid_of C" "rc_target rc = tgt" "rc_verifier rc = verifier_id (ca_context C)"
      "rc_version rc = verifier_version (ca_context C)" "ev_context e = cid_of C" "atom_key (subject e) = tgt"
    and st: "(ev_kind e, ev_status e) = status_evidence (rc_status rc)"
    and d: "details_receipt (lib C) e ''cached_external_receipt_missing'' = Inr rc"
    by (auto simp: validate_cached_def res_simps split: if_splits)
  have "rc_status rc = VS_VERIFIED" using st assms(2) by (cases "rc_status rc") (auto simp: authoritative_def)
  moreover have "details_receipt (lib C) e [] = Inr rc"
    using d by (auto simp: details_receipt_def split: option.splits pyval.splits)
  ultimately show ?thesis using c st by (simp add: verifies_def)
qed

lemma apply_external_new:
  assumes a: "apply_external_request C vres p s = (r, t)" and k: "k \<in> accepted_facts t" "k \<notin> accepted_facts s"
  shows "k = external_target C (payload p) \<and> target_cell p = fact_cell_id k \<and> ctx_target (ca_context C) \<in> {[], k}
    \<and> verifier_id (ca_context C) \<noteq> [] \<and> (\<exists>rc. verifies C k rc \<and> (answered_now C vres t k rc \<or> answered_before C s t k rc))"
proof -
  have hit: "k = tgt \<and> (\<exists>rc. verifies C tgt rc \<and> answered_before C s t tgt rc)"
    if "validate_cached C s e cached tgt = Inr rc" "authoritative e" "accept_fact C e s = (q, t)"
      "map_of (verification_cache s) (external_cache_key C tgt) = Some cached"
      "map_of (evidence_store s) (row_str (lib C) cached ''evidence_id'') = Some e"
    for e cached tgt rc q
    using validate_cached_receipt [OF that(1,2)] accept_fact_core(2,3) [OF that(3)] that(4,5) k
    by (auto simp: answered_before_def fact_refs_attach)
  have now: "k = tgt \<and> (\<exists>rc. verifies C tgt rc \<and> answered_now C vres t tgt rc)"
    if "query_verifier C vres tgt a (s\<lparr>verification_cache := d\<rparr>) = (r, t)" "atom_key a = tgt" for tgt a d
    using query_verifier_new [OF that(1) k(1) _ that(2)] k(2) by simp
  show ?thesis using a k
    by (auto simp: apply_external_request_def Let_def elim!: pbind_cases
        split: if_splits option.splits list.splits sum.splits dest!: atom_by_keyD
        dest: query_verifier_new now hit)
qed



section \<open>Fact keys\<close>

lemma commas_ground_inj:
  assumes "list_all is_ground xs" "list_all is_ground ys" "commas xs = commas ys" "xs \<noteq> []" "ys \<noteq> []"
  shows "xs = ys"
proof -
  have no: "CHR '','' \<notin> set x" if "is_ground x" for x
    using that by (auto simp: is_ground_def list_all_iff is_letter_def is_digit_def Let_def)
  have split: "a = b \<and> u = v" if "a @ CHR '','' # u = b @ CHR '','' # v" "CHR '','' \<notin> set a" "CHR '','' \<notin> set b" for a b u v :: string
    using that by (induction a arbitrary: b) (case_tac b, auto)+
  show ?thesis using assms
  proof (induction xs arbitrary: ys rule: commas.induct)
    case (2 x)
    then show ?case
      using no [of x] by (cases ys rule: commas.cases) (auto simp: list_all_iff)
  next
    case (3 x x' xs)
    show ?case
    proof (cases ys rule: commas.cases)
      case (3 y y' ys')
      then have "x = y \<and> commas (x' # xs) = commas (y' # ys')"
        using "3.prems" no [of x] no [of y] by (intro split) auto
      then show ?thesis using "3.IH" [of "y' # ys'"] "3.prems" 3 by simp
    qed (use "3.prems" no [of "hd ys"] in \<open>auto simp: list_all_iff\<close>)
  qed simp
qed


lemma atom_key_inj:
  assumes "mk_atom p as = Inr a" and "mk_atom q bs = Inr b" and eq: "atom_key a = atom_key b"
  shows "a = b"
proof -
  have a: "is_ident p" "list_all is_ground as" "a = \<lparr>predicate = p, atom_args = as\<rparr>"
    and b: "is_ident q" "list_all is_ground bs" "b = \<lparr>predicate = q, atom_args = bs\<rparr>"
    using assms(1,2) by (auto simp: mk_atom_def split: if_splits)
  have no: "CHR ''('' \<notin> set x" if "is_ident x" for x
    using that by (cases x) (auto simp: list_all_iff is_letter_def is_digit_def Let_def)
  have split: "x = y \<and> u = v" if "x @ CHR ''('' # u = y @ CHR ''('' # v" "CHR ''('' \<notin> set x" "CHR ''('' \<notin> set y" for x y u v :: string
    using that by (induction x arbitrary: y) (case_tac y, auto)+
  consider "as = []" "bs = []" | "as \<noteq> []" "bs \<noteq> []" | "as = []" "bs \<noteq> []" | "as \<noteq> []" "bs = []" by blast
  then show ?thesis
  proof cases
    case 2
    with eq a(3) b(3) have "p = q \<and> commas as @ '')'' = commas bs @ '')''"
      using no [OF a(1)] no [OF b(1)] by (intro split) (simp_all add: atom_key_def)
    then show ?thesis using commas_ground_inj [OF a(2) b(2) _ 2] a(3) b(3) by simp
  qed (use eq a b no [OF a(1)] no [OF b(1)] in \<open>auto simp: atom_key_def\<close>)
qed

section \<open>Properties\<close>

lemma demo_attempt:
  obtains s p v t where "checked_apply demo_config (VerRaises KeyErr) p s = (Inr v, t)" "accepted_facts s = {''p''}"
    "accepted_facts t = {''p'', ''q''}" "applied_proposals s = []"
proof -
  obtain s where s: "demo_base s" using demo_init by blast
  then have "map_of (cells s) ''cell://fact/q'' \<noteq> None" by (auto simp: demo_base_def demo_cell)
  then obtain v t where t: "checked_apply demo_config (VerRaises KeyErr)
      (demo_proposal ''id'' (rule_fingerprint demo_config s demo_r1) ''key'') s = (Inr v, t)" "accepted_facts t = {''p'', ''q''}"
    using demo_apply [OF s refl, of "''key''" "VerRaises KeyErr" "''id''"] by blast
  from t(1) _ t(2) show thesis by (rule that) (use s in \<open>simp_all add: demo_base_def\<close>)
qed

text \<open>C5: a fact enters the accepted set through \<open>checked_apply\<close> only when the proposal belongs
  to this context and either attempts a declared rule that concludes the fact, all of whose
  premises are accepted, with no stale fingerprint (it is the rule's current one, or the proposal
  carries none) and no authority field in its payload; or it asks for external verification of
  that very fact, and a receipt of status \<open>verified\<close> for this context, fact and verifier has
  come from the verifier in this call, or stands in the stored evidence the cache names for the
  fact; in both cases that evidence is attached to the fact afterwards.\<close>

theorem checked_apply_admission:
  assumes a: "checked_apply C vres p s = (res, t)" and k: "k \<in> accepted_facts t" "k \<notin> accepted_facts s"
  shows "pr_context p = cid_of C \<and> (rule_admission C s p k \<or> external_admission C vres s t p k)"
proof -
  from a k obtain q u where v: "validate_proposal C s p = None" and d: "dispatch_action C vres p s = (q, u)"
    and acc: "accepted_facts t = accepted_facts u" and same: "evidence_store t = evidence_store u" "fact_evidence t = fact_evidence u"
    by (auto simp: checked_apply_def split: option.splits elim!: pbind_cases)
  have ctx: "pr_context p = cid_of C" using v by (auto simp: validate_proposal_def split: if_splits)
  have ku: "k \<in> accepted_facts u" using k(1) acc by simp
  have "rule_admission C s p k \<or> external_admission C vres s u p k"
  proof (cases "action p")
    case ATTEMPT_RULE
    with d have "apply_rule_proposal C p s = (q, u)" by (simp add: dispatch_action_def)
    from apply_rule_new [OF this ku k(2)] ATTEMPT_RULE v show ?thesis
      by (auto simp: rule_admission_def validate_proposal_def split: if_splits)
  next
    case REQUEST_EXTERNAL_VERIFICATION
    with d have "apply_external_request C vres p s = (q, u)" by (simp add: dispatch_action_def)
    from apply_external_new [OF this ku k(2)] REQUEST_EXTERNAL_VERIFICATION show ?thesis
      by (auto simp: external_admission_def)
  next
    case REQUEST_DEPENDENCY
    then have "accepted_facts u = accepted_facts s"
      using d apply_dependency_request_same_core [of C p s q u] by (simp add: dispatch_action_def same_core_def)
    with ku k(2) show ?thesis by simp
  next
    case UPDATE_POLICY
    then have "accepted_facts u = accepted_facts s"
      using d apply_policy_update_same_core [of C p s q u] by (simp add: dispatch_action_def same_core_def)
    with ku k(2) show ?thesis by simp
  next
    case DEFER
    with d ku k(2) show ?thesis by (simp add: dispatch_action_def)
  qed
  with ctx show ?thesis using external_admission_cong [OF same] by blast
qed

text \<open>A request for the fact \<open>q\<close> of the small system, and the receipt a verifier returns for it.\<close>

definition demo_request :: proposal where
  "demo_request = \<lparr>proposal_id = ''id'', pr_context = ''sha256:c'', target_cell = ''cell://fact/q'',
     action = REQUEST_EXTERNAL_VERIFICATION, payload = [(''target'', PStr ''q'')], dependency_fingerprint = [],
     idempotency_key = ''key'', pr_answer = None\<rparr>"

definition demo_receipt :: receipt where
  "demo_receipt = \<lparr>receipt_id = ''r'', rc_context = ''sha256:c'', rc_target = ''q'', rc_status = VS_VERIFIED, rc_verifier = ''lean'',
     rc_version = ''4'', rc_artifact = [], rc_dependencies = [], rc_details = []\<rparr>"

definition demo_open :: ca_config where
  "demo_open = demo_config\<lparr>assumptions := []\<rparr>"

lemma demo_open_fields [simp]:
  "lib demo_open = demo_lib" "atoms demo_open = [demo_p, demo_q]" "rules demo_open = [demo_r1]" "assumptions demo_open = []"
  "ca_context demo_open = demo_context" "max_evidence demo_open = 1024" "max_events demo_open = 256" "has_verifier demo_open"
  by (simp_all add: demo_open_def)

lemma demo_context_fields [simp]: "verifier_id demo_context = ''lean''" "verifier_version demo_context = ''4''" "ctx_target demo_context = []"
  by (simp_all add: demo_context_def)

lemma demo_receipt_read: "receipt_from_mapping demo_lib (receipt_dict demo_receipt) = Inr demo_receipt"
  by code_simp

lemma demo_receipt_is_dict: "\<exists>d. receipt_dict demo_receipt = PDict d"
  by (simp add: receipt_dict_def)

lemma demo_open_init:
  "\<exists>s c. init_ca demo_open None = Inr s \<and> accepted_facts s = {} \<and> evidence_store s = [] \<and> fact_evidence s = []
    \<and> verification_cache s = [] \<and> applied_proposals s = [] \<and> idempotency_keys s = [] \<and> runtime_error s = None
    \<and> map_of (cells s) ''cell://fact/q'' = Some c \<and> cell_id c = ''cell://fact/q''"
  by (simp add: init_ca_def mk_ledger_def build_graph_def Let_def add_fact_cell_def add_rule_cell_def add_premise_def add_edge_def
      empty_ca_def fact_cell_id_def rule_cell_id_def fact_prefix_def rule_prefix_def dict_append_def dict_set_def dict_default_def
      deliver_pending_def set_pending_counts_def seed_rules_def)

lemma demo_verified:
  assumes "accepted_facts s = {}" "evidence_store s = []" "fact_evidence s = []" "verification_cache s = []"
    "applied_proposals s = []" "idempotency_keys s = []" "map_of (cells s) ''cell://fact/q'' = Some c" "cell_id c = ''cell://fact/q''"
  shows "\<exists>v t. checked_apply demo_open (VerReceipt demo_receipt) demo_request s = (Inr v, t) \<and> ''q'' \<in> accepted_facts t"
proof -
  obtain d where d: "receipt_dict demo_receipt = PDict d" using demo_receipt_is_dict by blast
  then have rd: "receipt_from_mapping demo_lib (PDict d) = Inr demo_receipt" using demo_receipt_read by simp
  have tgt: "external_target demo_open [(''target'', PStr ''q'')] = ''q''"
    by (simp add: external_target_def row_get_def)
  show ?thesis using assms
    by (simp add: checked_apply_def validate_proposal_def demo_request_def dispatch_action_def apply_external_request_def tgt Let_def
      atom_by_key_def fact_cell_id_def fact_prefix_def query_verifier_def received_receipt_def admit_receipt_def d
      admit_evidence_def make_evidence_def lift_res_def validate_authoritative_def authoritative_def validate_external_def
      details_receipt_def rd ensure_def store_evidence_def accept_fact_def get_cell_def attach_evidence_def fact_refs_def
      dict_default_def dict_set_def)
      (simp add: demo_receipt_def)
qed

theorem checked_apply_admission_witness:
  "\<exists>s t. init_ca demo_open None = Inr s \<and> external_admission demo_open (VerReceipt demo_receipt) s t demo_request ''q''"
proof -
  obtain s c where s: "init_ca demo_open None = Inr s" "accepted_facts s = {}" "evidence_store s = []" "fact_evidence s = []"
    "verification_cache s = []" "applied_proposals s = []" "idempotency_keys s = []" "map_of (cells s) ''cell://fact/q'' = Some c"
    "cell_id c = ''cell://fact/q''"
    using demo_open_init by blast
  obtain v t where t: "checked_apply demo_open (VerReceipt demo_receipt) demo_request s = (Inr v, t)" "''q'' \<in> accepted_facts t"
    using demo_verified [OF s(2-9)] by blast
  have "rule_admission demo_open s demo_request ''q'' \<or> external_admission demo_open (VerReceipt demo_receipt) s t demo_request ''q''"
    using checked_apply_admission [OF t] s(2) by simp
  moreover have "\<not> rule_admission demo_open s demo_request ''q''" by (simp add: rule_admission_def demo_request_def)
  ultimately show ?thesis using s(1) by blast
qed

text \<open>Applying a proposal is idempotent. Once a proposal has been answered, applying it again
  (with any verifier) returns the first answer marked as a duplicate and leaves the state as it is.\<close>

theorem checked_apply_idempotent:
  assumes "checked_apply C vres p s = (Inr res, t)" and "map_of (applied_proposals s) (proposal_id p) = None"
  shows "checked_apply C vres' p t = (Inr (dict_set ''duplicate'' (PBool True) res), t)"
  using assms by (auto simp: checked_apply_def dict_simps split: option.splits elim!: pbind_cases)

theorem checked_apply_idempotent_witness:
  "\<exists>p t r. accepted_facts t = {''p'', ''q''} \<and> (\<forall>v. checked_apply demo_config v p t = (Inr r, t) \<and> row_get r ''duplicate'' = PBool True)"
proof -
  obtain s p v t where d: "checked_apply demo_config (VerRaises KeyErr) p s = (Inr v, t)" "accepted_facts s = {''p''}"
    "accepted_facts t = {''p'', ''q''}" "applied_proposals s = []"
    by (rule demo_attempt)
  have "checked_apply demo_config w p t = (Inr (dict_set ''duplicate'' (PBool True) v), t)" for w
    by (rule checked_apply_idempotent [OF d(1)]) (simp add: d(4))
  moreover have "row_get (dict_set ''duplicate'' (PBool True) v) ''duplicate'' = PBool True" by (simp add: row_get_def dict_simps)
  ultimately show ?thesis using d(3) by blast
qed

text \<open>The key of a fact identifies it: two atoms the constructor accepts are equal when their
  keys are.\<close>

theorem atom_key_injective:
  assumes "mk_atom p as = Inr a" and "mk_atom q bs = Inr b" and "atom_key a = atom_key b"
  shows "p = q \<and> as = bs"
  using atom_key_inj [OF assms] assms(1,2) by (auto simp: mk_atom_def split: if_splits)

theorem atom_key_injective_witness:
  "{(q, bs). \<exists>b. mk_atom q bs = Inr b \<and> atom_key b = ''edge(a,b)''} = {(''edge'', [''a'', ''b''])}"
proof -
  have m: "mk_atom ''edge'' [''a'', ''b''] = Inr \<lparr>predicate = ''edge'', atom_args = [''a'', ''b'']\<rparr>" by code_simp
  moreover have "atom_key \<lparr>predicate = ''edge'', atom_args = [''a'', ''b'']\<rparr> = ''edge(a,b)''" by code_simp
  ultimately have "q = ''edge'' \<and> bs = [''a'', ''b'']" if "mk_atom q bs = Inr b" "atom_key b = ''edge(a,b)''" for q bs b
    using atom_key_injective [OF m that(1)] that(2) by simp
  with m \<open>atom_key \<lparr>predicate = ''edge'', atom_args = [''a'', ''b'']\<rparr> = ''edge(a,b)''\<close> show ?thesis by blast
qed

end
