(* ===== verification/Py_Reading.thy ===== *)
theory Py_Reading
  imports CA_Protocol
begin

text \<open>
  Reading Python values: \<open>int(v)\<close>, the items of \<open>d.get(k) or ()\<close>, and mappings. Mappings come from
  JSON text or from the \<open>to_dict\<close> methods, so their keys are strings. Text is ASCII where a number
  is read from it.
\<close>

section \<open>Reading integers and lists\<close>

text \<open>\<open>int(s)\<close> of a text: white space around, a sign, digits with single underscores between.\<close>

definition is_space :: "char \<Rightarrow> bool" where
  "is_space c = (let n = (of_char c :: nat) in n = 32 \<or> 9 \<le> n \<and> n \<le> 13 \<or> 28 \<le> n \<and> n \<le> 31)"

definition strip_space :: "string \<Rightarrow> string" where
  "strip_space s = rev (dropWhile is_space (rev (dropWhile is_space s)))"

definition digit_value :: "char \<Rightarrow> nat" where
  "digit_value c = of_char c - 48"

fun digits_from :: "bool \<Rightarrow> nat \<Rightarrow> string \<Rightarrow> nat option" where
  "digits_from after_digit n [] = (if after_digit then Some n else None)"
| "digits_from after_digit n (c # cs) =
     (if is_digit c then digits_from True (10 * n + digit_value c) cs
      else if c = CHR ''_'' \<and> after_digit then digits_from False n cs else None)"

definition max_int_digits :: nat where
  "max_int_digits = 4300"

definition unsigned_text :: "string \<Rightarrow> int option" where
  "unsigned_text s = (if max_int_digits < length (filter is_digit s) then None
     else map_option int (digits_from False 0 s))"

definition int_of_text :: "string \<Rightarrow> int option" where
  "int_of_text s = (case strip_space s of
       [] \<Rightarrow> None
     | c # cs \<Rightarrow> if c = CHR ''-'' then map_option uminus (unsigned_text cs)
         else if c = CHR ''+'' then unsigned_text cs else unsigned_text (c # cs))"

text \<open>\<open>int(v)\<close>: a float is cut towards zero.\<close>

fun py_int :: "pyval \<Rightarrow> exc + int" where
  "py_int (PBool b) = Inr (if b then 1 else 0)"
| "py_int (PInt i) = Inr i"
| "py_int (PFloat (Finite r)) = Inr (if 0 \<le> r then \<lfloor>r\<rfloor> else \<lceil>r\<rceil>)"
| "py_int (PFloat (Infinite neg)) = Inl OverflowErr"
| "py_int (PFloat NaN) = Inl (ValueErr ''cannot convert float NaN to integer'')"
| "py_int (PStr s) = (case int_of_text s of None \<Rightarrow> Inl (ValueErr ''invalid literal for int()'') | Some i \<Rightarrow> Inr i)"
| "py_int v = Inl TypeErr"

text \<open>\<open>int(d.get(k) or n)\<close>, \<open>d.get(k) or ()\<close> as the items to iterate over, \<open>dict(d.get(k) or {})\<close>.\<close>

definition row_int_or :: "row \<Rightarrow> string \<Rightarrow> int \<Rightarrow> exc + int" where
  "row_int_or d k n = (let v = row_get d k in if truthy v then py_int v else Inr n)"

definition row_items :: "row \<Rightarrow> string \<Rightarrow> exc + pyval list" where
  "row_items d k = (let v = row_get d k in if truthy v then py_iter v else Inr [])"

definition row_dict :: "row \<Rightarrow> string \<Rightarrow> exc + row" where
  "row_dict d k = py_dict (row_get d k)"

text \<open>A value whose \<open>get\<close> method is called: anything but a mapping raises \<open>AttributeError\<close>.\<close>

fun as_mapping :: "pyval \<Rightarrow> exc + row" where
  "as_mapping (PDict d) = Inr d"
| "as_mapping (PBadKeys d e) = Inr (d @ e)"
| "as_mapping v = Inl AttributeErr"

end
