(* ===== verification/CA_Records.thy ===== *)
theory CA_Records
  imports CA_Scheduler Py_Reading
begin

text \<open>
  Reading and writing the records of \<open>jevops/proof_ca.py\<close>: the \<open>from_dict\<close> class methods, which
  check what they read (an evidence record must carry the digest of its own content), and the
  \<open>to_dict\<close> methods of cells and ledgers that checkpoints and reports are made of.
\<close>

section \<open>Atoms, rules and contexts\<close>

definition atom_of_item :: "pylib \<Rightarrow> pyval \<Rightarrow> exc + atom" where
  "atom_of_item L v = rbind (as_mapping v) (atom_from_dict L)"

definition rule_from_dict :: "pylib \<Rightarrow> row \<Rightarrow> exc + hrule" where
  "rule_from_dict L d =
     rbind (row_items d ''premises'') (\<lambda>vs.
     rbind (rmap (atom_of_item L) vs) (\<lambda>ps.
     rbind (row_dict d ''conclusion'') (\<lambda>cd.
     rbind (atom_from_dict L cd) (\<lambda>c.
     mk_rule (row_str L d ''rule_id'') ps c))))"

definition context_from_dict :: "pylib \<Rightarrow> row \<Rightarrow> exc + context_identity" where
  "context_from_dict L d =
     rbind (row_strs L d ''source_dependencies'') (\<lambda>deps.
     rbind (row_dict d ''verifier_options'') (\<lambda>opts.
     rbind (pairs_of opts) (\<lambda>ps.
     rbind (mk_context (row_str L d ''facts_revision'') (row_str L d ''rules_revision'') (row_str L d ''target'')
        (row_str L d ''candidate_artifact'') deps (row_str L d ''verifier_id'') (row_str L d ''verifier_version'')
        ps (row_str L d ''axiom_policy'')) (\<lambda>c.
     (let stored = row_str L d ''context_id'' in
      if stored \<noteq> [] \<and> stored \<noteq> context_id L c then Inl (ContextMismatch ''context_digest_mismatch'')
      else Inr c)))))"

text \<open>\<open>ContextIdentity.to_dict\<close> with its identity.\<close>

definition context_record :: "pylib \<Rightarrow> context_identity \<Rightarrow> pyval" where
  "context_record L c = (case context_dict c of
     PDict d \<Rightarrow> PDict (d @ [(''context_id'', PStr (context_id L c))]) | v \<Rightarrow> v)"

section \<open>Evidence\<close>

definition evidence_kind_of :: "string \<Rightarrow> exc + evidence_kind" where
  "evidence_kind_of s =
     (case find (\<lambda>k. evidence_kind_value k = s)
        [EK_TRUSTED_ASSUMPTION, EK_RULE_DERIVATION, EK_EXTERNAL_VERIFICATION, EK_COUNTEREXAMPLE,
         EK_TEST_OBSERVATION, EK_INCONCLUSIVE, EK_ERROR] of
        None \<Rightarrow> Inl (ValueErr ''not a valid EvidenceKind'') | Some k \<Rightarrow> Inr k)"

definition evidence_status_of :: "string \<Rightarrow> exc + evidence_status" where
  "evidence_status_of s =
     (case find (\<lambda>k. evidence_status_value k = s)
        [ES_ASSUMED, ES_VERIFIED, ES_COUNTEREXAMPLE, ES_INCONCLUSIVE, ES_ERROR, ES_TRANSIENT_FAILURE] of
        None \<Rightarrow> Inl (ValueErr ''not a valid EvidenceStatus'') | Some k \<Rightarrow> Inr k)"

definition evidence_from_dict :: "pylib \<Rightarrow> row \<Rightarrow> exc + evidence" where
  "evidence_from_dict L d =
     rbind (evidence_kind_of (row_str L d ''kind'')) (\<lambda>k.
     rbind (evidence_status_of (row_str L d ''status'')) (\<lambda>st.
     rbind (row_dict d ''subject'') (\<lambda>sd.
     rbind (atom_from_dict L sd) (\<lambda>a.
     rbind (row_strs L d ''premise_atoms'') (\<lambda>ps.
     rbind (row_strs L d ''supporting_evidence'') (\<lambda>spt.
     rbind (row_dict d ''details'') (\<lambda>dt.
     rbind (pairs_of dt) (\<lambda>det.
     rbind (ensure (row_str L d ''evidence_id'' \<noteq> []) (ValidationError ''empty_evidence_id'')) (\<lambda>_.
     rbind (ensure (row_str L d ''context_id'' \<noteq> []) (ValidationError ''empty_evidence_context'')) (\<lambda>_.
     (let e = make_evidence L k st a (row_str L d ''context_id'') (row_str L d ''rule_id'') ps spt
                (row_str L d ''source'') det in
      rbind (ensure (evidence_id e = row_str L d ''evidence_id'') (ValidationError ''evidence_digest_mismatch'')) (\<lambda>_.
      Inr e))))))))))))"

section \<open>Cells and the ledger\<close>

definition optional_atom :: "atom option \<Rightarrow> pyval" where
  "optional_atom a = (case a of None \<Rightarrow> PNone | Some x \<Rightarrow> atom_dict x)"

definition symbolic_dict :: "symbolic_state \<Rightarrow> pyval" where
  "symbolic_dict y = PDict
     [(''atom'', optional_atom (sym_atom y)), (''rule_id'', PStr (sym_rule_id y)),
      (''conclusion'', optional_atom (sym_conclusion y)), (''target'', PBool (sym_target y)),
      (''dependencies'', PList (map PStr (sym_dependencies y))),
      (''accepted_derivations'', PList (map PStr (accepted_derivations y))),
      (''obligation'', PStr (obligation y)), (''target_identity'', PStr (target_identity y))]"

definition policy_dict :: "policy_state \<Rightarrow> pyval" where
  "policy_dict p = PDict
     [(''activation'', PFloat (Finite (activation p))),
      (''latent_features'', PList (map (\<lambda>r. PFloat (Finite r)) (latent_features p))),
      (''uncertainty'', PFloat (Finite (uncertainty p))), (''observations'', PInt (int (observations p))),
      (''last_answer'', case last_answer p of None \<Rightarrow> PNone | Some v \<Rightarrow> v)]"

definition runtime_dict :: "runtime_state \<Rightarrow> pyval" where
  "runtime_dict r = PDict
     [(''version'', PInt (int (version r))), (''execution_status'', PStr (execution_status r)),
      (''pending_messages'', PInt (int (pending_count r))), (''resource_ref'', PStr (resource_ref r))]"

definition cell_dict :: "cell \<Rightarrow> pyval" where
  "cell_dict c = PDict
     [(''cell_id'', PStr (cell_id c)), (''cell_type'', PStr (cell_type_value (cell_kind c))),
      (''symbolic'', symbolic_dict (symbolic c)), (''policy'', policy_dict (policy c)),
      (''evidence'', PDict [(''references'', PList (map PStr (evidence_refs c)))]),
      (''runtime'', runtime_dict (runtime c))]"

definition metrics_dict :: "metrics \<Rightarrow> row" where
  "metrics_dict m =
     [(''cells_visited'', PInt (int (cells_visited m))), (''edges_traversed'', PInt (int (edges_traversed m))),
      (''messages_delivered'', PInt (int (messages_delivered m))), (''policy_calls'', PInt (int (policy_calls m))),
      (''rule_attempts'', PInt (int (rule_attempts m))), (''verifier_attempts'', PInt (int (verifier_attempts m))),
      (''policy_rejections'', PInt (int (policy_rejections m))), (''duplicate_messages'', PInt (int (duplicate_messages m))),
      (''retrieval_requests'', PInt (int (retrieval_requests m))), (''steps'', PInt (int (steps m)))]"

definition ledger_dict :: "ledger \<Rightarrow> row" where
  "ledger_dict l =
     [(''operation_limit'', case operation_limit l of None \<Rightarrow> PNone | Some n \<Rightarrow> PInt n),
      (''consumed'', PInt (consumed l)), (''reservations'', PDict (map (map_prod id PInt) (reservations l))),
      (''remaining'', remaining_val l)]"

text \<open>\<open>int(limit)\<close> of an optional limit.\<close>

definition optional_int :: "pyval \<Rightarrow> exc + int option" where
  "optional_int v = (if v = PNone then Inr None else rbind (py_int v) (\<lambda>i. Inr (Some i)))"

definition ledger_from_dict :: "row \<Rightarrow> exc + ledger" where
  "ledger_from_dict d =
     rbind (row_int_or d ''consumed'' 0) (\<lambda>used.
     rbind (row_dict d ''reservations'') (\<lambda>rd.
     rbind (rmap (\<lambda>kv. rbind (py_int (snd kv)) (\<lambda>i. Inr (fst kv, i))) rd) (\<lambda>rs.
     rbind (optional_int (row_get d ''operation_limit'')) (\<lambda>lmt.
     mk_ledger lmt used rs))))"

text \<open>The \<open>PolicyState\<close> and \<open>RuntimeState\<close> constructors on what a checkpoint holds.\<close>

definition policy_from_dict :: "pylib \<Rightarrow> row \<Rightarrow> exc + policy_state" where
  "policy_from_dict L d =
     rbind (row_items d ''latent_features'') (\<lambda>vs.
     rbind (rmap (py_float L) vs) (\<lambda>lat.
     rbind (row_int_or d ''observations'' 0) (\<lambda>obs.
     rbind (finite_unit L ''activation'' (get_default d ''activation'' (PFloat (Finite (1 / 2))))) (\<lambda>act.
     rbind (finite_unit L ''uncertainty'' (get_default d ''uncertainty'' (PFloat (Finite 0)))) (\<lambda>unc.
     rbind (rmap finite_of lat) (\<lambda>feats.
     rbind (ensure (0 \<le> obs) (ValidationError ''negative_policy_observations'')) (\<lambda>_.
     (let la = row_get d ''last_answer'' in
      rbind (if la = PNone then Inr None else rbind (strict_value la) (\<lambda>_. Inr (Some la))) (\<lambda>ans. Inr
        \<lparr>activation = act, latent_features = feats, uncertainty = unc, observations = nat obs,
         last_answer = ans\<rparr>)))))))))"

definition str_or :: "pylib \<Rightarrow> row \<Rightarrow> string \<Rightarrow> string \<Rightarrow> string" where
  "str_or L d k w = (let t = row_str L d k in if t = [] then w else t)"

definition runtime_from_dict :: "pylib \<Rightarrow> row \<Rightarrow> exc + runtime_state" where
  "runtime_from_dict L d =
     rbind (row_int_or d ''version'' 0) (\<lambda>v.
     rbind (row_int_or d ''pending_messages'' 0) (\<lambda>n. Inr
       \<lparr>version = nat (max 0 v), execution_status = str_or L d ''execution_status'' ''idle'',
        pending_count = nat (max 0 n), resource_ref = str_or L d ''resource_ref'' ''operations''\<rparr>))"

end
