(* ===== verification/CA_Restore.thy ===== *)
theory CA_Restore
  imports CA_Records CA_Reach
begin

text \<open>
  Checkpoints of \<open>ProofGraphCA\<close>: what \<open>checkpoint\<close> writes, how \<open>from_checkpoint\<close> rebuilds a
  runtime from such a mapping, how \<open>new_epoch\<close> starts a fresh context from an old runtime, and
  \<open>replay\<close>. A restored runtime recomputes its accepted facts from the evidence records alone, in
  rounds that go on while a round accepts a new fact. Counters read from a checkpoint are taken as
  natural numbers and the items of its event log as mappings, as \<open>checkpoint\<close> writes them.
\<close>

section \<open>Reports and checkpoints\<close>

definition evidence_for :: "ca \<Rightarrow> string \<Rightarrow> evidence list" where
  "evidence_for s k = concat (map (\<lambda>eid. case map_of (evidence_store s) eid of None \<Rightarrow> [] | Some e \<Rightarrow> [e]) (fact_refs s k))"

definition derivation_rows :: "ca \<Rightarrow> string \<Rightarrow> pyval list" where
  "derivation_rows s k = map evidence_dict (evidence_for s k)"

definition str_list :: "string list \<Rightarrow> pyval" where
  "str_list xs = PList (map PStr xs)"

text \<open>\<open>report\<close>; \<open>wall\<close> is the rounded clock reading or \<open>PNone\<close>.\<close>

definition ca_report :: "ca_config \<Rightarrow> run_status option \<Rightarrow> pyval \<Rightarrow> ca \<Rightarrow> row" where
  "ca_report C st wall s =
     [(''schema'', PStr schema_id),
      (''status'', PStr (run_status_value (case st of None \<Rightarrow> terminal_status C s | Some r \<Rightarrow> r))),
      (''context_id'', PStr (cid_of C)),
      (''accepted_facts'', str_list (sorted_list_of_set (accepted_facts s))),
      (''targets'', str_list (map atom_key (targets C))),
      (''target_evidence'', PDict (map (\<lambda>a. (atom_key a, str_list (fact_refs s (atom_key a))))
         (filter (\<lambda>a. atom_key a \<in> accepted_facts s) (targets C)))),
      (''n_cells'', PInt (int (length (cells s)))), (''n_edges'', PInt (int (length (edges s)))),
      (''ready_queue'', str_list (ready_queue s)),
      (''pending_messages'', PInt (int (length (pending_messages s)))),
      (''metrics'', PDict (metrics_dict (mets s))), (''resources'', PDict (ledger_dict (resources s))),
      (''wall_time_ms'', wall), (''actual_cost'', PNone)]"

definition checkpoint :: "ca_config \<Rightarrow> pyval \<Rightarrow> ca \<Rightarrow> row" where
  "checkpoint C seed s =
     [(''schema'', PStr schema_id), (''context'', context_record (lib C) (ca_context C)),
      (''predicates'', PDict (map (map_prod id PInt) (predicate_table C))),
      (''atoms'', PList (map atom_dict (atoms C))), (''rules'', PList (map rule_dict (rules C))),
      (''assumptions'', str_list (map atom_key (assumptions C))),
      (''targets'', str_list (map atom_key (targets C))),
      (''cells'', PDict (map (map_prod id cell_dict) (cells s))),
      (''evidence'', PList (map (evidence_dict \<circ> snd) (evidence_store s))),
      (''historical_evidence'', PList (map (evidence_dict \<circ> snd) (historical_evidence s))),
      (''verification_cache'', PDict (map (map_prod id PDict) (verification_cache s))),
      (''fact_evidence'', PDict (map (map_prod id str_list) (fact_evidence s))),
      (''pending_messages'', PList (map (PDict \<circ> message_dict) (pending_messages s))),
      (''delivered_message_ids'', str_list (sorted_list_of_set (delivered_message_ids s))),
      (''ready_queue'', str_list (ready_queue s)),
      (''queued_rules'', str_list (sorted_list_of_set (queued_rules s))),
      (''event_log'', PList (map PDict (last_n (max_events C) (event_log s)))),
      (''event_sequence'', PInt (int (event_sequence s))), (''scheduler_step'', PInt (int (scheduler_step s))),
      (''metrics'', PDict (metrics_dict (mets s))), (''resources'', PDict (ledger_dict (resources s))),
      (''neighbor_limit'', PInt (int (neighbor_limit C))), (''max_events'', PInt (int (max_events C))),
      (''max_evidence'', PInt (int (max_evidence C))), (''schedule_seed'', seed)]"

section \<open>Restoring cells and evidence\<close>

text \<open>The classes that \<open>except (ProofCAError, TypeError, ValueError)\<close> catches.\<close>

fun is_bad_record :: "exc \<Rightarrow> bool" where
  "is_bad_record TypeErr = True"
| "is_bad_record (ValueErr _) = True"
| "is_bad_record x = is_ca_error x"

text \<open>A loop body that skips the items whose record is bad and raises any other exception.\<close>

primrec fold_records :: "('a \<Rightarrow> exc + 'b) \<Rightarrow> ('b \<Rightarrow> 's \<Rightarrow> 's) \<Rightarrow> 'a list \<Rightarrow> 's \<Rightarrow> exc + 's" where
  "fold_records read use [] s = Inr s"
| "fold_records read use (x # xs) s =
     (case read x of
        Inr y \<Rightarrow> fold_records read use xs (use y s)
      | Inl e \<Rightarrow> if is_bad_record e then fold_records read use xs s else Inl e)"

definition read_cell :: "pylib \<Rightarrow> string \<times> row \<Rightarrow> exc + string \<times> policy_state \<times> runtime_state" where
  "read_cell L kd =
     rbind (row_dict (snd kd) ''policy'') (\<lambda>pd.
     rbind (row_dict (snd kd) ''runtime'') (\<lambda>rd.
     rbind (policy_from_dict L pd) (\<lambda>p.
     rbind (runtime_from_dict L rd) (\<lambda>r. Inr (fst kd, p, r)))))"

definition restore_cell :: "string \<times> policy_state \<times> runtime_state \<Rightarrow> ca \<Rightarrow> ca" where
  "restore_cell kpr s = (case map_of (cells s) (fst kpr) of None \<Rightarrow> s
     | Some c \<Rightarrow> put_cell (c\<lparr>policy := fst (snd kpr), runtime := snd (snd kpr)\<rparr>) s)"

definition known_cells :: "ca \<Rightarrow> row \<Rightarrow> (string \<times> row) list" where
  "known_cells s d = concat (map (\<lambda>kv. if map_of (cells s) (fst kv) = None then []
     else case snd kv of PDict r \<Rightarrow> [(fst kv, r)] | _ \<Rightarrow> []) d)"

definition read_evidence :: "pylib \<Rightarrow> pyval \<Rightarrow> exc + evidence" where
  "read_evidence L v = rbind (py_dict v) (evidence_from_dict L)"

definition restore_evidence :: "ca_config \<Rightarrow> evidence \<Rightarrow> ca \<Rightarrow> ca" where
  "restore_evidence C e s = (if ev_context e = cid_of C
     then s\<lparr>evidence_store := dict_set (evidence_id e) e (evidence_store s)\<rparr> else s)"

definition restore_historical :: "evidence \<Rightarrow> ca \<Rightarrow> ca" where
  "restore_historical e s = s\<lparr>historical_evidence := dict_set (evidence_id e) e (historical_evidence s)\<rparr>"

section \<open>Recomputing the accepted facts\<close>

text \<open>The loop bodies: evidence that does not pass the authority check is skipped, an exception
  outside the family of \<open>ProofCAError\<close> is raised.\<close>

definition accept_restored :: "evidence \<Rightarrow> ca \<Rightarrow> ca" where
  "accept_restored e s = (let k = atom_key (subject e); t = attach_evidence k (evidence_id e) s in
     t\<lparr>accepted_facts := insert k (accepted_facts t)\<rparr>)"

definition reaccept :: "ca_config \<Rightarrow> evidence \<Rightarrow> ca \<Rightarrow> exc + ca" where
  "reaccept C e s =
     (case validate_authoritative C s e of
        Inl x \<Rightarrow> if is_ca_error x then Inr s else Inl x
      | Inr _ \<Rightarrow> Inr (accept_restored e s))"

definition reaccept_assumption :: "ca_config \<Rightarrow> evidence \<Rightarrow> ca \<Rightarrow> exc + ca" where
  "reaccept_assumption C e s =
     (case validate_authoritative C s e of
        Inl x \<Rightarrow> if is_ca_error x then Inr s else Inl x
      | Inr _ \<Rightarrow> (let k = atom_key (subject e) in
          Inr (if k \<in> set (map atom_key (assumptions C))
               then s\<lparr>fact_evidence := dict_append k (evidence_id e) (fact_evidence s),
                      accepted_facts := insert k (accepted_facts s)\<rparr>
               else s)))"

primrec rfold :: "('a \<Rightarrow> 's \<Rightarrow> exc + 's) \<Rightarrow> 'a list \<Rightarrow> 's \<Rightarrow> exc + 's" where
  "rfold f [] s = Inr s"
| "rfold f (x # xs) s = rbind (f x s) (rfold f xs)"

definition stored_evidence :: "ca \<Rightarrow> evidence list" where
  "stored_evidence s = map snd (evidence_store s)"

definition restore_assumptions :: "ca_config \<Rightarrow> ca \<Rightarrow> exc + ca" where
  "restore_assumptions C s = rfold (reaccept_assumption C)
     (filter (\<lambda>e. ev_kind e = EK_TRUSTED_ASSUMPTION)
       (sort_key (\<lambda>e. (evidence_kind_value (ev_kind e), evidence_id e)) (stored_evidence s))) s"

definition restore_round :: "ca_config \<Rightarrow> ca \<Rightarrow> exc + ca" where
  "restore_round C s =
     (let es = sort_key evidence_id (stored_evidence s) in
      rbind (rfold (reaccept C) (filter (\<lambda>e. ev_kind e = EK_RULE_DERIVATION) es) s) (\<lambda>t.
      rfold (reaccept C) (filter (\<lambda>e. ev_kind e = EK_EXTERNAL_VERIFICATION \<and> ev_status e = ES_VERIFIED) es) t))"

text \<open>A round only adds subjects of stored evidence, so the loop ends.\<close>

lemma accept_restored_core:
  "evidence_store (accept_restored e s) = evidence_store s"
  "accepted_facts (accept_restored e s) = insert (atom_key (subject e)) (accepted_facts s)"
  "fact_refs (accept_restored e s) k = fact_refs (attach_evidence (atom_key (subject e)) (evidence_id e) s) k"
  by (simp_all add: accept_restored_def Let_def fact_refs_def)

definition subjects :: "ca \<Rightarrow> string set" where
  "subjects s = (\<lambda>e. atom_key (subject e)) ` set (stored_evidence s)"

definition recomputes :: "ca \<Rightarrow> ca \<Rightarrow> bool" where
  "recomputes s t \<longleftrightarrow> evidence_store t = evidence_store s \<and> accepted_facts s \<subseteq> accepted_facts t
     \<and> accepted_facts t \<subseteq> accepted_facts s \<union> subjects s"

lemma recomputes_refl: "recomputes s s"
  by (simp add: recomputes_def)

lemma recomputes_trans: "recomputes s t \<Longrightarrow> recomputes t u \<Longrightarrow> recomputes s u"
  by (auto simp: recomputes_def subjects_def stored_evidence_def)

lemma reaccept_recomputes:
  "reaccept C e s = Inr t \<Longrightarrow> e \<in> set (stored_evidence s) \<Longrightarrow> recomputes s t"
  by (auto simp: reaccept_def recomputes_def subjects_def accept_restored_core split: sum.splits if_splits)

lemma rfold_reaccept_recomputes:
  "rfold (reaccept C) es s = Inr t \<Longrightarrow> set es \<subseteq> set (stored_evidence s) \<Longrightarrow> recomputes s t"
proof (induction es arbitrary: s)
  case (Cons e es)
  then obtain u where u: "reaccept C e s = Inr u" "rfold (reaccept C) es u = Inr t"
    by (auto simp: rbind_Inr_iff)
  have "recomputes s u" using u(1) Cons.prems(2) by (intro reaccept_recomputes) auto
  moreover from this have "set es \<subseteq> set (stored_evidence u)"
    using Cons.prems(2) by (simp add: recomputes_def stored_evidence_def)
  ultimately show ?case using Cons.IH [OF u(2)] recomputes_trans by blast
qed (simp add: recomputes_refl)

lemma restore_round_recomputes:
  assumes "restore_round C s = Inr t"
  shows "recomputes s t"
proof -
  from assms obtain u where
    u: "rfold (reaccept C) (filter (\<lambda>e. ev_kind e = EK_RULE_DERIVATION) (sort_key evidence_id (stored_evidence s))) s = Inr u"
      "rfold (reaccept C) (filter (\<lambda>e. ev_kind e = EK_EXTERNAL_VERIFICATION \<and> ev_status e = ES_VERIFIED)
         (sort_key evidence_id (stored_evidence s))) u = Inr t"
    by (auto simp: restore_round_def Let_def rbind_Inr_iff)
  have su: "recomputes s u" by (rule rfold_reaccept_recomputes [OF u(1)]) auto
  then have "stored_evidence u = stored_evidence s" by (simp add: recomputes_def stored_evidence_def)
  then have "recomputes u t" by (intro rfold_reaccept_recomputes [OF u(2)]) auto
  with su show ?thesis by (rule recomputes_trans)
qed

function restore_loop :: "ca_config \<Rightarrow> ca \<Rightarrow> exc + ca" where
  "restore_loop C s = rbind (restore_round C s) (\<lambda>t.
     if accepted_facts t = accepted_facts s then Inr t else restore_loop C t)"
  by pat_completeness auto
termination
proof (relation "measure (\<lambda>(C, s). card (subjects s - accepted_facts s))", goal_cases)
  case (2 C s t)
  then have r: "recomputes s t" by (simp add: restore_round_recomputes)
  then have "subjects t = subjects s" by (simp add: recomputes_def subjects_def stored_evidence_def)
  moreover have "subjects s - accepted_facts t \<subset> subjects s - accepted_facts s"
    using r 2(2) by (auto simp: recomputes_def)
  ultimately show ?case by (auto intro!: psubset_card_mono simp: subjects_def)
qed simp

declare restore_loop.simps [simp del]

section \<open>The rest of the state\<close>

definition restore_fact_cell :: "ca_config \<Rightarrow> atom \<Rightarrow> ca \<Rightarrow> exc + ca" where
  "restore_fact_cell C a s =
     (let k = atom_key a; acc = (k \<in> accepted_facts s); refs = fact_refs s k in
      rbind (get_cell s (fact_cell_id k)) (\<lambda>c. Inr (put_cell
        (c\<lparr>symbolic := (symbolic c)\<lparr>accepted_derivations := refs\<rparr>, evidence_refs := refs,
           runtime := (runtime c)
             \<lparr>version := version (runtime c) + (if acc \<and> execution_status (runtime c) \<noteq> ''accepted'' then 1 else 0),
              execution_status := (if acc then ''accepted'' else execution_status (runtime c))\<rparr>\<rparr>) s)))"

definition message_of_item :: "pylib \<Rightarrow> pyval \<Rightarrow> exc + message" where
  "message_of_item L v =
     rbind (as_mapping v) (\<lambda>d.
     rbind (row_dict d ''payload'') (\<lambda>pl.
     rbind (pairs_of pl) (\<lambda>ps. Inr
       \<lparr>message_id = row_str L d ''message_id'', ms_context = row_str L d ''context_id'',
        ms_source = row_str L d ''source_cell'', ms_target = row_str L d ''target_cell'',
        ms_kind = row_str L d ''kind'', ms_payload = ps\<rparr>)))"

definition mapping_items :: "pyval list \<Rightarrow> row list" where
  "mapping_items vs = concat (map (\<lambda>v. case v of PDict d \<Rightarrow> [d] | _ \<Rightarrow> []) vs)"

definition read_metrics :: "row \<Rightarrow> exc + metrics" where
  "read_metrics d =
     rbind (rmap (\<lambda>kv. rbind (row_int_or d (fst kv) 0) (\<lambda>i. Inr (nat i))) (metrics_dict zero_metrics)) (\<lambda>ns. Inr
       \<lparr>cells_visited = ns ! 0, edges_traversed = ns ! 1, messages_delivered = ns ! 2, policy_calls = ns ! 3,
        rule_attempts = ns ! 4, verifier_attempts = ns ! 5, policy_rejections = ns ! 6,
        duplicate_messages = ns ! 7, retrieval_requests = ns ! 8, steps = ns ! 9\<rparr>)"

text \<open>The tail of \<open>_restore_checkpoint\<close>: queue, log, counters, ledger and cache.\<close>

definition restore_queues :: "ca_config \<Rightarrow> row \<Rightarrow> ca \<Rightarrow> exc + ca" where
  "restore_queues C d s =
     (let L = lib C in
      rbind (row_strs L d ''delivered_message_ids'') (\<lambda>ids.
      rbind (row_items d ''pending_messages'') (\<lambda>vs.
      rbind (rmap (message_of_item L) vs) (\<lambda>ms.
      rbind (row_strs L d ''ready_queue'') (\<lambda>q.
      (let ready = filter (\<lambda>rid. rule_by_id C rid \<noteq> None) q in Inr
        (s\<lparr>delivered_message_ids := set ids,
           pending_messages := filter (\<lambda>m. ms_context m = cid_of C \<and> message_id m \<notin> set ids) ms,
           ready_queue := ready, queued_rules := set ready\<rparr>)))))))"

definition restore_counters :: "ca_config \<Rightarrow> row \<Rightarrow> ca \<Rightarrow> exc + ca" where
  "restore_counters C d s =
     rbind (row_items d ''event_log'') (\<lambda>evs.
     rbind (row_int_or d ''event_sequence'' 0) (\<lambda>n.
     rbind (row_int_or d ''scheduler_step'' 0) (\<lambda>st.
     rbind (row_dict d ''metrics'') (\<lambda>md.
     rbind (read_metrics md) (\<lambda>m.
     rbind (row_dict d ''resources'') (\<lambda>rd.
     rbind (ledger_from_dict rd) (\<lambda>l.
     rbind (row_dict d ''verification_cache'') (\<lambda>vc. Inr
       (set_pending_counts (s\<lparr>event_log := last_n (max_events C) (mapping_items evs), event_sequence := nat n,
          scheduler_step := nat st, mets := m, resources := l,
          verification_cache := concat (map (\<lambda>kv. case snd kv of PDict r \<Rightarrow> [(fst kv, r)] | _ \<Rightarrow> []) vc)\<rparr>))))))))))"

definition restore_checkpoint :: "ca_config \<Rightarrow> row \<Rightarrow> ca \<Rightarrow> exc + ca" where
  "restore_checkpoint C d s0 =
     (let L = lib C in
      rbind (row_dict d ''cells'') (\<lambda>cs.
      rbind (fold_records (read_cell L) restore_cell (known_cells s0 cs) s0) (\<lambda>s.
      rbind (row_items d ''evidence'') (\<lambda>evs.
      rbind (fold_records (read_evidence L) (restore_evidence C) (take (max_evidence C) evs) s) (\<lambda>s.
      rbind (row_items d ''historical_evidence'') (\<lambda>hist.
      rbind (fold_records (read_evidence L) restore_historical hist s) (\<lambda>s.
      rbind (restore_assumptions C (s\<lparr>fact_evidence := [], accepted_facts := {}\<rparr>)) (\<lambda>s.
      rbind (restore_loop C s) (\<lambda>s.
      rbind (rfold (restore_fact_cell C) (atoms C) s) (\<lambda>s.
      rbind (restore_queues C d s) (restore_counters C d)))))))))))"

section \<open>\<open>from_checkpoint\<close>\<close>

definition read_arity :: "string \<times> pyval \<Rightarrow> exc + string \<times> int" where
  "read_arity kv =
     rbind (ensure (is_ident (fst kv)) (ValidationError ''malformed_predicate_table'')) (\<lambda>_.
     rbind (py_int (snd kv)) (\<lambda>i.
     rbind (ensure (0 \<le> i) (ValidationError ''malformed_predicate_table'')) (\<lambda>_. Inr (fst kv, i))))"

definition keyed_atoms :: "pylib \<Rightarrow> atom list \<Rightarrow> row \<Rightarrow> string \<Rightarrow> exc + atom list" where
  "keyed_atoms L as d k =
     rbind (row_strs L d k) (rmap (\<lambda>key. case find (\<lambda>a. atom_key a = key) as of None \<Rightarrow> Inl KeyErr | Some a \<Rightarrow> Inr a))"

text \<open>\<open>random.Random(seed)\<close> takes numbers and texts.\<close>

definition seed_ok :: "pyval \<Rightarrow> exc + unit" where
  "seed_ok v = (case v of PNone \<Rightarrow> Inr () | PBool _ \<Rightarrow> Inr () | PInt _ \<Rightarrow> Inr () | PFloat _ \<Rightarrow> Inr () | PStr _ \<Rightarrow> Inr ()
     | _ \<Rightarrow> Inl TypeErr)"

definition checkpoint_config :: "pylib \<Rightarrow> bool \<Rightarrow> row \<Rightarrow> exc + ca_config \<times> pyval" where
  "checkpoint_config L ver d =
     rbind (ensure (row_str L d ''schema'' = schema_id) (ValidationError ''checkpoint_schema_mismatch'')) (\<lambda>_.
     rbind (row_items d ''atoms'') (\<lambda>avs.
     rbind (rmap (atom_of_item L) avs) (\<lambda>as.
     rbind (row_items d ''rules'') (\<lambda>rvs.
     rbind (rmap (\<lambda>v. rbind (as_mapping v) (rule_from_dict L)) rvs) (\<lambda>rs.
     rbind (keyed_atoms L as d ''assumptions'') (\<lambda>asm.
     rbind (keyed_atoms L as d ''targets'') (\<lambda>tgts.
     rbind (row_dict d ''predicates'') (\<lambda>preds.
     rbind (row_dict d ''context'') (\<lambda>cd.
     rbind (context_from_dict L cd) (\<lambda>ctx.
     rbind (row_dict d ''resources'') (\<lambda>rd.
     rbind (row_int_or d ''neighbor_limit'' 8) (\<lambda>nl.
     rbind (row_int_or d ''max_events'' 256) (\<lambda>me.
     rbind (row_int_or d ''max_evidence'' 1024) (\<lambda>mv.
     rbind (validate_universe as rs []) (\<lambda>_.
     rbind (rmap read_arity preds) (\<lambda>table.
     rbind (mk_config L as rs asm tgts table (Some ctx) (nat nl) (nat me) (nat mv) ver
        (row_get d ''schedule_seed'' \<noteq> PNone)) (\<lambda>C.
     rbind (seed_ok (row_get d ''schedule_seed'')) (\<lambda>_. Inr (C, row_get rd ''operation_limit'')))))))))))))))))))"

definition from_checkpoint :: "pylib \<Rightarrow> bool \<Rightarrow> row \<Rightarrow> exc + ca_config \<times> ca" where
  "from_checkpoint L ver d =
     rbind (checkpoint_config L ver d) (\<lambda>(C, limit_value).
     rbind (optional_int limit_value) (\<lambda>lmt.
     rbind (mk_ledger lmt 0 []) (\<lambda>l.
     rbind (restore_checkpoint C d (set_pending_counts (build_graph C (empty_ca l)))) (\<lambda>s. Inr (C, s)))))"

section \<open>New epochs, replay and caller proposals\<close>

definition new_epoch :: "ca_config \<Rightarrow> context_identity \<Rightarrow> atom list option \<Rightarrow> atom list option \<Rightarrow> ca \<Rightarrow> exc + ca_config \<times> ca" where
  "new_epoch C ctx asm tgts s =
     rbind (mk_config (lib C) (atoms C) (rules C) (case asm of None \<Rightarrow> assumptions C | Some xs \<Rightarrow> xs)
        (case tgts of None \<Rightarrow> targets C | Some xs \<Rightarrow> xs) (predicate_table C) (Some ctx) (neighbor_limit C)
        (max_events C) (max_evidence C) (has_verifier C) (has_rng C)) (\<lambda>C'.
     rbind (init_ca C' (remaining (resources s))) (\<lambda>child. Inr (C', record_event C' ''new_epoch''
        [(''previous_context_id'', PStr (cid_of C)), (''historical_evidence'', PInt (int (length (evidence_store s))))]
        (child\<lparr>historical_evidence := fold (\<lambda>(k, e) h. dict_set k e h) (evidence_store s) (historical_evidence child)\<rparr>))))"

definition deliver_mapping :: "ca_config \<Rightarrow> pyval \<Rightarrow> ca \<Rightarrow> row act" where
  "deliver_mapping C v s = pbind (lift_res (message_of_item (lib C) v) s) (deliver_message C)"

definition logged_ids :: "ca_config \<Rightarrow> ca \<Rightarrow> string list" where
  "logged_ids C s = map (\<lambda>r. row_str (lib C) r ''event_id'') (event_log s)"

text \<open>One event of \<open>replay\<close>; the counters are the duplicates and the acceptance events seen.\<close>

definition replay_event :: "ca_config \<Rightarrow> row \<Rightarrow> nat \<times> nat \<Rightarrow> ca \<Rightarrow> (nat \<times> nat) act" where
  "replay_event C ev ns s =
     (let L = lib C; dup = fst ns; seen = snd ns; eid = row_str L ev ''event_id'' in
      if eid = [] then (Inr ns, s)
      else if eid \<in> set (logged_ids C s) then (Inr (Suc dup, seen), s)
      else if row_str L ev ''context_id'' \<noteq> cid_of C then (Inr ns, s)
      else if row_str L ev ''type'' = ''message_delivered'' then
        (case row_get ev ''payload'' of
           PDict d \<Rightarrow> pbind (deliver_mapping C (PDict d) s) (\<lambda>res s.
             (Inr (if truthy (row_get res ''duplicate'') then Suc dup else dup, seen), s))
         | PBadKeys d e \<Rightarrow> pbind (deliver_mapping C (PBadKeys d e) s) (\<lambda>res s.
             (Inr (if truthy (row_get res ''duplicate'') then Suc dup else dup, seen), s))
         | _ \<Rightarrow> (Inr ns, s))
      else if row_str L ev ''type'' = ''fact_accepted'' then (Inr (dup, Suc seen), s)
      else (Inr ns, s))"

primrec replay_loop :: "ca_config \<Rightarrow> row list \<Rightarrow> nat \<times> nat \<Rightarrow> ca \<Rightarrow> (nat \<times> nat) act" where
  "replay_loop C [] ns s = (Inr ns, s)"
| "replay_loop C (ev # evs) ns s = pbind (replay_event C ev ns s) (replay_loop C evs)"

definition replay :: "ca_config \<Rightarrow> row list option \<Rightarrow> ca \<Rightarrow> row act" where
  "replay C events s =
     (let rows = (case events of None \<Rightarrow> event_log s | Some evs \<Rightarrow> evs) in
      pbind (replay_loop C rows (0, 0) s) (\<lambda>ns s.
        (Inr [(''replayed'', PInt (int (length rows) - int (fst ns))), (''duplicates'', PInt (int (fst ns))),
              (''accepted_fact_events_seen'', PInt (int (snd ns)))], s)))"

definition make_rule_proposal :: "ca_config \<Rightarrow> string \<Rightarrow> ca \<Rightarrow> proposal act" where
  "make_rule_proposal C rid s =
     (case rule_by_id C rid of
        None \<Rightarrow> (Inl (ValidationError ''unknown_rule''), s)
      | Some r \<Rightarrow>
          if \<not> rule_enabled s r then (Inl (ValidationError ''rule_not_enabled''), s)
          else pbind (take_snapshot C r s) (\<lambda>sn s. lift_res (fallback_proposal C s sn r) s))"

definition caller_answer :: "pylib \<Rightarrow> exc + policy_answer" where
  "caller_answer L = mk_policy_answer L (action_value REQUEST_EXTERNAL_VERIFICATION) [] PNone [] ''caller'' False []"

definition make_external_proposal :: "ca_config \<Rightarrow> string \<Rightarrow> string \<Rightarrow> ca \<Rightarrow> proposal act" where
  "make_external_proposal C tgt tcell s =
     (let key = (if tgt \<noteq> [] then tgt else ctx_target (ca_context C));
          cid = (if tcell \<noteq> [] then tcell else fact_cell_id key) in
      if atom_by_key C key = None then (Inl (ValidationError ''external_target_undeclared''), s)
      else if cid \<noteq> fact_cell_id key then (Inl (ValidationError ''external_target_cell_mismatch''), s)
      else pbind (lift_res (get_cell s cid) s) (\<lambda>_ s.
        pbind (lift_res (caller_answer (lib C)) s) (\<lambda>ans s.
        lift_res (make_proposal (lib C) (cid_of C) cid REQUEST_EXTERNAL_VERIFICATION [(''target'', PStr key)]
          (external_fingerprint C s key) (Some ans) []) s)))"

text \<open>\<open>run_reasoning\<close>: build a runtime and run it.\<close>

definition run_reasoning :: "ca_config \<Rightarrow> int option \<Rightarrow> nat \<Rightarrow> nat option \<Rightarrow> (nat \<Rightarrow> step_input) \<Rightarrow> nat \<Rightarrow> exc + run_status act option" where
  "run_reasoning C budget fp max_steps inp fuel =
     rbind (init_ca C budget) (\<lambda>s. Inr (ca_run C fp max_steps inp fuel 0 s))"

end
