(* ===== verification/CA_Bounds.thy ===== *)
theory CA_Bounds
  imports CA_Reach
begin

text \<open>
  The resources of a runtime stay bounded: the ready queue holds declared rules without
  repetition and agrees with the set \<open>queued_rules\<close>, the event log and the evidence store respect
  their limits, and the ledger never spends more than its limit.
\<close>

definition bounds_ok :: "ca_config \<Rightarrow> ca \<Rightarrow> bool" where
  "bounds_ok C s \<longleftrightarrow> queued_rules s = set (ready_queue s) \<and> distinct (ready_queue s)
     \<and> set (ready_queue s) \<subseteq> rule_id ` set (rules C) \<and> length (event_log s) \<le> max_events C
     \<and> length (evidence_store s) \<le> max_evidence C \<and> ledger_ok (resources s)"

text \<open>A change that keeps the bounds and the operation limit.\<close>

definition bd :: "ca_config \<Rightarrow> ca \<Rightarrow> ca \<Rightarrow> bool" where
  "bd C s t \<longleftrightarrow> operation_limit (resources t) = operation_limit (resources s) \<and> (bounds_ok C s \<longrightarrow> bounds_ok C t)"

lemma bd_refl [simp, intro]: "bd C s s"
  by (simp add: bd_def)

lemma bd_trans: "bd C s t \<Longrightarrow> bd C t u \<Longrightarrow> bd C s u"
  by (simp add: bd_def)

definition same_bounds :: "ca \<Rightarrow> ca \<Rightarrow> bool" where
  "same_bounds s t \<longleftrightarrow> ready_queue t = ready_queue s \<and> queued_rules t = queued_rules s \<and> event_log t = event_log s
     \<and> evidence_store t = evidence_store s \<and> resources t = resources s"

lemma bd_same: "bd C s t \<Longrightarrow> same_bounds t u \<Longrightarrow> bd C s u"
  by (simp add: bd_def same_bounds_def bounds_ok_def)

lemma bd_event: "bd C s t \<Longrightarrow> bd C s (record_event C k pl t)"
  by (simp add: bd_def bounds_ok_def record_event_def Let_def)

lemma bd_enqueue: "bd C s t \<Longrightarrow> bd C s (enqueue_rule C rid why t)"
proof (rule bd_trans)
  show "bd C t (enqueue_rule C rid why t)"
    using rule_by_id_None [of C rid] unfolding enqueue_rule_def
    by (auto intro!: bd_event) (auto simp: bd_def bounds_ok_def)
qed

text \<open>Introduction rules: peel events and queue operations, then updates of other fields.\<close>

lemma bd_put_cell: "bd C s t \<Longrightarrow> bd C s (put_cell c t)"
  by (rule bd_same) (simp_all add: same_bounds_def)

lemma bd_pending: "bd C s t \<Longrightarrow> bd C s (set_pending_counts t)"
  by (rule bd_same) (simp_all add: same_bounds_def)

lemma bd_updates:
  "bd C s t \<Longrightarrow> bd C s (t\<lparr>mets := m\<rparr>)" "bd C s t \<Longrightarrow> bd C s (t\<lparr>accepted_facts := a\<rparr>)"
  "bd C s t \<Longrightarrow> bd C s (t\<lparr>runtime_error := e\<rparr>)" "bd C s t \<Longrightarrow> bd C s (t\<lparr>verification_cache := v\<rparr>)"
  "bd C s t \<Longrightarrow> bd C s (t\<lparr>applied_proposals := x, idempotency_keys := y\<rparr>)"
  "bd C s t \<Longrightarrow> bd C s (t\<lparr>mets := m, policy_retrievals := z\<rparr>)" "bd C s t \<Longrightarrow> bd C s (t\<lparr>pending_messages := ms\<rparr>)"
  "bd C s t \<Longrightarrow> bd C s (t\<lparr>delivered_message_ids := d\<rparr>)"
  by (simp_all add: bd_def bounds_ok_def)

lemmas bd_intros = bd_event bd_enqueue bd_put_cell bd_pending bd_updates bd_refl

lemma bd_attach: "bd C s (attach_evidence k eid s)"
  by (simp add: bd_def bounds_ok_def)

lemma bd_notify: "bd C s t \<Longrightarrow> bd C s (fold (notify_rule C k src eid) rids t)"
proof (induction rids arbitrary: t)
  case (Cons r rids)
  have "bd C s (notify_rule C k src eid r t)"
    unfolding notify_rule_def Let_def by (rule bd_event, rule bd_updates, rule Cons.prems)
  then show ?case using Cons.IH by simp
qed simp

lemma accept_fact_bd: "accept_fact C e s = (r, t) \<Longrightarrow> bd C s t"
  by (auto simp: accept_fact_def Let_def elim!: pbind_lift_cases split: if_splits intro!: bd_intros bd_notify bd_attach)

lemma store_evidence_bd:
  assumes st: "store_evidence C e s = (r, t)" and pos: "0 < max_evidence C"
  shows "bd C s t"
proof -
  have pop: "length (dict_pop (fst kv) (evidence_store s)) < length (evidence_store s)"
    if "find P (evidence_store s) = Some kv" for P kv
    using find_SomeD [OF that] by (auto simp: dict_pop_def AList.delete_eq intro!: length_filter_less)
  have new: "length (dict_set k e d) \<le> Suc (length d)" for k d
    by (simp add: length_dict_set)
  have "bd C s (s\<lparr>evidence_store := dict_set (evidence_id e) e (evidence_store s)\<rparr>)" if "\<not> max_evidence C \<le> length (evidence_store s)"
    using that new [of "evidence_id e" "evidence_store s"] by (simp add: bd_def bounds_ok_def)
  moreover have "bd C s (s\<lparr>evidence_store := dict_set (evidence_id e) e (dict_pop (fst kv) (evidence_store s))\<rparr>)"
    if "find P (evidence_store s) = Some kv" for P kv
    using pop [OF that] new [of "evidence_id e" "dict_pop (fst kv) (evidence_store s)"] by (simp add: bd_def bounds_ok_def)
  ultimately show ?thesis using st
    by (auto simp: store_evidence_def split: if_splits option.splits intro!: bd_event)
qed


section \<open>Every operation keeps the bounds\<close>

lemma admit_evidence_bd: "admit_evidence C e b s = (r, t) \<Longrightarrow> 0 < max_evidence C \<Longrightarrow> bd C s t"
  by (auto simp: admit_evidence_def split: if_splits elim!: pbind_cases pbind_lift_cases
      dest!: store_evidence_bd accept_fact_bd intro: bd_trans)

lemma deliver_message_bd: "deliver_message C m s = (r, t) \<Longrightarrow> bd C s t"
  by (auto simp: deliver_message_def Let_def elim!: pbind_lift_cases split: if_splits
      intro!: bd_pending bd_event bd_enqueue bd_updates)

lemma deliver_loop_bd: "deliver_loop C rv n cnt s = (r, t) \<Longrightarrow> bd C s t"
proof (induction n arbitrary: rv cnt s)
  case (Suc n)
  have step: "bd C s t" if "deliver_message C m (s\<lparr>pending_messages := q\<rparr>) = (x, u)" "bd C u t" for m q x u
    using bd_trans [OF bd_trans [OF bd_updates(7) [OF bd_refl] deliver_message_bd [OF that(1)]] that(2)] .
  show ?case
    using Suc.prems by (auto split: list.splits if_splits elim!: pbind_cases intro: step Suc.IH)
qed simp

lemma deliver_pending_bd: "deliver_pending C limit rv s = (r, t) \<Longrightarrow> bd C s t"
  by (auto simp: deliver_pending_def elim!: pbind_cases intro: bd_pending deliver_loop_bd)

lemma apply_rule_bd: "apply_rule_proposal C p s = (r, t) \<Longrightarrow> 0 < max_evidence C \<Longrightarrow> bd C s t"
  by (auto simp: apply_rule_proposal_def Let_def elim!: pbind_lift_cases
      split: if_splits option.splits prod.splits sum.splits dest!: admit_evidence_bd intro: bd_updates)

lemma apply_dependency_bd: "apply_dependency_request C p s = (r, t) \<Longrightarrow> bd C s t"
  by (auto simp: apply_dependency_request_def Let_def split: if_splits option.splits intro!: bd_event bd_updates)

lemma admit_receipt_bd:
  assumes "admit_receipt C tgt a rc s = (r, t)" and "0 < max_evidence C"
  shows "bd C s t"
proof -
  have upd: "bd C s u'" if "bd C s u" "same_bounds u u'" for u u' using that by (rule bd_same)
  show ?thesis using assms
    by (auto simp: admit_receipt_def Let_def split: if_splits prod.splits sum.splits
        dest!: admit_evidence_bd elim!: upd simp: same_bounds_def)
qed

lemma query_verifier_bd: "query_verifier C vres tgt a s = (r, t) \<Longrightarrow> 0 < max_evidence C \<Longrightarrow> bd C s t"
  by (auto simp: query_verifier_def Let_def split: if_splits sum.splits
      dest!: admit_receipt_bd intro!: bd_event bd_updates intro: bd_trans [OF bd_updates(1) [OF bd_refl]])

lemma apply_external_bd:
  assumes "apply_external_request C vres p s = (r, t)" and "0 < max_evidence C"
  shows "bd C s t"
  using assms
  by (auto simp: apply_external_request_def Let_def elim!: pbind_cases split: if_splits option.splits list.splits sum.splits
      intro: query_verifier_bd accept_fact_bd bd_trans [OF bd_updates(4) [OF bd_refl]])

lemma apply_policy_update_bd: "apply_policy_update C p s = (r, t) \<Longrightarrow> bd C s t"
  by (auto simp: apply_policy_update_def elim!: pbind_lift_cases split: sum.splits intro!: bd_put_cell)

lemma dispatch_bd: "dispatch_action C vres p s = (r, t) \<Longrightarrow> 0 < max_evidence C \<Longrightarrow> bd C s t"
  by (auto simp: dispatch_action_def split: action_type.splits
      intro: apply_rule_bd apply_external_bd apply_policy_update_bd apply_dependency_bd)

lemma checked_apply_bd: "checked_apply C vres p s = (r, t) \<Longrightarrow> 0 < max_evidence C \<Longrightarrow> bd C s t"
  by (auto simp: checked_apply_def split: option.splits elim!: pbind_cases
      intro!: bd_event bd_updates(5) dest!: dispatch_bd)

lemma choose_rule_bd: "choose_rule C fifo pick s = (q, t) \<Longrightarrow> bd C s t"
proof (cases "ready_queue s")
  case (Cons a qs)
  assume c: "choose_rule C fifo pick s = (q, t)"
  define i where "i = (if fifo \<or> \<not> has_rng C \<or> qs = [] then 0 else pick mod length (a # qs))"
  have i: "i < length (ready_queue s)" using Cons by (simp add: i_def)
  have t: "t = s\<lparr>ready_queue := remove_at i (ready_queue s), queued_rules := queued_rules s - {ready_queue s ! i}\<rparr>"
    using c Cons by (simp add: choose_rule_def Let_def i_def)
  show ?thesis
    unfolding bd_def t using set_remove_at [OF i] distinct_remove_at [OF i] by (auto simp: bounds_ok_def)
qed (simp add: choose_rule_def)

text \<open>The bounds of a validated configuration: the store holds at least one record.\<close>

definition bdc :: "ca_config \<Rightarrow> ca \<Rightarrow> ca \<Rightarrow> bool" where
  "bdc C s t \<longleftrightarrow> (0 < max_evidence C \<longrightarrow> bd C s t)"

lemma reserve_limit: "reserve l key n = Inr (l', r) \<Longrightarrow> operation_limit l' = operation_limit l"
  by (erule reserve_cases) simp_all

interpretation bdd: step_relation C "bdc C" for C
proof
  fix s t u :: ca and m :: metrics
  show "bdc C s t \<Longrightarrow> bdc C t u \<Longrightarrow> bdc C s u" by (auto simp: bdc_def intro: bd_trans)
  show "bdc C s (s\<lparr>scheduler_step := Suc (scheduler_step s), mets := m\<rparr>)"
    by (simp add: bdc_def bd_def bounds_ok_def)
  show "bdc C s (s\<lparr>resources := fst lr\<rparr>)" if "reserve (resources s) rid 1 = Inr lr" for rid lr
    using reserve_ledger_ok [of "resources s" rid 1 "fst lr" "snd lr"] reserve_limit [of "resources s" rid 1 "fst lr" "snd lr"] that
    by (simp add: bdc_def bd_def bounds_ok_def)
  show "bdc C s (snd (record_observation C k a s))" for k a
    by (cases "get_cell s k") (auto simp: bdc_def record_observation_def lift_res_def intro!: bd_event bd_put_cell)
  show "bdc C s (snd (checked_apply C v p s))" for v p
    by (metis bdc_def checked_apply_bd prod.collapse)
  show "bdc C s (snd (deliver_pending C limit rv s))" for limit rv
    by (metis bdc_def deliver_pending_bd prod.collapse)
  show "bdc C s (snd (choose_rule C fifo pick s))" for fifo pick
    by (metis bdc_def choose_rule_bd prod.collapse)
qed (simp_all add: bdc_def bd_enqueue bd_event bd_updates invalid_policy_result_def)


section \<open>Reachable states\<close>

lemma same_bounds_build: "same_bounds s (build_graph C s)"
proof -
  have tr: "same_bounds s u" if "same_bounds s t" "same_bounds t u" for s t u
    using that by (simp add: same_bounds_def)
  have e: "same_bounds t (add_edge C a b k rid ix t)" for t a b k rid ix
    by (simp add: same_bounds_def add_edge_def Let_def)
  have p: "same_bounds t (add_premise C r ip t)" for t r ip
    unfolding add_premise_def by (rule tr [OF _ e]) (simp add: same_bounds_def)
  have ps: "same_bounds u t \<Longrightarrow> same_bounds u (fold (add_premise C r) ips t)" for u t r ips
    by (rule fold_invariant [where P = "same_bounds u"]) (auto intro: tr p)
  have r: "same_bounds t (add_rule_cell C r t)" for t r
    unfolding add_rule_cell_def Let_def by (rule tr [OF _ e], rule ps) (simp add: same_bounds_def)
  have f: "same_bounds t (add_fact_cell C a t)" for t a
    by (simp add: same_bounds_def add_fact_cell_def Let_def)
  have "same_bounds s (fold (add_rule_cell C) (rules C) (fold (add_fact_cell C) (atoms C) s))"
    by (rule fold_invariant [where P = "same_bounds s"], rule fold_invariant [where P = "same_bounds s"])
      (auto intro: tr r f simp: same_bounds_def [of s s])
  then show ?thesis by (simp add: same_bounds_def build_graph_def Let_def)
qed

lemma seed_rules_bd: "bd C s (seed_rules C s)"
  unfolding seed_rules_def by (rule fold_invariant [where P = "bd C s"]) (auto intro: bd_enqueue)

lemma admit_assumptions_bd: "admit_assumptions C as s = (r, t) \<Longrightarrow> 0 < max_evidence C \<Longrightarrow> bd C s t"
proof (induction as arbitrary: s)
  case (Cons a as)
  then show ?case
    by (auto elim!: pbind_cases simp: admit_assumption_def intro: bd_trans [OF admit_evidence_bd] admit_evidence_bd)
qed simp

lemma init_ca_bounds:
  assumes "init_ca C budget = Inr s" and pos: "0 < max_evidence C"
  shows "bounds_ok C s \<and> operation_limit (resources s) = budget"
  using assms(1)
proof (rule init_ca_cases)
  fix l t u q d
  assume *: "mk_ledger budget 0 [] = Inr l" "admit_assumptions C (assumptions C) (build_graph C (empty_ca l)) = (Inr q, t)"
    "deliver_pending C None False t = (Inr d, u)" "s = seed_rules C u"
  have "bounds_ok C (empty_ca l)" "operation_limit (resources (empty_ca l)) = budget"
    using mk_ledger_ok [OF *(1)] *(1) by (auto simp: bounds_ok_def empty_ca_def mk_ledger_def split: if_splits)
  then have "bounds_ok C (build_graph C (empty_ca l))" "operation_limit (resources (build_graph C (empty_ca l))) = budget"
    using same_bounds_build [of "empty_ca l" C] by (simp_all add: same_bounds_def bounds_ok_def)
  then show "bounds_ok C s \<and> operation_limit (resources s) = budget"
    using admit_assumptions_bd [OF *(2) pos] deliver_pending_bd [OF *(3)] seed_rules_bd [of C u] *(4)
    by (simp add: bd_def)
qed

lemma deliver_message_bdc: "bdc C s (snd (deliver_message C m s))"
  by (metis bdc_def deliver_message_bd prod.collapse)

lemma moves_bd: "moves C s t \<Longrightarrow> 0 < max_evidence C \<Longrightarrow> bd C s t"
  using bdd.rel_moves [OF _ deliver_message_bdc] unfolding bdc_def by blast

lemma reach_bounds: "reach C s \<Longrightarrow> 0 < max_evidence C \<Longrightarrow> bounds_ok C s"
  using init_ca_bounds moves_bd unfolding reach_def bd_def by blast

section \<open>Properties\<close>

text \<open>C4: in every reachable state of a validated system the ready queue has no duplicates, holds
  only declared rules and agrees with \<open>queued_rules\<close>; the event log and the evidence store stay
  within their limits; and the ledger has not spent more than its operation limit.\<close>

theorem reachable_state_bounded:
  assumes "mk_config L as rs asm tgts table ctxo nl me mv ver rng = Inr C" and "reach C s"
  shows "distinct (ready_queue s) \<and> queued_rules s = set (ready_queue s) \<and> set (ready_queue s) \<subseteq> rule_id ` set (rules C)
    \<and> length (event_log s) \<le> max_events C \<and> length (evidence_store s) \<le> max_evidence C
    \<and> (\<forall>n. operation_limit (resources s) = Some n \<longrightarrow> consumed (resources s) \<le> n)"
proof -
  have "0 < max_evidence C" using assms(1) by (auto simp: mk_config_def res_simps)
  with reach_bounds [OF assms(2)] show ?thesis
    by (auto simp: bounds_ok_def ledger_ok_def split: option.splits)
qed

theorem reachable_state_bounded_witness:
  "\<exists>s. reach demo_config s \<and> ready_queue s = [''r1''] \<and> queued_rules s = {''r1''} \<and> length (evidence_store s) \<le> 1024"
proof -
  obtain s where "reach demo_config s" "ready_queue s = [''r1'']" using demo_reach by blast
  with reachable_state_bounded [OF demo_mk_config, of s] show ?thesis by auto
qed

end
