(* ===== verification/CA_Recovery.thy ===== *)
theory CA_Recovery
  imports CA_Restore CA_Bounds
begin

text \<open>
  What survives a checkpoint, a new epoch and a replay. The accepted facts of a restored runtime
  are derivable although nothing in the checkpoint is trusted; an evidence record is read back only
  with the digest of its own content; a new epoch spends what the old one left; a replay moves no
  fact.
\<close>

section \<open>Loops over records\<close>

lemma fold_records_inv:
  assumes "fold_records read use xs s = Inr t" and "P s"
    and "\<And>x y u. x \<in> set xs \<Longrightarrow> read x = Inr y \<Longrightarrow> P u \<Longrightarrow> P (use y u)"
  shows "P t"
  using assms
proof (induction xs arbitrary: s)
  case (Cons x xs)
  show ?case
  proof (cases "read x")
    case (Inl e)
    with Cons.prems have "fold_records read use xs s = Inr t" by (auto split: if_splits)
    from Cons.IH [OF this Cons.prems(2)] Cons.prems(3) show ?thesis by auto
  next
    case (Inr y)
    have "P (use y s)" using Cons.prems(3) [OF _ Inr Cons.prems(2)] by simp
    with Inr Cons.prems show ?thesis by (intro Cons.IH [of "use y s"]) auto
  qed
qed simp

lemma rfold_inv:
  assumes "rfold f xs s = Inr t" and "P s" and "\<And>x u v. x \<in> set xs \<Longrightarrow> f x u = Inr v \<Longrightarrow> P u \<Longrightarrow> P v"
  shows "P t"
  using assms
proof (induction xs arbitrary: s)
  case (Cons x xs)
  then obtain u where u: "f x s = Inr u" "rfold f xs u = Inr t" by (auto simp: rbind_Inr_iff)
  with Cons.prems have "P u" by auto
  with u(2) Cons.prems(3) show ?case by (intro Cons.IH [of u]) auto
qed simp

section \<open>Restored facts are derivable\<close>

text \<open>The evidence store a restore builds: keyed by identity, of this context.\<close>

definition store_ok :: "ca_config \<Rightarrow> ca \<Rightarrow> bool" where
  "store_ok C s \<longleftrightarrow> distinct (map fst (evidence_store s))
     \<and> (\<forall>(eid, e) \<in> set (evidence_store s). evidence_id e = eid \<and> ev_context e = cid_of C)"

lemma store_ok_cong: "evidence_store t = evidence_store s \<Longrightarrow> store_ok C s \<Longrightarrow> store_ok C t"
  by (simp add: store_ok_def)

lemma store_ok_restore: "store_ok C s \<Longrightarrow> store_ok C (restore_evidence C e s)"
  using set_dict_set_subset [of "evidence_id e" e "evidence_store s"]
  by (auto simp: store_ok_def restore_evidence_def distinct_dict_set)

lemma cleared_sound:
  assumes "store_ok C s"
  shows "sound C (s\<lparr>fact_evidence := [], accepted_facts := {}\<rparr>)"
  using assms by (auto simp: sound_def store_ok_def fact_refs_def)

text \<open>A loop over stored evidence keeps the state sound and the store as it is.\<close>

definition recovers :: "ca_config \<Rightarrow> (string \<times> evidence) list \<Rightarrow> ca \<Rightarrow> bool" where
  "recovers C es s \<longleftrightarrow> sound C s \<and> evidence_store s = es"

lemma stored_lookup:
  assumes "recovers C es s" "e \<in> snd ` set es"
  shows "map_of (evidence_store s) (evidence_id e) = Some e"
proof -
  from assms(2) obtain eid where m: "(eid, e) \<in> set es" by auto
  moreover have "distinct (map fst es)" "evidence_id e = eid"
    using assms(1) m by (auto simp: recovers_def sound_def)
  ultimately show ?thesis using assms(1) by (simp add: recovers_def)
qed

lemma accept_restored_recovers:
  assumes "recovers C es s" "e \<in> snd ` set es" "validate_authoritative C s e = Inr ()"
  shows "recovers C es (accept_restored e s)"
proof -
  have "advances C s (accept_restored e s)"
    using stored_lookup [OF assms(1,2)] assms(3)
    by (intro accept_core_advances) (auto simp: accept_restored_core fact_refs_attach)
  with assms(1) show ?thesis by (simp add: recovers_def advances_def accept_restored_core)
qed

lemma reaccept_recovers: "reaccept C e s = Inr t \<Longrightarrow> e \<in> snd ` set es \<Longrightarrow> recovers C es s \<Longrightarrow> recovers C es t"
  by (auto simp: reaccept_def split: sum.splits if_splits intro: accept_restored_recovers)

lemma fact_refs_append:
  "fact_refs (s\<lparr>fact_evidence := dict_append k x (fact_evidence s), accepted_facts := a\<rparr>) j =
     (if j = k then fact_refs s k @ [x] else fact_refs s j)"
  by (auto simp: fact_refs_def dict_append_def dict_simps map_add_def split: option.splits)

lemma reaccept_assumption_recovers:
  assumes "reaccept_assumption C e s = Inr t" "e \<in> snd ` set es" "recovers C es s"
  shows "recovers C es t"
proof -
  let ?k = "atom_key (subject e)"
  let ?t = "s\<lparr>fact_evidence := dict_append ?k (evidence_id e) (fact_evidence s), accepted_facts := insert ?k (accepted_facts s)\<rparr>"
  have "recovers C es ?t" if "validate_authoritative C s e = Inr ()"
  proof -
    have "advances C s ?t"
      using stored_lookup [OF assms(3,2)] that by (intro accept_core_advances) (auto simp: fact_refs_append)
    with assms(3) show ?thesis by (simp add: recovers_def advances_def)
  qed
  with assms show ?thesis
    by (auto simp: reaccept_assumption_def Let_def split: sum.splits if_splits)
qed

lemma stored_evidence_recovers: "recovers C es s \<Longrightarrow> set (stored_evidence s) = snd ` set es"
  by (simp add: recovers_def stored_evidence_def)

lemma restore_round_recovers:
  assumes "restore_round C s = Inr t" "recovers C es s"
  shows "recovers C es t"
proof -
  obtain u where u: "rfold (reaccept C) (filter (\<lambda>e. ev_kind e = EK_RULE_DERIVATION) (sort_key evidence_id (stored_evidence s))) s = Inr u"
      "rfold (reaccept C) (filter (\<lambda>e. ev_kind e = EK_EXTERNAL_VERIFICATION \<and> ev_status e = ES_VERIFIED)
         (sort_key evidence_id (stored_evidence s))) u = Inr t"
    using assms(1) by (auto simp: restore_round_def Let_def rbind_Inr_iff)
  have "recovers C es u"
    using stored_evidence_recovers [OF assms(2)]
    by (intro rfold_inv [where P = "recovers C es", OF u(1) assms(2)]) (auto intro: reaccept_recovers)
  then show ?thesis
    using stored_evidence_recovers [OF assms(2)]
    by (intro rfold_inv [where P = "recovers C es", OF u(2)]) (auto intro: reaccept_recovers)
qed

lemma restore_loop_recovers: "restore_loop C s = Inr t \<Longrightarrow> recovers C es s \<Longrightarrow> recovers C es t"
proof (induction C s rule: restore_loop.induct)
  case (1 C s)
  then obtain u where u: "restore_round C s = Inr u"
      "(if accepted_facts u = accepted_facts s then Inr u else restore_loop C u) = Inr t"
    by (auto simp: restore_loop.simps [of C s] rbind_Inr_iff)
  have "recovers C es u" by (rule restore_round_recovers [OF u(1) "1.prems"(2)])
  with u "1.IH" [OF u(1)] show ?case by (auto split: if_splits)
qed

lemma restore_assumptions_recovers:
  assumes "restore_assumptions C s = Inr t" "recovers C es s"
  shows "recovers C es t"
  using stored_evidence_recovers [OF assms(2)]
  by (intro rfold_inv [where P = "recovers C es", OF assms(1) [unfolded restore_assumptions_def] assms(2)])
    (auto intro: reaccept_assumption_recovers)

text \<open>The rest of a restore leaves the accepted facts and their evidence alone.\<close>

lemma restore_fact_cell_core: "restore_fact_cell C a s = Inr t \<Longrightarrow> same_core s t"
  by (auto simp: restore_fact_cell_def Let_def rbind_Inr_iff same_core_def)

lemma restore_fact_cells_core: "rfold (restore_fact_cell C) as s = Inr t \<Longrightarrow> same_core s t"
  by (rule rfold_inv [where P = "same_core s"]) (auto intro: same_core_trans restore_fact_cell_core)

lemma restore_queues_core: "restore_queues C d s = Inr t \<Longrightarrow> same_core s t"
  by (auto simp: restore_queues_def Let_def rbind_Inr_iff same_core_def)

lemma restore_counters_core: "restore_counters C d s = Inr t \<Longrightarrow> same_core s t"
  by (auto simp: restore_counters_def rbind_Inr_iff same_core_def)

lemma restore_checkpoint_sound:
  assumes "restore_checkpoint C d s0 = Inr t" and "store_ok C s0"
  shows "sound C t"
proof -
  obtain cs s1 evs s2 hist s3 s4 s5 s6 s7 where
    s1: "fold_records (read_cell (lib C)) restore_cell (known_cells s0 cs) s0 = Inr s1" and
    s2: "fold_records (read_evidence (lib C)) (restore_evidence C) (take (max_evidence C) evs) s1 = Inr s2" and
    s3: "fold_records (read_evidence (lib C)) restore_historical hist s2 = Inr s3" and
    s4: "restore_assumptions C (s3\<lparr>fact_evidence := [], accepted_facts := {}\<rparr>) = Inr s4" and
    s5: "restore_loop C s4 = Inr s5" and s6: "rfold (restore_fact_cell C) (atoms C) s5 = Inr s6" and
    s7: "restore_queues C d s6 = Inr s7" and s8: "restore_counters C d s7 = Inr t"
    using assms(1) unfolding restore_checkpoint_def Let_def by (auto simp: rbind_Inr_iff)
  have "store_ok C s1"
    by (rule fold_records_inv [where P = "store_ok C", OF s1 assms(2)]) (auto simp: restore_cell_def store_ok_def split: option.splits)
  then have "store_ok C s2" by (rule fold_records_inv [where P = "store_ok C", OF s2]) (rule store_ok_restore)
  then have "store_ok C s3" by (rule fold_records_inv [where P = "store_ok C", OF s3]) (simp add: restore_historical_def store_ok_def)
  then have "recovers C (evidence_store s3) (s3\<lparr>fact_evidence := [], accepted_facts := {}\<rparr>)"
    using cleared_sound by (simp add: recovers_def)
  then have "sound C s5"
    using restore_loop_recovers [OF s5 restore_assumptions_recovers [OF s4]] by (simp add: recovers_def)
  then show "sound C t"
    using sound_cong [OF restore_fact_cells_core [OF s6]] sound_cong [OF restore_queues_core [OF s7]]
      sound_cong [OF restore_counters_core [OF s8]] by blast
qed

lemma from_checkpoint_sound: "from_checkpoint L ver d = Inr (C, s) \<Longrightarrow> sound C s"
proof -
  assume "from_checkpoint L ver d = Inr (C, s)"
  then obtain l where r: "restore_checkpoint C d (set_pending_counts (build_graph C (empty_ca l))) = Inr s"
    by (auto simp: from_checkpoint_def rbind_Inr_iff split: prod.splits)
  have "evidence_store (build_graph C (empty_ca l)) = []"
    using same_bounds_build [of "empty_ca l" C] by (simp add: same_bounds_def empty_ca_def)
  with restore_checkpoint_sound [OF r] show ?thesis by (simp add: store_ok_def)
qed

section \<open>Evidence records\<close>

text \<open>A record the program can have written: the constructor accepts its atom and its details, and
  its identity is the digest of its content.\<close>

definition genuine :: "pylib \<Rightarrow> evidence \<Rightarrow> bool" where
  "genuine L e \<longleftrightarrow> mk_atom (predicate (subject e)) (atom_args (subject e)) = Inr (subject e)
     \<and> ev_context e \<noteq> [] \<and> pairs_of (ev_details e) = Inr (ev_details e)
     \<and> evidence_id e = digest L (evidence_body (ev_kind e) (ev_status e) (subject e) (ev_context e) (ev_rule e)
          (premise_atoms e) (supporting_evidence e) (ev_source e) (ev_details e))"

definition evidence_row :: "evidence \<Rightarrow> row" where
  "evidence_row e = (case evidence_dict e of PDict d \<Rightarrow> d | _ \<Rightarrow> [])"

lemma rmap_Inr_set: "(\<exists>ys. rmap f xs = Inr ys) \<longleftrightarrow> (\<forall>x \<in> set xs. \<exists>y. f x = Inr y)"
  by (induction xs) (auto simp: rbind_Inr_iff)

lemma pairs_of_Inr: "pairs_of d = Inr p \<longleftrightarrow> (\<forall>kv \<in> set d. \<exists>w. strict_value (snd kv) = Inr w) \<and> p = sort_key fst d"
  using rmap_Inr_set [of "\<lambda>kv. rbind (strict_value (snd kv)) (\<lambda>w. Inr (fst kv, w))" d]
  by (auto simp: pairs_of_def rbind_Inr_iff)

lemma pairs_of_again: "pairs_of d = Inr p \<Longrightarrow> pairs_of p = Inr p"
  by (simp add: pairs_of_Inr sort_key_id_if_sorted)

lemma evidence_kind_read: "evidence_kind_of (evidence_kind_value k) = Inr k"
  by (cases k) (simp_all add: evidence_kind_of_def)

lemma evidence_status_read: "evidence_status_of (evidence_status_value k) = Inr k"
  by (cases k) (simp_all add: evidence_status_of_def)

lemma mk_atom_fields: "mk_atom p as = Inr a \<Longrightarrow> predicate a = p \<and> atom_args a = as"
  by (auto simp: mk_atom_def split: if_splits)

lemma row_strs_list: "row_strs L d k = Inr xs" if "row_get d k = PList (map PStr xs)"
  using that by (simp add: row_strs_def Let_def comp_def)

lemma row_str_text: "row_get d k = PStr t \<Longrightarrow> row_str L d k = t"
  by (simp add: row_str_def)

lemma atom_from_row: "mk_atom (predicate a) (atom_args a) = Inr a \<Longrightarrow> atom_dict a = PDict d \<Longrightarrow> atom_from_dict L d = Inr a"
  by (auto simp: atom_from_dict_def atom_dict_def row_str_text row_get_def rbind_Inr_iff intro!: exI [of _ "atom_args a"] row_strs_list)

lemma digest_nonempty: "digest L v \<noteq> []"
  by (simp add: digest_def)

lemma genuine_is_read: "genuine L e \<Longrightarrow> evidence_from_dict L (evidence_row e) = Inr e"
proof -
  assume g: "genuine L e"
  note f = evidence_row_def evidence_dict_def row_get_def
  obtain d where d: "atom_dict (subject e) = PDict d" by (simp add: atom_dict_def)
  have a: "atom_from_dict L d = Inr (subject e)" using g d by (intro atom_from_row) (auto simp: genuine_def)
  have s: "row_str L (evidence_row e) ''kind'' = evidence_kind_value (ev_kind e)"
    "row_str L (evidence_row e) ''status'' = evidence_status_value (ev_status e)"
    "row_str L (evidence_row e) ''evidence_id'' = evidence_id e" "row_str L (evidence_row e) ''context_id'' = ev_context e"
    "row_str L (evidence_row e) ''rule_id'' = ev_rule e" "row_str L (evidence_row e) ''source'' = ev_source e"
    by (rule row_str_text, simp add: f)+
  have l: "row_strs L (evidence_row e) ''premise_atoms'' = Inr (premise_atoms e)"
    "row_strs L (evidence_row e) ''supporting_evidence'' = Inr (supporting_evidence e)"
    by (rule row_strs_list, simp add: f)+
  have r: "row_dict (evidence_row e) ''subject'' = Inr d" "row_dict (evidence_row e) ''details'' = Inr (ev_details e)"
    using d by (auto simp: row_dict_def f py_dict_def atom_dict_def)
  have p: "pairs_of (ev_details e) = Inr (ev_details e)" using g by (simp add: genuine_def)
  then have srt: "sort_key fst (ev_details e) = ev_details e" by (simp add: pairs_of_Inr)
  have m: "make_evidence L (ev_kind e) (ev_status e) (subject e) (ev_context e) (ev_rule e) (premise_atoms e)
      (supporting_evidence e) (ev_source e) (ev_details e) = e"
    using g srt by (simp add: make_evidence_def genuine_def)
  have n: "evidence_id e \<noteq> []" "ev_context e \<noteq> []" using g digest_nonempty by (auto simp: genuine_def)
  show ?thesis
    by (simp add: evidence_from_dict_def s l r p a m n evidence_kind_read evidence_status_read ensure_def Let_def)
qed

lemma read_is_genuine: "evidence_from_dict L d = Inr e \<Longrightarrow> genuine L e"
proof -
  assume "evidence_from_dict L d = Inr e"
  then obtain k st sd a ps spt dt det where
    a: "atom_from_dict L sd = Inr a" and p: "pairs_of dt = Inr det" and c: "row_str L d ''context_id'' \<noteq> []" and
    e: "e = make_evidence L k st a (row_str L d ''context_id'') (row_str L d ''rule_id'') ps spt (row_str L d ''source'') det"
    by (auto simp: evidence_from_dict_def rbind_Inr_iff ensure_def Let_def split: if_splits)
  have "sort_key fst det = det" using pairs_of_again [OF p] by (simp add: pairs_of_Inr)
  moreover have "mk_atom (predicate a) (atom_args a) = Inr a"
    using a mk_atom_fields by (auto simp: atom_from_dict_def rbind_Inr_iff)
  ultimately show ?thesis
    using pairs_of_again [OF p] c by (simp add: e genuine_def make_evidence_def)
qed

section \<open>Epochs and replay\<close>

lemma mk_config_fields: "mk_config L as rs asm tgts table (Some ctx) nl me mv ver rng = Inr C \<Longrightarrow>
   atoms C = as \<and> set (rules C) = set rs \<and> ca_context C = ctx \<and> 0 < max_evidence C"
  by (auto simp: mk_config_def res_simps validate_rules_def)

lemma history_kept: "map_of (fold (\<lambda>(k, e) h. dict_set k e h) d h) k = (case map_of (rev d) k of None \<Rightarrow> map_of h k | Some e \<Rightarrow> Some e)"
  by (induction d arbitrary: h) (auto simp: dict_simps map_add_def split: option.splits)

lemma new_epoch_cases:
  assumes "new_epoch C ctx asm tgts s = Inr (C', t)"
  obtains child where "init_ca C' (remaining (resources s)) = Inr child" "same_core child t" "bd C' child t"
    "atoms C' = atoms C" "set (rules C') = set (rules C)" "ca_context C' = ctx" "0 < max_evidence C'"
    "historical_evidence t = fold (\<lambda>(k, e) h. dict_set k e h) (evidence_store s) (historical_evidence child)"
proof -
  obtain child where c: "init_ca C' (remaining (resources s)) = Inr child"
    "mk_config (lib C) (atoms C) (rules C) (case asm of None \<Rightarrow> assumptions C | Some xs \<Rightarrow> xs)
        (case tgts of None \<Rightarrow> targets C | Some xs \<Rightarrow> xs) (predicate_table C) (Some ctx) (neighbor_limit C)
        (max_events C) (max_evidence C) (has_verifier C) (has_rng C) = Inr C'"
    "t = record_event C' ''new_epoch''
        [(''previous_context_id'', PStr (cid_of C)), (''historical_evidence'', PInt (int (length (evidence_store s))))]
        (child\<lparr>historical_evidence := fold (\<lambda>(k, e) h. dict_set k e h) (evidence_store s) (historical_evidence child)\<rparr>)"
    using assms by (auto simp: new_epoch_def rbind_Inr_iff)
  have "bd C' child t"
    unfolding c(3) by (rule bd_event) (simp add: bd_def bounds_ok_def)
  with c mk_config_fields [OF c(2)] show ?thesis
    by (intro that [of child]) (auto simp: same_core_def)
qed

text \<open>The limit of a child runtime is what its parent had left, whatever the child then does.\<close>

lemma epoch_budget:
  assumes new: "new_epoch C ctx asm tgts s = Inr (C', t)" and run: "moves C' t u" and ok: "ledger_ok (resources s)"
    and limited: "operation_limit (resources s) = Some n"
  shows "operation_limit (resources u) = Some (n - consumed (resources s))"
    and "consumed (resources s) + consumed (resources u) \<le> n"
proof -
  obtain child where c: "init_ca C' (remaining (resources s)) = Inr child" "bd C' child t" "0 < max_evidence C'"
    using new by (rule new_epoch_cases)
  have "bounds_ok C' u \<and> operation_limit (resources u) = remaining (resources s)"
    using init_ca_bounds [OF c(1,3)] c(2) moves_bd [OF run c(3)] by (simp add: bd_def)
  moreover have "remaining (resources s) = Some (n - consumed (resources s))"
    using ok limited by (simp add: remaining_def ledger_ok_def)
  ultimately show "operation_limit (resources u) = Some (n - consumed (resources s))"
    and "consumed (resources s) + consumed (resources u) \<le> n"
    by (auto simp: bounds_ok_def ledger_ok_def)
qed

lemma epoch_sound: "new_epoch C ctx asm tgts s = Inr (C', t) \<Longrightarrow> moves C' t u \<Longrightarrow> sound C' u"
  by (erule new_epoch_cases) (metis init_ca_sound sound_cong moves_advances advances_def)

lemma deliver_mapping_same_core: "deliver_mapping C v s = (r, t) \<Longrightarrow> same_core s t"
  by (auto simp: deliver_mapping_def elim!: pbind_lift_cases dest: deliver_message_same_core)

lemma replay_event_same_core: "replay_event C ev ns s = (r, t) \<Longrightarrow> same_core s t"
  by (auto simp: replay_event_def Let_def split: if_splits pyval.splits elim!: pbind_cases dest!: deliver_mapping_same_core)

lemma replay_loop_same_core: "replay_loop C evs ns s = (r, t) \<Longrightarrow> same_core s t"
proof (induction evs arbitrary: ns s)
  case (Cons ev evs)
  then show ?case
    by (auto elim!: pbind_cases dest!: replay_event_same_core intro: same_core_trans)
qed simp

lemma replay_loop_logged:
  "set (map (\<lambda>r. row_str (lib C) r ''event_id'') evs) \<subseteq> set (logged_ids C s) - {[]} \<Longrightarrow>
     replay_loop C evs ns s = (Inr (fst ns + length evs, snd ns), s)"
  by (induction evs arbitrary: ns) (simp_all add: replay_event_def Let_def)

section \<open>A small system for the examples\<close>

definition lone_lib :: pylib where
  "lone_lib = \<lparr>sha256_hex = (\<lambda>_. ''h''), float_repr = (\<lambda>_. ''0.0''), float_of_text = (\<lambda>_. None), repr_of = (\<lambda>_. [])\<rparr>"

text \<open>A checkpoint of a system with the atom \<open>p\<close>, which it declares as an assumption.\<close>

definition lone_checkpoint :: row where
  "lone_checkpoint =
     [(''schema'', PStr schema_id), (''atoms'', PList [atom_dict demo_p]), (''assumptions'', PList [PStr ''p'']),
      (''context'', PDict [(''facts_revision'', PStr ''f''), (''rules_revision'', PStr ''r'')]),
      (''evidence'', PList [PDict (evidence_row (make_evidence lone_lib EK_TRUSTED_ASSUMPTION ES_ASSUMED demo_p ''sha256:h''
          [] [] [] ''declared_assumption'' []))]),
      (''max_events'', PInt 1), (''max_evidence'', PInt 1), (''neighbor_limit'', PInt 1)]"

lemma lone_restored: "case from_checkpoint lone_lib False lone_checkpoint of Inl _ \<Rightarrow> False
   | Inr Cs \<Rightarrow> accepted_facts (snd Cs) = {''p''}"
  by code_simp

section \<open>Properties\<close>

text \<open>C34: nothing in a checkpoint is trusted: in whatever state a restored runtime gets to, each
  accepted fact is derivable from the declared assumptions and the stored applicable receipts, and
  each piece of evidence attached to it is stored and passes the authority check.\<close>

theorem restored_facts_derivable:
  assumes "from_checkpoint L ver d = Inr (C, s)" and "moves C s t" and "k \<in> accepted_facts t"
  shows "derivable C (ext_keys C t) k \<and> fact_refs t k \<noteq> []
     \<and> set (fact_refs t k) \<subseteq> {eid. \<exists>e. map_of (evidence_store t) eid = Some e \<and> atom_key (subject e) = k
          \<and> validate_authoritative C t e = Inr ()}"
proof -
  have "sound C t"
    using from_checkpoint_sound [OF assms(1)] moves_advances [OF assms(2)] by (simp add: advances_def)
  with assms(3) show ?thesis
    by (auto simp: soundD(4,5) dest!: soundD(3) simp: attached_def)
qed

theorem restored_facts_derivable_witness:
  "\<exists>C s. from_checkpoint lone_lib False lone_checkpoint = Inr (C, s) \<and> accepted_facts s = {''p''}
     \<and> derivable C (ext_keys C s) ''p'' \<and> fact_refs s ''p'' \<noteq> []"
proof -
  obtain C s where r: "from_checkpoint lone_lib False lone_checkpoint = Inr (C, s)" "accepted_facts s = {''p''}"
    using lone_restored by (auto split: sum.splits)
  with restored_facts_derivable [OF r(1) moves.stay, of "''p''"] show ?thesis by auto
qed

text \<open>C35: \<open>Evidence.from_dict\<close> yields exactly the genuine records, those with a valid atom, strict
  details, a context and the digest of their own content as identity; and it reads each of them
  back from its \<open>to_dict\<close>.\<close>

theorem evidence_read_exactly:
  "((\<exists>d. evidence_from_dict L d = Inr e) \<longleftrightarrow> genuine L e) \<and> (genuine L e \<longleftrightarrow> evidence_from_dict L (evidence_row e) = Inr e)"
  using genuine_is_read read_is_genuine by blast

text \<open>C36: a new epoch cannot replenish the operation budget: its runtime, whatever it does, has
  what the parent had left as its limit, and both together never spend more than the parent's limit.
  The parent's evidence is kept as history, and accepts nothing: the facts of the new epoch are
  derivable in the new context.\<close>

theorem new_epoch_budget:
  assumes "mk_config L as rs asm0 tgts0 table ctxo nl me mv ver rng = Inr C" and "reach C s"
    and "new_epoch C ctx asm tgts s = Inr (C', t)" and "moves C' t u" and "operation_limit (resources s) = Some n"
  shows "operation_limit (resources u) = Some (n - consumed (resources s))
     \<and> consumed (resources s) + consumed (resources u) \<le> n
     \<and> map_of (evidence_store s) \<subseteq>\<^sub>m map_of (historical_evidence t)
     \<and> accepted_facts u \<subseteq> {k. derivable C' (ext_keys C' u) k}"
proof -
  have "0 < max_evidence C" using assms(1) by (auto simp: mk_config_def res_simps)
  then have "ledger_ok (resources s)" using reach_bounds [OF assms(2)] by (simp add: bounds_ok_def)
  note budget = epoch_budget [OF assms(3,4) this assms(5)]
  have "distinct (map fst (evidence_store s))" by (rule soundD(1) [OF reach_sound [OF assms(2)]])
  then have "map_of (rev (evidence_store s)) = map_of (evidence_store s)"
    by (intro map_of_inject_set [THEN iffD2]) (simp_all add: rev_map [symmetric])
  with assms(3) have "map_of (evidence_store s) \<subseteq>\<^sub>m map_of (historical_evidence t)"
    by (cases rule: new_epoch_cases) (auto simp: history_kept map_le_def)
  with budget epoch_sound [OF assms(3,4)] show ?thesis by (auto dest: soundD(5))
qed

definition lone_config :: ca_config where
  "lone_config = \<lparr>lib = lone_lib, atoms = [demo_p], predicate_table = [(''p'', 0)], rules = [], assumptions = [],
     targets = [], ca_context = demo_context, neighbor_limit = 1, max_events = 1, max_evidence = 1,
     has_verifier = False, has_rng = False\<rparr>"

lemma lone_mk_config: "mk_config lone_lib [demo_p] [] [] [] t (Some demo_context) 1 1 1 False False = Inr lone_config"
  if "t \<in> {[], [(''p'', 0)]}"
proof -
  have "is_letter CHR ''p''" by code_simp
  with that show ?thesis
    by (auto simp: mk_config_def validate_universe_def rule_atoms_def ensure_def build_predicate_table_def validate_rules_def
      validate_atom_list_def lone_config_def demo_p_def dict_default_def dict_set_def Let_def)
qed

lemma lone_init: "\<exists>s. init_ca lone_config (Some 3) = Inr s \<and> operation_limit (resources s) = Some 3"
  by (simp add: init_ca_def mk_ledger_def lone_config_def deliver_pending_def build_graph_def add_fact_cell_def empty_ca_def
      seed_rules_def Let_def)

theorem new_epoch_budget_witness:
  "\<exists>C s C' t. reach C s \<and> new_epoch C demo_context None None s = Inr (C', t) \<and> operation_limit (resources t) = Some 3
     \<and> consumed (resources s) + consumed (resources t) \<le> 3"
proof -
  obtain s where s: "init_ca lone_config (Some 3) = Inr s" "operation_limit (resources s) = Some 3" using lone_init by blast
  have r: "reach lone_config s" using s(1) moves.stay by (auto simp: reach_def)
  have c: "consumed (resources s) = 0" "remaining (resources s) = Some 3"
    using s(1) by (auto simp: init_ca_def mk_ledger_def lone_config_def deliver_pending_def build_graph_def add_fact_cell_def
        empty_ca_def seed_rules_def Let_def remaining_def)
  obtain t where t: "new_epoch lone_config demo_context None None s = Inr (lone_config, t)"
    using lone_mk_config [of "[(''p'', 0)]"] s c(2) by (simp add: new_epoch_def) (simp add: lone_config_def)
  show ?thesis
    using new_epoch_budget [OF lone_mk_config [of "[]"] r t moves.stay s(2)] r t c
    by (intro exI [of _ lone_config] exI [of _ s] exI [of _ lone_config] exI [of _ t]) simp
qed

text \<open>C37: a replay manufactures no proof: it leaves the accepted facts, their evidence and the
  evidence store as they are, whatever events it is given; and replaying the runtime's own log, in
  which every event has an id (those the runtime records have one), finds only duplicates and changes
  nothing at all.\<close>

theorem replay_manufactures_nothing:
  assumes "[] \<notin> set (logged_ids C s)"
  shows "same_core s (snd (replay C (Some evs) s))
     \<and> replay C None s = (Inr [(''replayed'', PInt 0), (''duplicates'', PInt (int (length (event_log s)))),
          (''accepted_fact_events_seen'', PInt 0)], s)"
proof
  show "same_core s (snd (replay C (Some evs) s))"
    by (cases "replay_loop C evs (0, 0) s"; cases "fst (replay_loop C evs (0, 0) s)")
      (auto simp: replay_def Let_def dest: replay_loop_same_core)
  have "replay_loop C (event_log s) (0, 0) s = (Inr (length (event_log s), 0), s)"
    using assms replay_loop_logged [of C "event_log s" s "(0, 0)"] by (auto simp: logged_ids_def)
  then show "replay C None s = (Inr [(''replayed'', PInt 0), (''duplicates'', PInt (int (length (event_log s)))),
          (''accepted_fact_events_seen'', PInt 0)], s)"
    by (simp add: replay_def)
qed

theorem replay_manufactures_nothing_witness:
  "\<exists>C s. event_log s \<noteq> [] \<and> replay C None s = (Inr [(''replayed'', PInt 0), (''duplicates'', PInt (int (length (event_log s)))),
     (''accepted_fact_events_seen'', PInt 0)], s)"
proof -
  fix l :: ledger
  let ?s = "record_event lone_config ''x'' [] (empty_ca l)"
  have e: "event_log ?s \<noteq> []" by (simp add: record_event_def empty_ca_def lone_config_def last_n_def Let_def)
  have "[] \<notin> set (logged_ids lone_config ?s)"
    by (simp add: logged_ids_def record_event_def empty_ca_def lone_config_def last_n_def row_str_def row_get_def Let_def digest_nonempty digest_nonempty [symmetric])
  from replay_manufactures_nothing [OF this] e show ?thesis by blast
qed

end
