(* ===== verification/Logic_Formula.thy ===== *)
theory Logic_Formula
  imports Prelude "HOL-Library.Multiset"
begin

text \<open>
  The propositional formulas of \<open>jevops/logic_ir.py\<close>: construction, evaluation, variables,
  rendering, and the two rewritings \<open>simplify_formula\<close> and \<open>to_nnf\<close>. Names and rendered text
  are sequences of Unicode code points, which is how the source compares them.
\<close>

type_synonym utext = "nat list"

definition u :: "string \<Rightarrow> utext" where
  "u s = map of_char s"

section \<open>Formulas\<close>

datatype bop = And | Or | Imp | Iff | Xor

datatype formula = FVar utext | FTrue | FFalse | FNot formula | FBin bop formula formula

text \<open>\<open>__post_init__\<close>: the operation and its arity, and the name of a variable. Which code points
  are word characters and which of them are decimal digits is what the regular-expression
  library says, here the two parameters \<open>word\<close> and \<open>dec\<close>.\<close>

fun is_name :: "(nat \<Rightarrow> bool) \<Rightarrow> (nat \<Rightarrow> bool) \<Rightarrow> utext \<Rightarrow> bool" where
  "is_name word dec [] = False"
| "is_name word dec (c # cs) = (word c \<and> \<not> dec c \<and> (let r = dropWhile word cs in list_all (\<lambda>d. d = 39) r))"

definition bop_of :: "string \<Rightarrow> bop option" where
  "bop_of s = map_of [(''and'', And), (''or'', Or), (''imp'', Imp), (''iff'', Iff), (''xor'', Xor)] s"

definition mk_formula :: "(nat \<Rightarrow> bool) \<Rightarrow> (nat \<Rightarrow> bool) \<Rightarrow> string \<Rightarrow> formula list \<Rightarrow> utext \<Rightarrow> exc + formula" where
  "mk_formula word dec op args name =
     (let bad = Inl (ValueErr ''invalid propositional operation/arity'');
          unnamed = (\<lambda>f. if name \<noteq> [] then Inl (ValueErr ''only variables have names'') else Inr f) in
      if op = ''var'' then
        (if args \<noteq> [] then bad
         else if \<not> is_name word dec name \<or> name \<in> {u ''True'', u ''False'', u ''true'', u ''false''}
           then Inl (ValueErr ''invalid proposition identifier'')
         else Inr (FVar name))
      else if op = ''true'' then (if args \<noteq> [] then bad else unnamed FTrue)
      else if op = ''false'' then (if args \<noteq> [] then bad else unnamed FFalse)
      else if op = ''not'' then (case args of [a] \<Rightarrow> unnamed (FNot a) | _ \<Rightarrow> bad)
      else (case (bop_of op, args) of (Some b, [x, y]) \<Rightarrow> unnamed (FBin b x y) | _ \<Rightarrow> bad))"

section \<open>Evaluation\<close>

fun bop_val :: "bop \<Rightarrow> bool \<Rightarrow> bool \<Rightarrow> bool" where
  "bop_val And a b = (a \<and> b)"
| "bop_val Or a b = (a \<or> b)"
| "bop_val Imp a b = (\<not> a \<or> b)"
| "bop_val Iff a b = (a = b)"
| "bop_val Xor a b = (a \<noteq> b)"

primrec evaluate :: "formula \<Rightarrow> (utext \<rightharpoonup> bool) \<Rightarrow> exc + bool" where
  "evaluate (FVar n) m = (case m n of None \<Rightarrow> Inl KeyErr | Some b \<Rightarrow> Inr b)"
| "evaluate FTrue m = Inr True"
| "evaluate FFalse m = Inr False"
| "evaluate (FNot a) m = rbind (evaluate a m) (\<lambda>x. Inr (\<not> x))"
| "evaluate (FBin op a b) m = rbind (evaluate a m) (\<lambda>x. rbind (evaluate b m) (\<lambda>y. Inr (bop_val op x y)))"

text \<open>The truth value under a total valuation, the specification of everything below.\<close>

primrec sem :: "formula \<Rightarrow> (utext \<Rightarrow> bool) \<Rightarrow> bool" where
  "sem (FVar n) v = v n"
| "sem FTrue v = True"
| "sem FFalse v = False"
| "sem (FNot a) v = (\<not> sem a v)"
| "sem (FBin op a b) v = bop_val op (sem a v) (sem b v)"

primrec vars :: "formula \<Rightarrow> utext set" where
  "vars (FVar n) = {n}"
| "vars FTrue = {}"
| "vars FFalse = {}"
| "vars (FNot a) = vars a"
| "vars (FBin op a b) = vars a \<union> vars b"

lemma evaluate_total: "(\<And>n. n \<in> vars f \<Longrightarrow> m n = Some (v n)) \<Longrightarrow> evaluate f m = Inr (sem f v)"
  by (induction f) auto

lemma sem_cong: "(\<And>n. n \<in> vars f \<Longrightarrow> v n = w n) \<Longrightarrow> sem f v = sem f w"
  by (induction f) auto

section \<open>Variables and resource bounds\<close>

definition max_variables :: nat where "max_variables = 8"
definition max_nodes :: nat where "max_nodes = 256"
definition max_depth :: nat where "max_depth = 48"

primrec nodes :: "formula \<Rightarrow> nat" where
  "nodes (FVar n) = 1"
| "nodes FTrue = 1"
| "nodes FFalse = 1"
| "nodes (FNot a) = Suc (nodes a)"
| "nodes (FBin op a b) = Suc (nodes a + nodes b)"

primrec depth :: "formula \<Rightarrow> nat" where
  "depth (FVar n) = 0"
| "depth FTrue = 0"
| "depth FFalse = 0"
| "depth (FNot a) = Suc (depth a)"
| "depth (FBin op a b) = Suc (max (depth a) (depth b))"

primrec var_list :: "formula \<Rightarrow> utext list" where
  "var_list (FVar n) = [n]"
| "var_list FTrue = []"
| "var_list FFalse = []"
| "var_list (FNot a) = var_list a"
| "var_list (FBin op a b) = var_list a @ var_list b"

lemma set_var_list [simp]: "set (var_list f) = vars f"
  by (induction f) auto

text \<open>\<open>variables\<close>: the sorted names, after the node, depth and variable budgets.\<close>

definition variables :: "formula list \<Rightarrow> exc + utext list" where
  "variables fs =
     (if max_nodes * max 1 (length fs) < sum_list (map nodes fs) \<or> (\<exists>f \<in> set fs. max_depth < depth f)
        then Inl (LogicLimit ''formula node/depth budget'')
      else (let names = remdups (concat (map var_list fs)) in
        if max_variables < length names then Inl (LogicLimit ''at most 8 Boolean variables'')
        else Inr (sort names)))"

lemma variables_Inr:
  assumes "variables fs = Inr ns"
  shows "set ns = (\<Union>f \<in> set fs. vars f)" "distinct ns" "sorted ns" "length ns \<le> max_variables"
  using assms by (auto simp: variables_def Let_def split: if_splits)

definition assignment_for :: "nat \<Rightarrow> utext list \<Rightarrow> utext \<rightharpoonup> bool" where
  "assignment_for i ns = map_of (zip ns (map (bit i) [0..<length ns]))"

text \<open>The valuation an assignment stands for, and every valuation is one of them.\<close>

definition valuation :: "nat \<Rightarrow> utext list \<Rightarrow> utext \<Rightarrow> bool" where
  "valuation i ns n = (assignment_for i ns n = Some True)"

lemma assignment_for_nth: "distinct ns \<Longrightarrow> k < length ns \<Longrightarrow> assignment_for i ns (ns ! k) = Some (bit i k)"
  by (simp add: assignment_for_def map_of_zip_nth)

lemma valuation_nth: "distinct ns \<Longrightarrow> k < length ns \<Longrightarrow> valuation i ns (ns ! k) = bit i k"
  by (simp add: valuation_def assignment_for_nth)

lemma evaluate_assignment:
  assumes "vars f \<subseteq> set ns" and "distinct ns"
  shows "evaluate f (assignment_for i ns) = Inr (sem f (valuation i ns))"
proof (rule evaluate_total)
  fix n
  assume "n \<in> vars f"
  with assms obtain k where "k < length ns" "ns ! k = n" by (metis in_set_conv_nth subsetD)
  with assms(2) show "assignment_for i ns n = Some (valuation i ns n)"
    using assignment_for_nth [of ns k i] valuation_nth [of ns k i] by simp
qed

text \<open>A formula over \<open>ns\<close> is valid when it holds in the assignments of all indices below \<open>2 ^ n\<close>.\<close>

definition index_of :: "(utext \<Rightarrow> bool) \<Rightarrow> utext list \<Rightarrow> nat" where
  "index_of v ns = horner_sum of_bool 2 (map v ns)"

lemma index_of_less: "index_of v ns < 2 ^ length ns"
  using horner_sum_of_bool_2_less [of "map v ns"] by (simp add: index_of_def)

lemma valuation_index_of:
  assumes "distinct ns" and "n \<in> set ns"
  shows "valuation (index_of v ns) ns n = v n"
proof -
  obtain k where k: "k < length ns" "ns ! k = n" using assms(2) by (auto simp: in_set_conv_nth)
  have "bit (index_of v ns) k = v n"
    using k by (simp add: index_of_def bit_horner_sum_bit_iff)
  then show ?thesis using valuation_nth [OF assms(1) k(1)] k(2) by metis
qed

lemma all_assignments:
  assumes "vars f \<subseteq> set ns" and "distinct ns"
  shows "(\<forall>v. sem f v) \<longleftrightarrow> (\<forall>i < 2 ^ length ns. sem f (valuation i ns))"
proof (intro iffI allI impI)
  fix v
  assume "\<forall>i < 2 ^ length ns. sem f (valuation i ns)"
  then have "sem f (valuation (index_of v ns) ns)" using index_of_less by blast
  moreover have "sem f (valuation (index_of v ns) ns) = sem f v"
    using valuation_index_of [OF assms(2)] assms(1) by (intro sem_cong) auto
  ultimately show "sem f v" by simp
qed simp


section \<open>Rendering and balanced joins\<close>

primrec render_formula :: "formula \<Rightarrow> utext" where
  "render_formula (FVar n) = n"
| "render_formula FTrue = u ''True''"
| "render_formula FFalse = u ''False''"
| "render_formula (FNot a) = [0xAC, 32] @ render_formula a"
| "render_formula (FBin op a b) =
     (let x = render_formula a; y = render_formula b in
      case op of
        Xor \<Rightarrow> [0xAC, 32] @ u ''('' @ x @ [32, 0x2194, 32] @ y @ u '')''
      | And \<Rightarrow> u ''('' @ x @ [32, 0x2227, 32] @ y @ u '')''
      | Or \<Rightarrow> u ''('' @ x @ [32, 0x2228, 32] @ y @ u '')''
      | Imp \<Rightarrow> u ''('' @ x @ [32, 0x2192, 32] @ y @ u '')''
      | Iff \<Rightarrow> u ''('' @ x @ [32, 0x2194, 32] @ y @ u '')'')"

text \<open>\<open>_join\<close>: a balanced tree of one connective.\<close>

function join :: "bop \<Rightarrow> formula list \<Rightarrow> formula" where
  "join op [] = (if op = And then FTrue else FFalse)"
| "join op [x] = x"
| "join op (x # y # zs) =
     (let items = x # y # zs; mid = length items div 2
      in FBin op (join op (take mid items)) (join op (drop mid items)))"
  by pat_completeness auto
termination
  by (relation "measure (length \<circ> snd)") auto

lemma sem_join_And: "sem (join And fs) v \<longleftrightarrow> (\<forall>f \<in> set fs. sem f v)"
proof (induction And fs rule: join.induct)
  case (3 x y zs)
  let ?items = "x # y # zs"
  have "set ?items = set (take (length ?items div 2) ?items) \<union> set (drop (length ?items div 2) ?items)"
    by (metis append_take_drop_id set_append)
  then show ?case
    using 3 [OF refl refl] by (simp only: join.simps Let_def sem.simps bop_val.simps) blast
qed simp_all

lemma sem_join_Or: "sem (join Or fs) v \<longleftrightarrow> (\<exists>f \<in> set fs. sem f v)"
proof (induction Or fs rule: join.induct)
  case (3 x y zs)
  let ?items = "x # y # zs"
  have "set ?items = set (take (length ?items div 2) ?items) \<union> set (drop (length ?items div 2) ?items)"
    by (metis append_take_drop_id set_append)
  then show ?case
    using 3 [OF refl refl] by (simp only: join.simps Let_def sem.simps bop_val.simps) blast
qed simp_all

section \<open>Algebraic simplification\<close>

primrec flatten :: "bop \<Rightarrow> formula \<Rightarrow> formula list" where
  "flatten op (FVar n) = [FVar n]"
| "flatten op FTrue = [FTrue]"
| "flatten op FFalse = [FFalse]"
| "flatten op (FNot a) = [FNot a]"
| "flatten op (FBin o' a b) = (if o' = op then flatten op a @ flatten op b else [FBin o' a b])"

definition is_const :: "formula \<Rightarrow> bool" where
  "is_const f \<longleftrightarrow> f = FTrue \<or> f = FFalse"

definition dual :: "bop \<Rightarrow> bop" where
  "dual op = (if op = And then Or else And)"

definition identity_of :: "bop \<Rightarrow> formula" where
  "identity_of op = (if op = And then FTrue else FFalse)"

definition annihilator_of :: "bop \<Rightarrow> formula" where
  "annihilator_of op = (if op = And then FFalse else FTrue)"

text \<open>The set of \<open>terms\<close> without the identity, and the terms no other term absorbs. A set is a
  list without repetitions; terms that render alike keep their order of occurrence.\<close>

definition ac_terms :: "bop \<Rightarrow> formula \<Rightarrow> formula \<Rightarrow> formula list" where
  "ac_terms op a b = remdups (filter (\<lambda>t. t \<noteq> identity_of op) (flatten op a @ flatten op b))"

definition absorbed :: "bop \<Rightarrow> formula list \<Rightarrow> formula \<Rightarrow> bool" where
  "absorbed op ts t \<longleftrightarrow> (\<exists>s \<in> set ts. t \<noteq> s \<and> set (flatten (dual op) s) \<subset> set (flatten (dual op) t))"

definition simplify_ac :: "bop \<Rightarrow> formula \<Rightarrow> formula \<Rightarrow> formula" where
  "simplify_ac op a b =
     (let ts = ac_terms op a b in
      if annihilator_of op \<in> set ts \<or> (\<exists>t \<in> set ts. FNot t \<in> set ts) then annihilator_of op
      else join op (sort_key render_formula (filter (\<lambda>t. \<not> absorbed op ts t) ts)))"

fun simplify_not :: "formula \<Rightarrow> formula" where
  "simplify_not FTrue = FFalse"
| "simplify_not FFalse = FTrue"
| "simplify_not (FNot a) = a"
| "simplify_not a = FNot a"

text \<open>A weight that simplification does not increase; its recursion on rewritten formulas ends
  because the weight goes down, or stays while a constant moves to the left.\<close>

primrec weight :: "formula \<Rightarrow> nat" where
  "weight (FVar n) = 1"
| "weight FTrue = 1"
| "weight FFalse = 1"
| "weight (FNot a) = Suc (weight a)"
| "weight (FBin op a b) = (case op of And \<Rightarrow> 1 | Or \<Rightarrow> 1 | Imp \<Rightarrow> 3 | Iff \<Rightarrow> 4 | Xor \<Rightarrow> 4) + weight a + weight b"

definition right_const :: "formula \<Rightarrow> nat" where
  "right_const f = (case f of FBin op a b \<Rightarrow> if \<not> is_const a then 1 else 0 | _ \<Rightarrow> 0)"

function simplify_formula :: "formula \<Rightarrow> formula" where
  "simplify_formula (FVar n) = FVar n"
| "simplify_formula FTrue = FTrue"
| "simplify_formula FFalse = FFalse"
| "simplify_formula (FNot a) = simplify_not (simplify_formula a)"
| "simplify_formula (FBin op x y) =
     (let a = simplify_formula x; b = simplify_formula y in
      if op = Iff \<or> op = Xor then
        (if a = b then (if op = Iff then FTrue else FFalse)
         else if is_const a then simplify_formula (if (a = FTrue) = (op = Iff) then b else FNot b)
         else if is_const b then simplify_formula (FBin op b a)
         else FBin op a b)
      else if op = Imp then simplify_formula (FBin Or (FNot a) b)
      else simplify_ac op a b)"
  by pat_completeness auto

lemma weight_pos [simp]: "0 < weight f"
  by (cases f) (auto split: bop.splits)

lemma weight_join: "op = And \<or> op = Or \<Longrightarrow> fs \<noteq> [] \<Longrightarrow> Suc (weight (join op fs)) = sum_list (map (\<lambda>f. Suc (weight f)) fs)"
proof (induction op fs rule: join.induct)
  case (3 op x y zs)
  let ?items = "x # y # zs" and ?m = "length (x # y # zs) div 2"
  have ne: "take ?m ?items \<noteq> []" "drop ?m ?items \<noteq> []" by auto
  have "sum_list (map (\<lambda>f. Suc (weight f)) ?items)
    = sum_list (map (\<lambda>f. Suc (weight f)) (take ?m ?items)) + sum_list (map (\<lambda>f. Suc (weight f)) (drop ?m ?items))"
    by (metis append_take_drop_id map_append sum_list_append)
  also have "\<dots> = Suc (weight (join op (take ?m ?items))) + Suc (weight (join op (drop ?m ?items)))"
    using 3(1) [OF refl refl 3(3) ne(1)] 3(2) [OF refl refl 3(3) ne(2)] by (simp only:)
  also have "\<dots> = Suc (weight (join op ?items))"
    using 3(3) by (auto simp: Let_def)
  finally show ?case by (rule sym)
qed auto

lemma weight_flatten: "op = And \<or> op = Or \<Longrightarrow> sum_list (map (\<lambda>f. Suc (weight f)) (flatten op f)) = Suc (weight f)"
  by (induction f) auto

lemma sum_list_filter_le: "sum_list (map (g :: 'a \<Rightarrow> nat) (filter P xs)) \<le> sum_list (map g xs)"
  by (induction xs) auto

lemma sum_list_remdups_le: "sum_list (map (g :: 'a \<Rightarrow> nat) (remdups xs)) \<le> sum_list (map g xs)"
  by (induction xs) auto

lemma weight_simplify_ac:
  assumes "op = And \<or> op = Or"
  shows "weight (simplify_ac op a b) \<le> Suc (weight a + weight b)"
proof -
  let ?g = "\<lambda>f. Suc (weight f)"
  let ?ts = "sort_key render_formula (filter (\<lambda>t. \<not> absorbed op (ac_terms op a b) t) (ac_terms op a b))"
  have "sum_list (map ?g ?ts) = sum_list (map ?g (filter (\<lambda>t. \<not> absorbed op (ac_terms op a b) t) (ac_terms op a b)))"
    by (simp only: sum_mset_sum_list [symmetric] mset_map mset_sort)
  also have "\<dots> \<le> sum_list (map ?g (flatten op a @ flatten op b))"
    unfolding ac_terms_def by (intro order_trans [OF sum_list_filter_le] order_trans [OF sum_list_remdups_le] sum_list_filter_le)
  also have "\<dots> = ?g a + ?g b" using weight_flatten [OF assms] by simp
  finally have *: "sum_list (map ?g ?ts) \<le> ?g a + ?g b" .
  have "weight (join op ?ts) \<le> Suc (weight a + weight b)"
  proof (cases "?ts = []")
    case False
    then show ?thesis using weight_join [OF assms False] * by simp
  next
    case True
    show ?thesis unfolding True using assms by auto
  qed
  then show ?thesis using assms by (auto simp: simplify_ac_def Let_def annihilator_of_def)
qed

lemma weight_simplify_not: "weight (simplify_not f) \<le> Suc (weight f)"
  by (cases f) auto

lemma simplify_weight: "simplify_formula_dom f \<Longrightarrow> weight (simplify_formula f) \<le> weight f"
proof (induction f rule: simplify_formula.pinduct)
  case (4 a)
  then show ?case
    using weight_simplify_not [of "simplify_formula a"] by (simp add: simplify_formula.psimps)
next
  case (5 op x y)
  define a where "a = simplify_formula x"
  define b where "b = simplify_formula y"
  have a: "weight a \<le> weight x" and b: "weight b \<le> weight y"
    using 5 by (simp_all add: a_def b_def)
  have eq: "simplify_formula (FBin op x y) =
     (if op = Iff \<or> op = Xor then
        (if a = b then (if op = Iff then FTrue else FFalse)
         else if is_const a then simplify_formula (if (a = FTrue) = (op = Iff) then b else FNot b)
         else if is_const b then simplify_formula (FBin op b a)
         else FBin op a b)
      else if op = Imp then simplify_formula (FBin Or (FNot a) b)
      else simplify_ac op a b)"
    using 5(1) by (simp add: simplify_formula.psimps a_def b_def Let_def)
  show ?case
  proof (cases "op = Iff \<or> op = Xor")
    case True
    have w: "weight (FBin op p q) = 4 + weight p + weight q" for p q using True by auto
    have "weight (simplify_formula (if (a = FTrue) = (op = Iff) then b else FNot b)) \<le> Suc (weight b)"
      if "a \<noteq> b" "is_const a"
      using 5(4) [OF a_def b_def True that] by (auto split: if_splits)
    moreover have "weight (simplify_formula (FBin op b a)) \<le> weight (FBin op b a)"
      if "a \<noteq> b" "\<not> is_const a" "is_const b"
      using 5(5) [OF a_def b_def True that] .
    ultimately show ?thesis using a b True unfolding eq w by auto
  next
    case False
    show ?thesis
    proof (cases "op = Imp")
      case True
      have "weight (simplify_formula (FBin Or (FNot a) b)) \<le> weight (FBin Or (FNot a) b)"
        using 5(6) [OF a_def b_def False True] .
      then show ?thesis using a b True False unfolding eq by auto
    next
      case ni: False
      then have "op = And \<or> op = Or" using False by (cases op) auto
      then show ?thesis
        using weight_simplify_ac [of op a b] a b False ni unfolding eq by auto
    qed
  qed
qed (simp_all add: simplify_formula.psimps)

lemma const_weight: "is_const f \<Longrightarrow> weight f = 1"
  by (auto simp: is_const_def)

lemma simplify_const: "is_const f \<Longrightarrow> simplify_formula_dom f \<Longrightarrow> simplify_formula f = f"
  by (auto simp: is_const_def simplify_formula.psimps)

termination simplify_formula
proof (relation "measures [weight, right_const]", goal_cases)
  case (5 op x y a b)
  then have "4 + weight a + weight y \<le> weight (FBin op x y)" "weight b \<le> weight y"
    using simplify_weight [of x] simplify_weight [of y] by auto
  then show ?case by auto
next
  case (6 op x y a b)
  then have w: "weight a \<le> weight x" "weight b \<le> weight y"
    using simplify_weight [of x] simplify_weight [of y] by auto
  have "\<not> is_const x" using 6 simplify_const [of x] by auto
  then have "right_const (FBin op b a) < right_const (FBin op x y)" using 6 by (simp add: right_const_def)
  then show ?case using w by auto
next
  case (7 op x y a b)
  then have "weight a \<le> weight x" "weight b \<le> weight y" "op = Imp"
    using simplify_weight [of x] simplify_weight [of y] by auto
  then show ?case by simp
qed auto

section \<open>Simplification keeps the meaning\<close>

lemma sem_flatten:
  "sem f v \<longleftrightarrow> (\<forall>t \<in> set (flatten And f). sem t v)"
  "sem f v \<longleftrightarrow> (\<exists>t \<in> set (flatten Or f). sem t v)"
  by (induction f) auto

lemma not_absorbed_below:
  "t \<in> set ts \<Longrightarrow> \<exists>s \<in> set ts. \<not> absorbed op ts s \<and> set (flatten (dual op) s) \<subseteq> set (flatten (dual op) t)"
proof (induction "card (set (flatten (dual op) t))" arbitrary: t rule: less_induct)
  case less
  show ?case
  proof (cases "absorbed op ts t")
    case True
    then obtain s where s: "s \<in> set ts" "set (flatten (dual op) s) \<subset> set (flatten (dual op) t)"
      by (auto simp: absorbed_def)
    then have "card (set (flatten (dual op) s)) < card (set (flatten (dual op) t))"
      by (intro psubset_card_mono) auto
    from less(1) [OF this s(1)] s(2) show ?thesis by blast
  qed (use less.prems in blast)
qed

lemma sem_kept_terms:
  "(\<forall>t \<in> set (filter (\<lambda>t. \<not> absorbed And ts t) ts). sem t v) \<longleftrightarrow> (\<forall>t \<in> set ts. sem t v)"
  "(\<exists>t \<in> set (filter (\<lambda>t. \<not> absorbed Or ts t) ts). sem t v) \<longleftrightarrow> (\<exists>t \<in> set ts. sem t v)"
proof -
  have "sem t v" if kept: "\<forall>t \<in> set ts. \<not> absorbed And ts t \<longrightarrow> sem t v" and t: "t \<in> set ts" for t
  proof -
    obtain s where s: "s \<in> set ts" "\<not> absorbed And ts s" "set (flatten Or s) \<subseteq> set (flatten Or t)"
      using not_absorbed_below [OF t, of And] by (auto simp: dual_def)
    then have "sem s v" using kept by blast
    then show "sem t v" using s(3) sem_flatten(2) by blast
  qed
  then show "(\<forall>t \<in> set (filter (\<lambda>t. \<not> absorbed And ts t) ts). sem t v) \<longleftrightarrow> (\<forall>t \<in> set ts. sem t v)" by auto
  have "\<exists>t \<in> set ts. \<not> absorbed Or ts t \<and> sem t v" if t: "t \<in> set ts" "sem t v" for t
  proof -
    obtain s where s: "s \<in> set ts" "\<not> absorbed Or ts s" "set (flatten And s) \<subseteq> set (flatten And t)"
      using not_absorbed_below [OF t(1), of Or] by (auto simp: dual_def)
    then have "sem s v" using t(2) sem_flatten(1) by blast
    with s show ?thesis by blast
  qed
  then show "(\<exists>t \<in> set (filter (\<lambda>t. \<not> absorbed Or ts t) ts). sem t v) \<longleftrightarrow> (\<exists>t \<in> set ts. sem t v)" by auto
qed

lemma sem_simplify_ac:
  assumes "op = And \<or> op = Or"
  shows "sem (simplify_ac op a b) v = bop_val op (sem a v) (sem b v)"
  using assms
proof
  assume op: "op = And"
  let ?ts = "ac_terms And a b"
  have ts: "(\<forall>t \<in> set ?ts. sem t v) \<longleftrightarrow> sem a v \<and> sem b v"
    unfolding sem_flatten(1) [of a] sem_flatten(1) [of b] by (auto simp: ac_terms_def identity_of_def)
  show ?thesis
  proof (cases "FFalse \<in> set ?ts \<or> (\<exists>t \<in> set ?ts. FNot t \<in> set ?ts)")
    case True
    then have "\<not> (\<forall>t \<in> set ?ts. sem t v)" by (metis sem.simps(3,4))
    then show ?thesis using True ts by (auto simp: simplify_ac_def op annihilator_of_def Let_def)
  next
    case False
    then show ?thesis
      using sem_kept_terms(1) [of ?ts v] ts by (simp add: simplify_ac_def op annihilator_of_def Let_def sem_join_And)
  qed
next
  assume op: "op = Or"
  let ?ts = "ac_terms Or a b"
  have ts: "(\<exists>t \<in> set ?ts. sem t v) \<longleftrightarrow> sem a v \<or> sem b v"
    unfolding sem_flatten(2) [of a] sem_flatten(2) [of b] by (auto simp: ac_terms_def identity_of_def)
  show ?thesis
  proof (cases "FTrue \<in> set ?ts \<or> (\<exists>t \<in> set ?ts. FNot t \<in> set ?ts)")
    case True
    then have "\<exists>t \<in> set ?ts. sem t v" by (metis sem.simps(2,4))
    then show ?thesis using True ts by (auto simp: simplify_ac_def op annihilator_of_def Let_def)
  next
    case False
    then show ?thesis
      using sem_kept_terms(2) [of ?ts v] ts by (simp add: simplify_ac_def op annihilator_of_def Let_def sem_join_Or)
  qed
qed

lemma sem_simplify_not [simp]: "sem (simplify_not f) v = (\<not> sem f v)"
  by (cases f) auto

lemma sem_simplify [simp]: "sem (simplify_formula f) v = sem f v"
proof (induction f rule: simplify_formula.induct)
  case (5 op x y)
  define a where "a = simplify_formula x"
  define b where "b = simplify_formula y"
  have ab: "sem a v = sem x v" "sem b v = sem y v" using 5(1,2) by (simp_all add: a_def b_def)
  have eq: "simplify_formula (FBin op x y) =
     (if op = Iff \<or> op = Xor then
        (if a = b then (if op = Iff then FTrue else FFalse)
         else if is_const a then simplify_formula (if (a = FTrue) = (op = Iff) then b else FNot b)
         else if is_const b then simplify_formula (FBin op b a)
         else FBin op a b)
      else if op = Imp then simplify_formula (FBin Or (FNot a) b)
      else simplify_ac op a b)"
    by (simp add: a_def b_def Let_def)
  show ?case
  proof (cases "op = Iff \<or> op = Xor")
    case True
    have "sem (simplify_formula (if (a = FTrue) = (op = Iff) then b else FNot b)) v = bop_val op (sem a v) (sem b v)"
      if "a \<noteq> b" "is_const a"
      using 5(3) [OF a_def b_def True that] True that by (auto simp: is_const_def simp del: simplify_formula.simps)
    moreover have "sem (simplify_formula (FBin op b a)) v = bop_val op (sem a v) (sem b v)"
      if "a \<noteq> b" "\<not> is_const a" "is_const b"
      using 5(4) [OF a_def b_def True that] True by (auto simp del: simplify_formula.simps)
    ultimately show ?thesis using True ab unfolding eq by (auto simp del: simplify_formula.simps)
  next
    case False
    show ?thesis
    proof (cases "op = Imp")
      case True
      then show ?thesis using 5(5) [OF a_def b_def False True] ab False unfolding eq by (simp del: simplify_formula.simps)
    next
      case ni: False
      then have "op = And \<or> op = Or" using False by (cases op) auto
      then show ?thesis using sem_simplify_ac [of op a b] ab False ni unfolding eq by auto
    qed
  qed
qed simp_all


section \<open>Properties\<close>

text \<open>C8: \<open>simplify_formula\<close> (constant folding, flattening, idempotence, complement, absorption)
  keeps the meaning of every formula.\<close>

theorem simplify_formula_correct: "sem (simplify_formula f) v = sem f v"
  by (rule sem_simplify)

end
