(* ===== verification/Logic_NNF.thy ===== *)
theory Logic_NNF
  imports Logic_Formula
begin

text \<open>Negation normal form of \<open>logic_ir.py\<close>: \<open>to_nnf\<close> with its expansion budget, and the shape
  and the meaning of its result.\<close>

section \<open>Negation normal form\<close>

declare simplify_formula.simps(5) [simp del] join.simps(3) [simp del]

text \<open>The inner \<open>visit\<close> of \<open>to_nnf\<close>; the budget left is passed on and returned.\<close>

function visit :: "formula \<Rightarrow> bool \<Rightarrow> nat \<Rightarrow> exc + formula \<times> nat" where
  "visit f neg 0 = Inl (LogicLimit ''NNF expansion budget'')"
| "visit (FNot a) neg (Suc r) = visit a (\<not> neg) r"
| "visit (FVar n) neg (Suc r) = Inr (if neg then simplify_formula (FNot (FVar n)) else FVar n, r)"
| "visit FTrue neg (Suc r) = Inr (if neg then simplify_formula (FNot FTrue) else FTrue, r)"
| "visit FFalse neg (Suc r) = Inr (if neg then simplify_formula (FNot FFalse) else FFalse, r)"
| "visit (FBin op a b) neg (Suc r) =
     (if op = Imp then visit (FBin Or (FNot a) b) neg r
      else if op = Iff \<or> op = Xor then
        (let different = ((op = Xor) \<noteq> neg) in
         rbind (visit a False r) (\<lambda>p. rbind (visit b different (snd p)) (\<lambda>q.
         rbind (visit a True (snd q)) (\<lambda>p'. rbind (visit b (\<not> different) (snd p')) (\<lambda>q'.
         Inr (simplify_formula (join Or [join And [fst p, fst q], join And [fst p', fst q']]), snd q'))))))
      else
        (let o' = (if neg then dual op else op) in
         rbind (visit a neg r) (\<lambda>p. rbind (visit b neg (snd p)) (\<lambda>q.
         Inr (simplify_formula (FBin o' (fst p) (fst q)), snd q)))))"
  by pat_completeness auto
termination
  by (relation "measure (weight \<circ> fst)") auto

definition to_nnf :: "formula \<Rightarrow> bool \<Rightarrow> int \<Rightarrow> exc + formula" where
  "to_nnf f negate budget =
     rbind (variables [f]) (\<lambda>_. rbind (visit f negate (min 4096 (nat budget))) (\<lambda>p. Inr (fst p)))"

lemma sem_visit: "visit f neg r = Inr (g, r') \<Longrightarrow> sem g v = (sem f v \<noteq> neg)"
proof (induction f neg r arbitrary: g r' rule: visit.induct)
  case (6 op a b neg r)
  consider "op = Imp" | "op = Iff \<or> op = Xor" | "op = And \<or> op = Or" by (cases op) auto
  then show ?case
  proof cases
    case 1
    then show ?thesis using 6 by auto
  next
    case 2
    with "6.prems" obtain p q p' q' where r: "visit a False r = Inr p" "visit b ((op = Xor) \<noteq> neg) (snd p) = Inr q"
      "visit a True (snd q) = Inr p'" "visit b (\<not> ((op = Xor) \<noteq> neg)) (snd p') = Inr q'"
      "g = simplify_formula (join Or [join And [fst p, fst q], join And [fst p', fst q']])"
      by (auto simp: Let_def res_simps split: if_splits)
    have ni: "op \<noteq> Imp" using 2 by auto
    have "sem (fst p) v = (sem a v)" "sem (fst q) v = (sem b v \<noteq> ((op = Xor) \<noteq> neg))"
      "sem (fst p') v = (\<not> sem a v)" "sem (fst q') v = (sem b v = ((op = Xor) \<noteq> neg))"
      using "6.IH"(2) [OF ni 2 refl, of "fst p" "snd p"] "6.IH"(3) [OF ni 2 refl r(1), of "fst q" "snd q"]
        "6.IH"(4) [OF ni 2 refl r(1,2), of "fst p'" "snd p'"] "6.IH"(5) [OF ni 2 refl r(1,2,3), of "fst q'" "snd q'"] r
      by simp_all
    then show ?thesis using 2 by (auto simp: r(5) sem_join_And sem_join_Or)
  next
    case 3
    then have n: "op \<noteq> Imp" "\<not> (op = Iff \<or> op = Xor)" by auto
    with "6.prems" obtain p q where r: "visit a neg r = Inr p" "visit b neg (snd p) = Inr q"
      "g = simplify_formula (FBin (if neg then dual op else op) (fst p) (fst q))"
      by (auto simp: Let_def res_simps split: if_splits)
    have "sem (fst p) v = (sem a v \<noteq> neg)" "sem (fst q) v = (sem b v \<noteq> neg)"
      using "6.IH"(6) [OF n refl, of "fst p" "snd p"] "6.IH"(7) [OF n refl r(1), of "fst q" "snd q"] r by simp_all
    then show ?thesis using 3 by (auto simp: r(3) dual_def)
  qed
qed auto

fun is_nnf :: "formula \<Rightarrow> bool" where
  "is_nnf (FVar n) = True"
| "is_nnf FTrue = True"
| "is_nnf FFalse = True"
| "is_nnf (FNot (FVar n)) = True"
| "is_nnf (FNot _) = False"
| "is_nnf (FBin op a b) = ((op = And \<or> op = Or) \<and> is_nnf a \<and> is_nnf b)"

lemma nnf_join: "op = And \<or> op = Or \<Longrightarrow> list_all is_nnf fs \<Longrightarrow> is_nnf (join op fs)"
proof (induction op fs rule: join.induct)
  case (3 op x y zs)
  let ?ts = "x # y # zs" and ?m = "length (x # y # zs) div 2"
  have "list_all is_nnf (take ?m ?ts)" "list_all is_nnf (drop ?m ?ts)"
    using 3(4) set_take_subset [of ?m ?ts] set_drop_subset [of ?m ?ts] by (auto simp only: list_all_iff)
  then have "is_nnf (join op (take ?m ?ts))" "is_nnf (join op (drop ?m ?ts))"
    using 3(1,2) [OF refl refl 3(3)] by simp_all
  then show ?case using 3(3) by (simp only: join.simps Let_def is_nnf.simps)
qed auto

lemma nnf_flatten: "is_nnf f \<Longrightarrow> list_all is_nnf (flatten op f)"
  by (induction f rule: is_nnf.induct) auto

lemma nnf_simplify_ac: "op = And \<or> op = Or \<Longrightarrow> is_nnf a \<Longrightarrow> is_nnf b \<Longrightarrow> is_nnf (simplify_ac op a b)"
  using nnf_flatten [of a op] nnf_flatten [of b op]
  by (auto simp: simplify_ac_def Let_def annihilator_of_def ac_terms_def list_all_iff intro!: nnf_join)

lemma nnf_simplify: "is_nnf f \<Longrightarrow> is_nnf (simplify_formula f)"
proof (induction f rule: formula.induct)
  case (FNot a)
  then show ?case by (cases a) auto
next
  case (FBin op a b)
  then have op: "op = And \<or> op = Or" and ab: "is_nnf (simplify_formula a)" "is_nnf (simplify_formula b)"
    by simp_all
  from op have "simplify_formula (FBin op a b) = simplify_ac op (simplify_formula a) (simplify_formula b)"
    by (auto simp: simplify_formula.simps(5))
  then show ?case using nnf_simplify_ac [OF op ab] by simp
qed auto

lemma nnf_visit: "visit f neg r = Inr (g, r') \<Longrightarrow> is_nnf g"
proof (induction f neg r arbitrary: g r' rule: visit.induct)
  case (6 op a b neg r)
  consider "op = Imp" | "op = Iff \<or> op = Xor" | "op = And \<or> op = Or" by (cases op) auto
  then show ?case
  proof cases
    case 1
    then show ?thesis using 6 by auto
  next
    case 2
    with "6.prems" obtain p q p' q' where r: "visit a False r = Inr p" "visit b ((op = Xor) \<noteq> neg) (snd p) = Inr q"
      "visit a True (snd q) = Inr p'" "visit b (\<not> ((op = Xor) \<noteq> neg)) (snd p') = Inr q'"
      "g = simplify_formula (join Or [join And [fst p, fst q], join And [fst p', fst q']])"
      by (auto simp: Let_def res_simps split: if_splits)
    have ni: "op \<noteq> Imp" using 2 by auto
    have "is_nnf (fst p)" "is_nnf (fst q)" "is_nnf (fst p')" "is_nnf (fst q')"
      using "6.IH"(2) [OF ni 2 refl, of "fst p" "snd p"] "6.IH"(3) [OF ni 2 refl r(1), of "fst q" "snd q"]
        "6.IH"(4) [OF ni 2 refl r(1,2), of "fst p'" "snd p'"] "6.IH"(5) [OF ni 2 refl r(1,2,3), of "fst q'" "snd q'"] r
      by simp_all
    then show ?thesis unfolding r(5) by (intro nnf_simplify nnf_join) (simp_all add: nnf_join del: join.simps)
  next
    case 3
    then have n: "op \<noteq> Imp" "\<not> (op = Iff \<or> op = Xor)" by auto
    with "6.prems" obtain p q where r: "visit a neg r = Inr p" "visit b neg (snd p) = Inr q"
      "g = simplify_formula (FBin (if neg then dual op else op) (fst p) (fst q))"
      by (auto simp: Let_def res_simps split: if_splits)
    have "is_nnf (fst p)" "is_nnf (fst q)"
      using "6.IH"(6) [OF n refl, of "fst p" "snd p"] "6.IH"(7) [OF n refl r(1), of "fst q" "snd q"] r by simp_all
    then show ?thesis unfolding r(3) using 3 by (intro nnf_simplify) (auto simp: dual_def)
  qed
qed auto

text \<open>When \<open>to_nnf\<close> returns, its result is in negation normal form and means the formula, or
  its negation when asked for.\<close>

theorem to_nnf_correct:
  assumes "to_nnf f negate budget = Inr g"
  shows "is_nnf g \<and> (\<forall>v. sem g v = (sem f v \<noteq> negate))"
  using assms sem_visit nnf_visit by (fastforce simp: to_nnf_def res_simps)

theorem to_nnf_correct_witness:
  "to_nnf (FBin Imp (FVar [112]) (FBin And (FVar [113]) (FVar [114]))) True 2048
     = Inr (FBin And (FBin Or (FNot (FVar [113])) (FNot (FVar [114]))) (FVar [112]))
   \<and> (\<forall>v. sem (FBin And (FBin Or (FNot (FVar [113])) (FNot (FVar [114]))) (FVar [112])) v
        = (sem (FBin Imp (FVar [112]) (FBin And (FVar [113]) (FVar [114]))) v \<noteq> True))"
proof -
  have e: "to_nnf (FBin Imp (FVar [112]) (FBin And (FVar [113]) (FVar [114]))) True 2048
     = Inr (FBin And (FBin Or (FNot (FVar [113])) (FNot (FVar [114]))) (FVar [112]))"
    by code_simp
  with to_nnf_correct [OF e] show ?thesis by blast
qed

end
