(* ===== verification/Logic_Diagram.thy ===== *)
theory Logic_Diagram
  imports Logic_Formula
begin

text \<open>
  The reduced ordered decision diagrams of \<open>logic_ir.py\<close>: \<open>decision_diagram\<close> builds the diagram of
  a formula from its truth table by Shannon cofactors, sharing equal nodes through a table of
  unique triples. Node numbers 0 and 1 are the two constants.
\<close>

section \<open>Construction\<close>

record dd_node =
  dd_id :: nat
  dd_var :: utext
  dd_low :: nat
  dd_high :: nat

text \<open>The dictionary \<open>unique\<close> and the list \<open>nodes\<close> that the inner function \<open>build\<close> updates.\<close>

record dd_state =
  unique :: "((nat \<times> nat \<times> nat) \<times> nat) list"
  dd_nodes :: "dd_node list"

fun every_other :: "'a list \<Rightarrow> 'a list" where
  "every_other [] = []"
| "every_other [x] = [x]"
| "every_other (x # y # zs) = x # every_other zs"

lemma length_every_other [simp]: "length (every_other xs) = (length xs + 1) div 2"
  by (induction xs rule: every_other.induct) auto

lemma nth_every_other: "2 * k < length xs \<Longrightarrow> every_other xs ! k = xs ! (2 * k)"
  by (induction xs arbitrary: k rule: every_other.induct) (auto simp: nth_Cons split: nat.split)

definition dd_key :: "utext list \<Rightarrow> nat \<Rightarrow> nat \<Rightarrow> nat \<Rightarrow> dd_state \<Rightarrow> exc + nat \<times> dd_state" where
  "dd_key names level low high st =
     (case map_of (unique st) (level, low, high) of
        Some i \<Rightarrow> Inr (i, st)
      | None \<Rightarrow>
          if level < length names then
            (let ident = length (dd_nodes st) + 2 in
             Inr (ident, st\<lparr>unique := dict_set (level, low, high) ident (unique st),
               dd_nodes := dd_nodes st @ [\<lparr>dd_id = ident, dd_var = names ! level, dd_low = low, dd_high = high\<rparr>]\<rparr>))
          else Inl IndexErr)"

text \<open>\<open>values[::2]\<close> and \<open>values[1::2]\<close> are the tables of the two cofactors.\<close>

function build :: "utext list \<Rightarrow> bool list \<Rightarrow> nat \<Rightarrow> dd_state \<Rightarrow> exc + nat \<times> dd_state" where
  "build names [] level st = Inl IndexErr"
| "build names (x # xs) level st =
     (if list_all (\<lambda>y. y = x) xs then Inr (of_bool x, st)
      else rbind (build names (every_other (x # xs)) (Suc level) st) (\<lambda>p.
           rbind (build names (every_other xs) (Suc level) (snd p)) (\<lambda>q.
           if fst p = fst q then Inr (fst p, snd q)
           else dd_key names level (fst p) (fst q) (snd q))))"
  by pat_completeness auto

lemma every_other_shorter: "\<not> list_all P xs \<Longrightarrow> length (every_other (x # xs)) < length (x # xs)"
  by (cases xs) (auto simp: less_Suc_eq_le)

termination build
proof (relation "measure (\<lambda>(names, vs, level, st). length vs)", goal_cases)
  case (2 names x xs level st)
  then show ?case using every_other_shorter [of "\<lambda>y. y = x" xs x] by simp
next
  case (3 names x xs level st p)
  then show ?case by (cases xs) auto
qed simp

record diagram =
  dd_root :: nat
  dd_table :: "dd_node list"
  dd_order :: "utext list"
  independent :: "utext list"

definition decision_diagram :: "formula \<Rightarrow> exc + diagram" where
  "decision_diagram f =
     rbind (variables [f]) (\<lambda>names.
     rbind (rmap (\<lambda>i. evaluate f (assignment_for i names)) [0..<2 ^ length names]) (\<lambda>table.
     rbind (build names table 0 \<lparr>unique = [], dd_nodes = []\<rparr>) (\<lambda>p.
     Inr \<lparr>dd_root = fst p, dd_table = dd_nodes (snd p), dd_order = names,
          independent = sort (filter (\<lambda>n. n \<notin> dd_var ` set (dd_nodes (snd p))) names)\<rparr>)))"

section \<open>The value of a diagram\<close>

text \<open>Nodes are listed after their children, so one pass over the list evaluates all of them.\<close>

definition dd_row :: "(utext \<Rightarrow> bool) \<Rightarrow> bool list \<Rightarrow> dd_node \<Rightarrow> bool list" where
  "dd_row v t n = t @ [if v (dd_var n) then t ! dd_high n else t ! dd_low n]"

definition dd_values :: "(utext \<Rightarrow> bool) \<Rightarrow> dd_node list \<Rightarrow> bool list" where
  "dd_values v ns = foldl (dd_row v) [False, True] ns"

definition dd_eval :: "diagram \<Rightarrow> (utext \<Rightarrow> bool) \<Rightarrow> bool" where
  "dd_eval d v = dd_values v (dd_table d) ! dd_root d"

lemma dd_values_snoc: "dd_values v (ns @ [n]) = dd_row v (dd_values v ns) n"
  by (simp add: dd_values_def)

lemma length_dd_values [simp]: "length (dd_values v ns) = length ns + 2"
  by (induction ns rule: rev_induct) (auto simp: dd_values_snoc dd_row_def, simp add: dd_values_def)

lemma dd_values_append: "i < length ns + 2 \<Longrightarrow> dd_values v (ns @ ms) ! i = dd_values v ns ! i"
  by (induction ms rule: rev_induct)
    (simp_all add: append_assoc [symmetric] dd_values_snoc dd_row_def nth_append del: append_assoc)

section \<open>Well-formed construction states\<close>

text \<open>The level a node number stands on: that of its triple, or below all levels for a constant.\<close>

definition level_of :: "dd_state \<Rightarrow> nat \<Rightarrow> nat option" where
  "level_of st i = (if i < 2 then None else Some (fst (fst (unique st ! (i - 2)))))"

definition below :: "dd_state \<Rightarrow> nat \<Rightarrow> nat \<Rightarrow> bool" where
  "below st l i \<longleftrightarrow> i < length (unique st) + 2 \<and> (case level_of st i of None \<Rightarrow> True | Some m \<Rightarrow> l \<le> m)"

definition node_ok :: "utext list \<Rightarrow> dd_state \<Rightarrow> nat \<Rightarrow> bool" where
  "node_ok names st k \<longleftrightarrow> (case unique st ! k of ((l, low, high), i) \<Rightarrow>
     i = k + 2 \<and> l < length names \<and> low \<noteq> high \<and> low < i \<and> high < i \<and> below st (Suc l) low \<and> below st (Suc l) high
     \<and> dd_nodes st ! k = \<lparr>dd_id = i, dd_var = names ! l, dd_low = low, dd_high = high\<rparr>)"

definition dd_ok :: "utext list \<Rightarrow> dd_state \<Rightarrow> bool" where
  "dd_ok names st \<longleftrightarrow> length (unique st) = length (dd_nodes st) \<and> distinct (map fst (unique st))
     \<and> (\<forall>k < length (unique st). node_ok names st k)"

text \<open>A state extends another when both lists only got longer.\<close>

definition extends :: "dd_state \<Rightarrow> dd_state \<Rightarrow> bool" where
  "extends st st' \<longleftrightarrow> (\<exists>us ns. unique st' = unique st @ us \<and> dd_nodes st' = dd_nodes st @ ns)"

lemma extends_refl [simp, intro]: "extends st st"
  by (simp add: extends_def)

lemma extends_trans [trans]: "extends s t \<Longrightarrow> extends t r \<Longrightarrow> extends s r"
  by (auto simp: extends_def)

lemma below_extends: "extends st st' \<Longrightarrow> below st l i \<Longrightarrow> below st' l i"
  by (auto simp: extends_def below_def level_of_def nth_append split: option.splits if_splits)

lemma below_mono: "below st m i \<Longrightarrow> l \<le> m \<Longrightarrow> below st l i"
  by (auto simp: below_def split: option.splits)

lemma values_extends:
  "extends st st' \<Longrightarrow> dd_ok names st \<Longrightarrow> below st l i \<Longrightarrow> dd_values v (dd_nodes st') ! i = dd_values v (dd_nodes st) ! i"
  by (auto simp: extends_def below_def dd_ok_def dd_values_append)

lemma unique_lookup:
  assumes "dd_ok names st" "map_of (unique st) (l, low, high) = Some i"
  shows "i \<ge> 2" "i - 2 < length (unique st)" "unique st ! (i - 2) = ((l, low, high), i)"
proof -
  obtain k where k: "k < length (unique st)" "unique st ! k = ((l, low, high), i)"
    using map_of_SomeD [OF assms(2)] by (auto simp: in_set_conv_nth)
  then have "node_ok names st k" using assms(1) by (simp add: dd_ok_def)
  then have "i = k + 2" by (simp add: node_ok_def k)
  with k show "i \<ge> 2" "i - 2 < length (unique st)" "unique st ! (i - 2) = ((l, low, high), i)" by simp_all
qed

lemma values_node:
  assumes ok: "dd_ok names st" and u: "map_of (unique st) (l, low, high) = Some i"
  shows "dd_values v (dd_nodes st) ! i
    = (if v (names ! l) then dd_values v (dd_nodes st) ! high else dd_values v (dd_nodes st) ! low)"
proof -
  let ?k = "i - 2" and ?ns = "dd_nodes st"
  note i = unique_lookup [OF ok u]
  have k: "?k < length ?ns" and n: "node_ok names st ?k" using ok i by (auto simp: dd_ok_def)
  have node: "?ns ! ?k = \<lparr>dd_id = i, dd_var = names ! l, dd_low = low, dd_high = high\<rparr>" "low < i" "high < i"
    using n i by (auto simp: node_ok_def)
  have split: "?ns = take ?k ?ns @ [?ns ! ?k] @ drop (Suc ?k) ?ns" using k by (simp add: id_take_nth_drop)
  have len: "length (take ?k ?ns) = ?k" using k by simp
  have v: "dd_values v ?ns ! j = dd_values v (take ?k ?ns) ! j" if "j < i" for j
  proof -
    have "j < length (take ?k ?ns) + 2" using that i(1) len by simp
    from dd_values_append [OF this, of v "[?ns ! ?k] @ drop (Suc ?k) ?ns"] show ?thesis
      using split by metis
  qed
  have "dd_values v ?ns ! i = dd_values v (take ?k ?ns @ [?ns ! ?k]) ! i"
  proof -
    have "i < length (take ?k ?ns @ [?ns ! ?k]) + 2" using i(1) len by simp
    from dd_values_append [OF this, of v "drop (Suc ?k) ?ns"] show ?thesis
      using split by (metis append_assoc)
  qed
  also have "\<dots> = (if v (names ! l) then dd_values v (take ?k ?ns) ! high else dd_values v (take ?k ?ns) ! low)"
  proof -
    have "length (dd_values v (take ?k ?ns)) = i" using i(1) len by simp
    then show ?thesis unfolding dd_values_snoc dd_row_def node(1) by (metis dd_node.select_convs(2,3,4) nth_append_length)
  qed
  finally show ?thesis using v node by simp
qed

section \<open>What \<open>build\<close> returns\<close>

definition table_index :: "utext list \<Rightarrow> (utext \<Rightarrow> bool) \<Rightarrow> nat" where
  "table_index ns v = horner_sum of_bool 2 (map v ns)"

lemma table_index_Cons: "table_index (n # ns) v = of_bool (v n) + 2 * table_index ns v"
  by (simp add: table_index_def)

lemma table_index_less: "table_index ns v < 2 ^ length ns"
  using index_of_less [of v ns] by (simp add: table_index_def index_of_def)

text \<open>\<open>dd_key\<close> and then \<open>build\<close> extend the state and keep it well formed; the node they return
  stands at or below the level and computes the table.\<close>

definition built_node :: "utext list \<Rightarrow> nat \<Rightarrow> dd_state \<Rightarrow> nat \<Rightarrow> dd_state \<Rightarrow> bool" where
  "built_node names level st i st' \<longleftrightarrow> dd_ok names st' \<and> extends st st' \<and> below st' level i"

lemma dict_set_new: "k \<notin> fst ` set d \<Longrightarrow> dict_set k v d = d @ [(k, v)]"
  by (induction d) (auto simp: dict_set_def)

lemma dd_key_built:
  assumes ok: "dd_ok names st" and l: "level < length names" and ne: "low \<noteq> high"
    and b: "below st (Suc level) low" "below st (Suc level) high"
  shows "\<exists>i st'. dd_key names level low high st = Inr (i, st') \<and> built_node names level st i st'
    \<and> map_of (unique st') (level, low, high) = Some i"
proof (cases "map_of (unique st) (level, low, high)")
  case (Some i)
  note i = unique_lookup [OF ok Some]
  have "below st level i" using i by (auto simp: below_def level_of_def)
  then show ?thesis using Some ok by (auto simp: dd_key_def built_node_def)
next
  case None
  define i where "i = length (dd_nodes st) + 2"
  define st' where "st' = st\<lparr>unique := unique st @ [((level, low, high), i)],
    dd_nodes := dd_nodes st @ [\<lparr>dd_id = i, dd_var = names ! level, dd_low = low, dd_high = high\<rparr>]\<rparr>"
  have new: "(level, low, high) \<notin> fst ` set (unique st)" using None by (simp add: map_of_eq_None_iff)
  then have key: "dd_key names level low high st = Inr (i, st')"
    using None l by (simp add: dd_key_def i_def st'_def dict_set_new)
  have ext: "extends st st'" by (simp add: extends_def st'_def)
  have len: "length (unique st) = length (dd_nodes st)" using ok by (simp add: dd_ok_def)
  have "node_ok names st' k" if k: "k < length (unique st')" for k
  proof (cases "k < length (unique st)")
    case True
    then have "node_ok names st k" using ok by (simp add: dd_ok_def)
    moreover have "unique st' ! k = unique st ! k" "dd_nodes st' ! k = dd_nodes st ! k"
      using True len by (simp_all add: st'_def nth_append)
    ultimately show ?thesis by (auto simp: node_ok_def intro: below_extends [OF ext])
  next
    case False
    then have k': "k = length (unique st)" using k by (simp add: st'_def)
    have "unique st' ! k = ((level, low, high), i)" "dd_nodes st' ! k = \<lparr>dd_id = i, dd_var = names ! level, dd_low = low, dd_high = high\<rparr>"
      unfolding k' by (simp add: st'_def nth_append, simp add: st'_def nth_append len)
    moreover have "low < i" "high < i" using b by (simp_all add: below_def i_def len)
    ultimately show ?thesis
      using l ne b by (auto simp: node_ok_def k' i_def len intro: below_extends [OF ext])
  qed
  moreover have "distinct (map fst (unique st'))" using ok new by (simp add: dd_ok_def st'_def)
  ultimately have "dd_ok names st'" using len by (simp add: dd_ok_def st'_def)
  moreover have "below st' level i" by (simp add: below_def level_of_def st'_def i_def nth_append flip: len)
  moreover have "map_of (unique st') (level, low, high) = Some i" using new by (simp add: st'_def map_add_def map_of_eq_None_iff [symmetric])
  ultimately show ?thesis using key ext by (auto simp: built_node_def)
qed

lemma const_table: "list_all (\<lambda>y. y = x) xs \<Longrightarrow> k < length (x # xs) \<Longrightarrow> (x # xs) ! k = x"
  by (cases k) (auto simp: list_all_length)

lemma cofactors:
  assumes "length (x # xs) = 2 ^ Suc n"
  shows "length (every_other (x # xs)) = 2 ^ n" "length (every_other xs) = 2 ^ n"
    "k < 2 ^ n \<Longrightarrow> every_other (x # xs) ! k = (x # xs) ! (2 * k)"
    "k < 2 ^ n \<Longrightarrow> every_other xs ! k = (x # xs) ! Suc (2 * k)"
  using assms nth_every_other [of k "x # xs"] nth_every_other [of k xs] by auto

lemma build_correct:
  assumes "dd_ok names st" and "level + n = length names" and "length vs = 2 ^ n"
  shows "\<exists>i st'. build names vs level st = Inr (i, st') \<and> built_node names level st i st'
    \<and> (\<forall>v. dd_values v (dd_nodes st') ! i = vs ! table_index (drop level names) v)"
  using assms
proof (induction n arbitrary: vs level st)
  case 0
  then obtain x where vs: "vs = [x]" by (auto simp: length_Suc_conv)
  have "dd_values v (dd_nodes st) ! of_bool x = x" for v
    using dd_values_append [of "of_bool x" "[]" v "dd_nodes st"] by (cases x) (simp_all add: dd_values_def)
  with 0 vs show ?case by (auto simp: built_node_def below_def level_of_def table_index_def)
next
  case (Suc n)
  obtain x xs where vs: "vs = x # xs" using Suc.prems(3) by (cases vs) auto
  have l: "level < length names" and drop: "drop level names = names ! level # drop (Suc level) names"
    using Suc.prems(2) by (simp_all add: Cons_nth_drop_Suc)
  note cof = cofactors [OF Suc.prems(3) [unfolded vs]]
  have idx: "table_index (drop (Suc level) names) v < 2 ^ n" for v
  proof -
    have "length (drop (Suc level) names) = n" using Suc.prems(2) by simp
    then show ?thesis using table_index_less [of "drop (Suc level) names" v] by simp
  qed
  show ?case
  proof (cases "list_all (\<lambda>y. y = x) xs")
    case True
    have "dd_values v (dd_nodes st) ! of_bool x = x" for v
      using dd_values_append [of "of_bool x" "[]" v "dd_nodes st"] by (cases x) (simp_all add: dd_values_def)
    moreover have "vs ! table_index (drop level names) v = x" for v
      unfolding vs by (rule const_table [OF True]) (use table_index_less [of "drop level names" v] Suc.prems vs in \<open>simp flip: Suc.prems(2)\<close>)
    ultimately show ?thesis using True Suc.prems(1) vs by (auto simp: built_node_def below_def level_of_def)
  next
    case False
    obtain low s1 where low: "build names (every_other (x # xs)) (Suc level) st = Inr (low, s1)"
      "built_node names (Suc level) st low s1"
      "\<And>v. dd_values v (dd_nodes s1) ! low = every_other (x # xs) ! table_index (drop (Suc level) names) v"
      using Suc.IH [OF Suc.prems(1), of "Suc level" "every_other (x # xs)"] Suc.prems(2) cof(1) by auto
    obtain high s2 where high: "build names (every_other xs) (Suc level) s1 = Inr (high, s2)"
      "built_node names (Suc level) s1 high s2"
      "\<And>v. dd_values v (dd_nodes s2) ! high = every_other xs ! table_index (drop (Suc level) names) v"
      using Suc.IH [of s1 "Suc level" "every_other xs"] low(2) Suc.prems(2) cof(2) by (auto simp: built_node_def)
    have s2: "dd_ok names s2" "extends st s2" "below s2 (Suc level) low" "below s2 (Suc level) high"
      using low(2) high(2) by (auto simp: built_node_def intro: extends_trans below_extends)
    have lv: "dd_values v (dd_nodes s2) ! low = every_other (x # xs) ! table_index (drop (Suc level) names) v" for v
      using values_extends [of s1 s2 names "Suc level" low v] low(2,3) high(2) by (simp add: built_node_def)
    have split: "vs ! table_index (drop level names) v
      = (if v (names ! level) then dd_values v (dd_nodes s2) ! high else dd_values v (dd_nodes s2) ! low)" for v
      using idx [of v] cof(3,4) lv high(3) by (simp add: vs drop table_index_Cons)
    have here: "build names vs level st = (if low = high then Inr (low, s2) else dd_key names level low high s2)"
      using False low(1) high(1) by (simp add: vs)
    show ?thesis
    proof (cases "low = high")
      case True
      then show ?thesis using here s2 split by (auto simp: built_node_def intro: below_mono)
    next
      case ne: False
      obtain i s3 where k: "dd_key names level low high s2 = Inr (i, s3)" "built_node names level s2 i s3"
        "map_of (unique s3) (level, low, high) = Some i"
        using dd_key_built [OF s2(1) l ne s2(3,4)] by blast
      have "dd_values v (dd_nodes s3) ! i = vs ! table_index (drop level names) v" for v
        unfolding split using values_node [of names s3 level low high i v] k(2,3)
          values_extends [of s2 s3 names "Suc level"] s2 by (simp add: built_node_def)
      then show ?thesis using here ne k(1,2) s2(2) by (auto simp: built_node_def intro: extends_trans)
    qed
  qed
qed

section \<open>Unused variables\<close>

text \<open>Building a table again in a later state finds every node in the table of unique triples.\<close>

lemma extends_lookup:
  assumes "dd_ok names st'" "extends st st'" "map_of (unique st) key = Some i"
  shows "map_of (unique st') key = Some i"
  using assms by (auto simp: extends_def dd_ok_def map_add_def)

lemma build_again:
  assumes "dd_ok names st" and "level + n = length names" and "length vs = 2 ^ n"
    and "build names vs level st = Inr (i, st1)" and "extends st1 st2" and "dd_ok names st2"
  shows "build names vs level st2 = Inr (i, st2)"
  using assms
proof (induction n arbitrary: vs level st i st1)
  case 0
  then obtain x where "vs = [x]" by (auto simp: length_Suc_conv)
  with 0 show ?case by simp
next
  case (Suc n)
  obtain x xs where vs: "vs = x # xs" using Suc.prems(3) by (cases vs) auto
  note cof = cofactors [OF Suc.prems(3) [unfolded vs]]
  have l: "level < length names" and n: "Suc level + n = length names" using Suc.prems(2) by simp_all
  show ?case
  proof (cases "list_all (\<lambda>y. y = x) xs")
    case True
    then show ?thesis using Suc.prems(4) vs by simp
  next
    case False
    obtain low s1 where low: "build names (every_other (x # xs)) (Suc level) st = Inr (low, s1)"
      "built_node names (Suc level) st low s1"
      using build_correct [OF Suc.prems(1) n cof(1)] by blast
    then have ok1: "dd_ok names s1" by (simp add: built_node_def)
    obtain high s where high: "build names (every_other xs) (Suc level) s1 = Inr (high, s)"
      "built_node names (Suc level) s1 high s"
      using build_correct [OF ok1 n cof(2)] by blast
    have here: "(if low = high then Inr (low, s) else dd_key names level low high s) = Inr (i, st1)"
      using Suc.prems(4) False low(1) high(1) by (simp add: vs split: if_splits)
    have key: "extends s st1 \<and> (low \<noteq> high \<longrightarrow> map_of (unique st1) (level, low, high) = Some i)"
    proof (cases "low = high")
      case False
      have "dd_ok names s" "below s (Suc level) low" "below s (Suc level) high"
        using low(2) high(2) by (auto simp: built_node_def intro: below_extends)
      from dd_key_built [OF this(1) l False this(2,3)] here False show ?thesis
        by (auto simp: built_node_def)
    qed (use here in auto)
    have s12: "extends s st2" "extends s1 st2"
      using key Suc.prems(5) high(2) by (auto simp: built_node_def intro: extends_trans)
    have "build names (every_other (x # xs)) (Suc level) st2 = Inr (low, st2)"
      by (rule Suc.IH [OF Suc.prems(1) n cof(1) low(1) s12(2) Suc.prems(6)])
    moreover have "build names (every_other xs) (Suc level) st2 = Inr (high, st2)"
      by (rule Suc.IH [OF ok1 n cof(2) high(1) s12(1) Suc.prems(6)])
    moreover have "low = high \<longrightarrow> i = low" using here by auto
    moreover have "low \<noteq> high \<longrightarrow> map_of (unique st2) (level, low, high) = Some i"
      using key extends_lookup [OF Suc.prems(6,5)] by blast
    ultimately show ?thesis using False by (auto simp: vs dd_key_def)
  qed
qed

text \<open>A table that does not depend on the variable \<open>k\<close> levels down adds no node on that level.\<close>

primrec free_at :: "nat \<Rightarrow> bool list \<Rightarrow> bool" where
  "free_at 0 vs = (every_other vs = every_other (tl vs))"
| "free_at (Suc k) vs = (free_at k (every_other vs) \<and> free_at k (every_other (tl vs)))"

definition levels :: "dd_state \<Rightarrow> nat set" where
  "levels st = (fst \<circ> fst) ` set (unique st)"

lemma dd_key_levels: "dd_key names level low high st = Inr (i, st') \<Longrightarrow> levels st' \<subseteq> insert level (levels st)"
  by (auto simp: dd_key_def levels_def keys_dict_set dest!: set_dict_set_subset [THEN subsetD] split: option.splits if_splits)

lemma build_levels: "build names vs level st = Inr (i, st') \<Longrightarrow> levels st' \<subseteq> levels st \<union> {level..}"
proof (induction names vs level st arbitrary: i st' rule: build.induct)
  case (2 names x xs level st)
  show ?case
  proof (cases "list_all (\<lambda>y. y = x) xs")
    case False
    with "2.prems" obtain p q where r: "build names (every_other (x # xs)) (Suc level) st = Inr p"
      "build names (every_other xs) (Suc level) (snd p) = Inr q"
      "(if fst p = fst q then Inr (fst p, snd q) else dd_key names level (fst p) (fst q) (snd q)) = Inr (i, st')"
      by (auto simp: res_simps split: if_splits)
    have "levels (snd p) \<subseteq> levels st \<union> {Suc level..}" "levels (snd q) \<subseteq> levels (snd p) \<union> {Suc level..}"
      using "2.IH"(1) [OF False, of "fst p" "snd p"] "2.IH"(2) [OF False r(1), of "fst q" "snd q"] r(1,2) by simp_all
    moreover have "levels st' \<subseteq> insert level (levels (snd q))"
      using r(3) dd_key_levels [of names level "fst p" "fst q" "snd q" i st'] by (auto split: if_splits)
    ultimately show ?thesis by fastforce
  qed (use "2.prems" in auto)
qed simp

lemma build_free:
  assumes "dd_ok names st" and "level + n = length names" and "length vs = 2 ^ n"
    and "free_at k vs" and "k < n" and "build names vs level st = Inr (i, st')" and "level + k \<notin> levels st"
  shows "level + k \<notin> levels st'"
  using assms
proof (induction n arbitrary: vs level st i st' k)
  case (Suc n)
  obtain x xs where vs: "vs = x # xs" using Suc.prems(3) by (cases vs) auto
  note cof = cofactors [OF Suc.prems(3) [unfolded vs]]
  have l: "level < length names" and n: "Suc level + n = length names" using Suc.prems(2) by simp_all
  show ?case
  proof (cases "list_all (\<lambda>y. y = x) xs")
    case True
    then show ?thesis using Suc.prems(6,7) vs by simp
  next
    case False
    obtain low s1 where low: "build names (every_other (x # xs)) (Suc level) st = Inr (low, s1)"
      "built_node names (Suc level) st low s1"
      using build_correct [OF Suc.prems(1) n cof(1)] by blast
    then have ok1: "dd_ok names s1" by (simp add: built_node_def)
    obtain high s where high: "build names (every_other xs) (Suc level) s1 = Inr (high, s)"
      "built_node names (Suc level) s1 high s"
      using build_correct [OF ok1 n cof(2)] by blast
    have here: "(if low = high then Inr (low, s) else dd_key names level low high s) = Inr (i, st')"
      using Suc.prems(6) False low(1) high(1) by (simp add: vs split: if_splits)
    show ?thesis
    proof (cases k)
      case 0
      then have same: "every_other xs = every_other (x # xs)" using Suc.prems(4) by (simp add: vs)
      have "high = low" "s = s1"
        using build_again [OF Suc.prems(1) n cof(1) low(1) extends_refl ok1] high(1) by (simp_all add: same)
      then have "st' = s1" using here by simp
      moreover have "level \<notin> levels s1" using build_levels [OF low(1)] Suc.prems(7) 0 by auto
      ultimately show ?thesis using 0 by simp
    next
      case (Suc k')
      have f: "free_at k' (every_other (x # xs))" "free_at k' (every_other xs)" and k': "k' < n"
        using Suc.prems(4,5) Suc by (simp_all add: vs)
      have "Suc level + k' \<notin> levels s1"
        using Suc.IH [OF Suc.prems(1) n cof(1) f(1) k' low(1)] Suc.prems(7) Suc by simp
      then have "Suc level + k' \<notin> levels s" by (rule Suc.IH [OF ok1 n cof(2) f(2) k' high(1)])
      moreover have "levels st' \<subseteq> insert level (levels s)"
        using here dd_key_levels [of names level low high s i st'] by (auto split: if_splits)
      ultimately show ?thesis using Suc by auto
    qed
  qed
qed simp

section \<open>Diagrams of formulas\<close>

definition table_of :: "formula \<Rightarrow> utext list \<Rightarrow> bool list" where
  "table_of f ns = map (\<lambda>i. sem f (valuation i ns)) [0..<2 ^ length ns]"

lemma decision_diagram_table:
  assumes "variables [f] = Inr ns"
  obtains i st where "build ns (table_of f ns) 0 \<lparr>unique = [], dd_nodes = []\<rparr> = Inr (i, st)"
    and "built_node ns 0 \<lparr>unique = [], dd_nodes = []\<rparr> i st"
    and "\<forall>v. dd_values v (dd_nodes st) ! i = sem f v"
    and "decision_diagram f = Inr \<lparr>dd_root = i, dd_table = dd_nodes st, dd_order = ns,
          independent = sort (filter (\<lambda>n. n \<notin> dd_var ` set (dd_nodes st)) ns)\<rparr>"
proof -
  let ?st = "\<lparr>unique = [], dd_nodes = []\<rparr>"
  have d: "distinct ns" and v: "vars f \<subseteq> set ns" using variables_Inr [OF assms] by auto
  have "dd_ok ns ?st" by (simp add: dd_ok_def)
  from build_correct [OF this, of 0 "length ns" "table_of f ns"]
  obtain i st where b: "build ns (table_of f ns) 0 ?st = Inr (i, st)" "built_node ns 0 ?st i st"
    "\<And>v. dd_values v (dd_nodes st) ! i = table_of f ns ! table_index ns v"
    by (auto simp: table_of_def)
  have "rmap (\<lambda>i. evaluate f (assignment_for i ns)) [0..<2 ^ length ns] = Inr (table_of f ns)"
    unfolding table_of_def by (rule rmap_total) (rule evaluate_assignment [OF v d])
  then have dd: "decision_diagram f = Inr \<lparr>dd_root = i, dd_table = dd_nodes st, dd_order = ns,
          independent = sort (filter (\<lambda>n. n \<notin> dd_var ` set (dd_nodes st)) ns)\<rparr>"
    by (simp add: decision_diagram_def assms b(1))
  have "table_of f ns ! table_index ns w = sem f w" for w
  proof -
    have "table_of f ns ! table_index ns w = sem f (valuation (index_of w ns) ns)"
      using table_index_less [of ns w] by (simp add: table_of_def table_index_def index_of_def)
    also have "\<dots> = sem f w" using valuation_index_of [OF d] v by (intro sem_cong) auto
    finally show ?thesis .
  qed
  then show thesis using that [OF b(1,2) _ dd] b(3) by simp
qed

lemma set_clear_bit: "\<not> bit j k \<Longrightarrow> set_bit k j = j + 2 ^ k" for j :: nat
  by (simp add: set_bit_eq)

lemma add_bit_less: "\<not> bit j k \<Longrightarrow> j < 2 ^ n \<Longrightarrow> k < n \<Longrightarrow> j + 2 ^ k < 2 ^ n" for j :: nat
  using take_bit_set_bit_eq [of n k j] by (simp add: set_clear_bit take_bit_nat_eq_self take_bit_nat_eq_self_iff)

lemma free_atI:
  assumes "length vs = 2 ^ n" "k < n" "\<And>i. i < 2 ^ n \<Longrightarrow> \<not> bit i k \<Longrightarrow> vs ! i = vs ! (i + 2 ^ k)"
  shows "free_at k vs"
  using assms
proof (induction k arbitrary: vs n)
  case 0
  obtain n' where n: "n = Suc n'" using 0 by (cases n) auto
  obtain x xs where vs: "vs = x # xs" using 0(1) by (cases vs) auto
  note cof = cofactors [OF 0(1) [unfolded vs n]]
  have "vs ! (2 * j) = vs ! Suc (2 * j)" if "j < 2 ^ n'" for j
    using 0(3) [of "2 * j"] that n by (simp add: bit_0)
  then show ?case using cof by (auto simp: vs intro!: nth_equalityI)
next
  case (Suc k)
  obtain n' where n: "n = Suc n'" using Suc.prems by (cases n) auto
  obtain x xs where vs: "vs = x # xs" using Suc.prems(1) by (cases vs) auto
  note cof = cofactors [OF Suc.prems(1) [unfolded vs n]]
  have k: "k < n'" using Suc.prems(2) n by simp
  have "every_other (x # xs) ! j = every_other (x # xs) ! (j + 2 ^ k)" "every_other xs ! j = every_other xs ! (j + 2 ^ k)"
    if j: "j < 2 ^ n'" "\<not> bit j k" for j
  proof -
    have jk: "j + 2 ^ k < 2 ^ n'" using add_bit_less [OF j(2,1) k] .
    have "vs ! (2 * j) = vs ! (2 * j + 2 ^ Suc k)" using j n by (intro Suc.prems(3)) (simp_all add: bit_double_iff)
    moreover have "vs ! (Suc (2 * j)) = vs ! (Suc (2 * j) + 2 ^ Suc k)"
      using j n by (intro Suc.prems(3)) (simp_all add: bit_Suc)
    ultimately show "every_other (x # xs) ! j = every_other (x # xs) ! (j + 2 ^ k)" "every_other xs ! j = every_other xs ! (j + 2 ^ k)"
      using cof(3,4) [OF j(1)] cof(3,4) [OF jk] by (simp_all add: vs)
  qed
  then show ?case
    using Suc.IH [OF cof(1) k] Suc.IH [OF cof(2) k] by (simp add: vs)
qed

lemma values_unused: "n \<notin> dd_var ` set ns \<Longrightarrow> dd_values (v(n := b)) ns = dd_values v ns"
  by (induction ns rule: rev_induct) (auto simp: dd_values_snoc dd_row_def, simp add: dd_values_def)

lemma node_at:
  assumes "dd_ok names st" "k < length (dd_nodes st)"
  obtains l low high where "unique st ! k = ((l, low, high), k + 2)" "l < length names" "low \<noteq> high" "low < k + 2"
    "high < k + 2" "below st (Suc l) low" "below st (Suc l) high"
    "dd_nodes st ! k = \<lparr>dd_id = k + 2, dd_var = names ! l, dd_low = low, dd_high = high\<rparr>"
proof -
  obtain l low high i where u: "unique st ! k = ((l, low, high), i)" by (metis prod.exhaust)
  have "node_ok names st k" using assms by (simp add: dd_ok_def)
  with u that show thesis by (auto simp: node_ok_def)
qed

lemma used_variables:
  assumes ok: "dd_ok names st" and d: "distinct names" and k: "k < length names"
  shows "names ! k \<in> dd_var ` set (dd_nodes st) \<longleftrightarrow> k \<in> levels st"
proof -
  have len: "length (unique st) = length (dd_nodes st)" using ok by (simp add: dd_ok_def)
  have "dd_var (dd_nodes st ! j) = names ! k \<longleftrightarrow> (fst \<circ> fst) (unique st ! j) = k" if j: "j < length (dd_nodes st)" for j
  proof -
    obtain l low high where n: "unique st ! j = ((l, low, high), j + 2)" "l < length names" "dd_var (dd_nodes st ! j) = names ! l"
      by (rule node_at [OF ok j]) simp
    show ?thesis by (simp only: n(1,3) comp_apply fst_conv nth_eq_iff_index_eq [OF d n(2) k])
  qed
  moreover have "names ! k \<in> dd_var ` set (dd_nodes st) \<longleftrightarrow> (\<exists>j < length (dd_nodes st). dd_var (dd_nodes st ! j) = names ! k)"
    by (metis (no_types, lifting) image_iff in_set_conv_nth)
  moreover have "k \<in> levels st \<longleftrightarrow> (\<exists>j < length (dd_nodes st). (fst \<circ> fst) (unique st ! j) = k)"
    unfolding levels_def len [symmetric] by (auto simp: set_conv_nth)
  ultimately show ?thesis by blast
qed

lemma independent_correct:
  assumes "variables [f] = Inr ns" and n: "n \<in> vars f"
    and b: "build ns (table_of f ns) 0 \<lparr>unique = [], dd_nodes = []\<rparr> = Inr (i, st)"
    and bn: "built_node ns 0 \<lparr>unique = [], dd_nodes = []\<rparr> i st"
    and val: "\<And>v. dd_values v (dd_nodes st) ! i = sem f v"
  shows "n \<notin> dd_var ` set (dd_nodes st) \<longleftrightarrow> (\<forall>v x. sem f (v(n := x)) = sem f v)"
proof
  assume "n \<notin> dd_var ` set (dd_nodes st)"
  then show "\<forall>v x. sem f (v(n := x)) = sem f v" using values_unused [of n "dd_nodes st"] val by metis
next
  assume free: "\<forall>v x. sem f (v(n := x)) = sem f v"
  have d: "distinct ns" and vs: "vars f = set ns" using variables_Inr [OF assms(1)] by auto
  obtain k where k: "k < length ns" "ns ! k = n" using n vs by (auto simp: in_set_conv_nth)
  have ok: "dd_ok ns st" using bn by (simp add: built_node_def)
  have flip: "sem f (valuation (j + 2 ^ k) ns) = sem f (valuation j ns)" if "\<not> bit j k" for j
  proof -
    have "valuation (j + 2 ^ k) ns m = ((valuation j ns)(n := True)) m" if m: "m \<in> set ns" for m
    proof -
      obtain l where l: "l < length ns" "ns ! l = m" using m by (auto simp: in_set_conv_nth)
      show ?thesis
        using valuation_nth [OF d l(1)] l k d nth_eq_iff_index_eq [OF d l(1) k(1)]
        by (auto simp: bit_set_bit_iff simp flip: set_clear_bit [OF \<open>\<not> bit j k\<close>])
    qed
    then have "sem f (valuation (j + 2 ^ k) ns) = sem f ((valuation j ns)(n := True))" by (intro sem_cong) (simp add: vs)
    then show ?thesis using free by simp
  qed
  have "free_at k (table_of f ns)"
    by (intro free_atI [of _ "length ns"]) (simp_all add: table_of_def k(1) add_bit_less flip)
  moreover have "length (table_of f ns) = 2 ^ length ns" by (simp add: table_of_def)
  moreover have "dd_ok ns \<lparr>unique = [], dd_nodes = []\<rparr>" "0 + k \<notin> levels \<lparr>unique = [], dd_nodes = []\<rparr>"
    by (simp_all add: dd_ok_def levels_def)
  ultimately have "0 + k \<notin> levels st"
    using build_free [of ns _ 0 "length ns" "table_of f ns" k i st] b k(1) by simp
  then show "n \<notin> dd_var ` set (dd_nodes st)" using used_variables [OF ok d k(1)] k(2) by simp
qed

section \<open>Properties\<close>

text \<open>A diagram is reduced and ordered: the ids are consecutive, no node has equal children, no two
  nodes have the same variable and children, and children are constants or test later variables.\<close>

definition dd_reduced :: "diagram \<Rightarrow> bool" where
  "dd_reduced d \<longleftrightarrow> map dd_id (dd_table d) = [2..<length (dd_table d) + 2]
     \<and> distinct (map (\<lambda>n. (dd_var n, dd_low n, dd_high n)) (dd_table d))
     \<and> (\<forall>n \<in> set (dd_table d). dd_low n \<noteq> dd_high n)"

definition dd_ordered :: "diagram \<Rightarrow> bool" where
  "dd_ordered d \<longleftrightarrow> (\<forall>n \<in> set (dd_table d). \<forall>c \<in> {dd_low n, dd_high n}.
     c < dd_id n \<and> (\<forall>m \<in> set (dd_table d). dd_id m = c \<longrightarrow> dd_var n < dd_var m))"

lemma dd_ok_reduced:
  assumes ok: "dd_ok ns st" and d: "distinct ns"
  shows "dd_reduced \<lparr>dd_root = i, dd_table = dd_nodes st, dd_order = ns, independent = xs\<rparr>"
proof -
  let ?key = "\<lambda>n. (dd_var n, dd_low n, dd_high n)"
  have len: "length (unique st) = length (dd_nodes st)" and du: "distinct (map fst (unique st))"
    using ok by (simp_all add: dd_ok_def)
  have ids: "dd_id (dd_nodes st ! k) = k + 2" if "k < length (dd_nodes st)" for k
    by (rule node_at [OF ok that]) simp
  have "map dd_id (dd_nodes st) = [2..<length (dd_nodes st) + 2]"
    by (rule nth_equalityI) (simp_all add: ids del: upt_Suc)
  moreover have "distinct (map ?key (dd_nodes st))"
    unfolding distinct_conv_nth
  proof (intro allI impI notI)
    fix j k
    assume j: "j < length (map ?key (dd_nodes st))" and k: "k < length (map ?key (dd_nodes st))" and "j \<noteq> k"
      and eq: "map ?key (dd_nodes st) ! j = map ?key (dd_nodes st) ! k"
    have "fst (unique st ! j) = fst (unique st ! k)"
      by (rule node_at [OF ok, of j], use j in simp, rule node_at [OF ok, of k], use k in simp)
        (use eq j k d in \<open>simp add: nth_eq_iff_index_eq\<close>)
    with du \<open>j \<noteq> k\<close> j k len show False by (simp add: distinct_conv_nth)
  qed
  moreover have "dd_low n \<noteq> dd_high n" if "n \<in> set (dd_nodes st)" for n
    using that by (auto simp: in_set_conv_nth elim: node_at [OF ok])
  ultimately show ?thesis by (simp add: dd_reduced_def)
qed

lemma dd_ok_ordered:
  assumes ok: "dd_ok ns st" and d: "distinct ns" and s: "sorted ns"
  shows "dd_ordered \<lparr>dd_root = i, dd_table = dd_nodes st, dd_order = ns, independent = xs\<rparr>"
proof -
  have "dd_low (dd_nodes st ! k) < dd_id (dd_nodes st ! k) \<and> dd_high (dd_nodes st ! k) < dd_id (dd_nodes st ! k)"
    if "k < length (dd_nodes st)" for k
    by (rule node_at [OF ok that]) simp
  moreover have "dd_var (dd_nodes st ! k) < dd_var (dd_nodes st ! j)"
    if k: "k < length (dd_nodes st)" and j: "j < length (dd_nodes st)"
      and c: "dd_id (dd_nodes st ! j) = dd_low (dd_nodes st ! k) \<or> dd_id (dd_nodes st ! j) = dd_high (dd_nodes st ! k)" for j k
  proof -
    have less: "ns ! l < ns ! m" if "l < m" "m < length ns" for l m
      using s d that sorted_nth_mono [OF s, of l m] nth_eq_iff_index_eq [OF d, of l m] by (simp add: order_less_le)
    show ?thesis
      by (rule node_at [OF ok k], rule node_at [OF ok j]) (use c less in \<open>auto simp: below_def level_of_def\<close>)
  qed
  ultimately show ?thesis by (auto simp: dd_ordered_def in_set_conv_nth)
qed

text \<open>C12: the diagram of a formula has the value of the formula under every valuation, it is
  reduced and ordered, and the variables it reports independent are exactly those the formula
  does not depend on.\<close>

theorem decision_diagram_correct:
  assumes "decision_diagram f = Inr d"
  shows "(\<forall>v. dd_eval d v = sem f v) \<and> dd_reduced d \<and> dd_ordered d
    \<and> set (independent d) = {n \<in> vars f. \<forall>v x. sem f (v(n := x)) = sem f v}"
proof -
  obtain ns where ns: "variables [f] = Inr ns" using assms by (auto simp: decision_diagram_def res_simps)
  have n: "vars f = set ns" "distinct ns" "sorted ns" using variables_Inr [OF ns] by auto
  obtain i st where r: "build ns (table_of f ns) 0 \<lparr>unique = [], dd_nodes = []\<rparr> = Inr (i, st)"
    "built_node ns 0 \<lparr>unique = [], dd_nodes = []\<rparr> i st" "\<forall>v. dd_values v (dd_nodes st) ! i = sem f v"
    "decision_diagram f = Inr \<lparr>dd_root = i, dd_table = dd_nodes st, dd_order = ns,
      independent = sort (filter (\<lambda>n. n \<notin> dd_var ` set (dd_nodes st)) ns)\<rparr>"
    by (rule decision_diagram_table [OF ns]) (rule that)
  have ok: "dd_ok ns st" using r(2) by (simp add: built_node_def)
  show ?thesis
    using assms r(3,4) dd_ok_reduced [OF ok n(2)] dd_ok_ordered [OF ok n(2,3)] independent_correct [OF ns _ r(1,2) r(3) [rule_format]] n(1)
    by (auto simp: dd_eval_def)
qed


definition demo_xor :: formula where
  "demo_xor = FBin Or (FBin Xor (FVar [112]) (FVar [113])) (FBin And (FVar [114]) (FNot (FVar [114])))"

theorem decision_diagram_correct_witness:
  "\<exists>d. decision_diagram demo_xor = Inr d \<and> length (dd_table d) = 3 \<and> independent d = [[114]]
     \<and> dd_reduced d \<and> dd_ordered d \<and> dd_eval d (\<lambda>n. n = [113])"
proof -
  let ?d = "\<lparr>dd_root = 4, dd_table = [\<lparr>dd_id = 2, dd_var = [113], dd_low = 0, dd_high = 1\<rparr>,
      \<lparr>dd_id = 3, dd_var = [113], dd_low = 1, dd_high = 0\<rparr>, \<lparr>dd_id = 4, dd_var = [112], dd_low = 2, dd_high = 3\<rparr>],
    dd_order = [[112], [113], [114]], independent = [[114]]\<rparr>"
  have e: "decision_diagram demo_xor = Inr ?d" by code_simp
  from decision_diagram_correct [OF e] e show ?thesis by (simp add: demo_xor_def)
qed

end
