(* ===== verification/Logic_Canonical.thy ===== *)
theory Logic_Canonical
  imports Logic_Diagram
begin

text \<open>
  Why the diagrams of \<open>decision_diagram\<close> in \<open>logic_ir.py\<close> deserve to be called canonical: among
  all ordered diagrams of a formula, however they were built, the one the code builds has the
  fewest nodes, and it sits inside every reduced one up to the numbering of the nodes.
\<close>

section \<open>Ordered diagrams as tables of functions\<close>

text \<open>An ordered diagram: nodes are numbered in the order of the table, their children come
  earlier and test later variables. It need not be reduced.\<close>

definition dd_wf :: "diagram \<Rightarrow> bool" where
  "dd_wf e \<longleftrightarrow> map dd_id (dd_table e) = [2..<length (dd_table e) + 2] \<and> dd_ordered e
     \<and> dd_root e < length (dd_table e) + 2"

text \<open>The Boolean function of the node numbered \<open>i\<close>.\<close>

definition dd_fun :: "diagram \<Rightarrow> nat \<Rightarrow> (utext \<Rightarrow> bool) \<Rightarrow> bool" where
  "dd_fun e i v = dd_values v (dd_table e) ! i"

lemma dd_values_nth:
  assumes k: "k < length ns" and c: "dd_low (ns ! k) < k + 2" "dd_high (ns ! k) < k + 2"
  shows "dd_values v ns ! (k + 2)
    = (if v (dd_var (ns ! k)) then dd_values v ns ! dd_high (ns ! k) else dd_values v ns ! dd_low (ns ! k))"
proof -
  let ?pre = "take k ns" and ?post = "drop (Suc k) ns"
  have split: "ns = ?pre @ [ns ! k] @ ?post" using k by (simp add: id_take_nth_drop)
  have len: "length ?pre = k" using k by simp
  have early: "dd_values v ns ! j = dd_values v ?pre ! j" if "j < k + 2" for j
    using dd_values_append [of j ?pre v "[ns ! k] @ ?post"] that len split by metis
  have "dd_values v ns ! (k + 2) = dd_values v (?pre @ [ns ! k]) ! (k + 2)"
    using dd_values_append [of "k + 2" "?pre @ [ns ! k]" v ?post] len split by (metis append_assoc length_append_singleton less_add_Suc1 add_Suc_right add_Suc lessI)
  also have "\<dots> = (if v (dd_var (ns ! k)) then dd_values v ?pre ! dd_high (ns ! k) else dd_values v ?pre ! dd_low (ns ! k))"
    using nth_append_length [of "dd_values v ?pre"] len by (simp add: dd_values_snoc dd_row_def)
  finally show ?thesis using early c by simp
qed

lemma dd_fun_const [simp]: "dd_fun e 0 v = False" "dd_fun e (Suc 0) v = True"
  using dd_values_append [of 0 "[]" v "dd_table e"] dd_values_append [of "Suc 0" "[]" v "dd_table e"]
  by (simp_all add: dd_fun_def dd_values_def)

lemma wf_nth: "dd_wf e \<Longrightarrow> k < length (dd_table e) \<Longrightarrow> dd_id (dd_table e ! k) = k + 2"
  unfolding dd_wf_def by (metis (no_types, lifting) add.commute length_map nth_map nth_upt length_upt add_diff_cancel_right' add_less_cancel_left less_diff_conv2)

lemma wf_index:
  assumes "dd_wf e" and "n \<in> set (dd_table e)"
  obtains k where "k < length (dd_table e)" "dd_table e ! k = n" "dd_id n = k + 2"
  using assms wf_nth by (metis in_set_conv_nth)

lemma wf_unique: "dd_wf e \<Longrightarrow> n \<in> set (dd_table e) \<Longrightarrow> m \<in> set (dd_table e) \<Longrightarrow> dd_id n = dd_id m \<Longrightarrow> n = m"
  by (metis wf_index add_right_cancel)

lemma wf_range: "dd_wf e \<Longrightarrow> n \<in> set (dd_table e) \<Longrightarrow> 2 \<le> dd_id n \<and> dd_id n < length (dd_table e) + 2"
  by (elim wf_index) auto

lemma wf_child:
  assumes "dd_wf e" "n \<in> set (dd_table e)" "c = dd_low n \<or> c = dd_high n"
  shows "c < dd_id n" and "m \<in> set (dd_table e) \<Longrightarrow> dd_id m = c \<Longrightarrow> dd_var n < dd_var m"
  using assms by (auto simp: dd_wf_def dd_ordered_def)

lemma wf_cases:
  assumes "dd_wf e" "i < length (dd_table e) + 2"
  obtains "i = 0" | "i = Suc 0" | n where "n \<in> set (dd_table e)" "dd_id n = i"
proof -
  consider "i = 0" | "i = Suc 0" | "i \<ge> 2" by linarith
  then show thesis
  proof cases
    case 3
    then have "i - 2 < length (dd_table e)" using assms(2) by simp
    then show thesis using that(3) [of "dd_table e ! (i - 2)"] wf_nth [OF assms(1)] 3 by simp
  qed (use that in auto)
qed

lemma dd_fun_node:
  assumes "dd_wf e" "n \<in> set (dd_table e)"
  shows "dd_fun e (dd_id n) v = (if v (dd_var n) then dd_fun e (dd_high n) v else dd_fun e (dd_low n) v)"
proof -
  obtain k where k: "k < length (dd_table e)" "dd_table e ! k = n" "dd_id n = k + 2"
    by (rule wf_index [OF assms])
  then show ?thesis
    using dd_values_nth [OF k(1), of v] wf_child(1) [OF assms] by (simp add: dd_fun_def)
qed

text \<open>A node does not depend on a variable that stands before its own.\<close>

lemma dd_fun_before:
  assumes "dd_wf e" "i < length (dd_table e) + 2" "\<And>n. n \<in> set (dd_table e) \<Longrightarrow> dd_id n = i \<Longrightarrow> x < dd_var n"
  shows "dd_fun e i (v(x := b)) = dd_fun e i v"
  using assms(2,3)
proof (induction i rule: less_induct)
  case (less i)
  from assms(1) less.prems(1) show ?case
  proof (cases rule: wf_cases)
    case (3 n)
    have x: "x < dd_var n" using less.prems(2) 3 by blast
    have "dd_fun e c (v(x := b)) = dd_fun e c v" if c: "c = dd_low n \<or> c = dd_high n" for c
      using wf_child [OF assms(1) 3(1) c] x 3(2) less.prems(1)
      by (intro less.IH) (auto intro: less_trans)
    then have "dd_fun e (dd_low n) (v(x := b)) = dd_fun e (dd_low n) v" "dd_fun e (dd_high n) (v(x := b)) = dd_fun e (dd_high n) v"
      by simp_all
    moreover have "(v(x := b)) (dd_var n) = v (dd_var n)" using x by (auto simp: less_le)
    ultimately show ?thesis
      using dd_fun_node [OF assms(1) 3(1)] unfolding 3(2) [symmetric] by (simp del: fun_upd_apply)
  qed simp_all
qed

lemma dd_fun_before_node:
  "dd_wf e \<Longrightarrow> n \<in> set (dd_table e) \<Longrightarrow> x < dd_var n \<Longrightarrow> dd_fun e (dd_id n) (v(x := b)) = dd_fun e (dd_id n) v"
  by (rule dd_fun_before) (auto dest: wf_range wf_unique)

lemma dd_fun_child:
  assumes "dd_wf e" "n \<in> set (dd_table e)"
  shows "dd_fun e (if b then dd_high n else dd_low n) v = dd_fun e (dd_id n) (v(dd_var n := b))"
proof -
  let ?c = "if b then dd_high n else dd_low n"
  have c: "?c = dd_low n \<or> ?c = dd_high n" by simp
  have "?c < length (dd_table e) + 2" using wf_child(1) [OF assms c] wf_range [OF assms] by simp
  then have "dd_fun e ?c (v(dd_var n := b)) = dd_fun e ?c v"
    using wf_child(2) [OF assms c] by (intro dd_fun_before [OF assms(1)]) auto
  then show ?thesis using dd_fun_node [OF assms, of "v(dd_var n := b)"] by (cases b) simp_all
qed

section \<open>Reduced diagrams: one node per function\<close>

lemma dd_fun_inj:
  assumes wf: "dd_wf e" and red: "dd_reduced e"
  shows "i < length (dd_table e) + 2 \<Longrightarrow> j < length (dd_table e) + 2 \<Longrightarrow> dd_fun e i = dd_fun e j \<Longrightarrow> i = j"
proof -
  let ?N = "length (dd_table e) + 2"
  have "i < ?N \<Longrightarrow> j < ?N \<Longrightarrow> i < m \<Longrightarrow> j < m \<Longrightarrow> dd_fun e i = dd_fun e j \<Longrightarrow> i = j" for m
  proof (induction m arbitrary: i j)
    case (Suc m)
    have kids: "dd_low n < ?N \<and> dd_high n < ?N \<and> dd_low n < m \<and> dd_high n < m"
      if "n \<in> set (dd_table e)" "dd_id n < Suc m" for n
      using wf_child(1) [OF wf that(1)] wf_range [OF wf that(1)] that(2) by fastforce
    have depends: "\<exists>v. dd_fun e (dd_id n) (v(dd_var n := True)) \<noteq> dd_fun e (dd_id n) (v(dd_var n := False))"
      if n: "n \<in> set (dd_table e)" "dd_id n < Suc m" for n
    proof (rule ccontr)
      assume "\<not> ?thesis"
      then have "dd_fun e (dd_low n) = dd_fun e (dd_high n)"
        using dd_fun_child [OF wf n(1), of True] dd_fun_child [OF wf n(1), of False] by (auto simp: fun_eq_iff)
      then have "dd_low n = dd_high n" using kids [OF n] Suc.IH by blast
      then show False using red n(1) by (simp add: dd_reduced_def)
    qed
    have apart: False if n: "n \<in> set (dd_table e)" "dd_id n < Suc m" and k: "k < ?N" "dd_fun e (dd_id n) = dd_fun e k"
      and later: "\<And>p. p \<in> set (dd_table e) \<Longrightarrow> dd_id p = k \<Longrightarrow> dd_var n < dd_var p" for n k
      using depends [OF n] dd_fun_before [OF wf k(1) later] k(2) by auto
    from wf Suc.prems(1) show ?case
    proof (cases rule: wf_cases)
      case i: (3 n)
      from wf Suc.prems(2) show ?thesis
      proof (cases rule: wf_cases)
        case j: (3 p)
        consider "dd_var n < dd_var p" | "dd_var p < dd_var n" | "dd_var n = dd_var p" by (rule linorder_cases)
        then show ?thesis
        proof cases
          case 1
          then show ?thesis
            using apart [of n j] i j Suc.prems wf_unique [OF wf] by metis
        next
          case 2
          then show ?thesis
            using apart [of p i] i j Suc.prems wf_unique [OF wf] by metis
        next
          case 3
          have "dd_fun e (if b then dd_high n else dd_low n) = dd_fun e (if b then dd_high p else dd_low p)" for b
            unfolding fun_eq_iff dd_fun_child [OF wf i(1)] dd_fun_child [OF wf j(1)] 3 using Suc.prems(5) i(2) j(2) by simp
          from this [of True] this [of False] have "dd_high n = dd_high p" "dd_low n = dd_low p"
            using Suc.IH kids [OF i(1)] kids [OF j(1)] i(2) j(2) Suc.prems(3,4) by simp_all
          then have "n = p" using red i(1) j(1) 3 by (auto simp: dd_reduced_def distinct_map inj_on_def)
          then show ?thesis using i j by simp
        qed
      next
        case 1
        then show ?thesis using apart [of n j] i Suc.prems wf_range [OF wf] by force
      next
        case 2
        then show ?thesis using apart [of n j] i Suc.prems wf_range [OF wf] by force
      qed
    next
      case i: 1
      from wf Suc.prems(2) show ?thesis
      proof (cases rule: wf_cases)
        case (3 p)
        then show ?thesis using apart [of p i] i Suc.prems wf_range [OF wf] by force
      qed (use i Suc.prems(5) in \<open>auto simp: fun_eq_iff\<close>)
    next
      case i: 2
      from wf Suc.prems(2) show ?thesis
      proof (cases rule: wf_cases)
        case (3 p)
        then show ?thesis using apart [of p i] i Suc.prems wf_range [OF wf] by force
      qed (use i Suc.prems(5) in \<open>auto simp: fun_eq_iff\<close>)
    qed
  qed simp
  then show "i < ?N \<Longrightarrow> j < ?N \<Longrightarrow> dd_fun e i = dd_fun e j \<Longrightarrow> i = j" by (metis less_max_iff_disj lessI)
qed


section \<open>Every diagram of a function has a node for each node of a linked one\<close>

text \<open>Fixing a variable no earlier variable matters for leads to another node of the diagram.\<close>

lemma restricted_node:
  assumes "dd_wf e" and "j < length (dd_table e) + 2" and "\<And>y w b. y < x \<Longrightarrow> dd_fun e j (w(y := b)) = dd_fun e j w"
  shows "\<exists>j' < length (dd_table e) + 2. \<forall>v. dd_fun e j' v = dd_fun e j (v(x := c))"
  using assms(2,3)
proof (induction j rule: less_induct)
  case (less j)
  from assms(1) less.prems(1) show ?case
  proof (cases rule: wf_cases)
    case (3 n)
    have kid: "dd_high n < j" "dd_low n < j" using wf_child(1) [OF assms(1) 3(1)] 3(2) by auto
    note child = dd_fun_child [OF assms(1) 3(1)]
    consider "dd_var n < x" | "dd_var n = x" | "x < dd_var n" using less_linear by blast
    then show ?thesis
    proof cases
      case 1
      have same: "dd_fun e (dd_low n) v = dd_fun e j v" for v
        using child [of False v] less.prems(2) [OF 1] 3(2) by simp
      have "\<exists>j' < length (dd_table e) + 2. \<forall>v. dd_fun e j' v = dd_fun e (dd_low n) (v(x := c))"
        by (rule less.IH) (use kid less.prems same in auto)
      then show ?thesis by (simp add: same del: fun_upd_apply)
    next
      case 2
      then have "dd_fun e (if c then dd_high n else dd_low n) v = dd_fun e j (v(x := c))" for v
        using child [of c v] 3(2) by simp
      moreover have "(if c then dd_high n else dd_low n) < length (dd_table e) + 2" using kid less.prems(1) by simp
      ultimately show ?thesis by blast
    next
      case later: 3
      have "dd_fun e j (v(x := c)) = dd_fun e j v" for v
        using dd_fun_before_node [OF assms(1) 3(1) later] 3(2) by simp
      then show ?thesis using less.prems(1) by (intro exI [of _ j]) (simp del: fun_upd_apply)
    qed
  qed (intro exI [of _ j], use less.prems(1) in simp)+
qed

text \<open>A diagram is linked when every node is the root or a child of another node.\<close>

definition dd_linked :: "diagram \<Rightarrow> bool" where
  "dd_linked d \<longleftrightarrow> (\<forall>n \<in> set (dd_table d). dd_id n = dd_root d
     \<or> (\<exists>p \<in> set (dd_table d). dd_id n = dd_low p \<or> dd_id n = dd_high p))"

lemma same_function:
  assumes d: "dd_wf d" "dd_linked d" and e: "dd_wf e" and same: "\<And>v. dd_eval e v = dd_eval d v"
    and "i < length (dd_table d) + 2"
  shows "\<exists>j < length (dd_table e) + 2. dd_fun e j = dd_fun d i"
  using assms(5)
proof (induction "length (dd_table d) + 2 - i" arbitrary: i rule: less_induct)
  case less
  from d(1) less.prems show ?case
  proof (cases rule: wf_cases)
    case (3 n)
    then consider "i = dd_root d" | p where "p \<in> set (dd_table d)" "i = dd_low p \<or> i = dd_high p"
      using d(2) by (auto simp: dd_linked_def)
    then show ?thesis
    proof cases
      case 1
      have "dd_fun e (dd_root e) = dd_fun d i" using same by (auto simp: 1 fun_eq_iff dd_eval_def dd_fun_def)
      then show ?thesis using e by (auto simp: dd_wf_def)
    next
      case 2
      obtain b where b: "i = (if b then dd_high p else dd_low p)" using 2(2) by (metis (full_types))
      have p: "i < dd_id p" "dd_id p < length (dd_table d) + 2"
        using wf_child(1) [OF d(1) 2(1,2)] wf_range [OF d(1) 2(1)] by auto
      then have "length (dd_table d) + 2 - dd_id p < length (dd_table d) + 2 - i" by simp
      from less.hyps [OF this p(2)] obtain j where j: "j < length (dd_table e) + 2" "dd_fun e j = dd_fun d (dd_id p)" by blast
      have "dd_fun e j (w(y := c)) = dd_fun e j w" if "y < dd_var p" for y w c
        using dd_fun_before_node [OF d(1) 2(1) that] j(2) by simp
      from restricted_node [OF e j(1) this, of "dd_var p" b]
      obtain j' where "j' < length (dd_table e) + 2" "\<And>v. dd_fun e j' v = dd_fun e j (v(dd_var p := b))" by blast
      then show ?thesis using dd_fun_child [OF d(1) 2(1), of b] j(2) b by (auto simp: fun_eq_iff)
    qed
  next
    case 1
    then show ?thesis by (intro exI [of _ 0]) (simp add: fun_eq_iff)
  next
    case 2
    then show ?thesis by (intro exI [of _ "Suc 0"]) (simp add: fun_eq_iff)
  qed
qed

lemma fewest_nodes:
  assumes d: "dd_wf d" "dd_reduced d" "dd_linked d" and e: "dd_wf e" and same: "\<And>v. dd_eval e v = dd_eval d v"
  shows "length (dd_table d) \<le> length (dd_table e)"
proof -
  obtain h where h: "\<And>i. i < length (dd_table d) + 2 \<Longrightarrow> h i < length (dd_table e) + 2 \<and> dd_fun e (h i) = dd_fun d i"
    using same_function [OF d(1,3) e same] by metis
  have "inj_on h {..<length (dd_table d) + 2}"
    using h dd_fun_inj [OF d(1,2)] by (intro inj_onI) (metis lessThan_iff)
  moreover have "h ` {..<length (dd_table d) + 2} \<subseteq> {..<length (dd_table e) + 2}" using h by auto
  ultimately have "card {..<length (dd_table d) + 2} \<le> card {..<length (dd_table e) + 2}"
    by (rule card_inj_on_le) simp
  then show ?thesis by simp
qed

text \<open>\<open>h\<close> renumbers the nodes of \<open>d\<close> into nodes of \<open>e\<close>.\<close>

definition dd_embeds :: "(nat \<Rightarrow> nat) \<Rightarrow> diagram \<Rightarrow> diagram \<Rightarrow> bool" where
  "dd_embeds h d e \<longleftrightarrow> h 0 = 0 \<and> h 1 = 1 \<and> h (dd_root d) = dd_root e \<and> inj_on h {..<length (dd_table d) + 2}
     \<and> (\<forall>n \<in> set (dd_table d). \<lparr>dd_id = h (dd_id n), dd_var = dd_var n, dd_low = h (dd_low n), dd_high = h (dd_high n)\<rparr>
          \<in> set (dd_table e))"

text \<open>Two nodes of reduced diagrams with the same function test the same variable.\<close>

lemma depends_on_own:
  assumes "dd_wf d" "dd_reduced d" "n \<in> set (dd_table d)"
  shows "\<exists>v. dd_fun d (dd_id n) (v(dd_var n := True)) \<noteq> dd_fun d (dd_id n) (v(dd_var n := False))"
proof (rule ccontr)
  assume "\<not> ?thesis"
  then have "dd_fun d (dd_low n) = dd_fun d (dd_high n)"
    using dd_fun_child [OF assms(1,3), of True] dd_fun_child [OF assms(1,3), of False] by (auto simp: fun_eq_iff)
  moreover have "dd_low n < length (dd_table d) + 2" "dd_high n < length (dd_table d) + 2"
    using wf_child(1) [OF assms(1,3)] wf_range [OF assms(1,3)] by fastforce+
  ultimately have "dd_low n = dd_high n" using dd_fun_inj [OF assms(1,2)] by blast
  then show False using assms(2,3) by (simp add: dd_reduced_def)
qed

lemma same_variable:
  assumes d: "dd_wf d" "dd_reduced d" "n \<in> set (dd_table d)" and e: "dd_wf e" "dd_reduced e" "m \<in> set (dd_table e)"
    and same: "dd_fun e (dd_id m) = dd_fun d (dd_id n)"
  shows "dd_var m = dd_var n"
  using depends_on_own [OF d] depends_on_own [OF e] dd_fun_before_node [OF d(1,3)] dd_fun_before_node [OF e(1,3)] same
    less_linear [of "dd_var m" "dd_var n"] by metis

lemma reduced_embeds:
  assumes d: "dd_wf d" "dd_reduced d" "dd_linked d" and e: "dd_wf e" "dd_reduced e"
    and same: "\<And>v. dd_eval e v = dd_eval d v"
  shows "\<exists>h. dd_embeds h d e"
proof -
  let ?D = "length (dd_table d) + 2" and ?E = "length (dd_table e) + 2"
  obtain h where h: "\<And>i. i < ?D \<Longrightarrow> h i < ?E \<and> dd_fun e (h i) = dd_fun d i"
    using same_function [OF d(1,3) e(1) same] by metis
  note inj = dd_fun_inj [OF e]
  have h_eq: "h i = j" if "i < ?D" "j < ?E" "dd_fun e j = dd_fun d i" for i j
    using h [OF that(1)] that inj by metis
  have "\<lparr>dd_id = h (dd_id n), dd_var = dd_var n, dd_low = h (dd_low n), dd_high = h (dd_high n)\<rparr> \<in> set (dd_table e)"
    if n: "n \<in> set (dd_table d)" for n
  proof -
    have r: "dd_id n < ?D" "dd_low n < ?D" "dd_high n < ?D"
      using wf_child(1) [OF d(1) n] wf_range [OF d(1) n] by fastforce+
    obtain v where v: "dd_fun e (h (dd_id n)) (v(dd_var n := True)) \<noteq> dd_fun e (h (dd_id n)) (v(dd_var n := False))"
      using depends_on_own [OF d(1,2) n] h [OF r(1)] by auto
    from e(1) h [OF r(1), THEN conjunct1] obtain m where m: "m \<in> set (dd_table e)" "dd_id m = h (dd_id n)"
      by (rule wf_cases) (use v in auto)
    have fun_m: "dd_fun e (dd_id m) = dd_fun d (dd_id n)" using h [OF r(1)] m(2) by simp
    have var: "dd_var m = dd_var n" using same_variable [OF d(1,2) n e m(1) fun_m] .
    have kid: "dd_fun e (if b then dd_high m else dd_low m) = dd_fun d (if b then dd_high n else dd_low n)" for b
      unfolding fun_eq_iff dd_fun_child [OF d(1) n] dd_fun_child [OF e(1) m(1)] var fun_m by simp
    have "dd_low m < ?E" "dd_high m < ?E"
      using wf_child(1) [OF e(1) m(1)] wf_range [OF e(1) m(1)] by fastforce+
    then have "h (dd_low n) = dd_low m" "h (dd_high n) = dd_high m"
      using kid [of False] kid [of True] r by (auto intro: h_eq)
    then have "m = \<lparr>dd_id = h (dd_id n), dd_var = dd_var n, dd_low = h (dd_low n), dd_high = h (dd_high n)\<rparr>"
      using m(2) var by simp
    then show ?thesis using m(1) by simp
  qed
  moreover have "h 0 = 0" "h 1 = 1" by (rule h_eq; simp add: fun_eq_iff)+
  moreover have "h (dd_root d) = dd_root e"
    using d(1) e(1) same by (intro h_eq) (auto simp: dd_wf_def fun_eq_iff dd_eval_def dd_fun_def)
  moreover have "inj_on h {..<?D}"
    using h dd_fun_inj [OF d(1,2)] by (intro inj_onI) (metis lessThan_iff)
  ultimately show ?thesis by (auto simp: dd_embeds_def)
qed


section \<open>The diagrams the code builds\<close>

text \<open>Every node \<open>build\<close> adds is the one it returns or has a parent.\<close>

definition has_parent :: "dd_state \<Rightarrow> nat \<Rightarrow> bool" where
  "has_parent st c \<longleftrightarrow> (\<exists>p \<in> set (dd_nodes st). c = dd_low p \<or> c = dd_high p)"

lemma has_parent_extends: "extends st st' \<Longrightarrow> has_parent st c \<Longrightarrow> has_parent st' c"
  by (auto simp: has_parent_def extends_def)

lemma dd_key_node:
  assumes "dd_ok names st'" and "map_of (unique st') (level, low, high) = Some i"
  shows "has_parent st' low" and "has_parent st' high"
proof -
  note u = unique_lookup [OF assms]
  have k: "i - 2 < length (dd_nodes st')" using assms(1) u(2) by (simp add: dd_ok_def)
  have "dd_low (dd_nodes st' ! (i - 2)) = low \<and> dd_high (dd_nodes st' ! (i - 2)) = high"
    by (rule node_at [OF assms(1) k]) (use u(3) in simp)
  then show "has_parent st' low" "has_parent st' high" using nth_mem [OF k] unfolding has_parent_def by metis+
qed

lemma build_linked:
  assumes "dd_ok names st" and "level + n = length names" and "length vs = 2 ^ n"
    and "build names vs level st = Inr (i, st')"
    and "length (dd_nodes st) \<le> k" and "k < length (dd_nodes st')"
  shows "k + 2 = i \<or> has_parent st' (k + 2)"
  using assms
proof (induction n arbitrary: vs level st i st')
  case 0
  then obtain x where "vs = [x]" by (auto simp: length_Suc_conv)
  with 0 show ?case by simp
next
  case (Suc n)
  obtain x xs where vs: "vs = x # xs" using Suc.prems(3) by (cases vs) auto
  note cof = cofactors [OF Suc.prems(3) [unfolded vs]]
  have l: "level < length names" and n: "Suc level + n = length names" using Suc.prems(2) by simp_all
  show ?case
  proof (cases "list_all (\<lambda>y. y = x) xs")
    case True
    then show ?thesis using Suc.prems(4-6) vs by simp
  next
    case False
    obtain low s1 where low: "build names (every_other (x # xs)) (Suc level) st = Inr (low, s1)"
      "built_node names (Suc level) st low s1"
      using build_correct [OF Suc.prems(1) n cof(1)] by blast
    then have ok1: "dd_ok names s1" by (simp add: built_node_def)
    obtain high s2 where high: "build names (every_other xs) (Suc level) s1 = Inr (high, s2)"
      "built_node names (Suc level) s1 high s2"
      using build_correct [OF ok1 n cof(2)] by blast
    have s2: "dd_ok names s2" "extends s1 s2" "below s2 (Suc level) low" "below s2 (Suc level) high"
      using low(2) high(2) by (auto simp: built_node_def intro: below_extends)
    have old: "k + 2 = low \<or> k + 2 = high \<or> has_parent s2 (k + 2)" if k: "k < length (dd_nodes s2)"
      using Suc.IH [OF Suc.prems(1) n cof(1) low(1) Suc.prems(5)] Suc.IH [OF ok1 n cof(2) high(1) _ k]
        has_parent_extends [OF s2(2), of "k + 2"] by linarith
    have here: "(if low = high then Inr (low, s2) else dd_key names level low high s2) = Inr (i, st')"
      using Suc.prems(4) False low(1) high(1) by (simp add: vs split: if_splits)
    show ?thesis
    proof (cases "low = high")
      case True
      then show ?thesis using here old Suc.prems(6) by auto
    next
      case ne: False
      from dd_key_built [OF s2(1) l ne s2(3,4)] here ne
      have key: "built_node names level s2 i st'" "map_of (unique st') (level, low, high) = Some i" by auto
      then have ok: "dd_ok names st'" "extends s2 st'" by (simp_all add: built_node_def)
      note parents = dd_key_node [OF ok(1) key(2)]
      have new: "k + 2 = i" if "length (dd_nodes s2) \<le> k"
        using here ne Suc.prems(6) that by (auto simp: dd_key_def Let_def split: option.splits if_splits)
      show ?thesis
        using old new parents has_parent_extends [OF ok(2), of "k + 2"] by (cases "k < length (dd_nodes s2)") auto
    qed
  qed
qed

lemma built_diagram:
  assumes "decision_diagram f = Inr d"
  shows "dd_wf d" "dd_reduced d" "dd_linked d" "dd_eval d v = sem f v"
proof -
  obtain ns where ns: "variables [f] = Inr ns" using assms by (auto simp: decision_diagram_def res_simps)
  have n: "distinct ns" "sorted ns" using variables_Inr [OF ns] by auto
  let ?st = "\<lparr>unique = [], dd_nodes = []\<rparr>"
  obtain i st where r: "build ns (table_of f ns) 0 ?st = Inr (i, st)" "built_node ns 0 ?st i st"
    "\<forall>v. dd_values v (dd_nodes st) ! i = sem f v"
    "decision_diagram f = Inr \<lparr>dd_root = i, dd_table = dd_nodes st, dd_order = ns,
      independent = sort (filter (\<lambda>n. n \<notin> dd_var ` set (dd_nodes st)) ns)\<rparr>"
    by (rule decision_diagram_table [OF ns]) (rule that)
  have ok: "dd_ok ns st" and root: "i < length (dd_nodes st) + 2"
    using r(2) by (auto simp: built_node_def below_def dd_ok_def)
  have d: "dd_root d = i" "dd_table d = dd_nodes st" using assms r(4) by auto
  show red: "dd_reduced d" using assms r(4) dd_ok_reduced [OF ok n(1)] by auto
  show wf: "dd_wf d" using assms r(4) dd_ok_ordered [OF ok n] red root by (auto simp: dd_wf_def dd_reduced_def)
  show "dd_eval d v = sem f v" using r(3) by (simp add: dd_eval_def d)
  have up: "k + 2 = i \<or> has_parent st (k + 2)" if "k < length (dd_nodes st)" for k
    by (rule build_linked [OF _ _ _ r(1) _ that]) (simp_all add: dd_ok_def table_of_def)
  have "dd_id m = dd_root d \<or> has_parent st (dd_id m)" if "m \<in> set (dd_table d)" for m
    by (rule wf_index [OF wf that]) (use up d in auto)
  then show "dd_linked d" by (auto simp: dd_linked_def has_parent_def d(2))
qed

section \<open>Properties\<close>

text \<open>C13: the diagram is canonical. No ordered diagram of the formula, reduced or not and however it
  was made, has fewer nodes than the one the code builds; and every reduced ordered diagram of the
  formula contains it node by node, up to a renumbering that keeps the two constants and the root.\<close>

theorem decision_diagram_canonical:
  assumes "decision_diagram f = Inr d" and "dd_wf e" and "\<And>v. dd_eval e v = sem f v"
  shows "length (dd_table d) \<le> length (dd_table e) \<and> (dd_reduced e \<longrightarrow> (\<exists>h. dd_embeds h d e))"
proof -
  note d = built_diagram [OF assms(1)]
  have same: "dd_eval e v = dd_eval d v" for v using assms(3) d(4) by simp
  show ?thesis
    using fewest_nodes [OF d(1-3) assms(2) same] reduced_embeds [OF d(1-3) assms(2) _ same] by blast
qed

text \<open>The diagram of an exclusive or, with its nodes in another order and with one node nothing leads to.\<close>

definition demo_diagram :: diagram where
  "demo_diagram = \<lparr>dd_root = 5, dd_table = [\<lparr>dd_id = 2, dd_var = [113], dd_low = 1, dd_high = 0\<rparr>,
      \<lparr>dd_id = 3, dd_var = [113], dd_low = 0, dd_high = 1\<rparr>, \<lparr>dd_id = 4, dd_var = [112], dd_low = 2, dd_high = 3\<rparr>,
      \<lparr>dd_id = 5, dd_var = [112], dd_low = 3, dd_high = 2\<rparr>],
    dd_order = [[112], [113]], independent = []\<rparr>"

theorem decision_diagram_canonical_witness:
  "\<exists>d h. decision_diagram (FBin Xor (FVar [112]) (FVar [113])) = Inr d \<and> length (dd_table d) \<le> 4
     \<and> dd_embeds h d demo_diagram"
proof -
  let ?f = "FBin Xor (FVar [112]) (FVar [113])"
  have "variables [?f] = Inr [[112], [113]]" by code_simp
  then obtain d where d: "decision_diagram ?f = Inr d"
    by (rule decision_diagram_table) (rule that)
  have wf: "dd_wf demo_diagram" by code_simp
  have red: "dd_reduced demo_diagram" by code_simp
  have "dd_eval demo_diagram v = sem ?f v" for v
    by (simp add: dd_eval_def demo_diagram_def dd_values_def dd_row_def numeral_eq_Suc)
  from decision_diagram_canonical [OF d wf this] red d show ?thesis by (auto simp: demo_diagram_def)
qed

end
