(* ===== verification/Logic_Decide.thy ===== *)
theory Logic_Decide
  imports Logic_Formula
begin

text \<open>
  The finite decisions of \<open>logic_ir.py\<close> over all assignments of the variables: equivalence under
  assumptions, and the initiation and one-step preservation of an invariant of a Boolean system.
\<close>

section \<open>Evaluating over all assignments\<close>

lemma valuation_exists:
  assumes "distinct ns"
  obtains i where "i < 2 ^ length ns" "\<And>n. n \<in> set ns \<Longrightarrow> valuation i ns n = v n"
  using index_of_less [of v ns] valuation_index_of [OF assms] by blast

lemma sem_valuation_exists:
  assumes "distinct ns"
  obtains i where "i < 2 ^ length ns" "\<And>f. vars f \<subseteq> set ns \<Longrightarrow> sem f (valuation i ns) = sem f v"
proof -
  obtain i where i: "i < 2 ^ length ns" "\<And>n. n \<in> set ns \<Longrightarrow> valuation i ns n = v n"
    using valuation_exists [OF assms, of v] by metis
  then have "sem f (valuation i ns) = sem f v" if "vars f \<subseteq> set ns" for f
    using that by (intro sem_cong) auto
  with i(1) show thesis by (rule that)
qed

lemma all_indices:
  assumes "distinct ns" and "\<And>v w. (\<And>n. n \<in> set ns \<Longrightarrow> v n = w n) \<Longrightarrow> P v = P w"
  shows "(\<forall>i < 2 ^ length ns. P (valuation i ns)) \<longleftrightarrow> (\<forall>v. P v)"
proof (intro iffI allI impI)
  fix v
  assume all: "\<forall>i < 2 ^ length ns. P (valuation i ns)"
  obtain i where i: "i < 2 ^ length ns" "\<And>n. n \<in> set ns \<Longrightarrow> valuation i ns n = v n"
    using valuation_exists [OF assms(1), of v] by metis
  have "P (valuation i ns) = P v" by (rule assms(2)) (rule i(2))
  with all i(1) show "P v" by blast
qed blast

text \<open>An assignment as the source returns it, a dictionary in the order of the names.\<close>

definition assignment_items :: "nat \<Rightarrow> utext list \<Rightarrow> (utext \<times> bool) list" where
  "assignment_items i ns = zip ns (map (bit i) [0..<length ns])"

lemma map_of_assignment_items [simp]: "map_of (assignment_items i ns) = assignment_for i ns"
  by (simp add: assignment_items_def assignment_for_def)

section \<open>Variables of rewritten formulas\<close>

lemma vars_join: "op = And \<or> op = Or \<Longrightarrow> vars (join op fs) = (\<Union>f \<in> set fs. vars f)"
proof (induction op fs rule: join.induct)
  case (3 op x y zs)
  let ?ts = "x # y # zs" and ?m = "length (x # y # zs) div 2"
  have "vars (join op ?ts) = (\<Union>f \<in> set (take ?m ?ts). vars f) \<union> (\<Union>f \<in> set (drop ?m ?ts). vars f)"
    using 3 by (simp only: join.simps Let_def vars.simps)
  also have "\<dots> = (\<Union>f \<in> set (take ?m ?ts @ drop ?m ?ts). vars f)" by (simp only: set_append UN_Un)
  finally show ?case by (simp only: append_take_drop_id)
qed auto

lemma vars_flatten: "t \<in> set (flatten op f) \<Longrightarrow> vars t \<subseteq> vars f"
  by (induction f) (auto split: if_splits)

lemma vars_simplify_ac:
  assumes "op = And \<or> op = Or"
  shows "vars (simplify_ac op a b) \<subseteq> vars a \<union> vars b"
proof -
  have "vars t \<subseteq> vars a \<union> vars b" if "t \<in> set (ac_terms op a b)" for t
    using that vars_flatten [of t op a] vars_flatten [of t op b] by (auto simp: ac_terms_def)
  then show ?thesis using assms by (auto simp: simplify_ac_def Let_def annihilator_of_def vars_join)
qed

declare simplify_formula.simps(5) [simp del]

lemma vars_simplify: "vars (simplify_formula f) \<subseteq> vars f"
proof (induction f rule: simplify_formula.induct)
  case (4 a)
  have "vars (simplify_not g) \<subseteq> vars g" for g by (cases g) auto
  with 4 show ?case by fastforce
next
  case (5 op x y)
  define a where "a = simplify_formula x"
  define b where "b = simplify_formula y"
  have ab: "vars a \<subseteq> vars x" "vars b \<subseteq> vars y" using 5(1,2) by (simp_all add: a_def b_def)
  have eq: "simplify_formula (FBin op x y) =
     (if op = Iff \<or> op = Xor then
        (if a = b then (if op = Iff then FTrue else FFalse)
         else if is_const a then simplify_formula (if (a = FTrue) = (op = Iff) then b else FNot b)
         else if is_const b then simplify_formula (FBin op b a)
         else FBin op a b)
      else if op = Imp then simplify_formula (FBin Or (FNot a) b)
      else simplify_ac op a b)"
    by (simp add: simplify_formula.simps(5) a_def b_def Let_def)
  show ?case
  proof (cases "op = Iff \<or> op = Xor")
    case True
    define r where "r = simplify_formula (if (a = FTrue) = (op = Iff) then b else FNot b)"
    define s where "s = simplify_formula (FBin op b a)"
    have r: "vars r \<subseteq> vars b" if "a \<noteq> b" "is_const a"
      using 5(3) [OF a_def b_def True that] unfolding r_def by (auto split: if_splits)
    have s: "vars s \<subseteq> vars a \<union> vars b" if "a \<noteq> b" "\<not> is_const a" "is_const b"
      using 5(4) [OF a_def b_def True that] unfolding s_def by auto
    have "simplify_formula (FBin op x y) = (if a = b then (if op = Iff then FTrue else FFalse)
       else if is_const a then r else if is_const b then s else FBin op a b)"
      using True unfolding eq r_def s_def by presburger
    then show ?thesis using r s ab by (auto split: if_splits)
  next
    case False
    show ?thesis
    proof (cases "op = Imp")
      case True
      then show ?thesis using 5(5) [OF a_def b_def False True] ab False unfolding eq by auto
    next
      case ni: False
      then have "op = And \<or> op = Or" using False by (cases op) auto
      then show ?thesis using vars_simplify_ac [of op a b] ab False ni unfolding eq by auto
    qed
  qed
qed simp_all

section \<open>Equivalence\<close>

record equivalence =
  equivalent :: bool
  counterexample :: "(utext \<times> bool) list option"
  vacuous :: bool

primrec equivalence_loop :: "formula \<Rightarrow> formula \<Rightarrow> formula \<Rightarrow> utext list \<Rightarrow> nat list \<Rightarrow> nat \<Rightarrow> exc + equivalence" where
  "equivalence_loop l r a ns [] checked = Inr \<lparr>equivalent = True, counterexample = None, vacuous = (checked = 0)\<rparr>"
| "equivalence_loop l r a ns (i # is) checked =
     (let d = assignment_items i ns; m = map_of d in
      rbind (evaluate a m) (\<lambda>c.
        if \<not> c then equivalence_loop l r a ns is checked
        else rbind (evaluate l m) (\<lambda>x. rbind (evaluate r m) (\<lambda>y.
          if x \<noteq> y then Inr \<lparr>equivalent = False, counterexample = Some d, vacuous = False\<rparr>
          else equivalence_loop l r a ns is (Suc checked)))))"

definition check_equivalent :: "formula \<Rightarrow> formula \<Rightarrow> formula \<Rightarrow> exc + equivalence" where
  "check_equivalent l r a =
     rbind (variables [l, r, a]) (\<lambda>ns. equivalence_loop l r a ns [0..<2 ^ length ns] 0)"

lemma equivalence_loop_value:
  assumes "distinct ns" "vars l \<subseteq> set ns" "vars r \<subseteq> set ns" "vars a \<subseteq> set ns"
  shows "equivalence_loop l r a ns is c = Inr
    (case find (\<lambda>i. sem a (valuation i ns) \<and> sem l (valuation i ns) \<noteq> sem r (valuation i ns)) is of
       Some i \<Rightarrow> \<lparr>equivalent = False, counterexample = Some (assignment_items i ns), vacuous = False\<rparr>
     | None \<Rightarrow> \<lparr>equivalent = True, counterexample = None,
                 vacuous = (c = 0 \<and> (\<forall>i \<in> set is. \<not> sem a (valuation i ns)))\<rparr>)"
  using assms by (induction "is" arbitrary: c) (auto simp: Let_def evaluate_assignment split: option.split)

section \<open>Inductive invariants of a Boolean system\<close>

record inductiveness =
  is_inductive :: bool
  initiation_counterexample :: "(utext \<times> bool) list option"
  preservation_counterexample :: "(utext \<times> bool) list option"
  initial_satisfiable :: bool
  preservation_vacuous :: bool

text \<open>The values the loop over the assignments carries: both counterexamples and both counts.\<close>

type_synonym obligations = "(utext \<times> bool) list option \<times> (utext \<times> bool) list option \<times> nat \<times> nat"

definition successor :: "(utext \<times> utext) list \<Rightarrow> (utext \<rightharpoonup> bool) \<Rightarrow> utext \<rightharpoonup> bool" where
  "successor pairs m = (\<lambda>n. case map_of pairs n of None \<Rightarrow> None | Some nxt \<Rightarrow> m nxt)"

definition check_assignment ::
    "formula \<Rightarrow> formula \<Rightarrow> formula \<Rightarrow> (utext \<times> utext) list \<Rightarrow> (utext \<times> bool) list \<Rightarrow> obligations \<Rightarrow> exc + obligations" where
  "check_assignment goal ini0 tran pairs d ob = (case ob of (ini, pre, n, k) \<Rightarrow>
     let m = map_of d in
     rbind (evaluate goal m) (\<lambda>holds.
     rbind (evaluate ini0 m) (\<lambda>starts.
     let ini' = (if starts \<and> \<not> holds \<and> ini = None then Some d else ini);
         n' = (if starts then Suc n else n) in
     if \<not> holds then Inr (ini', pre, n', k)
     else rbind (evaluate tran m) (\<lambda>moves.
       if \<not> moves then Inr (ini', pre, n', k)
       else rbind (evaluate goal (successor pairs m)) (\<lambda>after.
         Inr (ini', if \<not> after \<and> pre = None then Some d else pre, n', Suc k))))))"

primrec check_loop ::
    "formula \<Rightarrow> formula \<Rightarrow> formula \<Rightarrow> (utext \<times> utext) list \<Rightarrow> utext list \<Rightarrow> nat list \<Rightarrow> obligations \<Rightarrow> exc + obligations" where
  "check_loop goal ini0 tran pairs ns [] ob = Inr ob"
| "check_loop goal ini0 tran pairs ns (i # is) ob =
     rbind (check_assignment goal ini0 tran pairs (assignment_items i ns) ob)
       (check_loop goal ini0 tran pairs ns is)"

text \<open>\<open>state_pairs\<close> is a dictionary: its keys are distinct.\<close>

definition check_inductive_invariant ::
    "(nat \<Rightarrow> bool) \<Rightarrow> (nat \<Rightarrow> bool) \<Rightarrow> formula \<Rightarrow> formula \<Rightarrow> formula \<Rightarrow> (utext \<times> utext) list \<Rightarrow> exc + inductiveness" where
  "check_inductive_invariant word dec goal ini0 tran pairs =
     (let current = map fst pairs; future = map snd pairs in
      if current = [] \<or> \<not> distinct future \<or> set current \<inter> set future \<noteq> {}
        then Inl (ValueErr ''state mapping must be injective with disjoint current/next names'')
      else
        rbind (rmap (\<lambda>n. mk_formula word dec ''var'' [] n) (current @ future)) (\<lambda>_.
        rbind (variables [goal, ini0]) (\<lambda>used.
        if \<not> set used \<subseteq> set current then Inl (ValueErr ''undeclared state variable'')
        else rbind (variables [tran]) (\<lambda>moved.
        if \<not> set moved \<subseteq> set current \<union> set future then Inl (ValueErr ''undeclared state variable'')
        else
          (let names = sort (current @ future) in
           if max_variables < length names then Inl (LogicLimit ''transition variable budget'')
           else rbind (check_loop goal ini0 tran pairs names [0..<2 ^ length names] (None, None, 0, 0)) (\<lambda>ob.
             case ob of (ini, pre, n, k) \<Rightarrow>
               Inr \<lparr>is_inductive = (ini = None \<and> pre = None), initiation_counterexample = ini,
                    preservation_counterexample = pre, initial_satisfiable = (0 < n),
                    preservation_vacuous = (k = 0)\<rparr>))))))"

text \<open>The system the formulas describe: a step relates two states that together satisfy the
  transition formula, the second one read through the next-state names.\<close>

definition sys_step :: "formula \<Rightarrow> (utext \<times> utext) list \<Rightarrow> (utext \<Rightarrow> bool) \<Rightarrow> (utext \<Rightarrow> bool) \<Rightarrow> bool" where
  "sys_step tran pairs v w \<longleftrightarrow>
     (\<exists>x. sem tran x \<and> (\<forall>(n, nxt) \<in> set pairs. x n = v n \<and> x nxt = w n))"

inductive sys_reach :: "formula \<Rightarrow> formula \<Rightarrow> (utext \<times> utext) list \<Rightarrow> (utext \<Rightarrow> bool) \<Rightarrow> bool" for ini0 tran pairs where
  start: "sem ini0 v \<Longrightarrow> sys_reach ini0 tran pairs v"
| move: "sys_reach ini0 tran pairs v \<Longrightarrow> sys_step tran pairs v w \<Longrightarrow> sys_reach ini0 tran pairs w"

text \<open>What the loop has found when it ends.\<close>

definition after_of :: "(utext \<times> utext) list \<Rightarrow> (utext \<Rightarrow> bool) \<Rightarrow> utext \<Rightarrow> bool" where
  "after_of pairs v n = (case map_of pairs n of None \<Rightarrow> False | Some nxt \<Rightarrow> v nxt)"

definition bad_start :: "formula \<Rightarrow> formula \<Rightarrow> (utext \<Rightarrow> bool) \<Rightarrow> bool" where
  "bad_start goal ini0 v \<longleftrightarrow> sem ini0 v \<and> \<not> sem goal v"

definition bad_step :: "formula \<Rightarrow> formula \<Rightarrow> (utext \<times> utext) list \<Rightarrow> (utext \<Rightarrow> bool) \<Rightarrow> bool" where
  "bad_step goal tran pairs v \<longleftrightarrow> sem goal v \<and> sem tran v \<and> \<not> sem goal (after_of pairs v)"

lemma evaluate_successor:
  assumes "distinct ns" "fst ` set pairs \<union> snd ` set pairs \<subseteq> set ns" "vars goal \<subseteq> fst ` set pairs"
  shows "evaluate goal (successor pairs (assignment_for i ns)) = Inr (sem goal (after_of pairs (valuation i ns)))"
proof (rule evaluate_total)
  fix n
  assume "n \<in> vars goal"
  then obtain nxt where nxt: "map_of pairs n = Some nxt"
    using assms(3) by (metis map_of_eq_None_iff not_None_eq subsetD)
  then have "nxt \<in> set ns" using assms(2) by (force dest: map_of_SomeD)
  then obtain k where k: "k < length ns" "ns ! k = nxt" by (auto simp: in_set_conv_nth)
  have "assignment_for i ns nxt = Some (valuation i ns nxt)"
    using assignment_for_nth [OF assms(1) k(1), of i] valuation_nth [OF assms(1) k(1), of i] k(2) by simp
  with nxt show "successor pairs (assignment_for i ns) n = Some (after_of pairs (valuation i ns) n)"
    by (simp add: successor_def after_of_def)
qed

lemma check_loop_value:
  assumes ns: "distinct ns" and p: "fst ` set pairs \<union> snd ` set pairs \<subseteq> set ns"
    and v: "vars goal \<subseteq> fst ` set pairs" "vars ini0 \<subseteq> set ns" "vars tran \<subseteq> set ns"
  shows "check_loop goal ini0 tran pairs ns is (ini, pre, n, k) = Inr
    (if ini = None then map_option (\<lambda>i. assignment_items i ns) (find (\<lambda>i. bad_start goal ini0 (valuation i ns)) is) else ini,
     if pre = None then map_option (\<lambda>i. assignment_items i ns) (find (\<lambda>i. bad_step goal tran pairs (valuation i ns)) is) else pre,
     n + length (filter (\<lambda>i. sem ini0 (valuation i ns)) is),
     k + length (filter (\<lambda>i. sem goal (valuation i ns) \<and> sem tran (valuation i ns)) is))"
proof (induction "is" arbitrary: ini pre n k)
  case (Cons i "is")
  have vi: "vars goal \<subseteq> set ns" using v(1) p by blast
  show ?case
    using Cons.IH by (auto simp: check_assignment_def Let_def evaluate_assignment [OF vi ns]
      evaluate_assignment [OF v(2) ns] evaluate_assignment [OF v(3) ns] evaluate_successor [OF ns p v(1)]
      bad_start_def bad_step_def)
qed (auto simp: bad_start_def)


section \<open>Properties\<close>

text \<open>\<open>check_equivalent\<close> decides equivalence under the assumptions, over all valuations and
  not only the enumerated ones; a context is called vacuous exactly when it is inconsistent, and
  a counterexample satisfies the assumptions and tells the two formulas apart.\<close>

theorem check_equivalent_correct:
  assumes "check_equivalent l r a = Inr rep"
  shows "(equivalent rep \<longleftrightarrow> (\<forall>v. sem a v \<longrightarrow> sem l v = sem r v))
    \<and> (vacuous rep \<longleftrightarrow> (\<forall>v. \<not> sem a v)) \<and> (equivalent rep \<longleftrightarrow> counterexample rep = None)
    \<and> (\<forall>m. counterexample rep = Some m \<longrightarrow>
         evaluate a (map_of m) = Inr True \<and> (\<exists>x. evaluate l (map_of m) = Inr x \<and> evaluate r (map_of m) = Inr (\<not> x)))"
proof -
  obtain ns where ns: "variables [l, r, a] = Inr ns"
    and rep: "equivalence_loop l r a ns [0..<2 ^ length ns] 0 = Inr rep"
    using assms by (auto simp: check_equivalent_def res_simps)
  have d: "distinct ns" and v: "vars l \<subseteq> set ns" "vars r \<subseteq> set ns" "vars a \<subseteq> set ns"
    using variables_Inr [OF ns] by auto
  let ?bad = "\<lambda>i. sem a (valuation i ns) \<and> sem l (valuation i ns) \<noteq> sem r (valuation i ns)"
  have cong: "sem f x = sem f y" if "vars f \<subseteq> set ns" "\<And>n. n \<in> set ns \<Longrightarrow> x n = y n" for f x y
    using that by (intro sem_cong) auto
  have all: "(\<forall>i < 2 ^ length ns. sem a (valuation i ns) \<longrightarrow> sem l (valuation i ns) = sem r (valuation i ns))
      \<longleftrightarrow> (\<forall>v. sem a v \<longrightarrow> sem l v = sem r v)"
    "(\<forall>i < 2 ^ length ns. \<not> sem a (valuation i ns)) \<longleftrightarrow> (\<forall>v. \<not> sem a v)"
    by (rule all_indices [OF d], metis cong v)+
  show ?thesis
  proof (cases "find ?bad [0..<2 ^ length ns]")
    case None
    then have "rep = \<lparr>equivalent = True, counterexample = None, vacuous = (\<forall>i \<in> set [0..<2 ^ length ns]. \<not> sem a (valuation i ns))\<rparr>"
      using rep equivalence_loop_value [OF d v] by simp
    then show ?thesis
      using None by (auto simp: find_None_iff all [symmetric])
  next
    case (Some i)
    then have "rep = \<lparr>equivalent = False, counterexample = Some (assignment_items i ns), vacuous = False\<rparr>"
      using rep equivalence_loop_value [OF d v] by simp
    moreover have "?bad i" using find_SomeD [OF Some] by blast
    ultimately show ?thesis using v d by (auto simp: evaluate_assignment)
  qed
qed

theorem check_equivalent_correct_witness:
  "\<exists>rep. check_equivalent (FBin Imp (FVar [112]) (FVar [113])) (FVar [113]) (FVar [112]) = Inr rep
     \<and> equivalent rep \<and> \<not> vacuous rep"
proof -
  let ?rep = "\<lparr>equivalent = True, counterexample = None, vacuous = False\<rparr>"
  have e: "check_equivalent (FBin Imp (FVar [112]) (FVar [113])) (FVar [113]) (FVar [112]) = Inr ?rep"
    by code_simp
  from check_equivalent_correct [OF e] e show ?thesis by auto
qed

text \<open>C11: \<open>check_inductive_invariant\<close> reports an invariant inductive exactly when it holds in every
  initial state and every step of the system keeps it; then it holds in every reachable state.\<close>

lemma inductive_reach:
  assumes "\<And>v. sem ini0 v \<Longrightarrow> sem goal v" and "\<And>v w. sem goal v \<Longrightarrow> sys_step tran pairs v w \<Longrightarrow> sem goal w"
    and "sys_reach ini0 tran pairs v"
  shows "sem goal v"
  using assms(3) by induction (use assms(1,2) in blast)+

lemma after_step:
  assumes "distinct (map fst pairs)" "distinct (map snd pairs)" "fst ` set pairs \<inter> snd ` set pairs = {}"
    and "vars goal \<subseteq> fst ` set pairs"
  shows "(\<exists>v. bad_step goal tran pairs v) \<longleftrightarrow> (\<exists>v w. sem goal v \<and> sys_step tran pairs v w \<and> \<not> sem goal w)"
proof
  assume "\<exists>v. bad_step goal tran pairs v"
  then obtain v where v: "sem goal v" "sem tran v" "\<not> sem goal (after_of pairs v)"
    by (auto simp: bad_step_def)
  have "sys_step tran pairs v (after_of pairs v)"
    unfolding sys_step_def after_of_def using v(2) assms(1) by (intro exI [of _ v]) auto
  with v show "\<exists>v w. sem goal v \<and> sys_step tran pairs v w \<and> \<not> sem goal w" by blast
next
  assume "\<exists>v w. sem goal v \<and> sys_step tran pairs v w \<and> \<not> sem goal w"
  then obtain v w x where v: "sem goal v" "\<not> sem goal w" "sem tran x"
    and x: "\<And>n nxt. (n, nxt) \<in> set pairs \<Longrightarrow> x n = v n \<and> x nxt = w n"
    by (fastforce simp: sys_step_def)
  have here: "sem goal x = sem goal v" using assms(4) x by (intro sem_cong) fastforce
  have "after_of pairs x n = w n" if "n \<in> vars goal" for n
  proof -
    have "map_of pairs n \<noteq> None" using assms(4) that unfolding map_of_eq_None_iff by blast
    then obtain nxt where nxt: "map_of pairs n = Some nxt" by blast
    then show ?thesis using x [OF map_of_SomeD [OF nxt]] by (simp add: after_of_def)
  qed
  then have "sem goal (after_of pairs x) = sem goal w" by (rule sem_cong)
  with here v show "\<exists>v. bad_step goal tran pairs v" by (auto simp: bad_step_def)
qed

lemma bad_cong:
  assumes "\<And>n. n \<in> set ns \<Longrightarrow> v n = w n" "fst ` set pairs \<union> snd ` set pairs \<subseteq> set ns"
    and "vars goal \<subseteq> fst ` set pairs" "vars ini0 \<subseteq> set ns" "vars tran \<subseteq> set ns"
  shows "bad_start goal ini0 v = bad_start goal ini0 w" "bad_step goal tran pairs v = bad_step goal tran pairs w"
proof -
  have s: "sem f v = sem f w" if "vars f \<subseteq> set ns" for f using assms(1) that by (intro sem_cong) auto
  have "after_of pairs v n = after_of pairs w n" for n
    using assms(1,2) by (force simp: after_of_def split: option.splits dest!: map_of_SomeD)
  then have a: "after_of pairs v = after_of pairs w" by blast
  have "vars goal \<subseteq> set ns" using assms(2,3) by blast
  then show "bad_start goal ini0 v = bad_start goal ini0 w" "bad_step goal tran pairs v = bad_step goal tran pairs w"
    using s assms(4,5) by (simp_all add: bad_start_def bad_step_def a)
qed

theorem check_inductive_invariant_correct:
  assumes "check_inductive_invariant word dec goal ini0 tran pairs = Inr rep" and keys: "distinct (map fst pairs)"
  shows "(is_inductive rep \<longleftrightarrow> (\<forall>v. sem ini0 v \<longrightarrow> sem goal v)
           \<and> (\<forall>v w. sem goal v \<longrightarrow> sys_step tran pairs v w \<longrightarrow> sem goal w))
    \<and> (is_inductive rep \<longrightarrow> (\<forall>v. sys_reach ini0 tran pairs v \<longrightarrow> sem goal v))"
proof -
  define ns where "ns = sort (map fst pairs @ map snd pairs)"
  obtain used moved where used: "variables [goal, ini0] = Inr used" "set used \<subseteq> fst ` set pairs"
    and moved: "variables [tran] = Inr moved" "set moved \<subseteq> fst ` set pairs \<union> snd ` set pairs"
    and names: "distinct (map snd pairs)" "fst ` set pairs \<inter> snd ` set pairs = {}"
    and loop: "\<exists>n k. check_loop goal ini0 tran pairs ns [0..<2 ^ length ns] (None, None, 0, 0)
        = Inr (initiation_counterexample rep, preservation_counterexample rep, n, k)"
    and ind: "is_inductive rep \<longleftrightarrow> initiation_counterexample rep = None \<and> preservation_counterexample rep = None"
    using assms(1) by (auto simp: check_inductive_invariant_def Let_def res_simps ns_def split: if_splits)
  have d: "distinct ns" using keys names by (simp add: ns_def)
  have p: "fst ` set pairs \<union> snd ` set pairs \<subseteq> set ns" by (auto simp: ns_def)
  have v: "vars goal \<subseteq> fst ` set pairs" "vars ini0 \<subseteq> set ns" "vars tran \<subseteq> set ns"
  proof -
    have "vars goal \<union> vars ini0 = set used" "vars tran = set moved"
      using variables_Inr(1) [OF used(1)] variables_Inr(1) [OF moved(1)] by simp_all
    then show "vars goal \<subseteq> fst ` set pairs" "vars ini0 \<subseteq> set ns" "vars tran \<subseteq> set ns"
      using used(2) moved(2) p by blast+
  qed
  have all: "(\<forall>i < 2 ^ length ns. \<not> bad_start goal ini0 (valuation i ns)) \<longleftrightarrow> (\<forall>v. \<not> bad_start goal ini0 v)"
    by (rule all_indices [OF d], rule arg_cong [of _ _ Not], rule bad_cong(1) [OF _ p v])
  have all': "(\<forall>i < 2 ^ length ns. \<not> bad_step goal tran pairs (valuation i ns)) \<longleftrightarrow> (\<forall>v. \<not> bad_step goal tran pairs v)"
    by (rule all_indices [OF d], rule arg_cong [of _ _ Not], rule bad_cong(2) [OF _ p v])
  have "initiation_counterexample rep = map_option (\<lambda>i. assignment_items i ns)
      (find (\<lambda>i. bad_start goal ini0 (valuation i ns)) [0..<2 ^ length ns])"
    "preservation_counterexample rep = map_option (\<lambda>i. assignment_items i ns)
      (find (\<lambda>i. bad_step goal tran pairs (valuation i ns)) [0..<2 ^ length ns])"
    using loop unfolding check_loop_value [OF d p v] by auto
  then have "is_inductive rep \<longleftrightarrow> (\<forall>v. \<not> bad_start goal ini0 v) \<and> (\<forall>v. \<not> bad_step goal tran pairs v)"
    unfolding ind by (simp add: find_None_iff flip: all all')
  also have "\<dots> \<longleftrightarrow> (\<forall>v. sem ini0 v \<longrightarrow> sem goal v) \<and> (\<forall>v w. sem goal v \<longrightarrow> sys_step tran pairs v w \<longrightarrow> sem goal w)"
    using after_step [OF keys names v(1), of tran] by (auto simp: bad_start_def)
  finally show ?thesis using inductive_reach [of ini0 goal tran pairs] by blast
qed

theorem check_inductive_invariant_correct_witness:
  "\<exists>rep. check_inductive_invariant (\<lambda>c. 97 \<le> c) (\<lambda>c. False) (FVar [112]) (FVar [112])
       (FBin Imp (FVar [112]) (FVar [113])) [([112], [113])] = Inr rep \<and> is_inductive rep
     \<and> {v [112] |v. sys_reach (FVar [112]) (FBin Imp (FVar [112]) (FVar [113])) [([112], [113])] v} = {True}"
proof -
  let ?rep = "\<lparr>is_inductive = True, initiation_counterexample = None, preservation_counterexample = None,
     initial_satisfiable = True, preservation_vacuous = False\<rparr>"
  have e: "check_inductive_invariant (\<lambda>c. 97 \<le> c) (\<lambda>c. False) (FVar [112]) (FVar [112])
       (FBin Imp (FVar [112]) (FVar [113])) [([112], [113])] = Inr ?rep"
    by code_simp
  have "sys_reach (FVar [112]) (FBin Imp (FVar [112]) (FVar [113])) [([112], [113])] (\<lambda>n. True)"
    by (rule sys_reach.start) simp
  moreover have "v [112]" if "sys_reach (FVar [112]) (FBin Imp (FVar [112]) (FVar [113])) [([112], [113])] v" for v
    using check_inductive_invariant_correct [OF e] that by (simp, blast)
  ultimately have "{v [112] |v. sys_reach (FVar [112]) (FBin Imp (FVar [112]) (FVar [113])) [([112], [113])] v} = {True}"
    by auto
  with e show ?thesis by auto
qed

end
