(* ===== verification/Logic_Maps.thy ===== *)
theory Logic_Maps
  imports Logic_Decide
begin

text \<open>
  The Karnaugh map of a formula in Gray-code order and the entailed facts of a constraint
  (\<open>karnaugh_map\<close> and \<open>detect_invariants\<close> of \<open>logic_ir.py\<close>).
\<close>

unbundle bit_operations_syntax

section \<open>Karnaugh maps\<close>

record kmap =
  row_variables :: "utext list"
  column_variables :: "utext list"
  row_gray_codes :: "nat list"
  column_gray_codes :: "nat list"
  cell_rows :: "nat option list list"

definition gray_codes :: "nat \<Rightarrow> nat list" where
  "gray_codes n = map (\<lambda>i. i XOR drop_bit 1 i) [0..<2 ^ n]"

definition kmap_cell :: "formula \<Rightarrow> formula \<Rightarrow> (utext \<rightharpoonup> bool) \<Rightarrow> exc + nat option" where
  "kmap_cell f a m =
     rbind (evaluate a m) (\<lambda>c. if c then rbind (evaluate f m) (\<lambda>x. Inr (Some (of_bool x))) else Inr None)"

definition karnaugh_map :: "formula \<Rightarrow> formula \<Rightarrow> exc + kmap" where
  "karnaugh_map f a =
     rbind (variables [f, a]) (\<lambda>names.
       if 6 < length names then Inl (LogicLimit ''K-map display supports at most six variables'')
       else
         (let nrows = length names div 2; rows = gray_codes nrows; cols = gray_codes (length names - nrows) in
          rbind (rmap (\<lambda>row. rmap (\<lambda>col. kmap_cell f a (assignment_for (row OR push_bit nrows col) names)) cols) rows) (\<lambda>cells.
          Inr \<lparr>row_variables = take nrows names, column_variables = drop nrows names,
               row_gray_codes = rows, column_gray_codes = cols, cell_rows = cells\<rparr>)))"

lemma length_gray_codes [simp]: "length (gray_codes n) = 2 ^ n"
  by (simp add: gray_codes_def)

lemma gray_small:
  assumes "n \<le> 3"
  shows "set (gray_codes n) = {..<2 ^ n}" "distinct (gray_codes n)"
    "\<forall>i \<in> set [0..<2 ^ n - 1]. \<exists>b \<in> set [0..<n]. gray_codes n ! Suc i = flip_bit b (gray_codes n ! i)"
proof -
  have "n \<in> set [0, 1, 2, 3]" using assms by auto
  moreover have "\<forall>n \<in> set [0, 1, 2, 3::nat]. set (gray_codes n) = set [0..<2 ^ n] \<and> distinct (gray_codes n)
    \<and> (\<forall>i \<in> set [0..<2 ^ n - 1]. \<exists>b \<in> set [0..<n]. gray_codes n ! Suc i = flip_bit b (gray_codes n ! i))"
    by code_simp
  ultimately have *: "set (gray_codes n) = set [0..<2 ^ n] \<and> distinct (gray_codes n)
    \<and> (\<forall>i \<in> set [0..<2 ^ n - 1]. \<exists>b \<in> set [0..<n]. gray_codes n ! Suc i = flip_bit b (gray_codes n ! i))"
    by blast
  then show "set (gray_codes n) = {..<2 ^ n}" by auto
  from * show "distinct (gray_codes n)"
    "\<forall>i \<in> set [0..<2 ^ n - 1]. \<exists>b \<in> set [0..<n]. gray_codes n ! Suc i = flip_bit b (gray_codes n ! i)" by blast+
qed

lemma split_valuation:
  assumes "distinct ns" and "k \<le> length ns" and "\<forall>j < k. bit r j = v (ns ! j)" and "r < 2 ^ k"
    and "\<forall>j < length ns - k. bit c j = v (ns ! (k + j))" and n: "n \<in> set ns"
  shows "valuation (r OR push_bit k c) ns n = v n"
proof -
  obtain j where j: "j < length ns" "ns ! j = n" using n by (auto simp: in_set_conv_nth)
  have "bit (r OR push_bit k c) j = v (ns ! j)"
  proof (cases "j < k")
    case True
    then show ?thesis using assms(3) by (simp add: bit_or_iff bit_push_bit_iff)
  next
    case False
    have "\<not> bit r j" using False assms(4) by (metis bit_take_bit_iff take_bit_nat_eq_self)
    then show ?thesis using False j assms(5) [rule_format, of "j - k"] by (auto simp: bit_or_iff bit_push_bit_iff)
  qed
  then show ?thesis using valuation_nth [OF assms(1) j(1)] j(2) by metis
qed

section \<open>Entailed facts\<close>

datatype relation_kind = Equal | Opposite

record entailed =
  satisfiable :: bool
  no_models :: bool
  forced :: "(utext \<times> bool) list"
  relations :: "(utext \<times> utext \<times> relation_kind) list"
  redundant_conjuncts :: "utext list"
  reduced :: "utext option"

text \<open>\<open>all(not evaluate(rest, a) or evaluate(kept[index], a) for ...)\<close>, stopping at the first failure.\<close>

primrec entails_on :: "utext list \<Rightarrow> formula \<Rightarrow> formula \<Rightarrow> nat list \<Rightarrow> exc + bool" where
  "entails_on ns rest g [] = Inr True"
| "entails_on ns rest g (i # is) =
     rbind (evaluate rest (assignment_for i ns)) (\<lambda>x.
       if \<not> x then entails_on ns rest g is
       else rbind (evaluate g (assignment_for i ns)) (\<lambda>y. if y then entails_on ns rest g is else Inr False))"

text \<open>The loop over \<open>reversed(range(len(kept)))\<close>; \<open>kept.pop(index)\<close> shortens the list in place.\<close>

primrec prune :: "utext list \<Rightarrow> nat list \<Rightarrow> formula list \<Rightarrow> utext list \<Rightarrow> exc + formula list \<times> utext list" where
  "prune ns [] kept removed = Inr (kept, removed)"
| "prune ns (i # is) kept removed =
     (let rest = join And (take i kept @ drop (Suc i) kept) in
      rbind (entails_on ns rest (kept ! i) [0..<2 ^ length ns]) (\<lambda>e.
        if e then prune ns is (remove_at i kept) (removed @ [render_formula (kept ! i)])
        else prune ns is kept removed))"

primrec atom_pairs :: "'a list \<Rightarrow> ('a \<times> 'a) list" where
  "atom_pairs [] = []"
| "atom_pairs (x # xs) = map (Pair x) xs @ atom_pairs xs"

definition satisfying :: "formula \<Rightarrow> utext list \<Rightarrow> exc + (utext \<rightharpoonup> bool) list" where
  "satisfying f names =
     rbind (rmap (\<lambda>i. rbind (evaluate f (assignment_for i names)) (\<lambda>b. Inr (assignment_for i names, b)))
              [0..<2 ^ length names])
       (\<lambda>ms. Inr (map fst (filter snd ms)))"

definition detect_invariants :: "formula \<Rightarrow> exc + entailed" where
  "detect_invariants f =
     rbind (variables [f]) (\<lambda>names.
     rbind (satisfying f names) (\<lambda>models.
     case models of
       [] \<Rightarrow> Inr \<lparr>satisfiable = False, no_models = True, forced = [], relations = [], redundant_conjuncts = [], reduced = None\<rparr>
     | m # ms \<Rightarrow>
         (let forced = filter (\<lambda>n. \<forall>a \<in> set models. a n = m n) names;
              related = filter (\<lambda>(x, y). \<forall>a \<in> set models. (a x = a y) = (m x = m y)) (atom_pairs names);
              conjuncts = flatten And f in
          rbind (prune names (rev [0..<length conjuncts]) conjuncts []) (\<lambda>p.
          Inr \<lparr>satisfiable = True, no_models = False, forced = map (\<lambda>n. (n, m n = Some True)) forced,
               relations = map (\<lambda>(x, y). (x, y, if m x = m y then Equal else Opposite)) related,
               redundant_conjuncts = snd p, reduced = Some (render_formula (join And (fst p)))\<rparr>))))"

lemma entails_on_value:
  assumes "distinct ns" "vars rest \<subseteq> set ns" "vars g \<subseteq> set ns"
  shows "entails_on ns rest g is = Inr (\<forall>i \<in> set is. sem rest (valuation i ns) \<longrightarrow> sem g (valuation i ns))"
  using assms by (induction "is") (auto simp: evaluate_assignment)

lemma entails_all:
  assumes "distinct ns" "vars rest \<subseteq> set ns" "vars g \<subseteq> set ns"
  shows "entails_on ns rest g [0..<2 ^ length ns] = Inr (\<forall>v. sem rest v \<longrightarrow> sem g v)"
proof -
  have "sem f v = sem f w" if "vars f \<subseteq> set ns" "\<And>n. n \<in> set ns \<Longrightarrow> v n = w n" for f v w
    using that by (intro sem_cong) auto
  then have "(sem rest v \<longrightarrow> sem g v) = (sem rest w \<longrightarrow> sem g w)" if "\<And>n. n \<in> set ns \<Longrightarrow> v n = w n" for v w
    using that assms(2,3) by metis
  from all_indices [where P = "\<lambda>v. sem rest v \<longrightarrow> sem g v", OF assms(1) this] show ?thesis
    by (simp add: entails_on_value [OF assms] atLeast0LessThan lessThan_def)
qed

definition entail :: "formula list \<Rightarrow> formula \<Rightarrow> bool" where
  "entail ts g \<longleftrightarrow> (\<forall>v. (\<forall>t \<in> set ts. sem t v) \<longrightarrow> sem g v)"

lemma prune_correct:
  assumes "distinct ns" and "\<forall>t \<in> set (ls @ rs). vars t \<subseteq> set ns"
    and "\<forall>i < length rs. \<not> entail (ls @ remove_at i rs) (rs ! i)"
  shows "\<exists>kept gone. prune ns (rev [0..<length ls]) (ls @ rs) removed = Inr (kept, gone)
    \<and> (\<forall>v. (\<forall>t \<in> set kept. sem t v) \<longleftrightarrow> (\<forall>t \<in> set (ls @ rs). sem t v))
    \<and> (\<forall>i < length kept. \<not> entail (remove_at i kept) (kept ! i))"
  using assms
proof (induction ls arbitrary: rs removed rule: rev_induct)
  case (snoc t ls)
  have pop: "remove_at (length ls) (ls @ t # rs) = ls @ rs" by (simp add: remove_at_def)
  have v: "vars (join And (ls @ rs)) \<subseteq> set ns" "vars t \<subseteq> set ns" using snoc.prems(2) by (auto simp: vars_join)
  have e: "entails_on ns (join And (ls @ rs)) t [0..<2 ^ length ns] = Inr (entail (ls @ rs) t)"
    by (simp add: entails_all [OF snoc.prems(1) v] entail_def sem_join_And)
  have here: "prune ns (rev [0..<length (ls @ [t])]) ((ls @ [t]) @ rs) removed =
    (if entail (ls @ rs) t then prune ns (rev [0..<length ls]) (ls @ rs) (removed @ [render_formula t])
     else prune ns (rev [0..<length ls]) (ls @ t # rs) removed)"
    using e by (simp add: pop Let_def)
  show ?case
  proof (cases "entail (ls @ rs) t")
    case True
    have "\<forall>i < length rs. \<not> entail (ls @ remove_at i rs) (rs ! i)"
      using snoc.prems(3) by (auto simp: entail_def)
    with snoc.IH [OF snoc.prems(1), of rs "removed @ [render_formula t]"] snoc.prems(2) True
    show ?thesis unfolding here by (auto simp: entail_def)
  next
    case False
    have "\<not> entail (ls @ remove_at i (t # rs)) ((t # rs) ! i)" if "i < length (t # rs)" for i
      using snoc.prems(3) False that by (cases i) (auto simp: remove_at_def)
    with snoc.IH [OF snoc.prems(1), of "t # rs" removed] snoc.prems(2) False
    show ?thesis unfolding here by auto
  qed
qed simp


lemma set_atom_pairs:
  "distinct ns \<Longrightarrow> sorted ns \<Longrightarrow> set (atom_pairs ns) = {(x, y). x \<in> set ns \<and> y \<in> set ns \<and> x < y}"
  by (induction ns) (auto simp: order_less_le)

lemma tagged_pair: "(x, y, k) \<in> set (map (\<lambda>(x, y). (x, y, g x y)) ps) \<longleftrightarrow> (x, y) \<in> set ps \<and> k = g x y"
  by force

lemma satisfying_value:
  assumes "distinct ns" "vars f \<subseteq> set ns"
  shows "satisfying f ns = Inr (map (\<lambda>i. assignment_for i ns) (filter (\<lambda>i. sem f (valuation i ns)) [0..<2 ^ length ns]))"
proof -
  have "rmap (\<lambda>i. rbind (evaluate f (assignment_for i ns)) (\<lambda>b. Inr (assignment_for i ns, b))) [0..<2 ^ length ns]
    = Inr (map (\<lambda>i. (assignment_for i ns, sem f (valuation i ns))) [0..<2 ^ length ns])"
    by (rule rmap_total) (simp add: evaluate_assignment [OF assms(2,1)])
  then show ?thesis by (simp add: satisfying_def filter_map comp_def)
qed

section \<open>Properties\<close>

text \<open>Every valuation has exactly one cell of the Karnaugh map, the cell its row and column codes
  spell; the cell holds the value of the formula where the assumptions hold and is empty elsewhere;
  and neighbouring rows, and neighbouring columns, differ in one variable.\<close>

definition neighbours :: "nat \<Rightarrow> nat list \<Rightarrow> bool" where
  "neighbours n cs \<longleftrightarrow> (\<forall>i < length cs - 1. \<exists>b < n. cs ! Suc i = flip_bit b (cs ! i))"

lemma bit_index_of: "j < length ns \<Longrightarrow> bit (index_of v ns) j = v (ns ! j)"
  by (simp add: index_of_def bit_horner_sum_bit_iff)

lemma gray_position:
  assumes "n \<le> 3" and "x < 2 ^ n"
  shows "\<exists>!r. r < length (gray_codes n) \<and> gray_codes n ! r = x"
  using gray_small(1,2) [OF assms(1)] assms(2) by (intro distinct_Ex1) simp_all

lemma kmap_cell_value:
  assumes d: "distinct ns" and v: "vars f \<subseteq> set ns" "vars a \<subseteq> set ns"
  shows "kmap_cell f a (assignment_for (index_of x (take k ns) OR push_bit k (index_of x (drop k ns))) ns)
    = Inr (if sem a x then Some (of_bool (sem f x)) else None)"
proof (cases "k \<le> length ns")
  case True
  let ?i = "index_of x (take k ns) OR push_bit k (index_of x (drop k ns))"
  have "length (take k ns) = k" using True by simp
  then have "index_of x (take k ns) < 2 ^ k" using index_of_less [of x "take k ns"] by simp
  then have "valuation ?i ns n = x n" if "n \<in> set ns" for n
    using True that by (intro split_valuation [OF d True]) (simp_all add: bit_index_of)
  then have "sem g (valuation ?i ns) = sem g x" if "vars g \<subseteq> set ns" for g using that by (intro sem_cong) auto
  then show ?thesis by (simp add: kmap_cell_def evaluate_assignment [OF v(1) d] evaluate_assignment [OF v(2) d] v)
next
  case False
  have "valuation (index_of x ns) ns n = x n" if "n \<in> set ns" for n using valuation_index_of [OF d that] .
  then have "sem g (valuation (index_of x ns) ns) = sem g x" if "vars g \<subseteq> set ns" for g using that by (intro sem_cong) auto
  then show ?thesis
    using False by (simp add: kmap_cell_def index_of_def evaluate_assignment [OF v(1) d] evaluate_assignment [OF v(2) d] v)
qed

lemma karnaugh_map_shape:
  assumes "karnaugh_map f a = Inr m"
  obtains ns where "variables [f, a] = Inr ns" and "length ns \<le> 6"
    and "row_variables m = take (length ns div 2) ns" and "column_variables m = drop (length ns div 2) ns"
    and "row_gray_codes m = gray_codes (length ns div 2)" and "column_gray_codes m = gray_codes (length ns - length ns div 2)"
    and "rmap (\<lambda>row. rmap (\<lambda>col. kmap_cell f a (assignment_for (row OR push_bit (length ns div 2) col) ns))
          (column_gray_codes m)) (row_gray_codes m) = Inr (cell_rows m)"
  using assms by (auto simp: karnaugh_map_def Let_def res_simps split: if_splits)

lemma rmap_length: "rmap f xs = Inr ys \<Longrightarrow> length ys = length xs"
  by (induction xs arbitrary: ys) (auto simp: res_simps)

lemma rmap_nth: "rmap f xs = Inr ys \<Longrightarrow> i < length xs \<Longrightarrow> f (xs ! i) = Inr (ys ! i)"
  by (induction xs arbitrary: ys i) (auto simp: res_simps nth_Cons split: nat.split)

theorem karnaugh_map_correct:
  assumes "karnaugh_map f a = Inr m"
  shows "neighbours (length (row_variables m)) (row_gray_codes m)
    \<and> neighbours (length (column_variables m)) (column_gray_codes m)
    \<and> (\<forall>v. (\<exists>!r. r < length (row_gray_codes m) \<and> row_gray_codes m ! r = index_of v (row_variables m))
         \<and> (\<exists>!c. c < length (column_gray_codes m) \<and> column_gray_codes m ! c = index_of v (column_variables m)))
    \<and> (\<forall>v. \<forall>r < length (row_gray_codes m). \<forall>c < length (column_gray_codes m).
         row_gray_codes m ! r = index_of v (row_variables m) \<longrightarrow> column_gray_codes m ! c = index_of v (column_variables m)
         \<longrightarrow> cell_rows m ! r ! c = (if sem a v then Some (of_bool (sem f v)) else None))"
proof -
  obtain ns where ns: "variables [f, a] = Inr ns" and l: "length ns \<le> 6"
    and m: "row_variables m = take (length ns div 2) ns" "column_variables m = drop (length ns div 2) ns"
      "row_gray_codes m = gray_codes (length ns div 2)" "column_gray_codes m = gray_codes (length ns - length ns div 2)"
    and cells: "rmap (\<lambda>row. rmap (\<lambda>col. kmap_cell f a (assignment_for (row OR push_bit (length ns div 2) col) ns))
          (column_gray_codes m)) (row_gray_codes m) = Inr (cell_rows m)"
    by (rule karnaugh_map_shape [OF assms])
  have d: "distinct ns" and v: "vars f \<subseteq> set ns" "vars a \<subseteq> set ns" using variables_Inr [OF ns] by auto
  let ?k = "length ns div 2"
  have k: "?k \<le> 3" "length ns - ?k \<le> 3" using l by simp_all
  have "neighbours n (gray_codes n)" if "n \<le> 3" for n
    using gray_small(3) [OF that] by (auto simp: neighbours_def Ball_def Bex_def)
  moreover have len: "length (row_variables m) = ?k" "length (column_variables m) = length ns - ?k" by (simp_all add: m)
  ultimately have 1: "neighbours (length (row_variables m)) (row_gray_codes m)"
    "neighbours (length (column_variables m)) (column_gray_codes m)" using k by (simp_all only: len m(3,4))
  have "index_of x (row_variables m) < 2 ^ ?k" "index_of x (column_variables m) < 2 ^ (length ns - ?k)" for x
    using index_of_less [of x "row_variables m"] index_of_less [of x "column_variables m"] by (simp_all only: len)
  then have 2: "(\<exists>!r. r < length (row_gray_codes m) \<and> row_gray_codes m ! r = index_of x (row_variables m))
      \<and> (\<exists>!c. c < length (column_gray_codes m) \<and> column_gray_codes m ! c = index_of x (column_variables m))" for x
    using gray_position k by (simp add: m(3,4))
  have "cell_rows m ! r ! c = (if sem a x then Some (of_bool (sem f x)) else None)"
    if "r < length (row_gray_codes m)" "c < length (column_gray_codes m)"
      "row_gray_codes m ! r = index_of x (row_variables m)" "column_gray_codes m ! c = index_of x (column_variables m)" for x r c
    using rmap_nth [OF rmap_nth [OF cells that(1)] that(2)] kmap_cell_value [OF d v] by (simp add: that(3,4) m(1,2))
  with 1 2 show ?thesis by blast
qed

theorem karnaugh_map_correct_witness:
  "\<exists>m. karnaugh_map (FBin Imp (FVar [112]) (FVar [113])) FTrue = Inr m
    \<and> cell_rows m = [[Some 1, Some 1], [Some 0, Some 1]] \<and> neighbours 1 (row_gray_codes m)"
proof -
  let ?m = "\<lparr>row_variables = [[112]], column_variables = [[113]], row_gray_codes = [0, 1], column_gray_codes = [0, 1],
    cell_rows = [[Some 1, Some 1], [Some 0, Some 1]]\<rparr>"
  have e: "karnaugh_map (FBin Imp (FVar [112]) (FVar [113])) FTrue = Inr ?m" by code_simp
  from karnaugh_map_correct [OF e] e show ?thesis by auto
qed

text \<open>Whether there is a model, and what is left after dropping the redundant conjuncts.\<close>

lemma detect_invariants_reduced:
  assumes "detect_invariants f = Inr r"
  shows "satisfiable r \<longleftrightarrow> (\<exists>v. sem f v)"
    and "satisfiable r \<Longrightarrow> \<exists>kept. reduced r = Some (render_formula (join And kept)) \<and> (\<forall>v. sem (join And kept) v = sem f v)
      \<and> (\<forall>i < length kept. \<not> entail (remove_at i kept) (kept ! i))"
proof -
  obtain ns where ns: "variables [f] = Inr ns" using assms by (auto simp: detect_invariants_def res_simps)
  have d: "distinct ns" and v: "vars f = set ns" using variables_Inr [OF ns] by auto
  let ?is = "filter (\<lambda>i. sem f (valuation i ns)) [0..<2 ^ length ns]"
  have sat: "satisfying f ns = Inr (map (\<lambda>i. assignment_for i ns) ?is)" using satisfying_value [OF d] v by simp
  have none: "(\<forall>i < 2 ^ length ns. \<not> sem f (valuation i ns)) \<longleftrightarrow> (\<forall>v. \<not> sem f v)"
    by (rule all_indices [OF d]) (metis sem_cong v)
  obtain kept gone where p: "prune ns (rev [0..<length (flatten And f)]) (flatten And f) [] = Inr (kept, gone)"
    "\<forall>v. (\<forall>t \<in> set kept. sem t v) \<longleftrightarrow> (\<forall>t \<in> set (flatten And f). sem t v)"
    "\<forall>i < length kept. \<not> entail (remove_at i kept) (kept ! i)"
    using prune_correct [OF d, of "flatten And f" "[]" "[]"] vars_flatten [of _ And f] v by fastforce
  have "satisfiable r \<longleftrightarrow> ?is \<noteq> []"
    using assms ns sat p(1) by (cases ?is) (auto simp: detect_invariants_def Let_def)
  then show s: "satisfiable r \<longleftrightarrow> (\<exists>v. sem f v)" using none by (auto simp: filter_empty_conv)
  assume "satisfiable r"
  then obtain i js where "?is = i # js" using \<open>satisfiable r \<longleftrightarrow> ?is \<noteq> []\<close> by (cases ?is) auto
  then have "reduced r = Some (render_formula (join And kept))"
    using assms ns sat p(1) by (auto simp: detect_invariants_def Let_def)
  moreover have "sem (join And kept) v = sem f v" for v
    using p(2) sem_flatten(1) [of f v] by (simp add: sem_join_And)
  ultimately show "\<exists>kept. reduced r = Some (render_formula (join And kept)) \<and> (\<forall>v. sem (join And kept) v = sem f v)
      \<and> (\<forall>i < length kept. \<not> entail (remove_at i kept) (kept ! i))" using p(3) by blast
qed

text \<open>C15: \<open>detect_invariants\<close> reports exactly the literals and the equalities and oppositions of
  atoms the constraint entails, and what it keeps after dropping redundant conjuncts is equivalent
  to the constraint and irredundant.\<close>

theorem detect_invariants_correct:
  assumes "detect_invariants f = Inr r"
  shows "(satisfiable r \<longleftrightarrow> (\<exists>v. sem f v)) \<and> (satisfiable r \<longrightarrow>
      (\<forall>n b. (n, b) \<in> set (forced r) \<longleftrightarrow> n \<in> vars f \<and> (\<forall>v. sem f v \<longrightarrow> v n = b))
    \<and> (\<forall>x y k. (x, y, k) \<in> set (relations r) \<longleftrightarrow> x \<in> vars f \<and> y \<in> vars f \<and> x < y
         \<and> (\<forall>v. sem f v \<longrightarrow> (v x = v y) = (k = Equal)))
    \<and> (\<exists>kept. reduced r = Some (render_formula (join And kept)) \<and> (\<forall>v. sem (join And kept) v = sem f v)
         \<and> (\<forall>i < length kept. \<not> entail (remove_at i kept) (kept ! i))))"
proof -
  obtain ns where ns: "variables [f] = Inr ns" using assms by (auto simp: detect_invariants_def res_simps)
  have d: "distinct ns" "sorted ns" and v: "vars f = set ns" using variables_Inr [OF ns] by auto
  let ?is = "filter (\<lambda>i. sem f (valuation i ns)) [0..<2 ^ length ns]"
  have sat: "satisfying f ns = Inr (map (\<lambda>i. assignment_for i ns) ?is)" using satisfying_value [OF d(1)] v by simp
  have all: "(\<forall>i \<in> set ?is. P (valuation i ns)) \<longleftrightarrow> (\<forall>v. sem f v \<longrightarrow> P v)"
    if "\<And>v w. (\<And>n. n \<in> set ns \<Longrightarrow> v n = w n) \<Longrightarrow> P v = P w"
    for P :: "(utext \<Rightarrow> bool) \<Rightarrow> bool"
  proof -
    have "(\<forall>i < 2 ^ length ns. sem f (valuation i ns) \<longrightarrow> P (valuation i ns)) \<longleftrightarrow> (\<forall>v. sem f v \<longrightarrow> P v)"
    proof (rule all_indices [OF d(1)])
      fix x w :: "utext \<Rightarrow> bool"
      assume eq: "\<And>n. n \<in> set ns \<Longrightarrow> x n = w n"
      have "sem f x = sem f w" by (rule sem_cong) (simp add: v eq)
      moreover have "P x = P w" by (rule that) (rule eq)
      ultimately show "(sem f x \<longrightarrow> P x) = (sem f w \<longrightarrow> P w)" by simp
    qed
    then show ?thesis by auto
  qed
  have lookup: "assignment_for i ns n = Some (valuation i ns n)" if n: "n \<in> set ns" for i n
  proof -
    obtain k where "k < length ns" "ns ! k = n" using n by (auto simp: in_set_conv_nth)
    then show ?thesis using assignment_for_nth [OF d(1), of k i] valuation_nth [OF d(1), of k i] by simp
  qed
  show ?thesis
  proof (cases ?is)
    case Nil
    then show ?thesis using assms ns sat all [of "\<lambda>v. False"] by (auto simp: detect_invariants_def)
  next
    case (Cons i "is")
    have 1: "\<And>t. t \<in> set (flatten And f) \<Longrightarrow> vars t \<subseteq> set ns" using vars_flatten [of _ And f] v by blast
    obtain kept gone where p: "prune ns (rev [0..<length (flatten And f)]) (flatten And f) [] = Inr (kept, gone)"
      using prune_correct [OF d(1), of "flatten And f" "[]" "[]"] 1 by auto
    let ?m = "assignment_for i ns"
    have models: "satisfying f ns = Inr (?m # map (\<lambda>i. assignment_for i ns) is)" using sat Cons by simp
    have r: "satisfiable r"
      "forced r = map (\<lambda>n. (n, ?m n = Some True)) (filter (\<lambda>n. \<forall>j \<in> set is. assignment_for j ns n = ?m n) ns)"
      "relations r = map (\<lambda>(x, y). (x, y, if ?m x = ?m y then Equal else Opposite))
        (filter (\<lambda>(x, y). \<forall>j \<in> set is. (assignment_for j ns x = assignment_for j ns y) = (?m x = ?m y)) (atom_pairs ns))"
      using assms ns models p(1) by (auto simp: detect_invariants_def Let_def)
    have look: "?m n = Some (valuation i ns n)" if "n \<in> set ns" for n by (rule lookup) (rule that)
    have forced: "(n, b) \<in> set (forced r) \<longleftrightarrow> n \<in> vars f \<and> (\<forall>v. sem f v \<longrightarrow> v n = b)" for n b
    proof (cases "n \<in> set ns")
      case True
      have "(n, b) \<in> set (forced r) \<longleftrightarrow> (\<forall>j \<in> set ?is. valuation j ns n = b)"
        unfolding r(2) using True by (auto simp: Cons look lookup)
      also have "\<dots> \<longleftrightarrow> (\<forall>v. sem f v \<longrightarrow> v n = b)" by (rule all) (simp add: True)
      finally show ?thesis using True v by simp
    qed (auto simp: r(2) v)
    have rel: "(x, y, k) \<in> set (relations r) \<longleftrightarrow> x \<in> vars f \<and> y \<in> vars f \<and> x < y
        \<and> (\<forall>v. sem f v \<longrightarrow> (v x = v y) = (k = Equal))" for x y k
    proof (cases "x \<in> set ns \<and> y \<in> set ns \<and> x < y")
      case True
      have "(x, y, k) \<in> set (relations r) \<longleftrightarrow> (\<forall>j \<in> set ?is. (valuation j ns x = valuation j ns y) = (k = Equal))"
        unfolding r(3) tagged_pair using True by (cases k) (auto simp: Cons set_atom_pairs d look lookup)
      also have "\<dots> \<longleftrightarrow> (\<forall>v. sem f v \<longrightarrow> (v x = v y) = (k = Equal))" by (rule all) (simp add: True)
      finally show ?thesis using True v by simp
    qed (auto simp: r(3) tagged_pair v set_atom_pairs d)
    show ?thesis using detect_invariants_reduced [OF assms] r(1) forced rel by blast
  qed
qed

theorem detect_invariants_correct_witness:
  "\<exists>r. detect_invariants (FBin And (FVar [112]) (FBin And (FBin Iff (FVar [112]) (FVar [113])) (FVar [112]))) = Inr r
    \<and> satisfiable r \<and> forced r = [([112], True), ([113], True)] \<and> relations r = [([112], [113], Equal)]
    \<and> {v [113] |v. sem (FBin And (FVar [112]) (FBin And (FBin Iff (FVar [112]) (FVar [113])) (FVar [112]))) v} = {True}"
proof -
  let ?f = "FBin And (FVar [112]) (FBin And (FBin Iff (FVar [112]) (FVar [113])) (FVar [112]))"
  let ?r = "\<lparr>satisfiable = True, no_models = False, forced = [([112], True), ([113], True)],
    relations = [([112], [113], Equal)], redundant_conjuncts = [[112]],
    reduced = Some (u ''(p'' @ [32, 0x2227, 32] @ u ''(p'' @ [32, 0x2194, 32] @ u ''q))'')\<rparr>"
  have e: "detect_invariants ?f = Inr ?r" by code_simp
  have fr: "([113], True) \<in> set (forced ?r)" and sat: "satisfiable ?r" by simp_all
  have "\<forall>v. sem ?f v \<longrightarrow> v [113] = True"
    by (rule detect_invariants_correct [OF e, THEN conjunct2, THEN mp, OF sat, THEN conjunct1, THEN spec, THEN spec,
      THEN iffD1, OF fr, THEN conjunct2])
  then have "{v [113] |v. sem ?f v} = {True}" by (auto intro: exI [of _ "\<lambda>n. True"])
  with e show ?thesis by auto
qed

end
