(* ===== verification/Logic_Cover.thy ===== *)
theory Logic_Cover
  imports Logic_Decide
begin

text \<open>
  Two-level minimisation of \<open>logic_ir.py\<close>: \<open>_cover\<close> computes the prime implicants of a set of
  assignments and a cover by them, first greedily and then by a budgeted branch and bound;
  \<open>minimize_formula\<close> turns the cover into a formula. A cube is a pair of numbers, its fixed bits
  and the mask of its free positions.
\<close>

unbundle bit_operations_syntax

type_synonym cube = "nat \<times> nat"

section \<open>Cubes\<close>

text \<open>\<open>x & ~y\<close> and \<open>int.bit_count\<close> on natural numbers.\<close>

definition without :: "nat \<Rightarrow> nat \<Rightarrow> nat" where
  "without x y = x XOR (x AND y)"

fun bit_count :: "nat \<Rightarrow> nat" where
  "bit_count x = (if x = 0 then 0 else x mod 2 + bit_count (x div 2))"

declare bit_count.simps [simp del]

definition covers :: "cube \<Rightarrow> nat \<Rightarrow> bool" where
  "covers c m \<longleftrightarrow> without m (snd c) = fst c"

definition literals :: "nat \<Rightarrow> cube \<Rightarrow> nat" where
  "literals n c = n - bit_count (snd c)"

section \<open>Prime implicants\<close>

text \<open>One pass of the merging loop over the sorted level: a cube is used when flipping a fixed bit
  gives another cube of the level, and the two merge into one with that bit free.\<close>

definition partners :: "nat \<Rightarrow> cube list \<Rightarrow> cube \<Rightarrow> nat list" where
  "partners n level c =
     filter (\<lambda>b. \<not> bit (snd c) b \<and> (fst c XOR 2 ^ b, snd c) \<in> set level) [0..<n]"

definition used_cubes :: "nat \<Rightarrow> cube list \<Rightarrow> cube list" where
  "used_cubes n level =
     concat (map (\<lambda>c. concat (map (\<lambda>b. [c, (fst c XOR 2 ^ b, snd c)]) (partners n level c))) level)"

definition merged_cubes :: "nat \<Rightarrow> cube list \<Rightarrow> cube list" where
  "merged_cubes n level =
     sort (remdups (concat (map (\<lambda>c. map (\<lambda>b. (without (fst c) (2 ^ b), snd c OR 2 ^ b)) (partners n level c)) level)))"

definition free_bits :: "nat \<Rightarrow> cube \<Rightarrow> nat" where
  "free_bits n c = length (filter (bit (snd c)) [0..<n])"

lemma bit_without [simp]: "bit (without x y) k \<longleftrightarrow> bit x k \<and> \<not> bit y k"
  by (auto simp: without_def bit_xor_iff bit_and_iff)

lemma length_filter_insert:
  assumes "b \<in> set xs" "distinct xs" "\<not> P b"
  shows "length (filter (\<lambda>x. P x \<or> x = b) xs) = Suc (length (filter P xs))"
  using assms
proof (induction xs)
  case (Cons x xs)
  show ?case
  proof (cases "x = b")
    case True
    then have "filter (\<lambda>x. P x \<or> x = b) xs = filter P xs" using Cons.prems by (auto intro: filter_cong)
    then show ?thesis using True Cons.prems by simp
  next
    case False
    then show ?thesis using Cons by auto
  qed
qed simp

lemma merged_cubesD:
  assumes "d \<in> set (merged_cubes n level)"
  obtains c b where "c \<in> set level" "b < n" "\<not> bit (snd c) b" "(fst c XOR 2 ^ b, snd c) \<in> set level"
    "d = (without (fst c) (2 ^ b), snd c OR 2 ^ b)"
  using assms by (auto simp: merged_cubes_def partners_def)

lemma free_bits_merged: "b < n \<Longrightarrow> \<not> bit (snd c) b \<Longrightarrow> free_bits n (x, snd c OR 2 ^ b) = Suc (free_bits n c)"
proof -
  assume b: "b < n" "\<not> bit (snd c) b"
  have "bit (snd c OR 2 ^ b) = (\<lambda>x. bit (snd c) x \<or> x = b)" by (auto simp: bit_or_iff bit_exp_iff)
  then show ?thesis using length_filter_insert [of b "[0..<n]" "bit (snd c)"] b by (simp add: free_bits_def)
qed

lemma free_bits_le: "free_bits n c \<le> n"
  using length_filter_le [of "bit (snd c)" "[0..<n]"] by (simp add: free_bits_def)

function prime_loop :: "nat \<Rightarrow> cube list \<Rightarrow> cube list \<Rightarrow> cube list" where
  "prime_loop n level primes =
     (if level = [] then primes
      else prime_loop n (merged_cubes n level) (primes @ filter (\<lambda>c. c \<notin> set (used_cubes n level)) level))"
  by pat_completeness auto

definition level_rank :: "nat \<Rightarrow> cube list \<Rightarrow> nat" where
  "level_rank n level = foldr (\<lambda>c r. max (Suc n - free_bits n c) r) level 0"

lemma level_rank_ge: "c \<in> set level \<Longrightarrow> Suc n - free_bits n c \<le> level_rank n level"
  by (induction level) (auto simp: level_rank_def)

lemma level_rank_less: "(\<And>c. c \<in> set level \<Longrightarrow> Suc n - free_bits n c < r) \<Longrightarrow> 0 < r \<Longrightarrow> level_rank n level < r"
  by (induction level) (auto simp: level_rank_def)

termination prime_loop
proof (relation "measure (\<lambda>(n, level, primes). level_rank n level)", goal_cases)
  case (2 n level primes)
  then obtain c cs where l: "level = c # cs" by (cases level) auto
  have pos: "0 < level_rank n level"
    using level_rank_ge [of c level n] free_bits_le [of n c] by (simp add: l)
  have "Suc n - free_bits n d < level_rank n level" if "d \<in> set (merged_cubes n level)" for d
  proof (rule merged_cubesD [OF that])
    fix c b
    assume c: "c \<in> set level" and b: "b < n" "\<not> bit (snd c) b" and d: "d = (without (fst c) (2 ^ b), snd c OR 2 ^ b)"
    show ?thesis
      using level_rank_ge [OF c, of n] free_bits_le [of n d] free_bits_merged [OF b, of "without (fst c) (2 ^ b)"] by (simp add: d)
  qed
  then show ?case using level_rank_less pos by simp
qed simp

declare prime_loop.simps [simp del]

definition prime_cubes :: "nat list \<Rightarrow> nat list \<Rightarrow> nat \<Rightarrow> cube list" where
  "prime_cubes on dc n =
     sort (remdups (filter (\<lambda>c. \<exists>m \<in> set on. covers c m)
       (prime_loop n (sort (remdups (map (\<lambda>m. (m, 0)) (on @ dc)))) [])))"

section \<open>Covers\<close>

text \<open>The cost of a choice of cubes: terms, literals, and the sorted indices.\<close>

definition cover_cost :: "nat \<Rightarrow> cube list \<Rightarrow> nat list \<Rightarrow> nat \<times> nat \<times> nat list" where
  "cover_cost n cubes is = (length is, sum_list (map (\<lambda>i. literals n (cubes ! i)) is), sort is)"

definition covered :: "cube list \<Rightarrow> nat list \<Rightarrow> nat \<Rightarrow> nat list" where
  "covered cubes on i = filter (covers (cubes ! i)) on"

text \<open>The key both the greedy choice and the branching order use: most new points first, then fewest
  literals, then the index.\<close>

definition cube_key :: "nat \<Rightarrow> cube list \<Rightarrow> nat list \<Rightarrow> nat list \<Rightarrow> nat \<Rightarrow> int \<times> nat \<times> nat" where
  "cube_key n cubes on rest i =
     (- int (length (filter (\<lambda>m. m \<in> set (covered cubes on i)) rest)), literals n (cubes ! i), i)"

definition uncovered :: "cube list \<Rightarrow> nat list \<Rightarrow> nat \<Rightarrow> nat list \<Rightarrow> nat list" where
  "uncovered cubes on i rest = filter (\<lambda>m. m \<notin> set (covered cubes on i)) rest"

text \<open>The greedy loop runs while a point is left; it may not end if no cube covers one, and \<open>min\<close> of
  an empty range raises.\<close>

partial_function (option) greedy_cover ::
    "nat \<Rightarrow> cube list \<Rightarrow> nat list \<Rightarrow> nat list \<Rightarrow> nat list \<Rightarrow> (exc + nat list) option" where
  "greedy_cover n cubes on rest best =
     (if rest = [] then Some (Inr best)
      else if cubes = [] then Some (Inl (ValueErr ''min() arg is an empty sequence''))
      else (let i = arg_min_list (cube_key n cubes on rest) [0..<length cubes] in
            greedy_cover n cubes on (uncovered cubes on i rest) (best @ [i])))"

declare greedy_cover.simps [code]

text \<open>The variables the inner \<open>search\<close> updates.\<close>

record search_state =
  best_cover :: "nat list"
  calls :: nat
  exhausted :: bool

primrec try_options :: "(nat \<Rightarrow> search_state \<Rightarrow> search_state option) \<Rightarrow> nat list \<Rightarrow> search_state \<Rightarrow> search_state option" where
  "try_options go [] st = Some st"
| "try_options go (i # is) st =
     (case go i st of
        None \<Rightarrow> None
      | Some st' \<Rightarrow> if exhausted st' then Some st' else try_options go is st')"

text \<open>\<open>min(remaining, key=...)\<close> takes the first minimum in the iteration order of a frozen set, which
  the language leaves open: it is the parameter \<open>arrange\<close>. The recursion goes one level deeper per
  point, so the number of points is fuel enough.\<close>

primrec search_cover ::
    "(nat list \<Rightarrow> nat list) \<Rightarrow> nat \<Rightarrow> cube list \<Rightarrow> nat list \<Rightarrow> nat \<Rightarrow> nat \<Rightarrow> nat list \<Rightarrow> nat list \<Rightarrow> search_state \<Rightarrow> search_state option" where
  "search_cover arrange n cubes on budget 0 rest chosen st = None"
| "search_cover arrange n cubes on budget (Suc fuel) rest chosen st =
     (if budget \<le> calls st then Some (st\<lparr>exhausted := True\<rparr>)
      else
        (let st = st\<lparr>calls := Suc (calls st)\<rparr> in
         if rest = [] then
           Some (if cover_cost n cubes chosen < cover_cost n cubes (best_cover st) then st\<lparr>best_cover := chosen\<rparr> else st)
         else if length (best_cover st) \<le> length chosen then Some st
         else
           (let m = arg_min_list (\<lambda>k. length (filter (\<lambda>i. k \<in> set (covered cubes on i)) [0..<length cubes])) (arrange rest);
                options = sort_key (cube_key n cubes on rest)
                  (filter (\<lambda>i. m \<in> set (covered cubes on i)) [0..<length cubes]) in
            try_options (\<lambda>i. search_cover arrange n cubes on budget fuel (uncovered cubes on i rest) (chosen @ [i])) options st)))"

definition cover :: "(nat list \<Rightarrow> nat list) \<Rightarrow> nat list \<Rightarrow> nat list \<Rightarrow> nat \<Rightarrow> nat \<Rightarrow> (exc + cube list \<times> bool) option" where
  "cover arrange on dc n budget =
     (if on = [] then Some (Inr ([], True))
      else
        (let cubes = prime_cubes on dc n in
         case greedy_cover n cubes on on [] of
           None \<Rightarrow> None
         | Some (Inl e) \<Rightarrow> Some (Inl e)
         | Some (Inr best) \<Rightarrow>
             (case search_cover arrange n cubes on budget (Suc (length on)) on []
                     \<lparr>best_cover = best, calls = 0, exhausted = False\<rparr> of
                None \<Rightarrow> None
              | Some st \<Rightarrow> Some (Inr (map (\<lambda>i. cubes ! i) (sort (best_cover st)), \<not> exhausted st)))))"

section \<open>Minimised formulas\<close>

record minimized =
  min_form :: string
  min_formula :: formula
  min_context :: formula
  equivalent_on_context :: bool
  is_vacuous :: bool
  optimal_two_level :: bool
  term_count :: nat
  literal_count :: nat
  min_variables :: "utext list"
  dont_care_count :: nat

definition cube_literals :: "bool \<Rightarrow> utext list \<Rightarrow> cube \<Rightarrow> formula list" where
  "cube_literals dnf names c =
     map (\<lambda>(b, name). if bit (fst c) b = dnf then FVar name else FNot (FVar name))
       (filter (\<lambda>(b, name). \<not> bit (snd c) b) (enumerate 0 names))"

text \<open>The points of the function and the don't-cares, with the assumptions evaluated first.\<close>

primrec classify :: "bool \<Rightarrow> formula \<Rightarrow> formula \<Rightarrow> utext list \<Rightarrow> nat list \<Rightarrow> nat list \<Rightarrow> nat list \<Rightarrow> exc + nat list \<times> nat list" where
  "classify dnf f a names [] on dc = Inr (on, dc)"
| "classify dnf f a names (i # is) on dc =
     rbind (evaluate a (assignment_for i names)) (\<lambda>c.
       if \<not> c then classify dnf f a names is on (dc @ [i])
       else rbind (evaluate f (assignment_for i names)) (\<lambda>x.
         classify dnf f a names is (if x = dnf then on @ [i] else on) dc))"

primrec agrees_on :: "formula \<Rightarrow> formula \<Rightarrow> formula \<Rightarrow> utext list \<Rightarrow> nat list \<Rightarrow> exc + bool" where
  "agrees_on a f g names [] = Inr True"
| "agrees_on a f g names (i # is) =
     rbind (evaluate a (assignment_for i names)) (\<lambda>c.
       if \<not> c then agrees_on a f g names is
       else rbind (evaluate f (assignment_for i names)) (\<lambda>x. rbind (evaluate g (assignment_for i names)) (\<lambda>y.
         if x = y then agrees_on a f g names is else Inr False)))"

definition minimize_formula ::
    "(nat list \<Rightarrow> nat list) \<Rightarrow> formula \<Rightarrow> formula \<Rightarrow> string \<Rightarrow> int \<Rightarrow> (exc + minimized) option" where
  "minimize_formula arrange f a form budget =
     (if form \<noteq> ''dnf'' \<and> form \<noteq> ''cnf'' then Some (Inl (ValueErr ''form must be dnf or cnf''))
      else
        (let dnf = (form = ''dnf'') in
         case rbind (variables [f, a]) (\<lambda>names.
                rbind (classify dnf f a names [0..<2 ^ length names] [] []) (\<lambda>p. Inr (names, p))) of
           Inl e \<Rightarrow> Some (Inl e)
         | Inr (names, on, dc) \<Rightarrow>
             (case cover arrange on dc (length names) (min 100000 (nat budget)) of
                None \<Rightarrow> None
              | Some (Inl e) \<Rightarrow> Some (Inl e)
              | Some (Inr (cubes, optimal)) \<Rightarrow>
                  (let terms = map (\<lambda>c. join (if dnf then And else Or) (cube_literals dnf names c)) cubes;
                       g = simplify_formula (join (if dnf then Or else And) terms) in
                   Some (rbind (agrees_on a f g names [0..<2 ^ length names]) (\<lambda>eq.
                     if \<not> eq then Inl (AssertionErr ''Boolean minimization failed its equivalence check'')
                     else Inr \<lparr>min_form = form, min_formula = g, min_context = a, equivalent_on_context = eq,
                       is_vacuous = (length dc = 2 ^ length names), optimal_two_level = optimal,
                       term_count = length cubes, literal_count = sum_list (map (literals (length names)) cubes),
                       min_variables = names, dont_care_count = length dc\<rparr>))))))"

end
