(* ===== verification/Logic_Primes.thy ===== *)
theory Logic_Primes
  imports Logic_Cover
begin

text \<open>
  The merging loop of \<open>_cover\<close> computes the prime implicants: level \<open>k\<close> holds exactly the implicants
  with \<open>k\<close> free positions, and every implicant lies inside a cube the loop returns.
\<close>

unbundle bit_operations_syntax

lemma covers_iff: "covers c m \<longleftrightarrow> (\<forall>k. (bit m k \<and> \<not> bit (snd c) k) = bit (fst c) k)"
  by (auto simp: covers_def bit_eq_iff)

definition cube_ok :: "nat \<Rightarrow> cube \<Rightarrow> bool" where
  "cube_ok n c \<longleftrightarrow> (\<forall>k. (bit (snd c) k \<longrightarrow> k < n \<and> \<not> bit (fst c) k) \<and> (bit (fst c) k \<longrightarrow> k < n))"

lemma bit_below: "x < 2 ^ n \<Longrightarrow> bit x k \<Longrightarrow> k < n" for x :: nat
  by (metis bit_take_bit_iff take_bit_nat_eq_self)

lemma cube_ok_point: "m < 2 ^ n \<Longrightarrow> cube_ok n (m, 0)"
  by (auto simp: cube_ok_def intro: bit_below)

definition implicant :: "nat \<Rightarrow> nat set \<Rightarrow> cube \<Rightarrow> bool" where
  "implicant n S c \<longleftrightarrow> cube_ok n c \<and> (\<forall>m. covers c m \<longrightarrow> m \<in> S)"

definition level_ok :: "nat \<Rightarrow> nat set \<Rightarrow> nat \<Rightarrow> cube list \<Rightarrow> bool" where
  "level_ok n S k level \<longleftrightarrow> set level = {c. implicant n S c \<and> free_bits n c = k}"

text \<open>Freeing and fixing a position.\<close>

definition freed :: "nat \<Rightarrow> cube \<Rightarrow> cube" where
  "freed b c = (without (fst c) (2 ^ b), snd c OR 2 ^ b)"

definition flipped :: "nat \<Rightarrow> cube \<Rightarrow> cube" where
  "flipped b c = (fst c XOR 2 ^ b, snd c)"

lemma bits_freed [simp]: "bit (fst (freed b c)) k \<longleftrightarrow> bit (fst c) k \<and> k \<noteq> b"
  "bit (snd (freed b c)) k \<longleftrightarrow> bit (snd c) k \<or> k = b"
  by (auto simp: freed_def bit_or_iff bit_exp_iff)

lemma bits_flipped [simp]: "bit (fst (flipped b c)) k \<longleftrightarrow> bit (fst c) k \<noteq> (k = b)"
  "snd (flipped b c) = snd c"
  by (auto simp: flipped_def bit_xor_iff bit_exp_iff)

lemma covers_freed: "\<not> bit (snd c) b \<Longrightarrow> covers (freed b c) m \<longleftrightarrow> covers c m \<or> covers (flipped b c) m"
  by (cases "bit m b = bit (fst c) b") (auto simp: covers_iff)

lemma cube_eqI: "(\<And>k. bit (fst c) k = bit (fst d) k) \<Longrightarrow> (\<And>k. bit (snd c) k = bit (snd d) k) \<Longrightarrow> c = d" for c d :: cube
  by (simp add: prod_eq_iff bit_eq_iff)

lemma free_bits_freed: "b < n \<Longrightarrow> \<not> bit (snd c) b \<Longrightarrow> free_bits n (freed b c) = Suc (free_bits n c)"
  unfolding freed_def by (rule free_bits_merged)

lemma free_bits_flipped [simp]: "free_bits n (flipped b c) = free_bits n c"
  by (simp add: free_bits_def)

lemma set_merged: "set (merged_cubes n level)
    = {freed b c |b c. c \<in> set level \<and> b < n \<and> \<not> bit (snd c) b \<and> flipped b c \<in> set level}"
  unfolding merged_cubes_def partners_def freed_def flipped_def by (auto 0 4)

lemma set_used: "set (used_cubes n level)
    = (\<Union>c \<in> set level. \<Union>b \<in> {b. b < n \<and> \<not> bit (snd c) b \<and> flipped b c \<in> set level}. {c, flipped b c})"
  unfolding used_cubes_def partners_def flipped_def by simp

lemma fixed_split:
  assumes "cube_ok n d" and "free_bits n d = Suc k"
  obtains b c where "b < n" "\<not> bit (snd c) b" "d = freed b c" "cube_ok n c" "cube_ok n (flipped b c)" "free_bits n c = k"
proof -
  have "filter (bit (snd d)) [0..<n] \<noteq> []" using assms(2) by (auto simp: free_bits_def)
  then obtain b where b: "b < n" "bit (snd d) b" by (auto simp: filter_empty_conv)
  define c where "c = (fst d, without (snd d) (2 ^ b))"
  have bits: "bit (fst c) j = bit (fst d) j" "bit (snd c) j \<longleftrightarrow> bit (snd d) j \<and> j \<noteq> b" for j
    by (auto simp: c_def bit_exp_iff)
  have "\<not> bit (fst d) b" using assms(1) b by (auto simp: cube_ok_def)
  then have d: "d = freed b c" using b by (intro cube_eqI) (auto simp: bits)
  have ok: "cube_ok n c" "cube_ok n (flipped b c)" using assms(1) b by (auto simp: cube_ok_def bits)
  have nb: "\<not> bit (snd c) b" by (simp add: bits)
  have "free_bits n c = k" using free_bits_freed [OF b(1) nb] assms(2) d by simp
  with that [OF b(1) nb d ok] show thesis .
qed

lemma level_next:
  assumes "level_ok n S k level"
  shows "level_ok n S (Suc k) (merged_cubes n level)"
  unfolding level_ok_def set_merged
proof (intro equalityI subsetI)
  fix d
  assume "d \<in> {freed b c |b c. c \<in> set level \<and> b < n \<and> \<not> bit (snd c) b \<and> flipped b c \<in> set level}"
  then obtain b c where d: "d = freed b c" and c: "c \<in> set level" "flipped b c \<in> set level" and b: "b < n" "\<not> bit (snd c) b"
    by blast
  have "implicant n S c" "implicant n S (flipped b c)" "free_bits n c = k"
    using c assms by (auto simp: level_ok_def)
  then show "d \<in> {c. implicant n S c \<and> free_bits n c = Suc k}"
    using b by (auto simp: d implicant_def covers_freed free_bits_freed cube_ok_def)
next
  fix d
  assume "d \<in> {c. implicant n S c \<and> free_bits n c = Suc k}"
  then have imp: "implicant n S d" and f: "free_bits n d = Suc k" by auto
  have ok: "cube_ok n d" using imp by (simp add: implicant_def)
  obtain b c where c: "b < n" "\<not> bit (snd c) b" "d = freed b c" "cube_ok n c" "cube_ok n (flipped b c)" "free_bits n c = k"
    by (rule fixed_split [OF ok f])
  have "implicant n S c" "implicant n S (flipped b c)"
    using imp c covers_freed [OF c(2)] by (auto simp: implicant_def)
  then have "c \<in> set level" "flipped b c \<in> set level" using assms c(6) by (auto simp: level_ok_def)
  with c show "d \<in> {freed b c |b c. c \<in> set level \<and> b < n \<and> \<not> bit (snd c) b \<and> flipped b c \<in> set level}" by blast
qed

lemma level_empty: "level_ok n S k [] \<Longrightarrow> implicant n S c \<Longrightarrow> free_bits n c < k"
proof (rule ccontr)
  assume "level_ok n S k []" and c: "implicant n S c" and "\<not> free_bits n c < k"
  then have "level_ok n S (free_bits n c) []"
  proof (induction "free_bits n c - k" arbitrary: k)
    case (Suc j)
    have "level_ok n S (Suc k) []" using level_next [OF Suc.prems(1)] by (simp add: merged_cubes_def)
    with Suc show ?case by (metis Suc_diff_le diff_Suc_Suc diff_Suc_1 le_less_linear less_Suc_eq_le not_less_eq zero_less_diff zero_less_Suc)
  qed (auto simp: not_less)
  then have "{d. implicant n S d \<and> free_bits n d = free_bits n c} = {}" by (simp add: level_ok_def)
  with c show False by blast
qed

text \<open>A cube that is used lies inside a merged one.\<close>

lemma used_inside:
  assumes "c \<in> set (used_cubes n level)"
  obtains d where "d \<in> set (merged_cubes n level)" "\<And>m. covers c m \<Longrightarrow> covers d m"
proof -
  obtain e b where e: "e \<in> set level" "b < n" "\<not> bit (snd e) b" "flipped b e \<in> set level" "c = e \<or> c = flipped b e"
    using assms unfolding set_used by auto
  then have "freed b e \<in> set (merged_cubes n level)" unfolding set_merged by blast
  with that e covers_freed [of e b] show thesis by blast
qed

lemma prime_loop_correct:
  assumes "level_ok n S k level" and "\<forall>p \<in> set primes. implicant n S p"
  shows "(\<forall>p \<in> set (prime_loop n level primes). implicant n S p) \<and> set primes \<subseteq> set (prime_loop n level primes)
    \<and> (\<forall>c. implicant n S c \<longrightarrow> k \<le> free_bits n c \<longrightarrow>
         (\<exists>p \<in> set (prime_loop n level primes). (\<forall>m. covers c m \<longrightarrow> covers p m)))"
  using assms
proof (induction n level primes arbitrary: k rule: prime_loop.induct)
  case (1 n level primes)
  show ?case
  proof (cases "level = []")
    case True
    then have "free_bits n c < k" if "implicant n S c" for c using level_empty 1(2) that by blast
    then show ?thesis using True 1(3) by (force simp: prime_loop.simps)
  next
    case False
    let ?new = "filter (\<lambda>c. c \<notin> set (used_cubes n level)) level"
    let ?res = "prime_loop n (merged_cubes n level) (primes @ ?new)"
    have res: "prime_loop n level primes = ?res" using False by (subst prime_loop.simps) simp
    have new: "\<forall>p \<in> set (primes @ ?new). implicant n S p" using 1(2,3) by (auto simp: level_ok_def)
    note IH = 1(1) [OF False level_next [OF 1(2)] new]
    have "\<exists>p \<in> set ?res. \<forall>m. covers c m \<longrightarrow> covers p m" if c: "implicant n S c" "k \<le> free_bits n c" for c
    proof (cases "free_bits n c = k")
      case True
      then have "c \<in> set level" using c(1) 1(2) by (simp add: level_ok_def)
      show ?thesis
      proof (cases "c \<in> set (used_cubes n level)")
        case True
        then obtain d where d: "d \<in> set (merged_cubes n level)" "\<And>m. covers c m \<Longrightarrow> covers d m" by (rule used_inside) blast
        then have "implicant n S d" "free_bits n d = Suc k" using level_next [OF 1(2)] by (auto simp: level_ok_def)
        then show ?thesis using IH d(2) by (metis order_refl)
      next
        case False
        then have "c \<in> set ?res" using IH \<open>c \<in> set level\<close> by auto
        then show ?thesis by blast
      qed
    next
      case False
      then show ?thesis using IH c by (metis le_neq_implies_less Suc_leI)
    qed
    then show ?thesis using IH unfolding res by auto
  qed
qed

lemma level_start:
  assumes "S \<subseteq> {..<2 ^ n}" "set ms = S"
  shows "level_ok n S 0 (sort (remdups (map (\<lambda>m. (m, 0)) ms)))"
proof -
  have zero: "snd c = 0" if "cube_ok n c" "free_bits n c = 0" for c
  proof -
    have "filter (bit (snd c)) [0..<n] = []" using that(2) by (simp only: free_bits_def length_0_conv)
    then have "\<not> bit (snd c) k" if "k < n" for k using that by (simp add: filter_empty_conv)
    moreover have "\<not> bit (snd c) k" if "\<not> k < n" for k using that \<open>cube_ok n c\<close> unfolding cube_ok_def by blast
    ultimately have "\<not> bit (snd c) k" for k by blast
    then show ?thesis by (simp add: bit_eq_iff)
  qed
  have "implicant n S (m, 0) \<longleftrightarrow> m \<in> S" for m
  proof -
    have "covers (m, 0) k \<longleftrightarrow> k = m" for k by (auto simp: covers_def without_def)
    then show ?thesis using assms(1) cube_ok_point [of m n] by (auto simp: implicant_def)
  qed
  moreover have "free_bits n (m, 0) = 0" for m by (simp add: free_bits_def)
  ultimately have "{c. implicant n S c \<and> free_bits n c = 0} = (\<lambda>m. (m, 0)) ` S"
    using zero by (auto simp: implicant_def image_iff prod_eq_iff) (metis prod.collapse)+
  then show ?thesis by (simp add: level_ok_def assms(2))
qed

text \<open>The cubes the cover is chosen from.\<close>

lemma prime_cubes_correct:
  assumes "set on \<union> set dc \<subseteq> {..<2 ^ n}"
  shows "\<And>p. p \<in> set (prime_cubes on dc n) \<Longrightarrow> implicant n (set on \<union> set dc) p"
    and "implicant n (set on \<union> set dc) c \<Longrightarrow> m \<in> set on \<Longrightarrow> covers c m
      \<Longrightarrow> \<exists>p \<in> set (prime_cubes on dc n). \<forall>m. covers c m \<longrightarrow> covers p m"
proof -
  note loop = prime_loop_correct [OF level_start [OF assms, of "on @ dc"], of "[]"]
  show "\<And>p. p \<in> set (prime_cubes on dc n) \<Longrightarrow> implicant n (set on \<union> set dc) p"
    using loop by (simp add: prime_cubes_def)
  show "implicant n (set on \<union> set dc) c \<Longrightarrow> m \<in> set on \<Longrightarrow> covers c m
      \<Longrightarrow> \<exists>p \<in> set (prime_cubes on dc n). \<forall>m. covers c m \<longrightarrow> covers p m"
    using loop by (fastforce simp: prime_cubes_def)
qed

end
