(* ===== verification/Logic_Minimize.thy ===== *)
theory Logic_Minimize
  imports Logic_Primes
begin

text \<open>
  The covers \<open>_cover\<close> chooses: the greedy loop ends with a cover, the branch and bound ends and,
  unless its budget runs out, finds a cover of least cost; the minimised formula is equivalent
  to the given one wherever the assumptions hold.
\<close>

unbundle bit_operations_syntax

section \<open>Choices of cubes\<close>

definition covering :: "cube list \<Rightarrow> nat list \<Rightarrow> nat list \<Rightarrow> bool" where
  "covering cubes on is \<longleftrightarrow> set is \<subseteq> {..<length cubes} \<and> (\<forall>m \<in> set on. \<exists>i \<in> set is. covers (cubes ! i) m)"

definition coverable :: "cube list \<Rightarrow> nat list \<Rightarrow> bool" where
  "coverable cubes on \<longleftrightarrow> covering cubes on [0..<length cubes]"

text \<open>The points a choice leaves.\<close>

definition left_over :: "cube list \<Rightarrow> nat list \<Rightarrow> nat list \<Rightarrow> nat list" where
  "left_over cubes on is = filter (\<lambda>m. \<forall>i \<in> set is. \<not> covers (cubes ! i) m) on"

lemma left_over_Nil [simp]: "left_over cubes on [] = on"
  by (simp add: left_over_def)

lemma uncovered_left_over: "uncovered cubes on i (left_over cubes on is) = left_over cubes on (is @ [i])"
  by (auto simp: uncovered_def left_over_def covered_def intro: filter_cong)

lemma covering_left_over: "set is \<subseteq> {..<length cubes} \<Longrightarrow> covering cubes on is \<longleftrightarrow> left_over cubes on is = []"
  by (auto simp: covering_def left_over_def filter_empty_conv)

lemma covered_iff: "m \<in> set on \<Longrightarrow> m \<in> set (covered cubes on i) \<longleftrightarrow> covers (cubes ! i) m"
  by (simp add: covered_def)

section \<open>The greedy cover\<close>

lemma greedy_progress:
  assumes "coverable cubes on" and "left_over cubes on is \<noteq> []"
    and i_def: "i = arg_min_list (cube_key n cubes on (left_over cubes on is)) [0..<length cubes]"
  shows "i < length cubes" "length (left_over cubes on (is @ [i])) < length (left_over cubes on is)"
proof -
  let ?rest = "left_over cubes on is" and ?key = "cube_key n cubes on (left_over cubes on is)"
  obtain m where m: "m \<in> set ?rest" using assms(2) by (cases ?rest) auto
  then obtain j where j: "j < length cubes" "covers (cubes ! j) m"
    using assms(1) by (auto simp: coverable_def covering_def left_over_def)
  have ne: "[0..<length cubes] \<noteq> []" using j by auto
  show "i < length cubes" using arg_min_list_in [OF ne, of ?key] by (simp add: i_def)
  have "?key i = Min (?key ` set [0..<length cubes])" unfolding i_def by (rule f_arg_min_list_f [OF ne])
  then have "?key i \<le> ?key j" using j by simp
  then have "length (filter (\<lambda>m. m \<in> set (covered cubes on j)) ?rest) \<le> length (filter (\<lambda>m. m \<in> set (covered cubes on i)) ?rest)"
    by (auto simp: cube_key_def less_eq_prod_def split: if_splits)
  moreover have "0 < length (filter (\<lambda>m. m \<in> set (covered cubes on j)) ?rest)"
    using m j by (auto simp: covered_def left_over_def filter_empty_conv)
  ultimately have "filter (\<lambda>m. m \<in> set (covered cubes on i)) ?rest \<noteq> []" by auto
  then obtain p where "p \<in> set ?rest" "\<not> (p \<notin> set (covered cubes on i))" by (auto simp: filter_empty_conv)
  then show "length (left_over cubes on (is @ [i])) < length ?rest"
    unfolding uncovered_left_over [symmetric] uncovered_def by (rule length_filter_less)
qed

lemma greedy_cover_correct:
  assumes "coverable cubes on" and "set is \<subseteq> {..<length cubes}"
  shows "\<exists>best. greedy_cover n cubes on (left_over cubes on is) is = Some (Inr best) \<and> covering cubes on best"
  using assms(2)
proof (induction "length (left_over cubes on is)" arbitrary: "is" rule: less_induct)
  case less
  show ?case
  proof (cases "left_over cubes on is = []")
    case True
    then show ?thesis using less.prems by (simp add: greedy_cover.simps covering_left_over)
  next
    case False
    let ?i = "arg_min_list (cube_key n cubes on (left_over cubes on is)) [0..<length cubes]"
    note i = greedy_progress [OF assms(1) False refl, of n]
    have "cubes \<noteq> []" using i(1) by auto
    then have step: "greedy_cover n cubes on (left_over cubes on is) is
        = greedy_cover n cubes on (left_over cubes on (is @ [?i])) (is @ [?i])"
      using False by (subst greedy_cover.simps) (simp add: Let_def uncovered_left_over)
    show ?thesis unfolding step using less.prems i by (intro less.hyps) auto
  qed
qed

section \<open>Branch and bound\<close>

lemma cost_subset:
  assumes "distinct is" "distinct js" "set is \<subseteq> set js"
  shows "cover_cost n cubes is \<le> cover_cost n cubes js"
proof (cases "length is = length js")
  case True
  then have "set is = set js" using assms by (metis card_subset_eq distinct_card finite_set)
  then have "mset is = mset js" using assms set_eq_iff_mset_eq_distinct by blast
  then have "sum_list (map f is) = sum_list (map f js)" "sort is = sort js" for f :: "nat \<Rightarrow> nat"
    by (metis mset_map sum_mset_sum_list) (metis \<open>mset is = mset js\<close> sorted_list_of_multiset_mset)
  then show ?thesis by (simp add: cover_cost_def True)
next
  case False
  then have "length is < length js" using assms by (metis card_mono distinct_card finite_set le_neq_implies_less)
  then show ?thesis by (simp add: cover_cost_def less_eq_prod_def)
qed

lemma cost_shorter: "length is < length js \<Longrightarrow> cover_cost n cubes is \<le> cover_cost n cubes js"
  by (simp add: cover_cost_def less_eq_prod_def)

text \<open>What a call of \<open>search\<close> achieves with a set of choices it is responsible for: its best choice is
  a cover, never worse than before, and at least as good as all of those unless the budget ended.\<close>

definition improves :: "nat \<Rightarrow> cube list \<Rightarrow> nat list \<Rightarrow> nat list set \<Rightarrow> search_state \<Rightarrow> search_state \<Rightarrow> bool" where
  "improves n cubes on Q st st' \<longleftrightarrow> covering cubes on (best_cover st')
     \<and> cover_cost n cubes (best_cover st') \<le> cover_cost n cubes (best_cover st)
     \<and> (\<not> exhausted st' \<longrightarrow> (\<forall>js \<in> Q. cover_cost n cubes (best_cover st') \<le> cover_cost n cubes js))"

definition completions :: "cube list \<Rightarrow> nat list \<Rightarrow> nat list \<Rightarrow> nat list set" where
  "completions cubes on chosen = {js. distinct js \<and> covering cubes on js \<and> set chosen \<subseteq> set js}"

lemma try_options_improves:
  assumes "\<And>i st. i \<in> set is \<Longrightarrow> covering cubes on (best_cover st) \<Longrightarrow> \<not> exhausted st
      \<Longrightarrow> \<exists>st'. go i st = Some st' \<and> improves n cubes on (Q i) st st'"
    and "covering cubes on (best_cover st)" "\<not> exhausted st"
  shows "\<exists>st'. try_options go is st = Some st' \<and> improves n cubes on (\<Union>i \<in> set is. Q i) st st'"
  using assms
proof (induction "is" arbitrary: st)
  case (Cons i "is")
  obtain st1 where st1: "go i st = Some st1" "improves n cubes on (Q i) st st1" using Cons.prems by fastforce
  show ?case
  proof (cases "exhausted st1")
    case True
    then show ?thesis using st1 by (auto simp: improves_def)
  next
    case False
    obtain st2 where st2: "try_options go is st1 = Some st2" "improves n cubes on (\<Union>i \<in> set is. Q i) st1 st2"
      using Cons.IH [of st1] Cons.prems(1) st1(2) False by (auto simp: improves_def)
    have "improves n cubes on (\<Union>i \<in> set (i # is). Q i) st st2"
      using st1(2) st2(2) False unfolding improves_def by (auto intro: order_trans)
    with st1(1) st2(1) False show ?thesis by simp
  qed
qed (simp add: improves_def)

lemma search_cover_improves:
  assumes arr: "\<And>xs. set (arrange xs) = set xs" and "coverable cubes on"
    and "length (left_over cubes on chosen) < fuel"
    and "distinct chosen" "set chosen \<subseteq> {..<length cubes}" "covering cubes on (best_cover st)" "\<not> exhausted st"
  shows "\<exists>st'. search_cover arrange n cubes on budget fuel (left_over cubes on chosen) chosen st = Some st'
    \<and> improves n cubes on (completions cubes on chosen) st st'"
  using assms(3-7)
proof (induction fuel arbitrary: chosen st)
  case (Suc fuel)
  let ?rest = "left_over cubes on chosen"
  define st0 where "st0 = st\<lparr>calls := Suc (calls st)\<rparr>"
  have st0: "best_cover st0 = best_cover st" "\<not> exhausted st0" using Suc.prems by (simp_all add: st0_def)
  consider "budget \<le> calls st" | "calls st < budget" "?rest = []"
    | "calls st < budget" "?rest \<noteq> []" "length (best_cover st) \<le> length chosen"
    | "calls st < budget" "?rest \<noteq> []" "length chosen < length (best_cover st)" by linarith
  then show ?case
  proof cases
    case 1
    then show ?thesis using Suc.prems by (simp add: improves_def)
  next
    case 2
    have cov: "covering cubes on chosen" using 2(2) Suc.prems(3) by (simp add: covering_left_over)
    have "cover_cost n cubes chosen \<le> cover_cost n cubes js" if "js \<in> completions cubes on chosen" for js
      using that Suc.prems(2) by (intro cost_subset) (auto simp: completions_def)
    then show ?thesis
      using 2 cov Suc.prems(4)
      by (cases "cover_cost n cubes chosen < cover_cost n cubes (best_cover st)")
        (auto simp: improves_def Let_def not_less intro: order_trans)
  next
    case 3
    have "cover_cost n cubes (best_cover st) \<le> cover_cost n cubes js" if js: "js \<in> completions cubes on chosen" for js
    proof -
      have "set chosen \<noteq> set js"
        using js 3(2) Suc.prems(3) by (auto simp: completions_def covering_def left_over_def filter_empty_conv)
      then have "set chosen \<subset> set js" using js by (auto simp: completions_def)
      then have "length chosen < length js"
        using js Suc.prems(2) by (metis (mono_tags) completions_def distinct_card finite_set mem_Collect_eq psubset_card_mono)
      then show ?thesis using 3(3) by (intro cost_shorter) simp
    qed
    then show ?thesis using 3 Suc.prems(4) by (simp add: improves_def not_less [symmetric])
  next
    case 4
    let ?f = "\<lambda>k. length (filter (\<lambda>i. k \<in> set (covered cubes on i)) [0..<length cubes])"
    define m where "m = arg_min_list ?f (arrange ?rest)"
    define options where "options = sort_key (cube_key n cubes on ?rest) (filter (\<lambda>i. m \<in> set (covered cubes on i)) [0..<length cubes])"
    have "arrange ?rest \<noteq> []" using arr [of ?rest] 4(2) by auto
    from arg_min_list_in [OF this, of ?f] have m: "m \<in> set ?rest" by (simp add: m_def arr)
    then have on: "m \<in> set on" by (simp add: left_over_def)
    have opt: "set options = {i. i < length cubes \<and> covers (cubes ! i) m}" using on by (auto simp: options_def covered_def)
    have step: "search_cover arrange n cubes on budget (Suc fuel) ?rest chosen st
      = try_options (\<lambda>i. search_cover arrange n cubes on budget fuel (left_over cubes on (chosen @ [i])) (chosen @ [i])) options st0"
      using 4 by (simp add: Let_def st0_def m_def options_def uncovered_left_over)
    have go: "\<exists>st'. search_cover arrange n cubes on budget fuel (left_over cubes on (chosen @ [i])) (chosen @ [i]) s = Some st'
        \<and> improves n cubes on (completions cubes on (chosen @ [i])) s st'"
      if i: "i \<in> set options" and s: "covering cubes on (best_cover s)" "\<not> exhausted s" for i s
    proof (rule Suc.IH)
      have "length (left_over cubes on (chosen @ [i])) < length ?rest"
        unfolding uncovered_left_over [symmetric] uncovered_def
        by (rule length_filter_less [OF m]) (use i on opt in \<open>simp add: covered_def\<close>)
      then show "length (left_over cubes on (chosen @ [i])) < fuel" using Suc.prems(1) by simp
      have "i \<notin> set chosen" using i m opt by (auto simp: left_over_def)
      then show "distinct (chosen @ [i])" using Suc.prems(2) by simp
      show "set (chosen @ [i]) \<subseteq> {..<length cubes}" using i opt Suc.prems(3) by auto
    qed (use s in auto)
    obtain st' where st': "search_cover arrange n cubes on budget (Suc fuel) ?rest chosen st = Some st'"
      "improves n cubes on (\<Union>i \<in> set options. completions cubes on (chosen @ [i])) st0 st'"
      using try_options_improves [of options cubes on _ n "\<lambda>i. completions cubes on (chosen @ [i])" st0, OF go] st0 Suc.prems(4) step by auto
    have "completions cubes on chosen \<subseteq> (\<Union>i \<in> set options. completions cubes on (chosen @ [i]))"
      using on by (fastforce simp: completions_def covering_def opt)
    then show ?thesis using st' st0(1) by (auto simp: improves_def)
  qed
qed simp

section \<open>Covers by implicants\<close>

lemma bit_count_card: "bit_count x = card {k. bit x k}"
proof (induction x rule: bit_count.induct)
  case (1 x)
  show ?case
  proof (cases "x = 0")
    case False
    have "k < y" if "bit y k" for k y :: nat
    proof (rule ccontr)
      assume "\<not> k < y"
      then have "y < 2 ^ k" by (intro le_less_trans [OF _ less_exp]) simp
      then show False using that by (simp add: bit_iff_odd)
    qed
    then have fin: "finite {k. bit y k}" for y :: nat by (auto intro: finite_subset [of _ "{..<y}"])
    have "{k. bit x k} = (if odd x then {0} else {}) \<union> Suc ` {k. bit (x div 2) k}"
      by (auto simp: bit_0 image_iff) (metis bit_0 bit_Suc not0_implies_Suc)+
    also have "card \<dots> = x mod 2 + card {k. bit (x div 2) k}"
      using fin [of "x div 2"] by (subst card_Un_disjoint) (auto simp: card_image odd_iff_mod_2_eq_one)
    finally show ?thesis using 1 False by (simp add: bit_count.simps [of x])
  qed (simp add: bit_count.simps)
qed

lemma cube_inside:
  assumes "cube_ok n c" and inside: "\<forall>m. covers c m \<longrightarrow> covers p m"
  shows "bit (snd c) k \<Longrightarrow> bit (snd p) k"
proof -
  assume k: "bit (snd c) k"
  have ok: "\<not> bit (fst c) j" if "bit (snd c) j" for j using assms(1) that by (auto simp: cube_ok_def)
  have "covers c (fst c)" "covers c (fst c XOR 2 ^ k)"
    using ok k by (auto simp: covers_iff bit_xor_iff bit_exp_iff)
  with inside have "covers p (fst c)" "covers p (fst c XOR 2 ^ k)" by blast+
  then show "bit (snd p) k" unfolding covers_iff by (auto simp: bit_xor_iff bit_exp_iff dest!: spec [of _ k])
qed

lemma literals_inside:
  assumes "cube_ok n c" "cube_ok n p" "\<forall>m. covers c m \<longrightarrow> covers p m"
  shows "literals n p \<le> literals n c"
proof -
  have "{k. bit (snd c) k} \<subseteq> {k. bit (snd p) k}" using cube_inside [OF assms(1,3)] by blast
  moreover have "finite {k. bit (snd p) k}"
    by (rule finite_subset [of _ "{..<n}"]) (use assms(2) in \<open>auto simp: cube_ok_def\<close>)
  ultimately show ?thesis by (simp add: literals_def bit_count_card card_mono diff_le_mono2)
qed

text \<open>Any list of implicants that covers the points costs at least as much as some choice of primes.\<close>

definition implicant_cover :: "nat \<Rightarrow> nat list \<Rightarrow> nat list \<Rightarrow> cube list \<Rightarrow> bool" where
  "implicant_cover n on dc cs \<longleftrightarrow> (\<forall>c \<in> set cs. implicant n (set on \<union> set dc) c) \<and> (\<forall>m \<in> set on. \<exists>c \<in> set cs. covers c m)"

lemma prime_choice:
  assumes on: "set on \<union> set dc \<subseteq> {..<2 ^ n}" and cs: "implicant_cover n on dc cs"
  defines "cubes \<equiv> prime_cubes on dc n"
  shows "\<exists>js. distinct js \<and> covering cubes on js
    \<and> (length js, sum_list (map (\<lambda>i. literals n (cubes ! i)) js)) \<le> (length cs, sum_list (map (literals n) cs))"
proof -
  define used where "used = filter (\<lambda>c. \<exists>m \<in> set on. covers c m) cs"
  have us: "c \<in> set used \<longleftrightarrow> c \<in> set cs \<and> (\<exists>m \<in> set on. covers c m)" for c by (auto simp: used_def)
  have "\<exists>i < length cubes. \<forall>m. covers c m \<longrightarrow> covers (cubes ! i) m" if "c \<in> set used" for c
    using that cs prime_cubes_correct(2) [OF on, of c] unfolding cubes_def us
    by (fastforce simp: implicant_cover_def in_set_conv_nth)
  then obtain g where g: "\<And>c. c \<in> set used \<Longrightarrow> g c < length cubes \<and> (\<forall>m. covers c m \<longrightarrow> covers (cubes ! g c) m)" by metis
  let ?js = "remdups (map g used)"
  have lit: "literals n (cubes ! g c) \<le> literals n c" if "c \<in> set used" for c
  proof (rule literals_inside)
    show "cube_ok n c" using that cs by (auto simp: us implicant_cover_def implicant_def)
    have "cubes ! g c \<in> set cubes" using g [OF that] by simp
    then show "cube_ok n (cubes ! g c)" using prime_cubes_correct(1) [OF on] by (auto simp: cubes_def implicant_def)
  qed (use g that in blast)
  have "covering cubes on ?js" using cs g us unfolding covering_def implicant_cover_def by fastforce
  moreover have "(length ?js, sum_list (map (\<lambda>i. literals n (cubes ! i)) ?js)) \<le> (length cs, sum_list (map (literals n) cs))"
  proof -
    have len: "length ?js \<le> length used" "length used \<le> length cs"
      using length_remdups_leq [of "map g used"] length_filter_le by (simp_all add: used_def)
    have "sum_list (map (\<lambda>i. literals n (cubes ! i)) ?js) \<le> sum_list (map (literals n) cs)" if "length ?js = length cs"
    proof -
      have "length used = length cs" using len that by simp
      then have "\<exists>m \<in> set on. covers c m" if "c \<in> set cs" for c
        using length_filter_less [of c cs "\<lambda>c. \<exists>m \<in> set on. covers c m"] that by (auto simp: used_def)
      then have all: "used = cs" by (simp add: used_def filter_id_conv)
      have "distinct (map g used)" using len(1) that \<open>length used = length cs\<close>
        by (metis distinct_remdups length_map length_remdups_eq)
      then have "?js = map g cs" by (simp add: distinct_remdups_id all)
      moreover have "sum_list (map (\<lambda>c. literals n (cubes ! g c)) cs) \<le> sum_list (map (literals n) cs)"
        by (rule sum_list_mono, rule lit) (simp add: all)
      ultimately show ?thesis by (simp add: comp_def)
    qed
    then show ?thesis using len by (cases "length ?js = length cs") (auto simp: less_eq_prod_def)
  qed
  ultimately show ?thesis by (intro exI [of _ ?js]) simp
qed

lemma prime_cubes_coverable:
  assumes "set on \<union> set dc \<subseteq> {..<2 ^ n}"
  shows "coverable (prime_cubes on dc n) on"
  unfolding coverable_def covering_def
proof (intro conjI ballI)
  fix m
  assume m: "m \<in> set on"
  have start: "level_ok n (set on \<union> set dc) 0 (sort (remdups (map (\<lambda>m. (m, 0)) (on @ dc))))"
    by (rule level_start [OF assms]) simp
  have "implicant n (set on \<union> set dc) (m, 0)" using start m by (auto simp: level_ok_def)
  moreover have "covers (m, 0) m" by (simp add: covers_def without_def)
  ultimately show "\<exists>i \<in> set [0..<length (prime_cubes on dc n)]. covers (prime_cubes on dc n ! i) m"
    using prime_cubes_correct(2) [OF assms _ m] by (metis atLeastLessThan_iff in_set_conv_nth le0 set_upt)
qed auto

text \<open>The cover the whole routine returns.\<close>

lemma cover_correct:
  assumes arr: "\<And>xs. set (arrange xs) = set xs" and on: "set on \<union> set dc \<subseteq> {..<2 ^ n}"
  shows "\<exists>cs optimal. cover arrange on dc n budget = Some (Inr (cs, optimal)) \<and> implicant_cover n on dc cs
    \<and> (optimal \<longrightarrow> (\<forall>ds. implicant_cover n on dc ds \<longrightarrow>
         (length cs, sum_list (map (literals n) cs)) \<le> (length ds, sum_list (map (literals n) ds))))"
proof (cases "on = []")
  case True
  then show ?thesis by (intro exI [of _ "[]"] exI [of _ True]) (simp add: cover_def implicant_cover_def less_eq_prod_def)
next
  case False
  define cubes where "cubes = prime_cubes on dc n"
  have coverable: "coverable cubes on" unfolding cubes_def by (rule prime_cubes_coverable [OF on])
  obtain best where best: "greedy_cover n cubes on on [] = Some (Inr best)" "covering cubes on best"
    using greedy_cover_correct [OF coverable, of "[]" n] by auto
  obtain st where st: "search_cover arrange n cubes on budget (Suc (length on)) on [] \<lparr>best_cover = best, calls = 0, exhausted = False\<rparr> = Some st"
    "improves n cubes on (completions cubes on []) \<lparr>best_cover = best, calls = 0, exhausted = False\<rparr> st"
    using search_cover_improves [OF arr coverable, of "[]" "Suc (length on)" "\<lparr>best_cover = best, calls = 0, exhausted = False\<rparr>"] best(2) by auto
  let ?is = "sort (best_cover st)"
  let ?cs = "map (\<lambda>i. cubes ! i) ?is"
  have c: "cover arrange on dc n budget = Some (Inr (?cs, \<not> exhausted st))"
    using False best(1) st(1) by (simp add: cover_def cubes_def Let_def)
  have ic: "implicant_cover n on dc ?cs"
    using st(2) prime_cubes_correct(1) [OF on] by (auto simp: improves_def covering_def implicant_cover_def cubes_def subset_iff)
  have "(length ?cs, sum_list (map (literals n) ?cs)) \<le> (length ds, sum_list (map (literals n) ds))"
    if opt: "\<not> exhausted st" and ds: "implicant_cover n on dc ds" for ds
  proof -
    obtain js where js: "distinct js" "covering cubes on js"
      "(length js, sum_list (map (\<lambda>i. literals n (cubes ! i)) js)) \<le> (length ds, sum_list (map (literals n) ds))"
      using prime_choice [OF on ds] unfolding cubes_def by blast
    have sum: "sum_list (map (literals n) ?cs) = sum_list (map (\<lambda>i. literals n (cubes ! i)) (best_cover st))"
    proof -
      have "mset (map (\<lambda>i. literals n (cubes ! i)) ?is) = mset (map (\<lambda>i. literals n (cubes ! i)) (best_cover st))"
        by (simp only: mset_map mset_sort)
      then have "sum_list (map (\<lambda>i. literals n (cubes ! i)) ?is) = sum_list (map (\<lambda>i. literals n (cubes ! i)) (best_cover st))"
        by (simp only: sum_mset_sum_list [symmetric])
      then show ?thesis by (simp add: comp_def)
    qed
    have "cover_cost n cubes (best_cover st) \<le> cover_cost n cubes js"
      using st(2) opt js(1,2) by (simp add: improves_def completions_def)
    then have "(length ?cs, sum_list (map (literals n) ?cs)) \<le> (length js, sum_list (map (\<lambda>i. literals n (cubes ! i)) js))"
      unfolding sum by (simp add: cover_cost_def less_eq_prod_def) linarith
    from this js(3) show ?thesis by (rule order_trans)
  qed
  with c ic show ?thesis by blast
qed

section \<open>Minimised formulas\<close>

lemma classify_value:
  assumes "distinct ns" "vars f \<subseteq> set ns" "vars a \<subseteq> set ns"
  shows "classify dnf f a ns is on dc = Inr
    (on @ filter (\<lambda>i. sem a (valuation i ns) \<and> sem f (valuation i ns) = dnf) is,
     dc @ filter (\<lambda>i. \<not> sem a (valuation i ns)) is)"
  using assms by (induction "is" arbitrary: on dc) (auto simp: evaluate_assignment)

lemma agrees_on_value:
  assumes "distinct ns" "vars f \<subseteq> set ns" "vars a \<subseteq> set ns" "vars g \<subseteq> set ns"
  shows "agrees_on a f g ns is = Inr (\<forall>i \<in> set is. sem a (valuation i ns) \<longrightarrow> sem f (valuation i ns) = sem g (valuation i ns))"
  using assms by (induction "is") (auto simp: evaluate_assignment)

text \<open>The literals of a cube hold exactly at its points, those of a clause fail exactly there.\<close>

definition cube_literal :: "bool \<Rightarrow> utext list \<Rightarrow> cube \<Rightarrow> nat \<Rightarrow> formula" where
  "cube_literal dnf ns c b = (if bit (fst c) b = dnf then FVar (ns ! b) else FNot (FVar (ns ! b)))"

lemma set_cube_literals:
  "set (cube_literals dnf ns c) = cube_literal dnf ns c ` {b. b < length ns \<and> \<not> bit (snd c) b}"
proof -
  have "enumerate 0 ns = map (\<lambda>b. (b, ns ! b)) [0..<length ns]"
    by (rule nth_equalityI) (simp_all add: nth_enumerate_eq)
  then have "cube_literals dnf ns c = map (cube_literal dnf ns c) (filter (\<lambda>b. \<not> bit (snd c) b) [0..<length ns])"
    by (simp add: cube_literals_def cube_literal_def filter_map comp_def)
  then show ?thesis by auto
qed

lemma vars_cube_literals: "t \<in> set (cube_literals dnf ns c) \<Longrightarrow> vars t \<subseteq> set ns"
  by (auto simp: set_cube_literals cube_literal_def split: if_splits)

lemma covers_below:
  assumes "cube_ok n c" "i < 2 ^ n"
  shows "covers c i \<longleftrightarrow> (\<forall>b < n. \<not> bit (snd c) b \<longrightarrow> bit i b = bit (fst c) b)"
proof -
  have high: "\<not> bit i b" if "\<not> b < n" for b
    using that bit_below [OF assms(2)] by blast
  show ?thesis
    using assms(1) high unfolding covers_iff cube_ok_def by metis
qed

lemma sem_cube:
  assumes "cube_ok (length ns) c" "i < 2 ^ length ns" "distinct ns"
  shows "(\<forall>t \<in> set (cube_literals True ns c). sem t (valuation i ns)) \<longleftrightarrow> covers c i"
    "(\<exists>t \<in> set (cube_literals False ns c). sem t (valuation i ns)) \<longleftrightarrow> \<not> covers c i"
proof -
  have "sem (cube_literal dnf ns c b) (valuation i ns) \<longleftrightarrow> (bit i b = bit (fst c) b) = dnf" if "b < length ns" for dnf b
    using that by (auto simp: cube_literal_def valuation_nth [OF assms(3)])
  then show "(\<forall>t \<in> set (cube_literals True ns c). sem t (valuation i ns)) \<longleftrightarrow> covers c i"
    "(\<exists>t \<in> set (cube_literals False ns c). sem t (valuation i ns)) \<longleftrightarrow> \<not> covers c i"
    unfolding set_cube_literals covers_below [OF assms(1,2)] by auto
qed

lemma sem_terms:
  assumes "\<forall>c \<in> set cs. cube_ok (length ns) c" "i < 2 ^ length ns" "distinct ns"
  shows "sem (join Or (map (\<lambda>c. join And (cube_literals True ns c)) cs)) (valuation i ns) \<longleftrightarrow> (\<exists>c \<in> set cs. covers c i)"
    "sem (join And (map (\<lambda>c. join Or (cube_literals False ns c)) cs)) (valuation i ns) \<longleftrightarrow> (\<forall>c \<in> set cs. \<not> covers c i)"
  using sem_cube [OF _ assms(2,3)] assms(1) by (auto simp: sem_join_And sem_join_Or)

definition two_level :: "bool \<Rightarrow> utext list \<Rightarrow> cube list \<Rightarrow> formula" where
  "two_level dnf ns cs =
     join (if dnf then Or else And) (map (\<lambda>c. join (if dnf then And else Or) (cube_literals dnf ns c)) cs)"

definition output_formula :: "bool \<Rightarrow> utext list \<Rightarrow> cube list \<Rightarrow> formula" where
  "output_formula dnf ns cs =
     simplify_formula (two_level dnf ns cs)"

lemma output_formula_correct:
  fixes ns f a dnf
  defines "on \<equiv> filter (\<lambda>i. sem a (valuation i ns) \<and> sem f (valuation i ns) = dnf) [0..<2 ^ length ns]"
    and "dc \<equiv> filter (\<lambda>i. \<not> sem a (valuation i ns)) [0..<2 ^ length ns]"
  assumes d: "distinct ns" and ic: "implicant_cover (length ns) on dc cs"
    and i: "i < 2 ^ length ns" "sem a (valuation i ns)"
  shows "sem (output_formula dnf ns cs) (valuation i ns) = sem f (valuation i ns)"
proof -
  have ok: "\<forall>c \<in> set cs. cube_ok (length ns) c" using ic by (simp add: implicant_cover_def implicant_def)
  have "(\<exists>c \<in> set cs. covers c i) \<longleftrightarrow> i \<in> set on"
  proof
    assume "\<exists>c \<in> set cs. covers c i"
    then have "i \<in> set on \<union> set dc" using ic by (auto simp: implicant_cover_def implicant_def)
    then show "i \<in> set on" using i by (auto simp: dc_def)
  qed (use ic in \<open>simp add: implicant_cover_def\<close>)
  also have "\<dots> \<longleftrightarrow> sem f (valuation i ns) = dnf" using i by (simp add: on_def)
  finally show ?thesis using sem_terms [OF ok i(1) d] by (cases dnf) (auto simp: output_formula_def two_level_def)
qed

lemma minimize_formula_value:
  assumes arr: "\<And>xs. set (arrange xs) = set xs" and form: "form = ''dnf'' \<or> form = ''cnf''" and ns: "variables [f, a] = Inr ns"
  obtains cs rep on dc where "minimize_formula arrange f a form budget = Some (Inr rep)"
    and "\<And>v. sem a v \<Longrightarrow> sem (min_formula rep) v = sem f v"
    and "min_formula rep = output_formula (form = ''dnf'') ns cs" and "implicant_cover (length ns) on dc cs"
    and "term_count rep = length cs" and "literal_count rep = sum_list (map (literals (length ns)) cs)"
    and "optimal_two_level rep \<Longrightarrow> (\<forall>ds. implicant_cover (length ns) on dc ds \<longrightarrow>
         (length cs, sum_list (map (literals (length ns)) cs)) \<le> (length ds, sum_list (map (literals (length ns)) ds)))"
    and "on = filter (\<lambda>i. sem a (valuation i ns) \<and> sem f (valuation i ns) = (form = ''dnf'')) [0..<2 ^ length ns]"
    and "dc = filter (\<lambda>i. \<not> sem a (valuation i ns)) [0..<2 ^ length ns]"
proof -
  have d: "distinct ns" and v: "vars f \<subseteq> set ns" "vars a \<subseteq> set ns" using variables_Inr [OF ns] by auto
  let ?dnf = "form = ''dnf''" and ?n = "length ns" and ?budget = "min 100000 (nat budget)"
  define on where "on = filter (\<lambda>i. sem a (valuation i ns) \<and> sem f (valuation i ns) = ?dnf) [0..<2 ^ ?n]"
  define dc where "dc = filter (\<lambda>i. \<not> sem a (valuation i ns)) [0..<2 ^ ?n]"
  have "set on \<union> set dc \<subseteq> {..<2 ^ ?n}" by (auto simp: on_def dc_def)
  from cover_correct [of arrange, OF arr this, of ?budget] obtain cs optimal where
    c: "cover arrange on dc ?n ?budget = Some (Inr (cs, optimal))" "implicant_cover ?n on dc cs"
    "optimal \<longrightarrow> (\<forall>ds. implicant_cover ?n on dc ds \<longrightarrow>
         (length cs, sum_list (map (literals ?n) cs)) \<le> (length ds, sum_list (map (literals ?n) ds)))" by blast
  let ?g = "output_formula ?dnf ns cs"
  have "vars (join op (map (\<lambda>c. join op' (cube_literals ?dnf ns c)) cs)) \<subseteq> set ns"
    if "op = And \<or> op = Or" "op' = And \<or> op' = Or" for op op'
    using vars_cube_literals [of _ ?dnf ns] by (auto simp: vars_join [OF that(1)] vars_join [OF that(2)])
  then have vg: "vars ?g \<subseteq> set ns"
    unfolding output_formula_def two_level_def by (intro order_trans [OF vars_simplify]) simp
  have same: "sem ?g (valuation i ns) = sem f (valuation i ns)" if "i < 2 ^ ?n" "sem a (valuation i ns)" for i
    using output_formula_correct [OF d, of a f ?dnf cs i] c(2) that by (simp add: on_def dc_def)
  define rep where "rep = \<lparr>min_form = form, min_formula = ?g, min_context = a, equivalent_on_context = True,
      is_vacuous = (length dc = 2 ^ ?n), optimal_two_level = optimal, term_count = length cs,
      literal_count = sum_list (map (literals ?n) cs), min_variables = ns, dont_care_count = length dc\<rparr>"
  have cl: "classify ?dnf f a ns [0..<2 ^ ?n] [] [] = Inr (on, dc)"
    by (simp add: classify_value [OF d v] on_def dc_def)
  have ag: "agrees_on a f ?g ns [0..<2 ^ ?n] = Inr True"
    by (simp add: agrees_on_value [OF d v vg] same)
  have nf: "\<not> (form \<noteq> ''dnf'' \<and> form \<noteq> ''cnf'')" using form by blast
  have "minimize_formula arrange f a form budget = Some (Inr rep)"
    unfolding minimize_formula_def if_not_P [OF nf] rep_def Let_def ns
    using cl c(1) ag unfolding output_formula_def two_level_def by simp
  moreover have "sem ?g x = sem f x" if "sem a x" for x
  proof -
    have "(\<forall>i < 2 ^ ?n. sem a (valuation i ns) \<longrightarrow> sem ?g (valuation i ns) = sem f (valuation i ns))
        \<longleftrightarrow> (\<forall>x. sem a x \<longrightarrow> sem ?g x = sem f x)"
    proof (rule all_indices [OF d])
      fix y z :: "utext \<Rightarrow> bool"
      assume eq: "\<And>n. n \<in> set ns \<Longrightarrow> y n = z n"
      have "sem h y = sem h z" if "vars h \<subseteq> set ns" for h using that eq by (intro sem_cong) auto
      then show "(sem a y \<longrightarrow> sem ?g y = sem f y) = (sem a z \<longrightarrow> sem ?g z = sem f z)" using v vg by simp
    qed
    then show ?thesis using same that by blast
  qed
  ultimately show thesis using that [of rep cs on dc] c(2,3) by (simp add: rep_def on_def dc_def)
qed

text \<open>A two-level formula that agrees with the function in the context is a cover by implicants.\<close>

lemma two_level_cover:
  assumes d: "distinct ns" and ok: "\<forall>c \<in> set ds. cube_ok (length ns) c"
    and eq: "\<And>v. sem a v \<Longrightarrow> sem (two_level dnf ns ds) v = sem f v"
    and on: "on = filter (\<lambda>i. sem a (valuation i ns) \<and> sem f (valuation i ns) = dnf) [0..<2 ^ length ns]"
    and dc: "dc = filter (\<lambda>i. \<not> sem a (valuation i ns)) [0..<2 ^ length ns]"
  shows "implicant_cover (length ns) on dc ds"
proof -
  have below: "i < 2 ^ length ns" if "cube_ok (length ns) c" "covers c i" for c i
  proof -
    have "bit (fst c) k \<longrightarrow> k < length ns" "bit (snd c) k \<longrightarrow> k < length ns" for k using that(1) by (auto simp: cube_ok_def)
    then have "k < length ns" if "bit i k" for k using \<open>covers c i\<close> that unfolding covers_iff by metis
    then have "take_bit (length ns) i = i" by (auto simp: bit_eq_iff bit_take_bit_iff)
    then show ?thesis by (simp add: take_bit_nat_eq_self_iff)
  qed
  have val: "(\<exists>c \<in> set ds. covers c i) \<longleftrightarrow> sem f (valuation i ns) = dnf" if "i < 2 ^ length ns" "sem a (valuation i ns)" for i
    using sem_terms [OF ok that(1) d] eq [OF that(2)] by (cases dnf) (auto simp: two_level_def)
  have "i \<in> set on \<union> set dc" if c: "c \<in> set ds" "covers c i" for c i
  proof -
    have i: "i < 2 ^ length ns" using below c ok by blast
    with val [OF i] c show ?thesis by (cases "sem a (valuation i ns)") (auto simp: on dc)
  qed
  moreover have "\<exists>c \<in> set ds. covers c i" if "i \<in> set on" for i using that val by (auto simp: on)
  ultimately show ?thesis using ok by (simp add: implicant_cover_def implicant_def)
qed

section \<open>Properties\<close>

text \<open>C16: for every formula within the limits, \<open>minimize_formula\<close> returns a formula (its search ends
  and its equivalence check never fails) that agrees with the given one wherever the assumptions
  hold. The iteration order of a set is any order that keeps its elements.\<close>

theorem minimize_formula_correct:
  assumes "\<And>xs. set (arrange xs) = set xs" and "form \<in> {''dnf'', ''cnf''}" and "variables [f, a] = Inr ns"
  shows "\<exists>rep. minimize_formula arrange f a form budget = Some (Inr rep)
    \<and> (\<forall>v. sem a v \<longrightarrow> sem (min_formula rep) v = sem f v)"
proof -
  have "form = ''dnf'' \<or> form = ''cnf''" using assms(2) by simp
  then show ?thesis by (rule minimize_formula_value [of arrange, OF assms(1) _ assms(3)]) blast
qed

definition demo_sum :: formula where
  "demo_sum = FBin Or (FBin And (FVar [112]) (FVar [113])) (FBin And (FVar [112]) (FNot (FVar [113])))"

lemma demo_sum_variables: "variables [demo_sum, FTrue] = Inr [[112], [113]]"
  by code_simp

theorem minimize_formula_correct_witness:
  "\<exists>rep. minimize_formula rev demo_sum FTrue ''dnf'' 100 = Some (Inr rep) \<and> (\<forall>v. sem (min_formula rep) v = v [112])"
proof -
  have "\<exists>rep. minimize_formula rev demo_sum FTrue ''dnf'' 100 = Some (Inr rep)
    \<and> (\<forall>v. sem FTrue v \<longrightarrow> sem (min_formula rep) v = sem demo_sum v)"
    by (rule minimize_formula_correct [OF _ _ demo_sum_variables]) simp_all
  then show ?thesis by (auto simp: demo_sum_def)
qed

text \<open>C17: when the report says the result is optimal, no two-level formula of the form asked for that
  agrees with the function in the context has fewer terms, or as many terms and fewer literals.\<close>

theorem minimize_formula_optimal:
  assumes arr: "\<And>xs. set (arrange xs) = set xs" and form: "form \<in> {''dnf'', ''cnf''}" and ns: "variables [f, a] = Inr ns"
    and rep: "minimize_formula arrange f a form budget = Some (Inr rep)" "optimal_two_level rep"
    and ok: "\<forall>c \<in> set ds. cube_ok (length ns) c"
    and eq: "\<forall>v. sem a v \<longrightarrow> sem (two_level (form = ''dnf'') ns ds) v = sem f v"
  shows "(term_count rep, literal_count rep) \<le> (length ds, sum_list (map (literals (length ns)) ds))"
proof -
  have d: "distinct ns" using variables_Inr [OF ns] by simp
  have form': "form = ''dnf'' \<or> form = ''cnf''" using form by simp
  obtain cs rep' on dc where r: "minimize_formula arrange f a form budget = Some (Inr rep')"
    "term_count rep' = length cs" "literal_count rep' = sum_list (map (literals (length ns)) cs)"
    "optimal_two_level rep' \<Longrightarrow> (\<forall>ds. implicant_cover (length ns) on dc ds \<longrightarrow>
         (length cs, sum_list (map (literals (length ns)) cs)) \<le> (length ds, sum_list (map (literals (length ns)) ds)))"
    "on = filter (\<lambda>i. sem a (valuation i ns) \<and> sem f (valuation i ns) = (form = ''dnf'')) [0..<2 ^ length ns]"
    "dc = filter (\<lambda>i. \<not> sem a (valuation i ns)) [0..<2 ^ length ns]"
    by (rule minimize_formula_value [of arrange, OF arr form' ns]) (rule that)
  have "rep' = rep" using r(1) rep(1) by simp
  moreover have "implicant_cover (length ns) on dc ds"
    using two_level_cover [OF d ok _ r(5,6)] eq by blast
  ultimately show ?thesis using r(2-4) rep(2) by simp
qed

theorem minimize_formula_optimal_witness:
  "\<exists>rep. minimize_formula rev demo_sum FTrue ''dnf'' 100 = Some (Inr rep) \<and> term_count rep = 1
    \<and> (term_count rep, literal_count rep) \<le> (2, 4)"
proof -
  let ?rep = "\<lparr>min_form = ''dnf'', min_formula = FVar [112], min_context = FTrue, equivalent_on_context = True,
    is_vacuous = False, optimal_two_level = True, term_count = 1, literal_count = 1,
    min_variables = [[112], [113]], dont_care_count = 0\<rparr>"
  have e: "minimize_formula rev demo_sum FTrue ''dnf'' 100 = Some (Inr ?rep)"
  proof -
    have "classify True demo_sum FTrue [[112], [113]] [0..<2 ^ length [[112::nat], [113]]] [] [] = Inr ([1, 3], [])" by code_simp
    moreover have "cover rev [1, 3] [] 2 100 = Some (Inr ([(1, 2)], True))" by code_simp
    moreover have "simplify_formula (join Or (map (\<lambda>c. join And (cube_literals True [[112], [113]] c)) [(1, 2)])) = FVar [112]"
      by code_simp
    moreover have "agrees_on FTrue demo_sum (FVar [112]) [[112], [113]] [0..<2 ^ length [[112::nat], [113]]] = Inr True" by code_simp
    moreover have "sum_list (map (literals (length [[112::nat], [113]])) [(1, 2)]) = 1" by code_simp
    ultimately show ?thesis unfolding minimize_formula_def Let_def demo_sum_variables by (simp del: upt_Suc add: numeral_2_eq_2)
  qed
  have ok: "\<forall>c \<in> set [(3, 0), (1, 0)]. cube_ok (length [[112::nat], [113]]) c"
    by (simp add: cube_ok_point)
  have eq: "sem (two_level (''dnf'' = ''dnf'') [[112], [113]] [(3, 0), (1, 0)]) v = sem demo_sum v" for v
  proof -
    have "two_level (''dnf'' = ''dnf'') [[112], [113]] [(3, 0), (1, 0)]
      = FBin Or (FBin And (FVar [112]) (FVar [113])) (FBin And (FVar [112]) (FNot (FVar [113])))" by code_simp
    then show ?thesis by (simp add: demo_sum_def)
  qed
  have "(term_count ?rep, literal_count ?rep) \<le> (length [(3, 0), (1, 0)], sum_list (map (literals 2) [(3, 0), (1, 0::nat)]))"
    using minimize_formula_optimal [of rev, OF _ _ demo_sum_variables e _ ok] eq by simp
  with e show ?thesis by simp
qed

end
