(* ===== verification/Logic_Parse.thy ===== *)
theory Logic_Parse
  imports Logic_Formula Py_Values
begin

text \<open>
  The formula parser of \<open>jevops/logic_ir.py\<close>: the tokenizer (the regular expression \<open>_TOKEN\<close> applied
  at successive positions) and the precedence-climbing \<open>parse_formula\<close> with its four budgets.
  The character classes of the regular-expression library are parameters: \<open>word\<close> for \<open>\w\<close>, \<open>dec\<close>
  for \<open>\d\<close> and \<open>space\<close> for \<open>\s\<close>, which is also what \<open>strip\<close> removes; no character is in both
  \<open>word\<close> and \<open>space\<close>, so skipping white space before a token never has to be undone.
\<close>

section \<open>Tokens\<close>

definition strip_text :: "(nat \<Rightarrow> bool) \<Rightarrow> utext \<Rightarrow> utext" where
  "strip_text space t = rev (dropWhile space (rev (dropWhile space t)))"

text \<open>The characters \<open>()\<not>!\<and>\<or>\<rightarrow>\<leftrightarrow>\<oplus>\<close>.\<close>

definition single_tokens :: "nat list" where
  "single_tokens = [40, 41, 0xAC, 33, 0x2227, 0x2228, 0x2192, 0x2194, 0x2295]"

fun token_at :: "(nat \<Rightarrow> bool) \<Rightarrow> (nat \<Rightarrow> bool) \<Rightarrow> utext \<Rightarrow> (utext \<times> utext) option" where
  "token_at word dec [] = None"
| "token_at word dec (c # cs) =
     (if c = 60 \<and> take 2 cs = [45, 62] then Some ([60, 45, 62], drop 2 cs)
      else if c = 45 \<and> take 1 cs = [62] then Some ([45, 62], drop 1 cs)
      else if c = 38 \<and> take 1 cs = [38] then Some ([38, 38], drop 1 cs)
      else if c = 124 \<and> take 1 cs = [124] then Some ([124, 124], drop 1 cs)
      else if c \<in> set single_tokens then Some ([c], cs)
      else if word c \<and> \<not> dec c then
        (let w = takeWhile word cs; r = dropWhile word cs; q = takeWhile (\<lambda>d. d = 39) r in
         Some (c # w @ q, dropWhile (\<lambda>d. d = 39) r))
      else None)"

lemma token_at_shorter: "token_at word dec cs = Some (t, rest) \<Longrightarrow> length rest < length cs"
proof (cases cs)
  case (Cons c ds)
  assume "token_at word dec cs = Some (t, rest)"
  then have "length rest \<le> length ds" unfolding Cons
    by (auto simp: Let_def split: if_splits intro: le_trans [OF length_dropWhile_le] length_dropWhile_le)
  then show ?thesis by (simp add: Cons)
qed simp

text \<open>The loop of \<open>parse_formula\<close> over positions: \<open>n\<close> is the length of the text, \<open>k\<close> the tokens so far.\<close>

function tokens_from ::
    "(nat \<Rightarrow> bool) \<Rightarrow> (nat \<Rightarrow> bool) \<Rightarrow> (nat \<Rightarrow> bool) \<Rightarrow> nat \<Rightarrow> utext \<Rightarrow> nat \<Rightarrow> exc + utext list" where
  "tokens_from word dec space n rest k =
     (if rest = [] then Inr []
      else case token_at word dec (dropWhile space rest) of
        None \<Rightarrow> Inl (ValueErr (''unsupported formula syntax at '' @ nat_text (n - length rest)))
      | Some (t, rest') \<Rightarrow>
          if 3 * max_nodes < Suc k then Inl (LogicLimit ''formula token budget'')
          else rbind (tokens_from word dec space n rest' (Suc k)) (\<lambda>ts. Inr (t # ts)))"
  by pat_completeness auto
termination tokens_from
proof (relation "measure (\<lambda>(word, dec, space, n, rest, k). length rest)", goal_cases)
  case (2 word dec space n rest k y t rest')
  then have "length rest' < length (dropWhile space rest)" using token_at_shorter by blast
  also have "\<dots> \<le> length rest" by (rule length_dropWhile_le)
  finally show ?case by simp
qed simp

declare tokens_from.simps [simp del]

section \<open>The parser\<close>

definition binary_op :: "utext \<Rightarrow> (nat \<times> bop) option" where
  "binary_op t = map_of [([0x2194], 1, Iff), ([60, 45, 62], 1, Iff), ([0x2192], 2, Imp), ([45, 62], 2, Imp),
     ([0x2228], 3, Or), ([124, 124], 3, Or), ([0x2295], 4, Xor), ([0x2227], 5, And), ([38, 38], 5, And)] t"

text \<open>\<open>expr\<close>, with its first operand and its loop over binary operators beside it. All three return the
  tokens they leave.\<close>

function (sequential) expr ::
    "(nat \<Rightarrow> bool) \<Rightarrow> (nat \<Rightarrow> bool) \<Rightarrow> nat \<Rightarrow> nat \<Rightarrow> utext list \<Rightarrow> exc + formula \<times> utext list"
  and operand ::
    "(nat \<Rightarrow> bool) \<Rightarrow> (nat \<Rightarrow> bool) \<Rightarrow> nat \<Rightarrow> utext \<Rightarrow> utext list \<Rightarrow> exc + formula \<times> utext list"
  and binary_loop ::
    "(nat \<Rightarrow> bool) \<Rightarrow> (nat \<Rightarrow> bool) \<Rightarrow> nat \<Rightarrow> nat \<Rightarrow> formula \<Rightarrow> utext list \<Rightarrow> exc + formula \<times> utext list" where
  "expr word dec lowest d ts =
     (if max_depth < d then Inl (LogicLimit ''formula depth budget'')
      else case ts of
        [] \<Rightarrow> Inl (ValueErr ''missing formula operand'')
      | t # rest \<Rightarrow> rbind (operand word dec d t rest) (\<lambda>(left, rest'). binary_loop word dec lowest d left rest'))"
| "operand word dec d t ts =
     (if t = [0xAC] \<or> t = [33] then
        rbind (expr word dec 6 (Suc d) ts) (\<lambda>(a, rest). Inr (FNot a, rest))
      else if t = [40] then
        rbind (expr word dec 0 (Suc d) ts) (\<lambda>(a, rest).
          if rest = [] \<or> hd rest \<noteq> [41] then Inl (ValueErr ''unbalanced parentheses'') else Inr (a, tl rest))
      else if t = u ''True'' \<or> t = u ''true'' then Inr (FTrue, ts)
      else if t = u ''False'' \<or> t = u ''false'' then Inr (FFalse, ts)
      else rbind (mk_formula word dec ''var'' [] t) (\<lambda>f. Inr (f, ts)))"
| "binary_loop word dec lowest d left [] = Inr (left, [])"
| "binary_loop word dec lowest d left (t # ts) =
     (case binary_op t of
        None \<Rightarrow> Inr (left, t # ts)
      | Some (precedence, op) \<Rightarrow>
          if precedence < lowest then Inr (left, t # ts)
          else
            rbind (expr word dec (if op = Imp then precedence else Suc precedence) (Suc d) ts) (\<lambda>(right, rest).
            binary_loop word dec lowest d (FBin op left right) rest))"
  by pat_completeness auto

text \<open>Every call but the loop uses up a token, so the recursion ends.\<close>

lemma expr_shorter:
  "expr_operand_binary_loop_dom (Inl (word, dec, lowest, d, ts)) \<Longrightarrow>
     expr word dec lowest d ts = Inr (f, rest) \<Longrightarrow> length rest < length ts"
  "expr_operand_binary_loop_dom (Inr (Inl (word, dec, d, t, ts))) \<Longrightarrow>
     operand word dec d t ts = Inr (f, rest) \<Longrightarrow> length rest \<le> length ts"
  "expr_operand_binary_loop_dom (Inr (Inr (word, dec, lowest, d, left, ts))) \<Longrightarrow>
     binary_loop word dec lowest d left ts = Inr (f, rest) \<Longrightarrow> length rest \<le> length ts"
proof (induction word dec lowest d ts and word dec d t ts and word dec lowest d left ts
    arbitrary: f rest and f rest and f rest rule: expr_operand_binary_loop.pinduct)
  case (1 word dec lowest d ts)
  note eq = 1(4) [unfolded expr.psimps [OF 1(1)]]
  obtain t r where t: "ts = t # r" "\<not> max_depth < d" using eq by (cases ts) (auto split: if_splits)
  obtain left r' where o: "operand word dec d t r = Inr (left, r')" "binary_loop word dec lowest d left r' = Inr (f, rest)"
    using eq t by (auto simp: res_simps)
  show ?case using 1(2) [OF t(2,1) o(1)] 1(3) [OF t(2,1) o(1) refl o(2)] t(1) by simp
next
  case (2 word dec d t ts)
  note eq = 2(4) [unfolded operand.psimps [OF 2(1)]]
  show ?case
  proof (cases "t = [0xAC] \<or> t = [33]")
    case True
    then show ?thesis using eq 2(2) [OF True] by (auto simp: res_simps intro: less_imp_le)
  next
    case not: False
    show ?thesis
    proof (cases "t = [40]")
      case True
      obtain a r where e: "expr word dec 0 (Suc d) ts = Inr (a, r)" "rest = tl r"
        using eq not True by (auto simp: res_simps split: if_splits)
      from 2(3) [OF not True e(1)] e(2) show ?thesis by simp
    next
      case False
      then show ?thesis using eq not by (auto simp: res_simps split: if_splits)
    qed
  qed
next
  case (4 word dec lowest d left t ts)
  note eq = 4(4) [unfolded binary_loop.psimps(2) [OF 4(1)]]
  show ?case
  proof (cases "binary_op t")
    case None
    then show ?thesis using eq by simp
  next
    case (Some po)
    obtain p op where po: "po = (p, op)" by (cases po)
    show ?thesis
    proof (cases "p < lowest")
      case True
      then show ?thesis using eq Some po by simp
    next
      case False
      obtain right r where e: "expr word dec (if op = Imp then p else Suc p) (Suc d) ts = Inr (right, r)"
        "binary_loop word dec lowest d (FBin op left right) r = Inr (f, rest)"
        using eq Some po False by (auto simp: res_simps)
      have "length r < length ts" using 4(2) [OF Some po [symmetric] False e(1)] .
      moreover have "length rest \<le> length r" using 4(3) [OF Some po [symmetric] False e(1) refl e(2)] .
      ultimately show ?thesis by simp
    qed
  qed
qed (simp_all add: binary_loop.psimps(1))

termination expr
proof (relation "measure (\<lambda>x. case x of
      Inl (word, dec, lowest, d, ts) \<Rightarrow> 2 * length ts
    | Inr (Inl (word, dec, d, t, ts)) \<Rightarrow> Suc (2 * length ts)
    | Inr (Inr (word, dec, lowest, d, left, ts)) \<Rightarrow> 2 * length ts)", goal_cases)
  case (3 word dec lowest d ts t r x left rest)
  then show ?case using expr_shorter(2) [of word dec d t r left rest] by fastforce
next
  case (7 word dec lowest d left t ts po p op x right rest)
  then show ?case using expr_shorter(1) [of word dec _ "Suc d" ts right rest] by fastforce
qed auto

declare expr.simps [simp del] operand.simps [simp del]

definition parse_formula :: "(nat \<Rightarrow> bool) \<Rightarrow> (nat \<Rightarrow> bool) \<Rightarrow> (nat \<Rightarrow> bool) \<Rightarrow> utext \<Rightarrow> exc + formula" where
  "parse_formula word dec space given =
     (let text = strip_text space given in
      if 8192 < length text then Inl (LogicLimit ''formula character budget'')
      else
        rbind (tokens_from word dec space (length text) text 0) (\<lambda>tokens.
        rbind (expr word dec 0 0 tokens) (\<lambda>(result, rest).
        if rest \<noteq> [] then Inl (ValueErr ''unconsumed formula syntax'')
        else rbind (variables [result]) (\<lambda>_. Inr result))))"

end
