(* ===== verification/Logic_Roundtrip.thy ===== *)
theory Logic_Roundtrip
  imports Logic_Parse
begin

text \<open>
  Reading back what \<open>render_formula\<close> writes. Rendering has no sign for exclusive or, so the result is
  the formula with every exclusive or spelled out as a negated equivalence; the four budgets of
  the parser decide whether there is a result at all.
\<close>

section \<open>What the regular-expression library promises about the characters involved\<close>

definition char_classes :: "(nat \<Rightarrow> bool) \<Rightarrow> (nat \<Rightarrow> bool) \<Rightarrow> (nat \<Rightarrow> bool) \<Rightarrow> bool" where
  "char_classes word dec space =
     (space 32 \<and> list_all (\<lambda>c. \<not> space c) (39 # single_tokens)
      \<and> list_all (\<lambda>c. \<not> word c) (32 # 39 # 45 # 60 # 38 # 124 # single_tokens)
      \<and> list_all word (u ''TrueFals'') \<and> list_all (\<lambda>c. \<not> dec c) (u ''TF'')
      \<and> Collect word \<inter> Collect space = {})"

lemma char_classesD:
  assumes "char_classes word dec space"
  shows "space 32" "\<not> space 39" "c \<in> set single_tokens \<Longrightarrow> \<not> space c" "c \<in> set single_tokens \<Longrightarrow> \<not> word c"
    "\<not> word 32" "\<not> word 39" "\<not> word 45" "\<not> word 60" "\<not> word 38" "\<not> word 124"
    "word c \<Longrightarrow> \<not> space c" "is_name word dec (u ''True'')" "is_name word dec (u ''False'')"
  using assms by (auto simp: char_classes_def list_all_iff u_def)

definition proper_name :: "(nat \<Rightarrow> bool) \<Rightarrow> (nat \<Rightarrow> bool) \<Rightarrow> utext \<Rightarrow> bool" where
  "proper_name word dec n = (is_name word dec n \<and> n \<notin> {u ''True'', u ''False'', u ''true'', u ''false''})"

text \<open>The names of every \<open>Formula\<close> object are proper: the constructor checks them.\<close>

lemma mk_formula_proper: "mk_formula word dec ''var'' [] n = Inr f \<longleftrightarrow> proper_name word dec n \<and> f = FVar n"
  by (auto simp: mk_formula_def proper_name_def)

definition proper :: "(nat \<Rightarrow> bool) \<Rightarrow> (nat \<Rightarrow> bool) \<Rightarrow> formula \<Rightarrow> bool" where
  "proper word dec f = (vars f \<subseteq> Collect (proper_name word dec))"

section \<open>Tokens of a rendering\<close>

definition op_token :: "bop \<Rightarrow> utext" where
  "op_token op = (case op of And \<Rightarrow> [0x2227] | Or \<Rightarrow> [0x2228] | Imp \<Rightarrow> [0x2192] | _ \<Rightarrow> [0x2194])"

primrec formula_tokens :: "formula \<Rightarrow> utext list" where
  "formula_tokens (FVar n) = [n]"
| "formula_tokens FTrue = [u ''True'']"
| "formula_tokens FFalse = [u ''False'']"
| "formula_tokens (FNot a) = [0xAC] # formula_tokens a"
| "formula_tokens (FBin op a b) =
     (if op = Xor then [[0xAC]] else []) @ [40] # formula_tokens a @ op_token op # formula_tokens b @ [[41]]"

lemma token_name:
  assumes C: "char_classes word dec space" and n: "is_name word dec n" and rest: "rest = [] \<or> hd rest \<in> {32, 41}"
  shows "token_at word dec (n @ rest) = Some (n, rest)"
proof -
  obtain c cs where cs: "n = c # cs" "word c" "\<not> dec c" "list_all (\<lambda>d. d = 39) (dropWhile word cs)"
    using n by (cases n) (auto simp: Let_def)
  define w q where "w = takeWhile word cs" and "q = dropWhile word cs"
  have split: "cs = w @ q" and w: "\<And>x. x \<in> set w \<Longrightarrow> word x" and q: "\<And>x. x \<in> set q \<Longrightarrow> x = 39"
    using cs(4) by (auto simp: w_def q_def list_all_iff dest: set_takeWhileD)
  have 41: "\<not> word 41" using char_classesD(4) [OF C, of 41] by (simp add: single_tokens_def)
  have stop: "takeWhile word (q @ rest) = []" "dropWhile word (q @ rest) = q @ rest"
    using q rest char_classesD(5,6) [OF C] 41 by (cases q; cases rest; auto)+
  have "takeWhile (\<lambda>d. d = 39) rest = []" "dropWhile (\<lambda>d. d = 39) rest = rest"
    using rest by (cases rest; auto)+
  then have quotes: "takeWhile (\<lambda>d. d = 39) (q @ rest) = q" "dropWhile (\<lambda>d. d = 39) (q @ rest) = rest"
    using q by (simp_all add: takeWhile_append2 dropWhile_append2)
  have words: "takeWhile word (cs @ rest) = w" "dropWhile word (cs @ rest) = q @ rest"
    using w stop by (simp_all add: split takeWhile_append2 dropWhile_append2)
  have "c \<notin> set single_tokens" "c \<noteq> 60" "c \<noteq> 45" "c \<noteq> 38" "c \<noteq> 124"
    using cs(2) char_classesD(4,7-10) [OF C] by auto
  then show ?thesis using cs words quotes split by (simp add: Let_def)
qed

lemma token_single:
  assumes "char_classes word dec space" "c \<in> set single_tokens"
  shows "token_at word dec (c # rest) = Some ([c], rest)"
  using assms(2) by (auto simp: single_tokens_def)

lemma tokens_step:
  assumes "token_at word dec (dropWhile space x) = Some (t, r)"
  shows "tokens_from word dec space n x k =
    (if 3 * max_nodes < Suc k then Inl (LogicLimit ''formula token budget'')
     else rbind (tokens_from word dec space n r (Suc k)) (\<lambda>ts. Inr (t # ts)))"
proof -
  have "x \<noteq> []" using assms by auto
  then show ?thesis using assms by (subst tokens_from.simps) simp
qed

lemma rbind_assoc_tokens:
  "rbind (rbind m (\<lambda>ts. Inr (xs @ ts))) (\<lambda>ts. Inr (ys @ ts)) = rbind m (\<lambda>ts. Inr (ys @ xs @ ts))"
  by (cases m) auto

definition takes_tokens ::
    "(nat \<Rightarrow> bool) \<Rightarrow> (nat \<Rightarrow> bool) \<Rightarrow> (nat \<Rightarrow> bool) \<Rightarrow> nat \<Rightarrow> utext \<Rightarrow> utext list \<Rightarrow> utext \<Rightarrow> bool" where
  "takes_tokens word dec space n x ts r =
     (\<forall>k. tokens_from word dec space n x k =
        (if 3 * max_nodes < k + length ts then Inl (LogicLimit ''formula token budget'')
         else rbind (tokens_from word dec space n r (k + length ts)) (\<lambda>us. Inr (ts @ us))))"

lemma takes_one: "token_at word dec (dropWhile space x) = Some (t, r) \<Longrightarrow> takes_tokens word dec space n x [t] r"
  by (simp add: takes_tokens_def tokens_step)

lemma takes_append:
  assumes "takes_tokens word dec space n x ts y" "takes_tokens word dec space n y us z"
  shows "takes_tokens word dec space n x (ts @ us) z"
  using assms by (auto simp: takes_tokens_def rbind_assoc_tokens add.assoc)

lemma takes_render:
  assumes C: "char_classes word dec space"
  shows "proper word dec f \<Longrightarrow> rest = [] \<or> hd rest \<in> {32, 41} \<Longrightarrow> set ws \<subseteq> {32} \<Longrightarrow>
    takes_tokens word dec space n (ws @ render_formula f @ rest) (formula_tokens f) rest"
proof (induction f arbitrary: ws rest)
  have skip: "dropWhile space (ws @ c # x) = c # x" if "set ws \<subseteq> {32}" "\<not> space c" for ws c x
    using that char_classesD(1) [OF C] by (induction ws) auto
  have name: "takes_tokens word dec space n (ws @ m @ rest) [m] rest"
    if "is_name word dec m" "rest = [] \<or> hd rest \<in> {32, 41}" "set ws \<subseteq> {32}" for m rest ws
  proof -
    note given = that
    obtain c cs where m: "m = c # cs" "\<not> space c" using given(1) char_classesD(11) [OF C] by (cases m) auto
    have "dropWhile space (ws @ m @ rest) = m @ rest" using skip [OF given(3) m(2)] m(1) by simp
    then show ?thesis using takes_one token_name [OF C given(1,2)] by simp
  qed
  have single: "takes_tokens word dec space n (ws @ c # rest) [[c]] rest"
    if "c \<in> set single_tokens" "set ws \<subseteq> {32}" for c rest ws
    using takes_one [of word dec space "ws @ c # rest" "[c]" rest] token_single [OF C that(1)]
      skip [OF that(2) char_classesD(3) [OF C that(1)]] by simp
  {
    case (FVar m)
    then show ?case using name by (simp add: proper_def proper_name_def)
  next
    case FTrue
    then show ?case using name char_classesD(12) [OF C] by simp
  next
    case FFalse
    then show ?case using name char_classesD(13) [OF C] by simp
  next
    case (FNot a)
    have "takes_tokens word dec space n (ws @ 0xAC # ([32] @ render_formula a @ rest)) [[0xAC]] ([32] @ render_formula a @ rest)"
      using FNot.prems by (intro single) (auto simp: single_tokens_def)
    moreover have "takes_tokens word dec space n ([32] @ render_formula a @ rest) (formula_tokens a) rest"
      using FNot.prems by (intro FNot.IH) (auto simp: proper_def)
    ultimately show ?case using takes_append by fastforce
  next
    case (FBin op a b)
    let ?s = "hd (op_token op)"
    have s: "?s \<in> set single_tokens" "op_token op = [?s]" by (cases op; simp add: op_token_def single_tokens_def)+
    let ?rb = "[32] @ render_formula b @ 41 # rest"
    let ?ra = "render_formula a @ [32] @ ?s # ?rb"
    have "takes_tokens word dec space n ?rb (formula_tokens b) (41 # rest)"
      using FBin.prems by (intro FBin.IH(2)) (auto simp: proper_def)
    moreover have "takes_tokens word dec space n ([] @ 41 # rest) [[41]] rest"
      by (intro single) (auto simp: single_tokens_def)
    ultimately have 1: "takes_tokens word dec space n ?rb (formula_tokens b @ [[41]]) rest"
      using takes_append by fastforce
    have "takes_tokens word dec space n ([32] @ ?s # ?rb) [op_token op] ?rb"
      using single [OF s(1), of "[32]" ?rb] s(2) by simp
    with 1 have 2: "takes_tokens word dec space n ([32] @ ?s # ?rb) ([op_token op] @ formula_tokens b @ [[41]]) rest"
      using takes_append by blast
    have "takes_tokens word dec space n ([] @ ?ra) (formula_tokens a) ([32] @ ?s # ?rb)"
      using FBin.prems by (intro FBin.IH(1)) (auto simp: proper_def)
    with 2 have 3: "takes_tokens word dec space n ?ra (formula_tokens a @ [op_token op] @ formula_tokens b @ [[41]]) rest"
      using takes_append by fastforce
    have paren: "takes_tokens word dec space n (ws @ 40 # ?ra) ([[40]] @ formula_tokens a @ [op_token op] @ formula_tokens b @ [[41]]) rest"
      if "set ws \<subseteq> {32}" for ws
      using takes_append [OF single [OF _ that, of 40 ?ra] 3] by (simp add: single_tokens_def)
    show ?case
    proof (cases "op = Xor")
      case False
      then have "ws @ render_formula (FBin op a b) @ rest = ws @ 40 # ?ra"
        by (cases op) (simp_all add: Let_def op_token_def u_def)
      then show ?thesis using paren [OF FBin.prems(3)] False by simp
    next
      case True
      then have r: "ws @ render_formula (FBin op a b) @ rest = ws @ 0xAC # ([32] @ 40 # ?ra)"
        by (simp add: Let_def op_token_def u_def)
      have "takes_tokens word dec space n (ws @ 0xAC # ([32] @ 40 # ?ra)) [[0xAC]] ([32] @ 40 # ?ra)"
        using FBin.prems(3) by (intro single) (auto simp: single_tokens_def)
      from takes_append [OF this paren [of "[32]"]] show ?thesis unfolding r using True by simp
    qed
  }
qed

section \<open>Parsing the tokens of a rendering\<close>

primrec without_xor :: "formula \<Rightarrow> formula" where
  "without_xor (FVar n) = FVar n"
| "without_xor FTrue = FTrue"
| "without_xor FFalse = FFalse"
| "without_xor (FNot a) = FNot (without_xor a)"
| "without_xor (FBin op a b) =
     (if op = Xor then FNot (FBin Iff (without_xor a) (without_xor b)) else FBin op (without_xor a) (without_xor b))"

lemma sem_without_xor [simp]: "sem (without_xor f) v = sem f v"
  by (induction f) auto

text \<open>How deep the recursion of \<open>expr\<close> goes: a left operand is one level down, a right operand two.\<close>

primrec parse_depth :: "formula \<Rightarrow> nat" where
  "parse_depth (FVar n) = 0"
| "parse_depth FTrue = 0"
| "parse_depth FFalse = 0"
| "parse_depth (FNot a) = Suc (parse_depth a)"
| "parse_depth (FBin op a b) =
     (if op = Xor then 1 else 0) + max (Suc (parse_depth a)) (Suc (Suc (parse_depth b)))"

lemma binary_op_le: "binary_op t = Some (p, op) \<Longrightarrow> p \<le> 5"
  by (auto simp: binary_op_def split: if_splits)

lemma loop_after_not: "binary_loop word dec 6 d left ts = Inr (left, ts)"
proof (cases ts)
  case (Cons t r)
  then show ?thesis using binary_op_le [of t] by (fastforce split: option.splits)
qed simp

lemma loop_at_paren: "binary_loop word dec m d left ([41] # ts) = Inr (left, [41] # ts)"
  by (simp add: binary_op_def)

lemma not_operator: "binary_op [41] = None"
  by (simp add: binary_op_def)

lemma expr_render:
  assumes C: "char_classes word dec space"
  shows "proper word dec f \<Longrightarrow> expr word dec m d (formula_tokens f @ rest)
    = (if d + parse_depth f \<le> max_depth then binary_loop word dec m d (without_xor f) rest
       else Inl (LogicLimit ''formula depth budget''))"
proof (induction f arbitrary: m d rest)
  case (FVar n)
  then have n: "mk_formula word dec ''var'' [] n = Inr (FVar n)" "proper_name word dec n"
    using mk_formula_proper by (auto simp: proper_def)
  have "n \<noteq> [c]" if "c \<in> {0xAC, 33, 40}" for c
    using n(2) that char_classesD(4) [OF C, of c] by (auto simp: proper_name_def single_tokens_def)
  then show ?case using n by (subst expr.simps) (simp add: operand.simps proper_name_def)
next
  case FTrue
  then show ?case by (subst expr.simps) (simp add: operand.simps u_def)
next
  case FFalse
  then show ?case by (subst expr.simps) (simp add: operand.simps u_def)
next
  case (FNot a)
  then have "proper word dec a" by (simp add: proper_def)
  note IH = FNot.IH [OF this]
  show ?case by (subst expr.simps) (auto simp: operand.simps IH loop_after_not)
next
  case (FBin op a b)
  then have "proper word dec a" "proper word dec b" by (auto simp: proper_def)
  note IH = FBin.IH(1) [OF this(1)] FBin.IH(2) [OF this(2)]
  have paren: "operand word dec d [40] (formula_tokens a @ op_token op' # formula_tokens b @ [41] # rest)
    = (if d + max (Suc (parse_depth a)) (Suc (Suc (parse_depth b))) \<le> max_depth
       then Inr (FBin op' (without_xor a) (without_xor b), rest) else Inl (LogicLimit ''formula depth budget''))"
    if "op' \<noteq> Xor" for d op'
  proof -
    have "\<exists>p. binary_op (op_token op') = Some (p, op')"
      using that by (cases op') (simp_all add: op_token_def binary_op_def)
    then obtain p where p: "binary_op (op_token op') = Some (p, op')" by blast
    show ?thesis using p by (auto simp: operand.simps IH not_operator)
  qed
  show ?case
  proof (cases "op = Xor")
    case False
    then show ?thesis using paren [OF False] by (subst expr.simps) auto
  next
    case True
    have x: "op_token Xor = op_token Iff" by (simp add: op_token_def)
    have "expr word dec 6 (Suc d) ([40] # formula_tokens a @ op_token Iff # formula_tokens b @ [41] # rest)
      = (if Suc d + max (Suc (parse_depth a)) (Suc (Suc (parse_depth b))) \<le> max_depth
         then Inr (FBin Iff (without_xor a) (without_xor b), rest) else Inl (LogicLimit ''formula depth budget''))"
      using paren [of Iff "Suc d"] by (subst expr.simps) (auto simp: loop_after_not)
    then show ?thesis using True x by (subst expr.simps) (auto simp: operand.simps)
  qed
qed

section \<open>The round trip\<close>

lemma render_ends:
  assumes "char_classes word dec space" "proper word dec f"
  shows "\<exists>c cs. render_formula f = c # cs \<and> \<not> space c" "\<exists>c cs. render_formula f = cs @ [c] \<and> \<not> space c"
proof -
  have name: "(\<exists>c cs. n = c # cs \<and> \<not> space c) \<and> (\<exists>c cs. n = cs @ [c] \<and> \<not> space c)" if n: "is_name word dec n" for n
  proof -
    obtain c cs where cs: "n = c # cs" "word c" "list_all (\<lambda>d. d = 39) (dropWhile word cs)"
      using n by (cases n) (auto simp: Let_def)
    have "word x \<or> x = 39" if "x \<in> set n" for x
    proof -
      have "set cs = set (takeWhile word cs) \<union> set (dropWhile word cs)" by (metis set_append takeWhile_dropWhile_id)
      then show ?thesis using that cs by (auto simp: list_all_iff dest: set_takeWhileD)
    qed
    then have "\<not> space (last n)" using cs(1) char_classesD(2,11) [OF assms(1)] last_in_set [of n] by fastforce
    moreover have "n = butlast n @ [last n]" using cs(1) by simp
    ultimately show ?thesis using cs char_classesD(11) [OF assms(1)] by metis
  qed
  have sp: "\<not> space 0xAC" "\<not> space 40" "\<not> space 41"
    using char_classesD(3) [OF assms(1)] by (simp_all add: single_tokens_def)
  show "\<exists>c cs. render_formula f = c # cs \<and> \<not> space c"
  proof (cases f)
    case (FVar n)
    then show ?thesis using assms(2) name [of n] by (simp add: proper_def proper_name_def)
  next
    case FTrue
    then show ?thesis using name [OF char_classesD(12) [OF assms(1)]] by simp
  next
    case FFalse
    then show ?thesis using name [OF char_classesD(13) [OF assms(1)]] by simp
  next
    case (FBin op a b)
    then show ?thesis using sp by (cases op) (simp_all add: Let_def u_def)
  qed (use sp in simp)
  show "\<exists>c cs. render_formula f = cs @ [c] \<and> \<not> space c"
    using assms(2)
  proof (induction f)
    case (FNot a)
    then obtain c cs where "render_formula a = cs @ [c]" "\<not> space c" by (auto simp: proper_def)
    then show ?case by (intro exI [of _ c] exI [of _ "0xAC # 32 # cs"]) simp
  next
    case (FBin op a b)
    have "\<exists>cs. render_formula (FBin op a b) = cs @ [41]" by (cases op) (simp_all add: Let_def u_def)
    then show ?case using sp(3) by blast
  qed (use name char_classesD(12,13) [OF assms(1)] in \<open>auto simp: proper_def proper_name_def\<close>)
qed

text \<open>C22: parsing a rendered formula gives the formula back, exclusive or spelled out, exactly when the
  character, token, depth and formula budgets allow it; otherwise the error names the budget that
  was exceeded. In particular the result has the meaning of the formula.\<close>

theorem parse_render:
  assumes "char_classes word dec space" and "proper word dec f"
  shows "parse_formula word dec space (render_formula f) =
    (if 8192 < length (render_formula f) then Inl (LogicLimit ''formula character budget'')
     else if 3 * max_nodes < length (formula_tokens f) then Inl (LogicLimit ''formula token budget'')
     else if max_depth < parse_depth f then Inl (LogicLimit ''formula depth budget'')
     else rbind (variables [without_xor f]) (\<lambda>_. Inr (without_xor f)))"
proof -
  let ?r = "render_formula f"
  obtain c cs where c: "?r = c # cs" "\<not> space c" using render_ends(1) [OF assms] by blast
  obtain e es where e: "?r = es @ [e]" "\<not> space e" using render_ends(2) [OF assms] by blast
  have "dropWhile space ?r = ?r" using c by simp
  moreover have "dropWhile space (rev ?r) = rev ?r" using e by simp
  ultimately have strip: "strip_text space ?r = ?r" by (simp add: strip_text_def)
  have "takes_tokens word dec space (length ?r) ([] @ ?r @ []) (formula_tokens f) []"
    by (rule takes_render [OF assms]) simp_all
  then have toks: "tokens_from word dec space (length ?r) ?r 0 =
      (if 3 * max_nodes < length (formula_tokens f) then Inl (LogicLimit ''formula token budget'') else Inr (formula_tokens f))"
    by (simp add: takes_tokens_def tokens_from.simps)
  have ex: "expr word dec 0 0 (formula_tokens f) =
      (if parse_depth f \<le> max_depth then Inr (without_xor f, []) else Inl (LogicLimit ''formula depth budget''))"
    using expr_render [OF assms, of 0 0 "[]"] by simp
  show ?thesis unfolding parse_formula_def strip toks Let_def
    by (simp add: ex not_le split: if_splits)
qed

end
