(* ===== verification/Logic_Analyze.thy ===== *)
theory Logic_Analyze
  imports Logic_Roundtrip Logic_NNF Logic_Diagram Logic_Maps Logic_Minimize
begin

text \<open>
  The outer interface of \<open>jevops/logic_ir.py\<close>: formulas as dictionaries (\<open>to_dict\<close>,
  \<open>formula_from_ir\<close>) and \<open>analyze_formula\<close>, which runs every analysis of the module on a text and
  turns exceptions into a report. The cache of \<open>_analyze\<close> and the copy of its result are
  invisible here: values of the model are never mutated.
\<close>

section \<open>Errors a caller can expect\<close>

text \<open>The exceptions of the model that are \<open>ValueError\<close>s; \<open>LogicLimit\<close> is a subclass.\<close>

fun is_value_error :: "exc \<Rightarrow> bool" where
  "is_value_error TypeErr = False"
| "is_value_error AttributeErr = False"
| "is_value_error OverflowErr = False"
| "is_value_error KeyErr = False"
| "is_value_error IndexErr = False"
| "is_value_error (AssertionErr s) = False"
| "is_value_error e = True"

text \<open>A computation that returns a good value or raises a \<open>ValueError\<close>.\<close>

definition yields :: "('a \<Rightarrow> bool) \<Rightarrow> exc + 'a \<Rightarrow> bool" where
  "yields P m = (case m of Inl e \<Rightarrow> is_value_error e | Inr x \<Rightarrow> P x)"

lemma yields_Inr [simp]: "yields P (Inr x) = P x"
  and yields_Inl [simp]: "yields P (Inl e) = is_value_error e"
  by (simp_all add: yields_def)

lemma rbind_InlD: "rbind m f = Inl e \<Longrightarrow> m = Inl e \<or> (\<exists>x. m = Inr x \<and> f x = Inl e)"
  by (cases m) auto

lemma yields_rbind: "yields Q m \<Longrightarrow> (\<And>x. m = Inr x \<Longrightarrow> Q x \<Longrightarrow> yields P (f x)) \<Longrightarrow> yields P (rbind m f)"
  by (cases m) auto

lemma yields_mono: "yields Q m \<Longrightarrow> (\<And>x. Q x \<Longrightarrow> P x) \<Longrightarrow> yields P m"
  by (cases m) auto

lemma yields_tokens: "yields (\<lambda>ts. True) (tokens_from word dec space n rest k)"
proof (induction word dec space n rest k rule: tokens_from.induct)
  case (1 word dec space n rest k)
  show ?case
    by (subst tokens_from.simps) (auto split: option.splits intro!: yields_rbind [where Q = "\<lambda>ts. True"] 1)
qed

lemma yields_expr:
  "yields (\<lambda>(f, rest). proper word dec f) (expr word dec lowest d ts)"
  "yields (\<lambda>(f, rest). proper word dec f) (operand word dec d t ts)"
  "proper word dec left \<Longrightarrow> yields (\<lambda>(f, rest). proper word dec f) (binary_loop word dec lowest d left ts)"
proof (induction word dec lowest d ts and word dec d t ts and word dec lowest d left ts
    rule: expr_operand_binary_loop.induct)
  case (1 word dec lowest d ts)
  show ?case
  proof (cases "max_depth < d")
    case False
    then show ?thesis
    proof (cases ts)
      case (Cons t rest)
      show ?thesis unfolding expr.simps using False Cons
        by (auto intro!: yields_rbind [OF 1(1)] 1(2))
    qed (simp add: expr.simps)
  qed (simp add: expr.simps)
next
  case (2 word dec d t ts)
  have mk: "yields (\<lambda>f. proper word dec f) (mk_formula word dec ''var'' [] t)"
    by (auto simp: mk_formula_def proper_def proper_name_def)
  show ?case unfolding operand.simps
    by (auto intro!: yields_rbind [OF 2(1)] yields_rbind [OF 2(2)] yields_rbind [OF mk] simp: proper_def)
next
  case (4 word dec lowest d left t ts)
  show ?case
  proof (cases "binary_op t")
    case (Some po)
    obtain p op where po: "po = (p, op)" by (cases po)
    show ?thesis
    proof (cases "p < lowest")
      case False
      have "yields (\<lambda>(f, rest). proper word dec f)
        (rbind (expr word dec (if op = Imp then p else Suc p) (Suc d) ts)
           (\<lambda>(right, rest). binary_loop word dec lowest d (FBin op left right) rest))"
      proof (cases "expr word dec (if op = Imp then p else Suc p) (Suc d) ts")
        case (Inl e)
        then show ?thesis using 4(1) [OF Some po [symmetric] False] by simp
      next
        case (Inr q)
        obtain right rest where q: "q = (right, rest)" by (cases q)
        have "proper word dec right" using 4(1) [OF Some po [symmetric] False] Inr q by simp
        then have "proper word dec (FBin op left right)" using 4(3) by (simp add: proper_def)
        then show ?thesis using 4(2) [OF Some po [symmetric] False Inr q [symmetric]] Inr q by simp
      qed
      then show ?thesis using Some po False by simp
    qed (use 4(3) Some po in simp)
  qed (use 4(3) in simp)
qed auto

lemma yields_variables: "yields (\<lambda>ns. True) (variables fs)"
  by (auto simp: variables_def Let_def)

text \<open>C23: what \<open>parse_formula\<close> returns is a formula the constructor would accept, within the node, depth
  and variable budgets; all it can raise is a \<open>ValueError\<close> (a \<open>LogicLimit\<close> included).\<close>

theorem parse_formula_type:
  "case parse_formula word dec space text of
     Inl e \<Rightarrow> is_value_error e
   | Inr f \<Rightarrow> proper word dec f \<and> nodes f \<le> max_nodes \<and> depth f \<le> max_depth \<and> card (vars f) \<le> max_variables"
proof -
  let ?P = "\<lambda>f. proper word dec f \<and> nodes f \<le> max_nodes \<and> depth f \<le> max_depth \<and> card (vars f) \<le> max_variables"
  have budget: "nodes f \<le> max_nodes \<and> depth f \<le> max_depth \<and> card (vars f) \<le> max_variables"
    if "variables [f] = Inr ns" for f ns
    using that by (auto simp: variables_def Let_def length_remdups_card_conv split: if_splits)
  have last: "yields ?P (rbind (variables [f]) (\<lambda>_. Inr f))" if "proper word dec f" for f
    using yields_variables [of "[f]"] budget that by (cases "variables [f]") auto
  have "yields ?P (parse_formula word dec space text)"
    unfolding parse_formula_def Let_def
    by (auto intro!: yields_rbind [OF yields_tokens] yields_rbind [OF yields_expr(1)] last)
  then show ?thesis by (simp add: yields_def)
qed

section \<open>Formulas as dictionaries\<close>

text \<open>What a caller may pass: texts, lists or tuples, mappings, and values of any other type, given by
  the text \<open>str\<close> makes of them. How \<open>str\<close> shows a list or a mapping is the parameter \<open>shown\<close>.\<close>

datatype ir = IText utext | IList "ir list" | IRow "(utext \<times> ir) list" | IOther utext

fun ir_str :: "(ir \<Rightarrow> utext) \<Rightarrow> ir \<Rightarrow> utext" where
  "ir_str shown (IText t) = t"
| "ir_str shown (IOther t) = t"
| "ir_str shown v = shown v"

definition operations :: "string list" where
  "operations = [''var'', ''true'', ''false'', ''not'', ''and'', ''or'', ''imp'', ''iff'', ''xor'']"

text \<open>The operation a text names; any other text stands for the one unknown operation.\<close>

definition operation_of :: "utext \<Rightarrow> string" where
  "operation_of t = (case find (\<lambda>s. u s = t) operations of Some s \<Rightarrow> s | None \<Rightarrow> [])"

definition bop_name :: "bop \<Rightarrow> string" where
  "bop_name op = (case op of And \<Rightarrow> ''and'' | Or \<Rightarrow> ''or'' | Imp \<Rightarrow> ''imp'' | Iff \<Rightarrow> ''iff'' | Xor \<Rightarrow> ''xor'')"

primrec formula_to_ir :: "formula \<Rightarrow> ir" where
  "formula_to_ir (FVar n) = IRow ((u ''op'', IText (u ''var'')) # (if n \<noteq> [] then [(u ''name'', IText n)] else []))"
| "formula_to_ir FTrue = IRow [(u ''op'', IText (u ''true''))]"
| "formula_to_ir FFalse = IRow [(u ''op'', IText (u ''false''))]"
| "formula_to_ir (FNot a) = IRow [(u ''op'', IText (u ''not'')), (u ''args'', IList [formula_to_ir a])]"
| "formula_to_ir (FBin op a b) =
     IRow [(u ''op'', IText (u (bop_name op))), (u ''args'', IList [formula_to_ir a, formula_to_ir b])]"

text \<open>\<open>read\<close> of \<open>formula_from_ir\<close>; the count of nodes is passed on and returned.\<close>

function read_ir :: "(nat \<Rightarrow> bool) \<Rightarrow> (nat \<Rightarrow> bool) \<Rightarrow> (ir \<Rightarrow> utext) \<Rightarrow> ir \<Rightarrow> nat \<Rightarrow> nat \<Rightarrow> exc + formula \<times> nat" where
  "read_ir word dec shown row d seen =
     (if max_nodes < Suc seen \<or> max_depth < d then Inl (LogicLimit ''formula IR budget'')
      else case row of
        IRow entries \<Rightarrow>
          if \<not> fst ` set entries \<subseteq> {u ''op'', u ''args'', u ''name''} then Inl (ValueErr ''invalid formula IR'')
          else
            (let text = (\<lambda>key. case map_of entries (u key) of None \<Rightarrow> [] | Some v \<Rightarrow> ir_str shown v);
                 build = (\<lambda>args. mk_formula word dec (operation_of (text ''op'')) args (text ''name'')) in
             case (case map_of entries (u ''args'') of None \<Rightarrow> IList [] | Some c \<Rightarrow> c) of
               IList [] \<Rightarrow> rbind (build []) (\<lambda>f. Inr (f, Suc seen))
             | IList [a] \<Rightarrow> rbind (read_ir word dec shown a (Suc d) (Suc seen)) (\<lambda>(x, k).
                 rbind (build [x]) (\<lambda>f. Inr (f, k)))
             | IList [a, b] \<Rightarrow> rbind (read_ir word dec shown a (Suc d) (Suc seen)) (\<lambda>(x, k).
                 rbind (read_ir word dec shown b (Suc d) k) (\<lambda>(y, k').
                 rbind (build [x, y]) (\<lambda>f. Inr (f, k'))))
             | _ \<Rightarrow> Inl (ValueErr ''invalid formula children''))
      | _ \<Rightarrow> Inl (ValueErr ''invalid formula IR''))"
  by pat_completeness auto
termination read_ir
  by (relation "measure (\<lambda>(word, dec, shown, row, d, seen). Suc max_depth - d)") auto

declare read_ir.simps [simp del]

definition formula_from_ir :: "(nat \<Rightarrow> bool) \<Rightarrow> (nat \<Rightarrow> bool) \<Rightarrow> (ir \<Rightarrow> utext) \<Rightarrow> ir \<Rightarrow> exc + formula" where
  "formula_from_ir word dec shown value =
     rbind (read_ir word dec shown value 0 0) (\<lambda>(result, _).
     rbind (variables [result]) (\<lambda>_. Inr result))"

lemma operation_of_u: "s \<in> set operations \<Longrightarrow> operation_of (u s) = s"
proof -
  have "list_all (\<lambda>s. operation_of (u s) = s) operations" by code_simp
  then show "s \<in> set operations \<Longrightarrow> operation_of (u s) = s" by (simp add: list_all_iff)
qed

lemma ir_keys: "u ''op'' \<noteq> u ''args''" "u ''op'' \<noteq> u ''name''" "u ''args'' \<noteq> u ''name''"
  by code_simp+

lemmas ir_key_simps = ir_keys ir_keys [symmetric]

lemma mk_formula_constant:
  "mk_formula word dec ''true'' [] [] = Inr FTrue" "mk_formula word dec ''false'' [] [] = Inr FFalse"
  "mk_formula word dec ''not'' [a] [] = Inr (FNot a)"
  by (simp_all add: mk_formula_def)

lemma operations_in: "''var'' \<in> set operations" "''true'' \<in> set operations" "''false'' \<in> set operations"
  "''not'' \<in> set operations" "bop_name op \<in> set operations"
  by (cases op; simp add: operations_def bop_name_def)+

lemma read_to_ir:
  "proper word dec f \<Longrightarrow> read_ir word dec shown (formula_to_ir f) d seen =
     (if seen + nodes f \<le> max_nodes \<and> d + depth f \<le> max_depth then Inr (f, seen + nodes f)
      else Inl (LogicLimit ''formula IR budget''))"
proof (induction f arbitrary: d seen)
  case (FVar n)
  then have n: "mk_formula word dec ''var'' [] n = Inr (FVar n)" "n \<noteq> []"
  proof -
    have p: "proper_name word dec n" using FVar by (simp add: proper_def)
    then show "mk_formula word dec ''var'' [] n = Inr (FVar n)" using mk_formula_proper [of word dec n] by blast
    show "n \<noteq> []" using p by (auto simp: proper_name_def)
  qed
  show ?case using n
    by (subst read_ir.simps) (simp add: Let_def operation_of_u operations_in ir_key_simps Suc_le_eq)
next
  case FTrue
  show ?case
    by (subst read_ir.simps) (simp add: Let_def operation_of_u operations_in ir_key_simps mk_formula_constant Suc_le_eq)
next
  case FFalse
  show ?case
    by (subst read_ir.simps) (simp add: Let_def operation_of_u operations_in ir_key_simps mk_formula_constant Suc_le_eq)
next
  case (FNot a)
  then have "proper word dec a" by (simp add: proper_def)
  note IH = FNot.IH [OF this]
  show ?case
    by (subst read_ir.simps) (auto simp: Let_def operation_of_u operations_in ir_key_simps mk_formula_constant IH)
next
  case (FBin op a b)
  then have "proper word dec a" "proper word dec b" by (auto simp: proper_def)
  note IH = FBin.IH(1) [OF this(1)] FBin.IH(2) [OF this(2)]
  have mk: "mk_formula word dec (bop_name op) [x, y] [] = Inr (FBin op x y)" for x y
    by (cases op) (simp_all add: mk_formula_def bop_name_def bop_of_def)
  show ?case
    by (subst read_ir.simps) (auto simp: Let_def operation_of_u operations_in ir_key_simps mk IH)
qed

text \<open>\<open>formula_from_ir\<close> inverts \<open>to_dict\<close> exactly, within the node, depth and variable budgets.\<close>

theorem formula_ir_roundtrip:
  assumes "proper word dec f"
  shows "formula_from_ir word dec shown (formula_to_ir f) =
    (if max_nodes < nodes f \<or> max_depth < depth f then Inl (LogicLimit ''formula IR budget'')
     else rbind (variables [f]) (\<lambda>_. Inr f))"
  using read_to_ir [OF assms, of shown 0 0] by (auto simp: formula_from_ir_def)

section \<open>The analysis of a text\<close>

record analysis =
  an_ir :: ir
  an_variables :: "utext list"
  an_algebraic :: utext
  an_nnf :: "utext option"
  an_nnf_limit :: "string option"
  an_dnf :: minimized
  an_cnf :: minimized
  an_bdd :: diagram
  an_invariants :: entailed

datatype analyzed = Unsupported string | Supported analysis

text \<open>The normal form and, when its expansion budget is exceeded, the reason. Any other exception of
  \<open>to_nnf\<close> would pass.\<close>

definition nnf_report :: "formula \<Rightarrow> exc + utext option \<times> string option" where
  "nnf_report f = (case to_nnf f False 2048 of
     Inr g \<Rightarrow> Inr (Some (render_formula g), None)
   | Inl (LogicLimit s) \<Rightarrow> Inr (None, Some s)
   | Inl e \<Rightarrow> Inl e)"

text \<open>\<open>_analyze\<close>; None stands for a run that does not end, which \<open>minimize_formula\<close> could only have in its
  search loops.\<close>

definition analyze ::
    "(nat list \<Rightarrow> nat list) \<Rightarrow> (nat \<Rightarrow> bool) \<Rightarrow> (nat \<Rightarrow> bool) \<Rightarrow> (nat \<Rightarrow> bool) \<Rightarrow> utext \<Rightarrow> (exc + analysis) option" where
  "analyze arrange word dec space text =
     (case rbind (parse_formula word dec space text) (\<lambda>f. rbind (nnf_report f) (\<lambda>nnf.
             rbind (variables [f]) (\<lambda>names. Inr (f, nnf, names)))) of
        Inl e \<Rightarrow> Some (Inl e)
      | Inr (f, nnf, names) \<Rightarrow>
          (case minimize_formula arrange f FTrue ''dnf'' 20000 of
             None \<Rightarrow> None
           | Some (Inl e) \<Rightarrow> Some (Inl e)
           | Some (Inr dnf) \<Rightarrow>
               (case minimize_formula arrange f FTrue ''cnf'' 20000 of
                  None \<Rightarrow> None
                | Some (Inl e) \<Rightarrow> Some (Inl e)
                | Some (Inr cnf) \<Rightarrow>
                    Some (rbind (decision_diagram f) (\<lambda>bdd. rbind (detect_invariants f) (\<lambda>inva.
                      Inr \<lparr>an_ir = formula_to_ir f, an_variables = names,
                        an_algebraic = render_formula (simplify_formula f), an_nnf = fst nnf, an_nnf_limit = snd nnf,
                        an_dnf = dnf, an_cnf = cnf, an_bdd = bdd, an_invariants = inva\<rparr>))))))"

definition analyze_formula ::
    "(nat list \<Rightarrow> nat list) \<Rightarrow> (nat \<Rightarrow> bool) \<Rightarrow> (nat \<Rightarrow> bool) \<Rightarrow> (nat \<Rightarrow> bool) \<Rightarrow> utext \<Rightarrow> (exc + analyzed) option" where
  "analyze_formula arrange word dec space text =
     (case analyze arrange word dec space text of
        None \<Rightarrow> None
      | Some (Inr a) \<Rightarrow> Some (Inr (Supported a))
      | Some (Inl e) \<Rightarrow> Some (if is_value_error e then Inr (Unsupported (exc_text e)) else Inl e))"

definition limited :: "exc + 'a \<Rightarrow> bool" where
  "limited m = (case m of Inl e \<Rightarrow> (\<exists>s. e = LogicLimit s) | Inr x \<Rightarrow> True)"

lemma limited_simps [simp]: "limited (Inr x)" "limited (Inl e) = (\<exists>s. e = LogicLimit s)"
  by (simp_all add: limited_def)

lemma limited_rbind: "limited m \<Longrightarrow> (\<And>x. m = Inr x \<Longrightarrow> limited (f x)) \<Longrightarrow> limited (rbind m f)"
  by (cases m) auto

lemma visit_limited: "limited (visit f neg r)"
proof (induction f neg r rule: visit.induct)
  case (6 op a b neg r)
  show ?case
  proof (cases "op = Imp")
    case imp: False
    show ?thesis
    proof (cases "op = Iff \<or> op = Xor")
      case True
      show ?thesis unfolding visit.simps if_not_P [OF imp] if_P [OF True] Let_def
        by (intro limited_rbind 6(2) [OF imp True refl] 6(3) [OF imp True refl] 6(4) [OF imp True refl]
            6(5) [OF imp True refl] limited_simps(1); assumption)
    next
      case False
      show ?thesis unfolding visit.simps if_not_P [OF imp] if_not_P [OF False] Let_def
        by (intro limited_rbind 6(6) [OF imp False refl] 6(7) [OF imp False refl] limited_simps(1); assumption)
    qed
  qed (use 6(1) in simp)
qed auto

lemma visit_limit: "visit f neg r = Inl e \<Longrightarrow> \<exists>s. e = LogicLimit s"
  using visit_limited [of f neg r] by simp

lemma nnf_report_total: "variables [f] = Inr ns \<Longrightarrow> \<exists>r. nnf_report f = Inr r"
  by (cases "to_nnf f False 2048")
    (auto simp: nnf_report_def to_nnf_def dest!: visit_limit dest: rbind_InlD split: exc.splits)

lemma variables_with_true: "variables [f] = Inr ns \<Longrightarrow> variables [f, FTrue] = Inr ns"
  by (auto simp: variables_def Let_def max_nodes_def split: if_splits)

lemma detect_invariants_total: "variables [f] = Inr ns \<Longrightarrow> \<exists>r. detect_invariants f = Inr r"
proof -
  assume ns: "variables [f] = Inr ns"
  have d: "distinct ns" and v: "vars f = set ns" using variables_Inr [OF ns] by auto
  have "\<And>t. t \<in> set (flatten And f) \<Longrightarrow> vars t \<subseteq> set ns" using vars_flatten [of _ And f] v by blast
  then obtain kept gone where p: "prune ns (rev [0..<length (flatten And f)]) (flatten And f) [] = Inr (kept, gone)"
    using prune_correct [OF d, of "flatten And f" "[]" "[]"] by auto
  have sat: "\<exists>ms. satisfying f ns = Inr ms" using satisfying_value [OF d, of f] v by auto
  then obtain ms where "satisfying f ns = Inr ms" by blast
  then show ?thesis using ns p by (cases ms) (auto simp: detect_invariants_def Let_def)
qed

text \<open>A report is about the formula \<open>f\<close> when every part of it is: the dictionary is the formula's,
  the texts are the renderings of formulas with its meaning, the negation normal form is one (or its
  budget is named), the two minimised forms are a sum of products and a product of sums over the
  variables and mean the formula, and so do the diagram and the conjuncts that are left after dropping
  the redundant ones; the invariants say whether there is a model.\<close>

definition report_means :: "formula \<Rightarrow> analysis \<Rightarrow> bool" where
  "report_means f a \<longleftrightarrow> an_ir a = formula_to_ir f \<and> set (an_variables a) = vars f
     \<and> an_algebraic a = render_formula (simplify_formula f) \<and> sem (simplify_formula f) = sem f
     \<and> (case an_nnf a of
          Some t \<Rightarrow> an_nnf_limit a = None \<and> (\<exists>g. t = render_formula g \<and> is_nnf g \<and> sem g = sem f)
        | None \<Rightarrow> \<exists>s. an_nnf_limit a = Some s \<and> to_nnf f False 2048 = Inl (LogicLimit s))
     \<and> (\<exists>cs. min_formula (an_dnf a) = output_formula True (an_variables a) cs) \<and> sem (min_formula (an_dnf a)) = sem f
     \<and> (\<exists>cs. min_formula (an_cnf a) = output_formula False (an_variables a) cs) \<and> sem (min_formula (an_cnf a)) = sem f
     \<and> dd_eval (an_bdd a) = sem f
     \<and> (satisfiable (an_invariants a) \<longleftrightarrow> (\<exists>v. sem f v))
     \<and> (satisfiable (an_invariants a) \<longrightarrow> (\<exists>g. reduced (an_invariants a) = Some (render_formula g) \<and> sem g = sem f))"

lemma nnf_report_meaning:
  assumes "nnf_report f = Inr nnf"
  shows "case fst nnf of Some t \<Rightarrow> snd nnf = None \<and> (\<exists>g. t = render_formula g \<and> is_nnf g \<and> sem g = sem f)
    | None \<Rightarrow> \<exists>s. snd nnf = Some s \<and> to_nnf f False 2048 = Inl (LogicLimit s)"
proof (cases "to_nnf f False 2048")
  case (Inl e)
  with assms show ?thesis by (auto simp: nnf_report_def split: exc.splits)
next
  case (Inr g)
  then obtain r where "visit f False 2048 = Inr (g, r)" by (auto simp: to_nnf_def res_simps)
  then have "is_nnf g" "sem g = sem f" using nnf_visit sem_visit by (auto simp: fun_eq_iff)
  with assms Inr show ?thesis by (auto simp: nnf_report_def)
qed

lemma diagram_means: "variables [f] = Inr ns \<Longrightarrow> \<exists>b. decision_diagram f = Inr b \<and> dd_eval b = sem f"
  by (rule decision_diagram_table) (auto simp: dd_eval_def fun_eq_iff)

text \<open>C25: \<open>analyze_formula\<close> never raises and always ends. A text that is not a formula within the budgets is
  reported unsupported; otherwise every part of the report, the simplified, negation normal,
  disjunctive and conjunctive forms, the diagram and the reduced constraint, is of the parsed
  formula and has its meaning.\<close>

theorem analyze_formula_total:
  assumes "\<And>xs. set (arrange xs) = set xs"
  shows "(\<exists>s. analyze_formula arrange word dec space text = Some (Inr (Unsupported s)) \<and> parse_formula word dec space text \<in> range Inl)
    \<or> (\<exists>f a. analyze_formula arrange word dec space text = Some (Inr (Supported a)) \<and> parse_formula word dec space text = Inr f
        \<and> report_means f a)"
proof (cases "parse_formula word dec space text")
  case (Inl e)
  have "yields (\<lambda>f. True) (parse_formula word dec space text)"
    unfolding parse_formula_def Let_def
    by (auto intro!: yields_rbind [OF yields_tokens] yields_rbind [OF yields_expr(1)] yields_rbind [OF yields_variables])
  then show ?thesis using Inl by (simp add: analyze_formula_def analyze_def)
next
  case (Inr f)
  obtain ns where ns: "variables [f] = Inr ns"
    using Inr by (auto simp: parse_formula_def Let_def res_simps split: if_splits)
  obtain nnf where nnf: "nnf_report f = Inr nnf" using nnf_report_total [OF ns] by blast
  obtain d ds where d: "minimize_formula arrange f FTrue ''dnf'' 20000 = Some (Inr d)" "sem (min_formula d) = sem f"
    "min_formula d = output_formula True ns ds"
    by (rule minimize_formula_value [OF assms, of "''dnf''" f FTrue ns 20000])
      (use variables_with_true [OF ns] in \<open>auto simp: fun_eq_iff\<close>)
  obtain c cs where c: "minimize_formula arrange f FTrue ''cnf'' 20000 = Some (Inr c)" "sem (min_formula c) = sem f"
    "min_formula c = output_formula False ns cs"
    by (rule minimize_formula_value [OF assms, of "''cnf''" f FTrue ns 20000])
      (use variables_with_true [OF ns] in \<open>auto simp: fun_eq_iff\<close>)
  obtain b where b: "decision_diagram f = Inr b" "dd_eval b = sem f" using diagram_means [OF ns] by blast
  obtain i where i: "detect_invariants f = Inr i" using detect_invariants_total [OF ns] by blast
  let ?a = "\<lparr>an_ir = formula_to_ir f, an_variables = ns, an_algebraic = render_formula (simplify_formula f),
    an_nnf = fst nnf, an_nnf_limit = snd nnf, an_dnf = d, an_cnf = c, an_bdd = b, an_invariants = i\<rparr>"
  have "analyze_formula arrange word dec space text = Some (Inr (Supported ?a))"
    using Inr ns nnf d(1) c(1) b(1) i by (simp add: analyze_formula_def analyze_def split: prod.splits)
  moreover have "satisfiable i \<longrightarrow> (\<exists>g. reduced i = Some (render_formula g) \<and> sem g = sem f)"
    using detect_invariants_reduced(2) [OF i] by (auto simp: fun_eq_iff)
  then have "report_means f ?a"
    unfolding report_means_def
    using variables_Inr(1) [OF ns] nnf_report_meaning [OF nnf] d(2,3) c(2,3) b(2) detect_invariants_reduced(1) [OF i]
    by (cases "fst nnf") (simp_all add: ext [OF sem_simplify] exI [of _ ds] exI [of _ cs])
  ultimately show ?thesis using Inr by blast
qed

section \<open>Examples\<close>

abbreviation ascii_letter :: "nat \<Rightarrow> bool" where
  "ascii_letter c \<equiv> 65 \<le> c \<and> c \<le> 90 \<or> 97 \<le> c \<and> c \<le> 122"

lemma ascii_classes: "char_classes ascii_letter (\<lambda>c. False) (\<lambda>c. c = 32)"
  by (auto simp: char_classes_def single_tokens_def u_def)

definition demo_parity :: formula where
  "demo_parity = FBin And (FBin Xor (FVar [112]) (FVar [113])) (FNot (FVar [112]))"

lemma demo_parity_proper: "proper ascii_letter (\<lambda>c. False) demo_parity"
  by (auto simp: proper_def proper_name_def demo_parity_def u_def)

theorem parse_render_witness:
  "parse_formula ascii_letter (\<lambda>c. False) (\<lambda>c. c = 32) (render_formula demo_parity)
     = Inr (FBin And (FNot (FBin Iff (FVar [112]) (FVar [113]))) (FNot (FVar [112])))"
  unfolding parse_render [OF ascii_classes demo_parity_proper]
  by (simp add: demo_parity_def max_nodes_def max_depth_def op_token_def variables_def Let_def max_variables_def u_def)

theorem formula_ir_roundtrip_witness:
  "formula_from_ir ascii_letter (\<lambda>c. False) (\<lambda>v. []) (formula_to_ir demo_parity) = Inr demo_parity"
  unfolding formula_ir_roundtrip [OF demo_parity_proper]
  by (simp add: demo_parity_def max_nodes_def max_depth_def variables_def Let_def max_variables_def)

text \<open>The text \<open>!p\<close> is supported.\<close>

theorem analyze_formula_total_witness:
  "\<exists>a. analyze_formula rev ascii_letter (\<lambda>c. False) (\<lambda>c. c = 32) [33, 112] = Some (Inr (Supported a))
     \<and> report_means (FNot (FVar [112])) a"
proof -
  have "parse_formula ascii_letter (\<lambda>c. False) (\<lambda>c. c = 32) [33, 112] = Inr (FNot (FVar [112]))"
    by (simp add: parse_formula_def strip_text_def tokens_from.simps expr.simps operand.simps single_tokens_def
        max_nodes_def max_depth_def max_variables_def mk_formula_def variables_def Let_def u_def)
  then show ?thesis using analyze_formula_total [of rev ascii_letter "\<lambda>c. False" "\<lambda>c. c = 32" "[33, 112]"] by auto
qed

end
