(* ===== verification/Affine_Nullspace.thy ===== *)
theory Affine_Nullspace
  imports Logic_Decide
begin

text \<open>
  \<open>nullspace_gf2\<close> of \<open>jevops/affine_invariants.py\<close>: Gauss-Jordan elimination over GF(2) on rows packed
  into integers, and the basis of the null space read off the reduced rows. The basis is proved to
  generate every solution exactly once.
\<close>

unbundle bit_operations_syntax

section \<open>The elimination\<close>

definition first_unique :: "'a list \<Rightarrow> 'a list" where
  "first_unique xs = fold (\<lambda>x acc. if x \<in> set acc then acc else acc @ [x]) xs []"

definition swap_rows :: "nat \<Rightarrow> nat \<Rightarrow> int list \<Rightarrow> int list" where
  "swap_rows i j m = m[i := m ! j, j := m ! i]"

definition clear_column :: "nat \<Rightarrow> nat \<Rightarrow> int list \<Rightarrow> int list" where
  "clear_column rank c m = map (\<lambda>i. if i \<noteq> rank \<and> bit (m ! i) c then m ! i XOR m ! rank else m ! i) [0..<length m]"

primrec eliminate :: "nat list \<Rightarrow> int list \<Rightarrow> nat \<Rightarrow> nat list \<Rightarrow> int list \<times> nat list" where
  "eliminate [] m rank pivots = (m, pivots)"
| "eliminate (c # cs) m rank pivots =
     (case find (\<lambda>i. bit (m ! i) c) [rank..<length m] of
        None \<Rightarrow> eliminate cs m rank pivots
      | Some p \<Rightarrow> eliminate cs (clear_column rank c (swap_rows rank p m)) (Suc rank) (pivots @ [c]))"

definition null_vector :: "int list \<Rightarrow> nat list \<Rightarrow> nat \<Rightarrow> int" where
  "null_vector m pivots free =
     fold (\<lambda>(i, p) vector. if bit (m ! i) free then vector OR push_bit p 1 else vector) (enumerate 0 pivots) (push_bit free 1)"

definition nullspace_gf2 :: "int list \<Rightarrow> int \<Rightarrow> exc + int list" where
  "nullspace_gf2 rows columns =
     (if \<not> (1 \<le> columns \<and> columns \<le> 9) \<or> 256 < length rows then Inl (ValueErr ''GF(2) matrix exceeds finite-state budget'')
      else if \<not> (\<forall>row \<in> set rows. 0 \<le> row \<and> row < push_bit (nat columns) 1) then Inl (ValueErr ''invalid GF(2) row'')
      else
        (let (m, pivots) = eliminate [0..<nat columns] (first_unique rows) 0 [] in
         Inr (map (null_vector m pivots) (filter (\<lambda>c. c \<notin> set pivots) [0..<nat columns]))))"

section \<open>Products over GF(2)\<close>

text \<open>The scalar product of the first \<open>n\<close> bits.\<close>

primrec dot :: "nat \<Rightarrow> int \<Rightarrow> int \<Rightarrow> bool" where
  "dot 0 r v = False"
| "dot (Suc n) r v = (dot n r v \<noteq> (bit r n \<and> bit v n))"

definition xor_all :: "int list \<Rightarrow> int" where
  "xor_all xs = foldr (XOR) xs 0"

definition solutions :: "nat \<Rightarrow> int set \<Rightarrow> int set" where
  "solutions n R = {v. 0 \<le> v \<and> v < 2 ^ n \<and> (\<forall>r \<in> R. \<not> dot n r v)}"

lemma xor_all_simps [simp]: "xor_all [] = 0" "xor_all (x # xs) = x XOR xor_all xs"
  by (simp_all add: xor_all_def)

lemma dot_xor_left: "dot n (a XOR b) v = (dot n a v \<noteq> dot n b v)"
  by (induction n) (auto simp: bit_xor_iff)

lemma dot_xor_right: "dot n r (a XOR b) = (dot n r a \<noteq> dot n r b)"
  by (induction n) (auto simp: bit_xor_iff)

lemma dot_zero [simp]: "dot n r 0 = False"
  by (induction n) auto

text \<open>When the two sides meet in one position only, the product is that position.\<close>

lemma dot_none: "(\<And>c. c < n \<Longrightarrow> \<not> (bit r c \<and> bit v c)) \<Longrightarrow> \<not> dot n r v"
  by (induction n) auto

lemma dot_only:
  "(\<And>c. c < n \<Longrightarrow> c \<noteq> p \<Longrightarrow> \<not> (bit r c \<and> bit v c)) \<Longrightarrow> p < n \<Longrightarrow> dot n r v = (bit r p \<and> bit v p)"
proof (induction n)
  case (Suc n)
  show ?case
  proof (cases "p = n")
    case True
    then show ?thesis using Suc.prems dot_none [of n r v] by auto
  next
    case False
    then show ?thesis using Suc by simp
  qed
qed simp

lemma bit_range: "0 \<le> (v::int) \<and> v < 2 ^ n \<longleftrightarrow> (\<forall>c \<ge> n. \<not> bit v c)"
proof
  assume "0 \<le> v \<and> v < 2 ^ n"
  then have "take_bit n v = v" by (simp add: take_bit_int_eq_self)
  then show "\<forall>c \<ge> n. \<not> bit v c" by (metis bit_take_bit_iff leD)
next
  assume "\<forall>c \<ge> n. \<not> bit v c"
  then have "take_bit n v = v" by (intro bit_eqI) (metis bit_take_bit_iff not_less)
  then show "0 \<le> v \<and> v < 2 ^ n" by (metis take_bit_int_less_exp take_bit_nonnegative)
qed

section \<open>Invariants of the elimination\<close>

lemma set_first_unique: "set (first_unique xs) = set xs"
proof -
  have "set (fold (\<lambda>x acc. if x \<in> set acc then acc else acc @ [x]) xs acc) = set acc \<union> set xs" for acc
    by (induction xs arbitrary: acc) auto
  then show ?thesis by (simp add: first_unique_def)
qed

text \<open>Up to column \<open>c\<close>: row \<open>i\<close> is the only one with the bit of the \<open>i\<close>-th pivot, and the rows below the
  rank are empty.\<close>

definition reduced_to :: "nat \<Rightarrow> int list \<Rightarrow> nat list \<Rightarrow> bool" where
  "reduced_to c m pivots = (length pivots \<le> length m \<and> distinct pivots \<and> set pivots \<subseteq> {..<c}
     \<and> (\<forall>j < length pivots. \<forall>i < length m. bit (m ! i) (pivots ! j) = (i = j))
     \<and> (\<forall>i < length m. length pivots \<le> i \<longrightarrow> (\<forall>d < c. \<not> bit (m ! i) d)))"

definition orthogonal :: "nat \<Rightarrow> int list \<Rightarrow> int \<Rightarrow> bool" where
  "orthogonal n m v = (\<forall>r \<in> set m. \<not> dot n r v)"

lemma length_clear [simp]: "length (clear_column rank c m) = length m"
  by (simp add: clear_column_def)

lemma length_swap [simp]: "length (swap_rows i j m) = length m"
  by (simp add: swap_rows_def)

lemma swap_nth: "i < length m \<Longrightarrow> j < length m \<Longrightarrow> k < length m \<Longrightarrow>
    swap_rows i j m ! k = (if k = i then m ! j else if k = j then m ! i else m ! k)"
  by (auto simp: swap_rows_def nth_list_update)

lemma clear_nth: "i < length m \<Longrightarrow>
    clear_column rank c m ! i = (if i \<noteq> rank \<and> bit (m ! i) c then m ! i XOR m ! rank else m ! i)"
  by (simp add: clear_column_def)

lemma swap_orthogonal: "i < length m \<Longrightarrow> j < length m \<Longrightarrow> orthogonal n (swap_rows i j m) v = orthogonal n m v"
  by (simp add: orthogonal_def swap_rows_def set_swap)

lemma clear_orthogonal:
  assumes "rank < length m"
  shows "orthogonal n (clear_column rank c m) v = orthogonal n m v"
proof -
  let ?m = "clear_column rank c m"
  have rank: "?m ! rank = m ! rank" using assms by (simp add: clear_nth)
  have "(\<forall>i < length m. \<not> dot n (?m ! i) v) \<longleftrightarrow> (\<forall>i < length m. \<not> dot n (m ! i) v)"
  proof (cases "dot n (m ! rank) v")
    case True
    then show ?thesis using assms rank by metis
  next
    case False
    then have "dot n (?m ! i) v = dot n (m ! i) v" if "i < length m" for i
      using that by (auto simp: clear_nth dot_xor_left)
    then show ?thesis by simp
  qed
  then show ?thesis by (simp add: orthogonal_def all_set_conv_all_nth)
qed

lemma reduced_step:
  assumes R: "reduced_to c m pivots" and p: "length pivots \<le> p" "p < length m" "bit (m ! p) c"
  shows "reduced_to (Suc c) (clear_column (length pivots) c (swap_rows (length pivots) p m)) (pivots @ [c])"
proof -
  let ?k = "length pivots"
  let ?s = "swap_rows ?k p m"
  let ?t = "clear_column ?k c ?s"
  have k: "?k < length m" using p by simp
  have s: "?s ! i = (if i = ?k then m ! p else if i = p then m ! ?k else m ! i)" if "i < length m" for i
    using swap_nth [OF k p(2) that] .
  have t: "?t ! i = (if i \<noteq> ?k \<and> bit (?s ! i) c then ?s ! i XOR ?s ! ?k else ?s ! i)" if "i < length m" for i
    using that clear_nth [of i ?s] by simp
  have sk: "bit (?s ! ?k) c" using s [OF k] p(3) by simp
  have low: "\<not> bit (m ! i) d" if "i < length m" "?k \<le> i" "d < c" for i d
    using R that by (simp add: reduced_to_def)
  have old: "bit (m ! i) (pivots ! j) = (i = j)" if "i < length m" "j < ?k" for i j
    using R that by (simp add: reduced_to_def)
  have sold: "bit (?s ! i) (pivots ! j) = (i = j)" if "i < length m" "j < ?k" for i j
    using that old s p k by auto
  have slow: "\<not> bit (?s ! i) d" if "i < length m" "?k \<le> i" "d < c" for i d
    using that low s p k by auto
  have told: "bit (?t ! i) (pivots ! j) = (i = j)" if "i < length m" "j < ?k" for i j
    using that sold k by (auto simp: t bit_xor_iff)
  have tnew: "bit (?t ! i) c = (i = ?k)" if "i < length m" for i
    using that sk k by (auto simp: t bit_xor_iff)
  have tlow: "\<not> bit (?t ! i) d" if "i < length m" "Suc ?k \<le> i" "d < Suc c" for i d
  proof (cases "d = c")
    case True
    then show ?thesis using tnew [OF that(1)] that(2) by simp
  next
    case False
    then show ?thesis using that slow k by (auto simp: t bit_xor_iff)
  qed
  have "c \<notin> set pivots" "distinct pivots" "set pivots \<subseteq> {..<Suc c}" using R by (auto simp: reduced_to_def)
  then show ?thesis using k told tnew tlow by (auto simp: reduced_to_def nth_append less_Suc_eq)
qed

lemma eliminate_result:
  "eliminate [c..<n] m (length pivots) pivots = (m', pivots') \<Longrightarrow> c \<le> n \<Longrightarrow> reduced_to c m pivots \<Longrightarrow>
    reduced_to n m' pivots' \<and> (\<forall>v. orthogonal n m' v = orthogonal n m v)"
proof (induction "n - c" arbitrary: c m pivots)
  case 0
  then show ?case by simp
next
  case (Suc k)
  then have c: "c < n" by simp
  have split: "[c..<n] = c # [Suc c..<n]" using c by (simp add: upt_conv_Cons)
  show ?case
  proof (cases "find (\<lambda>i. bit (m ! i) c) [length pivots..<length m]")
    case None
    then have "\<forall>i < length m. length pivots \<le> i \<longrightarrow> \<not> bit (m ! i) c" by (auto simp: find_None_iff)
    then have "reduced_to (Suc c) m pivots" using Suc.prems(3) by (auto simp: reduced_to_def less_Suc_eq)
    moreover have "eliminate [Suc c..<n] m (length pivots) pivots = (m', pivots')" using Suc.prems(1) None split by simp
    ultimately show ?thesis using Suc.hyps(2) c by (intro Suc.hyps(1)) auto
  next
    case (Some p)
    then have p: "length pivots \<le> p" "p < length m" "bit (m ! p) c" using find_SomeD [OF Some] by auto
    let ?t = "clear_column (length pivots) c (swap_rows (length pivots) p m)"
    have "eliminate [Suc c..<n] ?t (length (pivots @ [c])) (pivots @ [c]) = (m', pivots')"
      using Suc.prems(1) Some split by simp
    from Suc.hyps(1) [OF _ this _ reduced_step [OF Suc.prems(3) p]] Suc.hyps(2) c
    have "reduced_to n m' pivots' \<and> (\<forall>v. orthogonal n m' v = orthogonal n ?t v)" by simp
    moreover have "orthogonal n ?t v = orthogonal n m v" for v
      using p by (simp add: clear_orthogonal swap_orthogonal)
    ultimately show ?thesis by simp
  qed
qed

section \<open>The basis\<close>

lemma null_vector_bits:
  assumes "distinct pivots" "f \<notin> set pivots"
  shows "bit (null_vector m pivots f) c \<longleftrightarrow> c = f \<or> (\<exists>i < length pivots. pivots ! i = c \<and> bit (m ! i) f)"
proof -
  have "bit (fold (\<lambda>(i, p) vector. if bit (m ! i) f then vector OR push_bit p 1 else vector) ips (x::int)) c
      \<longleftrightarrow> bit x c \<or> (\<exists>i. (i, c) \<in> set ips \<and> bit (m ! i) f)" for ips x
  proof (induction ips arbitrary: x)
    case (Cons ip ips)
    obtain i p where ip: "ip = (i, p)" by (cases ip)
    have "bit (if bit (m ! i) f then x OR push_bit p 1 else x) c \<longleftrightarrow> bit x c \<or> (p = c \<and> bit (m ! i) f)"
      by (auto simp: bit_or_iff bit_exp_iff)
    then show ?case using Cons.IH by (auto simp: ip)
  qed simp
  then show ?thesis
    by (auto simp: null_vector_def bit_exp_iff in_set_enumerate_eq)
qed

text \<open>Every basis vector is orthogonal to the reduced rows: row \<open>i\<close> meets it in its pivot and in the free
  column, both or neither.\<close>

lemma null_vector_orthogonal:
  assumes R: "reduced_to n m pivots" and f: "f < n" "f \<notin> set pivots"
  shows "orthogonal n m (null_vector m pivots f)"
  unfolding orthogonal_def all_set_conv_all_nth
proof (intro allI impI)
  fix i assume i: "i < length m"
  let ?v = "null_vector m pivots f"
  have d: "distinct pivots" using R by (simp add: reduced_to_def)
  note bits = null_vector_bits [OF d f(2)]
  show "\<not> dot n (m ! i) ?v"
  proof (cases "i < length pivots")
    case False
    then show ?thesis using R i by (intro dot_none) (auto simp: reduced_to_def)
  next
    case True
    let ?p = "pivots ! i"
    have "?p \<in> set pivots" using True by simp
    then have p: "?p < n" "?p \<noteq> f" using R f(2) by (auto simp: reduced_to_def)
    have only: "\<not> (bit (m ! i) c \<and> bit ?v c)" if "c \<noteq> ?p" "c \<noteq> f" for c
      using that R i unfolding bits by (auto simp: reduced_to_def)
    have split: "?v = (?v XOR push_bit f 1) XOR push_bit f 1" by (simp add: xor.assoc)
    have "dot n (m ! i) (?v XOR push_bit f 1) = (bit (m ! i) ?p \<and> bit (?v XOR push_bit f 1) ?p)"
      using only bits [of m f] p by (intro dot_only) (auto simp: bit_xor_iff bit_exp_iff)
    moreover have "dot n (m ! i) (push_bit f 1) = bit (m ! i) f"
      using f(1) by (subst dot_only [where p = f]) (auto simp: bit_exp_iff)
    moreover have "bit (m ! i) ?p" using R i True by (simp add: reduced_to_def)
    moreover have "bit (?v XOR push_bit f 1) ?p = bit (m ! i) f"
      using p bits [of m ?p] True d by (auto simp: bit_xor_iff bit_exp_iff nth_eq_iff_index_eq)
    ultimately show ?thesis by (subst split) (simp only: dot_xor_right, simp)
  qed
qed

text \<open>A solution without free bits is zero.\<close>

lemma solution_from_free:
  assumes R: "reduced_to n m pivots" and o: "orthogonal n m z"
    and free: "\<And>c. c < n \<Longrightarrow> c \<notin> set pivots \<Longrightarrow> \<not> bit z c"
  shows "c < n \<Longrightarrow> \<not> bit z c"
proof (cases "c \<in> set pivots")
  case True
  then obtain i where i: "i < length pivots" "pivots ! i = c" by (auto simp: in_set_conv_nth)
  have im: "i < length m" using i(1) R by (simp add: reduced_to_def)
  assume c: "c < n"
  have "dot n (m ! i) z = (bit (m ! i) c \<and> bit z c)"
  proof (rule dot_only [OF _ c])
    fix d assume d: "d < n" "d \<noteq> c"
    show "\<not> (bit (m ! i) d \<and> bit z d)"
    proof (cases "d \<in> set pivots")
      case True
      then obtain j where "j < length pivots" "pivots ! j = d" by (auto simp: in_set_conv_nth)
      then show ?thesis using R im i d(2) by (auto simp: reduced_to_def)
    qed (use free d in simp)
  qed
  moreover have "bit (m ! i) c" using R im i by (auto simp: reduced_to_def)
  moreover have "\<not> dot n (m ! i) z" using o im by (simp add: orthogonal_def)
  ultimately show ?thesis by simp
qed (use free in blast)

lemma orthogonal_xor_all: "(\<And>x. x \<in> set xs \<Longrightarrow> orthogonal n m x) \<Longrightarrow> orthogonal n m (xor_all xs)"
  by (induction xs) (auto simp: orthogonal_def dot_xor_right)

lemma bit_xor_all_unique:
  "distinct xs \<Longrightarrow> (\<And>x. x \<in> set xs \<Longrightarrow> bit x c = (x = y)) \<Longrightarrow> bit (xor_all xs) c = (y \<in> set xs)"
  by (induction xs) (auto simp: bit_xor_iff)

lemma filter_in_subseqs: "map f (filter P xs) \<in> set (subseqs (map f xs))"
  by (induction xs) (auto simp: Let_def)

lemma empty_subseqs: "[] \<in> set (subseqs xs)"
  by (induction xs) (auto simp: Let_def)

lemma single_subseqs: "x \<in> set xs \<Longrightarrow> [x] \<in> set (subseqs xs)"
  by (induction xs) (auto simp: Let_def empty_subseqs)

lemma nullspace_generates:
  assumes "nullspace_gf2 rows columns = Inr basis"
  shows "bij_betw xor_all (set (subseqs basis)) (solutions (nat columns) (set rows))"
proof -
  define n where "n = nat columns"
  obtain m pivots where e: "eliminate [0..<n] (first_unique rows) 0 [] = (m, pivots)" by (metis prod.exhaust)
  define free where "free = filter (\<lambda>c. c \<notin> set pivots) [0..<n]"
  define nv where "nv = null_vector m pivots"
  have basis: "basis = map nv free"
    using assms e by (auto simp: nullspace_gf2_def Let_def n_def free_def nv_def split: if_splits)
  have "reduced_to 0 (first_unique rows) []" by (simp add: reduced_to_def)
  from eliminate_result [of 0 n "first_unique rows" "[]" m pivots] e this
  have R: "reduced_to n m pivots" and O: "orthogonal n m v = orthogonal n (first_unique rows) v" for v by auto
  have d: "distinct pivots" and pn: "set pivots \<subseteq> {..<n}" using R by (auto simp: reduced_to_def)
  have free_set: "f \<in> set free \<longleftrightarrow> f < n \<and> f \<notin> set pivots" for f by (auto simp: free_def)
  have at: "bit (nv f) g = (g = f)" if "f \<in> set free" "g \<in> set free" for f g
    using that null_vector_bits [OF d, of f m g] by (auto simp: free_set nv_def)
  have inj: "inj_on nv (set free)" using at by (metis inj_onI)
  have db: "distinct basis" unfolding basis using inj by (simp add: distinct_map free_def)
  have low: "\<not> bit (nv f) c" if "f \<in> set free" "c \<ge> n" for f c
    using that null_vector_bits [OF d, of f m c] pn by (auto simp: free_set nv_def) (metis lessThan_iff nth_mem not_le subsetD)
  have sub: "xs \<in> set (subseqs basis) \<Longrightarrow> set xs \<subseteq> set basis \<and> distinct xs" for xs
    using subseqs_powset [of basis] subseqs_distinctD [OF _ db, of xs] by blast
  have bits: "bit (xor_all xs) g \<longleftrightarrow> nv g \<in> set xs" if "xs \<in> set (subseqs basis)" "g \<in> set free" for xs g
  proof (rule bit_xor_all_unique)
    show "distinct xs" using sub that by blast
    fix x assume "x \<in> set xs"
    moreover have "set xs \<subseteq> set basis" using sub that by blast
    ultimately have "x \<in> nv ` set free" by (auto simp: basis)
    then obtain f where "x = nv f" "f \<in> set free" by blast
    then show "bit x g = (x = nv g)" using at [OF _ that(2)] inj_on_eq_iff [OF inj _ that(2)] by auto
  qed
  have sol: "v \<in> solutions n (set rows) \<longleftrightarrow> (\<forall>c \<ge> n. \<not> bit v c) \<and> orthogonal n m v" for v
  proof -
    have "orthogonal n m v \<longleftrightarrow> (\<forall>r \<in> set rows. \<not> dot n r v)"
      using O [of v] by (simp add: orthogonal_def set_first_unique)
    then show ?thesis using bit_range [of v n] by (auto simp: solutions_def)
  qed
  have into: "xor_all xs \<in> solutions n (set rows)" if "xs \<in> set (subseqs basis)" for xs
  proof -
    have mem: "\<exists>f \<in> set free. x = nv f" if "x \<in> set xs" for x
      using that sub [OF \<open>xs \<in> set (subseqs basis)\<close>] by (auto simp: basis)
    have "orthogonal n m (xor_all xs)"
    proof (rule orthogonal_xor_all)
      fix x assume "x \<in> set xs"
      then obtain f where "f \<in> set free" "x = nv f" using mem by blast
      then show "orthogonal n m x" using null_vector_orthogonal [OF R] by (simp add: free_set nv_def)
    qed
    moreover have "\<not> bit (xor_all xs) c" if "c \<ge> n" for c
      using mem low [OF _ that] by (induction xs) (auto simp: bit_xor_iff)
    ultimately show ?thesis by (simp add: sol)
  qed
  have "inj_on xor_all (set (subseqs basis))"
  proof (rule inj_onI)
    fix xs ys assume xs: "xs \<in> set (subseqs basis)" and ys: "ys \<in> set (subseqs basis)" and eq: "xor_all xs = xor_all ys"
    have "nv g \<in> set xs \<longleftrightarrow> nv g \<in> set ys" if "g \<in> set free" for g
      using bits [OF xs that] bits [OF ys that] eq by simp
    then have "set xs = set ys" using sub [OF xs] sub [OF ys] by (auto simp: basis)
    then show "xs = ys" using xs ys db distinct_set_subseqs inj_on_eq_iff [of set "set (subseqs basis)"]
      by (metis distinct_map)
  qed
  moreover have "solutions n (set rows) \<subseteq> xor_all ` set (subseqs basis)"
  proof
    fix v assume v: "v \<in> solutions n (set rows)"
    define xs where "xs = map nv (filter (\<lambda>f. bit v f) free)"
    have xs: "xs \<in> set (subseqs basis)"
      unfolding xs_def basis by (rule filter_in_subseqs)
    have "bit (xor_all xs XOR v) c = False" for c
    proof (cases "c < n")
      case False
      then show ?thesis using into [OF xs] v by (auto simp: sol bit_xor_iff)
    next
      case True
      have "orthogonal n m (xor_all xs XOR v)"
        using into [OF xs] v by (auto simp: sol orthogonal_def dot_xor_right)
      moreover have "\<not> bit (xor_all xs XOR v) g" if g: "g < n" "g \<notin> set pivots" for g
      proof -
        have gf: "g \<in> set free" using g by (simp add: free_set)
        have "nv g \<in> set xs \<longleftrightarrow> bit v g" using gf inj by (auto simp: xs_def inj_on_eq_iff)
        then show ?thesis using bits [OF xs gf] by (simp add: bit_xor_iff)
      qed
      ultimately show ?thesis using solution_from_free [OF R _ _ True] by blast
    qed
    then have "xor_all xs = v" by (intro bit_eqI) (simp add: bit_xor_iff)
    then show "v \<in> xor_all ` set (subseqs basis)" using xs by blast
  qed
  ultimately show ?thesis using into by (auto simp: bij_betw_def n_def)
qed

lemma nullspace_image:
  "nullspace_gf2 rows columns = Inr basis \<Longrightarrow> xor_all ` set (subseqs basis) = solutions (nat columns) (set rows)"
  using nullspace_generates by (auto simp: bij_betw_def)

text \<open>\<open>nullspace_gf2\<close> returns a basis of the null space of the rows over GF(2): exclusive or maps the
  sublists of the result one-to-one onto the vectors of \<open>columns\<close> bits orthogonal to every row.\<close>

theorem nullspace_basis:
  assumes "nullspace_gf2 rows columns = Inr basis"
  shows "bij_betw xor_all (set (subseqs basis)) (solutions (nat columns) (set rows))"
  using nullspace_generates [OF assms] .

text \<open>The rows 011 and 110 have the null space generated by 111.\<close>

theorem nullspace_basis_witness:
  "nullspace_gf2 [3, 6] 3 = Inr [7] \<and> bij_betw xor_all {[7], []} (solutions 3 {3, 6})"
proof -
  have e: "nullspace_gf2 [3, 6] 3 = Inr [7]" by code_simp
  show ?thesis using nullspace_basis [OF e] e by (simp add: insert_commute)
qed

end
