(* ===== verification/Inv_Houdini.thy ===== *)
theory Inv_Houdini
  imports Logic_Decide
begin

text \<open>
  Invariant inference over explicit Boolean systems (\<open>jevops/invariant_inference.py\<close>): the checks of
  \<open>_system\<close>, the Houdini loop of \<open>infer_invariants\<close> with its sequential removal of redundant
  conjuncts, and the exact reachability of \<open>reachable_states\<close>. Dictionaries are association lists.
\<close>

type_synonym bstate = "(utext \<times> bool) list"

section \<open>The system\<close>

text \<open>\<open>{**a, **{state_pairs[k]: v for k, v in b.items()}}\<close>: the entries of \<open>b\<close>, renamed, hide those of \<open>a\<close>.\<close>

definition merge_states :: "(utext \<times> utext) list \<Rightarrow> bstate \<Rightarrow> bstate \<Rightarrow> exc + bstate" where
  "merge_states pairs a b =
     rbind (rmap (\<lambda>(k, v). case map_of pairs k of None \<Rightarrow> Inl KeyErr | Some n \<Rightarrow> Inr (n, v)) b) (\<lambda>b'. Inr (b' @ a))"

primrec filter_m :: "('a \<Rightarrow> exc + bool) \<Rightarrow> 'a list \<Rightarrow> exc + 'a list" where
  "filter_m p [] = Inr []"
| "filter_m p (x # xs) = rbind (p x) (\<lambda>b. rbind (filter_m p xs) (\<lambda>ys. Inr (if b then x # ys else ys)))"

definition all_states :: "utext list \<Rightarrow> bstate list" where
  "all_states names = map (\<lambda>i. assignment_items i names) [0..<2 ^ length names]"

definition system ::
    "(nat \<Rightarrow> bool) \<Rightarrow> (nat \<Rightarrow> bool) \<Rightarrow> formula \<Rightarrow> formula \<Rightarrow> formula list \<Rightarrow> (utext \<times> utext) list
      \<Rightarrow> exc + bstate list \<times> (bstate \<times> bstate) list" where
  "system word dec ini tran cands pairs =
     (let current = map fst pairs; future = remdups (map snd pairs) in
      if 32 < length cands then Inl (LogicLimit ''at most 32 invariant candidates'')
      else if current = [] \<or> set current \<inter> set future \<noteq> {} \<or> length current \<noteq> length future
        then Inl (ValueErr ''state names must be nonempty, injective and disjoint'')
      else if max_variables < length (current @ future) then Inl (LogicLimit ''finite invariant transition budget'')
      else
        rbind (rmap (\<lambda>n. mk_formula word dec ''var'' [] n) (current @ future)) (\<lambda>_.
        rbind (variables (ini # cands)) (\<lambda>used.
        if \<not> set used \<subseteq> set current then Inl (ValueErr ''initial state and candidates must use current variables'')
        else rbind (variables [tran]) (\<lambda>moved.
        if \<not> set moved \<subseteq> set current \<union> set future then Inl (ValueErr ''undeclared transition variable'')
        else
          (let states = all_states (sort current) in
           rbind (filter_m (\<lambda>(a, b). rbind (merge_states pairs a b) (\<lambda>m. evaluate tran (map_of m)))
             (List.product states states)) (\<lambda>edges.
           rbind (filter_m (\<lambda>a. evaluate ini (map_of a)) states) (\<lambda>starts.
           Inr (starts, edges))))))))"

section \<open>The Houdini loop\<close>

text \<open>Every formula the loop evaluates uses the current names only, which \<open>system\<close> has checked, so
  evaluation cannot raise here and a truth value is all there is to it.\<close>

definition holds :: "formula \<Rightarrow> bstate \<Rightarrow> bool" where
  "holds f a = (evaluate f (map_of a) = Inr True)"

datatype failure_reason = Initiation bstate | Preservation bstate bstate

record failure =
  failed_index :: nat
  failed_round :: nat
  failed_reason :: failure_reason

definition failure_of ::
    "bstate list \<Rightarrow> (bstate \<times> bstate) list \<Rightarrow> formula list \<Rightarrow> nat list \<Rightarrow> nat \<Rightarrow> failure_reason option" where
  "failure_of starts edges cands active i =
     (case find (\<lambda>a. \<not> holds (cands ! i) a) starts of
        Some a \<Rightarrow> Some (Initiation a)
      | None \<Rightarrow>
         (case find (\<lambda>(a, b). (\<forall>j \<in> set active. holds (cands ! j) a) \<and> \<not> holds (cands ! i) b) edges of
            Some (a, b) \<Rightarrow> Some (Preservation a b)
          | None \<Rightarrow> None))"

definition round_failures ::
    "bstate list \<Rightarrow> (bstate \<times> bstate) list \<Rightarrow> formula list \<Rightarrow> nat list \<Rightarrow> nat \<Rightarrow> failure list" where
  "round_failures starts edges cands active r =
     concat (map (\<lambda>i. case failure_of starts edges cands active i of
         None \<Rightarrow> [] | Some why \<Rightarrow> [\<lparr>failed_index = i, failed_round = r, failed_reason = why\<rparr>]) active)"

function houdini ::
    "bstate list \<Rightarrow> (bstate \<times> bstate) list \<Rightarrow> formula list \<Rightarrow> nat list \<Rightarrow> failure list \<Rightarrow> nat \<Rightarrow> nat list \<times> failure list \<times> nat" where
  "houdini starts edges cands active removed rounds =
     (if active = [] then (active, removed, rounds)
      else
        (let fs = round_failures starts edges cands active (Suc rounds) in
         if fs = [] then (active, removed, Suc rounds)
         else houdini starts edges cands (filter (\<lambda>i. i \<notin> failed_index ` set fs) active) (removed @ fs) (Suc rounds)))"
  by pat_completeness auto

lemma round_failure_index: "x \<in> set (round_failures starts edges cands active r) \<Longrightarrow> failed_index x \<in> set active"
  by (auto simp: round_failures_def split: option.splits)

termination houdini
proof (relation "measure (\<lambda>(starts, edges, cands, active, removed, rounds). length active)", goal_cases)
  case (2 starts edges cands active removed rounds fs)
  then have "fs \<noteq> []" by simp
  then obtain x where x: "x \<in> set fs" using hd_in_set by blast
  then have "failed_index x \<in> set active" using 2 round_failure_index by blast
  then show ?case using x by (auto intro!: length_filter_less [of "failed_index x"])
qed simp

declare houdini.simps [simp del]

text \<open>Sequential removal: a conjunct goes when the others imply it in every state.\<close>

primrec drop_redundant :: "bstate list \<Rightarrow> formula list \<Rightarrow> nat list \<Rightarrow> nat list \<Rightarrow> nat list \<Rightarrow> nat list \<times> nat list" where
  "drop_redundant states cands [] active redundant = (active, redundant)"
| "drop_redundant states cands (i # is) active redundant =
     (let others = filter (\<lambda>j. j \<noteq> i) active in
      if \<forall>a \<in> set states. (\<forall>j \<in> set others. holds (cands ! j) a) \<longrightarrow> holds (cands ! i) a
      then drop_redundant states cands is others (redundant @ [i])
      else drop_redundant states cands is active redundant)"

primrec prime_formula :: "(utext \<times> utext) list \<Rightarrow> formula \<Rightarrow> exc + formula" where
  "prime_formula pairs (FVar n) = (case map_of pairs n of None \<Rightarrow> Inl KeyErr | Some m \<Rightarrow> Inr (FVar m))"
| "prime_formula pairs FTrue = Inr FTrue"
| "prime_formula pairs FFalse = Inr FFalse"
| "prime_formula pairs (FNot a) = rbind (prime_formula pairs a) (\<lambda>x. Inr (FNot x))"
| "prime_formula pairs (FBin op a b) =
     rbind (prime_formula pairs a) (\<lambda>x. rbind (prime_formula pairs b) (\<lambda>y. Inr (FBin op x y)))"

record inference =
  inferred_indices :: "nat list"
  kept_indices :: "nat list"
  removed_candidates :: "failure list"
  redundant_indices :: "nat list"
  invariant_formula :: formula
  inference_rounds :: nat
  starts_satisfiable :: bool
  steps_vacuous :: bool
  initiation_obligation :: utext
  preservation_obligation :: utext

definition infer_invariants ::
    "(nat \<Rightarrow> bool) \<Rightarrow> (nat \<Rightarrow> bool) \<Rightarrow> formula \<Rightarrow> formula \<Rightarrow> formula list \<Rightarrow> (utext \<times> utext) list \<Rightarrow> exc + inference" where
  "infer_invariants word dec ini tran cands pairs =
     rbind (system word dec ini tran cands pairs) (\<lambda>(starts, edges).
       let (inferred, removed, rounds) = houdini starts edges cands [0..<length cands] [] 0;
           states = all_states (sort (map fst pairs));
           (active, redundant) = drop_redundant states cands (rev inferred) inferred [];
           goal = join And (map (\<lambda>i. cands ! i) active) in
       rbind (variables [goal]) (\<lambda>_.
       rbind (prime_formula pairs goal) (\<lambda>goal'.
       Inr \<lparr>inferred_indices = inferred, kept_indices = active, removed_candidates = removed,
         redundant_indices = redundant, invariant_formula = goal, inference_rounds = rounds,
         starts_satisfiable = (starts \<noteq> []),
         steps_vacuous = (\<not> (\<exists>(a, b) \<in> set edges. \<forall>i \<in> set active. holds (cands ! i) a)),
         initiation_obligation = render_formula (FBin Imp ini goal),
         preservation_obligation = render_formula (FBin Imp (FBin And goal tran) goal')\<rparr>)))"

section \<open>Reachability\<close>

text \<open>\<open>key\<close> reads a state in the order of the names; the sets of keys are lists without duplicates.\<close>

definition state_key :: "utext list \<Rightarrow> bstate \<Rightarrow> bool list" where
  "state_key names a = map (\<lambda>n. map_of a n = Some True) names"

function reach_loop :: "utext list \<Rightarrow> (bstate \<times> bstate) list \<Rightarrow> bool list list \<Rightarrow> nat \<Rightarrow> bool list list \<times> nat" where
  "reach_loop names edges reached rounds =
     (let added = remdups (filter (\<lambda>k. k \<notin> set reached)
            (map (\<lambda>(a, b). state_key names b) (filter (\<lambda>(a, b). state_key names a \<in> set reached) edges))) in
      if added = [] then (reached, rounds) else reach_loop names edges (reached @ added) (Suc rounds))"
  by pat_completeness auto
termination reach_loop
proof (relation "measure (\<lambda>(names, edges, reached, rounds). length (filter (\<lambda>(a, b). state_key names b \<notin> set reached) edges))", goal_cases)
  case (2 names edges reached rounds added)
  then have "added \<noteq> []" by simp
  then obtain k where k: "k \<in> set added" using hd_in_set by blast
  then obtain a b where "(a, b) \<in> set edges" "k = state_key names b" "k \<notin> set reached"
    unfolding 2(1) by auto
  with k have e: "(a, b) \<in> set edges" "state_key names b \<notin> set reached" "state_key names b \<in> set added" by simp_all
  have "filter (\<lambda>(a, b). state_key names b \<notin> set (reached @ added)) edges
      = filter (\<lambda>(a, b). state_key names b \<notin> set added) (filter (\<lambda>(a, b). state_key names b \<notin> set reached) edges)"
    by (auto intro!: filter_cong)
  also have "length \<dots> < length (filter (\<lambda>(a, b). state_key names b \<notin> set reached) edges)"
    using e by (intro length_filter_less [of "(a, b)"]) auto
  finally show ?case by simp
qed simp

declare reach_loop.simps [simp del]

record reachability =
  reach_variables :: "utext list"
  reach_states :: "bstate list"
  reach_rounds :: nat
  reach_satisfiable :: bool

definition reachable_states ::
    "(nat \<Rightarrow> bool) \<Rightarrow> (nat \<Rightarrow> bool) \<Rightarrow> formula \<Rightarrow> formula \<Rightarrow> (utext \<times> utext) list \<Rightarrow> exc + reachability" where
  "reachable_states word dec ini tran pairs =
     rbind (system word dec ini tran [] pairs) (\<lambda>(starts, edges).
       let names = sort (map fst pairs);
           (reached, rounds) = reach_loop names edges (remdups (map (state_key names) starts)) 0 in
       Inr \<lparr>reach_variables = names, reach_states = map (zip names) (sort reached),
            reach_rounds = rounds, reach_satisfiable = (starts \<noteq> [])\<rparr>)"

end
