(* ===== verification/Inv_Correct.thy ===== *)
theory Inv_Correct
  imports Inv_Houdini
begin

text \<open>
  The inferred invariants are the greatest inductive set of candidates, and the reachability loop
  computes exactly the reachable states.
\<close>

section \<open>The system in terms of valuations\<close>

text \<open>The joint valuation of a state and a next state; it decides whether a step is allowed.\<close>

definition joined :: "(utext \<times> utext) list \<Rightarrow> (utext \<Rightarrow> bool) \<Rightarrow> (utext \<Rightarrow> bool) \<Rightarrow> utext \<Rightarrow> bool" where
  "joined pairs v w n = (case find (\<lambda>p. snd p = n) pairs of Some p \<Rightarrow> w (fst p) | None \<Rightarrow> v n)"

definition pairs_ok :: "(utext \<times> utext) list \<Rightarrow> bool" where
  "pairs_ok pairs \<longleftrightarrow> distinct (map fst pairs) \<and> distinct (map snd pairs) \<and> fst ` set pairs \<inter> snd ` set pairs = {}"

lemma joined_now: "pairs_ok pairs \<Longrightarrow> (n, m) \<in> set pairs \<Longrightarrow> joined pairs v w n = v n"
proof -
  assume ok: "pairs_ok pairs" and m: "(n, m) \<in> set pairs"
  have "find (\<lambda>p. snd p = n) pairs = None" using ok m by (force simp: pairs_ok_def find_None_iff)
  then show ?thesis by (simp add: joined_def)
qed

lemma joined_next: "pairs_ok pairs \<Longrightarrow> (n, m) \<in> set pairs \<Longrightarrow> joined pairs v w m = w n"
proof (cases "find (\<lambda>p. snd p = m) pairs")
  case None
  moreover assume "(n, m) \<in> set pairs"
  ultimately show ?thesis by (force simp: find_None_iff)
next
  case (Some p)
  assume ok: "pairs_ok pairs" and m: "(n, m) \<in> set pairs"
  have "p \<in> set pairs" "snd p = m" using find_SomeD [OF Some] by simp_all
  then have "p = (n, m)" using ok m by (auto simp: pairs_ok_def distinct_map inj_on_def)
  then show ?thesis using Some by (simp add: joined_def)
qed

lemma sys_step_joined:
  assumes ok: "pairs_ok pairs" and v: "vars tran \<subseteq> fst ` set pairs \<union> snd ` set pairs"
  shows "sys_step tran pairs v w \<longleftrightarrow> sem tran (joined pairs v w)"
proof
  assume "sys_step tran pairs v w"
  then obtain x where x: "sem tran x" "\<And>n m. (n, m) \<in> set pairs \<Longrightarrow> x n = v n \<and> x m = w n"
    by (auto simp: sys_step_def)
  have "sem tran (joined pairs v w) = sem tran x"
  proof (rule sem_cong)
    fix n
    assume "n \<in> vars tran"
    then consider m where "(n, m) \<in> set pairs" | m where "(m, n) \<in> set pairs" using v by fastforce
    then show "joined pairs v w n = x n"
      by cases (simp_all add: joined_now [OF ok] joined_next [OF ok] x(2))
  qed
  with x(1) show "sem tran (joined pairs v w)" by simp
next
  assume "sem tran (joined pairs v w)"
  then show "sys_step tran pairs v w"
    unfolding sys_step_def by (intro exI [of _ "joined pairs v w"]) (auto simp: joined_now [OF ok] joined_next [OF ok])
qed

lemma filter_m_value: "(\<And>x. x \<in> set xs \<Longrightarrow> p x = Inr (q x)) \<Longrightarrow> filter_m p xs = Inr (filter q xs)"
  by (induction xs) auto

lemma lookup_item:
  assumes "distinct ns" "n \<in> set ns"
  shows "assignment_for i ns n = Some (valuation i ns n)"
proof -
  obtain k where "k < length ns" "ns ! k = n" using assms(2) by (auto simp: in_set_conv_nth)
  then show ?thesis using assignment_for_nth [OF assms(1), of k i] valuation_nth [OF assms(1), of k i] by simp
qed

lemma keys_items [simp]: "fst ` set (assignment_items i ns) = set ns"
proof -
  have "map fst (assignment_items i ns) = ns" by (simp add: assignment_items_def)
  then show ?thesis by (metis set_map)
qed

lemma keys_renamed: "fst ` set (map (\<lambda>(k, v). (f k, v)) xs) = f ` fst ` set xs"
  by (induction xs) auto

lemma map_of_renamed:
  assumes "inj_on f A" "k \<in> A" "fst ` set xs \<subseteq> A"
  shows "map_of (map (\<lambda>(k, v). (f k, v)) xs) (f k) = map_of xs k"
  using assms(3)
proof (induction xs)
  case (Cons x xs)
  obtain a b where x: "x = (a, b)" by (cases x)
  have "f k = f a \<longleftrightarrow> k = a" using Cons.prems assms(1,2) x by (auto dest: inj_onD)
  then show ?case using Cons x by simp
qed simp

lemma merge_states_value:
  assumes ok: "pairs_ok pairs" and ns: "set ns = fst ` set pairs" "distinct ns"
  obtains m where "merge_states pairs (assignment_items i ns) (assignment_items j ns) = Inr m"
    and "\<And>f. vars f \<subseteq> fst ` set pairs \<union> snd ` set pairs
      \<Longrightarrow> evaluate f (map_of m) = Inr (sem f (joined pairs (valuation i ns) (valuation j ns)))"
proof -
  define nxt where "nxt n = the (map_of pairs n)" for n
  have nxt: "map_of pairs n = Some (nxt n)" if "n \<in> set ns" for n
    using that ns(1) unfolding nxt_def by (metis map_of_eq_None_iff option.collapse)
  let ?b = "map (\<lambda>(k, v). (nxt k, v)) (assignment_items j ns)"
  have "rmap (\<lambda>(k, v). case map_of pairs k of None \<Rightarrow> Inl KeyErr | Some n \<Rightarrow> Inr (n, v)) (assignment_items j ns) = Inr ?b"
  proof (rule rmap_total)
    fix p
    assume "p \<in> set (assignment_items j ns)"
    then have "fst p \<in> set ns" using keys_items [of j ns] by blast
    then show "(case p of (k, v) \<Rightarrow> case map_of pairs k of None \<Rightarrow> Inl KeyErr | Some n \<Rightarrow> Inr (n, v))
        = Inr (case p of (k, v) \<Rightarrow> (nxt k, v))"
      by (cases p) (simp add: nxt)
  qed
  then have "merge_states pairs (assignment_items i ns) (assignment_items j ns) = Inr (?b @ assignment_items i ns)"
    by (simp add: merge_states_def)
  moreover have "map_of (?b @ assignment_items i ns) n = Some (joined pairs (valuation i ns) (valuation j ns) n)"
    if n: "n \<in> fst ` set pairs \<union> snd ` set pairs" for n
    using n
  proof
    assume "n \<in> fst ` set pairs"
    then obtain m where m: "(n, m) \<in> set pairs" by auto
    have no: "nxt k \<noteq> n" if "k \<in> set ns" for k
    proof -
      have "(k, nxt k) \<in> set pairs" by (rule map_of_SomeD [OF nxt [OF that]])
      then have "nxt k \<in> snd ` set pairs" by force
      moreover have "n \<in> fst ` set pairs" using m by force
      ultimately show ?thesis using ok by (auto simp: pairs_ok_def)
    qed
    have "fst ` set ?b = nxt ` set ns" by (simp only: keys_renamed keys_items)
    moreover have "n \<notin> nxt ` set ns" using no by (metis imageE)
    ultimately have "n \<notin> fst ` set ?b" by metis
    then have "map_of ?b n = None" by (simp only: map_of_eq_None_iff not_False_eq_True)
    moreover have "n \<in> set ns" using m ns(1) by force
    ultimately show ?thesis by (simp add: map_add_def lookup_item [OF ns(2)] joined_now [OF ok m])
  next
    assume "n \<in> snd ` set pairs"
    then obtain k where k: "(k, n) \<in> set pairs" by auto
    then have kn: "k \<in> set ns" using ns(1) by force
    have "distinct (map fst pairs)" using ok by (simp add: pairs_ok_def)
    then have "nxt k = n" using k nxt [OF kn] by (metis map_of_is_SomeI option.inject)
    have inj: "inj_on nxt (set ns)"
    proof (rule inj_onI)
      fix x y
      assume "x \<in> set ns" "y \<in> set ns" "nxt x = nxt y"
      then have "(x, nxt x) \<in> set pairs" "(y, nxt x) \<in> set pairs"
        using map_of_SomeD [OF nxt [of x]] map_of_SomeD [OF nxt [of y]] by simp_all
      moreover have "inj_on snd (set pairs)" using ok by (simp add: pairs_ok_def distinct_map)
      ultimately show "x = y" by (metis inj_onD prod.inject snd_conv)
    qed
    have "map_of ?b (nxt k) = map_of (assignment_items j ns) k"
      by (rule map_of_renamed [OF inj kn]) simp
    then show ?thesis
      using \<open>nxt k = n\<close> kn by (simp add: map_add_def lookup_item [OF ns(2)] joined_next [OF ok k])
  qed
  ultimately show thesis using that by (simp add: evaluate_total subset_iff)
qed


text \<open>What \<open>system\<close> returns: the initial states and the allowed steps among all states.\<close>

lemma system_value:
  assumes sys: "system word dec ini tran cands pairs = Inr (starts, edges)" and keys: "distinct (map fst pairs)"
  defines "ns \<equiv> sort (map fst pairs)"
  shows "pairs_ok pairs" "distinct ns" "set ns = fst ` set pairs" "vars ini \<subseteq> set ns"
    "\<And>c. c \<in> set cands \<Longrightarrow> vars c \<subseteq> set ns" "vars tran \<subseteq> fst ` set pairs \<union> snd ` set pairs"
    "starts = map (\<lambda>i. assignment_items i ns) (filter (\<lambda>i. sem ini (valuation i ns)) [0..<2 ^ length ns])"
    "set edges = {(assignment_items i ns, assignment_items j ns) |i j. i < 2 ^ length ns \<and> j < 2 ^ length ns
       \<and> sys_step tran pairs (valuation i ns) (valuation j ns)}"
proof -
  obtain used mvd where names: "fst ` set pairs \<inter> snd ` set pairs = {}" "length pairs = length (remdups (map snd pairs))"
    and used: "variables (ini # cands) = Inr used" "set used \<subseteq> fst ` set pairs"
    and mv: "variables [tran] = Inr mvd" "set mvd \<subseteq> fst ` set pairs \<union> snd ` set pairs"
    and e: "filter_m (\<lambda>(a, b). rbind (merge_states pairs a b) (\<lambda>m. evaluate tran (map_of m)))
             (List.product (all_states ns) (all_states ns)) = Inr edges"
    and s: "filter_m (\<lambda>a. evaluate ini (map_of a)) (all_states ns) = Inr starts"
    using sys by (auto simp: system_def Let_def res_simps ns_def split: if_splits)
  have "distinct (map snd pairs)" using names(2) by (metis length_map distinct_remdups length_remdups_eq)
  then show ok: "pairs_ok pairs" using keys names(1) by (simp add: pairs_ok_def)
  show d: "distinct ns" and n: "set ns = fst ` set pairs" using keys by (simp_all add: ns_def)
  have u: "(\<Union>f \<in> set (ini # cands). vars f) \<subseteq> set ns" using variables_Inr(1) [OF used(1)] used(2) n by simp
  then show vi: "vars ini \<subseteq> set ns" and "\<And>c. c \<in> set cands \<Longrightarrow> vars c \<subseteq> set ns" by auto
  show vt: "vars tran \<subseteq> fst ` set pairs \<union> snd ` set pairs" using variables_Inr(1) [OF mv(1)] mv(2) by simp
  let ?item = "\<lambda>i. assignment_items i ns" and ?ix = "[0..<2 ^ length ns]"
  have val_of: "valuation i ns = (\<lambda>n. map_of (?item i) n = Some True)" for i by (auto simp: valuation_def)
  have "filter_m (\<lambda>a. evaluate ini (map_of a)) (all_states ns)
    = Inr (filter (\<lambda>a. sem ini (\<lambda>n. map_of a n = Some True)) (all_states ns))"
    by (rule filter_m_value) (auto simp: all_states_def evaluate_assignment [OF vi d] valuation_def [abs_def])
  then show "starts = map ?item (filter (\<lambda>i. sem ini (valuation i ns)) ?ix)"
    using s by (simp add: all_states_def filter_map comp_def val_of)
  have "filter_m (\<lambda>(a, b). rbind (merge_states pairs a b) (\<lambda>m. evaluate tran (map_of m))) (List.product (all_states ns) (all_states ns))
    = Inr (filter (\<lambda>(a, b). sys_step tran pairs (\<lambda>n. map_of a n = Some True) (\<lambda>n. map_of b n = Some True))
        (List.product (all_states ns) (all_states ns)))"
  proof (rule filter_m_value)
    fix p
    assume "p \<in> set (List.product (all_states ns) (all_states ns))"
    then obtain i j where p: "p = (?item i, ?item j)" by (auto simp: all_states_def)
    obtain m where m: "merge_states pairs (?item i) (?item j) = Inr m"
      "evaluate tran (map_of m) = Inr (sem tran (joined pairs (valuation i ns) (valuation j ns)))"
      by (rule merge_states_value [OF ok n d, of i j]) (use vt in blast)
    then show "(case p of (a, b) \<Rightarrow> rbind (merge_states pairs a b) (\<lambda>m. evaluate tran (map_of m)))
      = Inr (case p of (a, b) \<Rightarrow> sys_step tran pairs (\<lambda>n. map_of a n = Some True) (\<lambda>n. map_of b n = Some True))"
      by (simp add: p sys_step_joined [OF ok vt] valuation_def [abs_def])
  qed
  then show "set edges = {(?item i, ?item j) |i j. i < 2 ^ length ns \<and> j < 2 ^ length ns
       \<and> sys_step tran pairs (valuation i ns) (valuation j ns)}"
  proof -
    let ?Q = "\<lambda>(a, b). sys_step tran pairs (\<lambda>n. map_of a n = Some True) (\<lambda>n. map_of b n = Some True)"
    assume "filter_m (\<lambda>(a, b). rbind (merge_states pairs a b) (\<lambda>m. evaluate tran (map_of m))) (List.product (all_states ns) (all_states ns))
      = Inr (filter ?Q (List.product (all_states ns) (all_states ns)))"
    then have "set edges = {p \<in> set (all_states ns) \<times> set (all_states ns). ?Q p}" using e by simp
    moreover have "set (all_states ns) = ?item ` {..<2 ^ length ns}" by (auto simp: all_states_def)
    moreover have "?Q (?item i, ?item j) = sys_step tran pairs (valuation i ns) (valuation j ns)" for i j by (simp add: val_of)
    ultimately show ?thesis by fastforce
  qed
qed

section \<open>The Houdini loop\<close>

definition stable :: "bstate list \<Rightarrow> (bstate \<times> bstate) list \<Rightarrow> formula list \<Rightarrow> nat set \<Rightarrow> bool" where
  "stable starts edges cands J \<longleftrightarrow> (\<forall>a \<in> set starts. \<forall>j \<in> J. holds (cands ! j) a)
     \<and> (\<forall>(a, b) \<in> set edges. (\<forall>j \<in> J. holds (cands ! j) a) \<longrightarrow> (\<forall>j \<in> J. holds (cands ! j) b))"

lemma failure_of_None: "failure_of starts edges cands active i = None \<longleftrightarrow>
    (\<forall>a \<in> set starts. holds (cands ! i) a)
    \<and> (\<forall>(a, b) \<in> set edges. (\<forall>j \<in> set active. holds (cands ! j) a) \<longrightarrow> holds (cands ! i) b)"
proof -
  have "failure_of starts edges cands active i = None \<longleftrightarrow> find (\<lambda>a. \<not> holds (cands ! i) a) starts = None
    \<and> find (\<lambda>(a, b). (\<forall>j \<in> set active. holds (cands ! j) a) \<and> \<not> holds (cands ! i) b) edges = None"
    by (auto simp: failure_of_def split: option.splits)
  then show ?thesis unfolding find_None_iff by blast
qed

lemma failed_indices: "failed_index ` set (round_failures starts edges cands active r)
    = {i \<in> set active. failure_of starts edges cands active i \<noteq> None}"
proof -
  let ?row = "\<lambda>i. case failure_of starts edges cands active i of
      None \<Rightarrow> [] | Some why \<Rightarrow> [\<lparr>failed_index = i, failed_round = r, failed_reason = why\<rparr>]"
  have "failed_index ` set (?row i) = (if failure_of starts edges cands active i = None then {} else {i})" for i
    by (auto split: option.split)
  then show ?thesis unfolding round_failures_def set_concat set_map image_Union image_image by (auto split: if_splits)
qed

lemma houdini_greatest:
  assumes "houdini starts edges cands active removed rounds = (kept, removed', rounds')" and "distinct active"
  shows "stable starts edges cands (set kept) \<and> set kept \<subseteq> set active \<and> distinct kept
    \<and> (\<forall>J. J \<subseteq> set active \<longrightarrow> stable starts edges cands J \<longrightarrow> J \<subseteq> set kept)"
  using assms
proof (induction starts edges cands active removed rounds arbitrary: kept removed' rounds' rule: houdini.induct)
  case (1 starts edges cands active removed rounds)
  let ?fs = "round_failures starts edges cands active (Suc rounds)"
  note fi = failed_indices [of starts edges cands active "Suc rounds"]
  consider "active = []" | "active \<noteq> []" "?fs = []" | "active \<noteq> []" "?fs \<noteq> []" by blast
  then show ?case
  proof cases
    case 1
    then show ?thesis using "1.prems" by (simp add: houdini.simps stable_def)
  next
    case 2
    then have "kept = active" using "1.prems"(1) by (simp add: houdini.simps [of _ _ _ active])
    moreover have none: "failure_of starts edges cands active i = None" if "i \<in> set active" for i using fi 2(2) that by auto
    then have "stable starts edges cands (set active)" unfolding stable_def failure_of_None by fastforce
    ultimately show ?thesis using "1.prems"(2) by simp
  next
    case 3
    let ?rest = "filter (\<lambda>i. i \<notin> failed_index ` set ?fs) active"
    have "J \<subseteq> set ?rest" if J: "J \<subseteq> set active" "stable starts edges cands J" for J
    proof
      fix j
      assume j: "j \<in> J"
      have "failure_of starts edges cands active j = None"
        unfolding failure_of_None using J j by (fastforce simp: stable_def)
      then show "j \<in> set ?rest" using fi j J(1) by auto
    qed
    then have sub: "\<forall>J. J \<subseteq> set active \<longrightarrow> stable starts edges cands J \<longrightarrow> J \<subseteq> set ?rest" by blast
    have step: "houdini starts edges cands ?rest (removed @ ?fs) (Suc rounds) = (kept, removed', rounds')"
      using "1.prems"(1) 3 by (simp add: houdini.simps [of _ _ _ active] Let_def)
    have rest: "set ?rest \<subseteq> set active" "distinct ?rest" using "1.prems"(2) by auto
    note IH = "1.IH" [OF 3(1) refl 3(2) step rest(2)]
    have "set kept \<subseteq> set active" using IH rest(1) by (meson order_trans)
    moreover have "J \<subseteq> set kept" if "J \<subseteq> set active" "stable starts edges cands J" for J
      using IH sub that by meson
    ultimately show ?thesis using IH by simp
  qed
qed

section \<open>Inferred invariants\<close>

definition inductive_choice ::
    "formula \<Rightarrow> formula \<Rightarrow> (utext \<times> utext) list \<Rightarrow> formula list \<Rightarrow> nat set \<Rightarrow> bool" where
  "inductive_choice ini tran pairs cands J \<longleftrightarrow> (\<forall>v. sem ini v \<longrightarrow> (\<forall>j \<in> J. sem (cands ! j) v))
     \<and> (\<forall>v w. (\<forall>j \<in> J. sem (cands ! j) v) \<longrightarrow> sys_step tran pairs v w \<longrightarrow> (\<forall>j \<in> J. sem (cands ! j) w))"

lemma holds_item: "vars f \<subseteq> set ns \<Longrightarrow> distinct ns \<Longrightarrow> holds f (assignment_items i ns) = sem f (valuation i ns)"
  by (simp add: holds_def evaluate_assignment)

lemma sem_agree: "vars f \<subseteq> set ns \<Longrightarrow> (\<And>n. n \<in> set ns \<Longrightarrow> v n = w n) \<Longrightarrow> sem f v = sem f w"
  by (intro sem_cong) auto

text \<open>Steps only look at the declared names.\<close>

lemma sys_step_cong:
  assumes ns: "set ns = fst ` set pairs" and "\<And>n. n \<in> set ns \<Longrightarrow> v n = v' n" "\<And>n. n \<in> set ns \<Longrightarrow> w n = w' n"
  shows "sys_step tran pairs v w = sys_step tran pairs v' w'"
proof -
  have n: "n \<in> set ns" if "(n, m) \<in> set pairs" for n m using that ns by force
  have "(\<forall>(n, m) \<in> set pairs. x n = v n \<and> x m = w n) \<longleftrightarrow> (\<forall>(n, m) \<in> set pairs. x n = v' n \<and> x m = w' n)" for x :: "utext \<Rightarrow> bool"
    using assms(2,3) n by (intro ball_cong refl) (auto split: prod.split)
  then show ?thesis by (simp only: sys_step_def)
qed

lemma stable_inductive:
  assumes sys: "system word dec ini tran cands pairs = Inr (starts, edges)" and keys: "distinct (map fst pairs)"
    and J: "J \<subseteq> {..<length cands}"
  shows "stable starts edges cands J \<longleftrightarrow> inductive_choice ini tran pairs cands J"
proof -
  define ns where "ns = sort (map fst pairs)"
  note S = system_value [OF sys keys, folded ns_def]
  have vc: "vars (cands ! j) \<subseteq> set ns" if "j \<in> J" for j using S(5) J that by (meson lessThan_iff nth_mem subsetD)
  have h: "holds (cands ! j) (assignment_items i ns) = sem (cands ! j) (valuation i ns)" if "j \<in> J" for i j
    using holds_item [OF vc [OF that] S(2)] .
  have agree: "(\<forall>j \<in> J. sem (cands ! j) v) = (\<forall>j \<in> J. sem (cands ! j) w)" if "\<And>n. n \<in> set ns \<Longrightarrow> v n = w n" for v w
    by (intro ball_cong refl sem_agree [OF vc] that)
  have "(\<forall>a \<in> set starts. \<forall>j \<in> J. holds (cands ! j) a)
      \<longleftrightarrow> (\<forall>i < 2 ^ length ns. sem ini (valuation i ns) \<longrightarrow> (\<forall>j \<in> J. sem (cands ! j) (valuation i ns)))"
    unfolding S(7) by (auto simp: h)
  also have "\<dots> \<longleftrightarrow> (\<forall>v. sem ini v \<longrightarrow> (\<forall>j \<in> J. sem (cands ! j) v))"
    by (rule all_indices [OF S(2)]) (metis agree sem_agree [OF S(4)])
  finally have 1: "(\<forall>a \<in> set starts. \<forall>j \<in> J. holds (cands ! j) a) \<longleftrightarrow> (\<forall>v. sem ini v \<longrightarrow> (\<forall>j \<in> J. sem (cands ! j) v))" .
  let ?P = "\<lambda>v w. sys_step tran pairs v w \<longrightarrow> (\<forall>j \<in> J. sem (cands ! j) v) \<longrightarrow> (\<forall>j \<in> J. sem (cands ! j) w)"
  have cong: "?P v w = ?P v' w'" if "\<And>n. n \<in> set ns \<Longrightarrow> v n = v' n" "\<And>n. n \<in> set ns \<Longrightarrow> w n = w' n" for v w v' w'
    using agree [OF that(1)] agree [OF that(2)] sys_step_cong [OF S(3) that] by simp
  have "(\<forall>(a, b) \<in> set edges. (\<forall>j \<in> J. holds (cands ! j) a) \<longrightarrow> (\<forall>j \<in> J. holds (cands ! j) b))
      \<longleftrightarrow> (\<forall>i < 2 ^ length ns. \<forall>j < 2 ^ length ns. ?P (valuation i ns) (valuation j ns))"
  proof -
    have hh: "(\<forall>j \<in> J. holds (cands ! j) (assignment_items i ns)) = (\<forall>j \<in> J. sem (cands ! j) (valuation i ns))" for i
      by (intro ball_cong refl h)
    have all_edges: "(\<forall>(a, b) \<in> set edges. Q a b) \<longleftrightarrow> (\<forall>i < 2 ^ length ns. \<forall>j < 2 ^ length ns.
        sys_step tran pairs (valuation i ns) (valuation j ns) \<longrightarrow> Q (assignment_items i ns) (assignment_items j ns))" for Q
      unfolding S(8) by blast
    show ?thesis unfolding all_edges hh by (rule refl)
  qed
  also have "\<dots> \<longleftrightarrow> (\<forall>i < 2 ^ length ns. \<forall>w. ?P (valuation i ns) w)"
  proof -
    have "(\<forall>j < 2 ^ length ns. ?P (valuation i ns) (valuation j ns)) \<longleftrightarrow> (\<forall>w. ?P (valuation i ns) w)" for i
      by (rule all_indices [OF S(2), where P = "?P (valuation i ns)"]) (rule cong [OF refl])
    then show ?thesis by (simp only:)
  qed
  also have "\<dots> \<longleftrightarrow> (\<forall>v w. ?P v w)"
    by (rule all_indices [OF S(2), where P = "\<lambda>v. \<forall>w. ?P v w"]) (rule arg_cong [of _ _ All], rule ext, rule cong [OF _ refl])
  finally show ?thesis using 1 unfolding stable_def inductive_choice_def by blast
qed

lemma drop_redundant_keeps:
  assumes "drop_redundant states cands is active red = (active', red')"
  shows "set active' \<subseteq> set active \<and> (\<forall>a \<in> set states. (\<forall>j \<in> set active'. holds (cands ! j) a) \<longleftrightarrow> (\<forall>j \<in> set active. holds (cands ! j) a))"
  using assms
proof (induction "is" arbitrary: active red)
  case (Cons i "is")
  let ?others = "filter (\<lambda>j. j \<noteq> i) active"
  show ?case
  proof (cases "\<forall>a \<in> set states. (\<forall>j \<in> set ?others. holds (cands ! j) a) \<longrightarrow> holds (cands ! i) a")
    case True
    have "drop_redundant states cands is ?others (red @ [i]) = (active', red')"
      using Cons.prems True by (simp add: Let_def split: if_splits)
    note IH = Cons.IH [OF this]
    have "(\<forall>j \<in> set ?others. holds (cands ! j) a) \<longleftrightarrow> (\<forall>j \<in> set active. holds (cands ! j) a)" if "a \<in> set states" for a
      using True that by auto
    with IH show ?thesis by auto
  next
    case False
    have "drop_redundant states cands is active red = (active', red')"
      using Cons.prems False by (auto simp: Let_def split: if_splits)
    then show ?thesis by (rule Cons.IH)
  qed
qed simp

section \<open>Reachable states\<close>

lemma reach_loop_closure:
  assumes "reach_loop names edges reached rounds = (res, n)"
  shows "set reached \<subseteq> set res \<and> (\<forall>(a, b) \<in> set edges. state_key names a \<in> set res \<longrightarrow> state_key names b \<in> set res)
    \<and> (\<forall>P. (\<forall>k \<in> set reached. P k) \<longrightarrow> (\<forall>(a, b) \<in> set edges. P (state_key names a) \<longrightarrow> P (state_key names b)) \<longrightarrow> (\<forall>k \<in> set res. P k))"
  using assms
proof (induction names edges reached rounds arbitrary: res n rule: reach_loop.induct)
  case (1 names edges reached rounds)
  define added where "added = remdups (filter (\<lambda>k. k \<notin> set reached)
            (map (\<lambda>(a, b). state_key names b) (filter (\<lambda>(a, b). state_key names a \<in> set reached) edges)))"
  have added: "k \<in> set added \<longleftrightarrow> k \<notin> set reached \<and> (\<exists>(a, b) \<in> set edges. state_key names a \<in> set reached \<and> k = state_key names b)" for k
    by (auto simp: added_def)
  have eq: "reach_loop names edges reached rounds
      = (if added = [] then (reached, rounds) else reach_loop names edges (reached @ added) (Suc rounds))"
    unfolding added_def by (subst reach_loop.simps) (simp only: Let_def)
  show ?case
  proof (cases "added = []")
    case True
    have "state_key names b \<in> set reached" if "(a, b) \<in> set edges" "state_key names a \<in> set reached" for a b
      using added [of "state_key names b"] that True by auto
    then show ?thesis using "1.prems" eq True by auto
  next
    case False
    then have step: "reach_loop names edges (reached @ added) (Suc rounds) = (res, n)" using "1.prems" eq by simp
    note IH = "1.IH" [OF added_def False step]
    have "\<forall>k \<in> set (reached @ added). P k" if "\<forall>k \<in> set reached. P k" "\<forall>(a, b) \<in> set edges. P (state_key names a) \<longrightarrow> P (state_key names b)" for P
      using that added by fastforce
    then have "\<forall>k \<in> set res. P k" if "\<forall>k \<in> set reached. P k" "\<forall>(a, b) \<in> set edges. P (state_key names a) \<longrightarrow> P (state_key names b)" for P
      using IH [THEN conjunct2, THEN conjunct2, THEN spec, THEN mp, THEN mp] that by metis
    moreover have "set reached \<subseteq> set res" using IH [THEN conjunct1] by simp
    ultimately show ?thesis using IH [THEN conjunct2, THEN conjunct1] by (intro conjI allI impI)
  qed
qed

lemma key_item: "state_key ns (assignment_items i ns) = map (valuation i ns) ns"
  by (simp add: state_key_def valuation_def)

lemma index_valuation:
  assumes "distinct ns"
  obtains i where "i < 2 ^ length ns" "\<And>n. n \<in> set ns \<Longrightarrow> valuation i ns n = v n" "map (valuation i ns) ns = map v ns"
proof -
  obtain i where "i < 2 ^ length ns" "\<And>n. n \<in> set ns \<Longrightarrow> valuation i ns n = v n"
    using valuation_exists [OF assms, of v] by metis
  moreover from this(2) have "map (valuation i ns) ns = map v ns" by simp
  ultimately show thesis by (rule that)
qed

lemma reached_keys:
  assumes sys: "system word dec ini tran cands pairs = Inr (starts, edges)" and keys: "distinct (map fst pairs)"
  defines "ns \<equiv> sort (map fst pairs)"
  assumes loop: "reach_loop ns edges (remdups (map (state_key ns) starts)) 0 = (res, n)"
  shows "set res = {map v ns |v. sys_reach ini tran pairs v}"
proof -
  note S = system_value [OF sys keys, folded ns_def]
  note R = reach_loop_closure [OF loop]
  have "\<forall>k \<in> set res. \<exists>v. sys_reach ini tran pairs v \<and> k = map v ns"
  proof (rule R [THEN conjunct2, THEN conjunct2, THEN spec, THEN mp, THEN mp])
    show "\<forall>k \<in> set (remdups (map (state_key ns) starts)). \<exists>v. sys_reach ini tran pairs v \<and> k = map v ns"
      unfolding S(7) by (auto simp: key_item intro: sys_reach.start)
    have "\<exists>w. sys_reach ini tran pairs w \<and> state_key ns b = map w ns"
      if e: "(a, b) \<in> set edges" and v: "sys_reach ini tran pairs v" "state_key ns a = map v ns" for a b v
    proof -
      obtain i j where ij: "a = assignment_items i ns" "b = assignment_items j ns"
        "sys_step tran pairs (valuation i ns) (valuation j ns)" using e unfolding S(8) by blast
      have "\<And>n. n \<in> set ns \<Longrightarrow> valuation i ns n = v n" using v(2) by (simp add: ij(1) key_item)
      then have "sys_step tran pairs (valuation i ns) (valuation j ns) = sys_step tran pairs v (valuation j ns)"
        by (intro sys_step_cong [OF S(3)]) simp_all
      with ij(3) have "sys_step tran pairs v (valuation j ns)" by simp
      with v(1) have "sys_reach ini tran pairs (valuation j ns)" by (rule sys_reach.move)
      then show ?thesis by (intro exI [of _ "valuation j ns"]) (simp add: ij(2) key_item)
    qed
    then show "\<forall>(a, b) \<in> set edges. (\<exists>v. sys_reach ini tran pairs v \<and> state_key ns a = map v ns)
        \<longrightarrow> (\<exists>v. sys_reach ini tran pairs v \<and> state_key ns b = map v ns)" by blast
  qed
  moreover have "map v ns \<in> set res" if "sys_reach ini tran pairs v" for v
    using that
  proof induction
    case (start v)
    obtain i where i: "i < 2 ^ length ns" "\<And>n. n \<in> set ns \<Longrightarrow> valuation i ns n = v n" "map (valuation i ns) ns = map v ns"
      by (rule index_valuation [OF S(2), of v]) (rule that, assumption, blast, assumption)
    have "sem ini (valuation i ns)" using start sem_agree [OF S(4) i(2)] by simp
    then have "map v ns \<in> set (remdups (map (state_key ns) starts))"
      unfolding S(7) using i(1,3) by (auto simp: key_item image_iff intro!: exI [of _ i])
    then show ?case using R [THEN conjunct1] by blast
  next
    case (move v w)
    obtain i where i: "i < 2 ^ length ns" "\<And>n. n \<in> set ns \<Longrightarrow> valuation i ns n = v n" "map (valuation i ns) ns = map v ns"
      by (rule index_valuation [OF S(2), of v]) (rule that, assumption, blast, assumption)
    obtain j where j: "j < 2 ^ length ns" "\<And>n. n \<in> set ns \<Longrightarrow> valuation j ns n = w n" "map (valuation j ns) ns = map w ns"
      by (rule index_valuation [OF S(2), of w]) (rule that, assumption, blast, assumption)
    have "sys_step tran pairs (valuation i ns) (valuation j ns)"
      using move.hyps(2) sys_step_cong [OF S(3) i(2) j(2)] by simp
    then have "(assignment_items i ns, assignment_items j ns) \<in> set edges" unfolding S(8) using i(1) j(1) by blast
    moreover have "state_key ns (assignment_items i ns) \<in> set res" using move.IH by (simp add: key_item i(3))
    ultimately have "state_key ns (assignment_items j ns) \<in> set res" using R [THEN conjunct2, THEN conjunct1] by blast
    then show ?case by (simp add: key_item j(3))
  qed
  ultimately show ?thesis by blast
qed

section \<open>Properties\<close>

text \<open>C18: \<open>infer_invariants\<close> finds the greatest inductive set of candidates: what it infers is inductive,
  every inductive choice of candidates is contained in it, the reduced invariant means the same,
  and it holds in every reachable state.\<close>

lemma inductive_choice_reach:
  assumes "inductive_choice ini tran pairs cands J" "sys_reach ini tran pairs v"
  shows "\<forall>j \<in> J. sem (cands ! j) v"
  using assms(2) by induction (use assms(1) in \<open>auto simp: inductive_choice_def\<close>)

lemma infer_invariants_parts:
  assumes "infer_invariants word dec ini tran cands pairs = Inr r"
  obtains starts edges rem active red where "system word dec ini tran cands pairs = Inr (starts, edges)"
    and "houdini starts edges cands [0..<length cands] [] 0 = (inferred_indices r, rem, inference_rounds r)"
    and "drop_redundant (all_states (sort (map fst pairs))) cands (rev (inferred_indices r)) (inferred_indices r) [] = (active, red)"
    and "invariant_formula r = join And (map (\<lambda>i. cands ! i) active)" "kept_indices r = active"
proof -
  obtain se where s: "system word dec ini tran cands pairs = Inr se"
    using assms by (auto simp: infer_invariants_def res_simps)
  obtain starts edges where se: "se = (starts, edges)" by (cases se)
  obtain inf rem rounds where h: "houdini starts edges cands [0..<length cands] [] 0 = (inf, rem, rounds)"
    by (metis prod.exhaust)
  obtain active red where d: "drop_redundant (all_states (sort (map fst pairs))) cands (rev inf) inf [] = (active, red)"
    by (metis prod.exhaust)
  have "inferred_indices r = inf" "inference_rounds r = rounds" "invariant_formula r = join And (map (\<lambda>i. cands ! i) active)"
    "kept_indices r = active"
    using assms by (auto simp: infer_invariants_def s se h d Let_def res_simps)
  with that s se h d show thesis by metis
qed

theorem infer_invariants_greatest:
  assumes r: "infer_invariants word dec ini tran cands pairs = Inr r" and keys: "distinct (map fst pairs)"
  shows "inductive_choice ini tran pairs cands (set (inferred_indices r))
    \<and> (\<forall>J \<subseteq> {..<length cands}. inductive_choice ini tran pairs cands J \<longrightarrow> J \<subseteq> set (inferred_indices r))
    \<and> (\<forall>v. sem (invariant_formula r) v \<longleftrightarrow> (\<forall>i \<in> set (inferred_indices r). sem (cands ! i) v))
    \<and> (\<forall>v. sys_reach ini tran pairs v \<longrightarrow> sem (invariant_formula r) v)"
proof -
  obtain starts edges rem active red where sys: "system word dec ini tran cands pairs = Inr (starts, edges)"
    and h: "houdini starts edges cands [0..<length cands] [] 0 = (inferred_indices r, rem, inference_rounds r)"
    and d: "drop_redundant (all_states (sort (map fst pairs))) cands (rev (inferred_indices r)) (inferred_indices r) [] = (active, red)"
    and goal: "invariant_formula r = join And (map (\<lambda>i. cands ! i) active)" "kept_indices r = active"
    by (rule infer_invariants_parts [OF r])
  define ns where "ns = sort (map fst pairs)"
  note S = system_value [OF sys keys, folded ns_def]
  let ?I = "set (inferred_indices r)"
  note H = houdini_greatest [OF h, simplified, folded atLeast0LessThan lessThan_def]
  have I: "?I \<subseteq> {..<length cands}" using H by auto
  have ind: "inductive_choice ini tran pairs cands ?I" using H stable_inductive [OF sys keys I] by blast
  have greatest: "J \<subseteq> ?I" if J: "J \<subseteq> {..<length cands}" "inductive_choice ini tran pairs cands J" for J
    using H J stable_inductive [OF sys keys J(1)] by (auto simp: atLeast0LessThan)
  have D: "set active \<subseteq> ?I" "\<And>i. i < 2 ^ length ns \<Longrightarrow> (\<forall>j \<in> set active. holds (cands ! j) (assignment_items i ns))
      \<longleftrightarrow> (\<forall>j \<in> ?I. holds (cands ! j) (assignment_items i ns))"
    using drop_redundant_keeps [OF d] by (auto simp: all_states_def ns_def)
  have vc: "vars (cands ! j) \<subseteq> set ns" if "j \<in> ?I" for j using S(5) I that by (meson lessThan_iff nth_mem subsetD)
  have same: "(\<forall>j \<in> set active. sem (cands ! j) v) \<longleftrightarrow> (\<forall>j \<in> ?I. sem (cands ! j) v)" for v
  proof -
    obtain i where i: "i < 2 ^ length ns" "\<And>n. n \<in> set ns \<Longrightarrow> valuation i ns n = v n" "map (valuation i ns) ns = map v ns"
      by (rule index_valuation [OF S(2), of v]) (rule that, assumption, blast, assumption)
    have "holds (cands ! j) (assignment_items i ns) = sem (cands ! j) v" if "j \<in> ?I" for j
      using holds_item [OF vc [OF that] S(2)] sem_agree [OF vc [OF that] i(2)] by simp
    then show ?thesis using D(2) [OF i(1)] D(1) by (metis (no_types) subsetD)
  qed
  have form: "sem (invariant_formula r) v \<longleftrightarrow> (\<forall>i \<in> ?I. sem (cands ! i) v)" for v
    using same by (simp add: goal sem_join_And)
  have "sem (invariant_formula r) v" if "sys_reach ini tran pairs v" for v
    unfolding form by (rule inductive_choice_reach [OF ind that])
  with ind greatest form show ?thesis by blast
qed

abbreviation letters :: "nat \<Rightarrow> bool" where "letters c \<equiv> 97 \<le> c"

theorem infer_invariants_greatest_witness:
  "\<exists>r. infer_invariants letters (\<lambda>c. False) (FVar [112]) (FBin Imp (FVar [112]) (FVar [113]))
        [FVar [112], FNot (FVar [112])] [([112], [113])] = Inr r
     \<and> inferred_indices r = [0] \<and> inference_rounds r = 2
     \<and> {v [112] |v. sys_reach (FVar [112]) (FBin Imp (FVar [112]) (FVar [113])) [([112], [113])] v} = {True}"
proof -
  let ?tran = "FBin Imp (FVar [112]) (FVar [113])"
  let ?r = "\<lparr>inferred_indices = [0], kept_indices = [0],
    removed_candidates = [\<lparr>failed_index = 1, failed_round = 1, failed_reason = Initiation [([112], True)]\<rparr>],
    redundant_indices = [], invariant_formula = FVar [112], inference_rounds = 2, starts_satisfiable = True,
    steps_vacuous = False, initiation_obligation = render_formula (FBin Imp (FVar [112]) (FVar [112])),
    preservation_obligation = render_formula (FBin Imp (FBin And (FVar [112]) ?tran) (FVar [113]))\<rparr>"
  have e: "infer_invariants letters (\<lambda>c. False) (FVar [112]) ?tran [FVar [112], FNot (FVar [112])] [([112], [113])] = Inr ?r"
    by code_simp
  have "sys_reach (FVar [112]) ?tran [([112], [113])] (\<lambda>n. True)" by (rule sys_reach.start) simp
  moreover have "v [112]" if "sys_reach (FVar [112]) ?tran [([112], [113])] v" for v
    using infer_invariants_greatest [OF e] that by (simp, blast)
  ultimately have "{v [112] |v. sys_reach (FVar [112]) ?tran [([112], [113])] v} = {True}" by auto
  with e show ?thesis by auto
qed

text \<open>C19: \<open>reachable_states\<close> lists exactly the states the system reaches.\<close>

theorem reachable_states_exact:
  assumes "reachable_states word dec ini tran pairs = Inr r" and "distinct (map fst pairs)"
  shows "set (reach_states r) = {zip (reach_variables r) (map v (reach_variables r)) |v. sys_reach ini tran pairs v}"
proof -
  obtain starts edges where sys: "system word dec ini tran [] pairs = Inr (starts, edges)"
    using assms(1) by (auto simp: reachable_states_def res_simps)
  define ns where "ns = sort (map fst pairs)"
  obtain res n where loop: "reach_loop ns edges (remdups (map (state_key ns) starts)) 0 = (res, n)" by (metis prod.exhaust)
  have r: "reach_variables r = ns" "reach_states r = map (zip ns) (sort res)"
    using assms(1) loop by (auto simp: reachable_states_def sys Let_def ns_def)
  show ?thesis unfolding r using reached_keys [OF sys assms(2), folded ns_def, OF loop] by auto
qed

theorem reachable_states_exact_witness:
  "\<exists>r. reachable_states letters (\<lambda>c. False) (FVar [112]) (FBin Iff (FVar [113]) (FNot (FVar [112]))) [([112], [113])] = Inr r
     \<and> {v [112] |v. sys_reach (FVar [112]) (FBin Iff (FVar [113]) (FNot (FVar [112]))) [([112], [113])] v} = {True, False}"
proof -
  let ?tran = "FBin Iff (FVar [113]) (FNot (FVar [112]))" and ?pairs = "[([112::nat], [113::nat])]"
  let ?r = "\<lparr>reach_variables = [[112]], reach_states = [[([112], False)], [([112], True)]], reach_rounds = 1, reach_satisfiable = True\<rparr>"
  have e: "reachable_states letters (\<lambda>c. False) (FVar [112]) ?tran ?pairs = Inr ?r" by code_simp
  have "(\<lambda>s. snd (hd s)) ` {[([112::nat], False)], [([112], True)]}
      = (\<lambda>s. snd (hd s)) ` {zip [[112::nat]] (map v [[112]]) |v. sys_reach (FVar [112]) ?tran ?pairs v}"
    using reachable_states_exact [OF e] by simp
  also have "\<dots> = {snd (hd (zip [[112::nat]] (map v [[112]]))) |v. sys_reach (FVar [112]) ?tran ?pairs v}" by blast
  finally have "{v [112] |v. sys_reach (FVar [112]) ?tran ?pairs v} = {True, False}" by auto
  with e show ?thesis by blast
qed

end
