(* ===== verification/Affine_Infer.thy ===== *)
theory Affine_Infer
  imports Affine_Nullspace Inv_Correct
begin

text \<open>
  \<open>infer_affine_invariants\<close> of \<open>jevops/affine_invariants.py\<close>: the reachable states become rows with a
  constant column, the null space becomes parity equations, and these go through the Houdini
  check. The candidates are proved to describe the affine hull of the reachable states exactly.
\<close>

section \<open>The inference\<close>

definition state_row :: "utext list \<Rightarrow> bstate \<Rightarrow> exc + int" where
  "state_row names s =
     rbind (rmap (\<lambda>n. case map_of s n of None \<Rightarrow> Inl KeyErr | Some b \<Rightarrow> Inr b) names) (\<lambda>bs.
     Inr (sum_list (map (\<lambda>(i, b). push_bit i (of_bool b)) (enumerate 0 bs)) OR push_bit (length names) 1))"

definition parity_formula :: "utext list \<Rightarrow> formula" where
  "parity_formula ns = (case ns of [] \<Rightarrow> FFalse | n # rest \<Rightarrow> fold (\<lambda>a p. FBin Xor p (FVar a)) rest (FVar n))"

definition affine_candidate :: "utext list \<Rightarrow> int \<Rightarrow> formula" where
  "affine_candidate names vector =
     simplify_formula (FBin Iff
       (parity_formula (map snd (filter (\<lambda>(i, n). bit vector i) (enumerate 0 names))))
       (if bit vector (length names) then FTrue else FFalse))"

record affine_report =
  af_reach :: reachability
  af_basis :: "int list"
  af_candidates :: "formula list"
  af_inference :: inference

definition infer_affine_invariants ::
    "(nat \<Rightarrow> bool) \<Rightarrow> (nat \<Rightarrow> bool) \<Rightarrow> formula \<Rightarrow> formula \<Rightarrow> (utext \<times> utext) list \<Rightarrow> exc + affine_report" where
  "infer_affine_invariants word dec ini tran pairs =
     rbind (reachable_states word dec ini tran pairs) (\<lambda>reach.
     let names = reach_variables reach in
     rbind (rmap (state_row names) (reach_states reach)) (\<lambda>rows.
     rbind (nullspace_gf2 rows (int (length names) + 1)) (\<lambda>basis.
     let candidates = map (affine_candidate names) basis in
     rbind (infer_invariants word dec ini tran candidates pairs) (\<lambda>checked.
     Inr \<lparr>af_reach = reach, af_basis = basis, af_candidates = candidates, af_inference = checked\<rparr>))))"

section \<open>Rows and equations\<close>

text \<open>The row of a valuation, and whether an affine equation (the coefficients and the constant of a
  vector) holds there.\<close>

definition row_of :: "utext list \<Rightarrow> (utext \<Rightarrow> bool) \<Rightarrow> int" where
  "row_of names v = sum_list (map (\<lambda>(i, b). push_bit i (of_bool b)) (enumerate 0 (map v names))) OR push_bit (length names) 1"

definition affine_holds :: "utext list \<Rightarrow> int \<Rightarrow> (utext \<Rightarrow> bool) \<Rightarrow> bool" where
  "affine_holds names w v = (\<not> dot (Suc (length names)) (row_of names v) w)"

lemma sum_bits: "sum_list (map (\<lambda>(i, b). push_bit i (of_bool b)) (enumerate k bs)) = push_bit k (horner_sum of_bool 2 bs :: int)"
proof (induction bs arbitrary: k)
  case (Cons b bs)
  then show ?case by (simp add: push_bit_eq_mult algebra_simps del: enumerate_simps) (simp add: push_bit_eq_mult algebra_simps)
qed simp

lemma bit_row_of:
  "i < length names \<Longrightarrow> bit (row_of names v) i = v (names ! i)" "bit (row_of names v) (length names)"
  by (auto simp: row_of_def sum_bits bit_or_iff bit_exp_iff bit_horner_sum_bit_iff)

lemma state_row_value:
  "state_row names (zip names (map v names)) = Inr (row_of names v)"
proof -
  have "rmap (\<lambda>n. case map_of (zip names (map v names)) n of None \<Rightarrow> Inl KeyErr | Some b \<Rightarrow> Inr b) names
      = (Inr (map v names) :: exc + bool list)"
    by (rule rmap_total) (simp add: map_of_zip_map)
  then show ?thesis by (simp add: state_row_def row_of_def)
qed

primrec parity :: "(utext \<Rightarrow> bool) \<Rightarrow> utext list \<Rightarrow> bool" where
  "parity v [] = False"
| "parity v (n # ns) = (v n \<noteq> parity v ns)"

lemma parity_append: "parity v (xs @ ys) = (parity v xs \<noteq> parity v ys)"
  by (induction xs) auto

lemma sem_parity: "sem (parity_formula ns) v = parity v ns"
proof -
  have "sem (fold (\<lambda>a p. FBin Xor p (FVar a)) rest p) v = (sem p v \<noteq> parity v rest)" for rest p
    by (induction rest arbitrary: p) auto
  then show ?thesis by (cases ns) (auto simp: parity_formula_def)
qed

lemma parity_dot:
  "m \<le> length names \<Longrightarrow> parity v (map snd (filter (\<lambda>(i, n). bit w i) (enumerate 0 (take m names)))) = dot m (row_of names v) w"
proof (induction m)
  case (Suc m)
  then have m: "m < length names" by simp
  have "enumerate 0 (take (Suc m) names) = enumerate 0 (take m names) @ [(m, names ! m)]"
    using m by (simp add: take_Suc_conv_app_nth enumerate_append_eq)
  then show ?case using Suc m by (auto simp: parity_append bit_row_of)
qed simp

lemma sem_affine_candidate: "sem (affine_candidate names w) v = affine_holds names w v"
  using parity_dot [of "length names" names v w]
  by (simp add: affine_candidate_def affine_holds_def sem_parity bit_row_of)

lemma dot_xor_all: "(\<And>x. x \<in> set xs \<Longrightarrow> \<not> dot n r x) \<Longrightarrow> \<not> dot n r (xor_all xs)"
  by (induction xs) (auto simp: dot_xor_right)

section \<open>The affine hull\<close>

lemma reach_report:
  assumes "reachable_states word dec ini tran pairs = Inr r" and "distinct (map fst pairs)"
  shows "reach_variables r = sort (map fst pairs)"
    and "set (reach_states r) = {zip (reach_variables r) (map v (reach_variables r)) |v. sys_reach ini tran pairs v}"
proof -
  obtain starts edges where sys: "system word dec ini tran [] pairs = Inr (starts, edges)"
    using assms(1) by (auto simp: reachable_states_def res_simps)
  define ns where "ns = sort (map fst pairs)"
  obtain res n where loop: "reach_loop ns edges (remdups (map (state_key ns) starts)) 0 = (res, n)" by (metis prod.exhaust)
  have r: "reach_variables r = ns" "reach_states r = map (zip ns) (sort res)"
    using assms(1) loop by (auto simp: reachable_states_def sys Let_def ns_def)
  show "reach_variables r = sort (map fst pairs)" using r by (simp add: ns_def)
  show "set (reach_states r) = {zip (reach_variables r) (map v (reach_variables r)) |v. sys_reach ini tran pairs v}"
    unfolding r using reached_keys [OF sys assms(2), folded ns_def, OF loop] by auto
qed

text \<open>C27: the candidates of \<open>infer_affine_invariants\<close> describe the affine hull of the reachable states. They
  hold in every reachable state, and wherever they hold, every affine equation over the state
  variables that is true of all reachable states holds as well.\<close>

theorem affine_candidates_hull:
  assumes "infer_affine_invariants word dec ini tran pairs = Inr r" and "distinct (map fst pairs)"
  defines "names \<equiv> sort (map fst pairs)"
  shows "{v. sys_reach ini tran pairs v} \<subseteq> {v. \<forall>c \<in> set (af_candidates r). sem c v}
    \<and> {v. \<forall>c \<in> set (af_candidates r). sem c v}
      = {v. \<forall>w \<in> {0..<2 ^ Suc (length names)}. {u. sys_reach ini tran pairs u} \<subseteq> {u. affine_holds names w u} \<longrightarrow> affine_holds names w v}"
proof -
  obtain reach rows basis where reach: "reachable_states word dec ini tran pairs = Inr reach"
    and rows: "rmap (state_row (reach_variables reach)) (reach_states reach) = Inr rows"
    and basis: "nullspace_gf2 rows (int (length (reach_variables reach)) + 1) = Inr basis"
    and r: "af_candidates r = map (affine_candidate (reach_variables reach)) basis"
    using assms(1) by (auto simp: infer_affine_invariants_def Let_def res_simps)
  note R = reach_report [OF reach assms(2)]
  have names: "reach_variables reach = names" using R(1) by (simp add: names_def)
  let ?n = "Suc (length names)"
  have set_rows: "set rows = {row_of names v |v. sys_reach ini tran pairs v}"
  proof -
    have "list_all2 (\<lambda>s row. state_row names s = Inr row) (reach_states reach) rows"
      using rows by (simp add: rmap_Inr_iff names)
    then have "Inr ` set rows = state_row names ` set (reach_states reach)"
      by (induction rule: list_all2_induct) auto
    also have "\<dots> = Inr ` {row_of names v |v. sys_reach ini tran pairs v}"
      unfolding R(2) names by (auto simp: state_row_value image_iff) (metis state_row_value)
    finally show ?thesis by (simp add: inj_image_eq_iff)
  qed
  have "nat (int (length names) + 1) = ?n" by simp
  then have sols: "xor_all ` set (subseqs basis) = solutions ?n (set rows)"
    using nullspace_image [OF basis] by (simp add: names)
  have sol: "w \<in> solutions ?n (set rows) \<longleftrightarrow> w \<in> {0..<2 ^ ?n} \<and> {u. sys_reach ini tran pairs u} \<subseteq> {u. affine_holds names w u}" for w
    unfolding solutions_def set_rows affine_holds_def by auto
  have cand: "(\<forall>c \<in> set (af_candidates r). sem c v) \<longleftrightarrow> (\<forall>w \<in> set basis. affine_holds names w v)" for v
    by (simp add: r names sem_affine_candidate)
  have "(\<forall>w \<in> set basis. affine_holds names w v) \<longleftrightarrow> (\<forall>w \<in> solutions ?n (set rows). affine_holds names w v)" for v
  proof
    assume all: "\<forall>w \<in> set basis. affine_holds names w v"
    show "\<forall>w \<in> solutions ?n (set rows). affine_holds names w v"
    proof
      fix w assume "w \<in> solutions ?n (set rows)"
      then obtain xs where xs: "xs \<in> set (subseqs basis)" "w = xor_all xs" using sols by blast
      then have "set xs \<subseteq> set basis" using subseqs_powset [of basis] by blast
      then show "affine_holds names w v"
        unfolding xs(2) affine_holds_def using all by (intro dot_xor_all) (auto simp: affine_holds_def)
    qed
  next
    assume all: "\<forall>w \<in> solutions ?n (set rows). affine_holds names w v"
    show "\<forall>w \<in> set basis. affine_holds names w v"
    proof
      fix w assume "w \<in> set basis"
      then have "[w] \<in> set (subseqs basis)" by (rule single_subseqs)
      then have "xor_all [w] \<in> solutions ?n (set rows)" using sols by blast
      then show "affine_holds names w v" using all by simp
    qed
  qed
  with cand have hull: "(\<forall>c \<in> set (af_candidates r). sem c v) \<longleftrightarrow> (\<forall>w \<in> solutions ?n (set rows). affine_holds names w v)" for v
    by blast
  then show ?thesis using sol by auto
qed

text \<open>A variable that starts true and never falls: the one candidate is the variable itself.\<close>

theorem affine_candidates_hull_witness:
  "\<exists>r. infer_affine_invariants letters (\<lambda>c. False) (FVar [112]) (FBin Imp (FVar [112]) (FVar [113])) [([112], [113])] = Inr r
     \<and> af_candidates r = [FVar [112]]
     \<and> {v. sys_reach (FVar [112]) (FBin Imp (FVar [112]) (FVar [113])) [([112], [113])] v} \<subseteq> {v. v [112]}"
proof -
  let ?r = "infer_affine_invariants letters (\<lambda>c. False) (FVar [112]) (FBin Imp (FVar [112]) (FVar [113])) [([112], [113])]"
  have "case ?r of Inl e \<Rightarrow> False | Inr r \<Rightarrow> af_candidates r = [FVar [112]]" by code_simp
  then obtain r where r: "?r = Inr r" "af_candidates r = [FVar [112]]" by (auto split: sum.splits)
  show ?thesis using r affine_candidates_hull [OF r(1)] by auto
qed

end
