(* ===== verification/Linear_Farkas.thy ===== *)
theory Linear_Farkas
  imports Logic_Formula Py_Values
begin

text \<open>
  Linear inequalities with Farkas certificates (\<open>jevops/linear_invariants.py\<close>): the inequalities, the
  texts of rational numbers, the independent certificate check, the exact elimination that solves
  for the weights of a support, and the bounded search over supports. Fractions are rational
  numbers; texts are code points, and \<open>digit\<close> gives the value of a decimal digit character, as \<open>\d\<close>
  and \<open>int\<close> of the standard library see it.
\<close>

section \<open>Inequalities\<close>

record linineq =
  lin_coeffs :: "int list"
  lin_bound :: int

definition is_integer32 :: "int \<Rightarrow> bool" where
  "is_integer32 v = (\<bar>v\<bar> < 2 ^ 32)"

definition mk_linineq :: "int list \<Rightarrow> int \<Rightarrow> exc + linineq" where
  "mk_linineq cs b =
     (if \<not> (1 \<le> length cs \<and> length cs \<le> 4) \<or> \<not> (\<forall>v \<in> set (cs @ [b]). is_integer32 v)
        then Inl (ValueErr ''expected 1..4 bounded integer coefficients and an integer bound'')
      else Inr \<lparr>lin_coeffs = cs, lin_bound = b\<rparr>)"

definition validate_linear :: "linineq list \<Rightarrow> linineq \<Rightarrow> exc + unit" where
  "validate_linear ps t =
     ensure (length ps \<le> 16 \<and> (\<forall>p \<in> set ps. length (lin_coeffs p) = length (lin_coeffs t)))
       (ValueErr ''linear premise count/dimension mismatch'')"

section \<open>Rational numbers as text\<close>

definition rat_text :: "rat \<Rightarrow> utext" where
  "rat_text w = (case quotient_of w of (n, d) \<Rightarrow> if d = 1 then u (int_text n) else u (int_text n) @ [47] @ u (int_text d))"

definition digits_value :: "(nat \<Rightarrow> nat option) \<Rightarrow> utext \<Rightarrow> nat" where
  "digits_value digit ds = foldl (\<lambda>n d. 10 * n + (case digit d of Some k \<Rightarrow> k | None \<Rightarrow> 0)) 0 ds"

text \<open>The numerator and denominator a text matching \<open>-?\d+(?:/[1-9]\d*)?\<close> stands for.\<close>

definition read_fraction :: "(nat \<Rightarrow> nat option) \<Rightarrow> utext \<Rightarrow> (int \<times> int) option" where
  "read_fraction digit text =
     (let neg = (text \<noteq> [] \<and> hd text = 45);
          body = (if neg then tl text else text);
          num = takeWhile (\<lambda>c. digit c \<noteq> None) body;
          rest = dropWhile (\<lambda>c. digit c \<noteq> None) body;
          n = (if neg then - int (digits_value digit num) else int (digits_value digit num)) in
      if num = [] then None
      else case rest of
        [] \<Rightarrow> Some (n, 1)
      | c # den \<Rightarrow>
          if c = 47 \<and> den \<noteq> [] \<and> 49 \<le> hd den \<and> hd den \<le> 57 \<and> list_all (\<lambda>c. digit c \<noteq> None) den
          then Some (n, int (digits_value digit den)) else None)"

definition rational_of :: "(nat \<Rightarrow> nat option) \<Rightarrow> utext \<Rightarrow> exc + rat" where
  "rational_of digit text =
     (if 100 < length text then Inl (ValueErr ''invalid rational certificate'')
      else case read_fraction digit text of
        None \<Rightarrow> Inl (ValueErr ''invalid rational certificate'')
      | Some (n, d) \<Rightarrow>
          (let r = Fract n d; (rn, rd) = quotient_of r in
           if 2 ^ 256 \<le> max \<bar>rn\<bar> \<bar>rd\<bar> then Inl (ValueErr ''certificate arithmetic budget'') else Inr r))"

section \<open>Certificates\<close>

record certificate =
  cert_weights :: "utext list"
  cert_slack :: utext

text \<open>Every exception of the check means False.\<close>

definition verify_certificate :: "(nat \<Rightarrow> nat option) \<Rightarrow> linineq list \<Rightarrow> linineq \<Rightarrow> certificate \<Rightarrow> bool" where
  "verify_certificate digit ps t cert =
     (case rbind (validate_linear ps t) (\<lambda>_.
             if length (cert_weights cert) \<noteq> length ps then Inr False
             else rbind (rmap (rational_of digit) (cert_weights cert)) (\<lambda>ws.
               rbind (rational_of digit (cert_slack cert)) (\<lambda>slack.
               Inr (0 \<le> slack \<and> (\<forall>w \<in> set ws. 0 \<le> w)
                 \<and> (\<forall>(i, a) \<in> set (enumerate 0 (lin_coeffs t)).
                      sum_list (map (\<lambda>(w, p). w * of_int (lin_coeffs p ! i)) (zip ws ps)) = of_int a)
                 \<and> sum_list (map (\<lambda>(w, p). w * of_int (lin_bound p)) (zip ws ps)) + slack = of_int (lin_bound t))))) of
        Inl e \<Rightarrow> False
      | Inr b \<Rightarrow> b)"

section \<open>Elimination\<close>

definition scale_row :: "nat \<Rightarrow> nat \<Rightarrow> rat list list \<Rightarrow> rat list list" where
  "scale_row r c m = m[r := map (\<lambda>v. v / (m ! r ! c)) (m ! r)]"

definition clear_rows :: "nat \<Rightarrow> nat \<Rightarrow> rat list list \<Rightarrow> rat list list" where
  "clear_rows r c m = map (\<lambda>i. if i \<noteq> r then map2 (\<lambda>a b. a - m ! i ! c * b) (m ! i) (m ! r) else m ! i) [0..<length m]"

primrec reduce_columns :: "nat list \<Rightarrow> rat list list \<Rightarrow> nat \<Rightarrow> rat list list option" where
  "reduce_columns [] m rank = Some m"
| "reduce_columns (c # cs) m rank =
     (case find (\<lambda>i. m ! i ! c \<noteq> 0) [rank..<length m] of
        None \<Rightarrow> None
      | Some p \<Rightarrow>
          (let swapped = m[rank := m ! p, p := m ! rank] in
           reduce_columns cs (clear_rows rank c (scale_row rank c swapped)) (Suc rank)))"

definition solve_independent :: "int list list \<Rightarrow> int list \<Rightarrow> rat list option" where
  "solve_independent columns target =
     (let width = length columns;
          start = map (\<lambda>(i, t). map (\<lambda>c. of_int (c ! i)) columns @ [of_int t]) (enumerate 0 target) in
      case reduce_columns [0..<width] start 0 of
        None \<Rightarrow> None
      | Some m \<Rightarrow>
          if \<exists>row \<in> set m. (\<forall>v \<in> set (take width row). v = 0) \<and> last row \<noteq> 0 then None
          else Some (map (\<lambda>i. last (m ! i)) [0..<width]))"

section \<open>The search\<close>

fun combos :: "nat \<Rightarrow> 'a list \<Rightarrow> 'a list list" where
  "combos 0 xs = [[]]"
| "combos (Suc k) [] = []"
| "combos (Suc k) (x # xs) = map ((#) x) (combos k xs) @ combos (Suc k) xs"

datatype implication = Proved certificate nat | Unknown_budget nat | Unknown_no_certificate nat

definition full_weights :: "nat \<Rightarrow> nat list \<Rightarrow> rat list \<Rightarrow> rat list" where
  "full_weights n support solution = fold (\<lambda>(i, w) ws. ws[i := w]) (zip support solution) (replicate n 0)"

text \<open>The body of the search loop: the certificate a support gives, if it gives one.\<close>

definition try_support ::
    "(nat \<Rightarrow> nat option) \<Rightarrow> linineq list \<Rightarrow> linineq \<Rightarrow> int list list \<Rightarrow> int list \<Rightarrow> nat list \<Rightarrow> certificate option" where
  "try_support digit ps t columns vector support =
     (case solve_independent (map (\<lambda>i. columns ! i) support) vector of
        None \<Rightarrow> None
      | Some solution \<Rightarrow>
          if \<exists>w \<in> set solution. w < 0 then None
          else
            (let full = full_weights (length columns) support solution;
                 cert = \<lparr>cert_weights = map rat_text (butlast full), cert_slack = rat_text (last full)\<rparr> in
             if verify_certificate digit ps t cert then Some cert else None))"

primrec try_supports ::
    "(nat list \<Rightarrow> certificate option) \<Rightarrow> nat \<Rightarrow> nat list list \<Rightarrow> nat \<Rightarrow> implication" where
  "try_supports attempt limit [] attempts = Unknown_no_certificate attempts"
| "try_supports attempt limit (support # rest) attempts =
     (if attempts = limit then Unknown_budget attempts
      else case attempt support of
        Some cert \<Rightarrow> Proved cert (Suc attempts)
      | None \<Rightarrow> try_supports attempt limit rest (Suc attempts))"

definition zero_certificate :: "linineq list \<Rightarrow> certificate" where
  "zero_certificate ps = \<lparr>cert_weights = replicate (length ps) [48], cert_slack = [48]\<rparr>"

definition imply :: "(nat \<Rightarrow> nat option) \<Rightarrow> linineq list \<Rightarrow> linineq \<Rightarrow> int \<Rightarrow> exc + implication" where
  "imply digit ps t limit =
     rbind (validate_linear ps t) (\<lambda>_.
     if \<not> (1 \<le> limit \<and> limit \<le> 4096) then Inl (ValueErr ''invalid certificate search budget'')
     else
       (let dimension = length (lin_coeffs t);
            columns = map (\<lambda>p. lin_coeffs p @ [lin_bound p]) ps @ [replicate dimension 0 @ [1]];
            vector = lin_coeffs t @ [lin_bound t];
            supports = concat (map (\<lambda>size. combos size [0..<length columns]) [1..<Suc (min (dimension + 1) (length columns))]) in
        if \<forall>v \<in> set vector. v = 0 then Inr (Proved (zero_certificate ps) 0)
        else Inr (try_supports (try_support digit ps t columns vector) (nat limit) supports 0)))"

section \<open>The check is sound\<close>

definition lin_value :: "linineq \<Rightarrow> (nat \<Rightarrow> int) \<Rightarrow> int" where
  "lin_value p x = (\<Sum>i<length (lin_coeffs p). lin_coeffs p ! i * x i)"

definition lin_holds :: "linineq \<Rightarrow> (nat \<Rightarrow> int) \<Rightarrow> bool" where
  "lin_holds p x = (lin_value p x \<le> lin_bound p)"

lemma weighted_sum:
  fixes ws :: "rat list"
  assumes "length ws = length ps" "\<forall>p \<in> set ps. length (lin_coeffs p) = n"
  shows "(\<Sum>(w, p) \<leftarrow> zip ws ps. w * of_int (lin_value p x))
    = (\<Sum>i<n. (\<Sum>(w, p) \<leftarrow> zip ws ps. w * of_int (lin_coeffs p ! i)) * of_int (x i))"
  using assms
proof (induction ws ps rule: list_induct2)
  case (Cons w ws p ps)
  then have "w * of_int (lin_value p x) = (\<Sum>i<n. w * of_int (lin_coeffs p ! i) * of_int (x i))"
    by (simp add: lin_value_def sum_distrib_left mult.assoc)
  then show ?case using Cons by (simp add: algebra_simps sum.distrib)
qed simp

lemma weighted_le:
  fixes ws :: "rat list"
  assumes "length ws = length ps" "\<forall>w \<in> set ws. 0 \<le> w" "\<forall>p \<in> set ps. lin_holds p x"
  shows "(\<Sum>(w, p) \<leftarrow> zip ws ps. w * of_int (lin_value p x)) \<le> (\<Sum>(w, p) \<leftarrow> zip ws ps. w * of_int (lin_bound p))"
  using assms
proof (induction ws ps rule: list_induct2)
  case (Cons w ws p ps)
  then have "w * of_int (lin_value p x) \<le> w * of_int (lin_bound p)"
    by (intro mult_left_mono) (auto simp: lin_holds_def)
  then show ?case using Cons by simp
qed simp

lemma verify_parts:
  assumes "verify_certificate digit ps t cert"
  obtains ws slack where "length ws = length ps" "\<forall>p \<in> set ps. length (lin_coeffs p) = length (lin_coeffs t)"
    "rmap (rational_of digit) (cert_weights cert) = Inr ws" "rational_of digit (cert_slack cert) = Inr slack"
    "0 \<le> slack" "\<forall>w \<in> set ws. 0 \<le> w"
    "\<And>i. i < length (lin_coeffs t) \<Longrightarrow>
       (\<Sum>(w, p) \<leftarrow> zip ws ps. w * of_int (lin_coeffs p ! i)) = of_int (lin_coeffs t ! i)"
    "(\<Sum>(w, p) \<leftarrow> zip ws ps. w * of_int (lin_bound p)) + slack = of_int (lin_bound t)"
proof -
  obtain ws where ws: "rmap (rational_of digit) (cert_weights cert) = Inr ws" "length (cert_weights cert) = length ps"
    using assms by (cases "rmap (rational_of digit) (cert_weights cert)")
      (auto simp: verify_certificate_def validate_linear_def ensure_def split: if_splits)
  have "length ws = length (cert_weights cert)" using ws(1) by (auto simp: rmap_Inr_iff dest: list_all2_lengthD)
  moreover obtain slack where "rational_of digit (cert_slack cert) = Inr slack"
    using assms ws by (cases "rational_of digit (cert_slack cert)")
      (auto simp: verify_certificate_def validate_linear_def ensure_def split: if_splits)
  ultimately show thesis
    using assms ws by (intro that [of ws slack])
      (auto simp: verify_certificate_def validate_linear_def ensure_def in_set_enumerate_eq split: if_splits)
qed

lemma verified_implies:
  assumes "verify_certificate digit ps t cert" "\<forall>p \<in> set ps. lin_holds p x"
  shows "lin_holds t x"
proof -
  let ?n = "length (lin_coeffs t)"
  obtain ws slack where len: "length ws = length ps" "\<forall>p \<in> set ps. length (lin_coeffs p) = ?n"
    and texts: "rmap (rational_of digit) (cert_weights cert) = Inr ws" "rational_of digit (cert_slack cert) = Inr slack"
    and nonneg: "0 \<le> slack" "\<forall>w \<in> set ws. 0 \<le> w"
    and coeffs: "\<And>i. i < ?n \<Longrightarrow> (\<Sum>(w, p) \<leftarrow> zip ws ps. w * of_int (lin_coeffs p ! i)) = of_int (lin_coeffs t ! i)"
    and bound: "(\<Sum>(w, p) \<leftarrow> zip ws ps. w * of_int (lin_bound p)) + slack = of_int (lin_bound t)"
    by (rule verify_parts [OF assms(1)]) (rule that; simp)
  have "(of_int (lin_value t x) :: rat) = (\<Sum>i<?n. (\<Sum>(w, p) \<leftarrow> zip ws ps. w * of_int (lin_coeffs p ! i)) * of_int (x i))"
    by (simp add: lin_value_def coeffs)
  also have "\<dots> = (\<Sum>(w, p) \<leftarrow> zip ws ps. w * of_int (lin_value p x))" by (rule weighted_sum [OF len, symmetric])
  also have "\<dots> \<le> (\<Sum>(w, p) \<leftarrow> zip ws ps. w * of_int (lin_bound p))" by (rule weighted_le [OF len(1) nonneg(2) assms(2)])
  also have "\<dots> \<le> of_int (lin_bound t)" using bound nonneg(1) by simp
  finally show ?thesis by (simp add: lin_holds_def)
qed

text \<open>C28: a certificate that \<open>verify_certificate\<close> accepts proves its target: the target holds at every integer
  point at which all premises hold.\<close>

theorem verify_certificate_sound:
  assumes "verify_certificate digit ps t cert"
  shows "{x. \<forall>p \<in> set ps. lin_holds p x} \<subseteq> {x. lin_holds t x}"
  using verified_implies [OF assms] by blast

end
