(* ===== verification/Linear_Text.thy ===== *)
theory Linear_Text
  imports Linear_Farkas
begin

text \<open>
  The texts of certificates: \<open>_rational\<close> reads back what \<open>str\<close> of a fraction writes, up to the length
  and size limits it enforces.
\<close>

section \<open>Decimal text\<close>

text \<open>What the standard library promises about the ASCII digits, the minus sign and the slash.\<close>

definition ascii_digits :: "(nat \<Rightarrow> nat option) \<Rightarrow> bool" where
  "ascii_digits digit = (list_all (\<lambda>k. digit (48 + k) = Some k) [0..<10] \<and> digit 45 = None \<and> digit 47 = None)"

lemma ascii_digit: "ascii_digits digit \<Longrightarrow> k < 10 \<Longrightarrow> digit (48 + k) = Some k"
  unfolding ascii_digits_def list_all_iff set_upt by (metis atLeastLessThan_iff le0)

definition decimal :: "nat \<Rightarrow> utext" where
  "decimal n = u (nat_text n)"

lemma decimal_simps: "decimal n = (if n < 10 then [48 + n] else decimal (n div 10) @ [48 + n mod 10])"
proof -
  have "of_char (char_of (48 + k) :: char) = 48 + k" if "k < 10" for k :: nat
    using that by (simp add: of_char_of)
  then show ?thesis unfolding decimal_def by (subst nat_text.simps) (simp add: u_def)
qed

lemma decimal_digits: "list_all (\<lambda>c. 48 \<le> c \<and> c \<le> 57) (decimal n) \<and> decimal n \<noteq> []"
proof (induction n rule: less_induct)
  case (less n)
  show ?case
  proof (cases "n < 10")
    case False
    then have "n div 10 < n" by simp
    have "n mod 10 \<le> 9" by presburger
    with less.IH [OF \<open>n div 10 < n\<close>] show ?thesis by (subst (1 2) decimal_simps) simp
  qed (simp add: decimal_simps)
qed

lemma decimal_value: "ascii_digits digit \<Longrightarrow> digits_value digit (decimal n) = n"
proof (induction n rule: less_induct)
  case (less n)
  note d = ascii_digit [OF less.prems]
  show ?case
  proof (cases "n < 10")
    case True
    then show ?thesis using d [of n] by (simp add: decimal_simps digits_value_def)
  next
    case False
    then have "n div 10 < n" by simp
    then have "digits_value digit (decimal (n div 10)) = n div 10" using less by blast
    then show ?thesis using False d [of "n mod 10"] by (subst decimal_simps) (simp add: digits_value_def)
  qed
qed

lemma decimal_head: "0 < n \<Longrightarrow> 49 \<le> hd (decimal n)"
proof (induction n rule: less_induct)
  case (less n)
  show ?case
  proof (cases "n < 10")
    case False
    then have "n div 10 < n" "0 < n div 10" by auto
    with less.IH [of "n div 10"] show ?thesis using decimal_digits [of "n div 10"]
      by (subst decimal_simps) (simp add: False)
  qed (use less.prems in \<open>simp add: decimal_simps\<close>)
qed

lemma decimal_scan:
  assumes "ascii_digits digit"
  shows "\<forall>c \<in> set (decimal n). digit c \<noteq> None"
proof
  fix c assume "c \<in> set (decimal n)"
  then have "48 \<le> c" "c \<le> 57" using decimal_digits [of n] by (auto simp: list_all_iff)
  then have "digit (48 + (c - 48)) = Some (c - 48)" by (intro ascii_digit [OF assms]) simp
  then show "digit c \<noteq> None" using \<open>48 \<le> c\<close> by simp
qed

lemma int_text_decimal: "u (int_text n) = (if n < 0 then 45 # decimal (nat (- n)) else decimal (nat n))"
  by (simp add: int_text_def decimal_def u_def)

section \<open>Fractions\<close>

lemma read_number:
  assumes A: "ascii_digits digit" and rest: "rest = [] \<or> hd rest = 47"
  shows "takeWhile (\<lambda>c. digit c \<noteq> None) (decimal k @ rest) = decimal k"
    and "dropWhile (\<lambda>c. digit c \<noteq> None) (decimal k @ rest) = rest"
proof -
  have "takeWhile (\<lambda>c. digit c \<noteq> None) rest = []" "dropWhile (\<lambda>c. digit c \<noteq> None) rest = rest"
    using rest A by (cases rest; simp add: ascii_digits_def)+
  then show "takeWhile (\<lambda>c. digit c \<noteq> None) (decimal k @ rest) = decimal k"
    and "dropWhile (\<lambda>c. digit c \<noteq> None) (decimal k @ rest) = rest"
    using decimal_scan [OF A] by (simp_all add: takeWhile_append2 dropWhile_append2)
qed

lemma read_fraction_text:
  assumes A: "ascii_digits digit" and d: "0 < d" and rest: "rest = (if d = 1 then [] else 47 # decimal (nat d))"
  shows "read_fraction digit (u (int_text n) @ rest) = Some (n, d)"
proof -
  let ?k = "nat \<bar>n\<bar>"
  have r: "rest = [] \<or> hd rest = 47" using rest by auto
  have hd: "hd (decimal ?k @ rest) \<noteq> 45" "decimal ?k \<noteq> []"
    using decimal_digits [of ?k] by (cases "decimal ?k"; auto)+
  have "0 < nat d" using d by simp
  note den = decimal_digits [of "nat d"] decimal_head [OF this] decimal_scan [OF A, of "nat d"] decimal_value [OF A, of "nat d"]
  have upper: "hd (decimal (nat d)) \<le> 57" using den(1) by (cases "decimal (nat d)") auto
  note scan = read_number [OF A r] decimal_value [OF A]
  have tail: "(case rest of [] \<Rightarrow> Some (m, 1)
      | c # den \<Rightarrow> if c = 47 \<and> den \<noteq> [] \<and> 49 \<le> hd den \<and> hd den \<le> 57 \<and> list_all (\<lambda>c. digit c \<noteq> None) den
          then Some (m, int (digits_value digit den)) else None) = Some (m, d)" for m :: int
    using den upper d by (auto simp: rest list_all_iff)
  show ?thesis
  proof (cases "n < 0")
    case True
    then have t: "u (int_text n) @ rest = 45 # decimal ?k @ rest" by (simp add: int_text_decimal)
    have "n = - int ?k" using True by simp
    then show ?thesis unfolding t read_fraction_def Let_def using hd(2) tail by (simp add: scan del: not_None_eq)
  next
    case False
    then have t: "u (int_text n) @ rest = decimal ?k @ rest" by (simp add: int_text_decimal)
    have "n = int ?k" using False by simp
    then show ?thesis unfolding t read_fraction_def Let_def using hd tail by (simp add: scan del: not_None_eq)
  qed
qed

text \<open>Reading the text of a rational number gives the number back, unless the text is longer than
  100 characters or the reduced fraction needs more than 256 bits.\<close>

theorem rational_text_roundtrip:
  assumes "ascii_digits digit"
  shows "rational_of digit (rat_text w) =
    (if 100 < length (rat_text w) then Inl (ValueErr ''invalid rational certificate'')
     else if 2 ^ 256 \<le> max \<bar>fst (quotient_of w)\<bar> (snd (quotient_of w)) then Inl (ValueErr ''certificate arithmetic budget'')
     else Inr w)"
proof -
  obtain n d where q: "quotient_of w = (n, d)" by (cases "quotient_of w")
  have d: "0 < d" and w: "w = Fract n d" using quotient_of_denom_pos [OF q] quotient_of_div [OF q] by (simp_all add: Fract_of_int_quotient)
  have "rat_text w = u (int_text n) @ (if d = 1 then [] else 47 # decimal (nat d))"
    using d by (simp add: rat_text_def q int_text_decimal [of d])
  then have "read_fraction digit (rat_text w) = Some (n, d)"
    using read_fraction_text [OF assms d refl] by simp
  then show ?thesis using d by (simp add: rational_of_def w [symmetric] q Let_def)
qed

section \<open>Examples\<close>

definition ascii_digit_value :: "nat \<Rightarrow> nat option" where
  "ascii_digit_value c = (if 48 \<le> c \<and> c \<le> 57 then Some (c - 48) else None)"

lemma ascii_digits_example: "ascii_digits ascii_digit_value"
  by (simp add: ascii_digits_def ascii_digit_value_def upt_conv_Cons)

theorem rational_text_roundtrip_witness: "rational_of ascii_digit_value (rat_text (- 3 / 7)) = Inr (- 3 / 7)"
proof -
  have q: "quotient_of (- 3 / 7) = (- 3, 7)" by code_simp
  have t: "rat_text (- 3 / 7) = [45, 51, 47, 55]" by code_simp
  show ?thesis using rational_text_roundtrip [OF ascii_digits_example, of "- 3 / 7"] unfolding t q by simp
qed

text \<open>From \<open>x0 \<le> 3\<close> the target \<open>2 * x0 \<le> 7\<close> follows with weight 2 and slack 1.\<close>

theorem verify_certificate_sound_witness:
  "{x. lin_holds \<lparr>lin_coeffs = [1], lin_bound = 3\<rparr> x} \<subseteq> {x. lin_holds \<lparr>lin_coeffs = [2], lin_bound = 7\<rparr> x}"
proof -
  have "verify_certificate ascii_digit_value [\<lparr>lin_coeffs = [1], lin_bound = 3\<rparr>] \<lparr>lin_coeffs = [2], lin_bound = 7\<rparr>
    \<lparr>cert_weights = [[50]], cert_slack = [49]\<rparr>" by code_simp
  from verify_certificate_sound [OF this] show ?thesis by simp
qed

end
