(* ===== verification/Linear_Solve.thy ===== *)
theory Linear_Solve
  imports Linear_Text
begin

text \<open>
  The exact elimination of \<open>_solve_independent\<close>: it returns the weights of a support exactly when the
  columns are independent and the target is a combination of them, and then there are no other weights.
\<close>

section \<open>Systems of equations\<close>

text \<open>What a row of \<open>width\<close> coefficients and a right-hand side leaves over; \<open>r\<close> is 1 for the system
  itself and 0 for the homogeneous one.\<close>

definition residue :: "nat \<Rightarrow> rat list \<Rightarrow> (nat \<Rightarrow> rat) \<Rightarrow> rat \<Rightarrow> rat" where
  "residue width row w r = (\<Sum>j<width. row ! j * w j) - r * row ! width"

definition kills :: "nat \<Rightarrow> rat list list \<Rightarrow> (nat \<Rightarrow> rat) \<Rightarrow> rat \<Rightarrow> bool" where
  "kills width m w r = (\<forall>i < length m. residue width (m ! i) w r = 0)"

definition rows_of :: "nat \<Rightarrow> rat list list \<Rightarrow> bool" where
  "rows_of width m = (\<forall>i < length m. length (m ! i) = Suc width)"

text \<open>The first \<open>c\<close> columns are unit vectors.\<close>

definition unit_columns :: "nat \<Rightarrow> rat list list \<Rightarrow> bool" where
  "unit_columns c m = (c \<le> length m \<and> (\<forall>i < length m. \<forall>j < c. m ! i ! j = of_bool (i = j)))"

lemma residue_scale:
  assumes "length row = Suc width"
  shows "residue width (map (\<lambda>v. v / k) row) w r = residue width row w r / k"
  using assms by (simp add: residue_def sum_divide_distrib diff_divide_distrib)

lemma residue_sub:
  assumes "length a = Suc width" "length b = Suc width"
  shows "residue width (map2 (\<lambda>x y. x - k * y) a b) w r = residue width a w r - k * residue width b w r"
  using assms by (simp add: residue_def sum_distrib_left algebra_simps sum_subtractf)

lemma swap_kills:
  assumes "i < length m" "j < length m"
  shows "kills width (m[i := m ! j, j := m ! i]) w r = kills width m w r"
    and "rows_of width m \<Longrightarrow> rows_of width (m[i := m ! j, j := m ! i])"
proof -
  let ?P = "\<lambda>row. residue width row w r = 0"
  have "(\<forall>row \<in> set (m[i := m ! j, j := m ! i]). ?P row) = (\<forall>row \<in> set m. ?P row)"
    using assms by (simp add: set_swap)
  then show "kills width (m[i := m ! j, j := m ! i]) w r = kills width m w r"
    by (simp add: kills_def all_set_conv_all_nth)
  have "(\<forall>row \<in> set (m[i := m ! j, j := m ! i]). length row = Suc width) = (\<forall>row \<in> set m. length row = Suc width)"
    using assms by (simp add: set_swap)
  then show "rows_of width m \<Longrightarrow> rows_of width (m[i := m ! j, j := m ! i])"
    by (simp add: rows_of_def all_set_conv_all_nth)
qed

lemma scale_nth: "k < length m \<Longrightarrow> i < length m \<Longrightarrow>
    scale_row k c m ! i = (if i = k then map (\<lambda>v. v / (m ! k ! c)) (m ! k) else m ! i)"
  by (auto simp: scale_row_def nth_list_update)

lemma clear_rows_nth: "i < length m \<Longrightarrow>
    clear_rows k c m ! i = (if i \<noteq> k then map2 (\<lambda>a b. a - m ! i ! c * b) (m ! i) (m ! k) else m ! i)"
  by (simp add: clear_rows_def)

lemma length_scale [simp]: "length (scale_row k c m) = length m"
  and length_clear_rows [simp]: "length (clear_rows k c m) = length m"
  by (simp_all add: scale_row_def clear_rows_def)

lemma scale_kills:
  assumes "rows_of width m" "k < length m" "m ! k ! c \<noteq> 0"
  shows "kills width (scale_row k c m) w r = kills width m w r" and "rows_of width (scale_row k c m)"
  using assms by (auto simp: kills_def rows_of_def scale_nth residue_scale)

lemma clear_kills:
  assumes "rows_of width m" "k < length m"
  shows "kills width (clear_rows k c m) w r = kills width m w r" and "rows_of width (clear_rows k c m)"
proof -
  have res: "residue width (clear_rows k c m ! i) w r
      = (if i \<noteq> k then residue width (m ! i) w r - m ! i ! c * residue width (m ! k) w r else residue width (m ! i) w r)"
    if "i < length m" for i
    using that assms by (simp add: clear_rows_nth residue_sub rows_of_def)
  show "kills width (clear_rows k c m) w r = kills width m w r"
  proof (cases "residue width (m ! k) w r = 0")
    case True
    have "residue width (clear_rows k c m ! i) w r = residue width (m ! i) w r" if "i < length m" for i
      using res [OF that] by (simp add: True)
    then show ?thesis by (simp add: kills_def)
  next
    case False
    then show ?thesis using res [OF assms(2)] assms(2) by (auto simp: kills_def)
  qed
  show "rows_of width (clear_rows k c m)"
    using assms by (auto simp: rows_of_def clear_rows_nth)
qed

section \<open>The elimination loop\<close>

lemma unit_step:
  assumes U: "unit_columns c m" and R: "rows_of width m" and c: "c < width" and p: "c \<le> p" "p < length m" "m ! p ! c \<noteq> 0"
  defines "s \<equiv> m[c := m ! p, p := m ! c]"
  shows "unit_columns (Suc c) (clear_rows c c (scale_row c c s))" and "rows_of width (clear_rows c c (scale_row c c s))"
    and "kills width (clear_rows c c (scale_row c c s)) w r = kills width m w r"
proof -
  have k: "c < length m" using p by simp
  have ls: "length s = length m" by (simp add: s_def)
  have s: "s ! i = (if i = p then m ! c else if i = c then m ! p else m ! i)" if "i < length m" for i
    using that k p(2) by (auto simp: s_def nth_list_update)
  have rs: "rows_of width s" unfolding s_def using swap_kills(2) [OF k p(2) R] .
  have pivot: "s ! c ! c \<noteq> 0" using s [OF k] p(3) by auto
  have cs: "c < length s" using k ls by simp
  note rt = scale_kills(2) [OF rs cs pivot]
  have ct: "c < length (scale_row c c s)" using cs by simp
  show "rows_of width (clear_rows c c (scale_row c c s))" by (rule clear_kills(2) [OF rt ct])
  show "kills width (clear_rows c c (scale_row c c s)) w r = kills width m w r"
    unfolding clear_kills(1) [OF rt ct] scale_kills(1) [OF rs cs pivot] unfolding s_def by (rule swap_kills(1) [OF k p(2)])
  have old: "m ! i ! j = of_bool (i = j)" if "i < length m" "j < c" for i j
    using U that by (simp add: unit_columns_def)
  have sold: "s ! i ! j = of_bool (i = j)" if "i < length m" "j < c" for i j
    using that s old p k by auto
  have len: "length (s ! i) = Suc width" if "i < length m" for i using rs that ls by (simp add: rows_of_def)
  have t: "scale_row c c s ! i ! j = (if i = c then s ! c ! j / s ! c ! c else s ! i ! j)"
    if "i < length m" "j < Suc width" for i j
    using that cs ls len [OF k] by (simp add: scale_nth)
  have u: "clear_rows c c (scale_row c c s) ! i ! j
      = (if i = c then s ! c ! j / s ! c ! c else s ! i ! j - s ! i ! c * (s ! c ! j / s ! c ! c))"
    if "i < length m" "j < Suc width" for i j
  proof -
    have "length (scale_row c c s ! i) = Suc width" "length (scale_row c c s ! c) = Suc width"
      using rt that k ls by (auto simp: rows_of_def)
    then show ?thesis using that t c k ls by (simp add: clear_rows_nth)
  qed
  have "clear_rows c c (scale_row c c s) ! i ! j = of_bool (i = j)" if "i < length m" "j < Suc c" for i j
  proof (cases "j = c")
    case True
    then show ?thesis using u [OF that(1), of c] c pivot by simp
  next
    case False
    then have j: "j < c" using that by simp
    then show ?thesis using u [OF that(1), of j] c sold [OF that(1) j] sold [OF k j] by auto
  qed
  then show "unit_columns (Suc c) (clear_rows c c (scale_row c c s))"
    using k ls by (simp add: unit_columns_def)
qed

text \<open>A column without a pivot depends on the ones before it.\<close>

lemma no_pivot:
  assumes U: "unit_columns c m" and c: "c < width" and no: "\<And>i. i < length m \<Longrightarrow> c \<le> i \<Longrightarrow> m ! i ! c = 0"
  shows "\<exists>w. kills width m w 0 \<and> w c = 1"
proof -
  define w where "w j = (if j = c then 1 else if j < c then - (m ! j ! c) else 0)" for j
  have "residue width (m ! i) w 0 = 0" if i: "i < length m" for i
  proof -
    have split: "{..<width} = insert c ({..<c} \<union> {Suc c..<width})" using c by auto
    have "(\<Sum>j<width. m ! i ! j * w j) = m ! i ! c * w c + (\<Sum>j<c. m ! i ! j * w j) + (\<Sum>j\<in>{Suc c..<width}. m ! i ! j * w j)"
      unfolding split by (subst sum.insert) (auto intro: sum.union_disjoint)
    also have "(\<Sum>j\<in>{Suc c..<width}. m ! i ! j * w j) = 0" by (intro sum.neutral) (auto simp: w_def)
    also have "(\<Sum>j<c. m ! i ! j * w j) = (\<Sum>j<c. if i = j then - (m ! i ! c) else 0)"
      using U i by (intro sum.cong) (auto simp: w_def unit_columns_def)
    also have "\<dots> = (if i < c then - (m ! i ! c) else 0)" by (simp add: sum.delta)
    finally show ?thesis using no [OF i] by (auto simp: residue_def w_def)
  qed
  then show ?thesis by (intro exI [of _ w]) (simp add: kills_def w_def)
qed

lemma reduce_columns_result:
  "c \<le> width \<Longrightarrow> unit_columns c m \<Longrightarrow> rows_of width m \<Longrightarrow>
    (case reduce_columns [c..<width] m c of
       None \<Rightarrow> \<exists>w j. kills width m w 0 \<and> j < width \<and> w j \<noteq> 0
     | Some m' \<Rightarrow> unit_columns width m' \<and> rows_of width m' \<and> (\<forall>w r. kills width m' w r = kills width m w r))"
proof (induction "width - c" arbitrary: c m)
  case 0
  then show ?case by simp
next
  case (Suc k)
  then have c: "c < width" by simp
  have split: "[c..<width] = c # [Suc c..<width]" using c by (simp add: upt_conv_Cons)
  show ?case
  proof (cases "find (\<lambda>i. m ! i ! c \<noteq> 0) [c..<length m]")
    case None
    then have "m ! i ! c = 0" if "i < length m" "c \<le> i" for i using that by (auto simp: find_None_iff)
    from no_pivot [OF Suc.prems(2) c this] obtain w where "kills width m w 0" "w c = 1" by auto
    then have "\<exists>w j. kills width m w 0 \<and> j < width \<and> w j \<noteq> 0" using c by (metis zero_neq_one)
    then show ?thesis using split None by simp
  next
    case (Some p)
    then have p: "c \<le> p" "p < length m" "m ! p ! c \<noteq> 0" using find_SomeD [OF Some] by auto
    note step = unit_step [OF Suc.prems(2,3) c p]
    have "k = width - Suc c" "Suc c \<le> width" using Suc.hyps(2) c by auto
    from Suc.hyps(1) [OF this step(1,2)] show ?thesis
      by (simp only: split reduce_columns.simps Some option.case Let_def step(3))
  qed
qed

section \<open>The solver\<close>

text \<open>The combination of the columns with the weights \<open>w\<close>, in row \<open>i\<close>.\<close>

definition combination :: "int list list \<Rightarrow> (nat \<Rightarrow> rat) \<Rightarrow> nat \<Rightarrow> rat" where
  "combination columns w i = (\<Sum>j<length columns. of_int (columns ! j ! i) * w j)"

definition start_matrix :: "int list list \<Rightarrow> int list \<Rightarrow> rat list list" where
  "start_matrix columns target =
     map (\<lambda>(i, t). map (\<lambda>c. of_int (c ! i)) columns @ [of_int t]) (enumerate 0 target)"

lemma start_nth: "i < length target \<Longrightarrow>
    start_matrix columns target ! i = map (\<lambda>c. of_int (c ! i)) columns @ [of_int (target ! i)]"
  by (simp add: start_matrix_def nth_enumerate_eq)

lemma start_kills:
  "kills (length columns) (start_matrix columns target) w r
     \<longleftrightarrow> (\<forall>i < length target. combination columns w i = r * of_int (target ! i))"
proof -
  have "residue (length columns) (start_matrix columns target ! i) w r = combination columns w i - r * of_int (target ! i)"
    if "i < length target" for i
    using that by (simp add: start_nth residue_def combination_def nth_append)
  moreover have "length (start_matrix columns target) = length target" by (simp add: start_matrix_def)
  ultimately show ?thesis by (simp add: kills_def)
qed

lemma unit_kills:
  assumes "unit_columns width m"
  shows "kills width m w 1 \<longleftrightarrow> (\<forall>i < length m. (if i < width then w i else 0) = m ! i ! width)"
proof -
  have "(\<Sum>j<width. m ! i ! j * w j) = (if i < width then w i else 0)" if "i < length m" for i
  proof -
    have "(\<Sum>j<width. m ! i ! j * w j) = (\<Sum>j<width. if i = j then w j else 0)"
      using assms that by (intro sum.cong) (auto simp: unit_columns_def)
    then show ?thesis by (simp add: sum.delta)
  qed
  then show ?thesis by (simp add: kills_def residue_def)
qed

text \<open>\<open>_solve_independent\<close> returns the only weights whose combination of the columns is the target; it
  returns nothing only when there are no such weights or the columns are dependent.\<close>

theorem solve_independent_exact:
  "case solve_independent columns target of
     Some sol \<Rightarrow> length sol = length columns \<and>
       {w. \<forall>i < length target. combination columns w i = of_int (target ! i)} = {w. \<forall>j < length columns. w j = sol ! j}
   | None \<Rightarrow> {w. \<forall>i < length target. combination columns w i = of_int (target ! i)} = {}
       \<or> (\<exists>w j. (\<forall>i < length target. combination columns w i = 0) \<and> j < length columns \<and> w j \<noteq> 0)"
proof -
  let ?width = "length columns" and ?start = "start_matrix columns target"
  have "length ?start = length target" by (simp add: start_matrix_def)
  then have r0: "rows_of ?width ?start" by (simp add: rows_of_def start_nth)
  have u0: "unit_columns 0 ?start" by (simp add: unit_columns_def)
  have solve: "solve_independent columns target = (case reduce_columns [0..<?width] ?start 0 of None \<Rightarrow> None
      | Some m \<Rightarrow> if \<exists>row \<in> set m. (\<forall>v \<in> set (take ?width row). v = 0) \<and> last row \<noteq> 0 then None
          else Some (map (\<lambda>i. last (m ! i)) [0..<?width]))"
    by (simp add: solve_independent_def start_matrix_def Let_def)
  have result: "case reduce_columns [0..<?width] ?start 0 of
       None \<Rightarrow> \<exists>w j. kills ?width ?start w 0 \<and> j < ?width \<and> w j \<noteq> 0
     | Some m' \<Rightarrow> unit_columns ?width m' \<and> rows_of ?width m' \<and> (\<forall>w r. kills ?width m' w r = kills ?width ?start w r)"
    by (rule reduce_columns_result [OF _ u0 r0]) simp
  show ?thesis
  proof (cases "reduce_columns [0..<?width] ?start 0")
    case None
    then show ?thesis using result by (auto simp: solve start_kills)
  next
    case (Some m)
    then have U: "unit_columns ?width m" and R: "rows_of ?width m"
      and K: "\<And>w r. kills ?width m w r = kills ?width ?start w r" using result by auto
    have wm: "?width \<le> length m" using U by (simp add: unit_columns_def)
    have lst: "last (m ! i) = m ! i ! ?width" if "i < length m" for i
      using R that by (simp add: rows_of_def last_conv_nth) (metis Suc_neq_Zero diff_Suc_1 last_conv_nth list.size(3))
    have row: "(\<forall>v \<in> set (take ?width (m ! i)). v = 0) \<longleftrightarrow> ?width \<le> i" if "i < length m" for i
    proof -
      have "(\<forall>v \<in> set (take ?width (m ! i)). v = 0) \<longleftrightarrow> (\<forall>j < ?width. m ! i ! j = 0)"
        using R that by (simp add: all_set_conv_all_nth rows_of_def)
      also have "\<dots> \<longleftrightarrow> ?width \<le> i" using U that by (auto simp: unit_columns_def intro: leI)
      finally show ?thesis .
    qed
    have bad: "(\<exists>row \<in> set m. (\<forall>v \<in> set (take ?width row). v = 0) \<and> last row \<noteq> 0)
        \<longleftrightarrow> (\<exists>i < length m. ?width \<le> i \<and> m ! i ! ?width \<noteq> 0)"
    proof -
      have "(\<exists>row \<in> set m. P row) \<longleftrightarrow> (\<exists>i < length m. P (m ! i))" for P
        by (metis in_set_conv_nth)
      note this [of "\<lambda>row. (\<forall>v \<in> set (take ?width row). v = 0) \<and> last row \<noteq> 0"]
      also have "(\<exists>i < length m. (\<forall>v \<in> set (take ?width (m ! i)). v = 0) \<and> last (m ! i) \<noteq> 0)
          \<longleftrightarrow> (\<exists>i < length m. ?width \<le> i \<and> m ! i ! ?width \<noteq> 0)"
        using row lst by (intro ex_cong1) (simp cong: conj_cong)
      finally show ?thesis .
    qed
    have sols: "(\<forall>i < length target. combination columns w i = of_int (target ! i))
        \<longleftrightarrow> (\<forall>i < length m. (if i < ?width then w i else 0) = m ! i ! ?width)" for w
      using K [of w 1] unit_kills [OF U, of w] start_kills [of columns target w 1] by simp
    show ?thesis
    proof (cases "\<exists>i < length m. ?width \<le> i \<and> m ! i ! ?width \<noteq> 0")
      case True
      then obtain i where i: "i < length m" "\<not> i < ?width" "m ! i ! ?width \<noteq> 0" by auto
      have "\<not> (\<forall>i < length m. (if i < ?width then w i else 0) = m ! i ! ?width)" for w :: "nat \<Rightarrow> rat"
        using i by (metis (mono_tags))
      then have "{w. \<forall>i < length target. combination columns w i = of_int (target ! i)} = {}" unfolding sols by simp
      then show ?thesis using True by (simp add: solve Some bad)
    next
      case False
      have "(\<forall>i < length m. (if i < ?width then w i else 0) = m ! i ! ?width) \<longleftrightarrow> (\<forall>j < ?width. w j = m ! j ! ?width)" for w
        using False wm by (auto simp: not_less)
      moreover have "solve_independent columns target = Some (map (\<lambda>i. last (m ! i)) [0..<?width])"
        unfolding solve Some option.case bad if_not_P [OF False] by (rule refl)
      ultimately show ?thesis using wm lst by (simp add: sols)
    qed
  qed
qed

theorem solve_independent_exact_witness:
  "solve_independent [[2, 1]] [6, 3] = Some [3]
   \<and> {w. combination [[2, 1]] w 0 = 6 \<and> combination [[2, 1]] w 1 = 3} = {w. w 0 = 3}"
proof -
  have e: "solve_independent [[2, 1]] [6, 3] = Some [3]" by code_simp
  let ?cols = "[[2, 1]] :: int list list" and ?target = "[6, 3] :: int list"
  have "{w. \<forall>i < length ?target. combination ?cols w i = of_int (?target ! i)} = {w. \<forall>j < length ?cols. w j = [3] ! j}"
    using solve_independent_exact [where columns = ?cols and target = ?target] unfolding e by simp
  then show ?thesis using e by (simp add: All_less_Suc numeral_2_eq_2 conj_commute)
qed

end
