(* ===== verification/Linear_Infer.thy ===== *)
theory Linear_Infer
  imports Linear_Solve
begin

text \<open>
  The users of the certificate search in \<open>jevops/linear_invariants.py\<close>: the rendered obligations, the
  removal of redundant constraints, and the Houdini loop for guarded affine transitions over the
  integers.
\<close>

section \<open>Rendered inequalities and obligations\<close>

definition join_text :: "utext \<Rightarrow> utext list \<Rightarrow> utext" where
  "join_text sep xs = (case xs of [] \<Rightarrow> [] | x # rest \<Rightarrow> x @ concat (map (\<lambda>y. sep @ y) rest))"

definition text_or :: "utext \<Rightarrow> utext \<Rightarrow> utext" where
  "text_or a b = (if a \<noteq> [] then a else b)"

definition lin_terms :: "int list \<Rightarrow> utext" where
  "lin_terms cs = text_or (join_text (u '' + '')
     (map (\<lambda>(i, a). u ''('' @ u (int_text a) @ u '') * x'' @ u (nat_text i)) (filter (\<lambda>(i, a). a \<noteq> 0) (enumerate 0 cs))))
     (u ''(0 : Int)'')"

definition lin_lean :: "linineq \<Rightarrow> utext" where
  "lin_lean p = u ''('' @ lin_terms (lin_coeffs p) @ u '') '' @ [8804] @ u '' ('' @ u (int_text (lin_bound p)) @ u '')''"

definition is_name_letter :: "nat \<Rightarrow> bool" where
  "is_name_letter c = (65 \<le> c \<and> c \<le> 90 \<or> 97 \<le> c \<and> c \<le> 122)"

definition is_lemma_name :: "utext \<Rightarrow> bool" where
  "is_lemma_name t = (t \<noteq> [] \<and> is_name_letter (hd t) \<and> list_all (\<lambda>c. is_name_letter c \<or> 48 \<le> c \<and> c \<le> 57 \<or> c = 95) (tl t))"

definition linear_obligation ::
    "(nat \<Rightarrow> nat option) \<Rightarrow> linineq list \<Rightarrow> linineq \<Rightarrow> certificate \<Rightarrow> utext \<Rightarrow> exc + utext" where
  "linear_obligation digit ps t cert name =
     (if \<not> is_lemma_name name \<or> \<not> verify_certificate digit ps t cert
        then Inl (ValueErr ''cannot render invalid certificate/name'')
      else
        rbind (rmap (rational_of digit) (cert_weights cert)) (\<lambda>ws.
        let used = map fst (filter (\<lambda>(i, w). w \<noteq> 0) (enumerate 0 ws));
            variables = join_text (u '' '') (map (\<lambda>i. u ''x'' @ u (nat_text i)) [0..<length (lin_coeffs t)]);
            hypotheses = join_text (u '' '') (map (\<lambda>i. u ''(h'' @ u (nat_text i) @ u '' : '' @ lin_lean (ps ! i) @ u '')'') used);
            support = join_text (u '', '') (map (\<lambda>i. u ''h'' @ u (nat_text i)) used) in
        Inr (u ''theorem '' @ name @ u '' ('' @ variables @ u '' : Int) '' @ hypotheses @ u '' : '' @ lin_lean t @ u '' := by'' @ [10]
          @ u ''  linarith only ['' @ support @ u '']'' @ [10])))"

section \<open>Redundant constraints\<close>

definition others_of :: "nat list \<Rightarrow> nat \<Rightarrow> nat list" where
  "others_of active i = filter (\<lambda>j. j \<noteq> i) active"

record linear_removal =
  lr_index :: nat
  lr_premises :: "nat list"
  lr_certificate :: certificate
  lr_attempts :: nat
  lr_obligation :: utext

primrec remove_implied ::
    "(nat \<Rightarrow> nat option) \<Rightarrow> linineq list \<Rightarrow> int \<Rightarrow> nat list \<Rightarrow> nat list \<Rightarrow> linear_removal list \<Rightarrow> exc + nat list \<times> linear_removal list" where
  "remove_implied digit cs limit [] active removed = Inr (active, removed)"
| "remove_implied digit cs limit (i # is) active removed =
     (let rest = others_of active i; ps = map (\<lambda>j. cs ! j) rest in
      rbind (imply digit ps (cs ! i) limit) (\<lambda>result.
        case result of
          Proved cert attempts \<Rightarrow>
            rbind (linear_obligation digit ps (cs ! i) cert (u ''redundant_'' @ u (nat_text i))) (\<lambda>lean.
            remove_implied digit cs limit is rest
              (removed @ [\<lparr>lr_index = i, lr_premises = rest, lr_certificate = cert, lr_attempts = attempts, lr_obligation = lean\<rparr>]))
        | _ \<Rightarrow> remove_implied digit cs limit is active removed))"

definition reduce_constraints ::
    "(nat \<Rightarrow> nat option) \<Rightarrow> linineq list \<Rightarrow> int \<Rightarrow> exc + nat list \<times> linear_removal list" where
  "reduce_constraints digit cs limit =
     (if cs = [] \<or> 16 < length cs then Inl (ValueErr ''expected 1..16 linear constraints'')
      else rbind (validate_linear cs (hd cs)) (\<lambda>_. remove_implied digit cs limit [0..<length cs] [0..<length cs] []))"

section \<open>Affine updates\<close>

definition pullback :: "linineq \<Rightarrow> int list list \<Rightarrow> int list \<Rightarrow> exc + linineq" where
  "pullback t matrix offset =
     (let n = length (lin_coeffs t) in
      if length matrix \<noteq> n \<or> length offset \<noteq> n \<or> (\<exists>r \<in> set matrix. length r \<noteq> n)
        then Inl (ValueErr ''affine update dimension mismatch'')
      else if \<not> (\<forall>row \<in> set matrix. \<forall>x \<in> set row. is_integer32 x) \<or> \<not> (\<forall>x \<in> set offset. is_integer32 x)
        then Inl (ValueErr ''affine update must use bounded integer coefficients'')
      else mk_linineq (map (\<lambda>j. sum_list (map (\<lambda>i. lin_coeffs t ! i * matrix ! i ! j) [0..<n])) [0..<n])
             (lin_bound t - sum_list (map2 (*) (lin_coeffs t) offset)))"

definition affine_goal :: "linineq \<Rightarrow> int list list \<Rightarrow> int list \<Rightarrow> utext" where
  "affine_goal t matrix offset =
     (let terms = map (\<lambda>(a, row, c).
            u ''('' @ u (int_text a) @ u '') * (('' @ lin_terms row @ u '') + ('' @ u (int_text c) @ u ''))'')
          (filter (\<lambda>(a, row, c). a \<noteq> 0) (zip (lin_coeffs t) (zip matrix offset))) in
      u ''('' @ text_or (join_text (u '' + '') terms) (u ''(0 : Int)'') @ u '') '' @ [8804] @ u '' ('' @ u (int_text (lin_bound t)) @ u '')'')"

text \<open>\<open>text.replace(old, new, 1)\<close> for a nonempty \<open>old\<close>.\<close>

fun replace_first :: "utext \<Rightarrow> utext \<Rightarrow> utext \<Rightarrow> utext" where
  "replace_first old new [] = []"
| "replace_first old new (c # cs) =
     (if take (length old) (c # cs) = old then new @ drop (length old) (c # cs) else c # replace_first old new cs)"

section \<open>The Houdini loop\<close>

definition is_proved :: "implication \<Rightarrow> bool" where
  "is_proved r = (case r of Proved cert k \<Rightarrow> True | _ \<Rightarrow> False)"

record linear_failure =
  lf_index :: nat
  lf_round :: nat
  lf_initiation :: implication
  lf_preservation :: implication

definition linear_checks ::
    "(nat \<Rightarrow> nat option) \<Rightarrow> int \<Rightarrow> linineq list \<Rightarrow> linineq list \<Rightarrow> linineq list \<Rightarrow> linineq list \<Rightarrow> nat list
      \<Rightarrow> exc + (nat \<times> implication \<times> implication) list" where
  "linear_checks digit limit initial guards cands moved active =
     (let ps = map (\<lambda>i. cands ! i) active @ guards in
      rmap (\<lambda>i. rbind (imply digit initial (cands ! i) limit) (\<lambda>a.
                rbind (imply digit ps (moved ! i) limit) (\<lambda>b. Inr (i, a, b)))) active)"

definition failed_checks :: "(nat \<times> implication \<times> implication) list \<Rightarrow> (nat \<times> implication \<times> implication) list" where
  "failed_checks rs = filter (\<lambda>(i, a, b). \<not> is_proved a \<or> \<not> is_proved b) rs"

lemma linear_checks_indices:
  "linear_checks digit limit initial guards cands moved active = Inr rs \<Longrightarrow> map fst rs = active"
proof -
  have "list_all2 (\<lambda>i r. rbind (f i) (\<lambda>a. rbind (g i) (\<lambda>b. Inr (i, a, b))) = Inr r) xs rs \<Longrightarrow> map fst rs = xs"
    for f :: "nat \<Rightarrow> exc + implication" and g :: "nat \<Rightarrow> exc + implication" and xs rs
    by (induction xs rs rule: list_all2_induct) (auto simp: res_simps)
  then show "linear_checks digit limit initial guards cands moved active = Inr rs \<Longrightarrow> map fst rs = active"
    by (simp add: linear_checks_def Let_def rmap_Inr_iff)
qed

function linear_loop ::
    "(nat \<Rightarrow> nat option) \<Rightarrow> int \<Rightarrow> linineq list \<Rightarrow> linineq list \<Rightarrow> linineq list \<Rightarrow> linineq list
      \<Rightarrow> nat list \<Rightarrow> linear_failure list \<Rightarrow> nat \<Rightarrow> exc + nat list \<times> linear_failure list \<times> nat" where
  "linear_loop digit limit initial guards cands moved active removed rounds =
     (if active = [] then Inr (active, removed, rounds)
      else
        rbind (linear_checks digit limit initial guards cands moved active) (\<lambda>rs.
        let fs = failed_checks rs in
        if fs = [] then Inr (active, removed, Suc rounds)
        else linear_loop digit limit initial guards cands moved (filter (\<lambda>i. i \<notin> fst ` set fs) active)
               (removed @ map (\<lambda>(i, a, b). \<lparr>lf_index = i, lf_round = Suc rounds, lf_initiation = a, lf_preservation = b\<rparr>) fs)
               (Suc rounds)))"
  by pat_completeness auto
termination linear_loop
proof (relation "measure (\<lambda>(digit, limit, initial, guards, cands, moved, active, removed, rounds). length active)", goal_cases)
  case (2 digit limit initial guards cands moved active removed rounds rs fs)
  then have "fs \<noteq> []" by simp
  then obtain f where f: "f \<in> set fs" using hd_in_set by blast
  then have "f \<in> set rs" using 2(3) by (auto simp: failed_checks_def)
  then have "fst f \<in> set (map fst rs)" by simp
  then have "fst f \<in> set active" using linear_checks_indices [OF 2(2)] by simp
  then show ?case using f by (auto intro!: length_filter_less [of "fst f"])
qed simp

declare linear_loop.simps [simp del]

record linear_proof =
  lp_index :: nat
  lp_initiation :: bool
  lp_premises :: "linineq list"
  lp_target :: linineq
  lp_certificate :: certificate
  lp_goal :: utext
  lp_lean :: utext

text \<open>One turn of the final loop: the failing assertion is a branch of the model.\<close>

definition linear_proof_for ::
    "(nat \<Rightarrow> nat option) \<Rightarrow> int \<Rightarrow> linineq list \<Rightarrow> linineq list \<Rightarrow> linineq list \<Rightarrow> linineq list
      \<Rightarrow> int list list \<Rightarrow> int list \<Rightarrow> nat \<times> bool \<Rightarrow> exc + linear_proof" where
  "linear_proof_for digit limit initial ps cands moved matrix offset job =
     (case job of (i, first) \<Rightarrow>
       let premises0 = (if first then initial else ps);
           target = (if first then cands ! i else moved ! i) in
       rbind (imply digit premises0 target limit) (\<lambda>result.
         case result of
           Proved cert attempts \<Rightarrow>
             rbind (linear_obligation digit premises0 target cert
                      ((if first then u ''init_'' else u ''step_'') @ u (nat_text i))) (\<lambda>lean.
             let goal = (if first then lin_lean target else affine_goal (cands ! i) matrix offset) in
             Inr \<lparr>lp_index = i, lp_initiation = first, lp_premises = premises0, lp_target = target, lp_certificate = cert,
               lp_goal = goal,
               lp_lean = replace_first (u '': '' @ lin_lean target @ u '' := by'') (u '': '' @ goal @ u '' := by'') lean\<rparr>)
         | _ \<Rightarrow> Inl (AssertionErr [])))"

record linear_report =
  li_kept :: "nat list"
  li_removed :: "linear_failure list"
  li_rounds :: nat
  li_obligations :: "linear_proof list"

definition infer_linear_invariants ::
    "(nat \<Rightarrow> nat option) \<Rightarrow> linineq list \<Rightarrow> linineq list \<Rightarrow> linineq list \<Rightarrow> int list list \<Rightarrow> int list \<Rightarrow> int
      \<Rightarrow> exc + linear_report" where
  "infer_linear_invariants digit initial guards cands matrix offset limit =
     (if cands = [] \<or> 8 < length cands \<or> 8 < length guards
        then Inl (ValueErr ''expected 1..8 candidates and at most 8 guards'')
      else
        rbind (validate_linear (initial @ guards) (hd cands)) (\<lambda>_.
        rbind (validate_linear cands (hd cands)) (\<lambda>_.
        rbind (rmap (\<lambda>c. pullback c matrix offset) cands) (\<lambda>moved.
        rbind (linear_loop digit limit initial guards cands moved [0..<length cands] [] 0) (\<lambda>(active, removed, rounds).
        let ps = map (\<lambda>i. cands ! i) active @ guards in
        rbind (rmap (linear_proof_for digit limit initial ps cands moved matrix offset)
                 (concat (map (\<lambda>i. [(i, True), (i, False)]) active))) (\<lambda>proofs.
        Inr \<lparr>li_kept = active, li_removed = removed, li_rounds = rounds, li_obligations = proofs\<rparr>))))))"

end
