(* ===== verification/Linear_Correct.thy ===== *)
theory Linear_Correct
  imports Linear_Infer
begin

text \<open>
  Correctness of the linear components: what \<open>imply\<close> proves is implied, reductions keep the solutions,
  and the candidates kept by \<open>infer_linear_invariants\<close> hold in every reachable state of the guarded
  affine transition system, with obligations that verify; its final assertion never fails.
\<close>

lemma rmap_member: "rmap f xs = Inr rs \<Longrightarrow> x \<in> set xs \<Longrightarrow> \<exists>r \<in> set rs. f x = Inr r"
  by (induction xs arbitrary: rs) (auto simp: res_simps)

lemma rmap_source: "rmap f xs = Inr rs \<Longrightarrow> r \<in> set rs \<Longrightarrow> \<exists>x \<in> set xs. f x = Inr r"
  by (induction xs arbitrary: rs) (auto simp: res_simps)

section \<open>The search\<close>

lemma try_supports_proved:
  "try_supports attempt limit supports k = Proved cert n \<Longrightarrow> \<exists>s \<in> set supports. attempt s = Some cert"
  by (induction supports arbitrary: k) (auto split: if_splits option.splits)

lemma try_support_verified: "try_support digit ps t columns vector s = Some cert \<Longrightarrow> verify_certificate digit ps t cert"
  by (auto simp: try_support_def Let_def split: option.splits if_splits)

lemma imply_cases:
  assumes "imply digit ps t limit = Inr (Proved cert k)"
  shows "verify_certificate digit ps t cert
    \<or> (\<forall>v \<in> set (lin_coeffs t). v = 0) \<and> lin_bound t = 0 \<and> cert = zero_certificate ps
        \<and> length ps \<le> 16 \<and> (\<forall>p \<in> set ps. length (lin_coeffs p) = length (lin_coeffs t))"
  using assms
  by (auto simp: imply_def Let_def res_simps validate_linear_def try_support_verified split: if_splits dest!: try_supports_proved)

lemma imply_sound:
  assumes "imply digit ps t limit = Inr (Proved cert k)" "\<forall>p \<in> set ps. lin_holds p x"
  shows "lin_holds t x"
  using imply_cases [OF assms(1)]
proof
  assume "verify_certificate digit ps t cert"
  then show ?thesis using verified_implies assms(2) by blast
next
  assume z: "(\<forall>v \<in> set (lin_coeffs t). v = 0) \<and> lin_bound t = 0 \<and> cert = zero_certificate ps
        \<and> length ps \<le> 16 \<and> (\<forall>p \<in> set ps. length (lin_coeffs p) = length (lin_coeffs t))"
  then have "lin_value t x = 0" unfolding lin_value_def by (intro sum.neutral) auto
  then show ?thesis using z by (simp add: lin_holds_def)
qed

lemma zero_text: "ascii_digits digit \<Longrightarrow> rational_of digit [48] = Inr 0"
proof -
  assume A: "ascii_digits digit"
  have d: "digit 48 = Some 0" using ascii_digit [OF A, of 0] by simp
  then have "read_fraction digit [48] = Some (0, 1)" by (simp add: read_fraction_def digits_value_def Let_def)
  then show ?thesis by (simp add: rational_of_def Zero_rat_def [symmetric] Let_def)
qed

lemma imply_verified:
  assumes A: "ascii_digits digit" and "imply digit ps t limit = Inr (Proved cert k)"
  shows "verify_certificate digit ps t cert"
  using imply_cases [OF assms(2)]
proof
  assume z: "(\<forall>v \<in> set (lin_coeffs t). v = 0) \<and> lin_bound t = 0 \<and> cert = zero_certificate ps
        \<and> length ps \<le> 16 \<and> (\<forall>p \<in> set ps. length (lin_coeffs p) = length (lin_coeffs t))"
  have r: "rmap (rational_of digit) (replicate m [48]) = Inr (replicate m 0)" for m
    by (induction m) (simp_all add: zero_text [OF A])
  have "(\<Sum>(w, p) \<leftarrow> zip (replicate (length ps) (0::rat)) ps. w * f p) = 0" for f :: "linineq \<Rightarrow> rat"
    by (induction ps) simp_all
  moreover have "a = 0" if "(i, a) \<in> set (enumerate 0 (lin_coeffs t))" for i a
    using that z by (metis in_set_enumerate_eq nth_mem fst_conv snd_conv diff_zero less_diff_conv add.right_neutral)
  ultimately show ?thesis
    using z zero_text [OF A]
    by (auto simp: verify_certificate_def zero_certificate_def validate_linear_def r)
qed

lemma imply_total:
  assumes "length ps \<le> 16" "\<forall>p \<in> set ps. length (lin_coeffs p) = length (lin_coeffs t)" "1 \<le> limit" "limit \<le> 4096"
  shows "\<exists>r. imply digit ps t limit = Inr r"
  using assms by (auto simp: imply_def validate_linear_def Let_def)

section \<open>Obligations\<close>

lemma linear_obligation_verified: "linear_obligation digit ps t cert name = Inr lean \<Longrightarrow> verify_certificate digit ps t cert"
  by (auto simp: linear_obligation_def split: if_splits)

lemma linear_obligation_total:
  assumes "verify_certificate digit ps t cert" "is_lemma_name name"
  shows "\<exists>lean. linear_obligation digit ps t cert name = Inr lean"
proof -
  obtain ws where "rmap (rational_of digit) (cert_weights cert) = Inr ws" by (rule verify_parts [OF assms(1)])
  then show ?thesis using assms by (simp add: linear_obligation_def Let_def)
qed

lemma lemma_name_append: "is_lemma_name t \<Longrightarrow> is_lemma_name (t @ u (nat_text n))"
  using decimal_digits [of n] by (cases t) (auto simp: is_lemma_name_def decimal_def list_all_iff)

lemma lemma_names: "is_lemma_name (u ''redundant_'')" "is_lemma_name (u ''init_'')" "is_lemma_name (u ''step_'')"
  by code_simp+

section \<open>Redundant constraints\<close>

lemma remove_implied_result:
  assumes A: "ascii_digits digit" and dims: "\<forall>c \<in> set cs. length (lin_coeffs c) = n" and len: "length cs \<le> 16"
    and lim: "1 \<le> limit" "limit \<le> 4096"
  shows "set is \<subseteq> {..<length cs} \<Longrightarrow> set active \<subseteq> {..<length cs} \<Longrightarrow> distinct active \<Longrightarrow>
    \<exists>kept new. remove_implied digit cs limit is active removed = Inr (kept, removed @ new) \<and> set kept \<subseteq> set active
      \<and> {x. \<forall>i \<in> set kept. lin_holds (cs ! i) x} = {x. \<forall>i \<in> set active. lin_holds (cs ! i) x}
      \<and> (\<forall>l \<in> set new. verify_certificate digit (map (\<lambda>j. cs ! j) (lr_premises l)) (cs ! lr_index l) (lr_certificate l))"
proof (induction "is" arbitrary: active removed)
  case (Cons i "is")
  let ?rest = "others_of active i"
  let ?ps = "map (\<lambda>j. cs ! j) ?rest"
  have rest: "set ?rest = set active - {i}" "distinct ?rest" using Cons.prems(3) by (auto simp: others_of_def)
  have "length ?rest \<le> length cs"
    using rest Cons.prems(2) by (metis Diff_subset card_lessThan card_mono distinct_card finite_lessThan subset_trans)
  moreover have "\<forall>p \<in> set ?ps. length (lin_coeffs p) = n" using rest(1) Cons.prems(2) dims by auto
  moreover have "length (lin_coeffs (cs ! i)) = n" using Cons.prems(1) dims by simp
  ultimately obtain r where r: "imply digit ?ps (cs ! i) limit = Inr r"
    using imply_total [of ?ps "cs ! i" limit digit] len lim by auto
  show ?case
  proof (cases r)
    case (Proved cert k)
    have v: "verify_certificate digit ?ps (cs ! i) cert" using imply_verified [OF A] r Proved by simp
    obtain lean where lean: "linear_obligation digit ?ps (cs ! i) cert (u ''redundant_'' @ u (nat_text i)) = Inr lean"
      using linear_obligation_total [OF v lemma_name_append [OF lemma_names(1)]] by blast
    let ?l = "\<lparr>lr_index = i, lr_premises = ?rest, lr_certificate = cert, lr_attempts = k, lr_obligation = lean\<rparr>"
    obtain kept new where K: "remove_implied digit cs limit is ?rest (removed @ [?l]) = Inr (kept, (removed @ [?l]) @ new)"
      "set kept \<subseteq> set ?rest" "{x. \<forall>i \<in> set kept. lin_holds (cs ! i) x} = {x. \<forall>i \<in> set ?rest. lin_holds (cs ! i) x}"
      "\<forall>l \<in> set new. verify_certificate digit (map (\<lambda>j. cs ! j) (lr_premises l)) (cs ! lr_index l) (lr_certificate l)"
    proof -
      have "set is \<subseteq> {..<length cs}" "set ?rest \<subseteq> {..<length cs}" using Cons.prems rest(1) by auto
      from Cons.IH [OF this rest(2), of "removed @ [?l]"] show thesis using that by blast
    qed
    have "lin_holds (cs ! i) x" if "\<forall>j \<in> set ?rest. lin_holds (cs ! j) x" for x
      using verified_implies [OF v] that by simp
    then have "{x. \<forall>j \<in> set ?rest. lin_holds (cs ! j) x} = {x. \<forall>j \<in> set active. lin_holds (cs ! j) x}"
      unfolding rest(1) by auto
    then show ?thesis using K r Proved lean v rest(1)
      by (intro exI [of _ kept] exI [of _ "?l # new"]) (auto simp: Let_def)
  qed (use Cons r in \<open>auto simp: Let_def\<close>)
qed simp

text \<open>\<open>reduce_constraints\<close> succeeds on every valid system and keeps its solutions; each removed constraint
  comes with a certificate that \<open>verify_certificate\<close> accepts for the premises recorded with it.\<close>

theorem reduce_constraints_correct:
  assumes "ascii_digits digit" and "cs \<noteq> []" and "validate_linear cs (hd cs) = Inr ()" and "1 \<le> limit" "limit \<le> 4096"
  shows "\<exists>kept removed. reduce_constraints digit cs limit = Inr (kept, removed)
    \<and> {x. \<forall>i \<in> set kept. lin_holds (cs ! i) x} = {x. \<forall>c \<in> set cs. lin_holds c x}
    \<and> (\<forall>l \<in> set removed. verify_certificate digit (map (\<lambda>j. cs ! j) (lr_premises l)) (cs ! lr_index l) (lr_certificate l))"
proof -
  let ?all = "[0..<length cs]"
  have v: "length cs \<le> 16" "\<forall>c \<in> set cs. length (lin_coeffs c) = length (lin_coeffs (hd cs))"
    using assms(3) by (auto simp: validate_linear_def res_simps)
  obtain kept new where K: "remove_implied digit cs limit ?all ?all [] = Inr (kept, [] @ new)"
    "{x. \<forall>i \<in> set kept. lin_holds (cs ! i) x} = {x. \<forall>i \<in> set ?all. lin_holds (cs ! i) x}"
    "\<forall>l \<in> set new. verify_certificate digit (map (\<lambda>j. cs ! j) (lr_premises l)) (cs ! lr_index l) (lr_certificate l)"
  proof -
    have "set ?all \<subseteq> {..<length cs}" "distinct ?all" by auto
    from remove_implied_result [OF assms(1) v(2,1) assms(4,5) this(1) this(1) this(2), of "[]"] show thesis
      using that by blast
  qed
  have "{x. \<forall>i \<in> set ?all. lin_holds (cs ! i) x} = {x. \<forall>c \<in> set cs. lin_holds c x}"
    by (auto simp: all_set_conv_all_nth)
  then show ?thesis using K assms(2,3) v(1) by (auto simp: reduce_constraints_def)
qed

section \<open>Guarded affine transitions\<close>

definition affine_step :: "linineq list \<Rightarrow> int list list \<Rightarrow> int list \<Rightarrow> (nat \<Rightarrow> int) \<Rightarrow> (nat \<Rightarrow> int) \<Rightarrow> bool" where
  "affine_step guards matrix offset x y =
     ((\<forall>g \<in> set guards. lin_holds g x)
      \<and> (\<forall>i < length matrix. y i = (\<Sum>j<length matrix. matrix ! i ! j * x j) + offset ! i))"

inductive affine_reach :: "linineq list \<Rightarrow> linineq list \<Rightarrow> int list list \<Rightarrow> int list \<Rightarrow> (nat \<Rightarrow> int) \<Rightarrow> bool"
  for initial guards matrix offset where
  start: "(\<And>p. p \<in> set initial \<Longrightarrow> lin_holds p x) \<Longrightarrow> affine_reach initial guards matrix offset x"
| move: "affine_reach initial guards matrix offset x \<Longrightarrow> affine_step guards matrix offset x y \<Longrightarrow>
    affine_reach initial guards matrix offset y"

lemma sum_list_upt: "sum_list (map f [0..<n]) = (\<Sum>i<n. f i)"
  by (simp add: interv_sum_list_conv_sum_set_nat atLeast0LessThan)

lemma pullback_holds:
  assumes p: "pullback t matrix offset = Inr p" and s: "affine_step guards matrix offset x y"
  shows "lin_holds p x = lin_holds t y"
proof -
  let ?n = "length (lin_coeffs t)" and ?a = "lin_coeffs t"
  have n: "length matrix = ?n" "length offset = ?n"
    and pc: "lin_coeffs p = map (\<lambda>j. sum_list (map (\<lambda>i. ?a ! i * matrix ! i ! j) [0..<?n])) [0..<?n]"
    and pb: "lin_bound p = lin_bound t - sum_list (map2 (*) ?a offset)"
    using p by (auto simp: pullback_def mk_linineq_def Let_def split: if_splits)
  have y: "y i = (\<Sum>j<?n. matrix ! i ! j * x j) + offset ! i" if "i < ?n" for i
    using s that n by (simp add: affine_step_def)
  have off: "sum_list (map2 (*) ?a offset) = (\<Sum>i<?n. ?a ! i * offset ! i)"
    using n(2) by (simp add: sum_list_sum_nth atLeast0LessThan)
  have "lin_value t y = (\<Sum>i<?n. ?a ! i * (\<Sum>j<?n. matrix ! i ! j * x j)) + (\<Sum>i<?n. ?a ! i * offset ! i)"
    by (simp add: lin_value_def y distrib_left sum.distrib)
  also have "(\<Sum>i<?n. ?a ! i * (\<Sum>j<?n. matrix ! i ! j * x j)) = (\<Sum>i<?n. \<Sum>j<?n. ?a ! i * matrix ! i ! j * x j)"
    by (simp add: sum_distrib_left mult.assoc)
  also have "\<dots> = (\<Sum>j<?n. \<Sum>i<?n. ?a ! i * matrix ! i ! j * x j)" by (rule sum.swap)
  also have "\<dots> = lin_value p x" by (simp add: lin_value_def pc sum_list_upt sum_distrib_right)
  finally show ?thesis by (simp add: lin_holds_def pb off) linarith
qed

section \<open>The inference\<close>

lemma linear_loop_result:
  "linear_loop digit limit initial guards cands moved active removed rounds = Inr (active', removed', rounds') \<Longrightarrow>
    set active' \<subseteq> set active \<and> length active' \<le> length active
      \<and> (\<exists>rs. linear_checks digit limit initial guards cands moved active' = Inr rs \<and> failed_checks rs = [])"
proof (induction digit limit initial guards cands moved active removed rounds rule: linear_loop.induct)
  case (1 digit limit initial guards cands moved active removed rounds)
  show ?case
  proof (cases "active = []")
    case True
    then show ?thesis using 1(2) by (simp add: linear_loop.simps linear_checks_def failed_checks_def)
  next
    case False
    obtain rs where rs: "linear_checks digit limit initial guards cands moved active = Inr rs"
      using 1(2) False by (auto simp: linear_loop.simps res_simps)
    show ?thesis
    proof (cases "failed_checks rs = []")
      case True
      then have "active' = active" using 1(2) False rs by (simp add: linear_loop.simps Let_def)
      then show ?thesis using rs True by blast
    next
      case fs: False
      have next_step: "linear_loop digit limit initial guards cands moved (filter (\<lambda>i. i \<notin> fst ` set (failed_checks rs)) active)
               (removed @ map (\<lambda>(i, a, b). \<lparr>lf_index = i, lf_round = Suc rounds, lf_initiation = a, lf_preservation = b\<rparr>) (failed_checks rs))
               (Suc rounds) = Inr (active', removed', rounds')"
        using 1(2) False rs fs by (subst (asm) linear_loop.simps) (simp add: Let_def)
      from 1(1) [OF False rs refl fs next_step]
      have "set active' \<subseteq> set (filter (\<lambda>i. i \<notin> fst ` set (failed_checks rs)) active)
        \<and> length active' \<le> length (filter (\<lambda>i. i \<notin> fst ` set (failed_checks rs)) active)
        \<and> (\<exists>rs. linear_checks digit limit initial guards cands moved active' = Inr rs \<and> failed_checks rs = [])" .
      moreover have "length (filter (\<lambda>i. i \<notin> fst ` set (failed_checks rs)) active) \<le> length active" by (rule length_filter_le)
      ultimately show ?thesis by (auto intro: le_trans)
    qed
  qed
qed

lemma checks_proved:
  assumes "linear_checks digit limit initial guards cands moved active = Inr rs" "failed_checks rs = []" "i \<in> set active"
  shows "\<exists>ca ka cb kb. imply digit initial (cands ! i) limit = Inr (Proved ca ka)
    \<and> imply digit (map (\<lambda>i. cands ! i) active @ guards) (moved ! i) limit = Inr (Proved cb kb)"
proof -
  let ?ps = "map (\<lambda>i. cands ! i) active @ guards"
  let ?f = "\<lambda>i. rbind (imply digit initial (cands ! i) limit) (\<lambda>a. rbind (imply digit ?ps (moved ! i) limit) (\<lambda>b. Inr (i, a, b)))"
  have "rmap ?f active = Inr rs" using assms(1) by (simp add: linear_checks_def Let_def)
  from rmap_member [OF this assms(3)] obtain r where r: "r \<in> set rs" "?f i = Inr r" by blast
  then obtain a b where ab: "imply digit initial (cands ! i) limit = Inr a" "imply digit ?ps (moved ! i) limit = Inr b" "r = (i, a, b)"
    by (auto simp: res_simps)
  have "is_proved a \<and> is_proved b" using assms(2) r(1) ab(3) by (auto simp: failed_checks_def filter_empty_conv)
  then show ?thesis using ab by (cases a; cases b) (auto simp: is_proved_def)
qed

lemma linear_proof_verified:
  "linear_proof_for digit limit initial ps cands moved matrix offset job = Inr q \<Longrightarrow>
    verify_certificate digit (lp_premises q) (lp_target q) (lp_certificate q)"
proof -
  assume q: "linear_proof_for digit limit initial ps cands moved matrix offset job = Inr q"
  obtain i first where job: "job = (i, first)" by (cases job)
  let ?ps = "if first then initial else ps" and ?t = "if first then cands ! i else moved ! i"
  obtain result where r: "imply digit ?ps ?t limit = Inr result"
    using q by (auto simp: linear_proof_for_def job Let_def res_simps)
  then obtain cert k where c: "result = Proved cert k"
    using q by (cases result) (auto simp: linear_proof_for_def job Let_def)
  then obtain lean where l: "linear_obligation digit ?ps ?t cert ((if first then u ''init_'' else u ''step_'') @ u (nat_text i)) = Inr lean"
    using q r by (auto simp: linear_proof_for_def job Let_def res_simps)
  then have "lp_premises q = ?ps" "lp_target q = ?t" "lp_certificate q = cert"
    using q r c by (auto simp: linear_proof_for_def job Let_def)
  then show ?thesis using linear_obligation_verified [OF l] by simp
qed

text \<open>C32: every state that the guarded affine transition reaches from the initial constraints satisfies all
  the candidates \<open>infer_linear_invariants\<close> keeps, and every obligation it reports has a certificate
  that \<open>verify_certificate\<close> accepts.\<close>

theorem infer_linear_sound:
  assumes "infer_linear_invariants digit initial guards cands matrix offset limit = Inr r"
  shows "{x. affine_reach initial guards matrix offset x} \<subseteq> {x. \<forall>i \<in> set (li_kept r). lin_holds (cands ! i) x}
    \<and> (\<forall>q \<in> set (li_obligations r). verify_certificate digit (lp_premises q) (lp_target q) (lp_certificate q))"
proof -
  obtain moved active removed rounds proofs where m: "rmap (\<lambda>c. pullback c matrix offset) cands = Inr moved"
    and l: "linear_loop digit limit initial guards cands moved [0..<length cands] [] 0 = Inr (active, removed, rounds)"
    and p: "rmap (linear_proof_for digit limit initial (map (\<lambda>i. cands ! i) active @ guards) cands moved matrix offset)
                 (concat (map (\<lambda>i. [(i, True), (i, False)]) active)) = Inr proofs"
    and r: "li_kept r = active" "li_obligations r = proofs"
    using assms by (auto simp: infer_linear_invariants_def Let_def res_simps split: if_splits)
  obtain rs where L: "set active \<subseteq> {..<length cands}" "linear_checks digit limit initial guards cands moved active = Inr rs" "failed_checks rs = []"
    using linear_loop_result [OF l] by (auto simp: atLeast0LessThan)
  note proved = checks_proved [OF L(2,3)]
  have moved: "pullback (cands ! i) matrix offset = Inr (moved ! i)" if "i \<in> set active" for i
    using m L(1) that by (auto simp: rmap_Inr_iff list_all2_conv_all_nth)
  have "\<forall>i \<in> set active. lin_holds (cands ! i) x" if "affine_reach initial guards matrix offset x" for x
    using that
  proof induction
    case (start x)
    show ?case
    proof
      fix i assume "i \<in> set active"
      then show "lin_holds (cands ! i) x" using proved start imply_sound by blast
    qed
  next
    case (move x y)
    show ?case
    proof
      fix i assume i: "i \<in> set active"
      have "\<forall>p \<in> set (map (\<lambda>i. cands ! i) active @ guards). lin_holds p x"
        using move by (auto simp: affine_step_def)
      then have "lin_holds (moved ! i) x" using proved [OF i] imply_sound by blast
      then show "lin_holds (cands ! i) y" using pullback_holds [OF moved [OF i] move(2)] by simp
    qed
  qed
  moreover have "\<forall>q \<in> set proofs. verify_certificate digit (lp_premises q) (lp_target q) (lp_certificate q)"
    using rmap_source [OF p] linear_proof_verified by blast
  ultimately show ?thesis using r by auto
qed

section \<open>No exception after validation\<close>

definition valid_linear_input :: "linineq list \<Rightarrow> linineq list \<Rightarrow> linineq list \<Rightarrow> int \<Rightarrow> bool" where
  "valid_linear_input initial guards cands limit =
     (cands \<noteq> [] \<and> length cands \<le> 8 \<and> length guards \<le> 8 \<and> 1 \<le> limit \<and> limit \<le> 4096
      \<and> validate_linear (initial @ guards) (hd cands) = Inr () \<and> validate_linear cands (hd cands) = Inr ())"

lemma rmap_exists: "(\<And>x. x \<in> set xs \<Longrightarrow> \<exists>y. f x = Inr y) \<Longrightarrow> \<exists>ys. rmap f xs = Inr ys"
  by (induction xs) (auto, force)

lemma pullback_dims: "pullback t matrix offset = Inr p \<Longrightarrow> length (lin_coeffs p) = length (lin_coeffs t)"
  by (auto simp: pullback_def mk_linineq_def Let_def split: if_splits)

lemma linear_loop_total:
  assumes checks: "\<And>active. set active \<subseteq> {..<n} \<Longrightarrow> length active \<le> n \<Longrightarrow>
      \<exists>rs. linear_checks digit limit initial guards cands moved active = Inr rs"
  shows "set active \<subseteq> {..<n} \<Longrightarrow> length active \<le> n \<Longrightarrow>
    \<exists>r. linear_loop digit limit initial guards cands moved active removed rounds = Inr r"
proof (induction "length active" arbitrary: active removed rounds rule: less_induct)
  case less
  obtain rs where rs: "linear_checks digit limit initial guards cands moved active = Inr rs" using checks less.prems by blast
  let ?next = "filter (\<lambda>i. i \<notin> fst ` set (failed_checks rs)) active"
  show ?case
  proof (cases "active = [] \<or> failed_checks rs = []")
    case True
    then show ?thesis using rs by (subst linear_loop.simps) (auto simp: Let_def)
  next
    case False
    then obtain f where f: "f \<in> set (failed_checks rs)" using hd_in_set by blast
    then have "f \<in> set rs" by (auto simp: failed_checks_def)
    then have "fst f \<in> set (map fst rs)" by simp
    then have "fst f \<in> set active" using linear_checks_indices [OF rs] by simp
    then have shorter: "length ?next < length active" using f by (intro length_filter_less [of "fst f"]) auto
    have "set ?next \<subseteq> {..<n}" "length ?next \<le> n" using less.prems shorter by auto
    from less.hyps [OF shorter this] show ?thesis using False rs by (subst linear_loop.simps) (simp add: Let_def)
  qed
qed

lemma infer_linear_runs:
  assumes A: "ascii_digits digit" and V: "valid_linear_input initial guards cands limit"
    and M: "rmap (\<lambda>c. pullback c matrix offset) cands = Inr moved"
  shows "\<exists>r removed rounds. infer_linear_invariants digit initial guards cands matrix offset limit = Inr r
    \<and> linear_loop digit limit initial guards cands moved [0..<length cands] [] 0 = Inr (li_kept r, removed, rounds)
    \<and> map (\<lambda>q. (lp_index q, lp_initiation q)) (li_obligations r) = concat (map (\<lambda>i. [(i, True), (i, False)]) (li_kept r))"
proof -
  let ?n = "length (lin_coeffs (hd cands))"
  note v = V [unfolded valid_linear_input_def validate_linear_def ensure_Inr_iff]
  have dims: "\<forall>p \<in> set (initial @ guards). length (lin_coeffs p) = ?n" "length (initial @ guards) \<le> 16"
    "\<forall>c \<in> set cands. length (lin_coeffs c) = ?n"
    using v by blast+
  have lens: "length cands \<le> 8" "length guards \<le> 8" "1 \<le> limit" "limit \<le> 4096" "cands \<noteq> []"
    using v by blast+
  have mv: "pullback (cands ! i) matrix offset = Inr (moved ! i)" if "i < length cands" for i
    using M that by (auto simp: rmap_Inr_iff list_all2_conv_all_nth)
  have md: "length (lin_coeffs (moved ! i)) = ?n" if "i < length cands" for i
    using pullback_dims [OF mv [OF that]] dims(3) that by simp
  have i1: "\<exists>r. imply digit initial (cands ! i) limit = Inr r" if "i < length cands" for i
  proof (rule imply_total)
    show "length initial \<le> 16" using dims(2) by simp
    show "\<forall>p \<in> set initial. length (lin_coeffs p) = length (lin_coeffs (cands ! i))" using dims(1,3) that by simp
  qed (use lens in simp_all)
  have i2: "\<exists>r. imply digit (map (\<lambda>i. cands ! i) active @ guards) (moved ! i) limit = Inr r"
    if "i < length cands" "set active \<subseteq> {..<length cands}" "length active \<le> length cands" for i active
  proof (rule imply_total)
    show "length (map (\<lambda>i. cands ! i) active @ guards) \<le> 16" using that(3) lens(1,2) by simp
    have "length (lin_coeffs (cands ! j)) = ?n" if "j \<in> set active" for j
      using that \<open>set active \<subseteq> {..<length cands}\<close> dims(3) by auto
    then show "\<forall>p \<in> set (map (\<lambda>i. cands ! i) active @ guards). length (lin_coeffs p) = length (lin_coeffs (moved ! i))"
      using dims(1) md [OF that(1)] by auto
  qed (use lens in simp_all)
  have checks: "\<exists>rs. linear_checks digit limit initial guards cands moved active = Inr rs"
    if a: "set active \<subseteq> {..<length cands}" "length active \<le> length cands" for active
    unfolding linear_checks_def Let_def
  proof (rule rmap_exists)
    fix i assume "i \<in> set active"
    then have "i < length cands" using a(1) by auto
    from i1 [OF this] i2 [OF this a]
    show "\<exists>y. rbind (imply digit initial (cands ! i) limit) (\<lambda>a. rbind (imply digit (map (\<lambda>i. cands ! i) active @ guards) (moved ! i) limit)
          (\<lambda>b. Inr (i, a, b))) = Inr y" by auto
  qed
  have start: "set [0..<length cands] \<subseteq> {..<length cands}" "length [0..<length cands] \<le> length cands" by auto
  obtain active removed rounds where l: "linear_loop digit limit initial guards cands moved [0..<length cands] [] 0 = Inr (active, removed, rounds)"
    using linear_loop_total [OF checks start] by (metis prod.exhaust)
  obtain rs where L: "set active \<subseteq> {..<length cands}" "linear_checks digit limit initial guards cands moved active = Inr rs" "failed_checks rs = []"
    using linear_loop_result [OF l] by (auto simp: atLeast0LessThan)
  let ?ps = "map (\<lambda>i. cands ! i) active @ guards"
  let ?proof = "linear_proof_for digit limit initial ?ps cands moved matrix offset"
  let ?jobs = "concat (map (\<lambda>i. [(i, True), (i, False)]) active)"
  have job: "\<exists>q. ?proof (i, first) = Inr q \<and> (lp_index q, lp_initiation q) = (i, first)" if mem: "i \<in> set active" for i first
  proof -
    obtain ca ka cb kb where c: "imply digit initial (cands ! i) limit = Inr (Proved ca ka)" "imply digit ?ps (moved ! i) limit = Inr (Proved cb kb)"
      using checks_proved [OF L(2,3) mem] by blast
    obtain la where "linear_obligation digit initial (cands ! i) ca (u ''init_'' @ u (nat_text i)) = Inr la"
      using linear_obligation_total [OF imply_verified [OF A c(1)] lemma_name_append [OF lemma_names(2)]] by blast
    moreover obtain lb where "linear_obligation digit ?ps (moved ! i) cb (u ''step_'' @ u (nat_text i)) = Inr lb"
      using linear_obligation_total [OF imply_verified [OF A c(2)] lemma_name_append [OF lemma_names(3)]] by blast
    ultimately show ?thesis using c by (cases first) (simp_all add: linear_proof_for_def Let_def)
  qed
  have jobs: "set ?jobs \<subseteq> set active \<times> UNIV" by auto
  have "\<exists>proofs. rmap ?proof ?jobs = Inr proofs"
  proof (rule rmap_exists)
    fix x assume "x \<in> set ?jobs"
    then obtain i first where x: "x = (i, first)" "i \<in> set active" using jobs by (cases x) auto
    from job [OF x(2), of first] show "\<exists>q. ?proof x = Inr q" unfolding x(1) by blast
  qed
  then obtain proofs where p: "rmap ?proof ?jobs = Inr proofs" by blast
  have "map (\<lambda>q. (lp_index q, lp_initiation q)) qs = js"
    if "rmap ?proof js = Inr qs" "set js \<subseteq> set active \<times> UNIV" for js qs
    using that
  proof (induction js arbitrary: qs)
    case (Cons j js)
    obtain i first where j: "j = (i, first)" "i \<in> set active" using Cons.prems(2) by (cases j) auto
    obtain q where q: "?proof j = Inr q" "(lp_index q, lp_initiation q) = j" using job [OF j(2), of first] j(1) by blast
    obtain rest where rest: "rmap ?proof js = Inr rest" "qs = q # rest" using Cons.prems(1) q(1) by (auto simp: res_simps)
    then show ?case using Cons.IH [OF rest(1)] Cons.prems(2) q(2) by simp
  qed simp
  from this [OF p jobs] have "map (\<lambda>q. (lp_index q, lp_initiation q)) proofs = ?jobs" .
  moreover have "infer_linear_invariants digit initial guards cands matrix offset limit
      = Inr \<lparr>li_kept = active, li_removed = removed, li_rounds = rounds, li_obligations = proofs\<rparr>"
    using V M l p by (simp add: infer_linear_invariants_def valid_linear_input_def Let_def)
  ultimately show ?thesis using l by simp
qed

text \<open>C33: after its validation and the pullbacks, \<open>infer_linear_invariants\<close> raises nothing: in particular the
  assertion in its final loop, that every kept candidate is proved again, cannot fail.\<close>

theorem infer_linear_total:
  assumes "ascii_digits digit" and "valid_linear_input initial guards cands limit"
    and "rmap (\<lambda>c. pullback c matrix offset) cands = Inr moved"
  shows "\<exists>r. infer_linear_invariants digit initial guards cands matrix offset limit = Inr r
    \<and> map (\<lambda>q. (lp_index q, lp_initiation q)) (li_obligations r) = concat (map (\<lambda>i. [(i, True), (i, False)]) (li_kept r))"
  using infer_linear_runs [OF assms] by blast

section \<open>Examples\<close>

text \<open>The counter \<open>x0 := x0 + 1\<close> from \<open>x0 \<ge> 0\<close>: the candidate \<open>x0 \<ge> 0\<close> is kept.\<close>

definition counter_start :: linineq where
  "counter_start = \<lparr>lin_coeffs = [-1], lin_bound = 0\<rparr>"

lemma counter_valid: "valid_linear_input [counter_start] [] [counter_start] 16"
  by code_simp

lemma counter_moved: "rmap (\<lambda>c. pullback c [[1]] [1]) [counter_start] = Inr [\<lparr>lin_coeffs = [-1], lin_bound = 1\<rparr>]"
  by code_simp

lemma counter_loop:
  "linear_loop ascii_digit_value 16 [counter_start] [] [counter_start] [\<lparr>lin_coeffs = [-1], lin_bound = 1\<rparr>] [0] [] 0
     = Inr ([0], [], 1)"
  by code_simp

theorem infer_linear_sound_witness:
  "{x. affine_reach [counter_start] [] [[1]] [1] x} \<subseteq> {x. 0 \<le> x 0}"
proof -
  obtain r where r: "infer_linear_invariants ascii_digit_value [counter_start] [] [counter_start] [[1]] [1] 16 = Inr r" "li_kept r = [0]"
    using infer_linear_runs [OF ascii_digits_example counter_valid counter_moved] counter_loop by auto
  show ?thesis using infer_linear_sound [OF r(1)] r(2) by (auto simp: lin_holds_def lin_value_def counter_start_def)
qed

theorem infer_linear_total_witness:
  "\<exists>r. infer_linear_invariants ascii_digit_value [counter_start] [] [counter_start] [[1]] [1] 16 = Inr r"
  using infer_linear_total [OF ascii_digits_example counter_valid counter_moved] by blast

theorem reduce_constraints_correct_witness:
  "\<exists>kept removed. reduce_constraints ascii_digit_value [counter_start, \<lparr>lin_coeffs = [-2], lin_bound = 1\<rparr>] 16 = Inr (kept, removed)
    \<and> {x. \<forall>i \<in> set kept. lin_holds ([counter_start, \<lparr>lin_coeffs = [-2], lin_bound = 1\<rparr>] ! i) x} = {x. 0 \<le> x 0}"
proof -
  let ?cs = "[counter_start, \<lparr>lin_coeffs = [-2], lin_bound = 1\<rparr>]"
  have v: "validate_linear ?cs (hd ?cs) = Inr ()" by code_simp
  have "{x. \<forall>c \<in> set ?cs. lin_holds c x} = {x. 0 \<le> x 0}"
    by (auto simp: lin_holds_def lin_value_def counter_start_def)
  then show ?thesis using reduce_constraints_correct [OF ascii_digits_example _ v, of 16] by auto
qed

end
