(* ===== verification/Diff_Bounds.thy ===== *)
theory Diff_Bounds
  imports Prelude
begin

text \<open>
  Difference constraints \<open>x_i - x_j \<le> c\<close> over the integers (\<open>jevops/difference_bounds.py\<close>): their
  closure by in-place relaxation with a witness path per entry, path certificates, and the removal
  of constraints the others imply.
\<close>

section \<open>Constraints and certificates\<close>

record dbound =
  db_left :: nat
  db_right :: nat
  db_bound :: int

definition mk_dbound :: "int \<Rightarrow> int \<Rightarrow> int \<Rightarrow> exc + dbound" where
  "mk_dbound l r c =
     (if \<not> (0 \<le> l \<and> l < 16 \<and> 0 \<le> r \<and> r < 16) \<or> 2 ^ 32 \<le> \<bar>c\<bar>
        then Inl (ValueErr ''difference bound outside budget'')
      else Inr \<lparr>db_left = nat l, db_right = nat r, db_bound = c\<rparr>)"

definition validate_bounds :: "dbound list \<Rightarrow> int \<Rightarrow> exc + unit" where
  "validate_bounds cs n =
     rbind (ensure (1 \<le> n \<and> n \<le> 16 \<and> length cs \<le> 64) (ValueErr ''difference system outside budget'')) (\<lambda>_.
     ensure (\<forall>c \<in> set cs. int (max (db_left c) (db_right c)) < n) (ValueErr ''difference dimension mismatch''))"

text \<open>\<open>verify_path\<close> walks the indices from the left variable of the target, adding up the bounds.\<close>

primrec walk :: "dbound list \<Rightarrow> int list \<Rightarrow> nat \<Rightarrow> int \<Rightarrow> (nat \<times> int) option" where
  "walk cs [] cursor weight = Some (cursor, weight)"
| "walk cs (i # is) cursor weight =
     (let c = cs ! nat i in
      if db_left c \<noteq> cursor then None else walk cs is (db_right c) (weight + db_bound c))"

definition verify_path :: "dbound list \<Rightarrow> dbound \<Rightarrow> int list \<Rightarrow> bool" where
  "verify_path cs target path =
     (if 64 < length path then False
      else if \<not> (\<forall>i \<in> set path. 0 \<le> i \<and> i < int (length cs)) then False
      else (case walk cs path (db_left target) 0 of
              None \<Rightarrow> False
            | Some (cursor, weight) \<Rightarrow> cursor = db_right target \<and> weight \<le> db_bound target))"

section \<open>Closure\<close>

record dtable =
  dists :: "int option list list"
  dpaths :: "nat list option list list"

definition set_at :: "'a list list \<Rightarrow> nat \<Rightarrow> nat \<Rightarrow> 'a \<Rightarrow> 'a list list" where
  "set_at m i j x = m[i := (m ! i)[j := x]]"

definition start_table :: "nat \<Rightarrow> dtable" where
  "start_table n = \<lparr>dists = map (\<lambda>i. map (\<lambda>j. if i = j then Some 0 else None) [0..<n]) [0..<n],
     dpaths = map (\<lambda>i. map (\<lambda>j. if i = j then Some [] else None) [0..<n]) [0..<n]\<rparr>"

definition below_entry :: "int \<Rightarrow> int option \<Rightarrow> bool" where
  "below_entry c old = (case old of None \<Rightarrow> True | Some d \<Rightarrow> c < d)"

definition put_bound :: "nat \<times> dbound \<Rightarrow> dtable \<Rightarrow> dtable" where
  "put_bound e t = (case e of (index, c) \<Rightarrow>
     if below_entry (db_bound c) (dists t ! db_left c ! db_right c) then
       t\<lparr>dists := set_at (dists t) (db_left c) (db_right c) (Some (db_bound c)),
         dpaths := set_at (dpaths t) (db_left c) (db_right c) (Some [index])\<rparr>
     else t)"

text \<open>The entries of the diagonal are never missing; wherever both bounds are present both paths are.\<close>

definition inconsistent :: "nat \<Rightarrow> dtable \<Rightarrow> nat option" where
  "inconsistent n t = find (\<lambda>i. case dists t ! i ! i of None \<Rightarrow> False | Some d \<Rightarrow> d < 0) [0..<n]"

definition join_paths :: "nat list option \<Rightarrow> nat list option \<Rightarrow> nat list option" where
  "join_paths p q = (case (p, q) of (Some xs, Some ys) \<Rightarrow> Some (xs @ ys) | _ \<Rightarrow> None)"

definition relax :: "nat \<Rightarrow> nat \<Rightarrow> nat \<Rightarrow> dtable \<Rightarrow> dtable" where
  "relax k i j t =
     (case (dists t ! i ! k, dists t ! k ! j) of
        (Some a, Some b) \<Rightarrow>
          if below_entry (a + b) (dists t ! i ! j) then
            t\<lparr>dists := set_at (dists t) i j (Some (a + b)),
              dpaths := set_at (dpaths t) i j (join_paths (dpaths t ! i ! k) (dpaths t ! k ! j))\<rparr>
          else t
      | _ \<Rightarrow> t)"

primrec relax_rows :: "nat \<Rightarrow> nat \<Rightarrow> nat list \<Rightarrow> dtable \<Rightarrow> dtable \<times> nat option" where
  "relax_rows n k [] t = (t, None)"
| "relax_rows n k (i # is) t =
     (let t' = fold (relax k i) [0..<n] t in
      case inconsistent n t' of None \<Rightarrow> relax_rows n k is t' | Some b \<Rightarrow> (t', Some b))"

primrec relax_all :: "nat \<Rightarrow> nat list \<Rightarrow> dtable \<Rightarrow> dtable \<times> nat option" where
  "relax_all n [] t = (t, None)"
| "relax_all n (k # ks) t =
     (case relax_rows n k [0..<n] t of
        (t', None) \<Rightarrow> relax_all n ks t'
      | (t', Some b) \<Rightarrow> (t', Some b))"

record dclosure =
  dc_consistent :: bool
  dc_bounds :: "int option list list"
  dc_paths :: "nat list option list list"
  dc_cycle :: "nat list option"

definition closure_table :: "dbound list \<Rightarrow> nat \<Rightarrow> dtable \<times> nat option" where
  "closure_table cs n =
     (let t = fold put_bound (enumerate 0 cs) (start_table n) in
      case inconsistent n t of Some b \<Rightarrow> (t, Some b) | None \<Rightarrow> relax_all n [0..<n] t)"

definition closure :: "dbound list \<Rightarrow> int \<Rightarrow> exc + dclosure" where
  "closure cs n =
     rbind (validate_bounds cs n) (\<lambda>_.
       let (t, bad) = closure_table cs (nat n) in
       Inr \<lparr>dc_consistent = (bad = None), dc_bounds = dists t, dc_paths = dpaths t,
            dc_cycle = (case bad of None \<Rightarrow> None | Some b \<Rightarrow> dpaths t ! b ! b)\<rparr>)"

section \<open>Reduction\<close>

record dreduction =
  dr_consistent :: bool
  dr_kept :: "nat list"
  dr_certificates :: "(nat \<times> nat list) list"
  dr_reduced :: bool
  dr_cycle :: "nat list option"

primrec drop_implied :: "dbound list \<Rightarrow> int \<Rightarrow> nat list \<Rightarrow> nat list \<Rightarrow> exc + nat list" where
  "drop_implied cs n [] active = Inr active"
| "drop_implied cs n (i # is) active =
     (let others = filter (\<lambda>j. j \<noteq> i) active; c = cs ! i in
      rbind (closure (map (\<lambda>j. cs ! j) others) n) (\<lambda>t.
        case dc_paths t ! db_left c ! db_right c of
          None \<Rightarrow> drop_implied cs n is active
        | Some p \<Rightarrow>
            if verify_path cs c (map (\<lambda>j. int (others ! j)) p) then drop_implied cs n is others
            else drop_implied cs n is active))"

primrec certify :: "dbound list \<Rightarrow> nat list \<Rightarrow> dclosure \<Rightarrow> nat list \<Rightarrow> (nat \<times> nat list) list \<Rightarrow> exc + (nat \<times> nat list) list" where
  "certify cs active final [] certs = Inr certs"
| "certify cs active final (i # is) certs =
     (if i \<in> set active then certify cs active final is certs
      else
        (let c = cs ! i in
         case dc_paths final ! db_left c ! db_right c of
           None \<Rightarrow> Inl TypeErr
         | Some p \<Rightarrow>
             (let path = map (\<lambda>j. active ! j) p in
              if \<not> verify_path cs c (map int path) then Inl (AssertionErr ''invalid final difference certificate'')
              else certify cs active final is (certs @ [(i, path)]))))"

definition reduce_bounds :: "dbound list \<Rightarrow> int \<Rightarrow> exc + dreduction" where
  "reduce_bounds cs n =
     rbind (closure cs n) (\<lambda>original.
       let all = [0..<length cs] in
       if \<not> dc_consistent original then
         Inr \<lparr>dr_consistent = False, dr_kept = all, dr_certificates = [], dr_reduced = False, dr_cycle = dc_cycle original\<rparr>
       else
         rbind (drop_implied cs n (rev all) all) (\<lambda>active.
         rbind (closure (map (\<lambda>j. cs ! j) active) n) (\<lambda>final.
         rbind (certify cs active final all []) (\<lambda>certs.
         Inr \<lparr>dr_consistent = True, dr_kept = active, dr_certificates = certs,
              dr_reduced = (length active < length cs), dr_cycle = None\<rparr>))))"

end
