(* ===== verification/Diff_Correct.thy ===== *)
theory Diff_Correct
  imports Diff_Bounds
begin

text \<open>
  The closure of a difference system is exact: it is consistent iff the constraints have an integer
  solution, every entry is an attained upper bound, a missing entry means that the difference is
  unbounded, and every entry carries a path of constraints that adds up to it and passes each
  variable at most once. The proof follows the phases of the relaxation: within phase \<open>k\<close> the row
  and the column of \<open>k\<close> stay put, so the in-place updates compute the simultaneous ones.
\<close>

section \<open>Solutions and chains of constraints\<close>

definition satisfies :: "(nat \<Rightarrow> int) \<Rightarrow> dbound \<Rightarrow> bool" where
  "satisfies x c = (x (db_left c) - x (db_right c) \<le> db_bound c)"

definition solves :: "dbound list \<Rightarrow> (nat \<Rightarrow> int) \<Rightarrow> bool" where
  "solves cs x = (\<forall>c \<in> set cs. satisfies x c)"

primrec chain :: "dbound list \<Rightarrow> nat \<Rightarrow> nat list \<Rightarrow> nat \<Rightarrow> int \<Rightarrow> bool" where
  "chain cs i [] j d = (i = j \<and> d = 0)"
| "chain cs i (e # p) j d = (e < length cs \<and> db_left (cs ! e) = i \<and> chain cs (db_right (cs ! e)) p j (d - db_bound (cs ! e)))"

lemma chain_append: "chain cs i (p @ q) j d \<longleftrightarrow> (\<exists>k a. chain cs i p k a \<and> chain cs k q j (d - a))"
proof (induction p arbitrary: i d)
  case (Cons e p)
  let ?b = "db_bound (cs ! e)"
  have "(\<exists>k a. chain cs m p k a \<and> chain cs k q j (d - ?b - a)) \<longleftrightarrow> (\<exists>k a. chain cs m p k (a - ?b) \<and> chain cs k q j (d - a))" for m
  proof
    assume "\<exists>k a. chain cs m p k a \<and> chain cs k q j (d - ?b - a)"
    then obtain k a where "chain cs m p k a" "chain cs k q j (d - ?b - a)" by blast
    then have "chain cs m p k ((a + ?b) - ?b)" "chain cs k q j (d - (a + ?b))" by (simp_all add: algebra_simps)
    then show "\<exists>k a. chain cs m p k (a - ?b) \<and> chain cs k q j (d - a)" by blast
  next
    assume "\<exists>k a. chain cs m p k (a - ?b) \<and> chain cs k q j (d - a)"
    then obtain k a where "chain cs m p k (a - ?b)" "chain cs k q j (d - ?b - (a - ?b))" by auto
    then show "\<exists>k a. chain cs m p k a \<and> chain cs k q j (d - ?b - a)" by blast
  qed
  then show ?case using Cons.IH by simp
qed auto

lemma chain_sound: "chain cs i p j d \<Longrightarrow> solves cs x \<Longrightarrow> x i - x j \<le> d"
proof (induction p arbitrary: i d)
  case (Cons e p)
  then have "x (db_right (cs ! e)) - x j \<le> d - db_bound (cs ! e)" "satisfies x (cs ! e)"
    by (auto simp: solves_def)
  then show ?case using Cons.prems(1) by (auto simp: satisfies_def)
qed simp

lemma walk_chain: "walk cs (map int p) i w = Some (j, v) \<Longrightarrow> set p \<subseteq> {..<length cs} \<Longrightarrow> chain cs i p j (v - w)"
  by (induction p arbitrary: i w) (auto simp: Let_def algebra_simps split: if_splits)

lemma chain_walk: "chain cs i p j d \<Longrightarrow> walk cs (map int p) i w = Some (j, w + d)"
  by (induction p arbitrary: i w d) (auto simp: Let_def)

lemma chain_indices: "chain cs i p j d \<Longrightarrow> set p \<subseteq> {..<length cs}"
  by (induction p arbitrary: i d) auto

lemma verify_chain: "chain cs (db_left c) p (db_right c) d \<Longrightarrow> length p \<le> 64 \<Longrightarrow> verify_path cs c (map int p) \<longleftrightarrow> d \<le> db_bound c"
  using chain_walk [of cs "db_left c" p "db_right c" d 0] chain_indices [of cs "db_left c" p "db_right c" d]
  by (auto simp: verify_path_def)

text \<open>A verified path is a proof: every solution of the constraints it names satisfies the target.\<close>

lemma verify_path_sound:
  assumes "verify_path cs c path" and "solves cs x"
  shows "satisfies x c"
proof -
  have v: "\<forall>i \<in> set path. 0 \<le> i \<and> i < int (length cs)"
    using assms(1) by (auto simp: verify_path_def split: if_splits)
  obtain w where w: "walk cs path (db_left c) 0 = Some (db_right c, w)" "w \<le> db_bound c"
    using assms(1) by (auto simp: verify_path_def split: if_splits option.splits)
  have p: "map int (map nat path) = path" using v by (simp add: map_idI)
  have "set (map nat path) \<subseteq> {..<length cs}" using v by auto
  then have "chain cs (db_left c) (map nat path) (db_right c) w"
    using walk_chain [of cs "map nat path" "db_left c" 0 "db_right c" w] w(1) p by simp
  from chain_sound [OF this assms(2)] w(2) show ?thesis by (simp add: satisfies_def)
qed

text \<open>The variables a chain passes between its ends.\<close>

definition inner :: "dbound list \<Rightarrow> nat list \<Rightarrow> nat list" where
  "inner cs p = map (\<lambda>e. db_right (cs ! e)) (butlast p)"

lemma chain_last: "chain cs i p j d \<Longrightarrow> p \<noteq> [] \<Longrightarrow> db_right (cs ! last p) = j"
  by (induction p arbitrary: i d) auto

lemma inner_append:
  assumes "chain cs i p k a" "p \<noteq> []" "q \<noteq> []"
  shows "inner cs (p @ q) = inner cs p @ k # inner cs q"
proof -
  have "map (\<lambda>e. db_right (cs ! e)) (butlast p @ [last p]) = inner cs p @ [k]"
    using chain_last [OF assms(1,2)] by (simp add: inner_def)
  then show ?thesis using assms(2,3) by (simp add: inner_def butlast_append)
qed

lemma inner_split:
  assumes "chain cs i p j d" "v \<in> set (inner cs p)"
  obtains p1 p2 a where "p = p1 @ p2" "chain cs i p1 v a" "chain cs v p2 j (d - a)"
    "set (inner cs p1) \<subseteq> set (inner cs p)" "set (inner cs p2) \<subseteq> set (inner cs p)" "p1 \<noteq> []" "p2 \<noteq> []"
proof -
  obtain e where e: "e \<in> set (butlast p)" "db_right (cs ! e) = v" using assms(2) by (auto simp: inner_def)
  obtain xs ys where xy: "butlast p = xs @ e # ys" using e(1) by (meson split_list)
  then have ne: "p \<noteq> []" by auto
  define p1 p2 where "p1 = xs @ [e]" and "p2 = ys @ [last p]"
  have p: "p = p1 @ p2" using append_butlast_last_id [OF ne] xy by (simp add: p1_def p2_def)
  then obtain k a where ka: "chain cs i p1 k a" "chain cs k p2 j (d - a)" using assms(1) chain_append by metis
  have "k = v" using chain_last [OF ka(1)] e(2) by (simp add: p1_def)
  moreover have "set (inner cs p1) \<subseteq> set (inner cs p)" "set (inner cs p2) \<subseteq> set (inner cs p)"
    unfolding inner_def p1_def p2_def xy by auto
  moreover have "p1 \<noteq> []" "p2 \<noteq> []" by (simp_all add: p1_def p2_def)
  ultimately show thesis using that [OF p] ka by blast
qed

section \<open>Tables\<close>

definition shaped :: "nat \<Rightarrow> dtable \<Rightarrow> bool" where
  "shaped n t = (length (dists t) = n \<and> length (dpaths t) = n \<and>
     (\<forall>i < n. length (dists t ! i) = n \<and> length (dpaths t ! i) = n))"

definition entry :: "dtable \<Rightarrow> nat \<Rightarrow> nat \<Rightarrow> int option \<times> nat list option" where
  "entry t i j = (dists t ! i ! j, dpaths t ! i ! j)"

definition dist_le :: "dtable \<Rightarrow> nat \<Rightarrow> nat \<Rightarrow> int \<Rightarrow> bool" where
  "dist_le t i j c = (\<exists>d. dists t ! i ! j = Some d \<and> d \<le> c)"

lemma dist_le_mono: "dist_le t i j c \<Longrightarrow> c \<le> c' \<Longrightarrow> dist_le t i j c'"
  by (auto simp: dist_le_def)

lemma below_entry_iff: "below_entry c (dists t ! i ! j) \<longleftrightarrow> \<not> dist_le t i j c"
  by (auto simp: below_entry_def dist_le_def split: option.splits)

lemma entry_eqD: "entry t' i j = entry t i' j' \<Longrightarrow> dists t' ! i ! j = dists t ! i' ! j' \<and> dpaths t' ! i ! j = dpaths t ! i' ! j'"
  by (simp add: entry_def)

lemma set_at_nth: "i < length m \<Longrightarrow> j < length (m ! i) \<Longrightarrow>
    set_at m i j x ! i' ! j' = (if i' = i \<and> j' = j then x else m ! i' ! j')"
  by (auto simp: set_at_def nth_list_update)

lemma set_at_length: "length (set_at m i j x) = length m"
  by (simp add: set_at_def)

lemma set_at_row: "i < length m \<Longrightarrow> length (set_at m i j x ! i') = length (m ! i')"
  by (auto simp: set_at_def nth_list_update)

lemma shaped_set:
  assumes "shaped n t" "i < n" "j < n"
  shows "shaped n (t\<lparr>dists := set_at (dists t) i j x, dpaths := set_at (dpaths t) i j y\<rparr>)"
  using assms by (auto simp: shaped_def set_at_length set_at_row)

lemma entry_set:
  assumes "shaped n t" "i < n" "j < n"
  shows "entry (t\<lparr>dists := set_at (dists t) i j x, dpaths := set_at (dpaths t) i j y\<rparr>) i' j'
    = (if i' = i \<and> j' = j then (x, y) else entry t i' j')"
  using assms by (auto simp: shaped_def entry_def set_at_nth)

section \<open>One phase\<close>

text \<open>What the relaxation through \<open>k\<close> makes of an entry, all of it read from the same table.\<close>

definition newcell :: "dtable \<Rightarrow> nat \<Rightarrow> nat \<Rightarrow> nat \<Rightarrow> int option \<times> nat list option" where
  "newcell t k i j = (case (dists t ! i ! k, dists t ! k ! j) of
     (Some a, Some b) \<Rightarrow> if dist_le t i j (a + b) then entry t i j
        else (Some (a + b), join_paths (dpaths t ! i ! k) (dpaths t ! k ! j))
   | _ \<Rightarrow> entry t i j)"

lemma relax_cases:
  "relax k i j t = t \<and> newcell t k i j = entry t i j
   \<or> (\<exists>x y. newcell t k i j = (x, y)
        \<and> relax k i j t = t\<lparr>dists := set_at (dists t) i j x, dpaths := set_at (dpaths t) i j y\<rparr>)"
  by (cases "dists t ! i ! k"; cases "dists t ! k ! j") (auto simp: relax_def newcell_def below_entry_iff)

lemma relax_entry:
  assumes "shaped n t" "i < n" "j < n"
  shows "shaped n (relax k i j t)"
    and "entry (relax k i j t) i' j' = (if i' = i \<and> j' = j then newcell t k i j else entry t i' j')"
  using relax_cases [of k i j t] shaped_set [OF assms] entry_set [OF assms] assms(1) by auto

lemma newcell_pivot:
  assumes "dists t ! k ! k = Some 0"
  shows "newcell t k i k = entry t i k" and "newcell t k k j = entry t k j"
  using assms by (auto simp: newcell_def dist_le_def split: option.splits)

lemma newcell_cong:
  assumes "entry t' i k = entry t i k" "entry t' k j = entry t k j" "entry t' i j = entry t i j"
  shows "newcell t' k i j = newcell t k i j"
  using assms by (auto simp: newcell_def entry_def dist_le_def split: option.splits)

lemma row_entry:
  assumes "shaped n t" "k < n" "i < n" "dists t ! k ! k = Some 0" "m \<le> n"
  shows "shaped n (fold (relax k i) [0..<m] t) \<and>
    (\<forall>i' j'. entry (fold (relax k i) [0..<m] t) i' j' = (if i' = i \<and> j' < m then newcell t k i j' else entry t i' j'))"
  using assms(5)
proof (induction m)
  case 0
  then show ?case using assms(1) by simp
next
  case (Suc m)
  define t' where "t' = fold (relax k i) [0..<m] t"
  have t': "shaped n t'" "\<And>i' j'. entry t' i' j' = (if i' = i \<and> j' < m then newcell t k i j' else entry t i' j')"
    using Suc by (auto simp: t'_def)
  have step: "fold (relax k i) [0..<Suc m] t = relax k i m t'" by (simp add: t'_def)
  have new: "newcell t' k i m = newcell t k i m"
    using newcell_pivot [OF assms(4)] by (intro newcell_cong) (auto simp: t'(2))
  have "m < n" using Suc.prems by simp
  show ?case unfolding step using relax_entry [OF t'(1) assms(3) \<open>m < n\<close>] new t'(2)
    by (auto simp: less_Suc_eq)
qed

lemma find_None_iff2: "(find P xs = None) = (\<forall>x \<in> set xs. \<not> P x)"
  by (induction xs) auto

lemma inconsistent_None:
  assumes "\<forall>i < n. dist_le t i i 0"
  shows "inconsistent n t = None \<longleftrightarrow> (\<forall>i < n. dists t ! i ! i = Some 0)"
  using assms by (force simp: inconsistent_def find_None_iff2 dist_le_def split: option.splits)

lemma inconsistent_Some: "inconsistent n t = Some b \<Longrightarrow> b < n \<and> (\<exists>d < 0. dists t ! b ! b = Some d)"
  by (auto simp: inconsistent_def dest!: find_SomeD split: option.splits)

lemma rows_entry:
  assumes "relax_rows n k is t = (t', bad)"
    and "shaped n t" "k < n" "set is \<subseteq> {..<n}" "distinct is" "dists t ! k ! k = Some 0"
  shows "shaped n t' \<and> (\<forall>i j. entry t' i j = entry t i j \<or> entry t' i j = newcell t k i j) \<and>
    (bad = None \<longrightarrow> (\<forall>i < n. \<forall>j < n. entry t' i j = (if i \<in> set is then newcell t k i j else entry t i j))
       \<and> (is \<noteq> [] \<longrightarrow> inconsistent n t' = None)) \<and>
    (\<forall>b. bad = Some b \<longrightarrow> inconsistent n t' = Some b)"
  using assms
proof (induction "is" arbitrary: t)
  case (Cons i "is")
  define u where "u = fold (relax k i) [0..<n] t"
  have i: "i < n" using Cons.prems by simp
  have u: "shaped n u" "\<And>i' j'. entry u i' j' = (if i' = i \<and> j' < n then newcell t k i j' else entry t i' j')"
    using row_entry [OF Cons.prems(2,3) i Cons.prems(6) order_refl] by (auto simp: u_def)
  have uk: "entry u i' k = entry t i' k" "entry u k j' = entry t k j'" for i' j'
    using newcell_pivot [OF Cons.prems(6)] by (auto simp: u(2))
  then have piv: "dists u ! k ! k = Some 0" using Cons.prems(6) by (metis entry_eqD)
  have new: "newcell u k i' j' = newcell t k i' j'" if "i' \<noteq> i" for i' j'
    using that uk by (intro newcell_cong) (auto simp: u(2))
  have newi: "newcell u k i j' = newcell t k i j' \<or> newcell u k i j' = entry u i j'" for j'
  proof (cases "entry u i j' = entry t i j'")
    case True
    then show ?thesis using uk by (auto intro!: newcell_cong)
  next
    case False
    then have e: "entry u i j' = newcell t k i j'" by (simp add: u(2) split: if_splits)
    then obtain a b where ab: "dists t ! i ! k = Some a" "dists t ! k ! j' = Some b" "dists u ! i ! j' = Some (a + b)"
      using False by (auto simp: newcell_def entry_def split: option.splits if_splits)
    have "dists u ! i ! k = Some a" "dists u ! k ! j' = Some b" using ab uk by (metis entry_eqD)+
    then show ?thesis using ab(3) by (auto simp: newcell_def dist_le_def)
  qed
  show ?case
  proof (cases "inconsistent n u")
    case (Some b)
    then have "t' = u" "bad = Some b" using Cons.prems(1) by (auto simp: u_def Let_def)
    then show ?thesis using u Some by auto
  next
    case None
    then have r: "relax_rows n k is u = (t', bad)" using Cons.prems(1) by (simp add: u_def Let_def)
    have IH: "shaped n t' \<and> (\<forall>i j. entry t' i j = entry u i j \<or> entry t' i j = newcell u k i j) \<and>
      (bad = None \<longrightarrow> (\<forall>i < n. \<forall>j < n. entry t' i j = (if i \<in> set is then newcell u k i j else entry u i j))
         \<and> (is \<noteq> [] \<longrightarrow> inconsistent n t' = None)) \<and>
      (\<forall>b. bad = Some b \<longrightarrow> inconsistent n t' = Some b)"
      using Cons.prems by (intro Cons.IH [OF r u(1) Cons.prems(3) _ _ piv]) auto
    have empty: "t' = u" if "is = []" using that r by simp
    have any: "entry t' a b = entry t a b \<or> entry t' a b = newcell t k a b" for a b
      using IH new [of a b] newi [of b] u(2) [of a b] by (cases "a = i") (metis, metis)
    have full: "entry t' a b = (if a \<in> set (i # is) then newcell t k a b else entry t a b)"
      if "bad = None" "a < n" "b < n" for a b
      using IH that new [of a b] u(2) [of a b] Cons.prems(5) by (cases "a = i") auto
    show ?thesis using IH any full empty None by auto
  qed
qed auto

section \<open>The invariant of the phases\<close>

text \<open>Every present entry has a chain that adds up to it and passes variables of \<open>K\<close> at most once each.\<close>

definition sound_value :: "dbound list \<Rightarrow> nat set \<Rightarrow> nat \<Rightarrow> nat \<Rightarrow> int option \<times> nat list option \<Rightarrow> bool" where
  "sound_value cs K i j e = (case e of
     (None, None) \<Rightarrow> True
   | (Some d, Some p) \<Rightarrow> chain cs i p j d \<and> distinct (inner cs p) \<and> set (inner cs p) \<subseteq> K
   | _ \<Rightarrow> False)"

definition sound_table :: "dbound list \<Rightarrow> nat \<Rightarrow> nat set \<Rightarrow> dtable \<Rightarrow> bool" where
  "sound_table cs n K t = (shaped n t \<and> (\<forall>i < n. \<forall>j < n. sound_value cs K i j (entry t i j)))"

text \<open>No entry can be improved through the variables of \<open>K\<close>.\<close>

definition tight :: "dbound list \<Rightarrow> nat \<Rightarrow> nat set \<Rightarrow> dtable \<Rightarrow> bool" where
  "tight cs n K t = ((\<forall>i < n. dists t ! i ! i = Some 0) \<and>
     (\<forall>c \<in> set cs. dist_le t (db_left c) (db_right c) (db_bound c)) \<and>
     (\<forall>m \<in> K. \<forall>i < n. \<forall>j < n. \<forall>a b. dist_le t i m a \<longrightarrow> dist_le t m j b \<longrightarrow> dist_le t i j (a + b)))"

definition within_dims :: "dbound list \<Rightarrow> nat \<Rightarrow> bool" where
  "within_dims cs n = (\<forall>c \<in> set cs. db_left c < n \<and> db_right c < n)"

lemma sound_valueE:
  assumes "sound_value cs K i j (entry t i j)"
  obtains "dists t ! i ! j = None" "dpaths t ! i ! j = None"
  | d p where "dists t ! i ! j = Some d" "dpaths t ! i ! j = Some p" "chain cs i p j d"
      "distinct (inner cs p)" "set (inner cs p) \<subseteq> K"
  using assms by (auto simp: sound_value_def entry_def split: option.splits)

lemma sound_value_mono: "sound_value cs K i j e \<Longrightarrow> K \<subseteq> L \<Longrightarrow> sound_value cs L i j e"
  by (auto simp: sound_value_def split: option.splits prod.splits)

lemma tight_triangle: "tight cs n K t \<Longrightarrow> m \<in> K \<Longrightarrow> i < n \<Longrightarrow> j < n \<Longrightarrow> dist_le t i m a \<Longrightarrow> dist_le t m j b \<Longrightarrow> dist_le t i j (a + b)"
  by (auto simp: tight_def)

lemma tight_diag: "tight cs n K t \<Longrightarrow> i < n \<Longrightarrow> dist_le t i i c \<longleftrightarrow> 0 \<le> c"
  by (auto simp: tight_def dist_le_def)

text \<open>A chain through \<open>K\<close> is never below its entry.\<close>

lemma chain_not_below:
  assumes "tight cs n K t" "within_dims cs n" "K \<subseteq> {..<n}"
  shows "chain cs i p j d \<Longrightarrow> p \<noteq> [] \<Longrightarrow> set (inner cs p) \<subseteq> K \<Longrightarrow> dist_le t i j d"
proof (induction p arbitrary: i d)
  case (Cons e p)
  have e: "e < length cs" "db_left (cs ! e) = i" "cs ! e \<in> set cs" using Cons.prems by auto
  then have first: "dist_le t i (db_right (cs ! e)) (db_bound (cs ! e))" and i: "i < n" "db_right (cs ! e) < n"
    using assms(1,2) by (auto simp: tight_def within_dims_def)
  show ?case
  proof (cases "p = []")
    case True
    then show ?thesis using first Cons.prems(1) by simp
  next
    case False
    have "last (e # p) < length cs" using chain_indices [OF Cons.prems(1)] last_in_set [of "e # p"] by blast
    then have j: "j < n" using chain_last [OF Cons.prems(1)] assms(2) by (auto simp: within_dims_def)
    have inn: "inner cs (e # p) = db_right (cs ! e) # inner cs p" using False by (simp add: inner_def)
    have "dist_le t (db_right (cs ! e)) j (d - db_bound (cs ! e))"
      using Cons.prems inn False by (intro Cons.IH) auto
    with tight_triangle [OF assms(1) _ i(1) j first] inn Cons.prems(3) show ?thesis by fastforce
  qed
qed simp

lemma newcell_le:
  assumes "entry t' i j = newcell t k i j"
  shows "dist_le t' i j c \<longleftrightarrow> dist_le t i j c \<or> (\<exists>a. dist_le t i k a \<and> dist_le t k j (c - a))"
proof (cases "dists t ! i ! k")
  case None
  then show ?thesis using assms by (auto simp: newcell_def entry_def dist_le_def)
next
  case (Some a)
  show ?thesis
  proof (cases "dists t ! k ! j")
    case None
    then show ?thesis using assms Some by (auto simp: newcell_def entry_def dist_le_def)
  next
    case b: (Some b)
    have "(\<exists>a. dist_le t i k a \<and> dist_le t k j (c - a)) \<longleftrightarrow> a + b \<le> c"
      using Some b by (auto simp: dist_le_def intro!: exI [of _ a])
    moreover have "dists t' ! i ! j = (if dist_le t i j (a + b) then dists t ! i ! j else Some (a + b))"
      using assms Some b by (auto simp: newcell_def entry_def split: if_splits)
    ultimately show ?thesis
      by (cases "dists t ! i ! j") (auto simp: dist_le_def)
  qed
qed

lemma phase_tight:
  assumes T: "tight cs n K t" and k: "k < n" and K: "K \<subseteq> {..<n}"
    and new: "\<forall>i < n. \<forall>j < n. entry t' i j = newcell t k i j"
    and diag: "\<forall>i < n. dists t' ! i ! i = Some 0" and dims: "within_dims cs n"
  shows "tight cs n (insert k K) t'"
  unfolding tight_def
proof (intro conjI diag ballI allI impI)
  have le: "dist_le t' i j c \<longleftrightarrow> dist_le t i j c \<or> (\<exists>a. dist_le t i k a \<and> dist_le t k j (c - a))" if "i < n" "j < n" for i j c
    using newcell_le new that by blast
  show "dist_le t' (db_left c) (db_right c) (db_bound c)" if "c \<in> set cs" for c
    using T that dims le by (auto simp: tight_def within_dims_def)
  fix m i j a b assume m: "m \<in> insert k K" and i: "i < n" and j: "j < n" and im: "dist_le t' i m a" and mj: "dist_le t' m j b"
  have mn: "m < n" using m k K by auto
  have tri: "dist_le t i' j' (x + y)" if "m \<in> K" "i' < n" "j' < n" "dist_le t i' m x" "dist_le t m j' y" for i' j' x y
    using tight_triangle [OF T] that by blast
  have pivot: "dist_le t k k c \<longleftrightarrow> 0 \<le> c" for c using tight_diag [OF T k] .
  have via: "dist_le t' i j c" if "dist_le t i k x" "dist_le t k j y" "x + y \<le> c" for x y c
    using that le [OF i j] dist_le_mono [of t k j y "c - x"] by auto
  show "dist_le t' i j (a + b)"
  proof (cases "m = k")
    case True
    obtain x where "dist_le t i k x" "x \<le> a"
      using im le [OF i k] pivot True by (metis diff_ge_0_iff_ge order_refl)
    moreover obtain y where "dist_le t k j y" "y \<le> b"
    proof -
      have "dist_le t k j b" using mj le [OF k j] pivot dist_le_mono True
        by (metis diff_le_eq le_add_same_cancel1)
      then show thesis using that by blast
    qed
    ultimately show ?thesis using via [of x y] by simp
  next
    case False
    then have mK: "m \<in> K" using m by simp
    show ?thesis
    proof (cases "dist_le t i m a")
      case im': True
      show ?thesis
      proof (cases "dist_le t m j b")
        case True
        then show ?thesis using tri [OF mK i j im'] le [OF i j] by blast
      next
        case False
        then obtain y where "dist_le t m k y" "dist_le t k j (b - y)" using mj le [OF mn j] by blast
        from tri [OF mK i k im' this(1)] this(2) show ?thesis by (rule via) simp
      qed
    next
      case False
      then obtain x where x: "dist_le t i k x" "dist_le t k m (a - x)" using im le [OF i mn] by blast
      show ?thesis
      proof (cases "dist_le t m j b")
        case True
        from tri [OF mK k j x(2) this] x(1) show ?thesis by (intro via) auto
      next
        case False
        then obtain y where y: "dist_le t m k y" "dist_le t k j (b - y)" using mj le [OF mn j] by blast
        have "0 \<le> a - x + y" using tri [OF mK k k x(2) y(1)] pivot by simp
        then show ?thesis using via [OF x(1) y(2)] by simp
      qed
    qed
  qed
qed

lemma newcell_sound:
  assumes T: "tight cs n K t" and S: "sound_table cs n K t" and k: "k < n" "k \<notin> K" and K: "K \<subseteq> {..<n}"
    and dims: "within_dims cs n" and i: "i < n" and j: "j < n"
  shows "sound_value cs (insert k K) i j (newcell t k i j)"
proof (cases "newcell t k i j = entry t i j")
  case True
  moreover have "sound_value cs K i j (entry t i j)" using S i j by (simp add: sound_table_def)
  ultimately show ?thesis using sound_value_mono [OF _ subset_insertI] by simp
next
  case False
  then obtain a b where ab: "dists t ! i ! k = Some a" "dists t ! k ! j = Some b" "\<not> dist_le t i j (a + b)"
    and new: "newcell t k i j = (Some (a + b), join_paths (dpaths t ! i ! k) (dpaths t ! k ! j))"
    by (auto simp: newcell_def split: option.splits if_splits)
  have sik: "sound_value cs K i k (entry t i k)" and skj: "sound_value cs K k j (entry t k j)"
    using S i j k by (auto simp: sound_table_def)
  obtain p where p: "dpaths t ! i ! k = Some p" "chain cs i p k a" "distinct (inner cs p)" "set (inner cs p) \<subseteq> K"
    using sik ab(1) by (auto elim: sound_valueE)
  obtain q where q: "dpaths t ! k ! j = Some q" "chain cs k q j b" "distinct (inner cs q)" "set (inner cs q) \<subseteq> K"
    using skj ab(2) by (auto elim: sound_valueE)
  have diag: "dists t ! k ! k = Some 0" using T k by (simp add: tight_def)
  have "i \<noteq> k" "j \<noteq> k" using ab diag by (auto simp: dist_le_def)
  then have ne: "p \<noteq> []" "q \<noteq> []" using p(2) q(2) by auto
  have join: "inner cs (p @ q) = inner cs p @ k # inner cs q" using inner_append [OF p(2) ne] .
  have ch: "chain cs i (p @ q) j (a + b)" using p(2) q(2) chain_append by (metis add_diff_cancel_left')
  have "set (inner cs p) \<inter> set (inner cs q) = {}"
  proof (rule ccontr)
    assume "set (inner cs p) \<inter> set (inner cs q) \<noteq> {}"
    then obtain v where v: "v \<in> set (inner cs p)" "v \<in> set (inner cs q)" by blast
    have vK: "v \<in> K" and vn: "v < n" using v p(4) K by auto
    obtain p1 p2 x where p12: "chain cs i p1 v x" "chain cs v p2 k (a - x)"
      "set (inner cs p1) \<subseteq> K" "set (inner cs p2) \<subseteq> K" "p1 \<noteq> []" "p2 \<noteq> []"
      using inner_split [OF p(2) v(1)] p(4) by (metis subset_trans)
    obtain q1 q2 y where q12: "chain cs k q1 v y" "chain cs v q2 j (b - y)"
      "set (inner cs q1) \<subseteq> K" "set (inner cs q2) \<subseteq> K" "q1 \<noteq> []" "q2 \<noteq> []"
      using inner_split [OF q(2) v(2)] q(4) by (metis subset_trans)
    note opt = chain_not_below [OF T dims K]
    have "dist_le t i j (x + (b - y))"
      using tight_triangle [OF T vK i j] opt [OF p12(1,5,3)] opt [OF q12(2,6,4)] by blast
    moreover have "dist_le t k k (y + (a - x))"
      using tight_triangle [OF T vK k(1) k(1)] opt [OF q12(1,5,3)] opt [OF p12(2,6,4)] by blast
    then have "0 \<le> y + (a - x)" using tight_diag [OF T k(1)] by simp
    then have "x + (b - y) \<le> a + b" by simp
    ultimately show False using ab(3) dist_le_mono by blast
  qed
  then show ?thesis using p q ch join k(2) by (auto simp: sound_value_def new join_paths_def)
qed

section \<open>The starting table\<close>

definition started :: "dbound list \<Rightarrow> nat \<Rightarrow> dbound list \<Rightarrow> dtable \<Rightarrow> bool" where
  "started cs n done t = (sound_table cs n {} t \<and> (\<forall>i < n. dist_le t i i 0) \<and>
     (\<forall>c \<in> set done. dist_le t (db_left c) (db_right c) (db_bound c)))"

lemma started_start: "started cs n [] (start_table n)"
  by (auto simp: started_def sound_table_def start_table_def shaped_def entry_def sound_value_def inner_def dist_le_def)

lemma started_put:
  assumes "started cs n done t" "e < length cs" "cs ! e = c" "db_left c < n" "db_right c < n"
  shows "started cs n (done @ [c]) (put_bound (e, c) t)"
proof (cases "dist_le t (db_left c) (db_right c) (db_bound c)")
  case True
  then show ?thesis using assms(1) by (auto simp: put_bound_def below_entry_iff started_def)
next
  case False
  define t' where "t' = put_bound (e, c) t"
  have sh: "shaped n t" using assms(1) by (simp add: started_def sound_table_def)
  have p: "t' = t\<lparr>dists := set_at (dists t) (db_left c) (db_right c) (Some (db_bound c)),
      dpaths := set_at (dpaths t) (db_left c) (db_right c) (Some [e])\<rparr>"
    using False by (simp add: t'_def put_bound_def below_entry_iff)
  have e: "entry t' i j = (if i = db_left c \<and> j = db_right c then (Some (db_bound c), Some [e]) else entry t i j)" for i j
    unfolding p by (rule entry_set [OF sh assms(4,5)])
  have s: "shaped n t'" unfolding p by (rule shaped_set [OF sh assms(4,5)])
  have le: "dist_le t' i j b \<longleftrightarrow> (if i = db_left c \<and> j = db_right c then db_bound c \<le> b else dist_le t i j b)" for i j b
    using e [of i j] by (auto simp: entry_def dist_le_def split: if_splits)
  have mono: "dist_le t' i j b" if "dist_le t i j b" for i j b
    using that False le dist_le_mono [of t i j b "db_bound c"] by (cases "db_bound c \<le> b") auto
  have "sound_value cs {} i j (entry t' i j)" if "i < n" "j < n" for i j
    using that assms e by (auto simp: started_def sound_table_def sound_value_def inner_def)
  then show ?thesis using assms(1) mono s le unfolding t'_def [symmetric]
    by (auto simp: started_def sound_table_def)
qed

lemma started_fold:
  assumes "within_dims cs n"
  shows "m \<le> length cs \<Longrightarrow> started cs n (take m cs) (fold put_bound (enumerate 0 (take m cs)) (start_table n))"
proof (induction m)
  case 0
  then show ?case by (simp add: started_start)
next
  case (Suc m)
  then have m: "m < length cs" by simp
  then have "cs ! m \<in> set cs" by simp
  then have d: "db_left (cs ! m) < n" "db_right (cs ! m) < n" using assms by (auto simp: within_dims_def)
  have "enumerate 0 (take (Suc m) cs) = enumerate 0 (take m cs) @ [(m, cs ! m)]"
    using m by (simp add: take_Suc_conv_app_nth enumerate_append_eq)
  then show ?case using started_put [OF Suc.IH m refl d] m by (simp add: take_Suc_conv_app_nth)
qed

lemma started_tight:
  assumes "started cs n cs t" "inconsistent n t = None"
  shows "tight cs n {} t"
  using assms inconsistent_None [of n t] by (auto simp: started_def tight_def)

section \<open>All phases\<close>

lemma relax_all_result:
  assumes dims: "within_dims cs n"
  shows "relax_all n [m..<n] t = (t', bad) \<Longrightarrow> m \<le> n \<Longrightarrow> tight cs n {..<m} t \<Longrightarrow> sound_table cs n {..<m} t \<Longrightarrow>
    sound_table cs n {..<n} t' \<and> (bad = None \<longrightarrow> tight cs n {..<n} t') \<and> (\<forall>b. bad = Some b \<longrightarrow> inconsistent n t' = Some b)"
proof (induction "n - m" arbitrary: m t)
  case 0
  then show ?case by simp
next
  case (Suc l)
  then have m: "m < n" by simp
  have split: "[m..<n] = m # [Suc m..<n]" using m by (simp add: upt_conv_Cons)
  obtain u ub where r: "relax_rows n m [0..<n] t = (u, ub)" by (metis prod.exhaust)
  have diag: "dists t ! m ! m = Some 0" using Suc.prems(3) m by (simp add: tight_def)
  have sh: "shaped n t" using Suc.prems(4) by (simp add: sound_table_def)
  have R: "shaped n u" "\<And>i j. entry u i j = entry t i j \<or> entry u i j = newcell t m i j"
    "ub = None \<Longrightarrow> (\<forall>i < n. \<forall>j < n. entry u i j = newcell t m i j) \<and> inconsistent n u = None"
    "\<And>b. ub = Some b \<Longrightarrow> inconsistent n u = Some b"
  proof -
    have "set [0..<n] \<subseteq> {..<n}" "distinct [0..<n]" by auto
    note rows = rows_entry [OF r sh m this diag]
    show "shaped n u" using rows by blast
    show "entry u i j = entry t i j \<or> entry u i j = newcell t m i j" for i j using rows by blast
    show "(\<forall>i < n. \<forall>j < n. entry u i j = newcell t m i j) \<and> inconsistent n u = None" if "ub = None" using rows that m by simp
    show "inconsistent n u = Some b" if "ub = Some b" for b using rows that by blast
  qed
  have K: "insert m {..<m} = {..<Suc m}" by auto
  have "sound_value cs {..<Suc m} i j (entry u i j)" if "i < n" "j < n" for i j
    using R(2) [of i j] newcell_sound [OF Suc.prems(3,4) m _ _ dims that] Suc.prems(4) that K m
      sound_value_mono [of cs "{..<m}" i j "entry t i j" "{..<Suc m}"]
    by (auto simp: sound_table_def)
  then have sound: "sound_table cs n {..<Suc m} u" using R(1) by (simp add: sound_table_def)
  show ?case
  proof (cases ub)
    case None
    then have rest: "relax_all n [Suc m..<n] u = (t', bad)" using Suc.prems(1) split r by simp
    have le0: "dist_le u i i 0" if "i < n" for i
      using newcell_le [of u i i t m 0] R(3) [OF None] that tight_diag [OF Suc.prems(3) that] by auto
    then have du: "\<forall>i < n. dists u ! i ! i = Some 0"
      using R(3) [OF None] inconsistent_None [of n u] by auto
    have "tight cs n (insert m {..<m}) u"
      using R(3) [OF None] m by (intro phase_tight [OF Suc.prems(3) m _ _ du dims]) auto
    then have tu: "tight cs n {..<Suc m} u" unfolding K .
    show ?thesis using Suc.hyps(2) m by (intro Suc.hyps(1) [OF _ rest _ tu sound]) auto
  next
    case (Some b)
    then have "t' = u" "bad = Some b" using Suc.prems(1) split r by auto
    moreover have "sound_table cs n {..<n} u"
      using sound m sound_value_mono [of cs "{..<Suc m}" _ _ _ "{..<n}"] by (auto simp: sound_table_def)
    ultimately show ?thesis using R(4) Some by blast
  qed
qed

lemma closure_table_result:
  assumes "within_dims cs n" "closure_table cs n = (t, bad)"
  shows "sound_table cs n {..<n} t \<and> (bad = None \<longrightarrow> tight cs n {..<n} t) \<and> (\<forall>b. bad = Some b \<longrightarrow> inconsistent n t = Some b)"
proof -
  define s where "s = fold put_bound (enumerate 0 cs) (start_table n)"
  have st: "started cs n cs s" using started_fold [OF assms(1), of "length cs"] by (simp add: s_def)
  then have snd: "sound_table cs n {} s" by (simp add: started_def)
  show ?thesis
  proof (cases "inconsistent n s")
    case None
    then have "relax_all n [0..<n] s = (t, bad)" using assms(2) by (simp add: closure_table_def s_def)
    then show ?thesis using relax_all_result [OF assms(1), of 0 s t bad] started_tight [OF st None] snd by simp
  next
    case (Some b)
    then have "t = s" "bad = Some b" using assms(2) by (auto simp: closure_table_def s_def)
    then show ?thesis using snd Some sound_value_mono [of cs "{}" _ _ _ "{..<n}"] by (auto simp: sound_table_def)
  qed
qed

lemma sound_length:
  assumes "sound_value cs {..<n} i j (x, Some p)"
  shows "length p \<le> Suc n"
proof -
  have "distinct (inner cs p)" "set (inner cs p) \<subseteq> {..<n}"
    using assms by (auto simp: sound_value_def split: option.splits)
  then have "length (inner cs p) \<le> n" by (metis card_lessThan card_mono distinct_card finite_lessThan)
  then show ?thesis by (simp add: inner_def)
qed

section \<open>Solutions from a tight table\<close>

definition potential :: "dtable \<Rightarrow> nat \<Rightarrow> (nat \<Rightarrow> int) \<Rightarrow> nat \<Rightarrow> int" where
  "potential t n h v = Min {d + h k |k d. k < n \<and> dists t ! v ! k = Some d}"

lemma potential_set: "finite {d + h k |k d. k < n \<and> dists t ! v ! k = Some d}"
proof -
  have "{d + h k |k d. k < n \<and> dists t ! v ! k = Some d} = (\<lambda>k. the (dists t ! v ! k) + h k) ` {k. k < n \<and> dists t ! v ! k \<noteq> None}"
    by force
  then show ?thesis by simp
qed

lemma potential_le: "k < n \<Longrightarrow> dist_le t v k d \<Longrightarrow> potential t n h v \<le> d + h k"
proof -
  assume "k < n" "dist_le t v k d"
  then obtain e where "dists t ! v ! k = Some e" "e \<le> d" "k < n" by (auto simp: dist_le_def)
  moreover from this have "potential t n h v \<le> e + h k"
    unfolding potential_def by (intro Min_le [OF potential_set]) auto
  ultimately show ?thesis by simp
qed

lemma potential_ge:
  assumes "k < n" "dists t ! v ! k = Some d" "\<And>k d. k < n \<Longrightarrow> dists t ! v ! k = Some d \<Longrightarrow> b \<le> d + h k"
  shows "b \<le> potential t n h v"
  unfolding potential_def using assms by (subst Min_ge_iff [OF potential_set]) auto

lemma potential_attained:
  assumes "tight cs n {..<n} t" "v < n"
  obtains k d where "k < n" "dists t ! v ! k = Some d" "potential t n h v = d + h k"
proof -
  have "dists t ! v ! v = Some 0" using assms by (simp add: tight_def)
  then have "0 + h v \<in> {d + h k |k d. k < n \<and> dists t ! v ! k = Some d}" using assms(2) by blast
  then have "{d + h k |k d. k < n \<and> dists t ! v ! k = Some d} \<noteq> {}" by blast
  from Min_in [OF potential_set this] show thesis using that by (auto simp: potential_def)
qed

lemma potential_solves:
  assumes "tight cs n {..<n} t" "within_dims cs n"
  shows "solves cs (potential t n h)"
  unfolding solves_def satisfies_def
proof
  fix c assume c: "c \<in> set cs"
  then have lr: "db_left c < n" "db_right c < n" "dist_le t (db_left c) (db_right c) (db_bound c)"
    using assms by (auto simp: within_dims_def tight_def)
  obtain k d where k: "k < n" "dists t ! db_right c ! k = Some d" "potential t n h (db_right c) = d + h k"
    using potential_attained [OF assms(1) lr(2)] .
  have "dist_le t (db_right c) k d" using k(2) by (simp add: dist_le_def)
  from tight_triangle [OF assms(1) _ lr(1) k(1) lr(3) this] lr(2)
  have "dist_le t (db_left c) k (db_bound c + d)" by simp
  from potential_le [OF k(1) this, of h] k(3)
  show "potential t n h (db_left c) - potential t n h (db_right c) \<le> db_bound c" by simp
qed

text \<open>A solution in which the difference of two variables is at its entry, or as large as one likes.\<close>

lemma solution_with_difference:
  assumes T: "tight cs n {..<n} t" and dims: "within_dims cs n" and i: "i < n" and j: "j < n"
    and b: "\<And>d. dists t ! i ! j = Some d \<Longrightarrow> b \<le> d"
  shows "\<exists>x. solves cs x \<and> b \<le> x i - x j"
proof -
  define w where "w = Max ({\<bar>d\<bar> |v k d. v < n \<and> k < n \<and> dists t ! v ! k = Some d} \<union> {0})"
  have fin: "finite ({\<bar>d\<bar> |v k d. v < n \<and> k < n \<and> dists t ! v ! k = Some d} \<union> {0})"
  proof -
    have "{\<bar>d\<bar> |v k d. v < n \<and> k < n \<and> dists t ! v ! k = Some d} \<subseteq> (\<lambda>(v, k). \<bar>the (dists t ! v ! k)\<bar>) ` ({..<n} \<times> {..<n})"
      by force
    then show ?thesis using finite_subset by blast
  qed
  have w: "\<bar>d\<bar> \<le> w" if "v < n" "k < n" "dists t ! v ! k = Some d" for v k d
    unfolding w_def using fin that by (intro Max_ge) auto
  define h where "h k = (if k = j then 0 else \<bar>b\<bar> + w)" for k
  have jj: "dist_le t j j 0" using tight_diag [OF T j] by simp
  have "potential t n h j \<le> 0" using potential_le [OF j jj, of h] by (simp add: h_def)
  moreover have "b \<le> potential t n h i"
  proof (rule potential_ge [OF i])
    show "dists t ! i ! i = Some 0" using T i by (simp add: tight_def)
    fix k d assume k: "k < n" "dists t ! i ! k = Some d"
    show "b \<le> d + h k"
    proof (cases "k = j")
      case True
      then show ?thesis using b k(2) by (simp add: h_def)
    next
      case False
      then show ?thesis using w [OF i k] by (simp add: h_def)
    qed
  qed
  ultimately show ?thesis using potential_solves [OF T dims, of h] by (intro exI [of _ "potential t n h"]) simp
qed

section \<open>What closure returns\<close>

lemma validate_dims: "validate_bounds cs n = Inr u \<Longrightarrow> within_dims cs (nat n) \<and> 1 \<le> n \<and> n \<le> 16 \<and> length cs \<le> 64"
  by (force simp: validate_bounds_def res_simps within_dims_def)

lemma closure_parts:
  assumes "closure cs n = Inr r"
  obtains t bad where "closure_table cs (nat n) = (t, bad)" "within_dims cs (nat n)" "nat n \<le> 16"
    "dc_consistent r = (bad = None)" "dc_bounds r = dists t" "dc_paths r = dpaths t"
    "dc_cycle r = (case bad of None \<Rightarrow> None | Some b \<Rightarrow> dpaths t ! b ! b)"
proof -
  obtain t bad where tb: "closure_table cs (nat n) = (t, bad)" by (metis prod.exhaust)
  show thesis
    using assms validate_dims [of cs n] by (intro that [OF tb]) (auto simp: closure_def tb res_simps)
qed

text \<open>The entry of a consistent closure as an abstract bound: attained, or absent because there is none.\<close>

definition exact_bound :: "dbound list \<Rightarrow> nat \<Rightarrow> nat \<Rightarrow> int option \<Rightarrow> bool" where
  "exact_bound cs i j e = (case e of
     Some d \<Rightarrow> {x i - x j |x. solves cs x} \<subseteq> {..d} \<and> (\<exists>x. solves cs x \<and> x i - x j = d)
   | None \<Rightarrow> (\<forall>b. \<exists>x. solves cs x \<and> b \<le> x i - x j))"

definition negative_cycle :: "dbound list \<Rightarrow> nat list option \<Rightarrow> bool" where
  "negative_cycle cs c = (\<exists>b p. c = Some p \<and> verify_path cs \<lparr>db_left = b, db_right = b, db_bound = -1\<rparr> (map int p))"

lemma table_exact:
  assumes "tight cs n {..<n} t" "sound_table cs n {..<n} t" "within_dims cs n" "i < n" "j < n"
  shows "exact_bound cs i j (dists t ! i ! j)"
proof (cases "dists t ! i ! j")
  case None
  then show ?thesis using solution_with_difference [OF assms(1,3-5)] by (auto simp: exact_bound_def)
next
  case (Some d)
  have "sound_value cs {..<n} i j (entry t i j)" using assms by (simp add: sound_table_def)
  then obtain p where "chain cs i p j d" using Some by (auto elim: sound_valueE)
  then have le: "x i - x j \<le> d" if "solves cs x" for x using chain_sound that by blast
  obtain x where "solves cs x" "d \<le> x i - x j"
    using solution_with_difference [OF assms(1,3-5), of d] Some by auto
  moreover from this have "x i - x j = d" using le [of x] by simp
  ultimately show ?thesis using le by (auto simp: exact_bound_def Some)
qed

text \<open>C20: \<open>closure\<close> is exact. The system is reported consistent iff it has an integer solution; then
  every entry is the largest value the difference takes over all solutions, a missing entry means
  that there is no largest value; an inconsistent system comes with a cycle of constraints, checked
  by \<open>verify_path\<close>, that forces a difference of a variable with itself below zero.\<close>

theorem closure_exact:
  assumes "closure cs n = Inr r"
  shows "(dc_consistent r \<longleftrightarrow> (\<exists>x. solves cs x)) \<and>
    (if dc_consistent r then \<forall>i < nat n. \<forall>j < nat n. exact_bound cs i j (dc_bounds r ! i ! j)
     else negative_cycle cs (dc_cycle r))"
proof -
  obtain t bad where tb: "closure_table cs (nat n) = (t, bad)" and dims: "within_dims cs (nat n)" "nat n \<le> 16"
    and r: "dc_consistent r = (bad = None)" "dc_bounds r = dists t"
      "dc_cycle r = (case bad of None \<Rightarrow> None | Some b \<Rightarrow> dpaths t ! b ! b)"
    using closure_parts [OF assms] by metis
  note R = closure_table_result [OF dims(1) tb]
  have snd: "sound_table cs (nat n) {..<nat n} t" using R by blast
  have neg: "negative_cycle cs (dpaths t ! b ! b) \<and> (\<nexists>x. solves cs x)" if "bad = Some b" for b
  proof -
    have "inconsistent (nat n) t = Some b" using R that by simp
    from inconsistent_Some [OF this]
    obtain d where d: "b < nat n" "d < 0" "dists t ! b ! b = Some d" by auto
    then have sv: "sound_value cs {..<nat n} b b (entry t b b)" using snd by (simp add: sound_table_def)
    then obtain p where p: "dpaths t ! b ! b = Some p" "chain cs b p b d"
      using d(3) by - (erule sound_valueE, simp, simp add: entry_def)
    have "length p \<le> 64" using sound_length [OF sv [unfolded entry_def p(1)]] dims(2) by simp
    then have "verify_path cs \<lparr>db_left = b, db_right = b, db_bound = -1\<rparr> (map int p)"
      using verify_chain [of cs "\<lparr>db_left = b, db_right = b, db_bound = -1\<rparr>" p d] p(2) d(2) by simp
    moreover have "\<not> solves cs x" for x using chain_sound [OF p(2), of x] d(2) by auto
    ultimately show ?thesis using p(1) by (auto simp: negative_cycle_def)
  qed
  show ?thesis
  proof (cases bad)
    case None
    then have T: "tight cs (nat n) {..<nat n} t" using R by simp
    then have "\<exists>x. solves cs x" using potential_solves dims(1) by blast
    then show ?thesis using table_exact [OF T snd dims(1)] r None by simp
  next
    case (Some b)
    then show ?thesis using neg [OF Some] r by simp
  qed
qed

text \<open>\<open>x0 - x1 \<le> 2\<close> and \<open>x1 - x2 \<le> 3\<close>: the closure finds \<open>x0 - x2 \<le> 5\<close> and no bound for \<open>x2 - x0\<close>.\<close>

theorem closure_exact_witness:
  "\<exists>r. closure [\<lparr>db_left = 0, db_right = 1, db_bound = 2\<rparr>, \<lparr>db_left = 1, db_right = 2, db_bound = 3\<rparr>] 3 = Inr r
     \<and> exact_bound [\<lparr>db_left = 0, db_right = 1, db_bound = 2\<rparr>, \<lparr>db_left = 1, db_right = 2, db_bound = 3\<rparr>] 0 2 (Some 5)
     \<and> exact_bound [\<lparr>db_left = 0, db_right = 1, db_bound = 2\<rparr>, \<lparr>db_left = 1, db_right = 2, db_bound = 3\<rparr>] 2 0 None"
proof -
  let ?cs = "[\<lparr>db_left = 0, db_right = 1, db_bound = 2\<rparr>, \<lparr>db_left = 1, db_right = 2, db_bound = 3\<rparr>]"
  let ?r = "\<lparr>dc_consistent = True, dc_bounds = [[Some 0, Some 2, Some 5], [None, Some 0, Some 3], [None, None, Some 0]],
    dc_paths = [[Some [], Some [0], Some [0, 1]], [None, Some [], Some [1]], [None, None, Some []]], dc_cycle = None\<rparr>"
  have e: "closure ?cs 3 = Inr ?r" by code_simp
  show ?thesis using e closure_exact [OF e] by (auto simp: eval_nat_numeral All_less_Suc)
qed

end
