(* ===== verification/Diff_Reduce.thy ===== *)
theory Diff_Reduce
  imports Diff_Correct
begin

text \<open>
  The reduction of a difference system: the sequential removal never raises, keeps the solutions,
  leaves no constraint that the others imply, and its final certificates pass \<open>verify_path\<close>.
\<close>

section \<open>Constraints chosen by index\<close>

definition solves_at :: "dbound list \<Rightarrow> nat set \<Rightarrow> (nat \<Rightarrow> int) \<Rightarrow> bool" where
  "solves_at cs J x = (\<forall>j \<in> J. satisfies x (cs ! j))"

definition implied_at :: "dbound list \<Rightarrow> nat set \<Rightarrow> dbound \<Rightarrow> bool" where
  "implied_at cs J c = ({x. solves_at cs J x} \<subseteq> {x. satisfies x c})"

lemma solves_chosen: "solves (map (\<lambda>j. cs ! j) js) x = solves_at cs (set js) x"
  by (auto simp: solves_def solves_at_def)

lemma solves_all: "solves_at cs {..<length cs} x = solves cs x"
  by (auto simp: solves_def solves_at_def all_set_conv_all_nth)

lemma solves_at_mono: "solves_at cs J x \<Longrightarrow> I \<subseteq> J \<Longrightarrow> solves_at cs I x"
  by (auto simp: solves_at_def)

lemma implied_at_mono: "implied_at cs I c \<Longrightarrow> I \<subseteq> J \<Longrightarrow> implied_at cs J c"
  by (auto simp: implied_at_def solves_at_def)

lemma solves_at_remove: "implied_at cs (J - {i}) (cs ! i) \<Longrightarrow> solves_at cs (J - {i}) x = solves_at cs J x"
  by (auto simp: implied_at_def solves_at_def)

lemma chain_chosen:
  "set p \<subseteq> {..<length js} \<Longrightarrow> set js \<subseteq> {..<length cs} \<Longrightarrow>
    chain (map (\<lambda>j. cs ! j) js) i p k d = chain cs i (map (\<lambda>e. js ! e) p) k d"
  by (induction p arbitrary: i d) (auto simp: subset_iff)

lemma validate_chosen:
  assumes "validate_bounds cs n = Inr u" "set js \<subseteq> {..<length cs}" "distinct js"
  shows "validate_bounds (map (\<lambda>j. cs ! j) js) n = Inr ()"
proof -
  have "length js \<le> length cs" using assms(2,3) by (metis card_lessThan card_mono distinct_card finite_lessThan)
  then show ?thesis using assms(1,2) by (auto simp: validate_bounds_def res_simps subset_iff)
qed

text \<open>What the closure of the chosen constraints says about a target: a path is recorded and verifies
  against the full list iff the chosen constraints imply the target.\<close>

lemma closure_decides:
  assumes v: "validate_bounds cs n = Inr u" and js: "set js \<subseteq> {..<length cs}" "distinct js"
    and c: "c \<in> set cs" and sat: "\<exists>x. solves_at cs (set js) x"
  obtains t where "closure (map (\<lambda>j. cs ! j) js) n = Inr t"
    "case dc_paths t ! db_left c ! db_right c of
       None \<Rightarrow> \<not> implied_at cs (set js) c
     | Some p \<Rightarrow> set p \<subseteq> {..<length js}
         \<and> verify_path cs c (map int (map (\<lambda>e. js ! e) p)) = implied_at cs (set js) c"
proof -
  let ?ds = "map (\<lambda>j. cs ! j) js" and ?l = "db_left c" and ?r = "db_right c"
  have dims: "within_dims cs (nat n)" using validate_dims v by blast
  obtain t where t: "closure ?ds n = Inr t"
    using validate_chosen [OF v js] by (cases "closure_table ?ds (nat n)") (auto simp: closure_def)
  obtain tb bad where T: "closure_table ?ds (nat n) = (tb, bad)" "within_dims ?ds (nat n)" "nat n \<le> 16"
    "dc_consistent t = (bad = None)" "dc_bounds t = dists tb" "dc_paths t = dpaths tb"
    using closure_parts [OF t] by metis
  have lr: "?l < nat n" "?r < nat n" using dims c by (auto simp: within_dims_def)
  have cons: "dc_consistent t" using closure_exact [OF t] sat by (auto simp: solves_chosen)
  have ex: "exact_bound ?ds ?l ?r (dists tb ! ?l ! ?r)" using closure_exact [OF t] cons lr T(5) by simp
  have "sound_table ?ds (nat n) {..<nat n} tb" using closure_table_result [OF T(2,1)] by blast
  then have sv: "sound_value ?ds {..<nat n} ?l ?r (entry tb ?l ?r)" using lr by (simp add: sound_table_def)
  show thesis
  proof (cases "dpaths tb ! ?l ! ?r")
    case None
    then have "dists tb ! ?l ! ?r = None" using sv by (auto elim: sound_valueE)
    then obtain x where "solves_at cs (set js) x" "db_bound c + 1 \<le> x ?l - x ?r"
      using ex unfolding exact_bound_def solves_chosen by auto
    then have "\<not> implied_at cs (set js) c" by (auto simp: implied_at_def satisfies_def)
    then show thesis using that [OF t] None T(6) by simp
  next
    case (Some p)
    obtain d where d: "dists tb ! ?l ! ?r = Some d" "chain ?ds ?l p ?r d"
      using sv Some by - (erule sound_valueE, simp, simp)
    have p: "set p \<subseteq> {..<length js}" using chain_indices [OF d(2)] by simp
    have "length p \<le> 64" using sound_length [OF sv [unfolded entry_def Some]] T(3) by simp
    then have ver: "verify_path cs c (map int (map (\<lambda>e. js ! e) p)) \<longleftrightarrow> d \<le> db_bound c"
      using verify_chain [of cs c "map (\<lambda>e. js ! e) p" d] chain_chosen [OF p js(1)] d(2) by simp
    have "implied_at cs (set js) c \<longleftrightarrow> d \<le> db_bound c"
    proof
      assume imp: "implied_at cs (set js) c"
      obtain x where "solves_at cs (set js) x" "x ?l - x ?r = d" using ex by (auto simp: exact_bound_def d(1) solves_chosen)
      with imp show "d \<le> db_bound c" by (auto simp: implied_at_def satisfies_def)
    next
      assume "d \<le> db_bound c"
      then show "implied_at cs (set js) c"
        using ex by (fastforce simp: exact_bound_def d(1) solves_chosen implied_at_def satisfies_def)
    qed
    then show thesis using that [OF t] Some T(6) p ver by simp
  qed
qed

section \<open>The sequential removal\<close>

lemma drop_implied_result:
  assumes v: "validate_bounds cs n = Inr u" and sat: "\<exists>x. solves cs x"
  shows "set is \<subseteq> {..<length cs} \<Longrightarrow> set active \<subseteq> {..<length cs} \<Longrightarrow> distinct active \<Longrightarrow>
    \<exists>out. drop_implied cs n is active = Inr out \<and> set out \<subseteq> set active \<and> distinct out
      \<and> solves_at cs (set out) = solves_at cs (set active)
      \<and> (\<forall>i \<in> set is \<inter> set out. \<not> implied_at cs (set out - {i}) (cs ! i))"
proof (induction "is" arbitrary: active)
  case (Cons i "is")
  let ?others = "filter (\<lambda>j. j \<noteq> i) active"
  have others: "set ?others = set active - {i}" by auto
  have sub: "set ?others \<subseteq> {..<length cs}" "distinct ?others" using Cons.prems by auto
  have "\<exists>x. solves_at cs (set ?others) x" using sat solves_all sub(1) solves_at_mono by metis
  moreover have "cs ! i \<in> set cs" using Cons.prems(1) by simp
  ultimately obtain t where t: "closure (map (\<lambda>j. cs ! j) ?others) n = Inr t"
    "case dc_paths t ! db_left (cs ! i) ! db_right (cs ! i) of
       None \<Rightarrow> \<not> implied_at cs (set ?others) (cs ! i)
     | Some p \<Rightarrow> set p \<subseteq> {..<length ?others}
         \<and> verify_path cs (cs ! i) (map int (map (\<lambda>e. ?others ! e) p)) = implied_at cs (set ?others) (cs ! i)"
    using closure_decides [OF v sub] by blast
  have step: "drop_implied cs n (i # is) active
      = drop_implied cs n is (if implied_at cs (set ?others) (cs ! i) then ?others else active)"
    using t by (cases "dc_paths t ! db_left (cs ! i) ! db_right (cs ! i)") (simp_all add: Let_def comp_def)
  show ?case
  proof (cases "implied_at cs (set ?others) (cs ! i)")
    case True
    obtain out where out: "drop_implied cs n is ?others = Inr out" "set out \<subseteq> set ?others" "distinct out"
      "solves_at cs (set out) = solves_at cs (set ?others)"
      "\<forall>i \<in> set is \<inter> set out. \<not> implied_at cs (set out - {i}) (cs ! i)"
      using Cons.IH [OF _ sub] Cons.prems(1) by auto
    have "solves_at cs (set ?others) = solves_at cs (set active)"
      using True solves_at_remove [of cs "set active" i] unfolding others by (simp add: fun_eq_iff)
    then show ?thesis using out step True others by auto
  next
    case False
    obtain out where out: "drop_implied cs n is active = Inr out" "set out \<subseteq> set active" "distinct out"
      "solves_at cs (set out) = solves_at cs (set active)"
      "\<forall>i \<in> set is \<inter> set out. \<not> implied_at cs (set out - {i}) (cs ! i)"
      using Cons.IH [OF _ Cons.prems(2,3)] Cons.prems(1) by auto
    have "\<not> implied_at cs (set out - {i}) (cs ! i)"
      using False implied_at_mono [of cs "set out - {i}" "cs ! i" "set ?others"] out(2) others by blast
    then show ?thesis using out step False by auto
  qed
qed auto

lemma certify_result:
  assumes "\<And>i. i \<in> set is \<Longrightarrow> i \<notin> set active \<Longrightarrow> \<exists>p. dc_paths final ! db_left (cs ! i) ! db_right (cs ! i) = Some p
      \<and> set p \<subseteq> {..<length active} \<and> verify_path cs (cs ! i) (map int (map (\<lambda>e. active ! e) p))"
  shows "\<exists>new. certify cs active final is certs = Inr (certs @ new)
    \<and> map fst new = filter (\<lambda>i. i \<notin> set active) is
    \<and> (\<forall>(i, path) \<in> set new. set path \<subseteq> set active \<and> verify_path cs (cs ! i) (map int path))"
  using assms
proof (induction "is" arbitrary: certs)
  case (Cons i "is")
  show ?case
  proof (cases "i \<in> set active")
    case True
    then show ?thesis using Cons.IH [of certs] Cons.prems by simp
  next
    case False
    obtain p where p: "dc_paths final ! db_left (cs ! i) ! db_right (cs ! i) = Some p"
      "set p \<subseteq> {..<length active}" "verify_path cs (cs ! i) (map int (map (\<lambda>e. active ! e) p))"
      using Cons.prems False by (metis list.set_intros(1))
    have "\<exists>new. certify cs active final is (certs @ [(i, map (\<lambda>e. active ! e) p)]) = Inr ((certs @ [(i, map (\<lambda>e. active ! e) p)]) @ new)
      \<and> map fst new = filter (\<lambda>i. i \<notin> set active) is
      \<and> (\<forall>(i, path) \<in> set new. set path \<subseteq> set active \<and> verify_path cs (cs ! i) (map int path))"
      using Cons.prems by (intro Cons.IH) auto
    then obtain new where new: "certify cs active final is (certs @ [(i, map (\<lambda>e. active ! e) p)]) = Inr ((certs @ [(i, map (\<lambda>e. active ! e) p)]) @ new)"
      "map fst new = filter (\<lambda>i. i \<notin> set active) is"
      "\<forall>(i, path) \<in> set new. set path \<subseteq> set active \<and> verify_path cs (cs ! i) (map int path)" by blast
    have "(\<lambda>e. active ! e) ` set p \<subseteq> set active" using p(2) by auto
    then show ?thesis using p new False by (intro exI [of _ "(i, map (\<lambda>e. active ! e) p) # new"]) (simp add: Let_def)
  qed
qed simp

text \<open>C21: \<open>reduce_bounds\<close> never raises on a valid system (its final assertion cannot fail). A consistent
  system keeps exactly its solutions, no kept constraint is implied by the other kept ones, and
  every removed constraint has a certificate over kept constraints only that \<open>verify_path\<close> accepts;
  an inconsistent one is kept whole and comes with a negative cycle.\<close>

theorem reduce_bounds_correct:
  assumes "validate_bounds cs n = Inr ()"
  shows "\<exists>r. reduce_bounds cs n = Inr r \<and> dr_consistent r = (\<exists>x. solves cs x) \<and>
    (if dr_consistent r then
       solves_at cs (set (dr_kept r)) = solves cs
       \<and> (\<forall>i \<in> set (dr_kept r). \<not> implied_at cs (set (dr_kept r) - {i}) (cs ! i))
       \<and> map fst (dr_certificates r) = filter (\<lambda>i. i \<notin> set (dr_kept r)) [0..<length cs]
       \<and> (\<forall>(i, path) \<in> set (dr_certificates r). set path \<subseteq> set (dr_kept r) \<and> verify_path cs (cs ! i) (map int path))
     else dr_kept r = [0..<length cs] \<and> negative_cycle cs (dr_cycle r))"
proof -
  let ?all = "[0..<length cs]"
  obtain original where o: "closure cs n = Inr original"
    using assms by (cases "closure_table cs (nat n)") (auto simp: closure_def)
  note oex = closure_exact [OF o]
  show ?thesis
  proof (cases "dc_consistent original")
    case False
    then show ?thesis using oex by (auto simp: reduce_bounds_def o Let_def)
  next
    case True
    then have sat: "\<exists>x. solves cs x" using oex by simp
    obtain act where act: "drop_implied cs n (rev ?all) ?all = Inr act" "set act \<subseteq> {..<length cs}" "distinct act"
      "solves_at cs (set act) = solves cs" "\<forall>i \<in> set act. \<not> implied_at cs (set act - {i}) (cs ! i)"
    proof -
      have "set (rev ?all) \<subseteq> {..<length cs}" "set ?all \<subseteq> {..<length cs}" "distinct ?all" by auto
      from drop_implied_result [OF assms sat this] obtain out where out: "drop_implied cs n (rev ?all) ?all = Inr out"
        "set out \<subseteq> set ?all" "distinct out" "solves_at cs (set out) = solves_at cs (set ?all)"
        "\<forall>i \<in> set (rev ?all) \<inter> set out. \<not> implied_at cs (set out - {i}) (cs ! i)" by blast
      have all: "set ?all = {..<length cs}" "set (rev ?all) = {..<length cs}" by auto
      have "solves_at cs (set ?all) = solves cs" unfolding all by (rule ext) (rule solves_all)
      moreover have "\<not> implied_at cs (set out - {i}) (cs ! i)" if "i \<in> set out" for i
        using that out(2,5) unfolding all by blast
      ultimately show thesis using that [OF out(1) _ out(3)] out(2,4) unfolding all by simp
    qed
    have sat': "\<exists>x. solves_at cs (set act) x" using sat act(4) by simp
    have imp: "implied_at cs (set act) (cs ! i)" if "i < length cs" for i
      using that act(4) by (auto simp: implied_at_def solves_def)
    obtain fin where f: "closure (map (\<lambda>j. cs ! j) act) n = Inr fin"
      using validate_chosen [OF assms act(2,3)] by (cases "closure_table (map (\<lambda>j. cs ! j) act) (nat n)") (auto simp: closure_def)
    have paths: "\<exists>p. dc_paths fin ! db_left (cs ! i) ! db_right (cs ! i) = Some p
        \<and> set p \<subseteq> {..<length act} \<and> verify_path cs (cs ! i) (map int (map (\<lambda>e. act ! e) p))"
      if "i \<in> set ?all" for i
    proof -
      have i: "cs ! i \<in> set cs" "i < length cs" using that by auto
      obtain t where "closure (map (\<lambda>j. cs ! j) act) n = Inr t"
        "case dc_paths t ! db_left (cs ! i) ! db_right (cs ! i) of
           None \<Rightarrow> \<not> implied_at cs (set act) (cs ! i)
         | Some p \<Rightarrow> set p \<subseteq> {..<length act}
             \<and> verify_path cs (cs ! i) (map int (map (\<lambda>e. act ! e) p)) = implied_at cs (set act) (cs ! i)"
        using closure_decides [OF assms act(2,3) i(1) sat'] .
      then show ?thesis using f imp [OF i(2)] by (auto split: option.splits)
    qed
    obtain certs where "certify cs act fin ?all [] = Inr certs" "map fst certs = filter (\<lambda>i. i \<notin> set act) ?all"
      "\<forall>(i, path) \<in> set certs. set path \<subseteq> set act \<and> verify_path cs (cs ! i) (map int path)"
      using certify_result [of ?all act fin cs "[]"] paths by auto
    then show ?thesis using True sat act by (simp add: reduce_bounds_def o f Let_def)
  qed
qed

text \<open>A constraint implied by two others is removed.\<close>

theorem reduce_bounds_correct_witness:
  "solves_at [\<lparr>db_left = 0, db_right = 1, db_bound = 2\<rparr>, \<lparr>db_left = 1, db_right = 2, db_bound = 3\<rparr>, \<lparr>db_left = 0, db_right = 2, db_bound = 7\<rparr>] {0, 1}
     = solves [\<lparr>db_left = 0, db_right = 1, db_bound = 2\<rparr>, \<lparr>db_left = 1, db_right = 2, db_bound = 3\<rparr>, \<lparr>db_left = 0, db_right = 2, db_bound = 7\<rparr>]"
proof -
  let ?cs = "[\<lparr>db_left = 0, db_right = 1, db_bound = 2\<rparr>, \<lparr>db_left = 1, db_right = 2, db_bound = 3\<rparr>, \<lparr>db_left = 0, db_right = 2, db_bound = 7\<rparr>]"
  have v: "validate_bounds ?cs 3 = Inr ()" by code_simp
  have e: "reduce_bounds ?cs 3 = Inr \<lparr>dr_consistent = True, dr_kept = [0, 1], dr_certificates = [(2, [0, 1])],
    dr_reduced = True, dr_cycle = None\<rparr>" by code_simp
  show ?thesis using reduce_bounds_correct [OF v] unfolding e by simp
qed

end
