(* ===== verification/Diff_Lean.thy ===== *)
theory Diff_Lean
  imports Diff_Reduce Linear_Infer
begin

text \<open>
  The text \<open>implication_obligation\<close> of \<open>jevops/difference_bounds.py\<close> emits for Lean: a lemma whose
  hypotheses are the constraints on a verified path.
\<close>

definition dbound_lean :: "dbound \<Rightarrow> utext" where
  "dbound_lean c = u ''x'' @ u (nat_text (db_left c)) @ u '' - x'' @ u (nat_text (db_right c)) @ u '' '' @ [8804] @ u '' (''
     @ u (int_text (db_bound c)) @ u '')''"

definition path_dimension :: "dbound list \<Rightarrow> dbound \<Rightarrow> int list \<Rightarrow> nat" where
  "path_dimension cs t path = Suc (Max (set ([db_left t, db_right t] @ concat (map (\<lambda>i. [db_left (cs ! nat i), db_right (cs ! nat i)]) path))))"

definition bound_obligation :: "dbound list \<Rightarrow> dbound \<Rightarrow> int list \<Rightarrow> utext \<Rightarrow> exc + utext" where
  "bound_obligation cs t path name =
     (if \<not> is_lemma_name name \<or> \<not> verify_path cs t path then Inl (ValueErr ''invalid difference certificate/name'')
      else if 64 < length cs then Inl (ValueErr ''difference certificate outside budget'')
      else
        (let variables = join_text (u '' '') (map (\<lambda>i. u ''x'' @ u (nat_text i)) [0..<path_dimension cs t path]);
             hypotheses = join_text (u '' '') (map (\<lambda>i. u ''(h'' @ u (int_text i) @ u '' : '' @ dbound_lean (cs ! nat i) @ u '')'')
               (sort (remdups path)))
         in Inr (u ''theorem '' @ name @ u '' ('' @ variables @ u '' : Int) '' @ hypotheses @ u '' : '' @ dbound_lean t
           @ u '' := by'' @ [10] @ u ''  omega'' @ [10])))"

end
