(* ===== verification/TM_Tape.thy ===== *)
theory TM_Tape
  imports Py_Reading
begin

text \<open>
  The bounded tape of \<open>jevops/tape.py\<close>: at most \<open>tape_n\<close> cells and a head. A cell is a
  dictionary. Cells are values here; the program's own callers write a tape back to the memory
  after they change a cell in place. Stored heads are natural numbers, as \<open>to_dict\<close> writes them,
  and energies are finite: \<open>energy_of\<close> reports a non-finite one as a \<open>ValueError\<close>.
\<close>

definition tape_n :: nat where "tape_n = 64"
definition window_width :: nat where "window_width = 7"

record tape =
  tape_cells :: "row list"
  tape_head :: nat

section \<open>Cells\<close>

text \<open>\<open>a == b\<close> on values: numbers by value, dictionaries whatever the order of their items.\<close>

fun number_of :: "pyval \<Rightarrow> pyfloat option" where
  "number_of (PBool b) = Some (Finite (if b then 1 else 0))"
| "number_of (PInt i) = Some (Finite (of_int i))"
| "number_of (PFloat f) = Some f"
| "number_of _ = None"

function py_eq :: "pyval \<Rightarrow> pyval \<Rightarrow> bool" where
  "py_eq v w = (case (v, w) of
       (PList xs, PList ys) \<Rightarrow> list_all2 py_eq xs ys
     | (PDict d, PDict e) \<Rightarrow> length d = length e
         \<and> (\<forall>kv \<in> set d. case map_of e (fst kv) of None \<Rightarrow> False | Some x \<Rightarrow> py_eq (snd kv) x)
     | _ \<Rightarrow> (case (number_of v, number_of w) of (Some f, Some g) \<Rightarrow> f = g \<and> f \<noteq> NaN | _ \<Rightarrow> v = w))"
  by pat_completeness auto
termination
  by (relation "measure (size \<circ> fst)")
    (auto simp: size_item_less less_Suc_eq_le size_list_estimation')

declare py_eq.simps [simp del]

definition same_cell :: "row \<Rightarrow> row \<Rightarrow> bool" where
  "same_cell c e = py_eq (PDict c) (PDict e)"

text \<open>The position of the first cell equal to a given one.\<close>

primrec cell_index :: "row list \<Rightarrow> row \<Rightarrow> nat" where
  "cell_index [] c = 0"
| "cell_index (e # cs) c = (if same_cell e c then 0 else Suc (cell_index cs c))"

definition update_row :: "row \<Rightarrow> row \<Rightarrow> row" where
  "update_row d extra = fold (\<lambda>(k, v) e. dict_set k v e) extra d"

definition tape_cell :: "string \<Rightarrow> pyval \<Rightarrow> rat \<Rightarrow> string \<Rightarrow> string \<Rightarrow> int \<Rightarrow> pyval \<Rightarrow> row \<Rightarrow> row" where
  "tape_cell kind pl energy ptr parent toks ok extra = update_row
     [(''kind'', PStr kind), (''payload'', pl), (''energy'', PFloat (Finite energy)), (''ptr'', PStr ptr),
      (''parent_frame'', PStr parent), (''tokens'', PInt toks), (''theorem_ok'', ok)] extra"

text \<open>\<open>str(cell.get("symbol") or cell.get("kind") or w)\<close>.\<close>

definition symbol_or :: "pylib \<Rightarrow> string \<Rightarrow> row \<Rightarrow> string" where
  "symbol_or L w c = (if truthy (row_get c ''symbol'') then py_str L (row_get c ''symbol'')
     else if truthy (row_get c ''kind'') then py_str L (row_get c ''kind'') else w)"

definition energy_of :: "pylib \<Rightarrow> row \<Rightarrow> exc + rat" where
  "energy_of L c = (let v = row_get c ''energy'' in
     if \<not> truthy v then Inr 0
     else rbind (py_float L v) (\<lambda>f. case f of Finite r \<Rightarrow> Inr r | _ \<Rightarrow> Inl (ValueErr ''non-finite energy'')))"

definition blank :: string where "blank = ''_''"

definition or_blank :: "string \<Rightarrow> string" where
  "or_blank s = (if s = [] then blank else s)"

section \<open>Reading and writing\<close>

definition trim :: "tape \<Rightarrow> tape" where
  "trim t = (let over = length (tape_cells t) - tape_n; cs = drop over (tape_cells t); h = tape_head t - over in
     \<lparr>tape_cells = cs, tape_head = (if cs = [] then h else min h (length cs - 1))\<rparr>)"

definition write_cell :: "row \<Rightarrow> tape \<Rightarrow> tape" where
  "write_cell c t = trim \<lparr>tape_cells = tape_cells t @ [c], tape_head = length (tape_cells t)\<rparr>"

definition blank_cell :: "string \<Rightarrow> row" where
  "blank_cell sy = tape_cell ''blank'' PNone (1 / 2) [] [] 0 PNone [(''symbol'', PStr sy)]"

definition window_lo :: "nat \<Rightarrow> tape \<Rightarrow> nat" where
  "window_lo w t = tape_head t - w"

definition window_hi :: "nat \<Rightarrow> tape \<Rightarrow> nat" where
  "window_hi w t = min (length (tape_cells t)) (tape_head t + w + 1)"

definition window :: "nat \<Rightarrow> tape \<Rightarrow> row list" where
  "window w t = (if tape_cells t = [] then []
     else take (window_hi w t - window_lo w t) (drop (window_lo w t) (tape_cells t)))"

definition read_cell_at :: "tape \<Rightarrow> row option" where
  "read_cell_at t = (if tape_cells t = [] then None else Some (tape_cells t ! tape_head t))"

definition read_symbol :: "pylib \<Rightarrow> tape \<Rightarrow> string" where
  "read_symbol L t = (case read_cell_at t of None \<Rightarrow> blank | Some c \<Rightarrow> symbol_or L blank c)"

definition poke :: "string \<Rightarrow> rat option \<Rightarrow> tape \<Rightarrow> tape" where
  "poke sy en t =
     (if tape_cells t = [] then write_cell (blank_cell (or_blank sy)) t
      else (let c = dict_set ''symbol'' (PStr (or_blank sy)) (tape_cells t ! tape_head t);
                c' = (case en of None \<Rightarrow> c | Some r \<Rightarrow> dict_set ''energy'' (PFloat (Finite r)) c)
            in t\<lparr>tape_cells := (tape_cells t)[tape_head t := c']\<rparr>))"

definition move_left :: "tape \<Rightarrow> tape" where
  "move_left t = (if tape_cells t = [] then t else t\<lparr>tape_head := tape_head t - 1\<rparr>)"

definition move_right :: "bool \<Rightarrow> tape \<Rightarrow> tape" where
  "move_right ext t =
     (if tape_cells t = [] then write_cell (blank_cell blank) t
      else if length (tape_cells t) \<le> tape_head t + 1 then
        (if ext \<and> length (tape_cells t) < tape_n then write_cell (blank_cell blank) t
         else t\<lparr>tape_head := length (tape_cells t) - 1\<rparr>)
      else t\<lparr>tape_head := tape_head t + 1\<rparr>)"

definition seek :: "int \<Rightarrow> tape \<Rightarrow> tape" where
  "seek i t = (if tape_cells t = [] then t
     else t\<lparr>tape_head := nat (max 0 (min i (int (length (tape_cells t)) - 1)))\<rparr>)"

definition cells_for_frame :: "pylib \<Rightarrow> string \<Rightarrow> tape \<Rightarrow> row list" where
  "cells_for_frame L fid t = filter (\<lambda>c. row_str L c ''parent_frame'' = fid) (tape_cells t)"

text \<open>A child's evaluation is written onto the parent tape.\<close>

definition head_chars :: "pylib \<Rightarrow> pyval \<Rightarrow> nat \<Rightarrow> string" where
  "head_chars L v n = (if v = PNone then [] else take n (py_str L v))"

definition or_else :: "pyval \<Rightarrow> pyval \<Rightarrow> pyval" where
  "or_else v w = (if truthy v then v else w)"

definition return_energy :: "row \<Rightarrow> rat \<Rightarrow> rat" where
  "return_energy p e =
     (let e1 = (if row_get p ''theorem_ok'' = PBool True then max e (7 / 10) else e)
      in if row_get p ''theorem_ok'' = PBool False then min e1 (3 / 10) else e1)"

definition splice_return :: "pylib \<Rightarrow> row \<Rightarrow> string \<Rightarrow> string \<Rightarrow> tape \<Rightarrow> exc + row \<times> tape" where
  "splice_return L p ptr parent t =
     rbind (if truthy (row_get p ''energy'') then energy_of L p else Inr (1 / 2)) (\<lambda>e.
     rbind (row_int_or p ''tokens'' 0) (\<lambda>n.
     (let c = tape_cell ''return''
            (PDict [(''observations'', or_else (row_get p ''observations'') (PDict [])),
                    (''tactics_head'', PStr (head_chars L (or_else (row_get p ''tactics'') (PStr [])) 240)),
                    (''n_steps'', row_get p ''n_steps''), (''ok'', get_default p ''ok'' (PBool True))])
            (return_energy p e) ptr parent n (row_get p ''theorem_ok'')
            [(''injected'', PBool True), (''node'', row_get p ''node'')]
      in Inr (c, write_cell c t))))"

section \<open>Persistence\<close>

text \<open>\<open>to_dict\<close> and \<open>from_memory\<close>; no entry for the tape is \<open>None\<close>.\<close>

definition tape_to_memory :: "tape \<Rightarrow> row list \<times> nat" where
  "tape_to_memory t = (last_n tape_n (tape_cells t), tape_head t)"

definition new_tape :: "row list \<Rightarrow> nat \<Rightarrow> tape" where
  "new_tape cs h = trim \<lparr>tape_cells = cs, tape_head = (if cs = [] then 0 else h)\<rparr>"

definition tape_from_memory :: "(row list \<times> nat) option \<Rightarrow> tape" where
  "tape_from_memory m = (case m of None \<Rightarrow> new_tape [] 0
     | Some (cs, h) \<Rightarrow> new_tape cs (if h \<noteq> 0 then h else length cs - 1))"

definition restore_tape :: "row list \<Rightarrow> nat \<Rightarrow> tape" where
  "restore_tape cs h = trim \<lparr>tape_cells = cs, tape_head = h\<rparr>"

section \<open>Editing\<close>

definition pop_cell :: "tape \<Rightarrow> row option \<times> tape" where
  "pop_cell t = (case read_cell_at t of
       None \<Rightarrow> (None, t)
     | Some c \<Rightarrow> (let cs = remove_at (tape_head t) (tape_cells t) in
         (Some c, \<lparr>tape_cells = cs, tape_head = (if cs = [] then 0 else min (tape_head t) (length cs - 1))\<rparr>)))"

definition splice_row :: "row \<Rightarrow> tape \<Rightarrow> tape" where
  "splice_row c t =
     (if tape_cells t = [] then \<lparr>tape_cells = [c], tape_head = 0\<rparr>
      else trim (t\<lparr>tape_cells := take (tape_head t) (tape_cells t) @ c # drop (tape_head t) (tape_cells t)\<rparr>))"

definition splice :: "row \<Rightarrow> pyval \<Rightarrow> string \<Rightarrow> tape \<Rightarrow> tape" where
  "splice c pl kind t =
     splice_row (if c \<noteq> [] then c else tape_cell kind pl (1 / 2) [] [] 0 PNone [(''symbol'', PStr kind)]) t"

definition in_window :: "nat \<Rightarrow> tape \<Rightarrow> nat \<Rightarrow> bool" where
  "in_window w t i \<longleftrightarrow> window_lo w t \<le> i \<and> i < window_hi w t \<and> i \<noteq> tape_head t"

definition mask_window :: "nat \<Rightarrow> tape \<Rightarrow> nat \<times> tape" where
  "mask_window w t =
     (length (filter (in_window w t) [0..<length (tape_cells t)]),
      t\<lparr>tape_cells := map (\<lambda>(i, c). if in_window w t i then dict_set ''masked'' (PBool True) c else c)
        (enumerate 0 (tape_cells t))\<rparr>)"

definition masked :: "row \<Rightarrow> bool" where
  "masked c = truthy (row_get c ''masked'')"

definition unmask_all :: "tape \<Rightarrow> nat \<times> tape" where
  "unmask_all t = (length (filter masked (tape_cells t)),
     t\<lparr>tape_cells := map (\<lambda>c. if masked c then dict_set ''masked'' (PBool False) c else c) (tape_cells t)\<rparr>)"

definition window_visible :: "nat \<Rightarrow> tape \<Rightarrow> row list" where
  "window_visible w t = filter (\<lambda>c. \<not> masked c) (window w t)"

definition swap :: "tape \<Rightarrow> bool \<times> tape" where
  "swap t = (let h = tape_head t; cs = tape_cells t in
     if h = 0 \<or> cs = [] then (False, t)
     else (True, t\<lparr>tape_cells := cs[h := cs ! (h - 1), h - 1 := cs ! h]\<rparr>))"

definition dup :: "tape \<Rightarrow> tape" where
  "dup t = (case read_cell_at t of None \<Rightarrow> t | Some c \<Rightarrow> if c = [] then t else splice_row c t)"

definition crop :: "nat \<Rightarrow> tape \<Rightarrow> nat \<times> tape" where
  "crop w t = (case read_cell_at t of None \<Rightarrow> (0, t)
     | Some c \<Rightarrow> (let win = window w t; i = cell_index win c in
         (length win, \<lparr>tape_cells = win, tape_head = (if i < length win then i else min (tape_head t) (length win - 1))\<rparr>)))"

text \<open>\<open>keep_k\<close>: a stable sort by falling energy, the first \<open>k\<close>, back in the order of the tape.\<close>

definition keep_k :: "pylib \<Rightarrow> nat \<Rightarrow> tape \<Rightarrow> exc + tape" where
  "keep_k L k0 t = (let k = max 1 k0; cs = tape_cells t in
     if length cs \<le> k then Inr t
     else rbind (rmap (energy_of L) cs) (\<lambda>es.
       (let ranked = map snd (take k (sort_key (\<lambda>(e, c). - e) (zip es cs)));
            kept = sort_key (cell_index cs) ranked
        in Inr \<lparr>tape_cells = kept, tape_head = min (tape_head t) (length kept - 1)\<rparr>)))"

definition drop_below :: "pylib \<Rightarrow> rat \<Rightarrow> tape \<Rightarrow> exc + nat \<times> tape" where
  "drop_below L x t = rbind (rmap (energy_of L) (tape_cells t)) (\<lambda>es.
     (let kept = map snd (filter (\<lambda>(e, c). x \<le> e) (zip es (tape_cells t))) in
      Inr (length (tape_cells t) - length kept,
           \<lparr>tape_cells = kept, tape_head = min (tape_head t) (length kept - 1)\<rparr>)))"

definition blank_symbol :: "pylib \<Rightarrow> row \<Rightarrow> bool" where
  "blank_symbol L c \<longleftrightarrow> symbol_or L [] c \<in> {''_'', ''blank''}"

text \<open>\<open>compress_blanks\<close>: a blank cell right after a kept blank cell is dropped.\<close>

fun compressed :: "pylib \<Rightarrow> bool \<Rightarrow> row list \<Rightarrow> row list" where
  "compressed L after_blank [] = []"
| "compressed L after_blank (c # cs) =
     (if blank_symbol L c \<and> after_blank then compressed L after_blank cs
      else c # compressed L (blank_symbol L c) cs)"

definition compress_blanks :: "pylib \<Rightarrow> tape \<Rightarrow> nat \<times> tape" where
  "compress_blanks L t = (let cs = compressed L False (tape_cells t) in
     (length (tape_cells t) - length cs,
      \<lparr>tape_cells = cs, tape_head = (if cs = [] then tape_head t else min (tape_head t) (length cs - 1))\<rparr>))"

definition rotate_tape :: "int \<Rightarrow> tape \<Rightarrow> tape" where
  "rotate_tape n t = (let len = length (tape_cells t) in
     if len = 0 then t
     else (let k = nat (n mod int len) in
       \<lparr>tape_cells = drop k (tape_cells t) @ take k (tape_cells t),
        tape_head = nat ((int (tape_head t) - int k) mod int len)\<rparr>))"

definition clear_tape :: "tape \<Rightarrow> nat \<times> tape" where
  "clear_tape t = (length (tape_cells t), \<lparr>tape_cells = [], tape_head = 0\<rparr>)"

definition attention :: "pylib \<Rightarrow> nat \<Rightarrow> tape \<Rightarrow> exc + int list" where
  "attention L w t = rmap (\<lambda>c. let v = or_else (row_get c ''energy'') (PFloat (Finite 0)) in
     case py_float L v of
       Inl x \<Rightarrow> if x = OverflowErr then Inl x else Inr 0
     | Inr (Finite e) \<Rightarrow> py_int (PFloat (Finite (if e \<le> 2 then e * 1000 else e)))
     | Inr f \<Rightarrow> py_int (PFloat f)) (window_visible w t)"

section \<open>Fitting a size\<close>

text \<open>
  \<open>trim_bytes\<close>: while the JSON text is too long, the cheapest cell other than the head's goes; a
  lone cell has its text payload cut in half. \<open>json_len\<close> is the length of the JSON text of a list of
  cells, a function of the standard library.
\<close>

definition cheapest :: "pylib \<Rightarrow> row list \<Rightarrow> exc + row" where
  "cheapest L cs = rbind (rmap (energy_of L) cs) (\<lambda>es.
     case find (\<lambda>(e, c). \<forall>x \<in> set es. e \<le> x) (zip es cs) of None \<Rightarrow> Inl (ValueErr ''min() arg is an empty sequence'')
     | Some (e, c) \<Rightarrow> Inr c)"

definition payload_text :: "row \<Rightarrow> string" where
  "payload_text c = (case row_get c ''payload'' of PStr p \<Rightarrow> p | _ \<Rightarrow> [])"

function trim_bytes_loop :: "pylib \<Rightarrow> (row list \<Rightarrow> nat) \<Rightarrow> nat \<Rightarrow> nat \<Rightarrow> tape \<Rightarrow> exc + nat \<times> tape" where
  "trim_bytes_loop L json_len cap n t =
     (let cs = tape_cells t; others = remove_at (tape_head t) cs in
      if cs = [] \<or> json_len cs \<le> cap then Inr (n, t)
      else if others = [] then
        (case cs of
           [c] \<Rightarrow> (let p = payload_text c in
             if 32 < length p
             then trim_bytes_loop L json_len cap (Suc n)
               (t\<lparr>tape_cells := [dict_set ''payload'' (PStr (take (length p div 2) p)) c]\<rparr>)
             else Inr (n, t))
         | _ \<Rightarrow> Inr (n, t))
      else rbind (cheapest L others) (\<lambda>v.
        (let kept = remove_at (cell_index cs v) cs in
         if length cs \<le> length kept then Inl (ValueErr ''list.remove(x): x not in list'')
         else trim_bytes_loop L json_len cap (Suc n)
           \<lparr>tape_cells = kept, tape_head = (if kept = [] then tape_head t else min (tape_head t) (length kept - 1))\<rparr>)))"
  by pat_completeness auto
termination
  by (relation "measures [\<lambda>(L, json_len, cap, n, t). length (tape_cells t),
      \<lambda>(L, json_len, cap, n, t). sum_list (map (length \<circ> payload_text) (tape_cells t))]")
    (auto simp: payload_text_def row_get_def dict_simps eq_commute [of "[_]" "tape_cells _"])

declare trim_bytes_loop.simps [simp del]

definition trim_bytes :: "pylib \<Rightarrow> (row list \<Rightarrow> nat) \<Rightarrow> nat \<Rightarrow> tape \<Rightarrow> exc + nat \<times> tape" where
  "trim_bytes L json_len max_bytes t = trim_bytes_loop L json_len (max 64 max_bytes) 0 t"

text \<open>\<open>populate\<close>: the arguments of the top frame of the call stack are written onto the tape.\<close>

definition populate :: "pylib \<Rightarrow> row \<Rightarrow> string \<Rightarrow> string \<Rightarrow> row \<Rightarrow> string \<Rightarrow> tape \<Rightarrow> exc + tape" where
  "populate L frame tactics problem obs ptr t =
     rbind (row_dict frame ''locals'') (\<lambda>ls.
     (let ls1 = (if tactics \<noteq> [] then dict_set ''tactics'' (PStr tactics) ls else ls);
          ls2 = (if problem \<noteq> [] then dict_set ''problem'' (PStr problem) ls1 else ls1)
      in Inr (write_cell (tape_cell ''args''
           (PDict [(''locals'', PDict (take 12 ls2)),
                   (''observations_keys'', PList (map PStr (take 16 (sort (map fst obs)))))]) (1 / 2)
           (if ptr \<noteq> [] then ptr else row_str L frame ''ptr'') (row_str L frame ''frame_id'') 0 PNone
           [(''node'', row_get frame ''node'')]) t)))"

section \<open>The invariant\<close>

definition tape_ok :: "tape \<Rightarrow> bool" where
  "tape_ok t \<longleftrightarrow> length (tape_cells t) \<le> tape_n
     \<and> (if tape_cells t = [] then tape_head t = 0 else tape_head t < length (tape_cells t))"

text \<open>One call of an operation on a tape.\<close>

inductive tape_op :: "pylib \<Rightarrow> tape \<Rightarrow> tape \<Rightarrow> bool" for L where
  op_write: "tape_op L t (write_cell c t)"
| op_return: "splice_return L p ptr fid t = Inr (c, u) \<Longrightarrow> tape_op L t u"
| op_populate: "populate L fr ta pr obs ptr t = Inr u \<Longrightarrow> tape_op L t u"
| op_poke: "tape_op L t (poke sy en t)"
| op_left: "tape_op L t (move_left t)"
| op_right: "tape_op L t (move_right ext t)"
| op_seek: "tape_op L t (seek i t)"
| op_pop: "tape_op L t (snd (pop_cell t))"
| op_splice: "tape_op L t (splice c p k t)"
| op_mask: "tape_op L t (snd (mask_window w t))"
| op_unmask: "tape_op L t (snd (unmask_all t))"
| op_swap: "tape_op L t (snd (swap t))"
| op_dup: "tape_op L t (dup t)"
| op_crop: "tape_op L t (snd (crop w t))"
| op_keep: "keep_k L k t = Inr u \<Longrightarrow> tape_op L t u"
| op_trim_bytes: "trim_bytes L json_len m t = Inr (n, u) \<Longrightarrow> tape_op L t u"
| op_drop: "drop_below L x t = Inr (n, u) \<Longrightarrow> tape_op L t u"
| op_compress: "tape_op L t (snd (compress_blanks L t))"
| op_rotate: "tape_op L t (rotate_tape i t)"
| op_clear: "tape_op L t (snd (clear_tape t))"
| op_persist: "tape_op L t (tape_from_memory (Some (tape_to_memory t)))"

text \<open>What every operation does comes down to a list of cells with the head inside it.\<close>

lemma tape_okI:
  "length cs \<le> tape_n \<Longrightarrow> h < length cs \<Longrightarrow> tape_ok \<lparr>tape_cells = cs, tape_head = h\<rparr>"
  by (auto simp: tape_ok_def)

lemma clip_less [simp]: "xs \<noteq> [] \<Longrightarrow> min h (length xs - Suc 0) < length xs"
  by (cases xs) auto

lemma tape_ok_empty: "tape_ok \<lparr>tape_cells = [], tape_head = 0\<rparr>"
  by (simp add: tape_ok_def)

lemma tape_ok_cases:
  assumes "tape_ok t"
  obtains "tape_cells t = []" "tape_head t = 0"
  | "tape_cells t \<noteq> []" "tape_head t < length (tape_cells t)" "length (tape_cells t) \<le> tape_n"
  using assms by (auto simp: tape_ok_def split: if_splits)

lemma tape_ok_heads: "tape_ok t \<Longrightarrow> length cs = length (tape_cells t) \<Longrightarrow> tape_ok (t\<lparr>tape_cells := cs\<rparr>)"
  by (auto simp: tape_ok_def split: if_splits)

lemma tape_ok_clip:
  assumes "length cs \<le> tape_n"
  shows "tape_ok \<lparr>tape_cells = cs, tape_head = (if cs = [] then 0 else min h (length cs - 1))\<rparr>"
  using assms by (cases cs) (auto simp: tape_ok_def)

lemma tape_ok_trim: "(tape_cells t = [] \<Longrightarrow> tape_head t = 0) \<Longrightarrow> tape_ok (trim t)"
  by (auto simp: trim_def Let_def tape_ok_def tape_n_def)

lemma trim_id: "tape_ok t \<Longrightarrow> trim t = t"
  by (auto simp: trim_def Let_def tape_ok_def split: if_splits)

lemma tape_ok_write: "tape_ok (write_cell c t)"
  by (auto simp: write_cell_def intro!: tape_ok_trim)

lemma length_cells: "tape_ok t \<Longrightarrow> length (tape_cells t) \<le> tape_n"
  by (simp add: tape_ok_def)

lemma tape_ok_poke: "tape_ok t \<Longrightarrow> tape_ok (poke sy en t)"
  by (simp add: poke_def tape_ok_write Let_def tape_ok_heads)

lemma tape_ok_left: "tape_ok t \<Longrightarrow> tape_ok (move_left t)"
  by (auto simp: move_left_def tape_ok_def)

lemma tape_ok_right: "tape_ok t \<Longrightarrow> tape_ok (move_right ext t)"
  unfolding move_right_def by (auto simp: tape_ok_write) (auto simp: tape_ok_def)

lemma tape_ok_seek: "tape_ok t \<Longrightarrow> tape_ok (seek i t)"
  by (auto simp: seek_def tape_ok_def nat_less_iff)

lemma tape_ok_pop: "tape_ok t \<Longrightarrow> tape_ok (snd (pop_cell t))"
proof (erule tape_ok_cases)
  assume t: "tape_cells t \<noteq> []" "tape_head t < length (tape_cells t)" "length (tape_cells t) \<le> tape_n"
  then have "length (remove_at (tape_head t) (tape_cells t)) \<le> tape_n" by (simp add: length_remove_at)
  from tape_ok_clip [OF this, of "tape_head t"] t(1) show ?thesis
    by (simp add: pop_cell_def read_cell_at_def Let_def)
qed (simp add: pop_cell_def read_cell_at_def tape_ok_def)

lemma tape_ok_splice_row: "tape_ok t \<Longrightarrow> tape_ok (splice_row c t)"
  by (auto simp: splice_row_def intro: tape_ok_trim) (simp add: tape_ok_def tape_n_def)

lemma tape_ok_crop: "tape_ok t \<Longrightarrow> tape_ok (snd (crop w t))"
proof (erule tape_ok_cases)
  assume t: "tape_cells t \<noteq> []" "tape_head t < length (tape_cells t)" "length (tape_cells t) \<le> tape_n"
  then have "0 < length (window w t)" "length (window w t) \<le> tape_n"
    by (auto simp: window_def window_lo_def window_hi_def)
  with t show ?thesis by (auto simp: crop_def read_cell_at_def Let_def intro!: tape_okI)
qed (simp add: crop_def read_cell_at_def tape_ok_def)

lemma tape_ok_keep: "tape_ok t \<Longrightarrow> keep_k L k t = Inr u \<Longrightarrow> tape_ok u"
  by (auto simp: keep_k_def Let_def rbind_Inr_iff rmap_Inr_iff length_cells dest!: list_all2_lengthD
      intro!: tape_okI split: if_splits) (auto simp: tape_ok_def)

lemma tape_ok_drop: "tape_ok t \<Longrightarrow> drop_below L x t = Inr (n, u) \<Longrightarrow> tape_ok u"
proof -
  assume ok: "tape_ok t" and d: "drop_below L x t = Inr (n, u)"
  obtain es where es: "u = \<lparr>tape_cells = map snd (filter (\<lambda>(e, c). x \<le> e) (zip es (tape_cells t))),
      tape_head = min (tape_head t) (length (filter (\<lambda>(e, c). x \<le> e) (zip es (tape_cells t))) - 1)\<rparr>"
    using d by (auto simp: drop_below_def Let_def rbind_Inr_iff)
  have "length (filter (\<lambda>(e, c). x \<le> e) (zip es (tape_cells t))) \<le> length (tape_cells t)"
    using length_filter_le [of _ "zip es (tape_cells t)"] by (rule order_trans) simp
  with length_cells [OF ok] show ?thesis unfolding es by (auto simp: tape_ok_def)
qed

lemma length_compressed: "length (compressed L b cs) \<le> length cs"
  by (induction L b cs rule: compressed.induct) (auto simp: le_SucI)

lemma compressed_Nil [simp]: "compressed L False cs = [] \<longleftrightarrow> cs = []"
  by (cases cs) auto

lemma tape_ok_compress: "tape_ok t \<Longrightarrow> tape_ok (snd (compress_blanks L t))"
  using length_compressed [of L False "tape_cells t"]
  by (auto simp: compress_blanks_def Let_def tape_ok_def)

lemma tape_ok_rotate: "tape_ok t \<Longrightarrow> tape_ok (rotate_tape i t)"
proof (cases "tape_cells t = []")
  case False
  assume ok: "tape_ok t"
  let ?n = "int (length (tape_cells t))"
  have n: "0 < ?n" using False by simp
  have "nat (i mod ?n) \<le> length (tape_cells t)" using pos_mod_bound [OF n, of i] by simp
  moreover have "nat ((int (tape_head t) - int (nat (i mod ?n))) mod ?n) < length (tape_cells t)"
    using pos_mod_bound [OF n, of "int (tape_head t) - int (nat (i mod ?n))"]
      pos_mod_sign [OF n, of "int (tape_head t) - int (nat (i mod ?n))"] by linarith
  ultimately show ?thesis using False length_cells [OF ok]
    by (auto simp: rotate_tape_def Let_def intro!: tape_okI)
qed (simp add: rotate_tape_def)

lemma remove_at_lengths: "length (remove_at i xs) \<le> length xs" "length xs \<le> Suc (length (remove_at i xs))"
  by (auto simp: remove_at_def)

lemma remove_at_Nil: "i < length xs \<Longrightarrow> remove_at i xs = [] \<Longrightarrow> \<exists>x. xs = [x]"
  using length_remove_at [of i xs] by (cases xs) auto

lemma tape_ok_trim_bytes: "trim_bytes_loop L json_len cap n t = Inr (k, u) \<Longrightarrow> tape_ok t \<Longrightarrow> tape_ok u"
proof (induction L json_len cap n t rule: trim_bytes_loop.induct)
  case (1 L json_len cap n t)
  let ?cs = "tape_cells t" and ?others = "remove_at (tape_head t) (tape_cells t)"
  note step = "1.prems"(1) [unfolded trim_bytes_loop.simps [of L json_len cap n t] Let_def]
  show ?case
  proof (cases "?cs = [] \<or> json_len ?cs \<le> cap")
    case True
    with step "1.prems"(2) show ?thesis by auto
  next
    case run: False
    show ?thesis
    proof (cases "?others = []")
      case True
      with run "1.prems"(2) obtain c where c: "?cs = [c]"
        using remove_at_Nil [of "tape_head t" ?cs] by (auto simp: tape_ok_def)
      show ?thesis
      proof (cases "32 < length (payload_text c)")
        case longer: True
        have "tape_ok (t\<lparr>tape_cells := [dict_set ''payload'' (PStr (take (length (payload_text c) div 2) (payload_text c))) c]\<rparr>)"
          using "1.prems"(2) c by (intro tape_ok_heads) auto
        with "1.IH"(1) [OF refl refl _ True c refl refl longer] run step True c longer show ?thesis by auto
      next
        case False
        with step run True c "1.prems"(2) show ?thesis by auto
      qed
    next
      case False
      with step run obtain v where v: "cheapest L ?others = Inr v"
        by (cases "cheapest L ?others") auto
      let ?kept = "remove_at (cell_index ?cs v) ?cs"
      have "tape_head t < length ?cs" using run "1.prems"(2) by (auto simp: tape_ok_def)
      then have "length ?others = length ?cs - 1" by (rule length_remove_at)
      with False have "1 < length ?cs" by (cases ?others) auto
      then have "0 < length ?kept"
        using remove_at_lengths(2) [where i = "cell_index ?cs v" and xs = ?cs] by linarith
      moreover have "length ?kept \<le> tape_n"
        using remove_at_lengths(1) [where i = "cell_index ?cs v" and xs = ?cs] length_cells [OF "1.prems"(2)] by linarith
      ultimately have kept: "?kept \<noteq> []" "length ?kept \<le> tape_n" by auto
      have less: "\<not> length ?cs \<le> length ?kept" using step run False v by auto
      let ?t = "\<lparr>tape_cells = ?kept, tape_head = (if ?kept = [] then tape_head t else min (tape_head t) (length ?kept - 1))\<rparr>"
      have "tape_ok ?t" using tape_ok_clip [OF kept(2), of "tape_head t"] kept(1) by simp
      moreover have "trim_bytes_loop L json_len cap (Suc n) ?t = Inr (k, u)"
        using step run False v less by auto
      ultimately show ?thesis using "1.IH"(2) [OF refl refl _ False v refl less] run by auto
    qed
  qed
qed

lemma tape_ok_restored: "tape_ok t \<Longrightarrow> tape_cells (tape_from_memory (Some (tape_to_memory t))) = tape_cells t
   \<and> tape_head (tape_from_memory (Some (tape_to_memory t))) =
       (if tape_head t = 0 then length (tape_cells t) - 1 else tape_head t)"
  by (auto simp: tape_from_memory_def tape_to_memory_def new_tape_def last_n_all trim_def Let_def tape_ok_def
      split: if_splits)

lemma tape_ok_persisted:
  assumes "tape_ok t"
  shows "tape_ok (tape_from_memory (Some (tape_to_memory t)))"
  using tape_ok_restored [OF assms] assms by (auto simp: tape_ok_def)

lemma tape_op_ok: "tape_op L t u \<Longrightarrow> tape_ok t \<Longrightarrow> tape_ok u"
proof (induction rule: tape_op.induct)
  case (op_return p ptr fid t c u)
  then show ?case by (auto simp: splice_return_def Let_def rbind_Inr_iff tape_ok_write)
next
  case (op_populate fr ta pr obs ptr t u)
  then show ?case by (auto simp: populate_def Let_def rbind_Inr_iff tape_ok_write)
next
  case (op_splice c p k t)
  then show ?case by (simp add: splice_def tape_ok_splice_row)
next
  case (op_mask w t)
  then show ?case by (simp add: mask_window_def tape_ok_heads)
next
  case (op_unmask t)
  then show ?case by (simp add: unmask_all_def tape_ok_heads)
next
  case (op_swap t)
  then show ?case by (simp add: swap_def Let_def tape_ok_heads)
next
  case (op_dup t)
  then show ?case by (auto simp: dup_def tape_ok_splice_row split: option.splits)
next
  case (op_trim_bytes size m t n u)
  then show ?case by (auto simp: trim_bytes_def intro: tape_ok_trim_bytes)
next
  case (op_clear t)
  then show ?case by (simp add: clear_tape_def tape_ok_empty)
qed (auto intro: tape_ok_write tape_ok_poke tape_ok_left tape_ok_right tape_ok_seek tape_ok_pop tape_ok_crop tape_ok_keep
    tape_ok_drop tape_ok_compress tape_ok_rotate tape_ok_persisted)

lemma tape_ops_ok: "(tape_op L)\<^sup>*\<^sup>* t u \<Longrightarrow> tape_ok t \<Longrightarrow> tape_ok u"
  by (induction rule: rtranclp_induct) (auto intro: tape_op_ok)

lemma tape_ok_from_memory: "tape_ok (tape_from_memory m)"
  by (auto simp: tape_from_memory_def new_tape_def intro!: tape_ok_trim split: option.splits prod.splits)

section \<open>Properties\<close>

lemma restore_same: "tape_ok t \<Longrightarrow> restore_tape (tape_cells t) (tape_head t) = t"
  by (cases t) (simp add: restore_tape_def trim_id)

lemma tape_eq_iff: "t = u \<longleftrightarrow> tape_cells t = tape_cells u \<and> tape_head t = tape_head u" for t u :: tape
  by (auto intro: tape.equality)

lemma persist_same:
  assumes "tape_ok t"
  shows "tape_from_memory (Some (tape_to_memory t)) = t \<longleftrightarrow> tape_head t \<noteq> 0 \<or> length (tape_cells t) \<le> 1"
  using tape_ok_restored [OF assms] assms by (auto simp: tape_ok_def tape_eq_iff split: if_splits)

text \<open>Splicing a cell in and popping it gives the tape back while there is room; on a full tape the
  first cell falls off, and at head 0 that is the cell just spliced.\<close>

lemma pop_splice:
  assumes "tape_ok t"
  shows "length (tape_cells t) < tape_n \<Longrightarrow> pop_cell (splice_row c t) = (Some c, t)"
    and "length (tape_cells t) = tape_n \<Longrightarrow> tape_head t = 0 \<Longrightarrow> splice_row c t = t"
proof -
  show "pop_cell (splice_row c t) = (Some c, t)" if "length (tape_cells t) < tape_n"
    using assms that
    by (cases "tape_cells t = []")
      (auto simp: splice_row_def trim_def tape_ok_def pop_cell_def read_cell_at_def remove_at_def nth_append min_def Let_def
        intro!: tape.equality)
  show "splice_row c t = t" if "length (tape_cells t) = tape_n" "tape_head t = 0"
    using that by (auto simp: splice_row_def trim_def tape_n_def intro!: tape.equality)
qed

text \<open>C38: whatever operations run on a tape taken from memory, it has at most \<open>tape_n\<close> cells and its
  head is on one of them; a checkpoint of it restores it, and storing it in memory and loading it
  again gives it back exactly when the head is not 0 or there is at most one cell.\<close>

theorem tape_invariant:
  assumes "(tape_op L)\<^sup>*\<^sup>* (tape_from_memory m) t"
  shows "length (tape_cells t) \<le> tape_n
     \<and> (if tape_cells t = [] then tape_head t = 0 else tape_head t < length (tape_cells t))
     \<and> restore_tape (tape_cells t) (tape_head t) = t
     \<and> (tape_from_memory (Some (tape_to_memory t)) = t \<longleftrightarrow> tape_head t \<noteq> 0 \<or> length (tape_cells t) \<le> 1)"
  using tape_ops_ok [OF assms tape_ok_from_memory] restore_same persist_same by (simp add: tape_ok_def)

theorem tape_invariant_witness:
  "\<exists>L t. (tape_op L)\<^sup>*\<^sup>* (tape_from_memory None) t \<and> tape_from_memory (Some (tape_to_memory t)) \<noteq> t"
proof -
  fix L :: pylib
  let ?start = "tape_from_memory None" and ?c = "blank_cell blank"
  let ?t = "move_left (write_cell ?c (write_cell ?c ?start))"
  have s: "(tape_op L)\<^sup>*\<^sup>* ?start ?t"
    by (meson op_write op_left rtranclp.intros)
  have "tape_head ?t = 0" "length (tape_cells ?t) = 2"
    by (simp_all add: tape_from_memory_def new_tape_def trim_def write_cell_def move_left_def tape_n_def)
  with tape_invariant [OF s] s show ?thesis by (intro exI [of _ L] exI [of _ ?t]) simp
qed

end
