(* ===== verification/TM_Machine.thy ===== *)
theory TM_Machine
  imports TM_Tape Machines
begin

text \<open>
  The Turing machine of \<open>jevops/turing.py\<close> on the bounded tape. The entries of the shared memory
  dictionary that it reads and writes are the fields of \<open>tm_memory\<close>: the stored tape, the control
  (state, flags, history, transition table) and the decision-transformer window with the action
  ranking it leaves for the pipeline. The push and pop tools, which also drive the call stack, are
  in \<open>TM_Calls\<close>.
\<close>

definition max_tm_steps :: nat where "max_tm_steps = 32"
definition mille :: nat where "mille = 1000"
definition dt_window :: nat where "dt_window = 7"

record tm_event =
  te_state :: string
  te_action :: string
  te_symbol :: string
  te_rtg :: nat

record tm_control =
  tm_state :: string
  tm_halted :: bool
  tm_accepted :: bool
  tm_history :: "tm_event list"
  tm_delta :: row

record dt_record =
  dt_rows :: "tm_event list"
  dt_count :: nat
  dt_halted :: bool

record tm_memory =
  mem_tape :: "(row list \<times> nat) option"
  mem_tm :: tm_control
  mem_dt :: "dt_record option"
  mem_bias :: "string list"

section \<open>Control\<close>

text \<open>\<open>_tape\<close>: an empty tape gets one blank cell, written back at once.\<close>

definition load_tape :: "tm_memory \<Rightarrow> tape \<times> tm_memory" where
  "load_tape m = (let t = tape_from_memory (mem_tape m) in
     if tape_cells t = [] then (let u = write_cell (blank_cell blank) t in (u, m\<lparr>mem_tape := Some (tape_to_memory u)\<rparr>))
     else (t, m))"

definition persist :: "tape \<Rightarrow> tm_memory \<Rightarrow> tm_memory" where
  "persist t m = m\<lparr>mem_tape := Some (tape_to_memory t)\<rparr>"

record tm_transition =
  tr_state :: string
  tr_write :: string
  tr_move :: string

definition first_truthy :: "row \<Rightarrow> string list \<Rightarrow> pyval" where
  "first_truthy d ks = (case find truthy (map (row_get d) ks) of None \<Rightarrow> PNone | Some v \<Rightarrow> v)"

definition delta_lookup :: "pylib \<Rightarrow> row \<Rightarrow> string \<Rightarrow> string \<Rightarrow> tm_transition" where
  "delta_lookup L table st sy =
     (case first_truthy table [st @ '','' @ sy, st @ '',*'', ''*,*''] of
        PDict r \<Rightarrow>
          if truthy (row_get r ''state'') then
            \<lparr>tr_state = py_str L (row_get r ''state''),
             tr_write = (if row_get r ''write'' \<noteq> PNone then py_str L (row_get r ''write'') else sy),
             tr_move = (if truthy (row_get r ''move'') then py_str L (row_get r ''move'') else ''S'')\<rparr>
          else if sy \<in> {'''', blank, ''blank''} then \<lparr>tr_state = ''q_halt'', tr_write = blank, tr_move = ''S''\<rparr>
          else \<lparr>tr_state = ''q_run'', tr_write = sy, tr_move = ''R''\<rparr>
      | _ \<Rightarrow>
          if sy \<in> {'''', blank, ''blank''} then \<lparr>tr_state = ''q_halt'', tr_write = blank, tr_move = ''S''\<rparr>
          else \<lparr>tr_state = ''q_run'', tr_write = sy, tr_move = ''R''\<rparr>)"

definition rtg_m :: "tm_control \<Rightarrow> nat" where
  "rtg_m c = (if tm_halted c then 0 else (max_tm_steps - length (tm_history c)) * (mille div max_tm_steps))"

definition log_event :: "string \<Rightarrow> string \<Rightarrow> tm_control \<Rightarrow> tm_control" where
  "log_event act sy c = c\<lparr>tm_history := last_n 64 (tm_history c @
     [\<lparr>te_state = (if tm_state c = [] then ''q0'' else tm_state c), te_action = act, te_symbol = sy, te_rtg = rtg_m c\<rparr>])\<rparr>"

definition log_tm :: "string \<Rightarrow> string \<Rightarrow> tm_memory \<Rightarrow> tm_memory" where
  "log_tm act sy m = m\<lparr>mem_tm := log_event act sy (mem_tm m)\<rparr>"

text \<open>\<open>dt_context\<close>.\<close>

definition dt_context :: "tm_memory \<Rightarrow> tm_memory" where
  "dt_context m =
     (let hist = tm_history (mem_tm m); toks = last_n dt_window hist;
          ranked = filter (\<lambda>a. a \<noteq> []) (map te_action (rev toks));
          m1 = m\<lparr>mem_dt := Some \<lparr>dt_rows = toks, dt_count = length hist, dt_halted = tm_halted (mem_tm m)\<rparr>\<rparr>
      in if ranked = [] then m1 else m1\<lparr>mem_bias := take 8 ranked\<rparr>)"

text \<open>The first character of a direction in upper case.\<close>

definition upper :: "char \<Rightarrow> char" where
  "upper c = (let n = (of_char c :: nat) in if 97 \<le> n \<and> n \<le> 122 then char_of (n - 32) else c)"

definition move_action :: "string \<Rightarrow> tape \<Rightarrow> string \<times> tape" where
  "move_action d t = (case take 1 (map upper d) of
       [c] \<Rightarrow> if c = CHR ''L'' then (''LEFT'', move_left t)
         else if c = CHR ''R'' then (''RIGHT'', move_right True t) else (''STAY'', t)
     | _ \<Rightarrow> (''STAY'', t))"

section \<open>The tools\<close>

text \<open>Every tool changes the memory and returns a report.\<close>

definition tool_report :: "string \<Rightarrow> row \<Rightarrow> row" where
  "tool_report kind fs = [(''ok'', PBool True), (''kind'', PStr kind)] @ fs
     @ [(''writes_lean'', PBool False), (''integer'', PBool True), (''called_docker0'', PBool False)]"

definition head_field :: "tape \<Rightarrow> string \<times> pyval" where
  "head_field t = (''head'', PInt (int (tape_head t)))"

definition tm_read :: "pylib \<Rightarrow> tm_memory \<Rightarrow> row \<times> tm_memory" where
  "tm_read L m = (let (t, m1) = load_tape m in
     (tool_report ''port_tm_read'' [(''symbol'', PStr (read_symbol L t)), (''state'', PStr (tm_state (mem_tm m1))), head_field t],
      persist t m1))"

definition tm_write :: "string \<Rightarrow> tm_memory \<Rightarrow> row \<times> tm_memory" where
  "tm_write sy m = (let (t, m1) = load_tape m; u = poke sy None t in
     (tool_report ''port_tm_write'' [(''symbol'', PStr sy), head_field u], log_tm ''WRITE'' sy (persist u m1)))"

definition move_kind :: "string \<Rightarrow> string" where
  "move_kind act = (if act = ''LEFT'' then ''port_tm_left'' else if act = ''RIGHT'' then ''port_tm_right'' else ''port_tm_step'')"

definition tm_move :: "pylib \<Rightarrow> string \<Rightarrow> tm_memory \<Rightarrow> row \<times> tm_memory" where
  "tm_move L d m =
     (let (t, m1) = load_tape m; (act, u) = move_action (if d = [] then ''S'' else d) t in
      (tool_report (move_kind act) [head_field u, (''symbol'', PStr (read_symbol L u)), (''action'', PStr act)],
       log_tm act (read_symbol L u) (persist u m1)))"

definition halting_states :: "string list" where
  "halting_states = [''q_halt'', ''halt'', ''q_accept'', ''q_reject'']"

definition enter_state :: "string \<Rightarrow> tm_control \<Rightarrow> tm_control" where
  "enter_state q c = (if q \<in> set halting_states
     then c\<lparr>tm_state := q, tm_halted := True, tm_accepted := (q \<in> {''q_halt'', ''q_accept'', ''halt''})\<rparr>
     else c\<lparr>tm_state := q\<rparr>)"

definition control_state :: "tm_control \<Rightarrow> string" where
  "control_state c = (if tm_state c = [] then ''q0'' else tm_state c)"

definition tm_step :: "pylib \<Rightarrow> tm_memory \<Rightarrow> row \<times> tm_memory" where
  "tm_step L m =
     (let (t, m1) = load_tape m; c = mem_tm m1 in
      if tm_halted c then
        ([(''ok'', PBool True), (''kind'', PStr ''port_tm_step''), (''halted'', PBool True), (''state'', PStr (tm_state c)),
          (''writes_lean'', PBool False), (''integer'', PBool True)], m1)
      else (let tr = delta_lookup L (tm_delta c) (control_state c) (read_symbol L t);
                (act, u) = move_action (tr_move tr) (poke (tr_write tr) None t);
                c' = enter_state (tr_state tr) c;
                act' = (if tr_state tr \<in> set halting_states then ''HALT'' else act)
            in (tool_report ''port_tm_step'' [(''state'', PStr (tm_state c')), (''action'', PStr act'),
                  (''symbol'', PStr (read_symbol L u)), head_field u, (''halted'', PBool (tm_halted c'))],
                dt_context (log_tm act' (read_symbol L u) (persist u (m1\<lparr>mem_tm := c'\<rparr>))))))"

text \<open>\<open>tm_run\<close>: at most \<open>max 1 max_steps\<close> steps, fewer when one reports that the machine halted.\<close>

primrec tm_loop :: "pylib \<Rightarrow> nat \<Rightarrow> nat \<Rightarrow> row \<Rightarrow> tm_memory \<Rightarrow> nat \<times> row \<times> tm_memory" where
  "tm_loop L 0 n rep m = (n, rep, m)"
| "tm_loop L (Suc k) n rep m = (let (r, u) = tm_step L m in
     if truthy (row_get r ''halted'') then (Suc n, r, u) else tm_loop L k (Suc n) r u)"

definition tm_run :: "pylib \<Rightarrow> nat \<Rightarrow> tm_memory \<Rightarrow> row \<times> tm_memory" where
  "tm_run L max_steps m = (let (n, r, u) = tm_loop L (max 1 max_steps) 0 [] m in
     (dict_set ''n_steps'' (PInt (int n)) (dict_set ''kind'' (PStr ''port_tm_run'') r), u))"

text \<open>The report of the decision-transformer tool.\<close>

definition event_row :: "tm_event \<Rightarrow> pyval" where
  "event_row e = PDict [(''state'', PStr (te_state e)), (''action'', PStr (te_action e)),
     (''symbol'', PStr (te_symbol e)), (''rtg_m'', PInt (int (te_rtg e)))]"

definition dt_tool :: "tm_memory \<Rightarrow> row \<times> tm_memory" where
  "dt_tool m = (let hist = tm_history (mem_tm m) in
     (tool_report ''port_decision_transformer''
        [(''window'', PList (map event_row (last_n dt_window hist))), (''n'', PInt (int (length hist)))],
      dt_context m))"

section \<open>The abstract machine\<close>

text \<open>A state, the symbols on the tape, the position of the head. The head stops at the left end;
  at the right end the tape grows by a blank while it is shorter than \<open>tape_n\<close>.\<close>

type_synonym tm_config = "string \<times> string list \<times> nat"

definition spec_move :: "string \<Rightarrow> string list \<Rightarrow> nat \<Rightarrow> string list \<times> nat" where
  "spec_move d xs h =
     (case take 1 (map upper d) of
        [c] \<Rightarrow> if c = CHR ''L'' then (xs, h - 1)
          else if c = CHR ''R'' then
            (if Suc h < length xs then (xs, Suc h) else if length xs < tape_n then (xs @ [blank], length xs) else (xs, h))
          else (xs, h)
      | _ \<Rightarrow> (xs, h))"

definition spec_step :: "pylib \<Rightarrow> row \<Rightarrow> tm_config \<Rightarrow> tm_config" where
  "spec_step L table = (\<lambda>(q, xs, h).
     (let tr = delta_lookup L table q (xs ! h) in
      (if tr_state tr = [] then ''q0'' else tr_state tr, spec_move (tr_move tr) (xs[h := or_blank (tr_write tr)]) h)))"

text \<open>What a stored head becomes: \<open>from_memory\<close> takes a stored 0 for a missing head and puts the
  head on the last cell.\<close>

definition reload :: "tm_config \<Rightarrow> tm_config" where
  "reload = (\<lambda>(q, xs, h). (q, xs, if h = 0 then length xs - 1 else h))"

definition symbols :: "pylib \<Rightarrow> tape \<Rightarrow> string list" where
  "symbols L t = map (symbol_or L blank) (tape_cells t)"

definition tm_abs :: "pylib \<Rightarrow> tm_memory \<Rightarrow> tm_config" where
  "tm_abs L m = (let t = fst (load_tape m) in (control_state (mem_tm m), symbols L t, tape_head t))"

lemma load_tape_ok:
  assumes "load_tape m = (t, m1)"
  shows "tape_ok t" "tape_cells t \<noteq> []" "tape_head t < length (tape_cells t)" "mem_tm m1 = mem_tm m"
proof -
  show ok: "tape_ok t" "mem_tm m1 = mem_tm m"
    using assms tape_ok_from_memory [of "mem_tape m"] tape_ok_write
    by (auto simp: load_tape_def Let_def split: if_splits)
  show "tape_cells t \<noteq> []"
    using assms by (auto simp: load_tape_def Let_def write_cell_def trim_def tape_n_def split: if_splits)
  with ok show "tape_head t < length (tape_cells t)" by (simp add: tape_ok_def)
qed

lemma symbols_length [simp]: "length (symbols L t) = length (tape_cells t)"
  by (simp add: symbols_def)

lemma symbol_nth: "h < length (tape_cells t) \<Longrightarrow> symbols L t ! h = symbol_or L blank (tape_cells t ! h)"
  by (simp add: symbols_def)

lemma read_symbol_nth: "tape_cells t \<noteq> [] \<Longrightarrow> tape_head t < length (tape_cells t) \<Longrightarrow> read_symbol L t = symbols L t ! tape_head t"
  by (simp add: read_symbol_def read_cell_at_def symbol_nth)

lemma or_blank_nonempty [simp]: "or_blank s \<noteq> []"
  by (simp add: or_blank_def blank_def)

lemma symbol_written: "symbol_or L blank (dict_set ''symbol'' (PStr (or_blank w)) c) = or_blank w"
  by (simp add: symbol_or_def row_get_def dict_simps)

lemma symbol_blank_cell: "symbol_or L blank (blank_cell blank) = blank"
  by (simp add: symbol_or_def row_get_def blank_cell_def tape_cell_def update_row_def dict_simps blank_def)

lemma poke_effect:
  assumes "tape_cells t \<noteq> []"
  shows "symbols L (poke w None t) = (symbols L t)[tape_head t := or_blank w]"
    and "tape_head (poke w None t) = tape_head t" and "length (tape_cells (poke w None t)) = length (tape_cells t)"
  using assms by (simp_all add: poke_def Let_def symbols_def map_update symbol_written)

lemma write_blank_effect:
  "length (tape_cells t) < tape_n \<Longrightarrow> write_cell (blank_cell blank) t =
     \<lparr>tape_cells = tape_cells t @ [blank_cell blank], tape_head = length (tape_cells t)\<rparr>"
  by (simp add: write_cell_def trim_def)

lemma move_effect:
  assumes "tape_ok t" "tape_cells t \<noteq> []" "move_action d t = (act, u)"
  shows "(symbols L u, tape_head u) = spec_move d (symbols L t) (tape_head t)"
    and "tape_ok u" and "tape_cells u \<noteq> []"
proof -
  have h: "tape_head t < length (tape_cells t)" using assms by (simp add: tape_ok_def)
  show "tape_ok u"
    using assms by (auto simp: move_action_def tape_ok_left tape_ok_right split: list.splits if_splits)
  show "tape_cells u \<noteq> []"
    using assms by (auto simp: move_action_def move_left_def move_right_def write_blank_effect split: list.splits if_splits)
  show "(symbols L u, tape_head u) = spec_move d (symbols L t) (tape_head t)"
    using assms(2,3) h
    by (auto simp: move_action_def spec_move_def move_left_def move_right_def write_blank_effect symbols_def
        symbol_blank_cell split: list.splits if_splits)
qed

lemma load_persisted:
  assumes "tape_ok t" "tape_cells t \<noteq> []" "mem_tape m = Some (tape_to_memory t)"
  shows "symbols L (fst (load_tape m)) = symbols L t
     \<and> tape_head (fst (load_tape m)) = (if tape_head t = 0 then length (tape_cells t) - 1 else tape_head t)"
  using assms tape_ok_restored [OF assms(1)] by (simp add: load_tape_def Let_def symbols_def)

lemma dt_context_frames [simp]:
  "mem_tape (dt_context m) = mem_tape m" "mem_tm (dt_context m) = mem_tm m"
  by (simp_all add: dt_context_def Let_def)

lemma tm_step_control:
  assumes "\<not> tm_halted (mem_tm m)"
  shows "tm_delta (mem_tm (snd (tm_step L m))) = tm_delta (mem_tm m)"
    and "tm_state (mem_tm (snd (tm_step L m))) =
      tr_state (delta_lookup L (tm_delta (mem_tm m)) (fst (tm_abs L m)) (read_symbol L (fst (load_tape m))))"
    and "tm_halted (mem_tm (snd (tm_step L m))) \<longleftrightarrow> tm_state (mem_tm (snd (tm_step L m))) \<in> set halting_states"
    and "row_get (fst (tm_step L m)) ''halted'' = PBool (tm_halted (mem_tm (snd (tm_step L m))))"
proof -
  obtain t m1 where l: "load_tape m = (t, m1)" by (cases "load_tape m")
  note lm = load_tape_ok(4) [OF l]
  obtain act u where mv: "move_action (tr_move (delta_lookup L (tm_delta (mem_tm m)) (control_state (mem_tm m)) (read_symbol L t)))
      (poke (tr_write (delta_lookup L (tm_delta (mem_tm m)) (control_state (mem_tm m)) (read_symbol L t))) None t) = (act, u)"
    by (cases "move_action (tr_move (delta_lookup L (tm_delta (mem_tm m)) (control_state (mem_tm m)) (read_symbol L t)))
      (poke (tr_write (delta_lookup L (tm_delta (mem_tm m)) (control_state (mem_tm m)) (read_symbol L t))) None t)")
  note d = tm_step_def l lm mv log_tm_def log_event_def persist_def enter_state_def tm_abs_def tool_report_def row_get_def head_field_def
  show "tm_delta (mem_tm (snd (tm_step L m))) = tm_delta (mem_tm m)"
    and "tm_state (mem_tm (snd (tm_step L m))) =
      tr_state (delta_lookup L (tm_delta (mem_tm m)) (fst (tm_abs L m)) (read_symbol L (fst (load_tape m))))"
    and "tm_halted (mem_tm (snd (tm_step L m))) \<longleftrightarrow> tm_state (mem_tm (snd (tm_step L m))) \<in> set halting_states"
    and "row_get (fst (tm_step L m)) ''halted'' = PBool (tm_halted (mem_tm (snd (tm_step L m))))"
    using assms by (simp_all add: d Let_def)
qed

lemma tm_step_tape:
  assumes "\<not> tm_halted (mem_tm m)"
  shows "tm_abs L (snd (tm_step L m)) = reload (spec_step L (tm_delta (mem_tm m)) (tm_abs L m))"
proof -
  obtain t m1 where l: "load_tape m = (t, m1)" by (cases "load_tape m")
  note ok = load_tape_ok [OF l]
  let ?tr = "delta_lookup L (tm_delta (mem_tm m)) (control_state (mem_tm m)) (read_symbol L t)"
  let ?p = "poke (tr_write ?tr) None t"
  obtain act u where mv: "move_action (tr_move ?tr) ?p = (act, u)" by (cases "move_action (tr_move ?tr) ?p")
  have p: "tape_ok ?p" "tape_cells ?p \<noteq> []"
    using ok(1,2) poke_effect(3) [OF ok(2), of "tr_write ?tr"] by (auto simp: tape_ok_poke)
  note mo = move_effect [OF p mv]
  let ?m = "snd (tm_step L m)"
  have m: "mem_tape ?m = Some (tape_to_memory u)" "control_state (mem_tm ?m) = (if tr_state ?tr = [] then ''q0'' else tr_state ?tr)"
    using assms mv by (simp_all add: tm_step_def l ok(4) Let_def log_tm_def log_event_def persist_def enter_state_def control_state_def)
  have "spec_move (tr_move ?tr) ((symbols L t)[tape_head t := or_blank (tr_write ?tr)]) (tape_head t) = (symbols L u, tape_head u)"
    using mo(1) [of L] by (simp add: poke_effect [OF ok(2)])
  then show ?thesis
    using load_persisted [OF mo(2,3) m(1), of L] m(2) ok
    by (auto simp: tm_abs_def Let_def l spec_step_def reload_def read_symbol_nth)
qed

section \<open>Runs\<close>

abbreviation tm_next :: "pylib \<Rightarrow> tm_memory \<Rightarrow> tm_memory" where
  "tm_next L m \<equiv> snd (tm_step L m)"

abbreviation spec_next :: "pylib \<Rightarrow> row \<Rightarrow> tm_config \<Rightarrow> tm_config" where
  "spec_next L table c \<equiv> reload (spec_step L table c)"

lemma tm_step_reports: "truthy (row_get (fst (tm_step L m)) ''halted'') \<longleftrightarrow> tm_halted (mem_tm (tm_next L m))"
proof (cases "tm_halted (mem_tm m)")
  case True
  obtain t m1 where l: "load_tape m = (t, m1)" by (cases "load_tape m")
  from True show ?thesis
    by (simp add: tm_step_def l load_tape_ok(4) [OF l] row_get_def Let_def)
qed (simp add: tm_step_control(4))

lemma control_halting: "control_state c \<in> set halting_states \<longleftrightarrow> tm_state c \<in> set halting_states"
  by (auto simp: control_state_def halting_states_def)

lemma tm_loop_Suc: "tm_loop L (Suc k) n rep m =
   (if tm_halted (mem_tm (tm_next L m)) then (Suc n, fst (tm_step L m), tm_next L m)
    else tm_loop L k (Suc n) (fst (tm_step L m)) (tm_next L m))"
  by (cases "tm_step L m") (use tm_step_reports [of L m] in auto)

declare tm_loop.simps(2) [simp del]

lemma tm_step_halts:
  assumes "\<not> tm_halted (mem_tm m)"
  shows "tm_halted (mem_tm (tm_next L m)) \<longleftrightarrow> fst (spec_next L (tm_delta (mem_tm m)) (tm_abs L m)) \<in> set halting_states"
  using tm_step_tape [OF assms, of L] tm_step_control(3) [OF assms, of L] by (metis control_halting fst_conv tm_abs_def)

lemma tm_loop_refines:
  assumes "\<not> tm_halted (mem_tm m)"
  shows "\<exists>j r u. tm_loop L (Suc k) n rep m = (n + j, r, u) \<and> 1 \<le> j \<and> j \<le> Suc k
     \<and> tm_abs L u = (spec_next L (tm_delta (mem_tm m)) ^^ j) (tm_abs L m)
     \<and> (tm_halted (mem_tm u) \<longleftrightarrow> fst ((spec_next L (tm_delta (mem_tm m)) ^^ j) (tm_abs L m)) \<in> set halting_states)
     \<and> (j < Suc k \<longrightarrow> tm_halted (mem_tm u))
     \<and> (\<forall>i. 0 < i \<and> i < j \<longrightarrow> fst ((spec_next L (tm_delta (mem_tm m)) ^^ i) (tm_abs L m)) \<notin> set halting_states)"
  using assms
proof (induction k arbitrary: n rep m)
  case step: 0
  then show ?case
    using tm_step_tape [OF step, of L] tm_step_halts [OF step, of L]
    by (intro exI [of _ 1] exI [of _ "fst (tm_step L m)"] exI [of _ "tm_next L m"]) (auto simp: tm_loop_Suc)
next
  case (Suc k)
  let ?F = "spec_next L (tm_delta (mem_tm m))"
  have st: "tm_abs L (tm_next L m) = ?F (tm_abs L m)" by (rule tm_step_tape [OF Suc.prems])
  note hs = tm_step_halts [OF Suc.prems, of L]
  show ?case
  proof (cases "tm_halted (mem_tm (tm_next L m))")
    case True
    with st hs show ?thesis
      by (intro exI [of _ 1] exI [of _ "fst (tm_step L m)"] exI [of _ "tm_next L m"])
        (auto simp: tm_loop_Suc [of L "Suc k"])
  next
    case False
    obtain j r u where j: "tm_loop L (Suc k) (Suc n) (fst (tm_step L m)) (tm_next L m) = (Suc n + j, r, u)" "1 \<le> j" "j \<le> Suc k"
      "tm_abs L u = (?F ^^ j) (?F (tm_abs L m))"
      "tm_halted (mem_tm u) \<longleftrightarrow> fst ((?F ^^ j) (?F (tm_abs L m))) \<in> set halting_states"
      "j < Suc k \<longrightarrow> tm_halted (mem_tm u)"
      "\<And>i. 0 < i \<and> i < j \<Longrightarrow> fst ((?F ^^ i) (?F (tm_abs L m))) \<notin> set halting_states"
      using Suc.IH [OF False, of "Suc n" "fst (tm_step L m)"] tm_step_control(1) [OF Suc.prems, of L] st by auto
    have "fst ((?F ^^ i) (tm_abs L m)) \<notin> set halting_states" if "0 < i" "i < Suc j" for i
    proof (cases i)
      case (Suc i')
      with that j(7) [of i'] False hs show ?thesis
        by (cases "i' = 0") (auto simp: funpow_Suc_right simp del: funpow.simps(2))
    qed (use that in simp)
    with False j(1-6) show ?thesis
      by (intro exI [of _ "Suc j"] exI [of _ r] exI [of _ u])
        (auto simp: tm_loop_Suc [of L "Suc k"] funpow_Suc_right simp del: funpow.simps(2))
  qed
qed

section \<open>The tools keep the memory bounded\<close>

datatype tm_tool = T_Read | T_Write string | T_Move string | T_Step | T_Run nat | T_Context

fun run_tool :: "pylib \<Rightarrow> tm_tool \<Rightarrow> tm_memory \<Rightarrow> tm_memory" where
  "run_tool L T_Read m = snd (tm_read L m)"
| "run_tool L (T_Write sy) m = snd (tm_write sy m)"
| "run_tool L (T_Move d) m = snd (tm_move L d m)"
| "run_tool L T_Step m = snd (tm_step L m)"
| "run_tool L (T_Run k) m = snd (tm_run L k m)"
| "run_tool L T_Context m = snd (dt_tool m)"

definition tm_memory_ok :: "tm_memory \<Rightarrow> bool" where
  "tm_memory_ok m \<longleftrightarrow> (case mem_tape m of None \<Rightarrow> True | Some (cs, h) \<Rightarrow> tape_ok \<lparr>tape_cells = cs, tape_head = h\<rparr>)
     \<and> length (tm_history (mem_tm m)) \<le> 64 \<and> (\<forall>e \<in> set (tm_history (mem_tm m)). te_rtg e \<le> 992)
     \<and> (case mem_dt m of None \<Rightarrow> True | Some d \<Rightarrow> length (dt_rows d) \<le> dt_window)"

lemma rtg_bound: "rtg_m c \<le> 992"
  by (simp add: rtg_m_def max_tm_steps_def mille_def)

lemma tm_memory_ok_tape: "tm_memory_ok m \<Longrightarrow> tape_ok t \<Longrightarrow> tm_memory_ok (persist t m)"
  by (simp add: tm_memory_ok_def persist_def tape_to_memory_def last_n_all tape_ok_def)

lemma tm_memory_ok_load: "tm_memory_ok m \<Longrightarrow> load_tape m = (t, m1) \<Longrightarrow> tm_memory_ok m1 \<and> tape_ok t"
  using load_tape_ok(1) [of m t m1] tm_memory_ok_tape [of m t]
  by (auto simp: load_tape_def Let_def persist_def split: if_splits)

lemma tm_memory_ok_log: "tm_memory_ok m \<Longrightarrow> tm_memory_ok (log_tm act sy m)"
  using rtg_bound set_last_n_subset [of 64 "tm_history (mem_tm m) @ [e]" for e]
  by (auto simp: tm_memory_ok_def log_tm_def log_event_def dest!: subsetD [OF set_last_n_subset])

lemma tm_memory_ok_enter: "tm_memory_ok m \<Longrightarrow> tm_memory_ok (m\<lparr>mem_tm := enter_state q (mem_tm m)\<rparr>)"
  by (simp add: tm_memory_ok_def enter_state_def)

lemma tm_memory_ok_dt: "tm_memory_ok m \<Longrightarrow> tm_memory_ok (dt_context m)"
  by (simp add: tm_memory_ok_def dt_context_def Let_def)

lemma tm_memory_ok_step: "tm_memory_ok m \<Longrightarrow> tm_memory_ok (tm_next L m)"
proof -
  assume ok: "tm_memory_ok m"
  obtain t m1 where l: "load_tape m = (t, m1)" by (cases "load_tape m")
  note lt = tm_memory_ok_load [OF ok l] load_tape_ok [OF l]
  have mv: "tape_ok u" if "move_action d (poke w None t) = (act, u)" for d w act u
  proof (rule move_effect(2) [OF _ _ that])
    show "tape_ok (poke w None t)" using lt(2) by (rule tape_ok_poke)
    show "tape_cells (poke w None t) \<noteq> []" using lt(3) poke_effect(3) [OF lt(3), of w] by (metis length_0_conv)
  qed
  show ?thesis
    using lt tm_memory_ok_enter [of m1] mv
    by (auto simp: tm_step_def l Let_def split: prod.split
        intro!: tm_memory_ok_dt tm_memory_ok_log tm_memory_ok_tape)
qed

lemma tm_memory_ok_loop: "tm_memory_ok m \<Longrightarrow> tm_memory_ok (snd (snd (tm_loop L k n rep m)))"
  by (induction k arbitrary: n rep m) (auto simp: tm_loop_Suc tm_memory_ok_step)

interpretation tm: machine "run_tool L" tm_memory_ok for L
proof
  fix m i
  assume ok: "tm_memory_ok m"
  obtain t m1 where l: "load_tape m = (t, m1)" by (cases "load_tape m")
  note lt = tm_memory_ok_load [OF ok l] load_tape_ok [OF l]
  have mv: "tape_ok u" if "move_action d t = (act, u)" for d act u
    using move_effect(2) [OF _ lt(3) that] lt by simp
  show "tm_memory_ok (run_tool L i m)"
  proof (cases i)
    case (T_Run k)
    with tm_memory_ok_loop [OF ok, of L "max 1 k" 0 "[]"] show ?thesis
      by (auto simp: tm_run_def split: prod.splits)
  next
    case (T_Move d)
    with lt mv show ?thesis
      by (auto simp: tm_move_def l Let_def split: prod.splits intro!: tm_memory_ok_log tm_memory_ok_tape)
  qed (use ok lt in \<open>auto simp: tm_read_def tm_write_def dt_tool_def l Let_def tm_memory_ok_step
      intro!: tm_memory_ok_log tm_memory_ok_tape tm_memory_ok_dt tape_ok_poke\<close>)
qed

lemma tools_keep_memory: "tm_memory_ok m \<Longrightarrow> tm_memory_ok (fold (run_tool L) is m)"
  by (rule tm.inv_run)

section \<open>The default scanner\<close>

definition blanks :: "string list" where
  "blanks = [[], blank, ''blank'']"

lemma delta_default: "delta_lookup L [] q sy = (if sy \<in> set blanks then \<lparr>tr_state = ''q_halt'', tr_write = blank, tr_move = ''S''\<rparr>
   else \<lparr>tr_state = ''q_run'', tr_write = sy, tr_move = ''R''\<rparr>)"
  by (simp add: delta_lookup_def first_truthy_def row_get_def blanks_def)

lemma upper_letters [simp]: "upper CHR ''S'' = CHR ''S''" "upper CHR ''R'' = CHR ''R''"
  by code_simp+

lemma spec_scan:
  "spec_step L [] (q, xs, h) = (if xs ! h \<in> set blanks then (''q_halt'', xs[h := blank], h)
     else (''q_run'', if Suc h < length xs then (xs, Suc h) else if length xs < tape_n then (xs @ [blank], length xs) else (xs, h)))"
  by (auto simp: spec_step_def delta_default spec_move_def or_blank_def blank_def blanks_def Let_def)

lemma tm_step_accepts:
  assumes "\<not> tm_halted (mem_tm m)" "tm_state (mem_tm (tm_next L m)) = ''q_halt''"
  shows "tm_accepted (mem_tm (tm_next L m))"
proof -
  obtain t m1 where l: "load_tape m = (t, m1)" by (cases "load_tape m")
  show ?thesis using assms
    by (auto simp: tm_step_def l load_tape_ok(4) [OF l] Let_def log_tm_def log_event_def persist_def enter_state_def
        halting_states_def split: prod.splits if_splits)
qed

definition scan_stops :: "string list \<Rightarrow> nat \<Rightarrow> bool" where
  "scan_stops xs i \<longleftrightarrow> (if i < length xs then xs ! i \<in> set blanks else i = length xs \<and> length xs < tape_n)"

definition scanned :: "string list \<Rightarrow> nat \<Rightarrow> string list" where
  "scanned xs i = (xs @ (if i < length xs then [] else [blank]))[i := blank]"

lemma tm_abs_head: "tm_abs L m = (q, xs, h) \<Longrightarrow> h < length xs"
  by (cases "load_tape m") (auto simp: tm_abs_def load_tape_ok(3))

lemma tm_abs_state: "fst (tm_abs L m) = control_state (mem_tm m)"
  by (simp add: tm_abs_def Let_def)

lemma control_state_is: "control_state c = q \<Longrightarrow> q \<noteq> ''q0'' \<Longrightarrow> tm_state c = q"
  by (simp add: control_state_def split: if_splits)

lemma scan_loop:
  assumes "\<not> tm_halted (mem_tm m)" "tm_delta (mem_tm m) = []" "tm_abs L m = (q, xs, h)"
    and "\<And>i. i < d \<Longrightarrow> h + i < length xs \<and> xs ! (h + i) \<notin> set blanks" and "scan_stops xs (h + d)"
  shows "\<exists>r u. tm_loop L (Suc (d + k)) n rep m = (n + Suc d, r, u) \<and> tm_halted (mem_tm u) \<and> tm_accepted (mem_tm u)
     \<and> tm_state (mem_tm u) = ''q_halt'' \<and> fst (snd (tm_abs L u)) = scanned xs (h + d)"
  using assms
proof (induction d arbitrary: m n rep q xs h)
  case 0
  let ?u = "tm_next L m"
  have h: "h < length xs" using tm_abs_head [OF "0.prems"(3)] .
  then have "tm_abs L ?u = reload (''q_halt'', xs[h := blank], h)"
    using tm_step_tape [OF "0.prems"(1), of L] "0.prems"(2,3,5) by (simp add: spec_scan scan_stops_def)
  then have u: "control_state (mem_tm ?u) = ''q_halt''" "fst (snd (tm_abs L ?u)) = scanned xs h"
    using tm_abs_state [of L ?u] h by (auto simp: reload_def scanned_def)
  then have s: "tm_state (mem_tm ?u) = ''q_halt''" by (intro control_state_is) auto
  then have "tm_halted (mem_tm ?u)" by (simp add: tm_step_control(3) [OF "0.prems"(1)] halting_states_def)
  with u(2) s tm_step_accepts [OF "0.prems"(1) s] show ?case
    by (intro exI [of _ "fst (tm_step L m)"] exI [of _ ?u]) (simp add: tm_loop_Suc)
next
  case (Suc d)
  let ?u = "tm_next L m"
  define ys where "ys = (if Suc h < length xs then xs else xs @ [blank])"
  have h: "h < length xs" "xs ! h \<notin> set blanks" using Suc.prems(4) [of 0] by auto
  have grow: "Suc h < length xs \<or> length xs < tape_n \<and> d = 0 \<and> length xs = Suc h"
    using Suc.prems(4) [of d] Suc.prems(5) h(1) by (auto simp: scan_stops_def split: if_splits)
  have run: "tm_abs L ?u = (''q_run'', ys, Suc h)"
    using tm_step_tape [OF Suc.prems(1), of L] Suc.prems(2,3) h grow
    by (auto simp: spec_scan reload_def ys_def)
  then have "control_state (mem_tm ?u) = ''q_run''" using tm_abs_state [of L ?u] by simp
  then have "tm_state (mem_tm ?u) = ''q_run''" by (rule control_state_is) simp
  then have nh: "\<not> tm_halted (mem_tm ?u)" by (simp add: tm_step_control(3) [OF Suc.prems(1)] halting_states_def)
  have before: "Suc h + i < length ys \<and> ys ! (Suc h + i) \<notin> set blanks" if "i < d" for i
    using Suc.prems(4) [of "Suc i"] that by (auto simp: ys_def)
  have stops: "scan_stops ys (Suc h + d)"
    using Suc.prems(5) grow by (auto simp: scan_stops_def ys_def nth_append blanks_def split: if_splits)
  have same: "scanned ys (Suc (h + d)) = scanned xs (Suc (h + d))"
    using grow by (auto simp: scanned_def ys_def)
  have delta: "tm_delta (mem_tm ?u) = []" using tm_step_control(1) [OF Suc.prems(1), of L] Suc.prems(2) by simp
  show ?case
    using Suc.IH [OF nh delta run before stops, of "Suc n" "fst (tm_step L m)"] nh
    by (auto simp: tm_loop_Suc [of L "Suc (d + k)"] same)
qed

section \<open>Properties\<close>

lemma tm_run_loop: "tm_run L k m = (r, u) \<Longrightarrow> \<exists>n q. tm_loop L (Suc (max 1 k - 1)) 0 [] m = (n, q, u) \<and> row_get r ''n_steps'' = PInt (int n)"
  by (auto simp: tm_run_def row_get_def dict_simps split: prod.splits)

text \<open>C39: \<open>tm_run\<close> on a machine that has not halted refines the abstract machine: it makes
  between one and \<open>max 1 max_steps\<close> steps, reports their number, ends early only in a halting
  state, and the stored configuration is the one the abstract machine reaches by as many steps,
  with a stored head of 0 read back as the last cell after every step.\<close>

theorem tm_run_refines:
  assumes "\<not> tm_halted (mem_tm m)" and "tm_run L k m = (r, u)"
  shows "\<exists>n. 1 \<le> n \<and> n \<le> max 1 k \<and> row_get r ''n_steps'' = PInt (int n)
     \<and> tm_abs L u = (spec_next L (tm_delta (mem_tm m)) ^^ n) (tm_abs L m)
     \<and> (tm_halted (mem_tm u) \<longleftrightarrow> fst ((spec_next L (tm_delta (mem_tm m)) ^^ n) (tm_abs L m)) \<in> set halting_states)
     \<and> (n < max 1 k \<longrightarrow> tm_halted (mem_tm u))
     \<and> (\<forall>i. 0 < i \<and> i < n \<longrightarrow> fst ((spec_next L (tm_delta (mem_tm m)) ^^ i) (tm_abs L m)) \<notin> set halting_states)"
proof -
  obtain n q where n: "tm_loop L (Suc (max 1 k - 1)) 0 [] m = (n, q, u)" "row_get r ''n_steps'' = PInt (int n)"
    using tm_run_loop [OF assms(2)] by auto
  have k: "Suc (max 1 k - 1) = max 1 k" by simp
  show ?thesis
    using tm_loop_refines [OF assms(1), of L "max 1 k - 1" 0 "[]"] n unfolding k by auto
qed

text \<open>The examples: two cells with the head on the second, no transition table.\<close>

definition tm_example_lib :: pylib where
  "tm_example_lib = \<lparr>sha256_hex = (\<lambda>_. []), float_repr = (\<lambda>_. []), float_of_text = (\<lambda>_. None), repr_of = (\<lambda>_. [])\<rparr>"

definition tm_example :: tm_memory where
  "tm_example = \<lparr>mem_tape = Some ([blank_cell ''a'', blank_cell ''b''], 1),
     mem_tm = \<lparr>tm_state = ''q0'', tm_halted = False, tm_accepted = False, tm_history = [], tm_delta = []\<rparr>,
     mem_dt = None, mem_bias = []\<rparr>"

lemma tm_example_abs: "tm_abs tm_example_lib tm_example = (''q0'', [''a'', ''b''], 1)"
  by code_simp

lemma tm_example_fields [simp]: "tm_halted (mem_tm tm_example) = False" "tm_delta (mem_tm tm_example) = []"
  by (simp_all add: tm_example_def)

theorem tm_run_refines_witness:
  "\<exists>n. 1 \<le> n \<and> n \<le> 4 \<and> tm_abs tm_example_lib (snd (tm_run tm_example_lib 4 tm_example))
     = (spec_next tm_example_lib [] ^^ n) (''q0'', [''a'', ''b''], 1)"
proof -
  obtain r u where run: "tm_run tm_example_lib 4 tm_example = (r, u)" by (cases "tm_run tm_example_lib 4 tm_example")
  show ?thesis
    using tm_run_refines [OF _ run] unfolding tm_example_abs by (auto simp: run)
qed

text \<open>C40: with no transition table the machine is a scanner that ends: when \<open>d\<close> symbols from
  the head on are not blank and the next cell is blank, or is the free place right after the tape,
  a run of more than \<open>d\<close> steps halts and accepts after exactly \<open>d + 1\<close> steps, with a blank there
  and every other symbol unchanged.\<close>

theorem tm_scanner_halts:
  assumes "\<not> tm_halted (mem_tm m)" and "tm_delta (mem_tm m) = []" and "tm_abs L m = (q, xs, h)"
    and "\<And>i. i < d \<Longrightarrow> h + i < length xs \<and> xs ! (h + i) \<notin> set blanks" and "scan_stops xs (h + d)" and "d < k"
  shows "\<exists>r u. tm_run L k m = (r, u) \<and> row_get r ''n_steps'' = PInt (int (Suc d)) \<and> tm_halted (mem_tm u)
     \<and> tm_accepted (mem_tm u) \<and> tm_state (mem_tm u) = ''q_halt'' \<and> fst (snd (tm_abs L u)) = scanned xs (h + d)"
proof -
  obtain j where k: "max 1 k = Suc (d + j)" using assms(6) by (intro that [of "k - Suc d"]) simp
  show ?thesis
    using scan_loop [OF assms(1-5), of j 0 "[]"] unfolding tm_run_def k
    by (auto simp: row_get_def dict_simps)
qed

theorem tm_scanner_halts_witness:
  "\<exists>r u. tm_run tm_example_lib 5 tm_example = (r, u) \<and> row_get r ''n_steps'' = PInt 2 \<and> tm_accepted (mem_tm u)
     \<and> fst (snd (tm_abs tm_example_lib u)) = [''a'', ''b'', ''_'']"
proof -
  have "\<exists>r u. tm_run tm_example_lib 5 tm_example = (r, u) \<and> row_get r ''n_steps'' = PInt (int (Suc 1)) \<and> tm_halted (mem_tm u)
     \<and> tm_accepted (mem_tm u) \<and> tm_state (mem_tm u) = ''q_halt'' \<and> fst (snd (tm_abs tm_example_lib u)) = scanned [''a'', ''b''] (1 + 1)"
    by (rule tm_scanner_halts [OF _ _ tm_example_abs])
      (auto simp: blanks_def blank_def scan_stops_def tape_n_def)
  then show ?thesis by (auto simp: scanned_def blank_def)
qed

end
