(* ===== verification/CS_Pointers.thy ===== *)
theory CS_Pointers
  imports Py_Reading
begin

text \<open>
  The pointers of \<open>jevops/stack.py\<close>: reading \<open>ptr://kind/name\<close>, completing a bare name to a pointer,
  resolving a pointer against the tables the caller allows, and the closed bag of arguments a child
  call gets. Texts are ASCII. A set of strings is the list of its elements in order. The catalog that
  \<open>resolve_ptr\<close> imports is a field of \<open>ptr_tables\<close>.
\<close>

section \<open>Texts\<close>

definition has_prefix :: "string \<Rightarrow> string \<Rightarrow> bool" where
  "has_prefix p s \<longleftrightarrow> take (length p) s = p"

definition has_suffix :: "string \<Rightarrow> string \<Rightarrow> bool" where
  "has_suffix p s \<longleftrightarrow> has_prefix (rev p) (rev s)"

fun has_part :: "string \<Rightarrow> string \<Rightarrow> bool" where
  "has_part p [] \<longleftrightarrow> p = []"
| "has_part p (c # cs) \<longleftrightarrow> has_prefix p (c # cs) \<or> has_part p cs"

text \<open>\<open>s.replace("port_", "")\<close>.\<close>

fun without_port :: "string \<Rightarrow> string" where
  "without_port s = (case s of [] \<Rightarrow> []
     | c # cs \<Rightarrow> if has_prefix ''port_'' s then without_port (drop 4 cs) else c # without_port cs)"

declare without_port.simps [simp del]

definition is_alnum :: "char \<Rightarrow> bool" where
  "is_alnum c = (let n = (of_char c :: nat) in 48 \<le> n \<and> n \<le> 57 \<or> 65 \<le> n \<and> n \<le> 90 \<or> 97 \<le> n \<and> n \<le> 122)"

definition ptr_char :: "char \<Rightarrow> bool" where
  "ptr_char c \<longleftrightarrow> is_alnum c \<or> c \<in> set ''_./:-''"

section \<open>Reading a pointer\<close>

definition ptr_kinds :: "string list" where
  "ptr_kinds = [''skill'', ''family'', ''theorem'', ''module'', ''tool'', ''cell'', ''subloop'', ''mcpplusplus'', ''goal'',
     ''subgoal'', ''task'', ''codepath'']"

definition kind_prefix :: "string \<Rightarrow> string" where
  "kind_prefix k = ''ptr://'' @ k @ ''/''"

text \<open>\<open>PTR_RE.match\<close> on a text without white space around it.\<close>

definition ptr_match :: "string \<Rightarrow> (string \<times> string) option" where
  "ptr_match s =
     (case find (\<lambda>k. has_prefix (kind_prefix k) s) ptr_kinds of
        None \<Rightarrow> None
      | Some k \<Rightarrow> (let name = drop (length (kind_prefix k)) s in
          if name \<noteq> [] \<and> list_all ptr_char name then Some (k, name) else None))"

definition parse_ptr :: "string \<Rightarrow> row" where
  "parse_ptr text =
     (let s = strip_space text in
      if s = [] then [(''ok'', PBool False), (''reason'', PStr ''empty_ptr'')]
      else case ptr_match s of
        Some (k, name) \<Rightarrow> [(''ok'', PBool True), (''kind'', PStr k), (''name'', PStr name), (''ptr'', PStr s)]
      | None \<Rightarrow> [(''ok'', PBool False), (''reason'', PStr ''unknown_ptr''), (''ptr'', PStr s)])"

definition family_names :: "string list" where
  "family_names = [''search_space'', ''dead_code'', ''strength_reduction'', ''algebraic_simplification'', ''pca_keep'',
     ''symbol_diffuse'']"

definition subloop_names :: "string list" where
  "subloop_names = [''skill_walk'', ''nca_tick'', ''nca_fork'', ''eval_theorem'']"

definition char_at_is_digit :: "nat \<Rightarrow> string \<Rightarrow> bool" where
  "char_at_is_digit n s = (case drop n s of c # _ \<Rightarrow> is_digit c | [] \<Rightarrow> False)"

definition coerce_ptr :: "string list \<Rightarrow> string \<Rightarrow> string" where
  "coerce_ptr tools text =
     (let s = strip_space text in
      if has_prefix ''ptr://'' s then s
      else if s = [] then []
      else if s \<in> set tools then kind_prefix ''tool'' @ s
      else if has_suffix ''.py'' s \<and> CHR ''/'' \<notin> set s \<and> \<not> has_part ''..'' s then kind_prefix ''module'' @ s
      else if has_prefix ''port_'' s \<or> has_prefix ''mem_'' s then kind_prefix ''skill'' @ s
      else if s \<in> set family_names then kind_prefix ''family'' @ s
      else if s \<in> set subloop_names then kind_prefix ''subloop'' @ s
      else if s = ''mcpplusplus'' \<or> has_prefix ''mcpplusplus/'' s \<or> has_prefix ''p2p_'' s then
        kind_prefix ''mcpplusplus'' @
          (if has_prefix ''mcpplusplus/'' s then drop (length ''mcpplusplus/'') s
           else if s = ''mcpplusplus'' then ''catalog'' else s)
      else if has_prefix ''LRA-G'' s then kind_prefix ''goal'' @ s
      else if has_prefix ''LRA-S'' s then kind_prefix ''subgoal'' @ s
      else if has_prefix ''LRA-'' s \<and> char_at_is_digit 4 s then kind_prefix ''task'' @ s
      else if has_prefix ''harness.'' s \<or> has_prefix ''codepath/'' s then
        kind_prefix ''codepath'' @ (if has_prefix ''codepath/'' s then drop (length ''codepath/'') s else s)
      else if CHR ''.'' \<in> set s \<and> \<not> has_prefix ''port_'' s then kind_prefix ''theorem'' @ s
      else kind_prefix ''skill'' @ s)"

section \<open>Resolving a pointer\<close>

record ptr_tables =
  pt_memory :: row
  pt_record :: row
  pt_tools :: "string list option"
  pt_subloops :: "string list option"
  pt_catalog :: "string list"

text \<open>\<open>(v or {}).get(k)\<close> and \<open>name in v\<close>.\<close>

definition sub_get :: "pyval \<Rightarrow> string \<Rightarrow> exc + pyval" where
  "sub_get v k = (if truthy v then (case v of PDict d \<Rightarrow> Inr (row_get d k) | _ \<Rightarrow> Inl AttributeErr) else Inr PNone)"

definition key_in :: "string \<Rightarrow> pyval \<Rightarrow> exc + bool" where
  "key_in k v = (if \<not> truthy v then Inr False else case v of
     PDict d \<Rightarrow> Inr (k \<in> fst ` set d) | PList xs \<Rightarrow> Inr (PStr k \<in> set xs) | PStr s \<Rightarrow> Inr (has_part k s) | _ \<Rightarrow> Inl TypeErr)"

definition refused_ptr :: "string \<Rightarrow> row \<Rightarrow> row" where
  "refused_ptr reason fs = [(''ok'', PBool False), (''reason'', PStr reason)] @ fs"

definition string_set :: "string list \<Rightarrow> pyval" where
  "string_set xs = PList (map PStr (sort (remdups xs)))"

definition resolve_kind :: "pylib \<Rightarrow> ptr_tables \<Rightarrow> string \<Rightarrow> string \<Rightarrow> string \<Rightarrow> exc + row" where
  "resolve_kind L T ptr kind name =
     (let base = [(''kind'', PStr kind), (''name'', PStr name), (''ptr'', PStr ptr), (''ok'', PBool True)];
          yes = (\<lambda>fs. Inr (base @ fs)) in
      if kind = ''skill'' then yes [(''allow_skills'', string_set [name, without_port name, ''port_'' @ without_port name])]
      else if kind = ''family'' then yes [(''allow_families'', string_set [name])]
      else if kind = ''theorem'' then
        yes [(''theorem'', PStr name), (''same_record'', PBool (name = row_str L (pt_record T) ''name''))]
      else if kind = ''module'' then
        if CHR ''/'' \<in> set name \<or> has_prefix ''.'' name \<or> \<not> has_suffix ''.py'' name
          then Inr (refused_ptr ''module_not_allowed'' [(''ptr'', PStr ptr)])
          else yes [(''path'', PStr name)]
      else if kind = ''tool'' then
        if (case pt_tools T of None \<Rightarrow> False | Some ts \<Rightarrow> name \<notin> set ts)
          then Inr (refused_ptr ''unknown_tool'' [(''ptr'', PStr ptr), (''name'', PStr name)])
          else yes [(''tool'', PStr name)]
      else if kind = ''cell'' then
        rbind (sub_get (PDict (pt_memory T)) ''nca'') (\<lambda>nca. rbind (sub_get nca ''grid'') (\<lambda>grid.
        rbind (key_in name grid) (\<lambda>known. yes [(''cell'', PStr name), (''known'', PBool known)])))
      else if kind = ''subloop'' then
        if (case pt_subloops T of None \<Rightarrow> False | Some ts \<Rightarrow> name \<notin> set ts)
          then Inr (refused_ptr ''unknown_subloop'' [(''ptr'', PStr ptr), (''name'', PStr name)])
          else yes [(''subloop'', PStr name)]
      else if kind = ''mcpplusplus'' then
        if name \<notin> set (pt_catalog T)
          then Inr (refused_ptr ''unknown_mcpplusplus_tool'' [(''ptr'', PStr ptr), (''name'', PStr name)])
          else yes [(''mcpplusplus'', PStr name), (''protocol'', PStr ''MCP++'')]
      else if kind \<in> {''goal'', ''subgoal'', ''task''} then yes [(kind @ ''_id'', PStr name), (''board'', PBool True)]
      else if kind = ''codepath'' then yes [(''codepath'', PStr name)]
      else yes [])"

definition resolve_ptr :: "pylib \<Rightarrow> ptr_tables \<Rightarrow> string \<Rightarrow> exc + row" where
  "resolve_ptr L T text =
     (let ptr = coerce_ptr (case pt_tools T of None \<Rightarrow> [] | Some ts \<Rightarrow> ts) text; parsed = parse_ptr ptr in
      if \<not> truthy (row_get parsed ''ok'') then Inr parsed
      else resolve_kind L T ptr (py_str L (row_get parsed ''kind'')) (py_str L (row_get parsed ''name'')))"

section \<open>The arguments of a child call\<close>

definition child_arg_keys :: "string list" where
  "child_arg_keys = [''tactics'', ''allow_families'', ''allow_skills'', ''problem'', ''path'', ''tool'', ''mcpplusplus'',
     ''subloop'', ''cell'', ''theorem'', ''ptr'', ''parent_frame_id'', ''tape_window'', ''node'', ''goal_id'', ''subgoal_id'',
     ''task_id'', ''codepath'', ''depends_on'', ''status'']"

text \<open>\<open>sorted(v or [])\<close> for a set or list of strings.\<close>

definition sorted_strings :: "pyval \<Rightarrow> exc + pyval" where
  "sorted_strings v = (if \<not> truthy v then Inr (PList []) else
     rbind (py_iter v) (\<lambda>xs.
     rbind (rmap (\<lambda>x. case x of PStr s \<Rightarrow> Inr s | _ \<Rightarrow> Inl TypeErr) xs) (\<lambda>ss. Inr (PList (map PStr (sort ss))))))"

definition name_or :: "pylib \<Rightarrow> row \<Rightarrow> string \<Rightarrow> string \<Rightarrow> pyval" where
  "name_or L r k name = PStr (if truthy (row_get r k) then py_str L (row_get r k) else name)"

definition kind_args :: "pylib \<Rightarrow> row \<Rightarrow> string \<Rightarrow> string \<Rightarrow> exc + row" where
  "kind_args L r kind name =
     (if kind = ''skill'' then rbind (sorted_strings (row_get r ''allow_skills'')) (\<lambda>v. Inr [(''allow_skills'', v)])
      else if kind = ''family'' then rbind (sorted_strings (row_get r ''allow_families'')) (\<lambda>v. Inr [(''allow_families'', v)])
      else if kind = ''module'' then Inr [(''path'', PStr (row_str L r ''path''))]
      else if kind \<in> {''theorem'', ''tool'', ''subloop'', ''cell'', ''codepath''} then Inr [(kind, name_or L r kind name)]
      else if kind = ''mcpplusplus'' then Inr [(kind, name_or L r kind name), (''protocol'', PStr ''MCP++'')]
      else if kind \<in> {''goal'', ''subgoal'', ''task''} then Inr [(kind @ ''_id'', name_or L r (kind @ ''_id'') name)]
      else Inr [])"

definition head_seq :: "pyval \<Rightarrow> nat \<Rightarrow> exc + pyval list" where
  "head_seq v n = (if truthy v then rbind (py_iter v) (\<lambda>xs. Inr (take n xs)) else Inr [])"

definition child_call_args :: "pylib \<Rightarrow> row \<Rightarrow> row \<Rightarrow> string \<Rightarrow> string \<Rightarrow> pyval list \<Rightarrow> string \<Rightarrow> exc + row" where
  "child_call_args L r parent tactics problem tape parent_id =
     (let name = row_str L r ''name''; kind = row_str L r ''kind'' in
      rbind (head_seq (if tape \<noteq> [] then PList tape else row_get parent ''tape_window'') 16) (\<lambda>win.
      rbind (kind_args L r kind name) (\<lambda>extra.
      Inr (filter (\<lambda>(k, v). (k \<in> {''kind'', ''name'', ''protocol''} \<or> k \<in> set child_arg_keys)
               \<and> v \<notin> {PNone, PStr [], PList []})
         ([(''ptr'', PStr (row_str L r ''ptr'')), (''kind'', PStr kind), (''name'', PStr name),
           (''tactics'', PStr (if tactics \<noteq> [] then tactics else row_str L parent ''tactics'')),
           (''problem'', PStr (if problem \<noteq> [] then problem else row_str L parent ''problem'')),
           (''parent_frame_id'', PStr parent_id), (''tape_window'', PList win),
           (''node'', PStr (if name \<noteq> [] then name else row_str L parent ''node''))] @ extra)))))"

end
