(* ===== verification/CS_Stack.thy ===== *)
theory CS_Stack
  imports CS_Pointers
begin

text \<open>
  The call stack of \<open>jevops/stack.py\<close>. Frames are shared mutable dictionaries: the list of live frames
  and the forest of all frames refer to the same objects, and the code relies on it. A heap is the list
  of the frames created so far, an address is a position in it, and a stack holds addresses only.
  Frames are the ones \<open>call\<close> creates.
\<close>

section \<open>Frames and stacks\<close>

record frame =
  fr_id :: string
  fr_parent :: string
  fr_ptr :: string
  fr_compose :: string
  fr_node :: string
  fr_locals :: row
  fr_children :: "string list"
  fr_return :: "row option"
  fr_live :: bool

type_synonym frame_heap = "frame list"

record call_stack =
  cs_frames :: "nat list"
  cs_forest :: "(string \<times> nat) list"
  cs_count :: nat

definition call_depth_limit :: nat where "call_depth_limit = 3"

definition frame_name :: "nat \<Rightarrow> string" where
  "frame_name n = CHR ''f'' # nat_text n"

text \<open>\<open>CallStack(frames=...)\<close>: the forest holds copies.\<close>

primrec copy_frames :: "nat list \<Rightarrow> frame_heap \<times> (string \<times> nat) list \<Rightarrow> frame_heap \<times> (string \<times> nat) list" where
  "copy_frames [] acc = acc"
| "copy_frames (a # as) acc = copy_frames as
     (if fr_id (fst acc ! a) = [] then acc
      else (fst acc @ [fst acc ! a], dict_set (fr_id (fst acc ! a)) (length (fst acc)) (snd acc)))"

definition make_stack :: "nat list \<Rightarrow> frame_heap \<Rightarrow> frame_heap \<times> call_stack" where
  "make_stack frames h = (let (h1, forest) = copy_frames frames (h, []) in
     (h1, \<lparr>cs_frames = frames, cs_forest = forest, cs_count = length frames\<rparr>))"

definition stack_to_dict :: "call_stack \<Rightarrow> nat list \<times> (string \<times> nat) list" where
  "stack_to_dict s = (cs_frames s, cs_forest s)"

definition stack_from_dict :: "nat list \<times> (string \<times> nat) list \<Rightarrow> frame_heap \<Rightarrow> frame_heap \<times> call_stack" where
  "stack_from_dict d h = (let (h1, s) = make_stack (fst d) h in
     (h1, if snd d = [] then s else s\<lparr>cs_forest := snd d\<rparr>))"

section \<open>Looking around\<close>

definition stack_depth :: "call_stack \<Rightarrow> nat" where
  "stack_depth s = length (cs_frames s)"

definition stack_top :: "call_stack \<Rightarrow> nat option" where
  "stack_top s = (if cs_frames s = [] then None else Some (List.last (cs_frames s)))"

definition stack_tops :: "int \<Rightarrow> call_stack \<Rightarrow> nat list" where
  "stack_tops n s = (if n \<le> 0 then [] else drop (length (cs_frames s) - nat n) (cs_frames s))"

definition get_frame :: "call_stack \<Rightarrow> string \<Rightarrow> nat option" where
  "get_frame s fid = map_of (cs_forest s) fid"

text \<open>\<open>self.get(frame_id) if frame_id else self.top()\<close>.\<close>

definition frame_or_top :: "call_stack \<Rightarrow> string \<Rightarrow> nat option" where
  "frame_or_top s fid = (if fid = [] then stack_top s else get_frame s fid)"

definition parent_of :: "frame_heap \<Rightarrow> call_stack \<Rightarrow> string \<Rightarrow> nat option" where
  "parent_of h s fid = (case frame_or_top s fid of None \<Rightarrow> None
     | Some a \<Rightarrow> if fr_parent (h ! a) = [] then None else get_frame s (fr_parent (h ! a)))"

definition children_of :: "frame_heap \<Rightarrow> call_stack \<Rightarrow> string \<Rightarrow> nat list" where
  "children_of h s fid = (case frame_or_top s fid of None \<Rightarrow> []
     | Some a \<Rightarrow>
         (let known = List.map_filter (get_frame s) (fr_children (h ! a)) in
          if known \<noteq> [] then known
          else filter (\<lambda>b. fr_parent (h ! b) = fr_id (h ! a)) (map snd (cs_forest s))))"

lemma parent_of_forest: "parent_of h s fid = Some b \<Longrightarrow> b \<in> snd ` set (cs_forest s)"
  by (auto simp: parent_of_def get_frame_def split: option.splits if_splits dest!: map_of_SomeD intro!: image_eqI)

definition forest_ids :: "frame_heap \<Rightarrow> call_stack \<Rightarrow> string set" where
  "forest_ids h s = (\<lambda>a. fr_id (h ! a)) ` snd ` set (cs_forest s)"

function ancestor_loop :: "frame_heap \<Rightarrow> call_stack \<Rightarrow> nat option \<Rightarrow> string list \<Rightarrow> nat list" where
  "ancestor_loop h s cur seen = (case cur of None \<Rightarrow> []
     | Some a \<Rightarrow> if fr_id (h ! a) \<in> set seen then []
         else a # ancestor_loop h s (parent_of h s (fr_id (h ! a))) (fr_id (h ! a) # seen))"
  by pat_completeness auto
termination
proof (relation "measure (\<lambda>(h, s, cur, seen). card (forest_ids h s \<union> (\<lambda>a. fr_id (h ! a)) ` set_option cur - set seen))")
  fix h :: frame_heap and s :: call_stack and cur :: "nat option" and seen :: "string list" and a
  assume cur: "cur = Some a" and new: "fr_id (h ! a) \<notin> set seen"
  let ?id = "\<lambda>a. fr_id (h ! a)"
  let ?old = "forest_ids h s \<union> ?id ` set_option cur - set seen"
  let ?new = "forest_ids h s \<union> ?id ` set_option (parent_of h s (?id a)) - set (?id a # seen)"
  have "?id ` set_option (parent_of h s (?id a)) \<subseteq> forest_ids h s"
    using parent_of_forest by (auto simp: forest_ids_def)
  then have "?new \<subset> ?old" using new cur by auto
  then have "card ?new < card ?old" by (intro psubset_card_mono) (auto simp: forest_ids_def)
  then show "((h, s, parent_of h s (?id a), ?id a # seen), h, s, cur, seen)
    \<in> measure (\<lambda>(h, s, cur, seen). card (forest_ids h s \<union> (\<lambda>a. fr_id (h ! a)) ` set_option cur - set seen))" by simp
qed auto

declare ancestor_loop.simps [simp del]

definition ancestors_of :: "frame_heap \<Rightarrow> call_stack \<Rightarrow> string \<Rightarrow> nat list" where
  "ancestors_of h s fid = ancestor_loop h s (parent_of h s fid) []"

text \<open>\<open>walk\<close>: a frame, then the walks of its children, each frame once. A name that is not in the forest
  restarts the walk at all roots, so the first argument bounds the nesting; \<open>None\<close> is Python's
  recursion limit.\<close>

primrec walk_all :: "(string \<Rightarrow> string list \<Rightarrow> (nat list \<times> string list) option) \<Rightarrow> string list \<Rightarrow> string list
    \<Rightarrow> (nat list \<times> string list) option" where
  "walk_all f [] seen = Some ([], seen)"
| "walk_all f (i # ids) seen = Option.bind (f i seen) (\<lambda>(rows, seen1).
     map_option (\<lambda>(rest, seen2). (rows @ rest, seen2)) (walk_all f ids seen1))"

definition walk_roots :: "frame_heap \<Rightarrow> call_stack \<Rightarrow> nat list" where
  "walk_roots h s = (let roots = filter (\<lambda>a. fr_parent (h ! a) = []) (map snd (cs_forest s)) in
     if roots = [] \<and> cs_frames s \<noteq> [] then [hd (cs_frames s)] else roots)"

primrec walk_from :: "nat \<Rightarrow> frame_heap \<Rightarrow> call_stack \<Rightarrow> string \<Rightarrow> string list \<Rightarrow> (nat list \<times> string list) option" where
  "walk_from 0 h s fid seen = None"
| "walk_from (Suc n) h s fid seen =
     (case (if fid = [] then None else get_frame s fid) of
        None \<Rightarrow> walk_all (walk_from n h s) (map (\<lambda>a. fr_id (h ! a)) (walk_roots h s)) seen
      | Some a \<Rightarrow>
          (let me = fr_id (h ! a) in
           if me = [] \<or> me \<in> set seen then Some ([], seen)
           else map_option (\<lambda>(rows, seen1). (a # rows, seen1))
             (walk_all (walk_from n h s) (map (\<lambda>b. fr_id (h ! b)) (children_of h s me)) (me # seen))))"

definition walk_stack :: "nat \<Rightarrow> frame_heap \<Rightarrow> call_stack \<Rightarrow> string \<Rightarrow> nat list option" where
  "walk_stack limit h s fid = map_option fst (walk_from limit h s fid [])"

section \<open>Changing the stack\<close>

definition upd_frame :: "nat \<Rightarrow> (frame \<Rightarrow> frame) \<Rightarrow> frame_heap \<Rightarrow> frame_heap" where
  "upd_frame a f h = h[a := f (h ! a)]"

definition set_local :: "string \<Rightarrow> pyval \<Rightarrow> string \<Rightarrow> frame_heap \<times> call_stack \<Rightarrow> frame_heap \<times> call_stack" where
  "set_local k v fid hs = (case hs of (h, s) \<Rightarrow>
     (case frame_or_top s fid of None \<Rightarrow> (h, s)
      | Some a \<Rightarrow>
          (let ls = dict_set k v (fr_locals (h ! a)); h1 = upd_frame a (\<lambda>f. f\<lparr>fr_locals := ls\<rparr>) h in
           case stack_top s of None \<Rightarrow> (h1, s)
           | Some b \<Rightarrow> ((if fr_id (h1 ! b) = fr_id (h1 ! a) then upd_frame b (\<lambda>f. f\<lparr>fr_locals := ls\<rparr>) h1 else h1), s))))"

definition get_local :: "string \<Rightarrow> pyval \<Rightarrow> string \<Rightarrow> frame_heap \<Rightarrow> call_stack \<Rightarrow> pyval" where
  "get_local k v fid h s = (case frame_or_top s fid of None \<Rightarrow> v | Some a \<Rightarrow> get_default (fr_locals (h ! a)) k v)"

datatype call_answer = CallRefused string string | Called nat row

text \<open>The argument bag of the child of frame \<open>parent\<close>.\<close>

definition bound_locals :: "pylib \<Rightarrow> string \<Rightarrow> string \<Rightarrow> row \<Rightarrow> row \<Rightarrow> frame_heap \<Rightarrow> nat option \<Rightarrow> exc + row" where
  "bound_locals L ptr node ls resolved h parent =
     (let plocals = (case parent of None \<Rightarrow> [] | Some a \<Rightarrow> fr_locals (h ! a));
          pid = (case parent of None \<Rightarrow> [] | Some a \<Rightarrow> fr_id (h ! a)) in
      rbind (row_items ls ''tape_window'') (\<lambda>tape.
      rbind (child_call_args L
        (if resolved \<noteq> [] then resolved else [(''ptr'', PStr ptr), (''kind'', PStr []), (''name'', PStr node)])
        plocals (if truthy (row_get ls ''tactics'') then row_str L ls ''tactics'' else row_str L plocals ''tactics'')
        (row_str L ls ''problem'') tape pid) (\<lambda>bound.
      Inr (foldl (\<lambda>d (k, v). dict_set k v d) bound
        (filter (\<lambda>(k, v). k \<in> set child_arg_keys \<or> k \<in> {''tactics'', ''problem''}) ls)))))"

text \<open>The new frame is entered under its parent, which the stack and the forest share.\<close>

definition enter_child :: "string \<Rightarrow> nat option \<Rightarrow> (string \<times> nat) list \<Rightarrow> frame_heap \<Rightarrow> frame_heap" where
  "enter_child fid parent forest h = (case parent of None \<Rightarrow> h
     | Some a \<Rightarrow>
         (let kids = fr_children (h ! a) @ [fid]; h1 = upd_frame a (\<lambda>f. f\<lparr>fr_children := kids\<rparr>) h in
          case map_of forest (fr_id (h ! a)) of None \<Rightarrow> h1
          | Some b \<Rightarrow> upd_frame b (\<lambda>f. f\<lparr>fr_children := kids\<rparr>) h1))"

definition stack_call :: "pylib \<Rightarrow> string \<Rightarrow> string \<Rightarrow> string \<Rightarrow> row \<Rightarrow> row \<Rightarrow> frame_heap \<times> call_stack
    \<Rightarrow> exc + call_answer \<times> frame_heap \<times> call_stack" where
  "stack_call L ptr compose node ls resolved hs = (case hs of (h, s) \<Rightarrow>
     if call_depth_limit \<le> stack_depth s then Inr (CallRefused ''max_depth'' ptr, h, s)
     else rbind (bound_locals L ptr node ls resolved h (stack_top s)) (\<lambda>bound.
       (let fid = frame_name (Suc (cs_count s)); h1 = enter_child fid (stack_top s) (cs_forest s) h;
            new = \<lparr>fr_id = fid, fr_parent = (case stack_top s of None \<Rightarrow> [] | Some a \<Rightarrow> fr_id (h ! a)), fr_ptr = ptr,
                   fr_compose = compose, fr_node = (if node \<noteq> [] then node else ptr), fr_locals = bound, fr_children = [],
                   fr_return = None, fr_live = True\<rparr>
        in Inr (Called (length h1) bound, h1 @ [new],
             \<lparr>cs_frames = cs_frames s @ [length h1], cs_forest = dict_set fid (length h1) (cs_forest s),
              cs_count = Suc (cs_count s)\<rparr>))))"

datatype ret_answer = RetRefused string row | Returned nat "nat option" row

definition stack_ret :: "row \<Rightarrow> frame_heap \<times> call_stack \<Rightarrow> ret_answer \<times> frame_heap \<times> call_stack" where
  "stack_ret out hs = (case hs of (h, s) \<Rightarrow>
     (case stack_top s of None \<Rightarrow> (RetRefused ''empty_stack'' out, h, s)
      | Some a \<Rightarrow>
          (let h1 = upd_frame a (\<lambda>f. f\<lparr>fr_return := Some out, fr_live := False\<rparr>) h;
               s1 = s\<lparr>cs_frames := butlast (cs_frames s), cs_forest := dict_set (fr_id (h ! a)) a (cs_forest s)\<rparr>
           in (Returned a (stack_top s1) out, h1, s1))))"

end
