(* ===== verification/CS_Correct.thy ===== *)
theory CS_Correct
  imports CS_Stack
begin

text \<open>
  The call stack of \<open>jevops/stack.py\<close> on a stack that starts empty and is used through its operations:
  the discipline of frames, forest, names and flags (\<open>stack_ok\<close>), and what \<open>walk\<close> and \<open>ancestors\<close> then
  return.
\<close>

section \<open>Names\<close>

lemma nat_text_unique: "nat_text m = nat_text n \<Longrightarrow> m = n"
proof (induction m arbitrary: n rule: less_induct)
  case (less m)
  have digit: "(of_char (char_of (48 + k mod 10) :: char) :: nat) = 48 + k mod 10" for k :: nat
    by simp
  have shape: "nat_text k = (if k < 10 then [] else nat_text (k div 10)) @ [char_of (48 + k mod 10)]" for k
    by (subst nat_text.simps) simp
  have nonempty: "nat_text k \<noteq> []" for k by (subst shape) simp
  have "(if m < 10 then [] else nat_text (m div 10)) = (if n < 10 then [] else nat_text (n div 10))"
    and last: "char_of (48 + m mod 10) = (char_of (48 + n mod 10) :: char)"
    using less.prems shape [of m] shape [of n] by simp_all
  then have "m div 10 = n div 10" using less.IH [of "m div 10" "n div 10"] nonempty [of "m div 10"] nonempty [of "n div 10"]
    by (simp split: if_split_asm)
  moreover have "(of_char (char_of (48 + m mod 10) :: char) :: nat) = of_char (char_of (48 + n mod 10) :: char)" using last by simp
  then have "m mod 10 = n mod 10" unfolding digit by simp
  ultimately show ?case by (metis div_mult_mod_eq)
qed

lemma frame_name_eq [simp]: "frame_name m = frame_name n \<longleftrightarrow> m = n"
  using nat_text_unique by (auto simp: frame_name_def)

lemma frame_name_ne [simp]: "frame_name n \<noteq> []"
  by (simp add: frame_name_def)

section \<open>The discipline\<close>

definition name_of :: "nat \<Rightarrow> string" where
  "name_of i = frame_name (Suc i)"

definition kids :: "frame_heap \<Rightarrow> nat \<Rightarrow> nat list" where
  "kids h j = filter (\<lambda>i. fr_parent (h ! i) = name_of j) [0..<length h]"

definition stack_ok :: "frame_heap \<Rightarrow> call_stack \<Rightarrow> bool" where
  "stack_ok h s \<longleftrightarrow>
     cs_count s = length h \<and> cs_forest s = map (\<lambda>i. (name_of i, i)) [0..<length h]
     \<and> (\<forall>i < length h. fr_id (h ! i) = name_of i)
     \<and> sorted_wrt (<) (cs_frames s) \<and> (\<forall>i \<in> set (cs_frames s). i < length h) \<and> length (cs_frames s) \<le> call_depth_limit
     \<and> (\<forall>i < length h. (fr_live (h ! i) \<longleftrightarrow> i \<in> set (cs_frames s)) \<and> (fr_return (h ! i) = None \<longleftrightarrow> i \<in> set (cs_frames s)))
     \<and> (\<forall>k < length (cs_frames s). fr_parent (h ! (cs_frames s ! k)) = (if k = 0 then [] else name_of (cs_frames s ! (k - 1))))
     \<and> (\<forall>j < length h. fr_children (h ! j) = map name_of (kids h j))
     \<and> (\<exists>level. (\<forall>k < length (cs_frames s). level (cs_frames s ! k) = Suc k)
          \<and> (\<forall>i < length h. level i \<le> call_depth_limit \<and>
               (fr_parent (h ! i) = [] \<and> level i = 1 \<or> (\<exists>j < i. fr_parent (h ! i) = name_of j \<and> level i = Suc (level j)))))"

lemma name_of_eq [simp]: "name_of i = name_of j \<longleftrightarrow> i = j"
  by (simp add: name_of_def)

lemma name_of_ne [simp]: "name_of i \<noteq> []" "[] \<noteq> name_of i"
  by (simp_all add: name_of_def frame_name_def)

datatype stack_op = OpCall string string string row row | OpReturn row | OpLocal string pyval string

fun stack_step :: "pylib \<Rightarrow> stack_op \<Rightarrow> frame_heap \<times> call_stack \<Rightarrow> exc + frame_heap \<times> call_stack" where
  "stack_step L (OpCall ptr compose node ls resolved) hs = rbind (stack_call L ptr compose node ls resolved hs) (\<lambda>r. Inr (snd r))"
| "stack_step L (OpReturn out) hs = Inr (snd (stack_ret out hs))"
| "stack_step L (OpLocal k v fid) hs = Inr (set_local k v fid hs)"

primrec stack_run :: "pylib \<Rightarrow> stack_op list \<Rightarrow> frame_heap \<times> call_stack \<Rightarrow> exc + frame_heap \<times> call_stack" where
  "stack_run L [] hs = Inr hs"
| "stack_run L (p # ps) hs = rbind (stack_step L p hs) (stack_run L ps)"

definition empty_stack :: "frame_heap \<times> call_stack" where
  "empty_stack = make_stack [] []"

lemma empty_stack_ok: "stack_ok (fst empty_stack) (snd empty_stack)"
  by (simp add: empty_stack_def make_stack_def stack_ok_def)

lemma forest_lookup: "stack_ok h s \<Longrightarrow> get_frame s (name_of i) = (if i < length h then Some i else None)"
  by (auto simp: stack_ok_def get_frame_def map_of_eq_None_iff intro!: map_of_is_SomeI)
    (auto simp: distinct_map inj_on_def)

lemma top_frame:
  assumes "stack_ok h s" and "stack_top s = Some a"
  shows "a < length h" and "fr_id (h ! a) = name_of a" and "cs_frames s = butlast (cs_frames s) @ [a]"
  using assms by (auto simp: stack_ok_def stack_top_def split: if_splits)

lemma frame_lookup: "stack_ok h s \<Longrightarrow> frame_or_top s fid = Some a \<Longrightarrow> a < length h"
  by (auto simp: frame_or_top_def get_frame_def stack_ok_def stack_top_def split: if_splits dest!: map_of_SomeD)

text \<open>Changing the local variables of a frame changes nothing the discipline speaks of.\<close>

lemma upd_locals_ok: "stack_ok h s \<Longrightarrow> stack_ok (upd_frame a (\<lambda>f. f\<lparr>fr_locals := ls\<rparr>) h) s"
proof (cases "a < length h")
  case True
  assume ok: "stack_ok h s"
  have same: "P (upd_frame a (\<lambda>f. f\<lparr>fr_locals := ls\<rparr>) h ! i) = P (h ! i)" if "\<And>f. P (f\<lparr>fr_locals := ls\<rparr>) = P f" for P :: "frame \<Rightarrow> 'x" and i
    using that True by (cases "i = a") (simp_all add: upd_frame_def)
  have len: "length (upd_frame a (\<lambda>f. f\<lparr>fr_locals := ls\<rparr>) h) = length h" by (simp add: upd_frame_def)
  have "kids (upd_frame a (\<lambda>f. f\<lparr>fr_locals := ls\<rparr>) h) = kids h"
    by (rule ext) (simp add: kids_def len same)
  then show ?thesis using ok by (simp add: stack_ok_def len same)
qed (simp add: upd_frame_def list_update_beyond)

lemma set_local_ok: "stack_ok h s \<Longrightarrow> set_local k v fid (h, s) = (h', s') \<Longrightarrow> stack_ok h' s'"
  by (auto simp: set_local_def Let_def split: option.splits if_splits intro!: upd_locals_ok)

lemma update_append_new: "k \<notin> fst ` set d \<Longrightarrow> AList.update k v d = d @ [(k, v)]"
  by (induction d) auto

lemma dict_set_same: "map_of d k = Some v \<Longrightarrow> dict_set k v d = d"
  unfolding dict_set_def by (induction d) (auto split: if_splits)

lemma stack_okD:
  assumes "stack_ok h s"
  shows "cs_count s = length h" and "cs_forest s = map (\<lambda>i. (name_of i, i)) [0..<length h]"
    and "\<And>i. i < length h \<Longrightarrow> fr_id (h ! i) = name_of i"
    and "sorted_wrt (<) (cs_frames s)" and "\<And>i. i \<in> set (cs_frames s) \<Longrightarrow> i < length h" and "length (cs_frames s) \<le> call_depth_limit"
    and "\<And>i. i < length h \<Longrightarrow> fr_live (h ! i) \<longleftrightarrow> i \<in> set (cs_frames s)"
    and "\<And>i. i < length h \<Longrightarrow> fr_return (h ! i) = None \<longleftrightarrow> i \<in> set (cs_frames s)"
    and "\<And>k. k < length (cs_frames s) \<Longrightarrow> fr_parent (h ! (cs_frames s ! k)) = (if k = 0 then [] else name_of (cs_frames s ! (k - 1)))"
    and "\<And>j. j < length h \<Longrightarrow> fr_children (h ! j) = map name_of (kids h j)"
  using assms unfolding stack_ok_def by blast+

lemma stack_ok_level:
  assumes "stack_ok h s"
  obtains level where "\<And>k. k < length (cs_frames s) \<Longrightarrow> level (cs_frames s ! k) = Suc k"
    and "\<And>i. i < length h \<Longrightarrow> level i \<le> call_depth_limit"
    and "\<And>i. i < length h \<Longrightarrow> fr_parent (h ! i) = [] \<and> level i = 1 \<or> (\<exists>j < i. fr_parent (h ! i) = name_of j \<and> level i = Suc (level j))"
  using assms unfolding stack_ok_def by blast

lemma stack_okI:
  assumes "cs_count s = length h" "cs_forest s = map (\<lambda>i. (name_of i, i)) [0..<length h]"
    "\<And>i. i < length h \<Longrightarrow> fr_id (h ! i) = name_of i"
    "sorted_wrt (<) (cs_frames s)" "\<And>i. i \<in> set (cs_frames s) \<Longrightarrow> i < length h" "length (cs_frames s) \<le> call_depth_limit"
    "\<And>i. i < length h \<Longrightarrow> fr_live (h ! i) \<longleftrightarrow> i \<in> set (cs_frames s)"
    "\<And>i. i < length h \<Longrightarrow> fr_return (h ! i) = None \<longleftrightarrow> i \<in> set (cs_frames s)"
    "\<And>k. k < length (cs_frames s) \<Longrightarrow> fr_parent (h ! (cs_frames s ! k)) = (if k = 0 then [] else name_of (cs_frames s ! (k - 1)))"
    "\<And>j. j < length h \<Longrightarrow> fr_children (h ! j) = map name_of (kids h j)"
    "\<And>k. k < length (cs_frames s) \<Longrightarrow> level (cs_frames s ! k) = Suc k" "\<And>i. i < length h \<Longrightarrow> level i \<le> call_depth_limit"
    "\<And>i. i < length h \<Longrightarrow> fr_parent (h ! i) = [] \<and> level i = 1 \<or> (\<exists>j < i. fr_parent (h ! i) = name_of j \<and> level i = Suc (level j))"
  shows "stack_ok h s"
  unfolding stack_ok_def using assms by blast

lemma ret_ok:
  assumes ok: "stack_ok h s" and run: "stack_ret out (h, s) = (r, h', s')"
  shows "stack_ok h' s'"
proof (cases "stack_top s")
  case None
  then show ?thesis using ok run by (simp add: stack_ret_def)
next
  case (Some a)
  note t = top_frame [OF ok Some] and O = stack_okD [OF ok]
  obtain fs where fs: "cs_frames s = fs @ [a]" using t(3) by blast
  have forest: "dict_set (fr_id (h ! a)) a (cs_forest s) = cs_forest s"
  proof -
    have "map_of (cs_forest s) (name_of a) = Some a" using forest_lookup [OF ok, of a] t(1) by (simp add: get_frame_def)
    then show ?thesis unfolding t(2) by (rule dict_set_same)
  qed
  have h': "h' = upd_frame a (\<lambda>f. f\<lparr>fr_return := Some out, fr_live := False\<rparr>) h"
    and s': "cs_frames s' = fs" "cs_forest s' = cs_forest s" "cs_count s' = cs_count s"
    using run fs forest by (auto simp: stack_ret_def Some Let_def)
  have nth: "fr_id (h' ! i) = fr_id (h ! i)" "fr_parent (h' ! i) = fr_parent (h ! i)" "fr_children (h' ! i) = fr_children (h ! i)"
    "fr_live (h' ! i) = (fr_live (h ! i) \<and> i \<noteq> a)" "fr_return (h' ! i) = None \<longleftrightarrow> fr_return (h ! i) = None \<and> i \<noteq> a" for i
    using t(1) by (auto simp: h' upd_frame_def nth_list_update)
  have len: "length h' = length h" by (simp add: h' upd_frame_def)
  have kids: "kids h' = kids h" by (rule ext) (simp add: kids_def len nth)
  have sorted: "sorted_wrt (<) fs" "a \<notin> set fs" using O(4) by (auto simp: fs sorted_wrt_append)
  obtain level where level: "\<And>k. k < length (cs_frames s) \<Longrightarrow> level (cs_frames s ! k) = Suc k"
    "\<And>i. i < length h \<Longrightarrow> level i \<le> call_depth_limit"
    "\<And>i. i < length h \<Longrightarrow> fr_parent (h ! i) = [] \<and> level i = 1 \<or> (\<exists>j < i. fr_parent (h ! i) = name_of j \<and> level i = Suc (level j))"
    using stack_ok_level [OF ok] by blast
  show ?thesis
  proof (rule stack_okI [where level = level])
    show "fr_live (h' ! i) \<longleftrightarrow> i \<in> set (cs_frames s')" "fr_return (h' ! i) = None \<longleftrightarrow> i \<in> set (cs_frames s')" if "i < length h'" for i
      using O(7,8) [of i] that sorted(2) by (auto simp: len nth s' fs)
    show "fr_parent (h' ! (cs_frames s' ! k)) = (if k = 0 then [] else name_of (cs_frames s' ! (k - 1)))" if "k < length (cs_frames s')" for k
      using O(9) [of k] that by (simp add: nth s' fs nth_append split: if_split_asm)
    show "level (cs_frames s' ! k) = Suc k" if "k < length (cs_frames s')" for k
      using level(1) [of k] that by (simp add: s' fs nth_append)
    show "length (cs_frames s') \<le> call_depth_limit" using O(6) by (simp add: s' fs)
  qed (use O level(2,3) sorted in \<open>simp_all add: len nth kids s' fs\<close>)
qed

lemma call_ok:
  assumes ok: "stack_ok h s" and run: "stack_call L ptr compose node ls resolved (h, s) = Inr (r, h', s')"
  shows "stack_ok h' s'"
proof (cases "call_depth_limit \<le> stack_depth s")
  case True
  then show ?thesis using ok run by (simp add: stack_call_def)
next
  case room: False
  note O = stack_okD [OF ok]
  let ?n = "length h" and ?top = "stack_top s"
  define fid where "fid = name_of ?n"
  define par where "par = (case ?top of None \<Rightarrow> [] | Some a \<Rightarrow> fr_id (h ! a))"
  have fid: "frame_name (Suc (cs_count s)) = fid" using O(1) by (simp add: fid_def name_of_def)
  have h1: "length (enter_child fid ?top (cs_forest s) h) = ?n" by (simp add: enter_child_def upd_frame_def Let_def split: option.splits)
  obtain bound where h': "h' = enter_child fid ?top (cs_forest s) h @ [\<lparr>fr_id = fid, fr_parent = par, fr_ptr = ptr,
         fr_compose = compose, fr_node = (if node \<noteq> [] then node else ptr), fr_locals = bound, fr_children = [], fr_return = None, fr_live = True\<rparr>]"
    and s': "s' = \<lparr>cs_frames = cs_frames s @ [?n], cs_forest = dict_set fid ?n (cs_forest s), cs_count = Suc (cs_count s)\<rparr>"
    using run room by (auto simp: stack_call_def res_simps Let_def fid h1 par_def)
  have len: "length h' = Suc ?n" by (simp add: h' h1)
  have entered: "enter_child fid ?top (cs_forest s) h = (case ?top of None \<Rightarrow> h
      | Some a \<Rightarrow> upd_frame a (\<lambda>f. f\<lparr>fr_children := fr_children f @ [fid]\<rparr>) h)"
  proof (cases ?top)
    case (Some a)
    note t = top_frame [OF ok Some]
    have "map_of (cs_forest s) (fr_id (h ! a)) = Some a" using forest_lookup [OF ok, of a] t by (simp add: get_frame_def)
    then show ?thesis using t(1) by (simp add: enter_child_def Some Let_def upd_frame_def)
  qed (simp add: enter_child_def)
  have old: "fr_id (h' ! i) = fr_id (h ! i)" "fr_parent (h' ! i) = fr_parent (h ! i)" "fr_live (h' ! i) = fr_live (h ! i)"
    "fr_return (h' ! i) = fr_return (h ! i)"
    "fr_children (h' ! i) = fr_children (h ! i) @ (if ?top = Some i then [fid] else [])" if "i < ?n" for i
  proof -
    have "h' ! i = enter_child fid ?top (cs_forest s) h ! i" using that unfolding h' by (simp add: nth_append h1)
    then show "fr_id (h' ! i) = fr_id (h ! i)" "fr_parent (h' ! i) = fr_parent (h ! i)" "fr_live (h' ! i) = fr_live (h ! i)"
      "fr_return (h' ! i) = fr_return (h ! i)" "fr_children (h' ! i) = fr_children (h ! i) @ (if ?top = Some i then [fid] else [])"
      using that top_frame(1) [OF ok] unfolding entered
      by (cases ?top; auto simp: upd_frame_def nth_list_update)+
  qed
  have new: "h' ! ?n = \<lparr>fr_id = fid, fr_parent = par, fr_ptr = ptr, fr_compose = compose, fr_node = (if node \<noteq> [] then node else ptr),
      fr_locals = bound, fr_children = [], fr_return = None, fr_live = True\<rparr>"
    by (simp add: h' nth_append h1)
  have par: "par = name_of j \<longleftrightarrow> ?top = Some j" if "j < ?n" for j
    using top_frame [OF ok] by (auto simp: par_def split: option.splits)
  have par_empty: "par = (if cs_frames s = [] then [] else name_of (List.last (cs_frames s)))"
    using top_frame [OF ok] by (auto simp: par_def stack_top_def)
  have kids: "kids h' j = kids h j @ (if ?top = Some j then [?n] else [])" if "j < ?n" for j
  proof -
    have "kids h' j = filter (\<lambda>i. fr_parent (h' ! i) = name_of j) [0..<?n] @ (if par = name_of j then [?n] else [])"
      by (simp add: kids_def len new)
    also have "filter (\<lambda>i. fr_parent (h' ! i) = name_of j) [0..<?n] = kids h j"
      unfolding kids_def by (rule filter_cong) (simp_all add: old)
    finally show ?thesis using par [OF that] by simp
  qed
  obtain level where level: "\<And>k. k < length (cs_frames s) \<Longrightarrow> level (cs_frames s ! k) = Suc k"
    "\<And>i. i < ?n \<Longrightarrow> level i \<le> call_depth_limit"
    "\<And>i. i < ?n \<Longrightarrow> fr_parent (h ! i) = [] \<and> level i = 1 \<or> (\<exists>j < i. fr_parent (h ! i) = name_of j \<and> level i = Suc (level j))"
    using stack_ok_level [OF ok] by blast
  have young: "par \<noteq> name_of ?n" "\<And>i. i < ?n \<Longrightarrow> fr_parent (h ! i) \<noteq> name_of ?n"
  proof -
    have "List.last (cs_frames s) < ?n" if "cs_frames s \<noteq> []" using O(5) last_in_set [OF that] by blast
    then show "par \<noteq> name_of ?n" using par_empty by (cases "cs_frames s = []") auto
    show "fr_parent (h ! i) \<noteq> name_of ?n" if "i < ?n" for i using level(3) [OF that] that by auto
  qed
  have kids_new: "kids h' ?n = []" using young by (auto simp: kids_def len filter_empty_conv less_Suc_eq old new)
  have forest: "cs_forest s' = map (\<lambda>i. (name_of i, i)) [0..<Suc ?n]"
  proof -
    have "dict_set (name_of n) n (map (\<lambda>i. (name_of i, i)) [0..<m]) = map (\<lambda>i. (name_of i, i)) [0..<m] @ [(name_of n, n)]" if "m \<le> n" for m n
      unfolding dict_set_def using that by (intro update_append_new) auto
    then show ?thesis using O(2) by (simp add: s' fid_def)
  qed
  have frames: "cs_frames s' = cs_frames s @ [?n]" by (simp add: s')
  let ?level = "level(?n := Suc (stack_depth s))"
  show ?thesis
  proof (rule stack_okI [where level = ?level])
    show "cs_count s' = length h'" by (simp add: s' len O(1))
    show "cs_forest s' = map (\<lambda>i. (name_of i, i)) [0..<length h']" by (simp only: forest len)
    show "fr_id (h' ! i) = name_of i" if "i < length h'" for i
      using that O(3) by (cases "i = ?n") (simp_all add: len old new fid_def)
    show "sorted_wrt (<) (cs_frames s')" using O(4,5) by (auto simp: frames sorted_wrt_append)
    show "i < length h'" if "i \<in> set (cs_frames s')" for i using that O(5) by (auto simp: frames len less_Suc_eq)
    show "length (cs_frames s') \<le> call_depth_limit" using room by (simp add: frames stack_depth_def)
    show "fr_live (h' ! i) \<longleftrightarrow> i \<in> set (cs_frames s')" "fr_return (h' ! i) = None \<longleftrightarrow> i \<in> set (cs_frames s')" if "i < length h'" for i
      using that O(7,8) [of i] by (cases "i = ?n"; simp add: len old new frames)+
    show "fr_children (h' ! j) = map name_of (kids h' j)" if "j < length h'" for j
      using that O(10) [of j] by (cases "j = ?n") (simp_all add: len old new kids kids_new fid_def)
    show "fr_parent (h' ! (cs_frames s' ! k)) = (if k = 0 then [] else name_of (cs_frames s' ! (k - 1)))" if "k < length (cs_frames s')" for k
    proof (cases "k = length (cs_frames s)")
      case True
      then show ?thesis by (simp add: frames new par_empty nth_append last_conv_nth)
    next
      case False
      then have k: "k < length (cs_frames s)" "k - 1 < length (cs_frames s)" using that by (simp_all add: frames)
      then show ?thesis using O(9) [OF k(1)] O(5) [of "cs_frames s ! k"] by (simp add: frames nth_append old)
    qed
    show "?level (cs_frames s' ! k) = Suc k" if "k < length (cs_frames s')" for k
    proof (cases "k = length (cs_frames s)")
      case True
      then show ?thesis by (simp add: frames stack_depth_def)
    next
      case False
      then have k: "k < length (cs_frames s)" using that by (simp add: frames)
      then have "cs_frames s ! k \<noteq> ?n" using O(5) [of "cs_frames s ! k"] by simp
      then show ?thesis using level(1) [OF k] k by (simp add: frames nth_append)
    qed
    show "?level i \<le> call_depth_limit" if "i < length h'" for i using that level(2) room by (auto simp: len)
    show "fr_parent (h' ! i) = [] \<and> ?level i = 1 \<or> (\<exists>j < i. fr_parent (h' ! i) = name_of j \<and> ?level i = Suc (?level j))"
      if "i < length h'" for i
    proof (cases "i = ?n")
      case True
      show ?thesis
      proof (cases "cs_frames s = []")
        case False
        let ?k = "length (cs_frames s) - 1"
        have a: "List.last (cs_frames s) = cs_frames s ! ?k" using False by (rule last_conv_nth)
        have "List.last (cs_frames s) < ?n" using O(5) False by simp
        moreover have "level (List.last (cs_frames s)) = length (cs_frames s)" using level(1) [of ?k] False by (simp add: a)
        ultimately show ?thesis using False by (auto simp: True new par_empty stack_depth_def)
      qed (simp add: True new par_empty stack_depth_def)
    next
      case False
      then have i: "i < ?n" using that by (simp add: len)
      show ?thesis
      proof (cases "fr_parent (h ! i) = []")
        case True
        then show ?thesis using level(3) [OF i] i by (simp add: old)
      next
        case False
        then obtain j where "j < i" "fr_parent (h ! i) = name_of j" "level i = Suc (level j)" using level(3) [OF i] by blast
        then show ?thesis using i by (intro disjI2 exI [of _ j]) (simp add: old)
      qed
    qed
  qed
qed

lemma step_ok: "stack_ok h s \<Longrightarrow> stack_step L p (h, s) = Inr (h', s') \<Longrightarrow> stack_ok h' s'"
proof (cases p)
  case (OpCall ptr compose node ls resolved)
  assume "stack_ok h s" and "stack_step L p (h, s) = Inr (h', s')"
  then show ?thesis by (auto simp: OpCall res_simps intro: call_ok)
next
  case (OpReturn out)
  assume "stack_ok h s" and "stack_step L p (h, s) = Inr (h', s')"
  then show ?thesis by (cases "stack_ret out (h, s)") (auto simp: OpReturn intro: ret_ok)
next
  case (OpLocal k v fid)
  assume "stack_ok h s" and "stack_step L p (h, s) = Inr (h', s')"
  then show ?thesis by (auto simp: OpLocal intro: set_local_ok)
qed

lemma run_ok: "stack_ok h s \<Longrightarrow> stack_run L ps (h, s) = Inr (h', s') \<Longrightarrow> stack_ok h' s'"
proof (induction ps arbitrary: h s)
  case (Cons p ps)
  then obtain h1 s1 where "stack_step L p (h, s) = Inr (h1, s1)" "stack_run L ps (h1, s1) = Inr (h', s')"
    by (auto simp: res_simps)
  then show ?case using Cons step_ok by blast
qed simp

section \<open>Ancestors\<close>

lemma parent_frame_ok:
  assumes ok: "stack_ok h s" and i: "i < length h"
  shows "parent_of h s (name_of i) = (if fr_parent (h ! i) = [] then None else get_frame s (fr_parent (h ! i)))"
  using forest_lookup [OF ok] i by (simp add: parent_of_def frame_or_top_def)

lemma ancestor_frames:
  assumes ok: "stack_ok h s" and k: "k < length (cs_frames s)" and seen: "name_of ` set (take (Suc k) (cs_frames s)) \<inter> set seen = {}"
  shows "ancestor_loop h s (Some (cs_frames s ! k)) seen = rev (take (Suc k) (cs_frames s))"
  using k seen
proof (induction k arbitrary: seen)
  case (Suc k)
  note O = stack_okD [OF ok]
  let ?i = "cs_frames s ! Suc k"
  have i: "?i < length h" "cs_frames s ! k < length h" using O(5) Suc.prems(1) by simp_all
  have d: "distinct (cs_frames s)" using O(4) by (simp add: strict_sorted_iff)
  have new: "name_of ?i \<notin> set seen" using Suc.prems by (simp add: take_Suc_conv_app_nth)
  have "fr_parent (h ! ?i) = name_of (cs_frames s ! k)" using O(9) [OF Suc.prems(1)] by simp
  then have "parent_of h s (name_of ?i) = Some (cs_frames s ! k)" using parent_frame_ok [OF ok i(1)] forest_lookup [OF ok] i(2) by simp
  moreover have "name_of ` set (take (Suc k) (cs_frames s)) \<inter> set (name_of ?i # seen) = {}"
  proof -
    have "distinct (take (Suc k) (cs_frames s) @ [?i])" using d Suc.prems(1) by (metis distinct_take take_Suc_conv_app_nth)
    then have "name_of ?i \<notin> name_of ` set (take (Suc k) (cs_frames s))" by auto
    moreover have "name_of ` set (take (Suc k) (cs_frames s)) \<inter> set seen = {}" using Suc.prems by (auto simp: take_Suc_conv_app_nth [of "Suc k"])
    ultimately show ?thesis by simp
  qed
  ultimately have "ancestor_loop h s (Some ?i) seen = ?i # rev (take (Suc k) (cs_frames s))"
    using Suc.IH [of "name_of ?i # seen"] Suc.prems(1) new O(3) [OF i(1)] by (subst ancestor_loop.simps) simp
  then show ?case using Suc.prems(1) by (simp add: take_Suc_conv_app_nth)
next
  case 0
  note O = stack_okD [OF ok]
  let ?i = "cs_frames s ! 0"
  have i: "?i < length h" using O(5) "0.prems"(1) by simp
  have "name_of ?i \<notin> set seen" using "0.prems" by (cases "cs_frames s") simp_all
  moreover have "parent_of h s (name_of ?i) = None" using parent_frame_ok [OF ok i] O(9) [OF "0.prems"(1)] by simp
  moreover have "ancestor_loop h s None xs = []" for xs by (simp add: ancestor_loop.simps)
  moreover have "rev (take (Suc 0) (cs_frames s)) = [?i]" using "0.prems"(1) by (cases "cs_frames s") simp_all
  ultimately show ?case using O(3) [OF i] by (subst ancestor_loop.simps) simp
qed

lemma ancestors_top:
  assumes ok: "stack_ok h s"
  shows "ancestors_of h s [] = rev (butlast (cs_frames s))"
proof -
  note O = stack_okD [OF ok]
  have none: "ancestor_loop h s None xs = []" for xs by (simp add: ancestor_loop.simps)
  show ?thesis
  proof (cases "length (cs_frames s) \<le> 1")
    case True
    then consider "cs_frames s = []" | a where "cs_frames s = [a]" by (cases "cs_frames s") auto
    then show ?thesis
    proof cases
      case 1
      then show ?thesis by (simp add: ancestors_of_def parent_of_def frame_or_top_def stack_top_def none)
    next
      case (2 a)
      then show ?thesis using O(9) [of 0] by (simp add: ancestors_of_def parent_of_def frame_or_top_def stack_top_def none)
    qed
  next
    case False
    let ?k = "length (cs_frames s) - 2"
    have ne: "cs_frames s \<noteq> []" using False by auto
    have top: "List.last (cs_frames s) = cs_frames s ! Suc ?k" using False ne by (simp add: last_conv_nth numeral_2_eq_2 Suc_diff_Suc)
    have k: "Suc ?k < length (cs_frames s)" using False by simp
    have "fr_parent (h ! List.last (cs_frames s)) = name_of (cs_frames s ! ?k)" using O(9) [OF k] unfolding top by simp
    then have "parent_of h s [] = Some (cs_frames s ! ?k)"
      using forest_lookup [OF ok] O(5) k ne by (simp add: parent_of_def frame_or_top_def stack_top_def)
    moreover have "ancestor_loop h s (Some (cs_frames s ! ?k)) [] = rev (take (Suc ?k) (cs_frames s))"
      using k by (intro ancestor_frames [OF ok]) simp_all
    moreover have "Suc ?k = length (cs_frames s) - 1" using k by simp
    ultimately show ?thesis by (simp add: ancestors_of_def butlast_conv_take)
  qed
qed

section \<open>The walk\<close>

text \<open>The frames below frame \<open>i\<close>, and the frames in the order of the tree of calls.\<close>

definition calls :: "frame_heap \<Rightarrow> (nat \<times> nat) set" where
  "calls h = {(i, j). i < length h \<and> j < length h \<and> fr_parent (h ! j) = name_of i}"

definition frames_below :: "frame_heap \<Rightarrow> nat \<Rightarrow> nat set" where
  "frames_below h i = {j. (i, j) \<in> (calls h)\<^sup>*}"

primrec tree_order :: "nat \<Rightarrow> frame_heap \<Rightarrow> nat \<Rightarrow> nat list" where
  "tree_order 0 h i = []"
| "tree_order (Suc d) h i = i # concat (map (tree_order d h) (kids h i))"

lemma set_kids: "set (kids h i) = {j. j < length h \<and> fr_parent (h ! j) = name_of i}"
  by (auto simp: kids_def)

lemma frames_below_step: "i < length h \<Longrightarrow> frames_below h i = insert i (\<Union> (frames_below h ` set (kids h i)))"
  unfolding frames_below_def by (auto simp: calls_def set_kids elim: converse_rtranclE intro: converse_rtrancl_into_rtrancl)

lemma frames_below_self: "i \<in> frames_below h i"
  by (simp add: frames_below_def)

lemma children_kids:
  assumes ok: "stack_ok h s" and i: "i < length h"
  shows "children_of h s (name_of i) = kids h i"
proof -
  note O = stack_okD [OF ok]
  have "List.map_filter (get_frame s) (map name_of js) = js" if "\<forall>j \<in> set js. j < length h" for js
    using that by (induction js) (simp_all add: List.map_filter_simps forest_lookup [OF ok])
  moreover have "\<forall>j \<in> set (kids h i). j < length h" by (simp add: set_kids)
  moreover have "filter (\<lambda>b. fr_parent (h ! b) = name_of i) (map snd (cs_forest s)) = kids h i"
    by (simp add: O(2) kids_def comp_def)
  ultimately show ?thesis
    using forest_lookup [OF ok] i O(3) [OF i] O(10) [OF i] by (simp add: children_of_def frame_or_top_def Let_def)
qed

lemma calls_level:
  assumes "\<And>i. i < length h \<Longrightarrow> fr_parent (h ! i) = [] \<and> level i = 1 \<or> (\<exists>j < i. fr_parent (h ! i) = name_of j \<and> level i = Suc (level j))"
    and "(i, j) \<in> (calls h)\<^sup>*"
  shows "i = j \<or> level i < (level j :: nat)"
  using assms(2)
proof (induction rule: rtrancl_induct)
  case (step j k)
  then have "fr_parent (h ! k) = name_of j" "k < length h" by (simp_all add: calls_def)
  then have "level k = Suc (level j)" using assms(1) [of k] by auto
  then show ?case using step.IH by auto
qed simp

lemma frames_below_disjoint:
  assumes level: "\<And>i. i < length h \<Longrightarrow> fr_parent (h ! i) = [] \<and> level i = 1 \<or> (\<exists>j < i. fr_parent (h ! i) = name_of j \<and> level i = Suc (level j))"
    and eq: "level a = (level b :: nat)" and ne: "a \<noteq> b"
  shows "frames_below h a \<inter> frames_below h b = {}"
proof -
  have False if "(a, x) \<in> (calls h)\<^sup>*" "(b, x) \<in> (calls h)\<^sup>*" for x
    using that
  proof (induction arbitrary: rule: rtrancl_induct)
    case base
    then show ?case using calls_level [OF level base] eq ne by auto
  next
    case (step y x)
    have "level a < level x" using calls_level [OF level rtrancl_into_rtrancl [OF step.hyps]] step.hyps
        calls_level [OF level step.hyps(1)] calls_level [OF level r_into_rtrancl [OF step.hyps(2)]] level [of x]
      by (auto simp: calls_def)
    then have "x \<noteq> b" using eq by auto
    then obtain y' where "(b, y') \<in> (calls h)\<^sup>*" "(y', x) \<in> calls h" using step.prems by (metis rtranclE)
    moreover from this have "y' = y" using step.hyps(2) by (simp add: calls_def)
    ultimately show ?case using step.IH by simp
  qed
  then show ?thesis by (auto simp: frames_below_def)
qed

definition walked :: "frame_heap \<Rightarrow> nat list \<Rightarrow> nat set \<Rightarrow> string list \<Rightarrow> (nat list \<times> string list) option \<Rightarrow> bool" where
  "walked h order S seen r \<longleftrightarrow> (\<exists>seen'. r = Some (order, seen') \<and> distinct order \<and> set order = S
     \<and> set seen' = name_of ` S \<union> set seen)"

lemma walk_all_walked:
  assumes f: "\<And>j seen. j \<in> set js \<Longrightarrow> name_of ` B j \<inter> set seen = {} \<Longrightarrow> walked h (g j) (B j) seen (f (name_of j) seen)"
    and "distinct js" and disjoint: "\<And>a b. a \<in> set js \<Longrightarrow> b \<in> set js \<Longrightarrow> a \<noteq> b \<Longrightarrow> B a \<inter> B b = {}"
    and "name_of ` (\<Union> (B ` set js)) \<inter> set seen = {}"
  shows "walked h (concat (map g js)) (\<Union> (B ` set js)) seen (walk_all f (map name_of js) seen)"
  using assms
proof (induction js arbitrary: seen)
  case (Cons j js)
  have "name_of ` B j \<inter> set seen = {}" using Cons.prems(4) by auto
  from Cons.prems(1) [OF _ this] obtain s1 where
    s1: "f (name_of j) seen = Some (g j, s1)" "distinct (g j)" "set (g j) = B j" "set s1 = name_of ` B j \<union> set seen"
    by (auto simp: walked_def)
  have apart: "B j \<inter> \<Union> (B ` set js) = {}" using Cons.prems(2,3) by fastforce
  then have "name_of ` (\<Union> (B ` set js)) \<inter> set s1 = {}" using Cons.prems(4) by (auto simp: s1(4))
  from Cons.IH [OF Cons.prems(1) _ Cons.prems(3) this] Cons.prems(2) obtain s2 where
    s2: "walk_all f (map name_of js) s1 = Some (concat (map g js), s2)" "distinct (concat (map g js))"
      "set (concat (map g js)) = \<Union> (B ` set js)" "set s2 = name_of ` (\<Union> (B ` set js)) \<union> set s1"
    by (auto simp: walked_def)
  have "distinct (concat (map g (j # js)))" using s1(2,3) s2(2,3) apart by (simp del: set_concat)
  moreover have "set (concat (map g (j # js))) = \<Union> (B ` set (j # js))" using s1(3) s2(3) by (simp del: set_concat)
  ultimately show ?case using s1(1,4) s2(1,4) by (simp add: walked_def image_Un Un_ac del: set_concat)
qed (simp add: walked_def)

lemma distinct_kids: "distinct (kids h i)"
  by (simp add: kids_def)

lemma walk_frame:
  assumes ok: "stack_ok h s"
    and level: "\<And>i. i < length h \<Longrightarrow> level i \<le> call_depth_limit"
      "\<And>i. i < length h \<Longrightarrow> fr_parent (h ! i) = [] \<and> level i = 1 \<or> (\<exists>j < i. fr_parent (h ! i) = name_of j \<and> level i = Suc (level j))"
    and "i < length h" and "call_depth_limit < d + level i" and "name_of ` frames_below h i \<inter> set seen = {}"
  shows "walked h (tree_order d h i) (frames_below h i) seen (walk_from d h s (name_of i) seen)"
  using assms(4-)
proof (induction d arbitrary: i seen)
  case 0
  then show ?case using level(1) [of i] by simp
next
  case (Suc d)
  note O = stack_okD [OF ok]
  have kid: "j < length h \<and> level j = Suc (level i)" if "j \<in> set (kids h i)" for j
    using that level(2) [of j] by (auto simp: set_kids)
  have new: "name_of i \<notin> set seen" using Suc.prems(3) frames_below_self by blast
  have mine: "i \<notin> \<Union> (frames_below h ` set (kids h i))"
  proof
    assume "i \<in> \<Union> (frames_below h ` set (kids h i))"
    then obtain j where "j \<in> set (kids h i)" "(j, i) \<in> (calls h)\<^sup>*" by (auto simp: frames_below_def)
    then show False using calls_level [OF level(2)] kid by fastforce
  qed
  have "walked h (concat (map (tree_order d h) (kids h i))) (\<Union> (frames_below h ` set (kids h i))) (name_of i # seen)
      (walk_all (walk_from d h s) (map name_of (kids h i)) (name_of i # seen))"
  proof (rule walk_all_walked)
    fix j seen assume j: "j \<in> set (kids h i)" and apart: "name_of ` frames_below h j \<inter> set seen = {}"
    show "walked h (tree_order d h j) (frames_below h j) seen (walk_from d h s (name_of j) seen)"
      using Suc.IH [OF _ _ apart] kid [OF j] Suc.prems(2) by simp
  next
    fix a b assume "a \<in> set (kids h i)" "b \<in> set (kids h i)" "a \<noteq> b"
    then show "frames_below h a \<inter> frames_below h b = {}" using frames_below_disjoint [OF level(2)] kid by metis
  next
    show "name_of ` (\<Union> (frames_below h ` set (kids h i))) \<inter> set (name_of i # seen) = {}"
      using Suc.prems(3) mine frames_below_step [OF Suc.prems(1)] by auto
  qed (rule distinct_kids)
  then obtain seen' where run: "walk_all (walk_from d h s) (map name_of (kids h i)) (name_of i # seen)
        = Some (concat (map (tree_order d h) (kids h i)), seen')"
    and rest: "distinct (concat (map (tree_order d h) (kids h i)))"
      "set (concat (map (tree_order d h) (kids h i))) = \<Union> (frames_below h ` set (kids h i))"
      "set seen' = name_of ` (\<Union> (frames_below h ` set (kids h i))) \<union> set (name_of i # seen)"
    by (auto simp: walked_def)
  have names: "map (\<lambda>b. fr_id (h ! b)) (children_of h s (name_of i)) = map name_of (kids h i)"
    using children_kids [OF ok Suc.prems(1)] O(3) by (simp add: set_kids)
  have "walk_from (Suc d) h s (name_of i) seen = Some (tree_order (Suc d) h i, seen')"
    using forest_lookup [OF ok, of i] Suc.prems(1) O(3) [OF Suc.prems(1)] new names run by simp
  moreover have "distinct (tree_order (Suc d) h i)" "set (tree_order (Suc d) h i) = frames_below h i"
    using rest mine frames_below_step [OF Suc.prems(1)] by (simp_all del: set_concat)
  moreover have "set seen' = name_of ` frames_below h i \<union> set seen" using rest(3) frames_below_step [OF Suc.prems(1)] by auto
  ultimately show ?case by (simp add: walked_def)
qed

definition root_frames :: "frame_heap \<Rightarrow> nat list" where
  "root_frames h = filter (\<lambda>i. fr_parent (h ! i) = []) [0..<length h]"

lemma walk_whole:
  assumes ok: "stack_ok h s"
  shows "\<exists>rows. walk_stack (limit + 4) h s [] = Some rows \<and> rows = concat (map (tree_order (limit + 3) h) (root_frames h))
    \<and> distinct rows \<and> set rows = {..<length h}"
proof -
  note O = stack_okD [OF ok]
  obtain level where "\<forall>i < length h. level i \<le> call_depth_limit
      \<and> (fr_parent (h ! i) = [] \<and> level i = 1 \<or> (\<exists>j < i. fr_parent (h ! i) = name_of j \<and> level i = Suc (level j)))"
    using ok unfolding stack_ok_def by blast
  then have level: "level i \<le> call_depth_limit"
    "fr_parent (h ! i) = [] \<and> level i = 1 \<or> (\<exists>j < i. fr_parent (h ! i) = name_of j \<and> level i = Suc (level j))" if "i < length h" for i
    using that by blast+
  have roots: "map (\<lambda>a. fr_id (h ! a)) (walk_roots h s) = map name_of (root_frames h)"
  proof -
    have all: "filter (\<lambda>a. fr_parent (h ! a) = []) (map snd (cs_forest s)) = root_frames h"
      by (simp add: O(2) root_frames_def comp_def)
    moreover have "root_frames h \<noteq> []" if "cs_frames s \<noteq> []"
    proof -
      have "cs_frames s ! 0 < length h" using O(5) that by simp
      moreover have "fr_parent (h ! (cs_frames s ! 0)) = []" using O(9) [of 0] that by simp
      ultimately show ?thesis by (auto simp: root_frames_def filter_empty_conv)
    qed
    ultimately have "walk_roots h s = root_frames h" by (auto simp: walk_roots_def Let_def)
    moreover have "\<forall>i \<in> set (root_frames h). i < length h" by (simp add: root_frames_def)
    ultimately show ?thesis using O(3) by simp
  qed
  have root: "j < length h \<and> level j = 1" if "j \<in> set (root_frames h)" for j
    using that level(2) [of j] by (auto simp: root_frames_def)
  have "walked h (concat (map (tree_order (limit + 3) h) (root_frames h))) (\<Union> (frames_below h ` set (root_frames h))) []
      (walk_all (walk_from (limit + 3) h s) (map name_of (root_frames h)) [])"
  proof (rule walk_all_walked)
    fix j seen assume j: "j \<in> set (root_frames h)" and apart: "name_of ` frames_below h j \<inter> set seen = {}"
    show "walked h (tree_order (limit + 3) h j) (frames_below h j) seen (walk_from (limit + 3) h s (name_of j) seen)"
      by (rule walk_frame [OF ok level _ _ apart]) (use root [OF j] in \<open>simp_all add: call_depth_limit_def\<close>)
  next
    fix a b assume "a \<in> set (root_frames h)" "b \<in> set (root_frames h)" "a \<noteq> b"
    then show "frames_below h a \<inter> frames_below h b = {}" using frames_below_disjoint [OF level(2)] root by metis
  qed (simp_all add: root_frames_def)
  then obtain seen where run: "walk_all (walk_from (limit + 3) h s) (map name_of (root_frames h)) []
      = Some (concat (map (tree_order (limit + 3) h) (root_frames h)), seen)"
    and rows: "distinct (concat (map (tree_order (limit + 3) h) (root_frames h)))"
      "set (concat (map (tree_order (limit + 3) h) (root_frames h))) = \<Union> (frames_below h ` set (root_frames h))"
    by (auto simp: walked_def)
  have reach: "\<exists>r \<in> set (root_frames h). i \<in> frames_below h r" if "i < length h" for i
    using that
  proof (induction i rule: less_induct)
    case (less i)
    show ?case
    proof (cases "fr_parent (h ! i) = []")
      case True
      then show ?thesis using less.prems frames_below_self by (auto simp: root_frames_def)
    next
      case False
      then obtain j where j: "j < i" "fr_parent (h ! i) = name_of j" using level(2) [OF less.prems] by auto
      then obtain r where "r \<in> set (root_frames h)" "j \<in> frames_below h r" using less.IH [of j] less.prems by auto
      moreover have "(j, i) \<in> calls h" using j less.prems by (simp add: calls_def)
      ultimately show ?thesis unfolding frames_below_def by (auto intro: rtrancl_into_rtrancl)
    qed
  qed
  have "frames_below h r \<subseteq> {..<length h}" if "r < length h" for r
  proof -
    have "j < length h" if "(r, j) \<in> (calls h)\<^sup>*" for j
      using that \<open>r < length h\<close> by (induction rule: rtrancl_induct) (simp_all add: calls_def)
    then show ?thesis by (auto simp: frames_below_def)
  qed
  note inside = this
  have "\<Union> (frames_below h ` set (root_frames h)) = {..<length h}"
  proof (rule subset_antisym)
    show "\<Union> (frames_below h ` set (root_frames h)) \<subseteq> {..<length h}" by (rule UN_least) (use inside root in blast)
    show "{..<length h} \<subseteq> \<Union> (frames_below h ` set (root_frames h))" using reach by auto
  qed
  moreover have "walk_from (limit + 4) h s [] [] = walk_all (walk_from (limit + 3) h s) (map name_of (root_frames h)) []"
    using walk_from.simps(2) [of "limit + 3" h s "[]" "[]"] roots by (simp add: eval_nat_numeral)
  ultimately show ?thesis using run rows by (simp add: walk_stack_def del: set_concat)
qed

section \<open>A saved stack\<close>

lemma copy_frames_extends: "\<exists>new. fst (copy_frames fs acc) = fst acc @ new"
proof (induction fs arbitrary: acc)
  case (Cons a fs)
  show ?case
  proof (cases "fr_id (fst acc ! a) = []")
    case False
    obtain new where "fst (copy_frames fs (fst acc @ [fst acc ! a], dict_set (fr_id (fst acc ! a)) (length (fst acc)) (snd acc)))
        = (fst acc @ [fst acc ! a]) @ new"
      using Cons.IH [of "(fst acc @ [fst acc ! a], dict_set (fr_id (fst acc ! a)) (length (fst acc)) (snd acc))"] by auto
    then show ?thesis using False by simp
  qed (use Cons.IH in simp)
qed simp

lemma saved_stack:
  assumes "cs_forest s \<noteq> []"
  shows "\<exists>new. stack_from_dict (stack_to_dict s) h = (h @ new, s\<lparr>cs_count := stack_depth s\<rparr>)"
proof -
  obtain h1 forest where c: "copy_frames (cs_frames s) (h, []) = (h1, forest)" by fastforce
  then obtain new where "h1 = h @ new" using copy_frames_extends [of "cs_frames s" "(h, [])"] by auto
  then show ?thesis using assms c by (simp add: stack_from_dict_def stack_to_dict_def make_stack_def stack_depth_def)
qed

lemma set_update_key: "k \<in> fst ` set d \<Longrightarrow> distinct (map fst d) \<Longrightarrow> (x, b) \<in> set (AList.update k v d) \<Longrightarrow> x = k \<and> b = v \<or> x \<noteq> k \<and> (x, b) \<in> set d"
  by (induction d) (auto split: if_splits intro: rev_image_eqI)

lemma enter_child_length: "length (enter_child fid parent forest h) = length h"
  by (simp add: enter_child_def upd_frame_def Let_def split: option.splits)

lemma called_frame:
  assumes "stack_call L ptr compose node ls resolved (h, s) = Inr (Called a bound, h', s')"
  shows "a = length h" and "fr_id (h' ! a) = frame_name (Suc (cs_count s))"
    and "cs_forest s' = dict_set (frame_name (Suc (cs_count s))) a (cs_forest s)"
  using assms by (auto simp: stack_call_def res_simps Let_def enter_child_length nth_append split: if_splits)

section \<open>Resolved pointers\<close>

lemma find_kind: "find P ks = Some k \<Longrightarrow> k \<in> set ks \<and> P k"
  by (auto simp: find_Some_iff)

lemma parsed_pointer:
  assumes "truthy (row_get (parse_ptr text) ''ok'')"
  obtains k name where "strip_space text = kind_prefix k @ name" and "k \<in> set ptr_kinds" and "name \<noteq> []" and "list_all ptr_char name"
    and "row_get (parse_ptr text) ''kind'' = PStr k" and "row_get (parse_ptr text) ''name'' = PStr name"
proof (cases "ptr_match (strip_space text)")
  case None
  then show ?thesis using assms by (simp add: parse_ptr_def row_get_def Let_def split: if_splits)
next
  case (Some kn)
  obtain k name where kn: "kn = (k, name)" by fastforce
  have ne: "strip_space text \<noteq> []" using assms by (auto simp: parse_ptr_def row_get_def Let_def split: if_splits)
  obtain "k \<in> set ptr_kinds" "has_prefix (kind_prefix k) (strip_space text)" "name = drop (length (kind_prefix k)) (strip_space text)"
    "name \<noteq> []" "list_all ptr_char name"
    using Some unfolding ptr_match_def kn by (auto simp: Let_def split: option.splits if_splits dest!: find_kind)
  then show thesis using that [of k name] Some ne
    by (auto simp: parse_ptr_def row_get_def Let_def kn has_prefix_def) (metis append_take_drop_id)
qed

definition name_allowed :: "ptr_tables \<Rightarrow> string \<Rightarrow> string \<Rightarrow> bool" where
  "name_allowed T k name \<longleftrightarrow>
     (if k = ''module'' then CHR ''/'' \<notin> set name \<and> \<not> has_prefix ''.'' name \<and> has_suffix ''.py'' name
      else if k = ''tool'' then (case pt_tools T of None \<Rightarrow> True | Some ts \<Rightarrow> name \<in> set ts)
      else if k = ''subloop'' then (case pt_subloops T of None \<Rightarrow> True | Some ts \<Rightarrow> name \<in> set ts)
      else if k = ''mcpplusplus'' then name \<in> set (pt_catalog T) else True)"

text \<open>What a pointer may resolve to.\<close>

definition pointer_allowed :: "ptr_tables \<Rightarrow> string \<Rightarrow> string \<Rightarrow> bool" where
  "pointer_allowed T k name \<longleftrightarrow> k \<in> set ptr_kinds \<and> name \<noteq> [] \<and> list_all ptr_char name \<and> name_allowed T k name"

definition answered :: "ptr_tables \<Rightarrow> string \<Rightarrow> string \<Rightarrow> string \<Rightarrow> exc + row \<Rightarrow> bool" where
  "answered T ptr kind name m \<longleftrightarrow> (\<forall>r. m = Inr r \<longrightarrow>
     (\<exists>fs. r = [(''kind'', PStr kind), (''name'', PStr name), (''ptr'', PStr ptr), (''ok'', PBool True)] @ fs) \<and> name_allowed T kind name
     \<or> (\<exists>m fs. r = refused_ptr m fs))"

lemma answered_if: "(b \<Longrightarrow> answered T p k n x) \<Longrightarrow> (\<not> b \<Longrightarrow> answered T p k n y) \<Longrightarrow> answered T p k n (if b then x else y)"
  by simp

lemma answered_bind: "(\<And>x. answered T p k n (f x)) \<Longrightarrow> answered T p k n (rbind m f)"
  by (cases m) (simp_all add: answered_def)

lemma answered_yes: "name_allowed T k n \<Longrightarrow>
   answered T p k n (Inr ([(''kind'', PStr k), (''name'', PStr n), (''ptr'', PStr p), (''ok'', PBool True)] @ fs))"
  unfolding answered_def by blast

lemma answered_no: "answered T p k n (Inr (refused_ptr m fs))"
  unfolding answered_def by blast

lemma resolve_kind_answered: "answered T ptr kind name (resolve_kind L T ptr kind name)"
  unfolding resolve_kind_def Let_def
  by (intro answered_if answered_bind answered_no answered_yes) (simp_all add: name_allowed_def split: option.splits)

lemma resolve_kind_fields:
  assumes "resolve_kind L T ptr kind name = Inr r" and "truthy (row_get r ''ok'')"
  shows "row_get r ''kind'' = PStr kind \<and> row_get r ''name'' = PStr name \<and> name_allowed T kind name"
proof -
  from resolve_kind_answered assms(1)
  have "(\<exists>fs. r = [(''kind'', PStr kind), (''name'', PStr name), (''ptr'', PStr ptr), (''ok'', PBool True)] @ fs) \<and> name_allowed T kind name
     \<or> (\<exists>m fs. r = refused_ptr m fs)" unfolding answered_def by blast
  then show ?thesis
  proof
  assume "\<exists>m fs. r = refused_ptr m fs"
  then show ?thesis using assms(2) by (auto simp: refused_ptr_def row_get_def)
  qed (auto simp: row_get_def)
qed

text \<open>C14: pointers are resolved fail-closed. Whatever text a caller passes, a resolved pointer is a
  well-formed pointer of a declared kind with a non-empty name of the allowed characters; a module
  has no path separator, does not start with a dot and ends in \<open>.py\<close>; a tool, a subloop and a
  catalog entry are in the table they are looked up in; and the answer carries that kind and name.\<close>

theorem resolve_ptr_closed:
  assumes "resolve_ptr L T text = Inr r" and "truthy (row_get r ''ok'')"
  shows "\<exists>k name. pointer_allowed T k name \<and> row_get r ''kind'' = PStr k \<and> row_get r ''name'' = PStr name
    \<and> strip_space (coerce_ptr (case pt_tools T of None \<Rightarrow> [] | Some ts \<Rightarrow> ts) text) = kind_prefix k @ name"
proof -
  let ?ptr = "coerce_ptr (case pt_tools T of None \<Rightarrow> [] | Some ts \<Rightarrow> ts) text"
  have ok: "truthy (row_get (parse_ptr ?ptr) ''ok'')"
    using assms by (auto simp: resolve_ptr_def Let_def split: if_splits)
  then obtain k name where p: "strip_space ?ptr = kind_prefix k @ name" "k \<in> set ptr_kinds" "name \<noteq> []" "list_all ptr_char name"
    "row_get (parse_ptr ?ptr) ''kind'' = PStr k" "row_get (parse_ptr ?ptr) ''name'' = PStr name"
    by (rule parsed_pointer)
  have "resolve_kind L T ?ptr k name = Inr r" using assms(1) ok p(5,6) by (simp add: resolve_ptr_def Let_def)
  note resolve_kind_fields [OF this assms(2)]
  then show ?thesis using p by (intro exI [of _ k] exI [of _ name]) (simp add: pointer_allowed_def)
qed

section \<open>Properties of stacks\<close>

definition call_lib :: pylib where
  "call_lib = \<lparr>sha256_hex = (\<lambda>_. []), float_repr = (\<lambda>_. []), float_of_text = (\<lambda>_. None), repr_of = (\<lambda>_. [])\<rparr>"

definition call_tables :: ptr_tables where
  "call_tables = \<lparr>pt_memory = [], pt_record = [], pt_tools = Some [''diffuse''], pt_subloops = None, pt_catalog = []\<rparr>"

definition sample_calls :: "stack_op list" where
  "sample_calls =
     [OpCall ''ptr://skill/a'' ''call'' ''a'' [(''tactics'', PStr ''simp'')] [], OpCall ''ptr://skill/b'' ''call'' [] [] [],
      OpReturn [(''ok'', PBool True)], OpCall ''ptr://tool/diffuse'' ''call'' [] [] [], OpLocal ''k'' PNone [], OpReturn []]"

theorem resolve_ptr_closed_witness:
  "\<exists>r. resolve_ptr call_lib call_tables ''diffuse'' = Inr r
     \<and> (\<exists>k name. pointer_allowed call_tables k name \<and> row_get r ''kind'' = PStr k \<and> row_get r ''name'' = PStr name
       \<and> strip_space (coerce_ptr [''diffuse''] ''diffuse'') = kind_prefix k @ name)"
proof -
  have "case resolve_ptr call_lib call_tables ''diffuse'' of Inr r \<Rightarrow> truthy (row_get r ''ok'') | Inl e \<Rightarrow> False" by code_simp
  then obtain r where r: "resolve_ptr call_lib call_tables ''diffuse'' = Inr r" "truthy (row_get r ''ok'')"
    by (auto split: sum.splits)
  from resolve_ptr_closed [OF r] r(1) show ?thesis by (auto simp: call_tables_def)
qed

text \<open>C26: the call stack keeps its discipline. Whatever calls, returns and assignments of local
  variables are made on a new stack, it never holds more than three frames; every frame ever created
  is in the forest under its own name; the parent of a live frame is the frame below it, the children
  a frame lists are the frames called from it in order; and exactly the live frames have not
  returned (\<open>stack_ok\<close>). The ancestors of the top frame are the frames below it from top to bottom, and
  the walk visits every frame exactly once, each before the frames called from it.\<close>

theorem stack_discipline:
  assumes "stack_run L ps empty_stack = Inr (h, s)"
  shows "stack_ok h s \<and> ancestors_of h s [] = rev (butlast (cs_frames s))
    \<and> (\<exists>rows. walk_stack (limit + 4) h s [] = Some rows
         \<and> rows = concat (map (tree_order (limit + 3) h) (root_frames h)) \<and> distinct rows \<and> set rows = {..<length h})"
proof -
  have "stack_ok h s" using run_ok [of "fst empty_stack" "snd empty_stack"] empty_stack_ok assms by simp
  then show ?thesis using ancestors_top walk_whole by blast
qed

theorem stack_discipline_witness:
  "\<exists>h s. stack_run call_lib sample_calls empty_stack = Inr (h, s) \<and> stack_ok h s
    \<and> ancestors_of h s [] = rev (butlast (cs_frames s))
    \<and> (\<exists>rows. walk_stack (0 + 4) h s [] = Some rows \<and> distinct rows \<and> set rows = {..<length h})"
proof -
  have "case stack_run call_lib sample_calls empty_stack of Inr hs \<Rightarrow> True | Inl e \<Rightarrow> False" by code_simp
  then obtain h s where "stack_run call_lib sample_calls empty_stack = Inr (h, s)" by (auto split: sum.splits)
  with stack_discipline [OF this, of 0] show ?thesis by blast
qed

text \<open>C10: names are not unique once a stack has been saved. The counter of frame names is not part of the
  saved form; it starts again at the number of live frames. So if a frame of the stack has returned,
  the next call on the restored stack gives the new frame the name of an old one and takes that one's
  place in the forest: the old frame can no longer be found.\<close>

theorem restored_call_loses_frame:
  assumes run: "stack_run L ps empty_stack = Inr (h, s)" and returned: "stack_depth s < length h"
    and saved: "stack_from_dict (stack_to_dict s) h = (h1, s1)"
    and call: "stack_call L ptr compose node ls resolved (h1, s1) = Inr (Called a bound, h2, s2)"
  shows "\<exists>b < length h. fr_id (h ! b) = fr_id (h2 ! a) \<and> (fr_id (h ! b), b) \<in> set (cs_forest s)
    \<and> a \<noteq> b \<and> b \<notin> snd ` set (cs_forest s2)"
proof -
  have ok: "stack_ok h s" using run_ok [of "fst empty_stack" "snd empty_stack"] empty_stack_ok run by simp
  note O = stack_okD [OF ok]
  let ?b = "stack_depth s"
  have "h \<noteq> []" using returned by auto
  then have "cs_forest s \<noteq> []" by (simp add: O(2))
  from saved_stack [OF this, of h] saved obtain new where h1: "h1 = h @ new" and s1: "s1 = s\<lparr>cs_count := ?b\<rparr>" by auto
  note C = called_frame [OF call]
  have name: "frame_name (Suc ?b) = name_of ?b" by (simp add: name_of_def)
  have a: "a \<noteq> ?b" using C(1) returned by (simp add: h1)
  have d: "distinct (map fst (cs_forest s))" by (simp add: O(2) distinct_map inj_on_def)
  have key: "name_of ?b \<in> fst ` set (cs_forest s)" using returned by (auto simp: O(2) image_image)
  have forest2: "cs_forest s2 = AList.update (name_of ?b) a (cs_forest s)" by (simp add: C(3) s1 name dict_set_def)
  have "?b \<notin> snd ` set (cs_forest s2)"
  proof
    assume "?b \<in> snd ` set (cs_forest s2)"
    then obtain x where "(x, ?b) \<in> set (AList.update (name_of ?b) a (cs_forest s))" by (auto simp: forest2)
    from set_update_key [OF key d this] a show False by (auto simp: O(2))
  qed
  moreover have "fr_id (h2 ! a) = name_of ?b" using C(2) by (simp add: s1 name)
  ultimately show ?thesis using returned a O(2,3) by (intro exI [of _ ?b]) auto
qed

theorem restored_call_loses_frame_witness:
  "\<exists>h s h1 s1 a bound h2 s2. stack_run call_lib (take 3 sample_calls) empty_stack = Inr (h, s)
    \<and> stack_from_dict (stack_to_dict s) h = (h1, s1)
    \<and> stack_call call_lib ''ptr://skill/c'' ''call'' [] [] [] (h1, s1) = Inr (Called a bound, h2, s2)
    \<and> (\<exists>b. b < length h \<and> fr_id (h ! b) = fr_id (h2 ! a) \<and> (fr_id (h ! b), b) \<in> set (cs_forest s)
         \<and> a \<noteq> b \<and> b \<notin> snd ` set (cs_forest s2))"
proof -
  have e: "case stack_run call_lib (take 3 sample_calls) empty_stack of Inr (h, s) \<Rightarrow>
      stack_depth s < length h \<and>
      (case stack_call call_lib ''ptr://skill/c'' ''call'' [] [] [] (stack_from_dict (stack_to_dict s) h) of
         Inr (Called a bound, hs) \<Rightarrow> True | _ \<Rightarrow> False)
    | Inl e \<Rightarrow> False" by code_simp
  obtain h s where run: "stack_run call_lib (take 3 sample_calls) empty_stack = Inr (h, s)"
    using e by (auto split: sum.splits)
  obtain h1 s1 where saved: "stack_from_dict (stack_to_dict s) h = (h1, s1)" by fastforce
  obtain a bound h2 s2 where call: "stack_call call_lib ''ptr://skill/c'' ''call'' [] [] [] (h1, s1) = Inr (Called a bound, h2, s2)"
    using e run saved by (auto split: sum.splits call_answer.splits)
  have "stack_depth s < length h" using e run by simp
  from restored_call_loses_frame [OF run this saved call] run saved call show ?thesis by blast
qed

end
