(* ===== verification/TM_Calls.thy ===== *)
theory TM_Calls
  imports TM_Machine CS_Correct
begin

text \<open>
  The push and pop tools of \<open>jevops/turing.py\<close>, which drive a stack of symbols and the call stack
  together, and the choice of a tool by its name. The shared memory is the memory of the other tools
  with the symbol stack, the saved call stack and the frames it refers to.
\<close>

section \<open>Push and pop\<close>

record call_memory =
  cm_tm :: tm_memory
  cm_aux :: "string list"
  cm_stack :: "nat list \<times> (string \<times> nat) list"
  cm_frames :: frame_heap

definition tm_push :: "pylib \<Rightarrow> string \<Rightarrow> call_memory \<Rightarrow> exc + row \<times> call_memory" where
  "tm_push L sy m =
     (let (t, m1) = load_tape (cm_tm m); sym = (if sy \<noteq> [] then sy else read_symbol L t);
          aux = last_n 32 (cm_aux m @ [sym]);
          hs = stack_from_dict (cm_stack m) (cm_frames m) in
      rbind (stack_call L (''ptr://cell/tm/'' @ (if sym \<noteq> [] then sym else ''blank'')) ''call'' ''tm_push'' [] [] (fst hs, snd hs))
        (\<lambda>(answer, h, s). Inr
          (tool_report ''port_tm_push'' [(''symbol'', PStr sym), (''depth'', PInt (int (length aux)))],
           m\<lparr>cm_tm := log_tm ''PUSH'' sym (persist t m1), cm_aux := aux, cm_stack := stack_to_dict s, cm_frames := h\<rparr>)))"

definition tm_pop :: "call_memory \<Rightarrow> row \<times> call_memory" where
  "tm_pop m =
     (let aux = butlast (cm_aux m); sym = (if cm_aux m = [] then blank else List.last (cm_aux m));
          (h, s) = stack_from_dict (cm_stack m) (cm_frames m);
          (answer, h1, s1) = stack_ret [(''symbol'', PStr sym), (''ok'', PBool True)] (h, s);
          m1 = (if stack_depth s = 0 then m\<lparr>cm_frames := h\<rparr> else m\<lparr>cm_stack := stack_to_dict s1, cm_frames := h1\<rparr>)
      in (tool_report ''port_tm_pop'' [(''symbol'', PStr sym), (''depth'', PInt (int (length aux)))],
          m1\<lparr>cm_tm := log_tm ''POP'' sym (cm_tm m), cm_aux := aux\<rparr>))"

section \<open>Tools by name\<close>

definition lower_char :: "char \<Rightarrow> char" where
  "lower_char c = (let n = (of_char c :: nat) in if 65 \<le> n \<and> n \<le> 90 then char_of (n + 32) else c)"

definition tm_stems :: "string list" where
  "tm_stems = [''turing'', ''tm_step'', ''tm_run'', ''tm_left'', ''tm_right'', ''tm_write'', ''tm_read'', ''tm_push'', ''tm_pop'',
     ''decision_transformer'', ''dt_context'']"

definition is_tm_stem :: "string \<Rightarrow> bool" where
  "is_tm_stem stem = (let t = without_port (map lower_char stem) in
     if has_part ''thompson'' t then False else if t \<in> {''tm'', ''dt''} then True else list_ex (\<lambda>g. has_part g t) tm_stems)"

definition on_tm :: "(tm_memory \<Rightarrow> row \<times> tm_memory) \<Rightarrow> call_memory \<Rightarrow> exc + row \<times> call_memory" where
  "on_tm f m = (let (r, u) = f (cm_tm m) in Inr (r, m\<lparr>cm_tm := u\<rparr>))"

definition call_tm :: "pylib \<Rightarrow> string \<Rightarrow> call_memory \<Rightarrow> exc + row \<times> call_memory" where
  "call_tm L stem m = (let t = map lower_char stem in
     if has_part ''decision_transformer'' t \<or> has_part ''dt_context'' t \<or> has_suffix ''/dt'' t \<or> has_suffix ''_dt'' t then on_tm dt_tool m
     else if has_part ''push'' t then tm_push L [] m
     else if has_part ''pop'' t then Inr (tm_pop m)
     else if has_part ''read'' t then on_tm (tm_read L) m
     else if has_part ''write'' t then on_tm (tm_write blank) m
     else if has_part ''left'' t then on_tm (tm_move L ''L'') m
     else if has_part ''right'' t then on_tm (tm_move L ''R'') m
     else if has_part ''run'' t then on_tm (tm_run L max_tm_steps) m
     else on_tm (tm_step L) m)"

section \<open>A pop after a push\<close>

lemma from_dict_frames:
  "\<exists>new forest. stack_from_dict d h = (h @ new, \<lparr>cs_frames = fst d, cs_forest = forest, cs_count = length (fst d)\<rparr>)"
proof -
  obtain h1 forest where c: "copy_frames (fst d) (h, []) = (h1, forest)" by fastforce
  then obtain new where "h1 = h @ new" using copy_frames_extends [of "fst d" "(h, [])"] by auto
  then show ?thesis using c by (auto simp: stack_from_dict_def make_stack_def)
qed

lemma call_frames:
  assumes "stack_call L ptr compose node ls resolved (h, s) = Inr (r, h', s')"
  shows "cs_frames s' = (if call_depth_limit \<le> stack_depth s then cs_frames s else cs_frames s @ [length h])"
  using assms by (auto simp: stack_call_def res_simps Let_def enter_child_length split: if_splits)

text \<open>C31: a pop after a push gives back the symbol and the symbols below it, as long as fewer than 32
  symbols are stacked, but the call stack follows only while it has room: a push onto three frames
  adds none, and the pop still takes one away.\<close>

theorem pop_after_push:
  assumes push: "tm_push L sy m = Inr (r, m1)" and pop: "tm_pop m1 = (r2, m2)"
  shows "row_get r2 ''symbol'' = row_get r ''symbol''
    \<and> cm_aux m2 = (if length (cm_aux m) < 32 then cm_aux m else drop (length (cm_aux m) - 31) (cm_aux m))
    \<and> fst (cm_stack m2) = (if length (fst (cm_stack m)) < call_depth_limit then fst (cm_stack m) else butlast (fst (cm_stack m)))"
proof -
  obtain new forest where d: "stack_from_dict (cm_stack m) (cm_frames m)
      = (cm_frames m @ new, \<lparr>cs_frames = fst (cm_stack m), cs_forest = forest, cs_count = length (fst (cm_stack m))\<rparr>)"
    using from_dict_frames by blast
  obtain t u where lt: "load_tape (cm_tm m) = (t, u)" by fastforce
  let ?sym = "if sy \<noteq> [] then sy else read_symbol L t"
  obtain answer h s where call: "stack_call L (''ptr://cell/tm/'' @ (if ?sym \<noteq> [] then ?sym else ''blank'')) ''call'' ''tm_push'' [] []
        (cm_frames m @ new, \<lparr>cs_frames = fst (cm_stack m), cs_forest = forest, cs_count = length (fst (cm_stack m))\<rparr>) = Inr (answer, h, s)"
    and r: "row_get r ''symbol'' = PStr ?sym" and aux: "cm_aux m1 = last_n 32 (cm_aux m @ [?sym])"
    and st: "cm_stack m1 = stack_to_dict s" "cm_frames m1 = h"
    using push by (auto simp: tm_push_def lt d Let_def res_simps tool_report_def row_get_def simp del: length_append)
  have frames: "cs_frames s = (if length (fst (cm_stack m)) < call_depth_limit then fst (cm_stack m) @ [length (cm_frames m @ new)] else fst (cm_stack m))"
    using call_frames [OF call] by (simp add: stack_depth_def not_less)
  have aux1: "cm_aux m1 \<noteq> []" "List.last (cm_aux m1) = ?sym" "butlast (cm_aux m1) = (if length (cm_aux m) < 32 then cm_aux m else drop (length (cm_aux m) - 31) (cm_aux m))"
    unfolding aux last_n_def by (auto simp: butlast_append)
  obtain new1 forest1 where d1: "stack_from_dict (cm_stack m1) (cm_frames m1)
      = (h @ new1, \<lparr>cs_frames = cs_frames s, cs_forest = forest1, cs_count = length (cs_frames s)\<rparr>)"
    using from_dict_frames [of "cm_stack m1" "cm_frames m1"] by (auto simp: st stack_to_dict_def)
  have kept: "fst (cm_stack m1) = cs_frames s" by (simp add: st stack_to_dict_def)
  have "row_get r2 ''symbol'' = PStr ?sym" "cm_aux m2 = butlast (cm_aux m1)"
    "fst (cm_stack m2) = butlast (cs_frames s)"
    using pop aux1(1,2) kept by (auto simp: tm_pop_def d1 Let_def stack_ret_def stack_top_def stack_depth_def stack_to_dict_def
        tool_report_def row_get_def split: if_splits)
  then show ?thesis using r aux1(3) frames by (auto simp: call_depth_limit_def)
qed

definition call_example :: call_memory where
  "call_example = \<lparr>cm_tm = tm_example, cm_aux = [''x''], cm_stack = ([], []), cm_frames = []\<rparr>"

theorem pop_after_push_witness:
  "\<exists>r m1. tm_push tm_example_lib ''s'' call_example = Inr (r, m1)
    \<and> row_get (fst (tm_pop m1)) ''symbol'' = row_get r ''symbol'' \<and> cm_aux (snd (tm_pop m1)) = [''x'']
    \<and> fst (cm_stack (snd (tm_pop m1))) = []"
proof -
  have "case tm_push tm_example_lib ''s'' call_example of Inr x \<Rightarrow> True | Inl e \<Rightarrow> False" by code_simp
  then obtain r m1 where push: "tm_push tm_example_lib ''s'' call_example = Inr (r, m1)" by (auto split: sum.splits)
  from pop_after_push [OF push prod.collapse [symmetric]] push show ?thesis
    by (simp add: call_example_def call_depth_limit_def)
qed

end
