(* ===== verification/EG_Sound.thy ===== *)
theory EG_Sound
  imports EG_Graph
begin

text \<open>
  Well-formed graphs and what every operation keeps. A valuation gives each class a truth value;
  the values of all classes are a list \<open>es\<close> along the indices, which only grows. A graph agrees
  with \<open>es\<close> when parents, nodes and memo entries do. From this follow the soundness of matching
  and rewriting, that no operation raises anything but a budget error, that every loop ends, and
  that \<open>rebuild\<close> closes the graph under congruence.
\<close>

section \<open>Meaning of nodes and well-formed graphs\<close>

definition op_val :: "string \<Rightarrow> utext \<Rightarrow> bool list \<Rightarrow> (utext \<Rightarrow> bool) \<Rightarrow> bool" where
  "op_val op name bs v =
     (if op = ''var'' then v name else if op = ''true'' then True else if op = ''false'' then False
      else if op = ''not'' then (case bs of [b] \<Rightarrow> \<not> b | _ \<Rightarrow> False)
      else (case (bop_of op, bs) of (Some f, [x, y]) \<Rightarrow> bop_val f x y | _ \<Rightarrow> False))"

text \<open>The operations, names and numbers of children that formulas have; \<open>N\<close> is a set of names.\<close>

definition proper_op :: "utext set \<Rightarrow> string \<Rightarrow> utext \<Rightarrow> nat \<Rightarrow> bool" where
  "proper_op N op name k \<longleftrightarrow>
     (op = ''var'' \<and> name \<in> N \<and> k = 0) \<or> (op \<in> {''true'', ''false''} \<and> name = [] \<and> k = 0)
     \<or> (op = ''not'' \<and> name = [] \<and> k = 1) \<or> (op \<in> {''and'', ''or'', ''imp'', ''iff'', ''xor''} \<and> name = [] \<and> k = 2)"

definition node_val :: "(utext \<Rightarrow> bool) \<Rightarrow> bool list \<Rightarrow> enode \<Rightarrow> bool" where
  "node_val v es n = (case n of (op, name, cs) \<Rightarrow> op_val op name (map ((!) es) cs) v)"

definition node_in :: "utext set \<Rightarrow> nat \<Rightarrow> enode \<Rightarrow> bool" where
  "node_in N k n \<longleftrightarrow> (case n of (op, name, cs) \<Rightarrow> proper_op N op name (length cs) \<and> (\<forall>c \<in> set cs. c < k))"

text \<open>Node \<open>n\<close> belongs to the class of index \<open>i\<close>.\<close>

definition belongs :: "utext set \<Rightarrow> (utext \<Rightarrow> bool) \<Rightarrow> bool list \<Rightarrow> enode \<Rightarrow> nat \<Rightarrow> bool" where
  "belongs N v es n i \<longleftrightarrow> node_in N (length es) n \<and> i < length es \<and> node_val v es n = es ! i"

definition parents_ok :: "bool list \<Rightarrow> nat list \<Rightarrow> bool" where
  "parents_ok es ps \<longleftrightarrow> length es = length ps \<and> (\<forall>i < length ps. ps ! i \<le> i \<and> es ! (ps ! i) = es ! i)"

definition classes_ok :: "utext set \<Rightarrow> (utext \<Rightarrow> bool) \<Rightarrow> bool list \<Rightarrow> nat list \<Rightarrow> (nat \<times> enode list) list \<Rightarrow> bool" where
  "classes_ok N v es ps cls \<longleftrightarrow> distinct (map fst cls) \<and> fst ` set cls = {i. i < length ps \<and> ps ! i = i}
     \<and> (\<forall>(r, ns) \<in> set cls. \<forall>n \<in> set ns. belongs N v es n r)"

definition memo_ok :: "utext set \<Rightarrow> (utext \<Rightarrow> bool) \<Rightarrow> bool list \<Rightarrow> (enode \<times> nat) list \<Rightarrow> bool" where
  "memo_ok N v es m \<longleftrightarrow> (\<forall>(n, i) \<in> set m. belongs N v es n i)"

definition graph_ok :: "utext set \<Rightarrow> (utext \<Rightarrow> bool) \<Rightarrow> bool list \<Rightarrow> 'z egraph_scheme \<Rightarrow> bool" where
  "graph_ok N v es s \<longleftrightarrow> parents_ok es (eg_parent s) \<and> classes_ok N v es (eg_parent s) (eg_classes s)
     \<and> memo_ok N v es (eg_memo s)"

lemma graph_okD:
  assumes "graph_ok N v es s"
  shows "length es = length (eg_parent s)"
    and "i < length (eg_parent s) \<Longrightarrow> eg_parent s ! i \<le> i"
    and "i < length (eg_parent s) \<Longrightarrow> es ! (eg_parent s ! i) = es ! i"
    and "distinct (map fst (eg_classes s))"
    and "fst ` set (eg_classes s) = {i. i < length (eg_parent s) \<and> eg_parent s ! i = i}"
    and "(r, ns) \<in> set (eg_classes s) \<Longrightarrow> n \<in> set ns \<Longrightarrow> belongs N v es n r"
    and "(n, i) \<in> set (eg_memo s) \<Longrightarrow> belongs N v es n i"
  using assms unfolding graph_ok_def parents_ok_def classes_ok_def memo_ok_def by auto

section \<open>Finding representatives\<close>

text \<open>\<open>R\<close> gives the root of every index; the root of an index does not change when paths are
  shortened.\<close>

definition rooted :: "(nat \<Rightarrow> nat) \<Rightarrow> nat list \<Rightarrow> bool" where
  "rooted R ps \<longleftrightarrow> (\<forall>i < length ps. R (ps ! i) = R i \<and> (ps ! i = i \<longrightarrow> R i = i))"

text \<open>A change of the graph that only shortens paths.\<close>

definition quiet :: "'z egraph_scheme \<Rightarrow> 'z egraph_scheme \<Rightarrow> bool" where
  "quiet s t \<longleftrightarrow> t = s\<lparr>eg_parent := eg_parent t\<rparr> \<and> length (eg_parent t) = length (eg_parent s)
     \<and> (\<forall>j < length (eg_parent s). (eg_parent t ! j = j) = (eg_parent s ! j = j))
     \<and> (\<forall>R. rooted R (eg_parent s) \<longrightarrow> rooted R (eg_parent t))"

lemma quiet_refl [simp]: "quiet s s"
  by (simp add: quiet_def)

lemma quiet_trans: "quiet s t \<Longrightarrow> quiet t r \<Longrightarrow> quiet s r"
  unfolding quiet_def by (metis (no_types, lifting) egraph.update_convs(3) egraph.surjective egraph.fold_congs(3))

lemma quiet_fields:
  assumes "quiet s t"
  shows "eg_classes t = eg_classes s" "eg_memo t = eg_memo s" "eg_max_nodes t = eg_max_nodes s"
    "eg_max_matches t = eg_max_matches s" "eg_matches t = eg_matches s" "eg_unions t = eg_unions s"
    "egraph.more t = egraph.more s" "length (eg_parent t) = length (eg_parent s)"
    "j < length (eg_parent s) \<Longrightarrow> (eg_parent t ! j = j) = (eg_parent s ! j = j)"
    "rooted R (eg_parent s) \<Longrightarrow> rooted R (eg_parent t)"
proof -
  from assms have e: "t = s\<lparr>eg_parent := eg_parent t\<rparr>" by (simp add: quiet_def)
  show "eg_classes t = eg_classes s" by (subst e) simp
  show "eg_memo t = eg_memo s" by (subst e) simp
  show "eg_max_nodes t = eg_max_nodes s" by (subst e) simp
  show "eg_max_matches t = eg_max_matches s" by (subst e) simp
  show "eg_matches t = eg_matches s" by (subst e) simp
  show "eg_unions t = eg_unions s" by (subst e) simp
  show "egraph.more t = egraph.more s" by (subst e) simp
qed (use assms in \<open>simp_all add: quiet_def\<close>)

text \<open>What \<open>find\<close> answers for a known index.\<close>

definition finds :: "utext set \<Rightarrow> (utext \<Rightarrow> bool) \<Rightarrow> bool list \<Rightarrow> 'z egraph_scheme \<Rightarrow> nat \<Rightarrow> nat \<Rightarrow> 'z egraph_scheme \<Rightarrow> bool" where
  "finds N v es s i r t \<longleftrightarrow> quiet s t \<and> graph_ok N v es t \<and> r \<le> i \<and> eg_parent t ! r = r \<and> es ! r = es ! i
     \<and> (\<forall>R. rooted R (eg_parent s) \<longrightarrow> r = R i)"

lemma halve_ok:
  assumes ok: "graph_ok N v es s" and i: "i < length (eg_parent s)" "eg_parent s ! i \<noteq> i"
  defines "g \<equiv> eg_parent s ! (eg_parent s ! i)"
  defines "t \<equiv> s\<lparr>eg_parent := (eg_parent s)[i := g]\<rparr>"
  shows "graph_ok N v es t" "quiet s t" "g < i" "es ! g = es ! i"
proof -
  let ?ps = "eg_parent s"
  note D = graph_okD [OF ok]
  have p: "?ps ! i < i" using D(2) [OF i(1)] i(2) by simp
  have p': "?ps ! i < length ?ps" using p i(1) by simp
  show g: "g < i" using D(2) [OF p'] p by (simp add: g_def)
  show eg: "es ! g = es ! i" using D(3) [OF p'] D(3) [OF i(1)] by (simp add: g_def)
  have roots: "(?ps[i := g] ! j = j) = (?ps ! j = j)" if "j < length ?ps" for j
    using that g i by (cases "j = i") auto
  have "parents_ok es (?ps[i := g])"
    using ok g eg i(1) unfolding graph_ok_def parents_ok_def by (auto simp: nth_list_update)
  moreover have "{j. j < length (?ps[i := g]) \<and> ?ps[i := g] ! j = j} = {j. j < length ?ps \<and> ?ps ! j = j}"
    using roots by auto
  ultimately show "graph_ok N v es t"
    using ok by (simp add: graph_ok_def classes_ok_def t_def)
  have "rooted R (?ps[i := g])" if R: "rooted R ?ps" for R
  proof -
    have "R g = R i" using R p' i(1) by (simp add: rooted_def g_def)
    then show ?thesis using R g i by (auto simp: rooted_def nth_list_update)
  qed
  then show "quiet s t" using roots by (simp add: quiet_def t_def)
qed

lemma find_loop_spec:
  assumes "graph_ok N v es s" and "i < length (eg_parent s)" and "i < k"
  shows "\<exists>r t. find_loop k i s = (Inr r, t) \<and> finds N v es s i r t"
  using assms
proof (induction k arbitrary: i s)
  case (Suc k)
  let ?ps = "eg_parent s"
  note D = graph_okD [OF Suc.prems(1)]
  show ?case
  proof (cases "?ps ! i = i")
    case True
    then have "find_loop (Suc k) i s = (Inr i, s)" using Suc.prems(2) by simp
    moreover have "finds N v es s i i s"
      using True Suc.prems by (auto simp: finds_def rooted_def)
    ultimately show ?thesis by blast
  next
    case False
    define g where "g = ?ps ! (?ps ! i)"
    define t where "t = s\<lparr>eg_parent := ?ps[i := g]\<rparr>"
    note H = halve_ok [OF Suc.prems(1,2) False, folded g_def, folded t_def]
    have p: "?ps ! i < length ?ps" using D(2) [OF Suc.prems(2)] Suc.prems(2) by simp
    have step: "find_loop (Suc k) i s = find_loop k g t"
      using Suc.prems(2) False p by (simp add: g_def t_def Let_def)
    have "g < k" "g < length (eg_parent t)" using H(3) Suc.prems by (simp_all add: t_def)
    from Suc.IH [OF H(1) this(2,1)] obtain r t' where r: "find_loop k g t = (Inr r, t')" "finds N v es t g r t'" by blast
    have "finds N v es s i r t'"
      unfolding finds_def
    proof (intro conjI allI impI)
      fix R
      assume R: "rooted R ?ps"
      with H(2) have "rooted R (eg_parent t)" by (simp add: quiet_def)
      with r(2) have "r = R g" by (simp add: finds_def)
      moreover have "R g = R i" using R p Suc.prems(2) by (simp add: rooted_def g_def)
      ultimately show "r = R i" by simp
    qed (use r(2) H quiet_trans [OF H(2), of t'] in \<open>auto simp: finds_def\<close>)
    with step r(1) show ?thesis by metis
  qed
qed simp

lemma find_spec:
  assumes "graph_ok N v es s" and "i < length es"
  obtains r t where "eg_find i s = (Inr r, t)" "finds N v es s i r t"
  using find_loop_spec [OF assms(1), of i "Suc (length (eg_parent s))"] graph_okD(1) [OF assms(1)] assms(2)
  by (auto simp: eg_find_def)


lemma finds_less: "finds N v es s i r t \<Longrightarrow> i < length es \<Longrightarrow> r < length es"
  by (simp add: finds_def)

text \<open>The canonical form of a node: every child replaced by its root.\<close>

definition rooted_node :: "(nat \<Rightarrow> nat) \<Rightarrow> enode \<Rightarrow> enode" where
  "rooted_node R n = (case n of (op, name, cs) \<Rightarrow> (op, name, map R cs))"

definition children :: "enode \<Rightarrow> nat list" where
  "children n = snd (snd n)"

lemma each_find:
  assumes "graph_ok N v es s" and "\<forall>c \<in> set cs. c < length es"
  shows "\<exists>ds t. each eg_find cs s = (Inr ds, t) \<and> quiet s t \<and> graph_ok N v es t \<and> length ds = length cs
    \<and> map ((!) es) ds = map ((!) es) cs \<and> (\<forall>d \<in> set ds. d < length es \<and> eg_parent t ! d = d)
    \<and> (\<forall>R. rooted R (eg_parent s) \<longrightarrow> ds = map R cs)"
  using assms
proof (induction cs arbitrary: s)
  case Nil
  then show ?case by (simp add: ret_def)
next
  case (Cons c cs)
  then have "c < length es" by simp
  then obtain r t where r: "eg_find c s = (Inr r, t)" "finds N v es s c r t"
    by (rule find_spec [OF Cons.prems(1)])
  have t: "graph_ok N v es t" "quiet s t" using r(2) by (simp_all add: finds_def)
  obtain ds t' where ds: "each eg_find cs t = (Inr ds, t')" "quiet t t'" "graph_ok N v es t'" "length ds = length cs"
      "map ((!) es) ds = map ((!) es) cs" "\<forall>d \<in> set ds. d < length es \<and> eg_parent t' ! d = d"
      "\<forall>R. rooted R (eg_parent t) \<longrightarrow> ds = map R cs"
    using Cons.IH [OF t(1)] Cons.prems(2) by auto
  have "r < length (eg_parent t)" "eg_parent t ! r = r"
    using r(2) finds_less [OF r(2)] Cons.prems(2) graph_okD(1) [OF t(1)] by (auto simp: finds_def)
  then have "eg_parent t' ! r = r" using ds(2) by (simp add: quiet_def)
  then show ?case
    using r ds t Cons.prems(2) finds_less [OF r(2)] quiet_trans [OF t(2) ds(2)]
    by (auto simp: bind_def ret_def finds_def quiet_def)
qed

lemma canonical_spec:
  assumes ok: "graph_ok N v es s" and n: "node_in N (length es) n"
  obtains m t where "canonical n s = (Inr m, t)" "quiet s t" "graph_ok N v es t" "node_in N (length es) m"
    "node_val v es m = node_val v es n" "\<forall>d \<in> set (children m). eg_parent t ! d = d"
    "\<And>R. rooted R (eg_parent s) \<Longrightarrow> m = rooted_node R n"
proof -
  obtain op name cs where [simp]: "n = (op, name, cs)" by (cases n)
  have cs: "\<forall>c \<in> set cs. c < length es" using n by (simp add: node_in_def)
  from each_find [OF ok cs] obtain ds t where ds: "each eg_find cs s = (Inr ds, t)" "quiet s t" "graph_ok N v es t"
      "length ds = length cs" "map ((!) es) ds = map ((!) es) cs" "\<forall>d \<in> set ds. d < length es \<and> eg_parent t ! d = d"
      "\<forall>R. rooted R (eg_parent s) \<longrightarrow> ds = map R cs" by blast
  show thesis
  proof (rule that [of "(op, name, ds)" t])
    show "canonical n s = (Inr (op, name, ds), t)" using ds(1) by (simp add: canonical_def bind_def ret_def)
    show "node_in N (length es) (op, name, ds)" using n ds(4,6) by (simp add: node_in_def)
    show "node_val v es (op, name, ds) = node_val v es n" using ds(5) by (simp add: node_val_def)
    show "(op, name, ds) = rooted_node R n" if "rooted R (eg_parent s)" for R
      using ds(7) that by (simp add: rooted_node_def)
  qed (use ds in \<open>auto simp: children_def\<close>)
qed

section \<open>Running an operation on a well-formed graph\<close>

text \<open>\<open>m\<close> keeps the graph well-formed, may add values behind the known ones, and ends with an
  answer that satisfies \<open>Q\<close> or an error that satisfies \<open>E\<close>.\<close>

definition graph_extends :: "bool list \<Rightarrow> bool list \<Rightarrow> bool" where
  "graph_extends es fs \<longleftrightarrow> (\<exists>zs. fs = es @ zs)"

definition safe :: "(eg_failure \<Rightarrow> bool) \<Rightarrow> utext set \<Rightarrow> (utext \<Rightarrow> bool) \<Rightarrow> bool list \<Rightarrow> ('z, 'a) eg
    \<Rightarrow> (bool list \<Rightarrow> 'a \<Rightarrow> bool) \<Rightarrow> 'z egraph_scheme \<Rightarrow> bool" where
  "safe E N v es m Q s \<longleftrightarrow> (case m s of (r, t) \<Rightarrow>
     \<exists>fs. graph_extends es fs \<and> graph_ok N v fs t \<and> (case r of Inl e \<Rightarrow> E e | Inr x \<Rightarrow> Q fs x))"

lemma graph_extends_refl [simp]: "graph_extends es es"
  by (simp add: graph_extends_def)

lemma graph_extends_trans [trans]: "graph_extends es fs \<Longrightarrow> graph_extends fs gs \<Longrightarrow> graph_extends es gs"
  by (auto simp: graph_extends_def)

lemma extends_nth: "graph_extends es fs \<Longrightarrow> i < length es \<Longrightarrow> i < length fs \<and> fs ! i = es ! i"
  by (auto simp: graph_extends_def nth_append)

lemma extends_node:
  "graph_extends es fs \<Longrightarrow> node_in N (length es) n \<Longrightarrow> node_in N (length fs) n \<and> node_val v fs n = node_val v es n"
  unfolding node_in_def node_val_def graph_extends_def
  by (cases n) (auto simp: nth_append intro!: arg_cong [where f = "\<lambda>bs. op_val _ _ bs v"])

lemma extends_belongs: "graph_extends es fs \<Longrightarrow> belongs N v es n i \<Longrightarrow> belongs N v fs n i"
  by (auto simp: belongs_def extends_node dest: extends_nth)

lemma safeI:
  "m s = (r, t) \<Longrightarrow> graph_extends es fs \<Longrightarrow> graph_ok N v fs t \<Longrightarrow> (case r of Inl e \<Rightarrow> E e | Inr x \<Rightarrow> Q fs x) \<Longrightarrow> safe E N v es m Q s"
  unfolding safe_def by auto

lemma safe_ret [intro]: "graph_ok N v es s \<Longrightarrow> Q es x \<Longrightarrow> safe E N v es (ret x) Q s"
  by (rule safeI [where fs = es and r = "Inr x"]) (simp_all add: ret_def)

lemma safe_bind:
  assumes "safe E N v es m R s"
    and "\<And>fs x t. graph_extends es fs \<Longrightarrow> graph_ok N v fs t \<Longrightarrow> R fs x \<Longrightarrow> safe E N v fs (f x) Q t"
  shows "safe E N v es (bind m f) Q s"
proof -
  obtain r t where m: "m s = (r, t)" by fastforce
  with assms(1) obtain fs where fs: "graph_extends es fs" "graph_ok N v fs t" "case r of Inl e \<Rightarrow> E e | Inr x \<Rightarrow> R fs x"
    by (auto simp: safe_def)
  show ?thesis
  proof (cases r)
    case (Inl e)
    then show ?thesis using m fs by (auto simp: safe_def bind_def)
  next
    case (Inr x)
    with assms(2) fs have "safe E N v fs (f x) Q t" by simp
    then show ?thesis using m Inr graph_extends_trans [OF fs(1)] unfolding safe_def bind_def by (auto split: prod.splits)
  qed
qed

lemma safe_mono:
  assumes "safe E N v es m R s" and "\<And>fs x. graph_extends es fs \<Longrightarrow> R fs x \<Longrightarrow> Q fs x" and "\<And>e. E e \<Longrightarrow> E' e"
  shows "safe E' N v es m Q s"
  using assms unfolding safe_def by (fastforce split: prod.splits sum.splits)

lemma safe_find: "graph_ok N v es s \<Longrightarrow> i < length es \<Longrightarrow> safe E N v es (eg_find i) (\<lambda>fs r. fs = es \<and> r < length fs \<and> fs ! r = es ! i) s"
  by (erule (1) find_spec) (auto simp: safe_def finds_def intro!: exI [of _ es])

lemma safe_canonical:
  "graph_ok N v es s \<Longrightarrow> node_in N (length es) n \<Longrightarrow>
   safe E N v es (canonical n) (\<lambda>fs m. fs = es \<and> node_in N (length fs) m \<and> node_val v fs m = node_val v es n) s"
  by (erule (1) canonical_spec) (auto simp: safe_def intro!: exI [of _ es])

lemma safe_each:
  fixes s :: "'z egraph_scheme" and f :: "'a \<Rightarrow> ('z, 'b) eg"
  assumes "graph_ok N v es s" and "P es"
    and "\<And>x fs (t :: 'z egraph_scheme). x \<in> set xs \<Longrightarrow> graph_extends es fs \<Longrightarrow> graph_ok N v fs t \<Longrightarrow> P fs \<Longrightarrow>
      safe E N v fs (f x) (\<lambda>gs y. P gs) t"
  shows "safe E N v es (each f xs) (\<lambda>fs ys. P fs) s"
  using assms
proof (induction xs arbitrary: es s)
  case (Cons x xs)
  show ?case
    unfolding each.simps
  proof (rule safe_bind [OF Cons.prems(3) [OF _ graph_extends_refl Cons.prems(1,2)]])
    fix fs y and t :: "'z egraph_scheme"
    assume fs: "graph_extends es fs" "graph_ok N v fs t" "P fs"
    show "safe E N v fs (bind (each f xs) (\<lambda>ys. ret (y # ys))) (\<lambda>fs ys. P fs) t"
    proof (rule safe_bind [OF Cons.IH [OF fs(2,3)]])
      show "safe E N v gs (f z) (\<lambda>gs y. P gs) r" if "z \<in> set xs" "graph_extends fs gs" "graph_ok N v gs r" "P gs" for z gs and r :: "'z egraph_scheme"
        using Cons.prems(3) [of z gs r] that fs(1) graph_extends_trans by auto
    qed auto
  qed simp
qed auto

section \<open>Adding nodes and merging classes\<close>

abbreviation only_limit :: "eg_failure \<Rightarrow> bool" where
  "only_limit e \<equiv> \<exists>msg. e = Raised (LogicLimit msg)"

lemma belongs_new:
  assumes "node_in N (length es) n"
  shows "belongs N v (es @ [node_val v es n]) n (length es)"
proof -
  have "graph_extends es (es @ [node_val v es n])" by (simp add: graph_extends_def)
  from extends_node [OF this assms] show ?thesis by (simp add: belongs_def)
qed

lemma graph_ok_new_class:
  assumes ok: "graph_ok N v es s" and n: "node_in N (length es) n" and s': "(Inr i, t) = new_class n s"
  shows "graph_ok N v (es @ [node_val v es n]) t \<and> i = length es"
proof -
  let ?k = "length es" and ?fs = "es @ [node_val v es n]"
  note D = graph_okD [OF ok]
  have ext: "graph_extends es ?fs" by (simp add: graph_extends_def)
  have t: "t = s\<lparr>eg_parent := eg_parent s @ [?k], eg_classes := dict_set ?k [n] (eg_classes s),
      eg_memo := dict_set n ?k (eg_memo s)\<rparr>" "i = ?k"
    using s' D(1) by (auto simp: new_class_def Let_def split: if_splits)
  have new: "belongs N v ?fs n ?k" by (rule belongs_new [OF n])
  have "parents_ok ?fs (eg_parent t)"
    using ok D(1) by (auto simp: graph_ok_def parents_ok_def t nth_append)
  moreover have "classes_ok N v ?fs (eg_parent t) (eg_classes t)"
    unfolding classes_ok_def
  proof (intro conjI ballI)
    show "distinct (map fst (eg_classes t))" using D(4) by (simp add: t distinct_dict_set)
    show "fst ` set (eg_classes t) = {i. i < length (eg_parent t) \<and> eg_parent t ! i = i}"
      using D(1,5) by (auto simp: t keys_dict_set nth_append)
    fix c
    assume "c \<in> set (eg_classes t)"
    then have "c = (?k, [n]) \<or> c \<in> set (eg_classes s)" using set_dict_set_subset by (fastforce simp: t)
    then show "case c of (r, ns) \<Rightarrow> \<forall>m \<in> set ns. belongs N v ?fs m r"
      using new D(6) extends_belongs [OF ext] by (cases c) auto
  qed
  moreover have "memo_ok N v ?fs (eg_memo t)"
    using new D(7) extends_belongs [OF ext] set_dict_set_subset [of n ?k "eg_memo s"]
    by (fastforce simp: memo_ok_def t)
  ultimately show ?thesis using t(2) by (simp add: graph_ok_def)
qed

lemma safe_new_class:
  assumes ok: "graph_ok N v es s" and n: "node_in N (length es) n"
  shows "safe only_limit N v es (new_class n) (\<lambda>fs i. i < length fs \<and> fs ! i = node_val v es n) s"
proof (cases "eg_max_nodes s \<le> length (eg_parent s)")
  case True
  then show ?thesis
    using ok by (intro safeI [where fs = es and t = s]) (auto simp: new_class_def Let_def)
next
  case False
  then obtain i t where it: "new_class n s = (Inr i, t)" by (simp add: new_class_def Let_def)
  then show ?thesis
    using graph_ok_new_class [OF ok n it [symmetric]]
    by (intro safeI [where fs = "es @ [node_val v es n]"]) (auto simp: graph_extends_def nth_append)
qed

lemma safe_add_node:
  assumes ok: "graph_ok N v es s" and n: "node_in N (length es) (op, name, cs)"
  shows "safe only_limit N v es (add_node op cs name) (\<lambda>fs i. i < length fs \<and> fs ! i = node_val v es (op, name, cs)) s"
  unfolding add_node_def
proof (rule safe_bind [OF safe_canonical [OF ok n]])
  fix fs m t
  assume fs: "graph_extends es fs" "graph_ok N v fs t"
    and m: "fs = es \<and> node_in N (length fs) m \<and> node_val v fs m = node_val v es (op, name, cs)"
  let ?k = "\<lambda>s. case map_of (eg_memo s) m of Some i \<Rightarrow> eg_find i s | None \<Rightarrow> new_class m s"
  show "safe only_limit N v fs ?k (\<lambda>gs i. i < length gs \<and> gs ! i = node_val v es (op, name, cs)) t"
  proof (cases "map_of (eg_memo t) m")
    case None
    moreover have "safe only_limit N v fs (new_class m) (\<lambda>gs i. i < length gs \<and> gs ! i = node_val v es (op, name, cs)) t"
    proof -
      have m': "fs = es" "node_in N (length es) m" "node_val v es m = node_val v es (op, name, cs)" using m by auto
      show ?thesis using safe_new_class [of N v es t m] fs(2) by (simp add: m')
    qed
    ultimately show ?thesis by (simp add: safe_def)
  next
    case (Some i)
    then have "belongs N v fs m i" using graph_okD(7) [OF fs(2)] map_of_SomeD by fast
    then have i: "i < length fs" "fs ! i = node_val v es (op, name, cs)" using m by (auto simp: belongs_def)
    have "safe only_limit N v fs (eg_find i) (\<lambda>gs i. i < length gs \<and> gs ! i = node_val v es (op, name, cs)) t"
      by (rule safe_mono [OF safe_find [OF fs(2) i(1)]]) (use i(2) in auto)
    with Some show ?thesis by (simp add: safe_def)
  qed
qed

lemma graph_ok_merge:
  assumes ok: "graph_ok N v es s" and ab: "a < b" "b < length es" "eg_parent s ! a = a" "eg_parent s ! b = b" "es ! a = es ! b"
  obtains t where "merge a b s = (Inr True, t)" "graph_ok N v es t" "length (eg_classes s) = Suc (length (eg_classes t))"
    "eg_parent t = (eg_parent s)[b := a]"
proof -
  let ?ps = "eg_parent s" and ?cls = "eg_classes s"
  note D = graph_okD [OF ok]
  have keys: "a \<in> fst ` set ?cls" "b \<in> fst ` set ?cls" using D(1,5) ab by auto
  then obtain ns ms where nm: "map_of ?cls a = Some ns" "map_of ?cls b = Some ms"
    by (metis map_of_eq_None_iff not_None_eq)
  define cls where "cls = dict_set a (List.union ns ms) (dict_pop b ?cls)"
  define t where "t = s\<lparr>eg_parent := ?ps[b := a], eg_classes := cls, eg_unions := Suc (eg_unions s)\<rparr>"
  show thesis
  proof (rule that [of t])
    show "merge a b s = (Inr True, t)" using ab(1) nm by (simp add: merge_def Let_def t_def cls_def)
    have in_cls: "(a, ns) \<in> set ?cls" "(b, ms) \<in> set ?cls" using nm by (simp_all add: map_of_SomeD)
    have "parents_ok es (?ps[b := a])"
      using ok ab by (auto simp: graph_ok_def parents_ok_def nth_list_update)
    moreover have "classes_ok N v es (?ps[b := a]) cls"
      unfolding classes_ok_def
    proof (intro conjI ballI)
      show "distinct (map fst cls)" unfolding cls_def by (intro distinct_dict_set distinct_dict_pop D(4))
      show "fst ` set cls = {i. i < length (?ps[b := a]) \<and> ?ps[b := a] ! i = i}"
        using D(1,5) ab keys by (auto simp: cls_def keys_dict_set keys_dict_pop nth_list_update)
      fix c
      assume "c \<in> set cls"
      then have "c = (a, List.union ns ms) \<or> c \<in> set ?cls"
        using set_dict_set_subset set_dict_pop_subset unfolding cls_def by fastforce
      moreover have "belongs N v es n a" if "n \<in> set ms" for n
        using D(6) [OF in_cls(2) that] ab by (simp add: belongs_def)
      ultimately show "case c of (r, ns) \<Rightarrow> \<forall>n \<in> set ns. belongs N v es n r"
        using D(6) in_cls(1) by (cases c) auto
    qed
    ultimately show "graph_ok N v es t" using ok by (simp add: graph_ok_def t_def)
    have "length (map fst ?cls) = Suc (length (map fst cls))"
      using D(4) keys ab(1) distinct_dict_set [OF distinct_dict_pop [OF D(4)]]
      unfolding length_map cls_def
      by (metis (no_types, lifting) Suc_pred card.remove card_Diff_singleton distinct_card finite_set
          insert_absorb keys_dict_pop keys_dict_set length_map length_pos_if_in_set list.set_map
          card_gt_0_iff empty_iff image_eqI Diff_iff singletonD nat_neq_iff)
    then show "length ?cls = Suc (length (eg_classes t))" by (simp add: t_def)
  qed (simp add: t_def)
qed


lemma safe_merge:
  assumes ok: "graph_ok N v es s" and ab: "a < length es" "b < length es" "eg_parent s ! a = a" "eg_parent s ! b = b" "es ! a = es ! b"
  shows "safe E N v es (merge (min a b) (max a b)) (\<lambda>fs c. fs = es) s"
proof (cases "a = b")
  case True
  then show ?thesis using ok by (intro safeI [where fs = es and t = s and r = "Inr False"]) (auto simp: merge_def)
next
  case False
  then have "min a b < max a b" "max a b < length es" "eg_parent s ! min a b = min a b"
      "eg_parent s ! max a b = max a b" "es ! min a b = es ! max a b"
    using ab by (auto simp: min_def max_def)
  from graph_ok_merge [OF ok this] obtain t where "merge (min a b) (max a b) s = (Inr True, t)" "graph_ok N v es t" by blast
  then show ?thesis by (intro safeI [where fs = es]) auto
qed

text \<open>What \<open>union\<close> does: nothing but shortening paths when both ends have one root, and one class
  less otherwise.\<close>

lemma union_spec:
  assumes ok: "graph_ok N v es s" and ij: "i < length es" "j < length es" "es ! i = es ! j"
  obtains c t where "eg_union i j s = (Inr c, t)" "graph_ok N v es t"
    "c \<Longrightarrow> length (eg_classes s) = Suc (length (eg_classes t))"
    "\<not> c \<Longrightarrow> quiet s t" "\<And>R. \<not> c \<Longrightarrow> rooted R (eg_parent s) \<Longrightarrow> R i = R j"
proof -
  obtain a t where a: "eg_find i s = (Inr a, t)" "finds N v es s i a t" by (rule find_spec [OF ok ij(1)])
  have t: "graph_ok N v es t" "quiet s t" using a(2) by (simp_all add: finds_def)
  obtain b t' where b: "eg_find j t = (Inr b, t')" "finds N v es t j b t'" by (rule find_spec [OF t(1) ij(2)])
  have t': "graph_ok N v es t'" "quiet t t'" using b(2) by (simp_all add: finds_def)
  have root_a: "eg_parent t' ! a = a"
    using a(2) t' finds_less [OF a(2) ij(1)] graph_okD(1) [OF t(1)] by (simp add: finds_def quiet_fields(9))
  have run: "eg_union i j s = merge (min a b) (max a b) t'"
    using a(1) b(1) by (simp add: eg_union_def bind_def)
  show thesis
  proof (cases "a = b")
    case True
    then have "eg_union i j s = (Inr False, t')" using run by (simp add: merge_def)
    moreover have "R i = R j" if "rooted R (eg_parent s)" for R
      using that a(2) b(2) True t(2) by (simp add: finds_def quiet_def)
    ultimately show thesis using that t'(1) quiet_trans [OF t(2) t'(2)] by blast
  next
    case False
    then have "min a b < max a b" "max a b < length es" "eg_parent t' ! min a b = min a b"
        "eg_parent t' ! max a b = max a b" "es ! min a b = es ! max a b"
      using finds_less [OF a(2) ij(1)] finds_less [OF b(2) ij(2)] root_a a(2) b(2) ij(3)
      by (auto simp: min_def max_def finds_def)
    from graph_ok_merge [OF t'(1) this] obtain r where "merge (min a b) (max a b) t' = (Inr True, r)" "graph_ok N v es r"
        "length (eg_classes t') = Suc (length (eg_classes r))" by blast
    then show thesis using that run quiet_fields(1) [OF t(2)] quiet_fields(1) [OF t'(2)] by auto
  qed
qed

lemma safe_union:
  assumes "graph_ok N v es s" and "i < length es" "j < length es" "es ! i = es ! j"
  shows "safe E N v es (eg_union i j) (\<lambda>fs c. fs = es) s"
proof -
  obtain c t where "eg_union i j s = (Inr c, t)" "graph_ok N v es t" by (rule union_spec [OF assms])
  then show ?thesis by (intro safeI [where fs = es]) auto
qed

section \<open>Adding formulas\<close>

lemma op_val_bop: "op_val (bop_name op) [] [x, y] v = bop_val op x y"
  by (cases op) (simp_all add: op_val_def bop_name_def bop_of_def)

lemma node_val_leaf:
  "node_val v es (''var'', n, []) = v n" "node_val v es (''true'', n, []) = True" "node_val v es (''false'', n, []) = False"
  by (simp_all add: node_val_def op_val_def)

lemma node_val_not: "node_val v es (''not'', n, [c]) = (\<not> es ! c)"
  by (simp add: node_val_def op_val_def)

lemma proper_bop: "proper_op N (bop_name op) [] 2"
  by (cases op) (simp_all add: proper_op_def bop_name_def)

lemma safe_add_formula:
  assumes "graph_ok N v es s" and "vars f \<subseteq> N"
  shows "safe only_limit N v es (add_formula f) (\<lambda>fs i. i < length fs \<and> fs ! i = sem f v) s"
  using assms
proof (induction f arbitrary: es s)
  case (FVar n)
  then have "node_in N (length es) (''var'', n, [])" by (simp add: node_in_def proper_op_def)
  from safe_add_node [OF FVar(1) this] show ?case by (simp add: node_val_leaf)
next
  case FTrue
  have "node_in N (length es) (''true'', [], [])" by (simp add: node_in_def proper_op_def)
  from safe_add_node [OF FTrue(1) this] show ?case by (simp add: node_val_leaf)
next
  case FFalse
  have "node_in N (length es) (''false'', [], [])" by (simp add: node_in_def proper_op_def)
  from safe_add_node [OF FFalse(1) this] show ?case by (simp add: node_val_leaf)
next
  case (FNot f)
  have sub: "vars f \<subseteq> N" using FNot.prems(2) by simp
  show ?case
    unfolding add_formula.simps
  proof (rule safe_bind [OF FNot.IH [OF FNot.prems(1) sub]])
    fix fs c and t :: "'a egraph_scheme"
    assume t: "graph_ok N v fs t" and c: "c < length fs \<and> fs ! c = sem f v"
    then have "node_in N (length fs) (''not'', [], [c])" by (simp add: node_in_def proper_op_def)
    from safe_add_node [OF t this]
    show "safe only_limit N v fs (add_node ''not'' [c] []) (\<lambda>gs i. i < length gs \<and> gs ! i = sem (FNot f) v) t"
      using c by (simp add: node_val_not)
  qed
next
  case (FBin op f g)
  have sub: "vars f \<subseteq> N" "vars g \<subseteq> N" using FBin.prems(2) by simp_all
  show ?case
    unfolding add_formula.simps
  proof (rule safe_bind [OF FBin.IH(1) [OF FBin.prems(1) sub(1)]])
    fix fs c and t :: "'a egraph_scheme"
    assume t: "graph_ok N v fs t" and c: "c < length fs \<and> fs ! c = sem f v"
    show "safe only_limit N v fs (bind (add_formula g) (\<lambda>d. add_node (bop_name op) [c, d] []))
        (\<lambda>gs i. i < length gs \<and> gs ! i = sem (FBin op f g) v) t"
    proof (rule safe_bind [OF FBin.IH(2) [OF t sub(2)]])
      fix gs d and r :: "'a egraph_scheme"
      assume e: "graph_extends fs gs" and r: "graph_ok N v gs r" and d: "d < length gs \<and> gs ! d = sem g v"
      have c': "c < length gs \<and> gs ! c = sem f v" using c extends_nth [OF e] by simp
      have "node_in N (length gs) (bop_name op, [], [c, d])"
        using proper_bop [of N op] c' d by (simp add: node_in_def numeral_2_eq_2)
      from safe_add_node [OF r this]
      show "safe only_limit N v gs (add_node (bop_name op) [c, d] []) (\<lambda>gs i. i < length gs \<and> gs ! i = sem (FBin op f g) v) r"
        using c' d by (simp add: node_val_def op_val_bop)
    qed
  qed
qed

end
