(* ===== verification/EG_Repair.thy ===== *)
theory EG_Repair
  imports EG_Sound
begin

text \<open>
  Congruence repair: \<open>rebuild\<close> always ends, keeps the meaning of every class, and leaves a graph
  whose nodes have roots as children, in which no node stands in two classes and whose memo lists
  exactly the nodes of the classes.
\<close>

section \<open>One pass\<close>

text \<open>The new memo \<open>m\<close> has the canonical form of each item under the root of its owner.\<close>

definition recorded :: "(nat \<Rightarrow> nat) \<Rightarrow> (enode \<times> nat) list \<Rightarrow> (nat \<times> enode) list \<Rightarrow> bool" where
  "recorded R m items \<longleftrightarrow> (\<forall>(i, n) \<in> set items. map_of m (rooted_node R n) = Some (R i))"

definition root_values :: "(nat \<Rightarrow> nat) \<Rightarrow> (enode \<times> nat) list \<Rightarrow> bool" where
  "root_values R m \<longleftrightarrow> (\<forall>n j. map_of m n = Some j \<longrightarrow> R j = j)"

text \<open>What part of a pass does to the graph and to the accumulator \<open>(m, c)\<close>.\<close>

definition repaired :: "utext set \<Rightarrow> (utext \<Rightarrow> bool) \<Rightarrow> bool list \<Rightarrow> 'z egraph_scheme \<Rightarrow> (enode \<times> nat) list \<Rightarrow> bool
    \<Rightarrow> (nat \<times> enode) list \<Rightarrow> 'z egraph_scheme \<Rightarrow> (enode \<times> nat) list \<Rightarrow> bool \<Rightarrow> bool" where
  "repaired N v es s m c items t m' c' \<longleftrightarrow>
     graph_ok N v es t \<and> memo_ok N v es m' \<and> length (eg_classes t) \<le> length (eg_classes s) \<and> (c \<longrightarrow> c')
     \<and> (c' \<and> \<not> c \<longrightarrow> length (eg_classes t) < length (eg_classes s))
     \<and> (\<not> c' \<longrightarrow> quiet s t \<and> map_of m \<subseteq>\<^sub>m map_of m'
         \<and> (\<forall>R. rooted R (eg_parent s) \<longrightarrow> root_values R m \<longrightarrow> root_values R m' \<and> recorded R m' items))"

lemma repair_node_spec:
  assumes ok: "graph_ok N v es s" and m: "memo_ok N v es m" and n: "belongs N v es n i"
  shows "\<exists>t m' c'. repair_node i n (m, c) s = (Inr (m', c'), t) \<and> repaired N v es s m c [(i, n)] t m' c'"
proof -
  have i: "i < length es" and nin: "node_in N (length es) n" and val: "node_val v es n = es ! i"
    using n by (simp_all add: belongs_def)
  obtain key t where key: "canonical n s = (Inr key, t)" "quiet s t" "graph_ok N v es t" "node_in N (length es) key"
      "node_val v es key = node_val v es n" "\<And>R. rooted R (eg_parent s) \<Longrightarrow> key = rooted_node R n"
    using canonical_spec [OF ok nin] by metis
  show ?thesis
  proof (cases "map_of m key")
    case (Some j)
    then have "belongs N v es key j" using m map_of_SomeD unfolding memo_ok_def by fast
    then have j: "j < length es" "es ! i = es ! j" using key(5) val by (auto simp: belongs_def)
    obtain d t' where d: "eg_union i j t = (Inr d, t')" "graph_ok N v es t'"
        "d \<Longrightarrow> length (eg_classes t) = Suc (length (eg_classes t'))" "\<not> d \<Longrightarrow> quiet t t'"
        "\<And>R. \<not> d \<Longrightarrow> rooted R (eg_parent t) \<Longrightarrow> R i = R j"
      using union_spec [OF key(3) i j] by metis
    have run: "repair_node i n (m, c) s = (Inr (m, c \<or> d), t')"
      using key(1) Some d(1) by (simp add: repair_node_def bind_def ret_def)
    have "recorded R m [(i, n)]" if R: "rooted R (eg_parent s)" "root_values R m" "\<not> d" for R
    proof -
      have "R j = j" using R(2) Some unfolding root_values_def by blast
      then show ?thesis
        using key(6) [OF R(1)] Some d(5) [OF R(3) quiet_fields(10) [OF key(2) R(1)]] by (simp add: recorded_def)
    qed
    then have "repaired N v es s m c [(i, n)] t' m (c \<or> d)"
      using d m quiet_trans [OF key(2)] quiet_fields(1,8) [OF key(2)] d(4)[THEN quiet_fields(1)]
      by (cases d) (auto simp: repaired_def)
    with run show ?thesis by metis
  next
    case None
    obtain r t' where r: "eg_find i t = (Inr r, t')" "finds N v es t i r t'" by (rule find_spec [OF key(3) i])
    have t': "graph_ok N v es t'" "quiet t t'" using r(2) by (simp_all add: finds_def)
    have run: "repair_node i n (m, c) s = (Inr (dict_set key r m, c), t')"
      using key(1) None r(1) by (simp add: repair_node_def bind_def ret_def)
    have "belongs N v es key r"
      using key(4,5) val r(2) finds_less [OF r(2) i] by (simp add: belongs_def finds_def)
    then have m': "memo_ok N v es (dict_set key r m)"
      using m set_dict_set_subset [of key r m] by (fastforce simp: memo_ok_def)
    have "root_values R (dict_set key r m) \<and> recorded R (dict_set key r m) [(i, n)]"
      if R: "rooted R (eg_parent s)" "root_values R m" for R
    proof -
      have Rt: "rooted R (eg_parent t)" using quiet_fields(10) [OF key(2) R(1)] .
      have Rt': "rooted R (eg_parent t')" using quiet_fields(10) [OF t'(2) Rt] .
      have "r = R i" using r(2) Rt by (simp add: finds_def)
      moreover have "R r = r"
        using Rt' r(2) finds_less [OF r(2) i] graph_okD(1) [OF t'(1)] by (auto simp: rooted_def finds_def)
      ultimately show ?thesis
        using key(6) [OF R(1)] R(2) by (auto simp: recorded_def root_values_def dict_simps)
    qed
    moreover have "map_of m \<subseteq>\<^sub>m map_of (dict_set key r m)"
      using None by (auto simp: map_le_def dict_simps)
    ultimately have "repaired N v es s m c [(i, n)] t' (dict_set key r m) c"
      using t' m' quiet_trans [OF key(2) t'(2)] quiet_fields(1) [OF key(2)] quiet_fields(1) [OF t'(2)]
      by (auto simp: repaired_def)
    with run show ?thesis by metis
  qed
qed

lemma map_le_SomeD: "f \<subseteq>\<^sub>m g \<Longrightarrow> f x = Some y \<Longrightarrow> g x = Some y"
  by (auto simp: map_le_def dom_def)

lemma recorded_mono: "recorded R m items \<Longrightarrow> map_of m \<subseteq>\<^sub>m map_of m' \<Longrightarrow> recorded R m' items"
  unfolding recorded_def by (fastforce dest: map_le_SomeD)

lemma repaired_step:
  assumes a: "repaired N v es s m c [(i, n)] t m1 c1" and b: "repaired N v es t m1 c1 items r m2 c2"
  shows "repaired N v es s m c ((i, n) # items) r m2 c2"
proof -
  have "root_values R m2 \<and> recorded R m2 ((i, n) # items)"
    if c2: "\<not> c2" and R: "rooted R (eg_parent s)" "root_values R m" for R
  proof -
    have c1: "\<not> c1" using b c2 by (auto simp: repaired_def)
    then have A: "quiet s t" "root_values R m1" "recorded R m1 [(i, n)]" using a R by (auto simp: repaired_def)
    have "rooted R (eg_parent t)" using quiet_fields(10) [OF A(1) R(1)] .
    then have B: "root_values R m2" "recorded R m2 items" "map_of m1 \<subseteq>\<^sub>m map_of m2"
      using b c2 A(2) by (auto simp: repaired_def)
    show ?thesis using B recorded_mono [OF A(3) B(3)] by (auto simp: recorded_def)
  qed
  then show ?thesis
    using a b quiet_trans map_le_trans unfolding repaired_def by (smt (verit, best) order.strict_trans1 order.strict_trans2 order_trans)
qed

lemma repair_all_spec:
  assumes "graph_ok N v es s" and "memo_ok N v es m" and "\<forall>(i, n) \<in> set items. belongs N v es n i"
  shows "\<exists>t m' c'. repair_all items (m, c) s = (Inr (m', c'), t) \<and> repaired N v es s m c items t m' c'"
  using assms
proof (induction items arbitrary: s m c)
  case Nil
  then have "repair_all [] (m, c) s = (Inr (m, c), s)" by (simp add: ret_def)
  moreover have "repaired N v es s m c [] s m c" using Nil by (simp add: repaired_def recorded_def)
  ultimately show ?case by blast
next
  case (Cons rn items)
  obtain i n where rn: "rn = (i, n)" by (cases rn)
  obtain t m1 c1 where 1: "repair_node i n (m, c) s = (Inr (m1, c1), t)" "repaired N v es s m c [(i, n)] t m1 c1"
    using repair_node_spec [OF Cons.prems(1,2), of n i c] Cons.prems(3) rn by auto
  then have "graph_ok N v es t" "memo_ok N v es m1" by (simp_all add: repaired_def)
  from Cons.IH [OF this, of c1] Cons.prems(3) obtain r m2 c2
    where 2: "repair_all items (m1, c1) t = (Inr (m2, c2), r)" "repaired N v es t m1 c1 items r m2 c2" by auto
  have "repair_all (rn # items) (m, c) s = (Inr (m2, c2), r)" using 1(1) 2(1) rn by (simp add: bind_def)
  then show ?case using repaired_step [OF 1(2) 2(2)] rn by blast
qed

section \<open>The closed graph\<close>

definition congruence_closed :: "'z egraph_scheme \<Rightarrow> bool" where
  "congruence_closed s \<longleftrightarrow>
     (\<forall>(r, ns) \<in> set (eg_classes s). \<forall>n \<in> set ns. \<forall>c \<in> set (children n). eg_parent s ! c = c)
     \<and> (\<forall>(r, ns) \<in> set (eg_classes s). \<forall>(r', ns') \<in> set (eg_classes s). set ns \<inter> set ns' \<noteq> {} \<longrightarrow> r = r')
     \<and> (\<forall>n r. map_of (eg_memo s) n = Some r \<longleftrightarrow> (\<exists>ns. (r, ns) \<in> set (eg_classes s) \<and> n \<in> set ns))"

lemma map_of_record:
  "map_of (foldl (\<lambda>m (n, r). dict_set n r m) m0 xs) = (\<lambda>n. case map_of (rev xs) n of Some r \<Rightarrow> Some r | None \<Rightarrow> map_of m0 n)"
  by (induction xs arbitrary: m0) (auto simp: dict_simps map_add_def fun_eq_iff split: option.splits)

lemma set_record: "set (foldl (\<lambda>m (n, r). dict_set n r m) m0 xs) \<subseteq> set m0 \<union> set xs"
proof (induction xs arbitrary: m0)
  case (Cons x xs)
  obtain n r where x: "x = (n, r)" by (cases x)
  have "set (dict_set n r m0) \<subseteq> insert (n, r) (set m0)" by (rule set_dict_set_subset)
  then show ?case using Cons.IH [of "dict_set n r m0"] x by auto
qed simp

definition class_pairs :: "(nat \<times> enode list) list \<Rightarrow> (enode \<times> nat) list" where
  "class_pairs cls = concat (map (\<lambda>(r, ns). map (\<lambda>n. (n, r)) ns) cls)"

lemma set_class_pairs: "(n, r) \<in> set (class_pairs cls) \<longleftrightarrow> (\<exists>ns. (r, ns) \<in> set cls \<and> n \<in> set ns)"
  by (fastforce simp: class_pairs_def)

lemma memo_of_classes_lookup:
  assumes "\<And>n r r'. (n, r) \<in> set (class_pairs cls) \<Longrightarrow> (n, r') \<in> set (class_pairs cls) \<Longrightarrow> r = r'"
  shows "map_of (memo_of_classes cls) n = Some r \<longleftrightarrow> (n, r) \<in> set (class_pairs cls)"
proof -
  have e: "memo_of_classes cls = foldl (\<lambda>m (n, r). dict_set n r m) [] (class_pairs cls)"
    by (simp add: memo_of_classes_def class_pairs_def)
  have "map_of (memo_of_classes cls) n = map_of (rev (class_pairs cls)) n"
    unfolding e map_of_record by (simp split: option.split)
  moreover have "map_of (rev (class_pairs cls)) n = Some r \<longleftrightarrow> (n, r) \<in> set (class_pairs cls)"
    using assms map_of_SomeD [of "rev (class_pairs cls)" n] weak_map_of_SomeI [of n r "rev (class_pairs cls)"]
    by (metis set_rev)
  ultimately show ?thesis by simp
qed

lemma each_canonical:
  assumes "graph_ok N v es s" and "\<forall>n \<in> set ns. node_in N (length es) n" and "rooted R (eg_parent s)"
  shows "\<exists>t. each canonical ns s = (Inr (map (rooted_node R) ns), t) \<and> quiet s t \<and> graph_ok N v es t
    \<and> (\<forall>n \<in> set ns. node_in N (length es) (rooted_node R n) \<and> node_val v es (rooted_node R n) = node_val v es n
        \<and> (\<forall>c \<in> set (children (rooted_node R n)). eg_parent t ! c = c))"
  using assms
proof (induction ns arbitrary: s)
  case Nil
  then show ?case by (simp add: ret_def)
next
  case (Cons n ns)
  then have n: "node_in N (length es) n" by simp
  obtain m t where m: "canonical n s = (Inr m, t)" "quiet s t" "graph_ok N v es t" "node_in N (length es) m"
      "node_val v es m = node_val v es n" "\<forall>c \<in> set (children m). eg_parent t ! c = c" "m = rooted_node R n"
    using canonical_spec [OF Cons.prems(1) n] Cons.prems(3) by metis
  have "rooted R (eg_parent t)" using quiet_fields(10) [OF m(2) Cons.prems(3)] .
  from Cons.IH [OF m(3) _ this] Cons.prems(2) obtain r where r: "each canonical ns t = (Inr (map (rooted_node R) ns), r)"
      "quiet t r" "graph_ok N v es r"
      "\<forall>n \<in> set ns. node_in N (length es) (rooted_node R n) \<and> node_val v es (rooted_node R n) = node_val v es n
        \<and> (\<forall>c \<in> set (children (rooted_node R n)). eg_parent r ! c = c)" by auto
  have "eg_parent r ! c = c" if "c \<in> set (children m)" for c
  proof -
    have "c < length (eg_parent t)"
      using m(4) that graph_okD(1) [OF m(3)] by (auto simp: node_in_def children_def split: prod.splits)
    then show ?thesis using quiet_fields(9) [OF r(2)] m(6) that by simp
  qed
  then show ?case
    using m r quiet_trans [OF m(2) r(2)] by (auto simp: bind_def ret_def)
qed


text \<open>The classes after the last pass, for roots \<open>R\<close>.\<close>

definition rooted_classes :: "(nat \<Rightarrow> nat) \<Rightarrow> (nat \<times> enode list) list \<Rightarrow> (nat \<times> enode list) list" where
  "rooted_classes R cls = map (\<lambda>(r, ns). (r, remdups (map (rooted_node R) ns))) cls"

lemma each_canonical_class:
  assumes "graph_ok N v es s" and "\<forall>(r, ns) \<in> set cls. \<forall>n \<in> set ns. node_in N (length es) n" and "rooted R (eg_parent s)"
  shows "\<exists>t. each canonical_class cls s = (Inr (rooted_classes R cls), t) \<and> quiet s t \<and> graph_ok N v es t
    \<and> (\<forall>(r, ns) \<in> set cls. \<forall>n \<in> set ns. node_in N (length es) (rooted_node R n)
        \<and> node_val v es (rooted_node R n) = node_val v es n
        \<and> (\<forall>c \<in> set (children (rooted_node R n)). eg_parent t ! c = c))"
  using assms
proof (induction cls arbitrary: s)
  case Nil
  then show ?case by (simp add: ret_def rooted_classes_def)
next
  case (Cons c cls)
  obtain i ns where c: "c = (i, ns)" by (cases c)
  then have "\<forall>n \<in> set ns. node_in N (length es) n" using Cons.prems(2) by simp
  from each_canonical [OF Cons.prems(1) this Cons.prems(3)] obtain t
    where t: "each canonical ns s = (Inr (map (rooted_node R) ns), t)" "quiet s t" "graph_ok N v es t"
      "\<forall>n \<in> set ns. node_in N (length es) (rooted_node R n) \<and> node_val v es (rooted_node R n) = node_val v es n
        \<and> (\<forall>c \<in> set (children (rooted_node R n)). eg_parent t ! c = c)" by auto
  have "rooted R (eg_parent t)" using quiet_fields(10) [OF t(2) Cons.prems(3)] .
  from Cons.IH [OF t(3) _ this] Cons.prems(2) obtain r
    where r: "each canonical_class cls t = (Inr (rooted_classes R cls), r)" "quiet t r" "graph_ok N v es r"
      "\<forall>(i, ns) \<in> set cls. \<forall>n \<in> set ns. node_in N (length es) (rooted_node R n)
        \<and> node_val v es (rooted_node R n) = node_val v es n
        \<and> (\<forall>c \<in> set (children (rooted_node R n)). eg_parent r ! c = c)" by auto
  have "eg_parent r ! d = d" if "n \<in> set ns" "d \<in> set (children (rooted_node R n))" for n d
  proof -
    have "node_in N (length es) (rooted_node R n)" "eg_parent t ! d = d" using t(4) that by auto
    moreover have "d < length (eg_parent t)"
      using calculation(1) that(2) graph_okD(1) [OF t(3)] by (auto simp: node_in_def children_def split: prod.splits)
    ultimately show ?thesis using quiet_fields(9) [OF r(2)] by simp
  qed
  then have "\<forall>n \<in> set ns. node_in N (length es) (rooted_node R n) \<and> node_val v es (rooted_node R n) = node_val v es n
        \<and> (\<forall>c \<in> set (children (rooted_node R n)). eg_parent r ! c = c)" using t(4) by blast
  moreover have "each canonical_class (c # cls) s = (Inr (rooted_classes R (c # cls)), r)"
    using t(1) r(1) c by (simp add: bind_def ret_def canonical_class_def rooted_classes_def)
  ultimately show ?case
    using r(3,4) c quiet_trans [OF t(2) r(2)] by auto
qed

text \<open>Every graph of the required shape has a function to its roots.\<close>

lemma rooted_exists:
  assumes "parents_ok es ps"
  shows "\<exists>R. rooted R ps"
proof -
  have "\<exists>R. \<forall>i < n. R (ps ! i) = R i \<and> (ps ! i = i \<longrightarrow> R i = i)" if "n \<le> length ps" for n
    using that
  proof (induction n)
    case (Suc n)
    then obtain R where R: "\<forall>i < n. R (ps ! i) = R i \<and> (ps ! i = i \<longrightarrow> R i = i)" by auto
    have le: "ps ! i \<le> i" if "i \<le> n" for i using assms that Suc.prems by (simp add: parents_ok_def)
    let ?Q = "R(n := (if ps ! n = n then n else R (ps ! n)))"
    have "?Q (ps ! i) = ?Q i \<and> (ps ! i = i \<longrightarrow> ?Q i = i)" if "i < Suc n" for i
      using that R le [of i] le [of n] by (cases "i = n") auto
    then show ?case by blast
  qed simp
  from this [of "length ps"] show ?thesis by (auto simp: rooted_def)
qed

lemma class_root_fixed: "graph_ok N v es s \<Longrightarrow> rooted R (eg_parent s) \<Longrightarrow> (r, ns) \<in> set (eg_classes s) \<Longrightarrow> R r = r"
  using graph_okD(5) [of N v es s] unfolding rooted_def by (metis (mono_tags, lifting) fst_conv image_eqI mem_Collect_eq)

lemma close_spec:
  assumes ok: "graph_ok N v es s" and R: "rooted R (eg_parent s)" and rec: "recorded R m (pass_items (eg_classes s))"
  shows "\<exists>t. close_graph s = (Inr (), t) \<and> graph_ok N v es t \<and> congruence_closed t
    \<and> length (eg_classes t) = length (eg_classes s)"
proof -
  let ?cls = "eg_classes s" and ?new = "rooted_classes R (eg_classes s)"
  note D = graph_okD [OF ok]
  have nodes: "\<forall>(r, ns) \<in> set ?cls. \<forall>n \<in> set ns. node_in N (length es) n"
    using D(6) by (fastforce simp: belongs_def)
  from each_canonical_class [OF ok nodes R] obtain t where t: "each canonical_class ?cls s = (Inr ?new, t)" "quiet s t"
      "graph_ok N v es t"
      "\<forall>(r, ns) \<in> set ?cls. \<forall>n \<in> set ns. node_in N (length es) (rooted_node R n)
        \<and> node_val v es (rooted_node R n) = node_val v es n
        \<and> (\<forall>c \<in> set (children (rooted_node R n)). eg_parent t ! c = c)" by blast
  define t' where "t' = t\<lparr>eg_classes := ?new, eg_memo := memo_of_classes ?new\<rparr>"
  have run: "close_graph s = (Inr (), t')" using t(1) by (simp add: close_graph_def bind_def t'_def)
  have member: "\<exists>ns n. (r, ns) \<in> set ?cls \<and> n \<in> set ns \<and> m' = rooted_node R n"
    if "(r, ms) \<in> set ?new" "m' \<in> set ms" for r ms m'
    using that unfolding rooted_classes_def by (auto simp del: split_paired_Ex) blast
  have bel: "belongs N v es m' r" if "(r, ms) \<in> set ?new" "m' \<in> set ms" for r ms m'
  proof -
    from member [OF that] obtain ns n where n: "(r, ns) \<in> set ?cls" "n \<in> set ns" "m' = rooted_node R n" by blast
    then show ?thesis using D(6) [OF n(1,2)] t(4) by (fastforce simp: belongs_def)
  qed
  have owner: "map_of m m' = Some r" if "(r, ms) \<in> set ?new" "m' \<in> set ms" for r ms m'
  proof -
    from member [OF that] obtain ns n where n: "(r, ns) \<in> set ?cls" "n \<in> set ns" "m' = rooted_node R n" by blast
    then have "(r, n) \<in> set (pass_items ?cls)" by (force simp: pass_items_def)
    then show ?thesis using rec n(3) class_root_fixed [OF ok R n(1)] by (auto simp: recorded_def)
  qed
  have fst_new: "map fst ?new = map fst ?cls" by (auto simp: rooted_classes_def)
  have "classes_ok N v es (eg_parent t) ?new"
    unfolding classes_ok_def
  proof (intro conjI)
    show "distinct (map fst ?new)" using fst_new D(4) by simp
    have "fst ` set ?new = fst ` set ?cls" using fst_new by (metis list.set_map)
    then show "fst ` set ?new = {i. i < length (eg_parent t) \<and> eg_parent t ! i = i}"
      using graph_okD(5) [OF t(3)] quiet_fields(1) [OF t(2)] by simp
  qed (use bel in auto)
  moreover have "memo_ok N v es (memo_of_classes ?new)"
    using bel set_record [of "[]" "class_pairs ?new"] set_class_pairs
    unfolding memo_ok_def memo_of_classes_def class_pairs_def by fastforce
  ultimately have ok': "graph_ok N v es t'" using t(3) by (simp add: graph_ok_def t'_def)
  have unique: "r = r'" if "(n, r) \<in> set (class_pairs ?new)" "(n, r') \<in> set (class_pairs ?new)" for n r r'
    using that owner unfolding set_class_pairs by (metis option.inject)
  have "congruence_closed t'"
    unfolding congruence_closed_def
  proof (intro conjI)
    show "\<forall>(r, ns) \<in> set (eg_classes t'). \<forall>n \<in> set ns. \<forall>c \<in> set (children n). eg_parent t' ! c = c"
    proof (clarify)
      fix r ms op name cs c
      assume "(r, ms) \<in> set (eg_classes t')" "(op, name, cs) \<in> set ms" and c: "c \<in> set (children (op, name, cs))"
      then obtain ns n where "(r, ns) \<in> set ?cls" "n \<in> set ns" "(op, name, cs) = rooted_node R n"
        using member [of r ms "(op, name, cs)"] by (auto simp: t'_def simp del: split_paired_Ex)
      then show "eg_parent t' ! c = c" using t(4) c by (fastforce simp: t'_def)
    qed
    show "\<forall>(r, ns) \<in> set (eg_classes t'). \<forall>(r', ns') \<in> set (eg_classes t'). set ns \<inter> set ns' \<noteq> {} \<longrightarrow> r = r'"
    proof (clarify)
      fix r ns r' ns'
      assume "(r, ns) \<in> set (eg_classes t')" "(r', ns') \<in> set (eg_classes t')" "set ns \<inter> set ns' \<noteq> {}"
      then show "r = r'" using owner by (auto simp: t'_def simp del: split_paired_Ex) (metis option.inject)
    qed
    show "\<forall>n r. map_of (eg_memo t') n = Some r \<longleftrightarrow> (\<exists>ns. (r, ns) \<in> set (eg_classes t') \<and> n \<in> set ns)"
      using memo_of_classes_lookup [of ?new] unique set_class_pairs [of _ _ ?new] by (simp add: t'_def)
  qed
  moreover have "length (eg_classes t') = length ?cls" by (simp add: t'_def rooted_classes_def)
  ultimately show ?thesis using run ok' by blast
qed

lemma rebuild_loop_spec:
  assumes "graph_ok N v es s" and "length (eg_classes s) < k"
  shows "\<exists>t. rebuild_loop k s = (Inr (), t) \<and> graph_ok N v es t \<and> congruence_closed t
    \<and> length (eg_classes t) \<le> length (eg_classes s)"
  using assms
proof (induction k arbitrary: s)
  case (Suc k)
  let ?items = "pass_items (eg_classes s)"
  have items: "\<forall>(i, n) \<in> set ?items. belongs N v es n i"
    using graph_okD(6) [OF Suc.prems(1)] by (fastforce simp: pass_items_def)
  have "memo_ok N v es []" by (simp add: memo_ok_def)
  from repair_all_spec [OF Suc.prems(1) this items, of False] obtain t m c
    where run: "repair_all ?items ([], False) s = (Inr (m, c), t)" and r: "repaired N v es s [] False ?items t m c" by blast
  show ?case
  proof (cases c)
    case True
    then have "graph_ok N v es t" "length (eg_classes t) < length (eg_classes s)" using r by (simp_all add: repaired_def)
    then show ?thesis using Suc.IH [of t] Suc.prems(2) run True by (fastforce simp: bind_def)
  next
    case False
    then have q: "quiet s t" "graph_ok N v es t" using r by (simp_all add: repaired_def)
    obtain R where R: "rooted R (eg_parent s)"
      using rooted_exists Suc.prems(1) by (auto simp: graph_ok_def)
    then have rec: "recorded R m ?items" using r False by (simp add: repaired_def root_values_def)
    have "recorded R m (pass_items (eg_classes t))" using rec quiet_fields(1) [OF q(1)] by simp
    from close_spec [OF q(2) quiet_fields(10) [OF q(1) R] this] show ?thesis
      using run False quiet_fields(1) [OF q(1)] by (auto simp: bind_def)
  qed
qed simp

lemma rebuild_spec:
  assumes "graph_ok N v es s"
  obtains t where "rebuild s = (Inr (), t)" "graph_ok N v es t" "congruence_closed t"
  using rebuild_loop_spec [OF assms, of "Suc (length (eg_classes s))"] by (auto simp: rebuild_def)

lemma safe_rebuild: "graph_ok N v es s \<Longrightarrow> safe E N v es rebuild (\<lambda>fs x. fs = es) s"
  by (erule rebuild_spec) (auto intro!: safeI [where fs = es])

end
