(* ===== verification/EG_Match.thy ===== *)
theory EG_Match
  imports EG_Repair
begin

text \<open>
  Soundness of matching and instantiation: when a pattern matches a class under some bindings, it
  has the value of the class, whatever the consumer of the answers did to the graph between them;
  and instantiating a pattern yields a class with its value.
\<close>

section \<open>Values of patterns\<close>

fun pat_val :: "(string \<Rightarrow> bool) \<Rightarrow> (utext \<Rightarrow> bool) \<Rightarrow> pat \<Rightarrow> bool" where
  "pat_val b v (PVar x) = b x"
| "pat_val b v (POp op ps) = op_val op [] (map (pat_val b v) ps) v"

fun pat_vars :: "pat \<Rightarrow> string set" where
  "pat_vars (PVar x) = {x}"
| "pat_vars (POp op ps) = (\<Union>p \<in> set ps. pat_vars p)"

fun pat_ok :: "pat \<Rightarrow> bool" where
  "pat_ok (PVar x) = True"
| "pat_ok (POp op ps) = (proper_op {} op [] (length ps) \<and> (\<forall>p \<in> set ps. pat_ok p))"

definition bound_val :: "bool list \<Rightarrow> bindings \<Rightarrow> string \<Rightarrow> bool" where
  "bound_val es env x = (case env x of Some i \<Rightarrow> es ! i | None \<Rightarrow> False)"

definition env_ok :: "bool list \<Rightarrow> bindings \<Rightarrow> bool" where
  "env_ok es env \<longleftrightarrow> (\<forall>i \<in> ran env. i < length es)"

text \<open>Later bindings: the bound variables keep their values, the representative may change.\<close>

definition refines :: "bool list \<Rightarrow> bindings \<Rightarrow> bindings \<Rightarrow> bool" where
  "refines es env env' \<longleftrightarrow> dom env \<subseteq> dom env' \<and> (\<forall>x \<in> dom env. bound_val es env' x = bound_val es env x)"

lemma env_okD: "env_ok es env \<Longrightarrow> env x = Some i \<Longrightarrow> i < length es"
  by (auto simp: env_ok_def ran_def)

lemma env_ok_extends: "env_ok es env \<Longrightarrow> graph_extends es fs \<Longrightarrow> env_ok fs env"
  unfolding env_ok_def using extends_nth by blast

lemma bound_val_extends: "env_ok es env \<Longrightarrow> graph_extends es fs \<Longrightarrow> bound_val fs env x = bound_val es env x"
  by (auto simp: bound_val_def env_ok_def ran_def split: option.split dest: extends_nth)

lemma refines_refl [simp]: "refines es env env"
  by (simp add: refines_def)

lemma refines_trans: "refines es env env' \<Longrightarrow> refines es env' env'' \<Longrightarrow> refines es env env''"
  unfolding refines_def by (auto simp: subset_iff)

lemma refines_extends: "refines es env env' \<Longrightarrow> env_ok es env \<Longrightarrow> env_ok es env' \<Longrightarrow> graph_extends es fs \<Longrightarrow> refines fs env env'"
  unfolding refines_def by (metis bound_val_extends)

lemma pat_val_cong: "(\<And>x. x \<in> pat_vars p \<Longrightarrow> b x = b' x) \<Longrightarrow> pat_val b v p = pat_val b' v p"
proof (induction p)
  case (POp op ps)
  then have "map (pat_val b v) ps = map (pat_val b' v) ps" by (intro map_cong) auto
  then show ?case by (simp only: pat_val.simps)
qed simp

lemma pat_val_refines:
  "refines es env env' \<Longrightarrow> pat_vars p \<subseteq> dom env \<Longrightarrow> pat_val (bound_val es env') v p = pat_val (bound_val es env) v p"
  by (rule pat_val_cong) (unfold refines_def, blast)

lemma pat_val_extends: "env_ok es env \<Longrightarrow> graph_extends es fs \<Longrightarrow> pat_val (bound_val fs env) v p = pat_val (bound_val es env) v p"
  by (rule pat_val_cong) (rule bound_val_extends)

section \<open>Matching\<close>

abbreviation unit_ok :: "bool list \<Rightarrow> unit \<Rightarrow> bool" where
  "unit_ok \<equiv> \<lambda>fs x. True"

text \<open>What a consumer may assume: an environment that graph_extends the one the search began with, in
  which the patterns \<open>ps\<close> have the values of the classes \<open>cs\<close>.\<close>

definition consumes :: "utext set \<Rightarrow> (utext \<Rightarrow> bool) \<Rightarrow> bool list \<Rightarrow> pat list \<Rightarrow> nat list \<Rightarrow> bindings
    \<Rightarrow> (bindings \<Rightarrow> ('z, unit) eg) \<Rightarrow> bool" where
  "consumes N v es ps cs env consumer \<longleftrightarrow> (\<forall>fs env' (t :: 'z egraph_scheme).
     graph_extends es fs \<longrightarrow> graph_ok N v fs t \<longrightarrow> env_ok fs env' \<longrightarrow> refines fs env env'
     \<longrightarrow> (\<Union>p \<in> set ps. pat_vars p) \<subseteq> dom env' \<longrightarrow> map (pat_val (bound_val fs env') v) ps = map ((!) fs) cs
     \<longrightarrow> safe only_limit N v fs (consumer env') unit_ok t)"

lemma consumesD:
  "consumes N v es ps cs env consumer \<Longrightarrow> graph_extends es fs \<Longrightarrow> graph_ok N v fs t \<Longrightarrow> env_ok fs env' \<Longrightarrow> refines fs env env'
   \<Longrightarrow> (\<Union>p \<in> set ps. pat_vars p) \<subseteq> dom env' \<Longrightarrow> map (pat_val (bound_val fs env') v) ps = map ((!) fs) cs
   \<Longrightarrow> safe only_limit N v fs (consumer env') unit_ok t"
  unfolding consumes_def by blast

lemma consumes_extends: "consumes N v es ps cs env consumer \<Longrightarrow> graph_extends es fs \<Longrightarrow> consumes N v fs ps cs env consumer"
  unfolding consumes_def by (meson graph_extends_trans)

lemma safe_tick: "graph_ok N v es s \<Longrightarrow> safe only_limit N v es tick (\<lambda>fs x. fs = es) s"
  by (rule safeI [where fs = es and t = "s\<lparr>eg_matches := Suc (eg_matches s)\<rparr>"
        and r = "if eg_max_matches s < Suc (eg_matches s) then Inl (Raised (LogicLimit ''egraph_match_budget'')) else Inr ()"])
     (auto simp: tick_def Let_def graph_ok_def)

lemma safe_nodes_of:
  assumes ok: "graph_ok N v es s" and r: "r < length es" "eg_parent s ! r = r"
  shows "safe E N v es (nodes_of r) (\<lambda>fs ns. fs = es \<and> (\<forall>n \<in> set ns. belongs N v es n r)) s"
proof -
  note D = graph_okD [OF ok]
  have "r \<in> fst ` set (eg_classes s)" using D(1,5) r by simp
  then obtain ns where ns: "map_of (eg_classes s) r = Some ns" by (metis map_of_eq_None_iff not_None_eq)
  then have "\<forall>n \<in> set ns. belongs N v es n r" using D(6) map_of_SomeD by fast
  then show ?thesis using ok ns by (intro safeI [where fs = es and r = "Inr (sort ns)"]) (auto simp: nodes_of_def)
qed

lemma safe_find_nodes:
  assumes ok: "graph_ok N v es s" and i: "i < length es"
  shows "safe E N v es (bind (eg_find i) nodes_of) (\<lambda>fs ns. fs = es \<and> (\<forall>n \<in> set ns. node_in N (length es) n \<and> node_val v es n = es ! i)) s"
proof -
  obtain r t where r: "eg_find i s = (Inr r, t)" "finds N v es s i r t" by (rule find_spec [OF ok i])
  then have t: "graph_ok N v es t" "r < length es" "eg_parent t ! r = r" "es ! r = es ! i"
    using finds_less [OF r(2) i] by (auto simp: finds_def)
  have "safe E N v es (nodes_of r) (\<lambda>fs ns. fs = es \<and> (\<forall>n \<in> set ns. node_in N (length es) n \<and> node_val v es n = es ! i)) t"
    by (rule safe_mono [OF safe_nodes_of [OF t(1-3)]]) (use t(4) in \<open>auto simp: belongs_def\<close>)
  then show ?thesis using r(1) by (simp add: safe_def bind_def)
qed

lemma bind_assoc: "bind (bind m f) g = bind m (\<lambda>x. bind (f x) g)"
  by (auto simp: bind_def fun_eq_iff split: prod.split sum.split)

lemma match_op:
  "match (POp op ps) i env consumer = bind tick (\<lambda>_. bind (bind (eg_find i) nodes_of) (\<lambda>ns.
     bind (each (\<lambda>(f, name, cs). if f \<noteq> op \<or> length cs \<noteq> length ps then ret ()
                                 else match_all ps cs env consumer) ns) (\<lambda>_. ret ())))"
  by (simp add: bind_assoc)

lemma op_name_empty: "proper_op N op name k \<Longrightarrow> op \<noteq> ''var'' \<Longrightarrow> name = []"
  by (auto simp: proper_op_def)

lemma pat_op_not_var: "pat_ok (POp op ps) \<Longrightarrow> op \<noteq> ''var''"
  by (auto simp: proper_op_def)

lemma safe_bound_to:
  assumes "graph_ok N v es s" and "env_ok es env" and "r < length es"
  shows "safe E N v es (bound_to (env x) r) (\<lambda>fs c. fs = es \<and> (c \<longrightarrow> x \<in> dom env \<longrightarrow> bound_val es env x = es ! r)) s"
proof (cases "env x")
  case None
  then show ?thesis using assms(1) by (auto simp: bound_to_def)
next
  case (Some i)
  then have "i < length es" using assms(2) by (rule env_okD [rotated])
  from safe_find [OF assms(1) this]
  have f: "safe E N v es (eg_find i) (\<lambda>fs j. fs = es \<and> j < length fs \<and> fs ! j = es ! i) s" .
  have "safe E N v es (bind (eg_find i) (\<lambda>j. ret (j = r))) (\<lambda>fs c. fs = es \<and> (c \<longrightarrow> x \<in> dom env \<longrightarrow> bound_val es env x = es ! r)) s"
    by (rule safe_bind [OF f]) (auto simp: bound_val_def Some)
  then show ?thesis by (simp add: bound_to_def Some)
qed

lemma safe_match:
  fixes s :: "'z egraph_scheme"
  shows "graph_ok N v es s \<Longrightarrow> i < length es \<Longrightarrow> env_ok es env \<Longrightarrow> pat_ok p \<Longrightarrow> consumes N v es [p] [i] env consumer
    \<Longrightarrow> safe only_limit N v es (match p i env consumer) unit_ok s"
  and "graph_ok N v es s \<Longrightarrow> length cs = length ps \<Longrightarrow> \<forall>c \<in> set cs. c < length es \<Longrightarrow> env_ok es env \<Longrightarrow> \<forall>p \<in> set ps. pat_ok p
    \<Longrightarrow> consumes N v es ps cs env consumer \<Longrightarrow> safe only_limit N v es (match_all ps cs env consumer) unit_ok s"
proof (induction p i env consumer and ps cs env consumer arbitrary: es s and es s rule: match_match_all.induct)
  case (1 x i env consumer)
  show ?case
    unfolding match.simps
  proof (rule safe_bind [OF safe_tick [OF 1(1)]])
    fix fs u and t :: "'z egraph_scheme"
    assume t: "graph_ok N v fs t" and fs: "fs = es"
    have i: "i < length fs" and env: "env_ok fs env" and con: "consumes N v fs [PVar x] [i] env consumer"
      using 1 fs by simp_all
    show "safe only_limit N v fs (bind (eg_find i) (\<lambda>r. bind (bound_to (env x) r) (\<lambda>same.
        if same then consumer (env(x \<mapsto> r)) else ret ()))) unit_ok t"
    proof (rule safe_bind [OF safe_find [OF t i]])
      fix gs r and t' :: "'z egraph_scheme"
      assume t': "graph_ok N v gs t'" and r: "gs = fs \<and> r < length gs \<and> gs ! r = fs ! i"
      have env': "env_ok gs env" using env r by simp
      show "safe only_limit N v gs (bind (bound_to (env x) r) (\<lambda>same.
          if same then consumer (env(x \<mapsto> r)) else ret ())) unit_ok t'"
      proof (rule safe_bind [OF safe_bound_to [OF t' env', where r = r and x = x]])
        fix hs c and t2 :: "'z egraph_scheme"
        assume t2: "graph_ok N v hs t2" and c: "hs = gs \<and> (c \<longrightarrow> x \<in> dom env \<longrightarrow> bound_val gs env x = gs ! r)"
        show "safe only_limit N v hs (if c then consumer (env(x \<mapsto> r)) else ret ()) unit_ok t2"
        proof (cases c)
          case True
          have "safe only_limit N v hs (consumer (env(x \<mapsto> r))) unit_ok t2"
          proof (rule consumesD [OF con _ t2])
            show "graph_extends fs hs" using r c by simp
            show "env_ok hs (env(x \<mapsto> r))" using env' r c by (auto simp: env_ok_def ran_def)
            show "refines hs env (env(x \<mapsto> r))" using c True by (auto simp: refines_def bound_val_def)
          qed (use r c in \<open>auto simp: bound_val_def\<close>)
          with True show ?thesis by simp
        qed (use t2 in auto)
      qed (use r in auto)
    qed
  qed
next
  case (2 op ps i env consumer)
  note IH = 2(1) and prems = 2(2-)
  have notvar: "op \<noteq> ''var''" using prems(4) by (rule pat_op_not_var)
  show ?case
    unfolding match_op
  proof (rule safe_bind [OF safe_tick [OF prems(1)]])
    fix fs u and t :: "'z egraph_scheme"
    assume t: "graph_ok N v fs t" and fs: "fs = es"
    have i: "i < length fs" using prems(2) fs by simp
    let ?body = "\<lambda>(f, name, cs). if f \<noteq> op \<or> length cs \<noteq> length ps then ret () else match_all ps cs env consumer"
    show "safe only_limit N v fs (bind (bind (eg_find i) nodes_of) (\<lambda>ns. bind (each ?body ns) (\<lambda>_. ret ()))) unit_ok t"
    proof (rule safe_bind [OF safe_find_nodes [OF t i]])
      fix gs ns and t' :: "'z egraph_scheme"
      assume t': "graph_ok N v gs t'" and ns: "gs = fs \<and> (\<forall>n \<in> set ns. node_in N (length fs) n \<and> node_val v fs n = fs ! i)"
      have "safe only_limit N v gs (each ?body ns) (\<lambda>hs ys. True) t'"
      proof (rule safe_each [OF t', where P = "\<lambda>_. True"])
        fix n hs and t2 :: "'z egraph_scheme"
        assume n: "n \<in> set ns" and e: "graph_extends gs hs" and t2: "graph_ok N v hs t2"
        obtain f name cs where nn: "n = (f, name, cs)" by (cases n)
        show "safe only_limit N v hs (?body n) (\<lambda>gs y. True) t2"
        proof (cases "f \<noteq> op \<or> length cs \<noteq> length ps")
          case True
          then show ?thesis using nn t2 by auto
        next
          case False
          have eh: "graph_extends es hs" using e ns fs by simp
          have nin: "node_in N (length es) n" "node_val v es n = es ! i" using ns n fs by auto
          have name: "name = []" using nin(1) nn False notvar by (auto simp: node_in_def dest: op_name_empty)
          have nin': "node_in N (length hs) n" "node_val v hs n = hs ! i"
            using extends_node [OF eh nin(1)] nin(2) extends_nth [OF eh prems(2)] by auto
          have con: "consumes N v hs ps cs env consumer"
            unfolding consumes_def
          proof (intro allI impI)
            fix ks env' and t3 :: "'z egraph_scheme"
            assume a: "graph_extends hs ks" "graph_ok N v ks t3" "env_ok ks env'" "refines ks env env'"
                "(\<Union>p \<in> set ps. pat_vars p) \<subseteq> dom env'" "map (pat_val (bound_val ks env') v) ps = map ((!) ks) cs"
            have "node_val v ks n = ks ! i"
              using extends_node [OF a(1) nin'(1)] nin'(2) extends_nth [OF graph_extends_trans [OF eh a(1)] prems(2)]
                extends_nth [OF eh prems(2)] by auto
            then have "pat_val (bound_val ks env') v (POp op ps) = ks ! i"
              using a(6) nn name False by (simp add: node_val_def)
            then show "safe only_limit N v ks (consumer env') unit_ok t3"
              using consumesD [OF prems(5) graph_extends_trans [OF eh a(1)] a(2-4)] a(5) by simp
          qed
          have "safe only_limit N v hs (match_all ps cs env consumer) unit_ok t2"
          proof (rule IH)
            show "n \<in> set ns" "(f, name, cs) = n" "(name, cs) = (name, cs)" using n nn by simp_all
          qed (use False t2 nin' nn prems con env_ok_extends [OF prems(3) eh] in \<open>auto simp: node_in_def\<close>)
          then show ?thesis using nn False by simp
        qed
      qed simp
      then show "safe only_limit N v gs (bind (each ?body ns) (\<lambda>_. ret ())) unit_ok t'"
        by (rule safe_bind) auto
    qed
  qed
next
  case (3 cs env consumer)
  then show ?case using consumesD [OF 3(6) graph_extends_refl 3(1,4)] by simp
next
  case (4 p ps env consumer)
  then show ?case by simp
next
  case (5 p ps c cs env consumer)
  note IHs = 5(1) and IHp = 5(2) and prems = 5(3-)
  have "consumes N v es [p] [c] env (\<lambda>e. match_all ps cs e consumer)"
    unfolding consumes_def
  proof (intro allI impI)
    fix fs env' and t :: "'z egraph_scheme"
    assume a: "graph_extends es fs" "graph_ok N v fs t" "env_ok fs env'" "refines fs env env'"
        "(\<Union>p \<in> set [p]. pat_vars p) \<subseteq> dom env'" "map (pat_val (bound_val fs env') v) [p] = map ((!) fs) [c]"
    have "consumes N v fs ps cs env' consumer"
      unfolding consumes_def
    proof (intro allI impI)
      fix gs env2 and t2 :: "'z egraph_scheme"
      assume b: "graph_extends fs gs" "graph_ok N v gs t2" "env_ok gs env2" "refines gs env' env2"
          "(\<Union>p \<in> set ps. pat_vars p) \<subseteq> dom env2" "map (pat_val (bound_val gs env2) v) ps = map ((!) gs) cs"
      have env: "env_ok fs env" using env_ok_extends [OF prems(4) a(1)] .
      have "pat_val (bound_val gs env2) v p = pat_val (bound_val fs env') v p"
        using pat_val_refines [OF b(4)] pat_val_extends [OF a(3) b(1)] a(5) by simp
      also have "\<dots> = gs ! c" using a(6) prems(3) extends_nth [OF b(1), of c] extends_nth [OF a(1), of c] by simp
      finally have "map (pat_val (bound_val gs env2) v) (p # ps) = map ((!) gs) (c # cs)" using b(6) by simp
      moreover have "refines gs env env2"
        using refines_trans [OF refines_extends [OF a(4) env a(3) b(1)] b(4)] .
      moreover have "(\<Union>p \<in> set (p # ps). pat_vars p) \<subseteq> dom env2"
        using a(5) b(4,5) by (simp add: refines_def) blast
      ultimately show "safe only_limit N v gs (consumer env2) unit_ok t2"
        using consumesD [OF prems(6) graph_extends_trans [OF a(1) b(1)] b(2,3)] by blast
    qed
    then show "safe only_limit N v fs (match_all ps cs env' consumer) unit_ok t"
      using a prems extends_nth [OF a(1)] by (intro IHs) auto
  qed
  then show ?case using prems by (simp add: IHp)
qed

end
