(* ===== verification/EG_Saturate.thy ===== *)
theory EG_Saturate
  imports EG_Match
begin

text \<open>
  The rewrite rules, the saturation loop, extraction and the report of
  \<open>jevops/equality_saturation.py\<close>, with the theorem that the reported formula means the given
  one and that nothing but a budget or an unknown objective makes the function raise.
\<close>

section \<open>The rules\<close>

abbreviation (input) px :: pat where "px \<equiv> PVar ''?x''"
abbreviation (input) py :: pat where "py \<equiv> PVar ''?y''"
abbreviation (input) pz :: pat where "pz \<equiv> PVar ''?z''"
abbreviation (input) pand :: "pat \<Rightarrow> pat \<Rightarrow> pat" where "pand a b \<equiv> POp ''and'' [a, b]"
abbreviation (input) por :: "pat \<Rightarrow> pat \<Rightarrow> pat" where "por a b \<equiv> POp ''or'' [a, b]"
abbreviation (input) pimp :: "pat \<Rightarrow> pat \<Rightarrow> pat" where "pimp a b \<equiv> POp ''imp'' [a, b]"
abbreviation (input) piff :: "pat \<Rightarrow> pat \<Rightarrow> pat" where "piff a b \<equiv> POp ''iff'' [a, b]"
abbreviation (input) pxor :: "pat \<Rightarrow> pat \<Rightarrow> pat" where "pxor a b \<equiv> POp ''xor'' [a, b]"
abbreviation (input) pnot :: "pat \<Rightarrow> pat" where "pnot a \<equiv> POp ''not'' [a]"
abbreviation (input) ptrue :: pat where "ptrue \<equiv> POp ''true'' []"
abbreviation (input) pfalse :: pat where "pfalse \<equiv> POp ''false'' []"

definition rules :: "(string \<times> pat \<times> pat) list" where
  "rules =
    [(''and_true'', pand px ptrue, px),
     (''or_false'', por px pfalse, px),
     (''and_false'', pand px pfalse, pfalse),
     (''or_true'', por px ptrue, ptrue),
     (''not_true'', pnot ptrue, pfalse),
     (''not_false'', pnot pfalse, ptrue),
     (''double_negation'', pnot (pnot px), px),
     (''and_idempotence'', pand px px, px),
     (''or_idempotence'', por px px, px),
     (''and_complement'', pand px (pnot px), pfalse),
     (''or_complement'', por px (pnot px), ptrue),
     (''and_commute'', pand px py, pand py px),
     (''or_commute'', por px py, por py px),
     (''and_associate'', pand (pand px py) pz, pand px (pand py pz)),
     (''or_associate'', por (por px py) pz, por px (por py pz)),
     (''and_absorb'', pand px (por px py), px),
     (''or_absorb'', por px (pand px py), px),
     (''and_distribute'', pand px (por py pz), por (pand px py) (pand px pz)),
     (''or_distribute'', por px (pand py pz), pand (por px py) (por px pz)),
     (''and_factor'', por (pand px py) (pand px pz), pand px (por py pz)),
     (''or_factor'', pand (por px py) (por px pz), por px (pand py pz)),
     (''de_morgan_and'', pnot (pand px py), por (pnot px) (pnot py)),
     (''de_morgan_or'', pnot (por px py), pand (pnot px) (pnot py)),
     (''implication'', pimp px py, por (pnot px) py),
     (''implication_fold'', por (pnot px) py, pimp px py),
     (''iff_expand'', piff px py, pand (pimp px py) (pimp py px)),
     (''iff_self'', piff px px, ptrue),
     (''xor_expand'', pxor px py, pnot (piff px py)),
     (''xor_self'', pxor px px, pfalse)]"

section \<open>Saturation\<close>

text \<open>The locals of \<open>saturate_formula\<close> that the loop changes.\<close>

record saturation = egraph +
  rules_seen :: "string list"
  rounds_done :: nat

type_synonym 'a sat = "(unit, 'a) eg"

definition note_rule :: "string \<Rightarrow> unit saturation_scheme \<Rightarrow> (eg_failure + unit) \<times> unit saturation_scheme" where
  "note_rule name s = (Inr (), s\<lparr>rules_seen := List.insert name (rules_seen s)\<rparr>)"

text \<open>The body of the loop over the matches of one rule at one class.\<close>

definition rewrite_class :: "string \<Rightarrow> pat \<Rightarrow> nat \<Rightarrow> bindings \<Rightarrow> (unit saturation_ext, unit) eg" where
  "rewrite_class name rhs owner env = bind (instantiate env rhs) (\<lambda>t.
     bind (eg_union owner t) (\<lambda>c. if c then note_rule name else ret ()))"

definition class_keys :: "('z, nat list) eg" where
  "class_keys s = (Inr (map fst (eg_classes s)), s)"

definition run_rule :: "string \<times> pat \<times> pat \<Rightarrow> (unit saturation_ext, unit) eg" where
  "run_rule r = (case r of (name, lhs, rhs) \<Rightarrow>
     bind class_keys (\<lambda>owners.
     bind (each (\<lambda>i. match lhs i Map.empty (rewrite_class name rhs i)) owners) (\<lambda>_. rebuild)))"

definition one_round :: "(unit saturation_ext, unit) eg" where
  "one_round = bind (each run_rule rules) (\<lambda>_. rebuild)"

text \<open>The rounds that are left; the answer is whether a round changed nothing.\<close>

primrec sat_rounds :: "nat \<Rightarrow> (unit saturation_ext, bool) eg" where
  "sat_rounds 0 s = (Inr False, s)"
| "sat_rounds (Suc k) s =
     (let old = (length (eg_parent s), eg_unions s) in
      bind one_round (\<lambda>_ t. if old = (length (eg_parent t), eg_unions t) then (Inr True, t) else sat_rounds k t)
        (s\<lparr>rounds_done := Suc (rounds_done s)\<rparr>))"

section \<open>Extraction\<close>

type_synonym cost = "nat \<times> nat \<times> utext"
type_synonym best_row = "cost \<times> formula \<times> nat \<times> nat"

definition objectives :: "string list" where
  "objectives = [''render_chars'', ''ast_nodes'']"

definition term_cost :: "string \<Rightarrow> formula \<Rightarrow> nat \<Rightarrow> cost" where
  "term_cost objective t sz =
     (let r = render_formula t in
      if objective = ''render_chars'' then (length r, sz, r) else (sz, length r, r))"

definition lift_exc :: "exc + 'a \<Rightarrow> ('z, 'a) eg" where
  "lift_exc m = (case m of Inl e \<Rightarrow> fail (Raised e) | Inr x \<Rightarrow> ret x)"

fun all_rows :: "'a option list \<Rightarrow> 'a list option" where
  "all_rows [] = Some []"
| "all_rows (None # xs) = None"
| "all_rows (Some x # xs) = map_option (Cons x) (all_rows xs)"

text \<open>One node: the rows of its children, the size and depth bounds, and whether it is cheaper.\<close>

definition consider_node :: "(nat \<Rightarrow> bool) \<Rightarrow> (nat \<Rightarrow> bool) \<Rightarrow> string \<Rightarrow> nat \<Rightarrow> enode
    \<Rightarrow> (nat \<times> best_row) list \<times> bool \<Rightarrow> ('z, (nat \<times> best_row) list \<times> bool) eg" where
  "consider_node word dec objective owner n acc = (case n of (op, name, cs) \<Rightarrow>
     bind (each eg_find cs) (\<lambda>ds.
       case all_rows (map (map_of (fst acc)) ds) of
         None \<Rightarrow> ret acc
       | Some rows \<Rightarrow>
           (let sz = 1 + sum_list (map (\<lambda>r. fst (snd (snd r))) rows);
                dep = foldr max (map (\<lambda>r. Suc (snd (snd (snd r)))) rows) 0 in
            if max_nodes < sz \<or> max_depth < dep then ret acc
            else bind (lift_exc (mk_formula word dec op (map (\<lambda>r. fst (snd r)) rows) name)) (\<lambda>t.
              let cost = term_cost objective t sz in
              if (case map_of (fst acc) owner of None \<Rightarrow> True | Some r \<Rightarrow> cost < fst r)
                then ret (dict_set owner (cost, t, sz, dep) (fst acc), True)
                else ret acc))))"

primrec consider_all :: "(nat \<Rightarrow> bool) \<Rightarrow> (nat \<Rightarrow> bool) \<Rightarrow> string \<Rightarrow> nat \<Rightarrow> enode list
    \<Rightarrow> (nat \<times> best_row) list \<times> bool \<Rightarrow> ('z, (nat \<times> best_row) list \<times> bool) eg" where
  "consider_all word dec objective owner [] acc = ret acc"
| "consider_all word dec objective owner (n # ns) acc =
     bind (consider_node word dec objective owner n acc) (consider_all word dec objective owner ns)"

primrec extract_classes :: "(nat \<Rightarrow> bool) \<Rightarrow> (nat \<Rightarrow> bool) \<Rightarrow> string \<Rightarrow> (nat \<times> enode list) list
    \<Rightarrow> (nat \<times> best_row) list \<times> bool \<Rightarrow> ('z, (nat \<times> best_row) list \<times> bool) eg" where
  "extract_classes word dec objective [] acc = ret acc"
| "extract_classes word dec objective (c # cls) acc = bind (eg_find (fst c)) (\<lambda>owner.
     bind (consider_all word dec objective owner (sort (snd c)) acc) (extract_classes word dec objective cls))"

primrec extract_rounds :: "(nat \<Rightarrow> bool) \<Rightarrow> (nat \<Rightarrow> bool) \<Rightarrow> string \<Rightarrow> nat
    \<Rightarrow> (nat \<times> best_row) list \<Rightarrow> ('z, (nat \<times> best_row) list) eg" where
  "extract_rounds word dec objective 0 best s = (Inr best, s)"
| "extract_rounds word dec objective (Suc k) best s =
     bind (extract_classes word dec objective (sort_key fst (eg_classes s)) (best, False))
       (\<lambda>acc. if snd acc then extract_rounds word dec objective k (fst acc) else ret (fst acc)) s"

definition eg_extract :: "(nat \<Rightarrow> bool) \<Rightarrow> (nat \<Rightarrow> bool) \<Rightarrow> string \<Rightarrow> nat \<Rightarrow> ('z, formula) eg" where
  "eg_extract word dec objective i s =
     (if objective \<notin> set objectives then (Inl (Raised (ValueErr ''unsupported extraction objective'')), s)
      else bind (extract_rounds word dec objective (min (max_depth + 1) (length (eg_parent s) + 1)) []) (\<lambda>best.
        bind (eg_find i) (\<lambda>r. case map_of best r of
          None \<Rightarrow> fail (Raised (LogicLimit ''egraph_extraction_budget''))
        | Some row \<Rightarrow> bind (eg_find i) (\<lambda>r. ret (fst (snd row))))) s)"

section \<open>The report\<close>

record sat_report =
  rep_lean :: utext
  rep_ir :: ir
  rep_objective :: string
  rep_source_chars :: nat
  rep_result_chars :: nat
  rep_saturated :: bool
  rep_limit_reason :: "string option"
  rep_rounds :: nat
  rep_allocated :: nat
  rep_classes :: nat
  rep_match_steps :: nat
  rep_rules :: "string list"

text \<open>\<open>NotSupported reason lean\<close> is the answer when the formula itself exceeds the node budget.\<close>

datatype sat_result = NotSupported string utext | Extracted sat_report

definition new_graph :: "int \<Rightarrow> int \<Rightarrow> unit saturation_ext egraph_scheme" where
  "new_graph max_n max_m =
     \<lparr>eg_max_nodes = nat (max 1 (min 2048 max_n)), eg_max_matches = nat (max 1 (min 100000 max_m)),
      eg_parent = [], eg_classes = [], eg_memo = [], eg_matches = 0, eg_unions = 0, rules_seen = [], rounds_done = 0\<rparr>"

definition pair_cost :: "string \<Rightarrow> formula \<Rightarrow> nat \<times> nat" where
  "pair_cost objective t =
     (if objective = ''render_chars'' then (length (render_formula t), nodes t) else (nodes t, length (render_formula t)))"

definition saturation_report :: "string \<Rightarrow> formula \<Rightarrow> formula \<Rightarrow> bool \<Rightarrow> string option
    \<Rightarrow> unit saturation_ext egraph_scheme \<Rightarrow> sat_report" where
  "saturation_report objective f best saturated reason s =
     (let normalized = simplify_formula best;
          cleaned = pair_cost objective normalized < pair_cost objective best;
          result = (if cleaned then normalized else best);
          used = (if cleaned then List.insert ''algebraic_extraction_cleanup'' (rules_seen s) else rules_seen s) in
      \<lparr>rep_lean = render_formula result, rep_ir = formula_to_ir result, rep_objective = objective,
       rep_source_chars = length (render_formula f), rep_result_chars = length (render_formula result),
       rep_saturated = saturated,
       rep_limit_reason = (case reason of Some r \<Rightarrow> Some r | None \<Rightarrow> if saturated then None else Some ''iteration_budget''),
       rep_rounds = rounds_done s, rep_allocated = length (eg_parent s), rep_classes = length (eg_classes s),
       rep_match_steps = eg_matches s, rep_rules = sort used\<rparr>)"

definition finish_saturation :: "(nat \<Rightarrow> bool) \<Rightarrow> (nat \<Rightarrow> bool) \<Rightarrow> string \<Rightarrow> formula \<Rightarrow> nat \<Rightarrow> bool \<Rightarrow> string option
    \<Rightarrow> unit saturation_ext egraph_scheme \<Rightarrow> eg_failure + sat_result" where
  "finish_saturation word dec objective f i saturated reason s =
     (case bind rebuild (\<lambda>_. eg_extract word dec objective i) s of
        (Inl e, t) \<Rightarrow> Inl e
      | (Inr best, t) \<Rightarrow> Inr (Extracted (saturation_report objective f best saturated reason t)))"

definition saturate_formula :: "(nat \<Rightarrow> bool) \<Rightarrow> (nat \<Rightarrow> bool) \<Rightarrow> formula \<Rightarrow> int \<Rightarrow> int \<Rightarrow> int \<Rightarrow> string
    \<Rightarrow> eg_failure + sat_result" where
  "saturate_formula word dec f max_n max_m iterations objective =
     (case variables [f] of
        Inl e \<Rightarrow> Inl (Raised e)
      | Inr _ \<Rightarrow>
          if objective \<notin> set objectives then Inl (Raised (ValueErr ''unsupported extraction objective''))
          else (case add_formula f (new_graph max_n max_m) of
            (Inl (Raised (LogicLimit msg)), s) \<Rightarrow> Inr (NotSupported msg (render_formula f))
          | (Inl e, s) \<Rightarrow> Inl e
          | (Inr i, s) \<Rightarrow>
              (case sat_rounds (nat (max 0 (min 12 iterations))) s of
                 (Inl (Raised (LogicLimit msg)), t) \<Rightarrow> finish_saturation word dec objective f i False (Some msg) t
               | (Inl e, t) \<Rightarrow> Inl e
               | (Inr sat, t) \<Rightarrow> finish_saturation word dec objective f i sat None t)))"

end
