(* ===== verification/EG_Correct.thy ===== *)
theory EG_Correct
  imports EG_Saturate
begin

text \<open>
  The saturation of \<open>jevops/equality_saturation.py\<close> is sound: every rule equates patterns of the
  same value, the loop and the extraction keep the values of all classes, and the extracted and
  cleaned formula means the given one.
\<close>

section \<open>Rules and rounds\<close>

definition rule_ok :: "string \<times> pat \<times> pat \<Rightarrow> bool" where
  "rule_ok r \<longleftrightarrow> (case r of (name, lhs, rhs) \<Rightarrow> pat_ok lhs \<and> pat_ok rhs \<and> pat_vars rhs \<subseteq> pat_vars lhs
     \<and> (\<forall>b v. pat_val b v lhs = pat_val b v rhs))"

lemma op_vals:
  "op_val ''true'' [] [] v" "\<not> op_val ''false'' [] [] v" "op_val ''not'' [] [x] v = (\<not> x)"
  "op_val ''and'' [] [x, y] v = (x \<and> y)" "op_val ''or'' [] [x, y] v = (x \<or> y)" "op_val ''imp'' [] [x, y] v = (x \<longrightarrow> y)"
  "op_val ''iff'' [] [x, y] v = (x = y)" "op_val ''xor'' [] [x, y] v = (x \<noteq> y)"
  by (simp_all add: op_val_def bop_of_def)

lemma proper_ops:
  "proper_op N ''true'' [] 0" "proper_op N ''false'' [] 0" "proper_op N ''not'' [] (Suc 0)" "proper_op N ''and'' [] (Suc (Suc 0))"
  "proper_op N ''or'' [] (Suc (Suc 0))" "proper_op N ''imp'' [] (Suc (Suc 0))" "proper_op N ''iff'' [] (Suc (Suc 0))"
  "proper_op N ''xor'' [] (Suc (Suc 0))"
  by (simp_all add: proper_op_def)

lemma rules_ok: "r \<in> set rules \<Longrightarrow> rule_ok r"
proof -
  have "\<forall>r \<in> set rules. case r of (name, lhs, rhs) \<Rightarrow> pat_ok lhs \<and> pat_ok rhs"
    unfolding rules_def by (simp add: proper_ops)
  moreover have "\<forall>r \<in> set rules. case r of (name, lhs, rhs) \<Rightarrow> pat_vars rhs \<subseteq> pat_vars lhs"
    unfolding rules_def by simp
  moreover have "\<forall>r \<in> set rules. case r of (name, lhs, rhs) \<Rightarrow> \<forall>b v. pat_val b v lhs = pat_val b v rhs"
    unfolding rules_def by (simp add: op_vals) blast
  moreover assume "r \<in> set rules"
  ultimately show ?thesis unfolding rule_ok_def by fast
qed

lemma safe_instantiate:
  fixes s :: "'z egraph_scheme"
  shows "graph_ok N v es s \<Longrightarrow> env_ok es env \<Longrightarrow> pat_vars p \<subseteq> dom env \<Longrightarrow> pat_ok p \<Longrightarrow>
    safe only_limit N v es (instantiate env p) (\<lambda>fs i. i < length fs \<and> fs ! i = pat_val (bound_val es env) v p) s"
  and "graph_ok N v es s \<Longrightarrow> env_ok es env \<Longrightarrow> (\<Union>p \<in> set ps. pat_vars p) \<subseteq> dom env \<Longrightarrow> \<forall>p \<in> set ps. pat_ok p \<Longrightarrow>
    safe only_limit N v es (instantiate_all env ps)
      (\<lambda>fs cs. (\<forall>c \<in> set cs. c < length fs) \<and> map ((!) fs) cs = map (pat_val (bound_val es env) v) ps) s"
proof (induction env p and env ps arbitrary: es s and es s rule: instantiate_instantiate_all.induct)
  case (1 env x)
  then obtain i where i: "env x = Some i" by auto
  then have "i < length es" using 1(2) by (rule env_okD [rotated])
  note f = safe_find [OF 1(1) this]
  have "safe only_limit N v es (eg_find i) (\<lambda>fs j. j < length fs \<and> fs ! j = es ! i) s"
    by (rule safe_mono [OF f]) auto
  then show ?case by (simp add: i bound_val_def)
next
  case (2 env op ps)
  have ps: "(\<Union>p \<in> set ps. pat_vars p) \<subseteq> dom env" "\<forall>p \<in> set ps. pat_ok p" "proper_op {} op [] (length ps)"
    using 2(4,5) by auto
  show ?case
    unfolding instantiate.simps
  proof (rule safe_bind [OF 2(1) [OF 2(2,3) ps(1,2)]])
    fix fs cs and t :: "'z egraph_scheme"
    assume t: "graph_ok N v fs t"
      and cs: "(\<forall>c \<in> set cs. c < length fs) \<and> map ((!) fs) cs = map (pat_val (bound_val es env) v) ps"
    then have "length (map ((!) fs) cs) = length (map (pat_val (bound_val es env) v) ps)" by (simp only:)
    then have len: "length cs = length ps" by (simp only: length_map)
    have "proper_op N op [] (length cs)" using ps(3) len by (auto simp: proper_op_def)
    then have nin: "node_in N (length fs) (op, [], cs)" using conjunct1 [OF cs] by (simp only: node_in_def prod.case simp_thms)
    have "node_val v fs (op, [], cs) = pat_val (bound_val es env) v (POp op ps)"
      using conjunct2 [OF cs] by (simp only: node_val_def prod.case pat_val.simps)
    then show "safe only_limit N v fs (add_node op cs []) (\<lambda>gs i. i < length gs \<and> gs ! i = pat_val (bound_val es env) v (POp op ps)) t"
      using safe_add_node [OF t nin] by (simp only:)
  qed
next
  case (3 env)
  then show ?case by auto
next
  case (4 env p ps)
  have ps: "pat_vars p \<subseteq> dom env" "(\<Union>p \<in> set ps. pat_vars p) \<subseteq> dom env" "pat_ok p" "\<forall>p \<in> set ps. pat_ok p"
    using 4(5,6) by auto
  show ?case
    unfolding instantiate_all.simps
  proof (rule safe_bind [OF 4(1) [OF 4(3,4) ps(1,3)]])
    fix fs c and t :: "'z egraph_scheme"
    assume e: "graph_extends es fs" and t: "graph_ok N v fs t" and c: "c < length fs \<and> fs ! c = pat_val (bound_val es env) v p"
    show "safe only_limit N v fs (bind (instantiate_all env ps) (\<lambda>cs. ret (c # cs)))
        (\<lambda>fs cs. (\<forall>c \<in> set cs. c < length fs) \<and> map ((!) fs) cs = map (pat_val (bound_val es env) v) (p # ps)) t"
    proof (rule safe_bind [OF 4(2) [OF t env_ok_extends [OF 4(4) e] ps(2,4)]])
      fix gs cs and r :: "'z egraph_scheme"
      assume e': "graph_extends fs gs" and r: "graph_ok N v gs r"
        and cs: "(\<forall>c \<in> set cs. c < length gs) \<and> map ((!) gs) cs = map (pat_val (bound_val fs env) v) ps"
      have ps': "map (pat_val (bound_val fs env) v) ps = map (pat_val (bound_val es env) v) ps"
        by (rule map_cong [OF refl], rule pat_val_extends [OF 4(4) e])
      have c': "c < length gs" "gs ! c = pat_val (bound_val es env) v p" using extends_nth [OF e', of c] c by auto
      have "\<forall>d \<in> set (c # cs). d < length gs" using c'(1) conjunct1 [OF cs] by simp
      moreover have "map ((!) gs) (c # cs) = map (pat_val (bound_val es env) v) (p # ps)"
        using c'(2) conjunct2 [OF cs] by (simp only: list.map ps')
      ultimately show "safe only_limit N v gs (ret (c # cs))
          (\<lambda>fs cs. (\<forall>c \<in> set cs. c < length fs) \<and> map ((!) fs) cs = map (pat_val (bound_val es env) v) (p # ps)) r"
        by (intro safe_ret [OF r] conjI)
    qed
  qed
qed

text \<open>The added fields of the loop play no part in well-formedness.\<close>

lemma safe_note_rule: "graph_ok N v es s \<Longrightarrow> safe E N v es (note_rule name) unit_ok s"
  by (rule safeI [where fs = es and r = "Inr ()" and t = "s\<lparr>rules_seen := List.insert name (rules_seen s)\<rparr>"])
    (auto simp: note_rule_def graph_ok_def)

lemma safe_rewrite_class:
  fixes s :: "unit saturation_ext egraph_scheme"
  assumes r: "pat_ok rhs" "pat_vars rhs \<subseteq> dom env" and ok: "graph_ok N v es s" "env_ok es env"
    and i: "i < length es" "pat_val (bound_val es env) v rhs = es ! i"
  shows "safe only_limit N v es (rewrite_class name rhs i env) unit_ok s"
  unfolding rewrite_class_def
proof (rule safe_bind [OF safe_instantiate(1) [OF ok r(2,1)]])
  fix fs j and t :: "unit saturation_ext egraph_scheme"
  assume e: "graph_extends es fs" and t: "graph_ok N v fs t" and j: "j < length fs \<and> fs ! j = pat_val (bound_val es env) v rhs"
  have ij: "i < length fs" "j < length fs" "fs ! i = fs ! j" using i j extends_nth [OF e, of i] by auto
  show "safe only_limit N v fs (bind (eg_union i j) (\<lambda>c. if c then note_rule name else ret ())) unit_ok t"
  proof (rule safe_bind [OF safe_union [OF t ij]])
    fix gs c and r :: "unit saturation_ext egraph_scheme"
    assume r: "graph_ok N v gs r"
    show "safe only_limit N v gs (if c then note_rule name else ret ()) unit_ok r"
      using safe_note_rule [OF r] r by (cases c) auto
  qed
qed

lemma safe_run_rule:
  fixes s :: "unit saturation_ext egraph_scheme"
  assumes ok: "graph_ok N v es s" and rule: "rule_ok r"
  shows "safe only_limit N v es (run_rule r) unit_ok s"
proof -
  obtain name lhs rhs where r: "r = (name, lhs, rhs)" by (cases r)
  have R: "pat_ok lhs" "pat_ok rhs" "pat_vars rhs \<subseteq> pat_vars lhs" "\<And>b v. pat_val b v lhs = pat_val b v rhs"
    using rule by (auto simp: rule_ok_def r)
  let ?apply = "\<lambda>i. match lhs i Map.empty (rewrite_class name rhs i)"
  have one: "safe only_limit N v fs (?apply i) (\<lambda>gs y. True) t"
    if "i < length es" "graph_extends es fs" "graph_ok N v fs t" for i fs and t :: "unit saturation_ext egraph_scheme"
  proof (rule safe_match(1) [OF that(3) _ _ R(1)])
    show "i < length fs" using extends_nth [OF that(2,1)] by simp
    show "consumes N v fs [lhs] [i] Map.empty (rewrite_class name rhs i)"
      unfolding consumes_def
    proof (intro allI impI)
      fix gs env' and t' :: "unit saturation_ext egraph_scheme"
      assume a: "graph_extends fs gs" "graph_ok N v gs t'" "env_ok gs env'" "(\<Union>p \<in> set [lhs]. pat_vars p) \<subseteq> dom env'"
          "map (pat_val (bound_val gs env') v) [lhs] = map ((!) gs) [i]"
      have "i < length gs" using extends_nth [OF graph_extends_trans [OF that(2) a(1)] that(1)] by simp
      then show "safe only_limit N v gs (rewrite_class name rhs i env') unit_ok t'"
        using a R by (intro safe_rewrite_class) auto
    qed
  qed (simp add: env_ok_def)
  have keys: "safe only_limit N v es class_keys (\<lambda>fs is. fs = es \<and> (\<forall>i \<in> set is. i < length es)) s"
    using ok graph_okD(1,5) [OF ok] by (intro safeI [where fs = es and r = "Inr (map fst (eg_classes s))" and t = s])
      (auto simp: class_keys_def)
  show ?thesis
    unfolding run_rule_def r prod.case
  proof (rule safe_bind [OF keys])
    fix fs "is" and t :: "unit saturation_ext egraph_scheme"
    assume t: "graph_ok N v fs t" and i: "fs = es \<and> (\<forall>i \<in> set is. i < length es)"
    have "safe only_limit N v fs (each ?apply is) (\<lambda>gs ys. True) t"
      by (rule safe_each [OF t, where P = "\<lambda>_. True"]) (use one i in auto)
    then show "safe only_limit N v fs (bind (each ?apply is) (\<lambda>_. rebuild)) unit_ok t"
      by (rule safe_bind) (rule safe_mono [OF safe_rebuild], auto)
  qed
qed

lemma safe_one_round:
  fixes s :: "unit saturation_ext egraph_scheme"
  assumes ok: "graph_ok N v es s"
  shows "safe only_limit N v es one_round unit_ok s"
proof -
  have "safe only_limit N v es (each run_rule rules) (\<lambda>gs ys. True) s"
    by (rule safe_each [OF ok, where P = "\<lambda>_. True"]) (use rules_ok safe_run_rule in auto)
  then show ?thesis
    unfolding one_round_def by (rule safe_bind) (rule safe_mono [OF safe_rebuild], auto)
qed

lemma graph_ok_rounds: "graph_ok N v es (s\<lparr>rounds_done := n\<rparr>) = graph_ok N v es s"
  by (simp add: graph_ok_def)

lemma safe_sat_rounds:
  assumes "graph_ok N v es s"
  shows "safe only_limit N v es (sat_rounds k) (\<lambda>fs c. True) s"
  using assms
proof (induction k arbitrary: es s)
  case 0
  then show ?case by (intro safeI [where fs = es and r = "Inr False" and t = s]) auto
next
  case (Suc k)
  let ?old = "(length (eg_parent s), eg_unions s)"
  let ?next = "\<lambda>_ t. if ?old = (length (eg_parent t), eg_unions t) then (Inr True, t) else sat_rounds k t"
  have "safe only_limit N v es (bind one_round ?next) (\<lambda>fs c. True) (s\<lparr>rounds_done := Suc (rounds_done s)\<rparr>)"
  proof (rule safe_bind [OF safe_one_round])
    show "graph_ok N v es (s\<lparr>rounds_done := Suc (rounds_done s)\<rparr>)" using Suc.prems by (simp add: graph_ok_rounds)
    fix fs x and t :: "unit saturation_ext egraph_scheme"
    assume t: "graph_ok N v fs t"
    show "safe only_limit N v fs (?next x) (\<lambda>fs c. True) t"
    proof (cases "?old = (length (eg_parent t), eg_unions t)")
      case True
      then show ?thesis using t by (intro safeI [where fs = fs and r = "Inr True" and t = t]) auto
    next
      case False
      then have "?next x t = sat_rounds k t" by auto
      then show ?thesis using Suc.IH [OF t] by (simp only: safe_def)
    qed
  qed
  then show ?case by (simp add: safe_def Let_def)
qed


section \<open>Extraction\<close>

text \<open>Every row of the table of best terms is a formula with the value of its class, within the
  size and depth bounds.\<close>

definition best_ok :: "utext set \<Rightarrow> (utext \<Rightarrow> bool) \<Rightarrow> bool list \<Rightarrow> (nat \<times> best_row) list \<Rightarrow> bool" where
  "best_ok N v es best \<longleftrightarrow> (\<forall>(i, c, t, sz, d) \<in> set best. i < length es \<and> sem t v = es ! i \<and> vars t \<subseteq> N
     \<and> sz = nodes t \<and> d = depth t \<and> nodes t \<le> max_nodes \<and> depth t \<le> max_depth)"

lemma best_okD:
  "best_ok N v es best \<Longrightarrow> map_of best i = Some (c, t, sz, d) \<Longrightarrow>
   sem t v = es ! i \<and> vars t \<subseteq> N \<and> sz = nodes t \<and> d = depth t \<and> nodes t \<le> max_nodes \<and> depth t \<le> max_depth"
  unfolding best_ok_def by (drule map_of_SomeD) (drule (1) bspec, simp)

lemma mk_formula_node:
  assumes "proper_op N op name (length ts)" and "N \<subseteq> Collect (proper_name word dec)"
  obtains t where "mk_formula word dec op ts name = Inr t" "sem t v = op_val op name (map (\<lambda>t. sem t v) ts) v"
    "vars t \<subseteq> N \<union> (\<Union>t \<in> set ts. vars t)" "nodes t = 1 + sum_list (map nodes ts)"
    "depth t = foldr max (map (\<lambda>t. Suc (depth t)) ts) 0"
proof -
  consider "op = ''var''" "name \<in> N" "length ts = 0" | "op = ''true''" "name = []" "length ts = 0"
    | "op = ''false''" "name = []" "length ts = 0" | "op = ''not''" "name = []" "length ts = 1"
    | "op \<in> {''and'', ''or'', ''imp'', ''iff'', ''xor''}" "name = []" "length ts = 2"
    using assms(1) unfolding proper_op_def insert_iff empty_iff by meson
  then show thesis
  proof cases
    case 1
    then have "mk_formula word dec op ts name = Inr (FVar name)"
      using assms(2) mk_formula_proper [of word dec name] by auto
    with 1 show thesis using that by (simp add: op_val_def)
  next
    case 2
    then show thesis using that [of FTrue] by (simp add: mk_formula_def Let_def op_val_def)
  next
    case 3
    then show thesis using that [of FFalse] by (simp add: mk_formula_def Let_def op_val_def)
  next
    case 4
    then obtain a where "ts = [a]" by (metis One_nat_def length_0_conv length_Suc_conv)
    with 4 show thesis using that [of "FNot a"] by (simp add: mk_formula_def Let_def op_val_def)
  next
    case 5
    then obtain a b where ts: "ts = [a, b]" by (metis (no_types) length_0_conv length_Suc_conv numeral_2_eq_2)
    obtain g where g: "bop_of op = Some g" "op \<notin> {''var'', ''true'', ''false'', ''not''}"
      using 5(1) by (auto simp: bop_of_def)
    then have "mk_formula word dec op ts name = Inr (FBin g a b)" using 5(2) ts by (simp add: mk_formula_def Let_def)
    moreover have "sem (FBin g a b) v = op_val op name (map (\<lambda>t. sem t v) ts) v" using g ts by (simp add: op_val_def)
    ultimately show thesis using that [of "FBin g a b"] ts by auto
  qed
qed

lemma all_rows_Some: "all_rows (map f xs) = Some ys \<longleftrightarrow> map f xs = map Some ys"
proof (induction xs arbitrary: ys)
  case (Cons x xs)
  then show ?case by (cases "f x"; cases ys) auto
qed auto

lemma best_rows:
  assumes b: "best_ok N v es best" and rows: "map (map_of best) ds = map Some rows"
  shows "map (\<lambda>t. sem t v) (map (\<lambda>r. fst (snd r)) rows) = map ((!) es) ds"
    "(\<Union>t \<in> set (map (\<lambda>r. fst (snd r)) rows). vars t) \<subseteq> N"
    "map (\<lambda>r. fst (snd (snd r))) rows = map nodes (map (\<lambda>r. fst (snd r)) rows)"
    "map (\<lambda>r. Suc (snd (snd (snd r)))) rows = map (\<lambda>t. Suc (depth t)) (map (\<lambda>r. fst (snd r)) rows)"
proof -
  have len: "length rows = length ds" using rows by (metis length_map)
  have nth: "map_of best (ds ! k) = Some (rows ! k)" if "k < length ds" for k
    using rows that len by (metis nth_map)
  have row: "sem (fst (snd (rows ! k))) v = es ! (ds ! k) \<and> vars (fst (snd (rows ! k))) \<subseteq> N
      \<and> fst (snd (snd (rows ! k))) = nodes (fst (snd (rows ! k))) \<and> snd (snd (snd (rows ! k))) = depth (fst (snd (rows ! k)))"
    if "k < length ds" for k
    using best_okD [OF b, of "ds ! k"] nth [OF that] by (cases "rows ! k") auto
  show "map (\<lambda>t. sem t v) (map (\<lambda>r. fst (snd r)) rows) = map ((!) es) ds"
    using row len by (intro nth_equalityI) auto
  show "(\<Union>t \<in> set (map (\<lambda>r. fst (snd r)) rows). vars t) \<subseteq> N"
    using row len by (fastforce simp: in_set_conv_nth)
  show "map (\<lambda>r. fst (snd (snd r))) rows = map nodes (map (\<lambda>r. fst (snd r)) rows)"
    using row len by (intro nth_equalityI) auto
  show "map (\<lambda>r. Suc (snd (snd (snd r)))) rows = map (\<lambda>t. Suc (depth t)) (map (\<lambda>r. fst (snd r)) rows)"
    using row len by (intro nth_equalityI) auto
qed

abbreviation keeps_best :: "utext set \<Rightarrow> (utext \<Rightarrow> bool) \<Rightarrow> bool list \<Rightarrow> bool list \<Rightarrow> (nat \<times> best_row) list \<times> bool \<Rightarrow> bool" where
  "keeps_best N v es \<equiv> \<lambda>fs acc. fs = es \<and> best_ok N v es (fst acc)"

lemma best_ok_set:
  assumes "best_ok N v es best" and "i < length es" "sem t v = es ! i" "vars t \<subseteq> N" "nodes t \<le> max_nodes" "depth t \<le> max_depth"
  shows "best_ok N v es (dict_set i (c, t, nodes t, depth t) best)"
  unfolding best_ok_def
proof
  fix p
  assume "p \<in> set (dict_set i (c, t, nodes t, depth t) best)"
  then have "p = (i, c, t, nodes t, depth t) \<or> p \<in> set best" using set_dict_set_subset by fast
  then show "case p of (i, c, t, sz, d) \<Rightarrow> i < length es \<and> sem t v = es ! i \<and> vars t \<subseteq> N
     \<and> sz = nodes t \<and> d = depth t \<and> nodes t \<le> max_nodes \<and> depth t \<le> max_depth"
    using assms unfolding best_ok_def by (elim disjE) simp_all
qed

lemma safe_consider_node:
  assumes ok: "graph_ok N v es s" and N: "N \<subseteq> Collect (proper_name word dec)"
    and n: "node_in N (length es) n" "node_val v es n = es ! owner" "owner < length es" and b: "best_ok N v es (fst acc)"
  shows "safe only_limit N v es (consider_node word dec objective owner n acc) (keeps_best N v es) s"
proof -
  obtain op name cs where nn: "n = (op, name, cs)" by (cases n)
  have cs: "\<forall>c \<in> set cs. c < length es" and pop: "proper_op N op name (length cs)" using n(1) nn by (simp_all add: node_in_def)
  from each_find [OF ok cs] obtain ds t where ds: "each eg_find cs s = (Inr ds, t)" "graph_ok N v es t"
      "length ds = length cs" "map ((!) es) ds = map ((!) es) cs" by blast
  have keep: "safe only_limit N v es (ret acc) (keeps_best N v es) t" using ds(2) b by auto
  let ?rest = "\<lambda>ds. case all_rows (map (map_of (fst acc)) ds) of None \<Rightarrow> ret acc
       | Some rows \<Rightarrow>
           (let sz = 1 + sum_list (map (\<lambda>r. fst (snd (snd r))) rows);
                dep = foldr max (map (\<lambda>r. Suc (snd (snd (snd r)))) rows) 0 in
            if max_nodes < sz \<or> max_depth < dep then ret acc
            else bind (lift_exc (mk_formula word dec op (map (\<lambda>r. fst (snd r)) rows) name)) (\<lambda>t.
              let cost = term_cost objective t sz in
              if (case map_of (fst acc) owner of None \<Rightarrow> True | Some r \<Rightarrow> cost < fst r)
                then ret (dict_set owner (cost, t, sz, dep) (fst acc), True)
                else ret acc))"
  have "safe only_limit N v es (?rest ds) (keeps_best N v es) t"
  proof (cases "all_rows (map (map_of (fst acc)) ds)")
    case None
    then show ?thesis using keep by simp
  next
    case (Some rows)
    then have rows: "map (map_of (fst acc)) ds = map Some rows" by (simp add: all_rows_Some)
    note B = best_rows [OF b rows]
    let ?ts = "map (\<lambda>r. fst (snd r)) rows"
    have "length ?ts = length cs" using rows ds(3) by (metis length_map)
    then have "proper_op N op name (length ?ts)" using pop by simp
    then obtain f where f: "mk_formula word dec op ?ts name = Inr f" "sem f v = op_val op name (map (\<lambda>t. sem t v) ?ts) v"
        "vars f \<subseteq> N \<union> (\<Union>t \<in> set ?ts. vars t)" "nodes f = 1 + sum_list (map nodes ?ts)"
        "depth f = foldr max (map (\<lambda>t. Suc (depth t)) ?ts) 0" by (rule mk_formula_node [OF _ N])
    have val: "sem f v = es ! owner"
      using f(2) n(2) nn unfolding B(1) ds(4) by (simp add: node_val_def)
    have fv: "vars f \<subseteq> N" using f(3) B(2) by blast
    have sz: "1 + sum_list (map (\<lambda>r. fst (snd (snd r))) rows) = nodes f" unfolding B(3) f(4) ..
    have dep: "foldr max (map (\<lambda>r. Suc (snd (snd (snd r)))) rows) 0 = depth f" unfolding B(4) f(5) ..
    show ?thesis
    proof (cases "max_nodes < nodes f \<or> max_depth < depth f")
      case True
      then show ?thesis unfolding Some option.case Let_def sz dep using keep by simp
    next
      case False
      then have bo: "best_ok N v es (dict_set owner (c, f, nodes f, depth f) (fst acc))" for c
        using best_ok_set [OF b n(3) val fv] by simp
      have "safe only_limit N v es (ret (dict_set owner (c, f, nodes f, depth f) (fst acc), True)) (keeps_best N v es) t" for c
        using bo [of c] ds(2) by (intro safe_ret) simp_all
      then show ?thesis
        unfolding Some option.case Let_def sz dep using keep False f(1) by (simp add: lift_exc_def bind_def ret_def safe_def)
    qed
  qed
  then show ?thesis unfolding consider_node_def nn prod.case using ds(1) by (simp add: safe_def bind_def)
qed

lemma safe_consider_all:
  assumes "graph_ok N v es s" and "N \<subseteq> Collect (proper_name word dec)"
    and "\<forall>n \<in> set ns. node_in N (length es) n \<and> node_val v es n = es ! owner" and "owner < length es" and "best_ok N v es (fst acc)"
  shows "safe only_limit N v es (consider_all word dec objective owner ns acc) (keeps_best N v es) s"
  using assms
proof (induction ns arbitrary: acc s)
  case (Cons n ns)
  have one: "safe only_limit N v es (consider_node word dec objective owner n acc) (keeps_best N v es) s"
    using Cons.prems by (intro safe_consider_node) auto
  show ?case
    unfolding consider_all.simps
    by (rule safe_bind [OF one]) (use Cons in auto)
qed auto

lemma safe_extract_classes:
  assumes "graph_ok N v es s" and "N \<subseteq> Collect (proper_name word dec)"
    and "\<forall>(r, ns) \<in> set cls. \<forall>n \<in> set ns. belongs N v es n r" and "\<forall>(r, ns) \<in> set cls. r < length es" and "best_ok N v es (fst acc)"
  shows "safe only_limit N v es (extract_classes word dec objective cls acc) (keeps_best N v es) s"
  using assms
proof (induction cls arbitrary: acc s)
  case (Cons c cls)
  obtain r ns where c: "c = (r, ns)" by (cases c)
  have r: "r < length es" using Cons.prems(4) c by simp
  show ?case
    unfolding extract_classes.simps
  proof (rule safe_bind [OF safe_find [OF Cons.prems(1)]])
    show "fst c < length es" using r c by simp
    fix fs owner and t :: "'a egraph_scheme"
    assume t: "graph_ok N v fs t" and o: "fs = es \<and> owner < length fs \<and> fs ! owner = es ! fst c"
    have one: "safe only_limit N v fs (consider_all word dec objective owner (sort (snd c)) acc) (keeps_best N v fs) t"
      using t o Cons.prems(2,3,5) c by (intro safe_consider_all) (auto simp: belongs_def)
    show "safe only_limit N v fs (bind (consider_all word dec objective owner (sort (snd c)) acc)
        (extract_classes word dec objective cls)) (keeps_best N v es) t"
      by (rule safe_bind [OF one]) (use Cons o in auto)
  qed
qed auto

lemma safe_extract_rounds:
  assumes "graph_ok N v es s" and "N \<subseteq> Collect (proper_name word dec)" and "best_ok N v es best"
  shows "safe only_limit N v es (extract_rounds word dec objective k best) (\<lambda>fs b. fs = es \<and> best_ok N v es b) s"
  using assms
proof (induction k arbitrary: best s)
  case 0
  then show ?case by (intro safeI [where fs = es and r = "Inr best" and t = s]) auto
next
  case (Suc k)
  note D = graph_okD [OF Suc.prems(1)]
  have cls: "safe only_limit N v es (extract_classes word dec objective (sort_key fst (eg_classes s)) (best, False)) (keeps_best N v es) s"
  proof (rule safe_extract_classes [OF Suc.prems(1,2)])
    show "\<forall>(r, ns) \<in> set (sort_key fst (eg_classes s)). r < length es" using D(1,5) by force
  qed (use D(6) Suc.prems(3) in auto)
  have "safe only_limit N v es (bind (extract_classes word dec objective (sort_key fst (eg_classes s)) (best, False))
      (\<lambda>acc. if snd acc then extract_rounds word dec objective k (fst acc) else ret (fst acc)))
      (\<lambda>fs b. fs = es \<and> best_ok N v es b) s"
    by (rule safe_bind [OF cls]) (use Suc.IH Suc.prems(2) in auto)
  then show ?case by (simp add: safe_def)
qed

lemma safe_extract:
  assumes ok: "graph_ok N v es s" and N: "N \<subseteq> Collect (proper_name word dec)" and i: "i < length es"
    and o: "objective \<in> set objectives"
  shows "safe only_limit N v es (eg_extract word dec objective i) (\<lambda>fs t. sem t v = es ! i \<and> vars t \<subseteq> N) s"
proof -
  let ?k = "min (max_depth + 1) (length (eg_parent s) + 1)"
  have "best_ok N v es []" by (simp add: best_ok_def)
  note rounds = safe_extract_rounds [OF ok N this, of objective ?k]
  have "safe only_limit N v es (bind (extract_rounds word dec objective ?k []) (\<lambda>best.
        bind (eg_find i) (\<lambda>r. case map_of best r of
          None \<Rightarrow> fail (Raised (LogicLimit ''egraph_extraction_budget''))
        | Some row \<Rightarrow> bind (eg_find i) (\<lambda>r. ret (fst (snd row)))))) (\<lambda>fs t. sem t v = es ! i \<and> vars t \<subseteq> N) s"
  proof (rule safe_bind [OF rounds], rule safe_bind [OF safe_find])
    fix fs b r gs and t t' :: "'a egraph_scheme"
    assume b: "fs = es \<and> best_ok N v es b" and t': "graph_ok N v gs t'" and r: "gs = fs \<and> r < length gs \<and> gs ! r = fs ! i"
    show "safe only_limit N v gs (case map_of b r of None \<Rightarrow> fail (Raised (LogicLimit ''egraph_extraction_budget''))
        | Some row \<Rightarrow> bind (eg_find i) (\<lambda>r. ret (fst (snd row)))) (\<lambda>fs t. sem t v = es ! i \<and> vars t \<subseteq> N) t'"
    proof (cases "map_of b r")
      case None
      then show ?thesis using t' by (intro safeI [where fs = gs and t = t']) (auto simp: fail_def)
    next
      case (Some row)
      then have row: "sem (fst (snd row)) v = es ! i \<and> vars (fst (snd row)) \<subseteq> N"
        using best_okD [of N v es b r] b r by (cases row) auto
      have "safe only_limit N v gs (bind (eg_find i) (\<lambda>r. ret (fst (snd row)))) (\<lambda>fs t. sem t v = es ! i \<and> vars t \<subseteq> N) t'"
        by (rule safe_bind [OF safe_find [OF t']]) (use i b r row in auto)
      then show ?thesis by (simp add: Some)
    qed
  qed (use i in auto)
  then show ?thesis using o by (simp add: safe_def eg_extract_def)
qed


section \<open>Properties\<close>

lemma new_graph_ok: "graph_ok N v [] (new_graph n m)"
  by (simp add: graph_ok_def parents_ok_def classes_ok_def memo_ok_def new_graph_def)

text \<open>The state after the source formula was added and any number of rounds was run, however the
  last round ended.\<close>

definition searched :: "formula \<Rightarrow> int \<Rightarrow> int \<Rightarrow> nat \<Rightarrow> unit saturation_ext egraph_scheme" where
  "searched f max_n max_m k = snd (sat_rounds k (snd (add_formula f (new_graph max_n max_m))))"

lemma added_ok:
  assumes "add_formula f (new_graph n m) = (r, s)"
  obtains es where "graph_ok (vars f) v es s"
    "\<And>i. r = Inr i \<Longrightarrow> i < length es \<and> es ! i = sem f v" "\<And>e. r = Inl e \<Longrightarrow> only_limit e"
  using safe_add_formula [OF new_graph_ok [of "vars f" v n m] subset_refl] assms
  unfolding safe_def by (cases r) auto

lemma rounds_ok:
  assumes "graph_ok N v es s" and "sat_rounds k s = (r, t)"
  obtains fs where "graph_extends es fs" "graph_ok N v fs t" "\<And>e. r = Inl e \<Longrightarrow> only_limit e"
  using safe_sat_rounds [OF assms(1), of k] assms(2) unfolding safe_def by (cases r) auto

lemma searched_ok:
  obtains es where "graph_ok (vars f) v es (searched f n m k)"
proof -
  obtain r s where r: "add_formula f (new_graph n m) = (r, s)" by fastforce
  obtain es where es: "graph_ok (vars f) v es s" by (rule added_ok [OF r])
  obtain q t where q: "sat_rounds k s = (q, t)" by fastforce
  obtain fs where "graph_ok (vars f) v fs t" by (rule rounds_ok [OF es q])
  then show thesis using that r q by (simp add: searched_def)
qed

text \<open>C29: whatever the search did, also when a budget error cut it off, \<open>rebuild\<close> ends without an
  error and leaves a graph closed under congruence: children are roots, no node stands in two
  classes, and the memo finds exactly the nodes of the classes under their roots. Under every
  valuation each class of that graph has one truth value that all its nodes have.\<close>

theorem rebuild_closes_graph:
  "\<exists>t. rebuild (searched f n m k) = (Inr (), t) \<and> congruence_closed t \<and> (\<forall>v. \<exists>es. graph_ok (vars f) v es t)"
proof -
  have "\<exists>t. rebuild (searched f n m k) = (Inr (), t) \<and> congruence_closed t \<and> (\<exists>es. graph_ok (vars f) v es t)" for v
    by (rule searched_ok, erule rebuild_spec) blast
  then show ?thesis by (metis prod.inject)
qed

text \<open>What a run of \<open>saturate_formula\<close> may end with.\<close>

definition saturation_outcome :: "(nat \<Rightarrow> bool) \<Rightarrow> (nat \<Rightarrow> bool) \<Rightarrow> formula \<Rightarrow> string \<Rightarrow> eg_failure + sat_result \<Rightarrow> bool" where
  "saturation_outcome word dec f objective out \<longleftrightarrow> (case out of
     Inl e \<Rightarrow> only_limit e \<or> objective \<notin> set objectives \<and> e = Raised (ValueErr ''unsupported extraction objective'')
   | Inr (NotSupported reason lean) \<Rightarrow> lean = render_formula f
   | Inr (Extracted r) \<Rightarrow> (\<exists>g. rep_ir r = formula_to_ir g \<and> rep_lean r = render_formula g
        \<and> rep_result_chars r = length (render_formula g) \<and> proper word dec g \<and> vars g \<subseteq> vars f
        \<and> (\<forall>v. sem g v = sem f v)))"

lemma finish_outcome:
  assumes p: "proper word dec f" and o: "objective \<in> set objectives"
    and ok: "\<And>v. \<exists>es. graph_ok (vars f) v es s \<and> i < length es \<and> es ! i = sem f v"
  shows "saturation_outcome word dec f objective (finish_saturation word dec objective f i sat reason s)"
proof -
  have N: "vars f \<subseteq> Collect (proper_name word dec)" using p by (simp add: proper_def)
  obtain q t where run: "bind rebuild (\<lambda>_. eg_extract word dec objective i) s = (q, t)" by fastforce
  have spec: "case q of Inl e \<Rightarrow> only_limit e | Inr g \<Rightarrow> sem g v = sem f v \<and> vars g \<subseteq> vars f" for v
  proof -
    obtain es where es: "graph_ok (vars f) v es s" "i < length es" "es ! i = sem f v" using ok by blast
    have "safe only_limit (vars f) v es (bind rebuild (\<lambda>_. eg_extract word dec objective i))
        (\<lambda>fs g. sem g v = es ! i \<and> vars g \<subseteq> vars f) s"
      by (rule safe_bind [OF safe_rebuild [OF es(1)]]) (use safe_extract [OF _ N _ o] es(2) in auto)
    then show ?thesis using run es(3) unfolding safe_def by (cases q) auto
  qed
  show ?thesis
  proof (cases q)
    case (Inl e)
    then show ?thesis using run spec by (simp add: finish_saturation_def saturation_outcome_def)
  next
    case (Inr best)
    define g where "g = (if pair_cost objective (simplify_formula best) < pair_cost objective best then simplify_formula best else best)"
    have "sem g v = sem f v" for v using spec [of v] Inr by (simp add: g_def)
    moreover have "vars g \<subseteq> vars f" using spec Inr vars_simplify [of best] by (auto simp: g_def)
    moreover have "rep_ir r = formula_to_ir g \<and> rep_lean r = render_formula g \<and> rep_result_chars r = length (render_formula g)"
      if "r = saturation_report objective f best sat reason t" for r
      using that by (simp add: saturation_report_def Let_def g_def)
    moreover have "finish_saturation word dec objective f i sat reason s =
        Inr (Extracted (saturation_report objective f best sat reason t))"
      using run Inr by (simp add: finish_saturation_def)
    ultimately show ?thesis
      using N by (fastforce simp: saturation_outcome_def proper_def)
  qed
qed

text \<open>C6: equality saturation is sound and raises nothing but its documented errors: whatever the
  budgets, the number of rounds and the objective, the reported formula is a well-formed formula
  over the variables of the source formula that has its truth value under every valuation; the
  other outcomes are the refusal of a formula too large for the graph, a budget error, and the
  refusal of an unknown objective. No loop runs forever and no lookup fails.\<close>

theorem saturate_formula_correct:
  assumes p: "proper word dec f"
  shows "saturation_outcome word dec f objective (saturate_formula word dec f n m its objective)"
proof (cases "variables [f]")
  case (Inl e)
  then have "only_limit (Raised e)" by (auto simp: variables_def Let_def split: if_splits)
  with Inl show ?thesis by (simp add: saturate_formula_def saturation_outcome_def)
next
  case (Inr ns)
  show ?thesis
  proof (cases "objective \<in> set objectives")
    case False
    with Inr show ?thesis by (simp add: saturate_formula_def saturation_outcome_def)
  next
    case True
    obtain r s where r: "add_formula f (new_graph n m) = (r, s)" by fastforce
    show ?thesis
    proof (cases r)
      case Inl
      then obtain msg where "r = Inl (Raised (LogicLimit msg))" using added_ok [OF r] by metis
      with Inr True r show ?thesis by (simp add: saturate_formula_def saturation_outcome_def)
    next
      case (Inr i)
      obtain q t where q: "sat_rounds (nat (max 0 (min 12 its))) s = (q, t)" by fastforce
      have ok: "\<exists>fs. graph_ok (vars f) v fs t \<and> i < length fs \<and> fs ! i = sem f v" for v
      proof -
        obtain es where es: "graph_ok (vars f) v es s" "i < length es" "es ! i = sem f v"
          using added_ok [OF r] Inr by metis
        obtain fs where "graph_extends es fs" "graph_ok (vars f) v fs t" by (rule rounds_ok [OF es(1) q])
        then show ?thesis using extends_nth [of es fs i] es by auto
      qed
      note fin = finish_outcome [OF p True ok]
      show ?thesis
      proof (cases q)
        case (Inl e)
        obtain es where "graph_ok (vars f) undefined es s" by (rule added_ok [OF r])
        then have "only_limit e" using rounds_ok [OF _ q] Inl by metis
        then obtain msg where "q = Inl (Raised (LogicLimit msg))" using Inl by blast
        with \<open>variables [f] = Inr ns\<close> True r \<open>r = Inr i\<close> q fin show ?thesis by (simp add: saturate_formula_def)
      next
        case (Inr sat)
        with \<open>variables [f] = Inr ns\<close> True r \<open>r = Inr i\<close> q fin show ?thesis by (simp add: saturate_formula_def)
      qed
    qed
  qed
qed

theorem saturate_formula_correct_witness:
  "saturation_outcome ascii_letter (\<lambda>c. False) demo_parity ''ast_nodes''
     (saturate_formula ascii_letter (\<lambda>c. False) demo_parity 64 500 2 ''ast_nodes'')"
  by (rule saturate_formula_correct [OF demo_parity_proper])

end
