(* ===== verification/Cp_Terms.thy ===== *)
theory Cp_Terms
  imports Logic_Analyze
begin

text \<open>
  The proof-term trees of \<open>jevops/constructive_terms.py\<close>: their validation within fixed budgets and
  their rendering as Lean text with checked replacements of local names. A tree is a node with an
  operation, a name and arguments; that a Python value is a dictionary with exactly these three
  entries of the right types is what this type says. Texts are sequences of Unicode code points.
\<close>

datatype tnode = TNode string utext "tnode list"

fun tn_op :: "tnode \<Rightarrow> string" where "tn_op (TNode op name args) = op"
fun tn_name :: "tnode \<Rightarrow> utext" where "tn_name (TNode op name args) = name"
fun tn_args :: "tnode \<Rightarrow> tnode list" where "tn_args (TNode op name args) = args"

text \<open>\<open>NAME\<close>: a word character that is no digit, then word characters and primes.\<close>

definition name_char :: "(nat \<Rightarrow> bool) \<Rightarrow> nat \<Rightarrow> bool" where
  "name_char word c \<longleftrightarrow> word c \<or> c = 39"

fun lean_name :: "(nat \<Rightarrow> bool) \<Rightarrow> (nat \<Rightarrow> bool) \<Rightarrow> utext \<Rightarrow> bool" where
  "lean_name word dec [] = False"
| "lean_name word dec (c # cs) = (word c \<and> \<not> dec c \<and> list_all (name_char word) cs)"

definition constants :: "utext list" where
  "constants = map u [''False.elim'', ''True.intro'', ''And.left'', ''And.right'', ''Or.inl'', ''Or.inr'', ''Or.elim'']"

definition node_arities :: "(string \<times> nat) list" where
  "node_arities = [(''local'', 0), (''const'', 0), (''app'', 2), (''proj'', 1), (''lambda'', 1), (''pair'', 2)]"

definition projections :: "utext list" where
  "projections = map u [''left'', ''right'', ''mp'', ''mpr'']"

section \<open>Validation\<close>

text \<open>The checks of one node, in the order of the source.\<close>

definition check_tnode :: "(nat \<Rightarrow> bool) \<Rightarrow> (nat \<Rightarrow> bool) \<Rightarrow> tnode \<Rightarrow> exc + unit" where
  "check_tnode word dec t =
     (let op = tn_op t; name = tn_name t in
      rbind (ensure (op \<in> set (map fst node_arities) \<and> length name \<le> 256 \<and> map_of node_arities op = Some (length (tn_args t)))
        (ValueErr ''strict constructive term IR required'')) (\<lambda>_.
      ensure (\<not> ((op \<in> {''local'', ''lambda''} \<and> \<not> lean_name word dec name)
          \<or> (op = ''const'' \<and> name \<notin> set constants) \<or> (op = ''proj'' \<and> name \<notin> set projections)
          \<or> (op \<in> {''app'', ''pair''} \<and> name \<noteq> [])))
        (ValueErr ''unsupported constructive term IR name'')))"

fun tnode_size :: "tnode \<Rightarrow> nat" where
  "tnode_size (TNode op name args) = Suc (sum_list (map tnode_size args))"

fun tnode_height :: "tnode \<Rightarrow> nat" where
  "tnode_height (TNode op name args) = foldr max (map (\<lambda>t. Suc (tnode_height t)) args) 0"

lemma tnode_size_pos [simp]: "0 < tnode_size t"
  by (cases t) simp

text \<open>The loop over the pending nodes; the end of the list is the top of the stack. It ends because
  every round takes one node off the pending trees.\<close>

function validate_loop :: "(nat \<Rightarrow> bool) \<Rightarrow> (nat \<Rightarrow> bool) \<Rightarrow> (tnode \<times> nat) list \<Rightarrow> nat \<Rightarrow> exc + unit" where
  "validate_loop word dec pending seen =
     (if pending = [] then Inr ()
      else (let (t, d) = List.last pending; rest = butlast pending in
        if 4096 < Suc seen \<or> 128 < d then Inl (ValueErr ''constructive term IR budget'')
        else rbind (check_tnode word dec t) (\<lambda>_.
          validate_loop word dec (rest @ map (\<lambda>a. (a, Suc d)) (tn_args t)) (Suc seen))))"
  by pat_completeness auto
termination
proof (relation "measure (\<lambda>(w, d, pending, c). sum_list (map (tnode_size \<circ> fst) pending))")
  fix word dec :: "nat \<Rightarrow> bool" and pending :: "(tnode \<times> nat) list" and seen :: nat and p t d rest x
  assume ne: "pending \<noteq> []" and p: "p = List.last pending" "(t, d) = p" "rest = butlast pending"
  obtain op name args where t: "t = TNode op name args" by (cases t)
  have "pending = rest @ [(t, d)]" using ne p by simp
  then have "sum_list (map (tnode_size \<circ> fst) pending) = sum_list (map (tnode_size \<circ> fst) rest) + tnode_size t" by simp
  then show "((word, dec, rest @ map (\<lambda>a. (a, Suc d)) (tn_args t), Suc seen), (word, dec, pending, seen))
      \<in> measure (\<lambda>(w, d, pending, c). sum_list (map (tnode_size \<circ> fst) pending))"
    by (simp add: t comp_def)
qed simp

declare validate_loop.simps [simp del]

definition validate_tree :: "(nat \<Rightarrow> bool) \<Rightarrow> (nat \<Rightarrow> bool) \<Rightarrow> tnode \<Rightarrow> exc + unit" where
  "validate_tree word dec t = validate_loop word dec [(t, 0)] 0"

text \<open>The specification: every node passes, and the unfolded tree is within the budgets.\<close>

fun tnode_proper :: "(nat \<Rightarrow> bool) \<Rightarrow> (nat \<Rightarrow> bool) \<Rightarrow> tnode \<Rightarrow> bool" where
  "tnode_proper word dec (TNode op name args) \<longleftrightarrow>
     check_tnode word dec (TNode op name args) = Inr () \<and> (\<forall>t \<in> set args. tnode_proper word dec t)"

definition pending_ok :: "(nat \<Rightarrow> bool) \<Rightarrow> (nat \<Rightarrow> bool) \<Rightarrow> (tnode \<times> nat) list \<Rightarrow> nat \<Rightarrow> bool" where
  "pending_ok word dec pending seen \<longleftrightarrow>
     seen + sum_list (map (tnode_size \<circ> fst) pending) \<le> 4096
     \<and> (\<forall>(t, d) \<in> set pending. d + tnode_height t \<le> 128 \<and> tnode_proper word dec t)"

lemma height_args: "t \<in> set args \<Longrightarrow> Suc (tnode_height t) \<le> tnode_height (TNode op name args)"
  by (induction args) (auto simp: le_max_iff_disj)

lemma height_le: "tnode_height (TNode op name args) \<le> n \<longleftrightarrow> (\<forall>t \<in> set args. Suc (tnode_height t) \<le> n)"
  by (induction args) auto

lemma pending_step:
  "pending_ok word dec (rest @ [(TNode op name args, d)]) seen \<longleftrightarrow>
     Suc seen \<le> 4096 \<and> d \<le> 128 \<and> check_tnode word dec (TNode op name args) = Inr ()
     \<and> pending_ok word dec (rest @ map (\<lambda>a. (a, Suc d)) args) (Suc seen)"
proof -
  have sz: "sum_list (map (tnode_size \<circ> fst) (map (\<lambda>a. (a, Suc d)) args)) = sum_list (map tnode_size args)"
    by (simp add: comp_def)
  have ht: "d + tnode_height (TNode op name args) \<le> 128 \<longleftrightarrow> d \<le> 128 \<and> (\<forall>t \<in> set args. Suc d + tnode_height t \<le> 128)"
    using height_le [of op name args "128 - d"] by (auto simp: le_diff_conv2)
  show ?thesis
    unfolding pending_ok_def set_append set_map ball_Un map_append sum_list_append sz
    by (simp del: tnode_height.simps add: ht) auto
qed

lemma validate_loop_iff: "validate_loop word dec pending seen = Inr () \<longleftrightarrow> pending = [] \<or> pending_ok word dec pending seen"
proof (induction word dec pending seen rule: validate_loop.induct)
  case (1 word dec pending seen)
  show ?case
  proof (cases "pending = []")
    case True
    then show ?thesis by (simp add: validate_loop.simps)
  next
    case False
    then obtain rest t d where p: "pending = rest @ [(t, d)]" by (metis append_butlast_last_id surj_pair)
    obtain op name args where t: "t = TNode op name args" by (cases t)
    let ?next = "rest @ map (\<lambda>a. (a, Suc d)) args"
    have IH: "validate_loop word dec ?next (Suc seen) = Inr () \<longleftrightarrow> ?next = [] \<or> pending_ok word dec ?next (Suc seen)"
      if "\<not> (4096 < Suc seen \<or> 128 < d)" "check_tnode word dec t = Inr ()"
      using 1 [OF False refl, of t d] p t that by simp
    have "pending_ok word dec [] (Suc seen)" if "Suc seen \<le> 4096" using that by (simp add: pending_ok_def)
    then show ?thesis
      using IH pending_step [of word dec rest op name args d seen] p t
      by (subst validate_loop.simps) (auto simp: res_simps)
  qed
qed

text \<open>C24: \<open>validate_tree\<close> always ends and accepts a proof-term tree exactly when every node of it has
  a known operation, the right number of arguments and an allowed name, the unfolded tree has at
  most 4096 nodes, and no node is deeper than 128.\<close>

theorem validate_tree_exact:
  "validate_tree word dec t = Inr () \<longleftrightarrow> tnode_proper word dec t \<and> tnode_size t \<le> 4096 \<and> tnode_height t \<le> 128"
  unfolding validate_tree_def validate_loop_iff by (auto simp: pending_ok_def)

section \<open>Rendering\<close>

text \<open>The number of bytes of a text in UTF-8; a surrogate cannot be encoded.\<close>

definition utf8_char :: "nat \<Rightarrow> nat" where
  "utf8_char c = (if c < 0x80 then 1 else if c < 0x800 then 2 else if c < 0x10000 then 3 else 4)"

definition utf8_length :: "utext \<Rightarrow> exc + nat" where
  "utf8_length t =
     (if \<exists>c \<in> set t. 0xD800 \<le> c \<and> c \<le> 0xDFFF then Inl (ValueErr ''surrogates not allowed'')
      else Inr (sum_list (map utf8_char t)))"

text \<open>\<open>re.findall(NAME, text)\<close>.\<close>

function find_names :: "(nat \<Rightarrow> bool) \<Rightarrow> (nat \<Rightarrow> bool) \<Rightarrow> utext \<Rightarrow> utext list" where
  "find_names word dec [] = []"
| "find_names word dec (c # cs) =
     (if word c \<and> \<not> dec c then (c # takeWhile (name_char word) cs) # find_names word dec (dropWhile (name_char word) cs)
      else find_names word dec cs)"
  by pat_completeness auto
termination
  by (relation "measure (\<lambda>(w, d, t). length t)") (auto simp: le_imp_less_Suc length_dropWhile_le)

text \<open>Replacements: a dictionary from local names to a text and whether it is atomic.\<close>

type_synonym replacements = "(utext \<times> utext \<times> bool) list"

definition replacement_ok :: "(nat \<Rightarrow> bool) \<Rightarrow> (nat \<Rightarrow> bool) \<Rightarrow> utext \<times> utext \<times> bool \<Rightarrow> exc + unit" where
  "replacement_ok word dec r =
     (let bad = ValueErr ''bounded typed local replacements required'' in
      rbind (ensure (lean_name word dec (fst r) \<and> fst (snd r) \<noteq> []) bad) (\<lambda>_.
      rbind (utf8_length (fst (snd r))) (\<lambda>n. ensure (n \<le> 65536) bad)))"

definition replacement_names :: "(nat \<Rightarrow> bool) \<Rightarrow> (nat \<Rightarrow> bool) \<Rightarrow> replacements \<Rightarrow> utext list" where
  "replacement_names word dec rs = concat (map (\<lambda>(n, t, a). find_names word dec t) rs)"

definition parens :: "utext \<Rightarrow> utext" where
  "parens t = u ''('' @ t @ u '')''"

definition atomic_text :: "utext \<times> bool \<Rightarrow> utext" where
  "atomic_text c = (if snd c then fst c else parens (fst c))"

text \<open>\<open>render\<close>, for nodes that passed the validation.\<close>

fun render_node :: "(nat \<Rightarrow> bool) \<Rightarrow> (nat \<Rightarrow> bool) \<Rightarrow> replacements \<Rightarrow> tnode \<Rightarrow> exc + utext \<times> bool" where
  "render_node word dec rs (TNode op name args) =
     (if op = ''local'' then Inr (case map_of rs name of Some r \<Rightarrow> r | None \<Rightarrow> (name, True))
      else if op = ''const'' then Inr (u ''_root_.'' @ name, True)
      else if op = ''lambda'' \<and> (name \<in> fst ` set rs \<or> name \<in> set (replacement_names word dec rs))
        then Inl (ValueErr ''replacement would cross a shadowing binder'')
      else rbind (rmap (render_node word dec rs) args) (\<lambda>cs.
        let out =
          (if op = ''app'' then
             ((if tn_op (args ! 0) = ''app'' then fst (cs ! 0) else atomic_text (cs ! 0)) @ [32] @ atomic_text (cs ! 1), False)
           else if op = ''proj'' then
             (let loc = tn_op (args ! 0) = ''local'' \<and> tn_name (args ! 0) \<notin> fst ` set rs;
                  base = (if loc \<or> tn_op (args ! 0) = ''proj'' then fst (cs ! 0) else parens (fst (cs ! 0)))
              in (base @ u ''.'' @ name, True))
           else if op = ''lambda'' then (u ''fun '' @ name @ u '' => '' @ fst (cs ! 0), False)
           else ([0x27E8] @ fst (cs ! 0) @ u '', '' @ fst (cs ! 1) @ [0x27E9], True)) in
        rbind (utf8_length (fst out)) (\<lambda>n.
          if 65536 < n then Inl (ValueErr ''rendered constructive term byte budget'') else Inr out)))"

definition render_tree :: "(nat \<Rightarrow> bool) \<Rightarrow> (nat \<Rightarrow> bool) \<Rightarrow> tnode \<Rightarrow> replacements \<Rightarrow> exc + utext" where
  "render_tree word dec t rs =
     rbind (validate_tree word dec t) (\<lambda>_.
     rbind (ensure (length rs \<le> 16) (ValueErr ''bounded typed local replacements required'')) (\<lambda>_.
     rbind (rmap (replacement_ok word dec) rs) (\<lambda>_.
     rbind (render_node word dec rs t) (\<lambda>r. Inr (fst r)))))"

end
