(* ===== verification/Cp_Search.thy ===== *)
theory Cp_Search
  imports Cp_Terms Py_Values
begin

text \<open>
  The constructive proof search of \<open>jevops/constructive_proofs.py\<close> and the token count of
  \<open>jevops/proof_tokens.py\<close> it minimises. The counters and the set of used names that the nested
  function \<open>prove\<close> changes are the record \<open>proof_state\<close>; a fact table is a dictionary from
  formulas to proofs in insertion order; a set of names is a list without repetitions.
\<close>

section \<open>Tokens\<close>

text \<open>\<open>[A-Za-z0-9_']\<close>.\<close>

definition token_char :: "nat \<Rightarrow> bool" where
  "token_char c \<longleftrightarrow> 65 \<le> c \<and> c \<le> 90 \<or> 97 \<le> c \<and> c \<le> 122 \<or> 48 \<le> c \<and> c \<le> 57 \<or> c = 95 \<or> c = 39"

function count_tokens :: "(nat \<Rightarrow> bool) \<Rightarrow> utext \<Rightarrow> nat" where
  "count_tokens space [] = 0"
| "count_tokens space (c # cs) =
     (if token_char c then Suc (count_tokens space (dropWhile token_char cs))
      else if space c then count_tokens space cs else Suc (count_tokens space cs))"
  by pat_completeness auto
termination
  by (relation "measure (\<lambda>(sp, t). length t)") (auto simp: le_imp_less_Suc length_dropWhile_le)

text \<open>The text behind the first \<open>:=\<close>, white space and the word \<open>by\<close> in any case.\<close>

definition marker_at :: "(nat \<Rightarrow> bool) \<Rightarrow> (nat \<Rightarrow> bool) \<Rightarrow> utext \<Rightarrow> utext option" where
  "marker_at word space t =
     (if take 2 t \<noteq> u '':='' then None
      else case dropWhile space (drop 2 t) of
        b # y # rest \<Rightarrow>
          if b \<in> set (u ''bB'') \<and> y \<in> set (u ''yY'') \<and> (case rest of [] \<Rightarrow> True | c # _ \<Rightarrow> \<not> word c) then Some rest else None
      | _ \<Rightarrow> None)"

fun body_marker :: "(nat \<Rightarrow> bool) \<Rightarrow> (nat \<Rightarrow> bool) \<Rightarrow> utext \<Rightarrow> utext option" where
  "body_marker word space [] = None"
| "body_marker word space (c # cs) =
     (case marker_at word space (c # cs) of Some r \<Rightarrow> Some r | None \<Rightarrow> body_marker word space cs)"

definition proof_source_tokens :: "(nat \<Rightarrow> bool) \<Rightarrow> (nat \<Rightarrow> bool) \<Rightarrow> utext \<Rightarrow> nat" where
  "proof_source_tokens word space t =
     count_tokens space (case body_marker word space t of Some r \<Rightarrow> r | None \<Rightarrow> t)"

section \<open>Propositions and proofs\<close>

text \<open>\<open>_normalize\<close>: negation is implication of falsity, exclusive or is refused.\<close>

primrec normalize :: "formula \<Rightarrow> exc + formula" where
  "normalize (FVar n) = Inr (FVar n)"
| "normalize FTrue = Inr FTrue"
| "normalize FFalse = Inr FFalse"
| "normalize (FNot a) = rbind (normalize a) (\<lambda>x. Inr (FBin Imp x FFalse))"
| "normalize (FBin op a b) =
     (if op = Xor then Inl (ValueErr ''XOR is outside constructive syntax'')
      else rbind (normalize a) (\<lambda>x. rbind (normalize b) (\<lambda>y. Inr (FBin op x y))))"

record cproof =
  cp_text :: utext
  cp_used :: "utext list"
  cp_tree :: tnode

type_synonym facts = "(formula \<times> cproof) list"

text \<open>The character classes of the regular expressions and the budgets, fixed during a search.\<close>

record cp_env =
  word_char :: "nat \<Rightarrow> bool"
  digit_char :: "nat \<Rightarrow> bool"
  space_char :: "nat \<Rightarrow> bool"
  max_states :: nat
  max_facts :: nat

definition cp_cost :: "cp_env \<Rightarrow> cproof \<Rightarrow> nat \<times> nat \<times> utext" where
  "cp_cost E p =
     (proof_source_tokens (word_char E) (space_char E) (u ''exact '' @ cp_text p), length (cp_text p), cp_text p)"

text \<open>\<open>_arg\<close>: a name with projections stands for itself, anything else goes in parentheses.\<close>

function suffixes_ok :: "utext \<Rightarrow> bool" where
  "suffixes_ok [] = True"
| "suffixes_ok (c # cs) =
     (c = 46 \<and> takeWhile (\<lambda>x. x \<noteq> 46) cs \<in> set projections \<and> suffixes_ok (dropWhile (\<lambda>x. x \<noteq> 46) cs))"
  by pat_completeness auto
termination
  by (relation "measure length") (auto simp: le_imp_less_Suc length_dropWhile_le)

definition plain_arg :: "cp_env \<Rightarrow> utext \<Rightarrow> bool" where
  "plain_arg E t =
     (lean_name (word_char E) (digit_char E) (takeWhile (name_char (word_char E)) t)
      \<and> suffixes_ok (dropWhile (name_char (word_char E)) t))"

definition cp_arg :: "cp_env \<Rightarrow> cproof \<Rightarrow> utext" where
  "cp_arg E p = (if plain_arg E (cp_text p) then cp_text p else parens (cp_text p))"

text \<open>The ways the search builds a proof.\<close>

definition local_proof :: "utext \<Rightarrow> cproof" where
  "local_proof n = \<lparr>cp_text = n, cp_used = [n], cp_tree = TNode ''local'' n []\<rparr>"

definition const_proof :: "string \<Rightarrow> cproof" where
  "const_proof c = \<lparr>cp_text = u c, cp_used = [], cp_tree = TNode ''const'' (u c) []\<rparr>"

definition proj_proof :: "cp_env \<Rightarrow> string \<Rightarrow> cproof \<Rightarrow> cproof" where
  "proj_proof E s p = \<lparr>cp_text = cp_arg E p @ u ''.'' @ u s, cp_used = cp_used p, cp_tree = TNode ''proj'' (u s) [cp_tree p]\<rparr>"

definition app_proof :: "cp_env \<Rightarrow> cproof \<Rightarrow> cproof \<Rightarrow> cproof" where
  "app_proof E p a =
     \<lparr>cp_text = cp_arg E p @ [32] @ cp_arg E a, cp_used = List.union (cp_used p) (cp_used a),
      cp_tree = TNode ''app'' [] [cp_tree p, cp_tree a]\<rparr>"

definition head_proof :: "cp_env \<Rightarrow> string \<Rightarrow> cproof \<Rightarrow> cproof" where
  "head_proof E c p =
     \<lparr>cp_text = u c @ [32] @ cp_arg E p, cp_used = cp_used p,
      cp_tree = TNode ''app'' [] [TNode ''const'' (u c) [], cp_tree p]\<rparr>"

definition lambda_proof :: "utext \<Rightarrow> cproof \<Rightarrow> cproof" where
  "lambda_proof n b =
     \<lparr>cp_text = u ''fun '' @ n @ u '' => '' @ cp_text b, cp_used = filter (\<lambda>x. x \<noteq> n) (cp_used b),
      cp_tree = TNode ''lambda'' n [cp_tree b]\<rparr>"

definition pair_proof :: "cproof \<Rightarrow> cproof \<Rightarrow> cproof" where
  "pair_proof a b =
     \<lparr>cp_text = [0x27E8] @ cp_text a @ u '', '' @ cp_text b @ [0x27E9], cp_used = List.union (cp_used a) (cp_used b),
      cp_tree = TNode ''pair'' [] [cp_tree a, cp_tree b]\<rparr>"

definition cases_proof :: "cp_env \<Rightarrow> cproof \<Rightarrow> utext \<Rightarrow> cproof \<Rightarrow> utext \<Rightarrow> cproof \<Rightarrow> cproof" where
  "cases_proof E p n a m b =
     \<lparr>cp_text = u ''Or.elim '' @ cp_arg E p @ u '' '' @ parens (u ''fun '' @ n @ u '' => '' @ cp_text a)
        @ u '' '' @ parens (u ''fun '' @ m @ u '' => '' @ cp_text b),
      cp_used = List.union (cp_used p) (List.union (filter (\<lambda>x. x \<noteq> n) (cp_used a)) (filter (\<lambda>x. x \<noteq> m) (cp_used b))),
      cp_tree = TNode ''app'' [] [TNode ''app'' [] [TNode ''app'' [] [TNode ''const'' (u ''Or.elim'') [], cp_tree p],
        TNode ''lambda'' n [cp_tree a]], TNode ''lambda'' m [cp_tree b]]\<rparr>"

section \<open>Search state and local saturation\<close>

record proof_state =
  visited :: nat
  exhausted :: bool
  serial :: nat
  reserved :: "utext list"

definition cp_name :: "nat \<Rightarrow> utext" where
  "cp_name k = u (''_cp'' @ nat_text k)"

text \<open>\<open>fresh\<close>: the first unused name from the current number on; the loop looks at no more numbers
  than there are reserved names, plus one.\<close>

definition fresh :: "proof_state \<Rightarrow> utext \<times> proof_state" where
  "fresh s =
     (case find (\<lambda>k. cp_name k \<notin> set (reserved s)) [serial s ..< serial s + Suc (length (reserved s))] of
        Some k \<Rightarrow> (cp_name k, s\<lparr>serial := Suc k, reserved := cp_name k # reserved s\<rparr>)
      | None \<Rightarrow> ([], s))"

text \<open>\<open>add\<close>: the table, whether it changed, and whether a budget was hit.\<close>

definition add_fact :: "cp_env \<Rightarrow> formula \<Rightarrow> cproof \<Rightarrow> facts \<times> bool \<times> bool \<Rightarrow> facts \<times> bool \<times> bool" where
  "add_fact E f p acc =
     (let (facts, changed, hit) = acc in
      if 8192 < length (cp_text p) then (facts, changed, True)
      else (case map_of facts f of
        None \<Rightarrow> if max_facts E \<le> length facts then (facts, changed, True) else (dict_set f p facts, True, hit)
      | Some old \<Rightarrow> if cp_cost E p < cp_cost E old then (dict_set f p facts, True, hit) else acc))"

definition use_fact :: "cp_env \<Rightarrow> formula \<times> cproof \<Rightarrow> facts \<times> bool \<times> bool \<Rightarrow> facts \<times> bool \<times> bool" where
  "use_fact E fp acc =
     (let (f, p) = fp;
          acc = (case f of
            FBin And a b \<Rightarrow> add_fact E b (proj_proof E ''right'' p) (add_fact E a (proj_proof E ''left'' p) acc)
          | FBin Iff a b \<Rightarrow> add_fact E (FBin Imp b a) (proj_proof E ''mpr'' p) (add_fact E (FBin Imp a b) (proj_proof E ''mp'' p) acc)
          | _ \<Rightarrow> acc)
      in (case f of
            FBin Imp a b \<Rightarrow> (case map_of (fst acc) a of Some q \<Rightarrow> add_fact E b (app_proof E p q) acc | None \<Rightarrow> acc)
          | _ \<Rightarrow> acc))"

primrec saturate_facts :: "cp_env \<Rightarrow> nat \<Rightarrow> facts \<times> bool \<Rightarrow> facts \<times> bool" where
  "saturate_facts E 0 acc = acc"
| "saturate_facts E (Suc k) acc =
     (let (facts, changed, hit) = fold (use_fact E) (fst acc) (fst acc, False, snd acc) in
      if changed then saturate_facts E k (facts, hit) else (facts, hit))"

section \<open>The recursive search\<close>

type_synonym goals = "(formula \<times> formula set) set"
type_synonym prover = "formula \<Rightarrow> facts \<Rightarrow> goals \<Rightarrow> proof_state \<Rightarrow> cproof option \<times> proof_state"

text \<open>\<open>min(choices, key=cost)\<close>: the first of the cheapest.\<close>

definition cheapest_tree :: "cp_env \<Rightarrow> cproof list \<Rightarrow> cproof option" where
  "cheapest_tree E cs = (case cs of [] \<Rightarrow> None
     | c # rest \<Rightarrow> Some (foldl (\<lambda>b x. if cp_cost E x < cp_cost E b then x else b) c rest))"

definition direct_choices :: "cp_env \<Rightarrow> formula \<Rightarrow> facts \<Rightarrow> cproof list" where
  "direct_choices E target facts =
     (case map_of facts target of Some p \<Rightarrow> [p] | None \<Rightarrow> [])
     @ (case map_of facts FFalse of Some p \<Rightarrow> [head_proof E ''False.elim'' p] | None \<Rightarrow> [])
     @ (if target = FTrue then [const_proof ''True.intro''] else [])"

definition imp_choices :: "prover \<Rightarrow> formula \<Rightarrow> facts \<Rightarrow> goals \<Rightarrow> proof_state \<Rightarrow> cproof list \<times> proof_state" where
  "imp_choices rec target facts active s = (case target of
     FBin Imp a b \<Rightarrow>
       (let direct = (case a of FBin And x y \<Rightarrow> if b = x then [const_proof ''And.left'']
                        else if b = y then [const_proof ''And.right''] else [] | _ \<Rightarrow> []);
            (n, s1) = fresh s;
            (r, s2) = rec b (dict_set a (local_proof n) facts) active s1
        in (direct @ (case r of Some p \<Rightarrow> [lambda_proof n p] | None \<Rightarrow> []), s2))
   | _ \<Rightarrow> ([], s))"

definition pair_goals :: "formula \<Rightarrow> (formula \<times> formula) option" where
  "pair_goals target = (case target of FBin And a b \<Rightarrow> Some (a, b)
     | FBin Iff a b \<Rightarrow> Some (FBin Imp a b, FBin Imp b a) | _ \<Rightarrow> None)"

definition pair_choices :: "prover \<Rightarrow> formula \<Rightarrow> facts \<Rightarrow> goals \<Rightarrow> proof_state \<Rightarrow> cproof list \<times> proof_state" where
  "pair_choices rec target facts active s = (case pair_goals target of
     Some (g, h) \<Rightarrow>
       (let (a, s1) = rec g facts active s; (b, s2) = rec h facts active s1
        in (case (a, b) of (Some p, Some q) \<Rightarrow> [pair_proof p q] | _ \<Rightarrow> [], s2))
   | None \<Rightarrow> ([], s))"

definition or_choices :: "cp_env \<Rightarrow> prover \<Rightarrow> formula \<Rightarrow> facts \<Rightarrow> goals \<Rightarrow> proof_state \<Rightarrow> cproof list \<times> proof_state" where
  "or_choices E rec target facts active s = (case target of
     FBin Or g h \<Rightarrow>
       (let (a, s1) = rec g facts active s; (b, s2) = rec h facts active s1
        in ((case a of Some p \<Rightarrow> [head_proof E ''Or.inl'' p] | None \<Rightarrow> [])
            @ (case b of Some p \<Rightarrow> [head_proof E ''Or.inr'' p] | None \<Rightarrow> []), s2))
   | _ \<Rightarrow> ([], s))"

text \<open>Implications with the target as conclusion, each without itself among the facts.\<close>

primrec chain_choices :: "cp_env \<Rightarrow> prover \<Rightarrow> formula \<Rightarrow> facts \<Rightarrow> goals \<Rightarrow> facts \<Rightarrow> proof_state \<Rightarrow> cproof list \<times> proof_state" where
  "chain_choices E rec target facts active [] s = ([], s)"
| "chain_choices E rec target facts active (fp # rest) s =
     (case fst fp of
        FBin Imp a b \<Rightarrow>
          if b = target then
            (let (r, s1) = rec a (dict_pop (fst fp) facts) active s;
                 (cs, s2) = chain_choices E rec target facts active rest s1
             in ((case r of Some q \<Rightarrow> [app_proof E (snd fp) q] | None \<Rightarrow> []) @ cs, s2))
          else chain_choices E rec target facts active rest s
      | _ \<Rightarrow> chain_choices E rec target facts active rest s)"

primrec case_choices :: "cp_env \<Rightarrow> prover \<Rightarrow> formula \<Rightarrow> facts \<Rightarrow> goals \<Rightarrow> facts \<Rightarrow> proof_state \<Rightarrow> cproof list \<times> proof_state" where
  "case_choices E rec target facts active [] s = ([], s)"
| "case_choices E rec target facts active (fp # rest) s =
     (case fst fp of
        FBin Or g h \<Rightarrow>
          (let (n, s1) = fresh s; (m, s2) = fresh s1;
               others = dict_pop (fst fp) facts;
               (a, s3) = rec target (dict_set g (local_proof n) others) active s2;
               (b, s4) = rec target (dict_set h (local_proof m) others) active s3;
               (cs, s5) = case_choices E rec target facts active rest s4
           in ((case (a, b) of (Some p, Some q) \<Rightarrow> [cases_proof E (snd fp) n p m q] | _ \<Rightarrow> []) @ cs, s5))
      | _ \<Rightarrow> case_choices E rec target facts active rest s)"

text \<open>The body of \<open>prove\<close> behind its budget test.\<close>

definition prove_step :: "cp_env \<Rightarrow> prover \<Rightarrow> prover" where
  "prove_step E rec target facts active s =
     (let (facts, hit) = saturate_facts E (max_facts E) (facts, False);
          s = s\<lparr>exhausted := exhausted s \<or> hit\<rparr>;
          key = (target, fst ` set facts) in
      if key \<in> active then (map_of facts target, s)
      else
        (let active = insert key active;
             (c1, s1) = imp_choices rec target facts active s;
             (c2, s2) = pair_choices rec target facts active s1;
             (c3, s3) = or_choices E rec target facts active s2;
             choices = direct_choices E target facts @ c1 @ c2 @ c3;
             (choices, s4) = (if choices = [] then chain_choices E rec target facts active facts s3 else (choices, s3));
             (choices, s5) = (if choices = [] then case_choices E rec target facts active facts s4 else (choices, s4))
         in (cheapest_tree E choices, s5)))"

text \<open>\<open>prove\<close>; the first argument is the number of further levels the depth budget allows.\<close>

primrec prove :: "cp_env \<Rightarrow> nat \<Rightarrow> prover" where
  "prove E 0 target facts active s = (None, s\<lparr>exhausted := True\<rparr>)"
| "prove E (Suc k) target facts active s =
     (if max_states E \<le> visited s then (None, s\<lparr>exhausted := True\<rparr>)
      else prove_step E (prove E k) target facts active (s\<lparr>visited := Suc (visited s)\<rparr>))"

section \<open>The search for a goal from assumptions\<close>

record search_result =
  sr_term :: "utext option"
  sr_support :: "utext list"
  sr_states :: nat
  sr_exhausted :: bool
  sr_term_ir :: "tnode option"

primrec initial_facts :: "cp_env \<Rightarrow> (utext \<times> formula) list \<Rightarrow> facts \<Rightarrow> exc + facts" where
  "initial_facts E [] facts = Inr facts"
| "initial_facts E (a # rest) facts = rbind (normalize (snd a)) (\<lambda>f.
     let p = local_proof (fst a) in
     initial_facts E rest (if (case map_of facts f of None \<Rightarrow> True | Some q \<Rightarrow> cp_cost E p < cp_cost E q)
       then dict_set f p facts else facts))"

definition search_report :: "(nat \<Rightarrow> bool) \<Rightarrow> (nat \<Rightarrow> bool) \<Rightarrow> bool \<Rightarrow> cproof option \<times> proof_state \<Rightarrow> search_result" where
  "search_report word dec include_ir out =
     (let (r, t) = out in
      \<lparr>sr_term = map_option cp_text r,
       sr_support = (case r of Some p \<Rightarrow> sort (cp_used p) | None \<Rightarrow> []),
       sr_states = visited t, sr_exhausted = exhausted t,
       sr_term_ir =
         (if include_ir then
            (case r of Some p \<Rightarrow> (case validate_tree word dec (cp_tree p) of Inr _ \<Rightarrow> Some (cp_tree p) | Inl _ \<Rightarrow> None)
             | None \<Rightarrow> None)
          else None)\<rparr>)"

definition proof_search :: "(nat \<Rightarrow> bool) \<Rightarrow> (nat \<Rightarrow> bool) \<Rightarrow> (nat \<Rightarrow> bool) \<Rightarrow> formula \<Rightarrow> (utext \<times> formula) list
    \<Rightarrow> int \<Rightarrow> int \<Rightarrow> int \<Rightarrow> bool \<Rightarrow> exc + search_result" where
  "proof_search word dec space goal assumptions states depth_budget fact_budget include_ir =
     (if \<not> (1 \<le> states \<and> states \<le> 4096 \<and> 1 \<le> depth_budget \<and> depth_budget \<le> 20 \<and> 1 \<le> fact_budget \<and> fact_budget \<le> 256)
        then Inl (ValueErr ''invalid constructive search budget'')
      else
        (let E = \<lparr>word_char = word, digit_char = dec, space_char = space, max_states = nat states, max_facts = nat fact_budget\<rparr> in
         rbind (normalize goal) (\<lambda>goal.
         rbind (variables (goal # map snd assumptions)) (\<lambda>names.
         if 16 < length assumptions \<or> \<not> distinct (map fst assumptions) \<or> (\<exists>a \<in> set assumptions. \<not> lean_name word dec (fst a))
           then Inl (ValueErr ''invalid constructive context'')
         else rbind (initial_facts E assumptions []) (\<lambda>facts.
           let s = \<lparr>visited = 0, exhausted = False, serial = 0, reserved = names @ map fst assumptions\<rparr>
           in Inr (search_report word dec include_ir (prove E (Suc (nat depth_budget)) goal facts {} s)))))))"

end
