(* ===== verification/Cp_Sound.thy ===== *)
theory Cp_Sound
  imports Cp_Search
begin

text \<open>
  Soundness of the constructive proof search: every proof it returns is a typed term of the goal
  in the context of the assumptions, so the goal holds in every world of every Kripke model that
  forces the assumptions the term uses. The search therefore never uses a classical principle.
\<close>

section \<open>Typed terms\<close>

type_synonym context_of = "utext \<Rightarrow> formula option"

abbreviation imp :: "formula \<Rightarrow> formula \<Rightarrow> formula" where "imp \<equiv> FBin Imp"
abbreviation const :: "string \<Rightarrow> tnode" where "const c \<equiv> TNode ''const'' (u c) []"
abbreviation app :: "tnode \<Rightarrow> tnode \<Rightarrow> tnode" where "app f a \<equiv> TNode ''app'' [] [f, a]"

inductive typed :: "context_of \<Rightarrow> tnode \<Rightarrow> formula \<Rightarrow> bool" where
  local: "G n = Some f \<Longrightarrow> typed G (TNode ''local'' n []) f"
| true: "typed G (const ''True.intro'') FTrue"
| false: "typed G (const ''False.elim'') (imp FFalse c)"
| and_left: "typed G (const ''And.left'') (imp (FBin And a b) a)"
| and_right: "typed G (const ''And.right'') (imp (FBin And a b) b)"
| inl: "typed G (const ''Or.inl'') (imp a (FBin Or a b))"
| inr: "typed G (const ''Or.inr'') (imp b (FBin Or a b))"
| elim: "typed G (const ''Or.elim'') (imp (FBin Or a b) (imp (imp a c) (imp (imp b c) c)))"
| app: "typed G f (imp a b) \<Longrightarrow> typed G x a \<Longrightarrow> typed G (app f x) b"
| lambda: "typed (G(n \<mapsto> a)) t b \<Longrightarrow> typed G (TNode ''lambda'' n [t]) (imp a b)"
| pair: "typed G s a \<Longrightarrow> typed G t b \<Longrightarrow> typed G (TNode ''pair'' [] [s, t]) (FBin And a b)"
| iff: "typed G s (imp a b) \<Longrightarrow> typed G t (imp b a) \<Longrightarrow> typed G (TNode ''pair'' [] [s, t]) (FBin Iff a b)"
| left: "typed G t (FBin And a b) \<Longrightarrow> typed G (TNode ''proj'' (u ''left'') [t]) a"
| right: "typed G t (FBin And a b) \<Longrightarrow> typed G (TNode ''proj'' (u ''right'') [t]) b"
| mp: "typed G t (FBin Iff a b) \<Longrightarrow> typed G (TNode ''proj'' (u ''mp'') [t]) (imp a b)"
| mpr: "typed G t (FBin Iff a b) \<Longrightarrow> typed G (TNode ''proj'' (u ''mpr'') [t]) (imp b a)"

fun free_names :: "tnode \<Rightarrow> utext set" where
  "free_names (TNode op name args) =
     (if op = ''local'' then {name}
      else if op = ''lambda'' then (\<Union>t \<in> set args. free_names t) - {name} else (\<Union>t \<in> set args. free_names t))"

lemma typed_free: "typed G t f \<Longrightarrow> free_names t \<subseteq> dom G"
  by (induction rule: typed.induct) (auto split: if_splits)

lemma typed_agree: "typed G t f \<Longrightarrow> (\<And>n. n \<in> free_names t \<Longrightarrow> H n = G n) \<Longrightarrow> typed H t f"
proof (induction arbitrary: H rule: typed.induct)
  case (lambda G n a t b)
  have "typed (H(n \<mapsto> a)) t b" by (rule lambda.IH) (use lambda.prems in auto)
  then show ?case by (rule typed.lambda)
next
  case (app G f a b x)
  have "typed H f (imp a b)" "typed H x a" by (rule app.IH; use app.prems in auto)+
  then show ?case by (rule typed.app)
next
  case (pair G s a t b)
  have "typed H s a" "typed H t b" by (rule pair.IH; use pair.prems in auto)+
  then show ?case by (rule typed.pair)
next
  case (iff G s a b t)
  have "typed H s (imp a b)" "typed H t (imp b a)" by (rule iff.IH; use iff.prems in auto)+
  then show ?case by (rule typed.iff)
qed (auto intro: typed.intros)

lemma typed_weaken:
  assumes "typed G t f" and "G \<subseteq>\<^sub>m H"
  shows "typed H t f"
proof (rule typed_agree [OF assms(1)])
  fix n
  assume "n \<in> free_names t"
  then have "n \<in> dom G" using typed_free [OF assms(1)] by blast
  then show "H n = G n" using assms(2) by (auto simp: map_le_def)
qed

section \<open>Kripke models\<close>

primrec forces :: "('w \<Rightarrow> 'w \<Rightarrow> bool) \<Rightarrow> ('w \<Rightarrow> utext \<Rightarrow> bool) \<Rightarrow> 'w \<Rightarrow> formula \<Rightarrow> bool" where
  "forces R V w (FVar n) = V w n"
| "forces R V w FTrue = True"
| "forces R V w FFalse = False"
| "forces R V w (FNot a) = (\<forall>x. R w x \<longrightarrow> \<not> forces R V x a)"
| "forces R V w (FBin op a b) = (case op of
     And \<Rightarrow> forces R V w a \<and> forces R V w b
   | Or \<Rightarrow> forces R V w a \<or> forces R V w b
   | Imp \<Rightarrow> (\<forall>x. R w x \<longrightarrow> forces R V x a \<longrightarrow> forces R V x b)
   | Iff \<Rightarrow> (\<forall>x. R w x \<longrightarrow> forces R V x a = forces R V x b)
   | Xor \<Rightarrow> (\<forall>x. R w x \<longrightarrow> \<not> (\<forall>y. R x y \<longrightarrow> forces R V y a = forces R V y b)))"

definition kripke :: "('w \<Rightarrow> 'w \<Rightarrow> bool) \<Rightarrow> ('w \<Rightarrow> utext \<Rightarrow> bool) \<Rightarrow> bool" where
  "kripke R V \<longleftrightarrow> (\<forall>w. R w w) \<and> (\<forall>x y z. R x y \<longrightarrow> R y z \<longrightarrow> R x z) \<and> (\<forall>x y n. R x y \<longrightarrow> V x n \<longrightarrow> V y n)"

lemma forces_mono: "kripke R V \<Longrightarrow> R w x \<Longrightarrow> forces R V w f \<Longrightarrow> forces R V x f"
proof (induction f arbitrary: w x)
  case (FNot a)
  have "R w y" if "R x y" for y using FNot.prems(1,2) that unfolding kripke_def by blast
  then show ?case using FNot.prems(3) by auto
next
  case (FBin op a b)
  have "R w y" if "R x y" for y using FBin.prems(1,2) that unfolding kripke_def by blast
  then show ?case
    using FBin.prems(3) FBin.IH(1) [OF FBin.prems(1,2)] FBin.IH(2) [OF FBin.prems(1,2)] by (cases op) auto
qed (auto simp: kripke_def)

lemma typed_forces:
  assumes "typed G t f" and "kripke R V"
  shows "(\<And>n g. G n = Some g \<Longrightarrow> forces R V w g) \<Longrightarrow> forces R V w f"
  using assms(1)
proof (induction arbitrary: w rule: typed.induct)
  case (app G f a b x)
  have "forces R V w (imp a b)" "forces R V w a" using app.IH app.prems by blast+
  moreover have "R w w" using assms(2) by (simp add: kripke_def)
  ultimately show ?case by simp
next
  case (lambda G n a t b)
  have "forces R V x b" if "R w x" "forces R V x a" for x
  proof (rule lambda.IH)
    fix m g
    assume "(G(n \<mapsto> a)) m = Some g"
    then show "forces R V x g" using that(2) lambda.prems forces_mono [OF assms(2) that(1)] by (auto split: if_splits)
  qed
  then show ?case by simp
next
  case (iff G s a b t)
  have "forces R V w (imp a b)" "forces R V w (imp b a)" using iff.IH iff.prems by blast+
  then show ?case by auto
next
  case (elim G a b c)
  have "forces R V y c" if "R w x" "forces R V x (FBin Or a b)" "R x z" "forces R V z (imp a c)" "R z y" "forces R V y (imp b c)" for x y z
  proof -
    have "R y y" "R x y" using assms(2) that(3,5) unfolding kripke_def by blast+
    moreover have "forces R V y (FBin Or a b)" by (rule forces_mono [OF assms(2) \<open>R x y\<close> that(2)])
    moreover have "forces R V y (imp a c)" by (rule forces_mono [OF assms(2) that(5,4)])
    ultimately show ?thesis using that(6) by auto
  qed
  then show ?case by simp
next
  case (pair G s a t b)
  have "forces R V w a" "forces R V w b" using pair.IH pair.prems by blast+
  then show ?case by simp
next
  case (left G t a b)
  have "forces R V w (FBin And a b)" using left.IH left.prems by blast
  then show ?case by simp
next
  case (right G t a b)
  have "forces R V w (FBin And a b)" using right.IH right.prems by blast
  then show ?case by simp
next
  case (mp G t a b)
  have "forces R V w (FBin Iff a b)" using mp.IH mp.prems by blast
  then show ?case by simp
next
  case (mpr G t a b)
  have "forces R V w (FBin Iff a b)" using mpr.IH mpr.prems by blast
  then show ?case by simp
next
  case (local G n f)
  show ?case by (rule local.prems [OF local.hyps])
qed simp_all

text \<open>Normalisation keeps forcing and truth.\<close>

lemma normalize_forces:
  assumes "kripke R V"
  shows "normalize f = Inr g \<Longrightarrow> forces R V w g = forces R V w f"
proof (induction f arbitrary: g w)
  case (FNot a)
  then obtain x where x: "normalize a = Inr x" "g = imp x FFalse" by (auto simp: res_simps)
  then show ?case using FNot.IH [OF x(1)] by auto
next
  case (FBin op a b)
  then obtain x y where x: "op \<noteq> Xor" "normalize a = Inr x" "normalize b = Inr y" "g = FBin op x y"
    by (auto simp: res_simps split: if_splits)
  then show ?case using FBin.IH(1) [OF x(2)] FBin.IH(2) [OF x(3)] by (cases op) auto
qed auto

section \<open>What the search keeps\<close>

definition proof_ok :: "context_of \<Rightarrow> formula \<Rightarrow> cproof \<Rightarrow> bool" where
  "proof_ok G f p \<longleftrightarrow> typed G (cp_tree p) f \<and> set (cp_used p) = free_names (cp_tree p) \<and> distinct (cp_used p)"

definition facts_ok :: "context_of \<Rightarrow> facts \<Rightarrow> bool" where
  "facts_ok G facts \<longleftrightarrow> (\<forall>(f, p) \<in> set facts. proof_ok G f p)"

text \<open>Names stay reserved, and the states visited grow up to the budget only.\<close>

definition later :: "cp_env \<Rightarrow> proof_state \<Rightarrow> proof_state \<Rightarrow> bool" where
  "later E s t \<longleftrightarrow> set (reserved s) \<subseteq> set (reserved t) \<and> visited s \<le> visited t
     \<and> (visited s \<le> max_states E \<longrightarrow> visited t \<le> max_states E)"

lemma later_refl [simp]: "later E s s"
  by (simp add: later_def)

lemma later_trans: "later E s t \<Longrightarrow> later E t r \<Longrightarrow> later E s r"
  by (auto simp: later_def)

lemma facts_okD: "facts_ok G facts \<Longrightarrow> map_of facts f = Some p \<Longrightarrow> proof_ok G f p"
  unfolding facts_ok_def using map_of_SomeD by fastforce

lemma proof_ok_weaken: "proof_ok G f p \<Longrightarrow> G \<subseteq>\<^sub>m H \<Longrightarrow> proof_ok H f p"
  unfolding proof_ok_def using typed_weaken by blast

lemma facts_ok_weaken: "facts_ok G facts \<Longrightarrow> G \<subseteq>\<^sub>m H \<Longrightarrow> facts_ok H facts"
  unfolding facts_ok_def using proof_ok_weaken by fast

lemma facts_ok_set: "facts_ok G facts \<Longrightarrow> proof_ok G f p \<Longrightarrow> facts_ok G (dict_set f p facts)"
  unfolding facts_ok_def using set_dict_set_subset [of f p facts] by fast

lemma facts_ok_pop: "facts_ok G facts \<Longrightarrow> facts_ok G (dict_pop f facts)"
  unfolding facts_ok_def using set_dict_pop_subset [of f facts] by fast

lemma local_ok: "G n = Some f \<Longrightarrow> proof_ok G f (local_proof n)"
  by (auto simp: proof_ok_def local_proof_def intro: typed.intros)

lemma proj_ok:
  "proof_ok G (FBin And a b) p \<Longrightarrow> proof_ok G a (proj_proof E ''left'' p) \<and> proof_ok G b (proj_proof E ''right'' p)"
  "proof_ok G (FBin Iff a b) p \<Longrightarrow> proof_ok G (imp a b) (proj_proof E ''mp'' p) \<and> proof_ok G (imp b a) (proj_proof E ''mpr'' p)"
  by (auto simp: proof_ok_def proj_proof_def intro: typed.intros)

lemma app_ok: "proof_ok G (imp a b) p \<Longrightarrow> proof_ok G a q \<Longrightarrow> proof_ok G b (app_proof E p q)"
  by (auto simp: proof_ok_def app_proof_def intro: typed.intros)

lemma head_ok:
  "proof_ok G FFalse p \<Longrightarrow> proof_ok G c (head_proof E ''False.elim'' p)"
  "proof_ok G a p \<Longrightarrow> proof_ok G (FBin Or a b) (head_proof E ''Or.inl'' p)"
  "proof_ok G b p \<Longrightarrow> proof_ok G (FBin Or a b) (head_proof E ''Or.inr'' p)"
  by (auto simp: proof_ok_def head_proof_def intro: typed.intros)

lemma const_ok:
  "proof_ok G FTrue (const_proof ''True.intro'')"
  "proof_ok G (imp (FBin And a b) a) (const_proof ''And.left'')"
  "proof_ok G (imp (FBin And a b) b) (const_proof ''And.right'')"
  by (auto simp: proof_ok_def const_proof_def intro: typed.intros)

lemma pair_ok:
  "proof_ok G a p \<Longrightarrow> proof_ok G b q \<Longrightarrow> proof_ok G (FBin And a b) (pair_proof p q)"
  "proof_ok G (imp a b) p \<Longrightarrow> proof_ok G (imp b a) q \<Longrightarrow> proof_ok G (FBin Iff a b) (pair_proof p q)"
  by (auto simp: proof_ok_def pair_proof_def intro: typed.intros)

lemma lambda_ok: "proof_ok (G(n \<mapsto> a)) b p \<Longrightarrow> proof_ok G (imp a b) (lambda_proof n p)"
  by (auto simp: proof_ok_def lambda_proof_def intro: typed.intros)

lemma cases_ok:
  assumes "proof_ok G (FBin Or a b) p" and "proof_ok (G(n \<mapsto> a)) c q" and "proof_ok (G(m \<mapsto> b)) c r"
  shows "proof_ok G c (cases_proof E p n q m r)"
proof -
  have "typed G (app (const ''Or.elim'') (cp_tree p)) (imp (imp a c) (imp (imp b c) c))"
    using assms(1) by (auto simp: proof_ok_def intro: typed.intros)
  moreover have "typed G (TNode ''lambda'' n [cp_tree q]) (imp a c)" "typed G (TNode ''lambda'' m [cp_tree r]) (imp b c)"
    using assms(2,3) by (auto simp: proof_ok_def intro: typed.intros)
  ultimately have "typed G (cp_tree (cases_proof E p n q m r)) c" by (auto simp: cases_proof_def intro: typed.app)
  then show ?thesis using assms by (auto simp: proof_ok_def cases_proof_def)
qed

section \<open>Fresh names\<close>

definition name_digits_value :: "string \<Rightarrow> nat" where
  "name_digits_value t = foldl (\<lambda>a c. a * 10 + (of_char c - 48)) 0 t"

lemma digits_value_text: "name_digits_value (nat_text n) = n"
proof (induction n rule: nat_text.induct)
  case (1 n)
  show ?case
  proof (cases "n < 10")
    case True
    then show ?thesis by (simp add: nat_text.simps [of n] name_digits_value_def)
  next
    case False
    have "(of_char (char_of (48 + n mod 10) :: char) :: nat) = 48 + n mod 10" by simp
    then show ?thesis
      using 1 False by (subst nat_text.simps) (simp add: name_digits_value_def del: of_char_of)
  qed
qed

lemma cp_name_inj: "cp_name i = cp_name j \<Longrightarrow> i = j"
proof -
  assume "cp_name i = cp_name j"
  then have "map (of_char :: char \<Rightarrow> nat) (nat_text i) = map of_char (nat_text j)" by (simp add: cp_name_def u_def)
  then have "nat_text i = nat_text j" by (simp add: inj_map_eq_map inj_of_char)
  then show "i = j" using digits_value_text by metis
qed

lemma fresh_spec:
  assumes "fresh s = (n, t)"
  shows "n \<notin> set (reserved s)" "n \<in> set (reserved t)" "later E s t"
proof -
  let ?ks = "[serial s ..< serial s + Suc (length (reserved s))]" and ?P = "\<lambda>k. cp_name k \<notin> set (reserved s)"
  have "\<exists>k \<in> set ?ks. ?P k"
  proof (rule ccontr)
    assume "\<not> (\<exists>k \<in> set ?ks. ?P k)"
    then have "cp_name ` set ?ks \<subseteq> set (reserved s)" by blast
    then have "card (cp_name ` set ?ks) \<le> length (reserved s)"
      by (meson card_length card_mono finite_set le_trans)
    moreover have "card (cp_name ` set ?ks) = Suc (length (reserved s))"
      by (subst card_image) (auto simp: inj_on_def dest: cp_name_inj)
    ultimately show False by simp
  qed
  then obtain k where k: "find ?P ?ks = Some k" by (metis find_None_iff not_Some_eq)
  then have "?P k" by (blast dest: find_SomeD)
  moreover have "fresh s = (cp_name k, s\<lparr>serial := Suc k, reserved := cp_name k # reserved s\<rparr>)"
    unfolding fresh_def k option.case ..
  then have "n = cp_name k" "t = s\<lparr>serial := Suc k, reserved := cp_name k # reserved s\<rparr>" using assms by simp_all
  ultimately show "n \<notin> set (reserved s)" "n \<in> set (reserved t)" "later E s t" by (auto simp: later_def)
qed

section \<open>The search\<close>

lemma add_fact_ok: "facts_ok G (fst acc) \<Longrightarrow> proof_ok G f p \<Longrightarrow> facts_ok G (fst (add_fact E f p acc))"
  using facts_ok_set by (auto simp: add_fact_def Let_def split: prod.split option.split)

lemma use_fact_ok:
  assumes acc: "facts_ok G (fst acc)" and p: "proof_ok G f p"
  shows "facts_ok G (fst (use_fact E (f, p) acc))"
proof (cases f)
  case (FBin op a b)
  show ?thesis
  proof (cases op)
    case And
    then show ?thesis using FBin acc p proj_ok(1) [of G a b p] by (simp add: use_fact_def Let_def add_fact_ok)
  next
    case Imp
    then show ?thesis
      using FBin acc p app_ok [of G a b p] facts_okD [OF acc, of a]
      by (auto simp: use_fact_def Let_def add_fact_ok split: option.split)
  next
    case Iff
    then show ?thesis using FBin acc p proj_ok(2) [of G a b p] by (simp add: use_fact_def Let_def add_fact_ok)
  qed (use FBin acc in \<open>simp_all add: use_fact_def Let_def\<close>)
qed (use acc in \<open>simp_all add: use_fact_def Let_def\<close>)

lemma fold_use_ok:
  "facts_ok G (fst acc) \<Longrightarrow> facts_ok G items \<Longrightarrow> facts_ok G (fst (fold (use_fact E) items acc))"
proof (induction items arbitrary: acc)
  case (Cons fp items)
  obtain f p where fp: "fp = (f, p)" by (cases fp)
  then have "proof_ok G f p" "facts_ok G items" using Cons.prems(2) by (auto simp: facts_ok_def)
  then show ?case using Cons.IH [OF use_fact_ok [OF Cons.prems(1)]] fp by simp
qed simp

lemma saturate_facts_ok: "facts_ok G (fst acc) \<Longrightarrow> facts_ok G (fst (saturate_facts E k acc))"
proof (induction k arbitrary: acc)
  case (Suc k)
  obtain facts changed hit where r: "fold (use_fact E) (fst acc) (fst acc, False, snd acc) = (facts, changed, hit)"
    by (metis prod_cases3)
  have "facts_ok G facts" using fold_use_ok [of G "(fst acc, False, snd acc)" "fst acc" E] Suc.prems r by simp
  then show ?case using Suc.IH [of "(facts, hit)"] r by simp
qed simp

text \<open>A prover is sound when its answers are typed in every context its facts are typed in.\<close>

definition prover_ok :: "cp_env \<Rightarrow> prover \<Rightarrow> bool" where
  "prover_ok E rec \<longleftrightarrow> (\<forall>G target facts active s r t. facts_ok G facts \<longrightarrow> dom G \<subseteq> set (reserved s)
     \<longrightarrow> rec target facts active s = (r, t) \<longrightarrow> later E s t \<and> (\<forall>p. r = Some p \<longrightarrow> proof_ok G target p))"

lemma prover_okD:
  assumes "prover_ok E rec" and "rec target facts active s = (r, t)" and "facts_ok G facts" and "dom G \<subseteq> set (reserved s)"
  shows "later E s t" "r = Some p \<Longrightarrow> proof_ok G target p" "dom G \<subseteq> set (reserved t)"
  using assms unfolding prover_ok_def later_def by blast+

definition choices_ok :: "cp_env \<Rightarrow> context_of \<Rightarrow> formula \<Rightarrow> proof_state \<Rightarrow> cproof list \<times> proof_state \<Rightarrow> bool" where
  "choices_ok E G target s out \<longleftrightarrow> (\<forall>p \<in> set (fst out). proof_ok G target p) \<and> later E s (snd out)"

lemma choices_none [simp]: "choices_ok E G target s ([], s)"
  by (simp add: choices_ok_def)

lemma extended_facts:
  assumes "facts_ok G facts" and "n \<notin> dom G"
  shows "facts_ok (G(n \<mapsto> a)) (dict_set a (local_proof n) facts)"
proof -
  have "G \<subseteq>\<^sub>m G(n \<mapsto> a)" using assms(2) by (auto simp: map_le_def)
  then show ?thesis using facts_ok_weaken [OF assms(1)] by (intro facts_ok_set local_ok) auto
qed

lemma imp_choices_ok:
  assumes rec: "prover_ok E rec" and facts: "facts_ok G facts" and G: "dom G \<subseteq> set (reserved s)"
  shows "choices_ok E G target s (imp_choices rec target facts active s)"
proof (cases target)
  case (FBin op a b)
  show ?thesis
  proof (cases "op = Imp")
    case True
    obtain n s1 where n: "fresh s = (n, s1)" by fastforce
    note F = fresh_spec [OF n]
    obtain r s2 where r: "rec b (dict_set a (local_proof n) facts) active s1 = (r, s2)" by fastforce
    have nG: "n \<notin> dom G" and domG: "dom (G(n \<mapsto> a)) \<subseteq> set (reserved s1)"
      using F(1,2) G F(3) [of E] by (auto simp: later_def)
    note P = prover_okD [OF rec r extended_facts [OF facts nG] domG]
    let ?direct = "case a of FBin And x y \<Rightarrow> if b = x then [const_proof ''And.left'']
                        else if b = y then [const_proof ''And.right''] else [] | _ \<Rightarrow> []"
    have "\<forall>p \<in> set ?direct. proof_ok G (imp a b) p"
      using const_ok by (auto split: formula.split bop.split)
    moreover have "\<forall>p \<in> set (case r of Some p \<Rightarrow> [lambda_proof n p] | None \<Rightarrow> []). proof_ok G (imp a b) p"
      using P(2) lambda_ok by (auto split: option.split)
    moreover have "later E s s2" using F(3) P(1) later_trans by blast
    ultimately show ?thesis using FBin True n r by (simp add: imp_choices_def choices_ok_def ball_Un)
  next
    case False
    then show ?thesis using FBin by (cases op) (simp_all add: imp_choices_def)
  qed
qed (simp_all add: imp_choices_def)

lemma pair_choices_ok:
  assumes rec: "prover_ok E rec" and facts: "facts_ok G facts" and G: "dom G \<subseteq> set (reserved s)"
  shows "choices_ok E G target s (pair_choices rec target facts active s)"
proof (cases "pair_goals target")
  case (Some gh)
  obtain g h where gh: "gh = (g, h)" by (cases gh)
  obtain a s1 where a: "rec g facts active s = (a, s1)" by fastforce
  note A = prover_okD [OF rec a facts G]
  obtain b s2 where b: "rec h facts active s1 = (b, s2)" by fastforce
  note B = prover_okD [OF rec b facts A(3)]
  have "proof_ok G target (pair_proof p q)" if "a = Some p" "b = Some q" for p q
    using A(2) [OF that(1)] B(2) [OF that(2)] Some gh pair_ok
    by (auto simp: pair_goals_def split: formula.splits bop.splits)
  then show ?thesis
    using Some gh a b later_trans [OF A(1) B(1)] by (auto simp: pair_choices_def choices_ok_def split: option.split)
qed (simp add: pair_choices_def)

lemma or_choices_ok:
  assumes rec: "prover_ok E rec" and facts: "facts_ok G facts" and G: "dom G \<subseteq> set (reserved s)"
  shows "choices_ok E G target s (or_choices E rec target facts active s)"
proof (cases "\<exists>g h. target = FBin Or g h")
  case True
  then obtain g h where t: "target = FBin Or g h" by blast
  obtain a s1 where a: "rec g facts active s = (a, s1)" by fastforce
  note A = prover_okD [OF rec a facts G]
  obtain b s2 where b: "rec h facts active s1 = (b, s2)" by fastforce
  note B = prover_okD [OF rec b facts A(3)]
  show ?thesis
    using t a b later_trans [OF A(1) B(1)] A(2) B(2) head_ok
    by (auto simp: or_choices_def choices_ok_def split: option.split)
next
  case False
  then show ?thesis by (auto simp: or_choices_def split: formula.split bop.split)
qed

lemma chain_choices_ok:
  assumes rec: "prover_ok E rec" and facts: "facts_ok G facts"
  shows "facts_ok G items \<Longrightarrow> dom G \<subseteq> set (reserved s) \<Longrightarrow>
    choices_ok E G target s (chain_choices E rec target facts active items s)"
proof (induction items arbitrary: s)
  case (Cons fp items)
  have items: "facts_ok G items" and fp: "proof_ok G (fst fp) (snd fp)" using Cons.prems(1) by (auto simp: facts_ok_def)
  show ?case
  proof (cases "\<exists>a. fst fp = imp a target")
    case True
    then obtain a where a: "fst fp = imp a target" by blast
    obtain r s1 where r: "rec a (dict_pop (fst fp) facts) active s = (r, s1)" by fastforce
    note A = prover_okD [OF rec r facts_ok_pop [OF facts] Cons.prems(2)]
    obtain cs s2 where cs: "chain_choices E rec target facts active items s1 = (cs, s2)" by fastforce
    have C: "choices_ok E G target s1 (cs, s2)" using Cons.IH [OF items A(3)] cs by simp
    have "proof_ok G target (app_proof E (snd fp) q)" if "r = Some q" for q
      using app_ok [of G a target "snd fp" q E] fp a A(2) [OF that] by simp
    then show ?thesis
      using a r cs C later_trans [OF A(1), of s2] by (auto simp: choices_ok_def split: option.split)
  next
    case False
    then have "chain_choices E rec target facts active (fp # items) s = chain_choices E rec target facts active items s"
      by (auto split: formula.split bop.split)
    then show ?thesis using Cons.IH [OF items Cons.prems(2)] by simp
  qed
qed simp

lemma case_choices_ok:
  assumes rec: "prover_ok E rec" and facts: "facts_ok G facts"
  shows "facts_ok G items \<Longrightarrow> dom G \<subseteq> set (reserved s) \<Longrightarrow>
    choices_ok E G target s (case_choices E rec target facts active items s)"
proof (induction items arbitrary: s)
  case (Cons fp items)
  have items: "facts_ok G items" and fp: "proof_ok G (fst fp) (snd fp)" using Cons.prems(1) by (auto simp: facts_ok_def)
  show ?case
  proof (cases "\<exists>g h. fst fp = FBin Or g h")
    case True
    then obtain g h where gh: "fst fp = FBin Or g h" by blast
    let ?others = "dict_pop (fst fp) facts"
    obtain n s1 where n: "fresh s = (n, s1)" by fastforce
    obtain m s2 where m: "fresh s1 = (m, s2)" by fastforce
    note N = fresh_spec [OF n] and M = fresh_spec [OF m]
    have res: "set (reserved s) \<subseteq> set (reserved s1)" "set (reserved s1) \<subseteq> set (reserved s2)"
      using N(3) [of E] M(3) [of E] by (simp_all add: later_def)
    have nG: "n \<notin> dom G" and mG: "m \<notin> dom G" using N(1) M(1) res Cons.prems(2) by blast+
    obtain a s3 where a: "rec target (dict_set g (local_proof n) ?others) active s2 = (a, s3)" by fastforce
    have domn: "dom (G(n \<mapsto> g)) \<subseteq> set (reserved s2)" using N(2) res Cons.prems(2) by (simp, blast)
    note A = prover_okD [OF rec a extended_facts [OF facts_ok_pop [OF facts] nG] domn]
    obtain b s4 where b: "rec target (dict_set h (local_proof m) ?others) active s3 = (b, s4)" by fastforce
    have res3: "set (reserved s2) \<subseteq> set (reserved s3)" using A(1) by (simp add: later_def)
    have domm: "dom (G(m \<mapsto> h)) \<subseteq> set (reserved s3)" using M(2) res res3 Cons.prems(2) by (simp, blast)
    note B = prover_okD [OF rec b extended_facts [OF facts_ok_pop [OF facts] mG] domm]
    obtain cs s5 where cs: "case_choices E rec target facts active items s4 = (cs, s5)" by fastforce
    have "set (reserved s3) \<subseteq> set (reserved s4)" using B(1) by (simp add: later_def)
    then have "dom G \<subseteq> set (reserved s4)" using res res3 Cons.prems(2) by blast
    then have C: "choices_ok E G target s4 (cs, s5)" using Cons.IH [OF items] cs by metis
    have "proof_ok G target (cases_proof E (snd fp) n p m q)" if "a = Some p" "b = Some q" for p q
      by (rule cases_ok [of G g h]) (use fp gh A(2) [OF that(1)] B(2) [OF that(2)] in auto)
    moreover have "later E s s5"
      using N(3) M(3) A(1) B(1) C later_trans unfolding choices_ok_def snd_conv by meson
    ultimately show ?thesis
      using gh n m a b cs C by (auto simp: choices_ok_def Let_def split: option.split)
  next
    case False
    then have "case_choices E rec target facts active (fp # items) s = case_choices E rec target facts active items s"
      by (auto split: formula.split bop.split)
    then show ?thesis using Cons.IH [OF items Cons.prems(2)] by simp
  qed
qed simp

lemma cheapest_in: "cheapest_tree E cs = Some p \<Longrightarrow> p \<in> set cs"
proof -
  have "foldl (\<lambda>b x. if cp_cost E x < cp_cost E b then x else b) c rest \<in> insert c (set rest)" for c rest
    by (induction rest arbitrary: c) auto
  then show "cheapest_tree E cs = Some p \<Longrightarrow> p \<in> set cs"
    by (auto simp: cheapest_tree_def split: list.splits)
qed

lemma direct_choices_ok: "facts_ok G facts \<Longrightarrow> \<forall>p \<in> set (direct_choices E target facts). proof_ok G target p"
  using facts_okD head_ok(1) const_ok(1) by (auto simp: direct_choices_def split: option.splits)


lemma prove_step_ok:
  assumes rec: "prover_ok E rec"
  shows "prover_ok E (prove_step E rec)"
  unfolding prover_ok_def
proof (intro allI impI)
  fix G target facts0 active s0 r t
  assume facts0: "facts_ok G facts0" and G: "dom G \<subseteq> set (reserved s0)"
    and run: "prove_step E rec target facts0 active s0 = (r, t)"
  obtain facts hit where sat: "saturate_facts E (max_facts E) (facts0, False) = (facts, hit)" by fastforce
  have facts: "facts_ok G facts" using saturate_facts_ok [of G "(facts0, False)" E] facts0 sat by (metis fst_conv)
  define s where "s = s0\<lparr>exhausted := exhausted s0 \<or> hit\<rparr>"
  have later_s: "later E s0 s" "dom G \<subseteq> set (reserved s)" using G by (simp_all add: s_def later_def)
  show "later E s0 t \<and> (\<forall>p. r = Some p \<longrightarrow> proof_ok G target p)"
  proof (cases "(target, fst ` set facts) \<in> active")
    case True
    then have "r = map_of facts target" "t = s" using run sat by (simp_all add: prove_step_def s_def Let_def)
    then show ?thesis using later_s(1) facts_okD [OF facts] by simp
  next
    case False
    let ?active = "insert (target, fst ` set facts) active"
    obtain c1 s1 where 1: "imp_choices rec target facts ?active s = (c1, s1)" by fastforce
    have o1: "choices_ok E G target s (c1, s1)" using imp_choices_ok [OF rec facts later_s(2)] 1 by metis
    then have d1: "dom G \<subseteq> set (reserved s1)" using later_s(2) by (auto simp: choices_ok_def later_def)
    obtain c2 s2 where 2: "pair_choices rec target facts ?active s1 = (c2, s2)" by fastforce
    have o2: "choices_ok E G target s1 (c2, s2)" using pair_choices_ok [OF rec facts d1] 2 by metis
    then have d2: "dom G \<subseteq> set (reserved s2)" using d1 by (auto simp: choices_ok_def later_def)
    obtain c3 s3 where 3: "or_choices E rec target facts ?active s2 = (c3, s3)" by fastforce
    have o3: "choices_ok E G target s2 (c3, s3)" using or_choices_ok [OF rec facts d2] 3 by metis
    then have d3: "dom G \<subseteq> set (reserved s3)" using d2 by (auto simp: choices_ok_def later_def)
    let ?cs = "direct_choices E target facts @ c1 @ c2 @ c3"
    obtain c4 s4 where 4: "(if ?cs = [] then chain_choices E rec target facts ?active facts s3 else (?cs, s3)) = (c4, s4)" by fastforce
    have cs: "choices_ok E G target s3 (?cs, s3)"
      using o1 o2 o3 direct_choices_ok [OF facts] by (auto simp: choices_ok_def)
    then have o4: "choices_ok E G target s3 (c4, s4)"
      using 4 chain_choices_ok [OF rec facts facts d3] by (metis (no_types, lifting))
    then have d4: "dom G \<subseteq> set (reserved s4)" using d3 by (auto simp: choices_ok_def later_def)
    obtain c5 s5 where 5: "(if c4 = [] then case_choices E rec target facts ?active facts s4 else (c4, s4)) = (c5, s5)" by fastforce
    have "choices_ok E G target s4 (c4, s4)" using o4 by (simp add: choices_ok_def)
    then have o5: "choices_ok E G target s4 (c5, s5)"
      using 5 case_choices_ok [OF rec facts facts d4] by (metis (no_types, lifting))
    have rt: "r = cheapest_tree E c5" "t = s5"
      using run sat False 1 2 3 4 5 by (simp_all add: prove_step_def s_def [symmetric] Let_def)
    have "later E s0 s5"
      using later_s(1) o1 o2 o3 o4 o5 later_trans unfolding choices_ok_def snd_conv by meson
    moreover have "proof_ok G target p" if "r = Some p" for p
      using cheapest_in [of E c5 p] that rt o5 by (auto simp: choices_ok_def)
    ultimately show ?thesis using rt by blast
  qed
qed

lemma prove_ok: "prover_ok E (prove E k)"
proof (induction k)
  case 0
  show ?case by (auto simp: prover_ok_def later_def)
next
  case (Suc k)
  note step = prove_step_ok [OF Suc.IH]
  show ?case
    unfolding prover_ok_def
  proof (intro allI impI)
    fix G target facts active s r t
    assume a: "facts_ok G facts" "dom G \<subseteq> set (reserved s)" "prove E (Suc k) target facts active s = (r, t)"
    show "later E s t \<and> (\<forall>p. r = Some p \<longrightarrow> proof_ok G target p)"
    proof (cases "max_states E \<le> visited s")
      case True
      then show ?thesis using a(3) by (auto simp: later_def)
    next
      case False
      let ?s = "s\<lparr>visited := Suc (visited s)\<rparr>"
      have run: "prove_step E (prove E k) target facts active ?s = (r, t)" using a(3) False by simp
      have "dom G \<subseteq> set (reserved ?s)" using a(2) by simp
      note P = prover_okD [OF step run a(1) this]
      have "later E s ?s" using False by (simp add: later_def)
      then show ?thesis using P(1,2) later_trans by blast
    qed
  qed
qed

section \<open>Properties\<close>

text \<open>The context of the assumptions: names with their normalised formulas.\<close>

definition assumption_context :: "(utext \<times> formula) list \<Rightarrow> context_of" where
  "assumption_context assumptions = (\<lambda>n. case map_of assumptions n of
     Some f \<Rightarrow> (case normalize f of Inr g \<Rightarrow> Some g | Inl _ \<Rightarrow> None) | None \<Rightarrow> None)"

lemma initial_facts_ok:
  "initial_facts E items facts = Inr facts' \<Longrightarrow> facts_ok G facts \<Longrightarrow>
   (\<And>n f g. (n, f) \<in> set items \<Longrightarrow> normalize f = Inr g \<Longrightarrow> G n = Some g) \<Longrightarrow> facts_ok G facts'"
proof (induction items arbitrary: facts)
  case (Cons a items)
  obtain n f where a: "a = (n, f)" by (cases a)
  obtain g where g: "normalize f = Inr g" using Cons.prems(1) a by (auto simp: res_simps)
  have "proof_ok G g (local_proof n)" using Cons.prems(3) [of n f g] a g by (intro local_ok) simp
  then have new: "facts_ok G (dict_set g (local_proof n) facts)" using facts_ok_set Cons.prems(2) by blast
  let ?facts = "if (case map_of facts g of None \<Rightarrow> True | Some q \<Rightarrow> cp_cost E (local_proof n) < cp_cost E q)
       then dict_set g (local_proof n) facts else facts"
  have run: "initial_facts E items ?facts = Inr facts'"
    using Cons.prems(1) unfolding a initial_facts.simps snd_conv fst_conv g rbind.simps Let_def .
  show ?case
    by (rule Cons.IH [OF run]) (use new Cons.prems(2,3) in auto)
qed simp

lemma initial_normalized: "initial_facts E items facts = Inr facts' \<Longrightarrow> (n, f) \<in> set items \<Longrightarrow> \<exists>g. normalize f = Inr g"
  by (induction items arbitrary: facts) (auto simp: res_simps Let_def)

text \<open>\<open>f\<close> holds in every world of every Kripke model that forces the formulas \<open>fs\<close>, in particular it
  follows classically: the worlds are of any type.\<close>

definition follows :: "('w \<Rightarrow> 'w \<Rightarrow> bool) \<Rightarrow> ('w \<Rightarrow> utext \<Rightarrow> bool) \<Rightarrow> formula set \<Rightarrow> formula \<Rightarrow> bool" where
  "follows R V fs f \<longleftrightarrow> (kripke R V \<longrightarrow> (\<forall>w. (\<forall>g \<in> fs. forces R V w g) \<longrightarrow> forces R V w f))"

text \<open>What a run that returns a term has found.\<close>

lemma search_found:
  assumes run: "proof_search word dec space goal assumptions m d k ir = Inr r" and found: "sr_term r = Some out"
  obtains g p where "normalize goal = Inr g" "proof_ok (assumption_context assumptions) g p" "set (sr_support r) = free_names (cp_tree p)"
    "int (sr_states r) \<le> m" "dom (assumption_context assumptions) \<subseteq> fst ` set assumptions"
    "sr_term_ir r = (if ir \<and> validate_tree word dec (cp_tree p) = Inr () then Some (cp_tree p) else None)"
proof -
  define E where "E = \<lparr>word_char = word, digit_char = dec, space_char = space, max_states = nat m, max_facts = nat k\<rparr>"
  have budget: "1 \<le> m" using run unfolding proof_search_def by (auto split: if_splits)
  define s0 where "s0 names = \<lparr>visited = 0, exhausted = False, serial = 0, reserved = names @ map fst assumptions\<rparr>" for names
  obtain g names facts where g: "normalize goal = Inr g"
    and dist: "distinct (map fst assumptions)" and facts: "initial_facts E assumptions [] = Inr facts"
    and rep: "r = search_report word dec ir (prove E (Suc (nat d)) g facts {} (s0 names))"
    using run unfolding proof_search_def E_def [symmetric] s0_def [symmetric] Let_def
    by (fastforce simp: res_simps simp del: prove.simps split: if_splits)
  obtain res t where pr: "prove E (Suc (nat d)) g facts {} (s0 names) = (res, t)" by fastforce
  have r: "r = \<lparr>sr_term = map_option cp_text res, sr_support = (case res of Some p \<Rightarrow> sort (cp_used p) | None \<Rightarrow> []),
                 sr_states = visited t, sr_exhausted = exhausted t,
                 sr_term_ir = (if ir then (case res of Some p \<Rightarrow>
                     (case validate_tree word dec (cp_tree p) of Inr _ \<Rightarrow> Some (cp_tree p) | Inl _ \<Rightarrow> None) | None \<Rightarrow> None) else None)\<rparr>"
    unfolding rep pr by (simp add: search_report_def)
  let ?G = "assumption_context assumptions"
  have G: "?G n = Some h" if "(n, f) \<in> set assumptions" "normalize f = Inr h" for n f h
    using that dist by (simp add: assumption_context_def)
  have facts_ok: "facts_ok ?G facts" by (rule initial_facts_ok [OF facts]) (simp_all add: facts_ok_def G)
  have dom: "dom ?G \<subseteq> fst ` set assumptions"
    by (auto simp: assumption_context_def split: option.splits) (metis fst_conv image_eqI map_of_SomeD)
  obtain p where p: "res = Some p" using found r by auto
  have dom0: "dom ?G \<subseteq> set (reserved (s0 names))" using dom by (auto simp: s0_def)
  have P: "later E (s0 names) t" "proof_ok ?G g p"
    using prover_okD [OF prove_ok pr facts_ok dom0] p by simp_all
  show thesis
  proof (rule that [OF g P(2) _ _ dom])
    show "set (sr_support r) = free_names (cp_tree p)" using P(2) p r by (simp add: proof_ok_def)
    show "int (sr_states r) \<le> m" 
      unfolding r using P(1) budget by (simp add: later_def E_def s0_def le_nat_iff)
    show "sr_term_ir r = (if ir \<and> validate_tree word dec (cp_tree p) = Inr () then Some (cp_tree p) else None)"
      using p by (simp add: r split: sum.split)
  qed
qed

lemma search_follows:
  assumes "proof_search word dec space goal assumptions m d k ir = Inr r" and "sr_term r = Some out"
  shows "follows R V {f. \<exists>n \<in> set (sr_support r). (n, f) \<in> set assumptions} goal"
  unfolding follows_def
proof (intro impI allI)
  fix w
  assume K: "kripke R V" and hyps: "\<forall>f \<in> {f. \<exists>n \<in> set (sr_support r). (n, f) \<in> set assumptions}. forces R V w f"
  obtain g p where g: "normalize goal = Inr g" and p: "proof_ok (assumption_context assumptions) g p"
    and free: "set (sr_support r) = free_names (cp_tree p)" by (rule search_found [OF assms])
  let ?H = "\<lambda>n. if n \<in> set (sr_support r) then assumption_context assumptions n else None"
  have "typed (assumption_context assumptions) (cp_tree p) g" using p by (simp add: proof_ok_def)
  then have "typed ?H (cp_tree p) g" by (rule typed_agree) (simp add: free)
  then have "forces R V w g"
  proof (rule typed_forces [OF _ K])
    fix n h
    assume "?H n = Some h"
    then have n: "n \<in> set (sr_support r)" "assumption_context assumptions n = Some h" by (auto split: if_splits)
    then obtain f where f: "(n, f) \<in> set assumptions" "normalize f = Inr h"
      by (auto simp: assumption_context_def split: option.splits sum.splits dest: map_of_SomeD)
    then show "forces R V w h" using hyps n(1) normalize_forces [OF K f(2)] by blast
  qed
  then show "forces R V w goal" using normalize_forces [OF K g] by simp
qed

text \<open>Excluded middle is never proved, whatever the budgets.\<close>

lemma no_excluded_middle:
  assumes run: "proof_search word dec space (FBin Or (FVar n) (FNot (FVar n))) [] m d k ir = Inr r"
  shows "sr_term r = None"
proof (rule ccontr)
  assume "sr_term r \<noteq> None"
  then obtain out where t: "sr_term r = Some out" by blast
  let ?R = "(\<le>) :: bool \<Rightarrow> bool \<Rightarrow> bool" and ?V = "\<lambda>w x. w"
  have "kripke ?R ?V" by (auto simp: kripke_def)
  with search_follows [OF run t, of ?R ?V] have "\<forall>w. forces ?R ?V w (FBin Or (FVar n) (FNot (FVar n)))"
    unfolding follows_def by simp
  then have "forces ?R ?V False (FBin Or (FVar n) (FNot (FVar n)))" by (rule spec)
  then show False by auto
qed

text \<open>C7: the constructive search is sound: when it returns a term, the names of its support are
  assumptions, and the goal holds in every Kripke model in which the formulas of these assumptions
  alone hold, so the proof uses no classical principle. A term tree it hands out is well typed for
  the normalised goal in the context of the assumptions, its free names are the support, and it is
  within the term budgets; the number of visited states is within the state budget.\<close>

theorem proof_search_sound:
  assumes run: "proof_search word dec space goal assumptions m d k ir = Inr r" and found: "sr_term r = Some out"
  shows "set (sr_support r) \<subseteq> fst ` set assumptions
    \<and> follows R V {f. \<exists>n \<in> set (sr_support r). (n, f) \<in> set assumptions} goal
    \<and> int (sr_states r) \<le> m
    \<and> (sr_term_ir r = None \<or> (\<exists>t g. sr_term_ir r = Some t \<and> normalize goal = Inr g
        \<and> typed (assumption_context assumptions) t g \<and> free_names t = set (sr_support r)
        \<and> tnode_proper word dec t \<and> tnode_size t \<le> 4096 \<and> tnode_height t \<le> 128))"
proof -
  obtain g p where g: "normalize goal = Inr g" and p: "proof_ok (assumption_context assumptions) g p"
    and free: "set (sr_support r) = free_names (cp_tree p)" and states: "int (sr_states r) \<le> m"
    and dom: "dom (assumption_context assumptions) \<subseteq> fst ` set assumptions"
    and ir: "sr_term_ir r = (if ir \<and> validate_tree word dec (cp_tree p) = Inr () then Some (cp_tree p) else None)"
    by (rule search_found [OF run found])
  have ty: "typed (assumption_context assumptions) (cp_tree p) g" using p by (simp add: proof_ok_def)
  have "sr_term_ir r = None \<or> (sr_term_ir r = Some (cp_tree p) \<and> tnode_proper word dec (cp_tree p)
      \<and> tnode_size (cp_tree p) \<le> 4096 \<and> tnode_height (cp_tree p) \<le> 128)"
    using validate_loop_iff [of word dec "[(cp_tree p, 0)]" 0] by (auto simp: ir validate_tree_def pending_ok_def)
  then show ?thesis
    using typed_free [OF ty] free dom states search_follows [OF run found] g ty by blast
qed

theorem proof_search_sound_witness:
  "follows (\<le>) (\<lambda>(w :: nat) n. 3 \<le> w) {f. \<exists>n \<in> set [[7]]. (n, f) \<in> set [([7], FVar [9])]} (FVar [9])"
proof -
  let ?r = "\<lparr>sr_term = Some [7], sr_support = [[7]], sr_states = 1, sr_exhausted = False, sr_term_ir = None\<rparr>"
  have "proof_search (\<lambda>c. c < 10) (\<lambda>c. False) (\<lambda>c. c = 32) (FVar [9]) [([7], FVar [9])] 8 2 8 False = Inr ?r"
    by code_simp
  from proof_search_sound [OF this, where out = "[7]" and R = "(\<le>)" and V = "\<lambda>(w :: nat) n. 3 \<le> w"]
  show ?thesis by simp
qed

end
