(* ===== verification/Dag_Wire.thy ===== *)
theory Dag_Wire
  imports Cp_Terms
begin

text \<open>
  The expression-DAG wire format of \<open>jevops/expr_dag.py\<close>: values as JSON gives them, the checks of
  names, numbers and metadata, the rows of the two tables, and \<open>validate_dag\<close>. Texts are sequences
  of Unicode code points. The size \<open>zlib\<close> compresses a payload to is a parameter.
\<close>

section \<open>Values and their JSON text\<close>

text \<open>\<open>WOther\<close> is any other value, with its JSON text, or nothing when \<open>json.dumps\<close> refuses it.\<close>

datatype wire = WStr utext | WBool bool | WList "wire list" | WOther "utext option"

definition wire_hex :: "nat \<Rightarrow> nat" where
  "wire_hex n = (if n < 10 then 48 + n else 87 + n)"

definition wire_char :: "nat \<Rightarrow> utext" where
  "wire_char c =
     (if c = 34 \<or> c = 92 then [92, c]
      else if c = 8 then [92, 98] else if c = 12 then [92, 102] else if c = 10 then [92, 110]
      else if c = 13 then [92, 114] else if c = 9 then [92, 116]
      else if c < 32 then [92, 117, 48, 48] @ [wire_hex (c div 16), wire_hex (c mod 16)]
      else [c])"

definition wire_quoted :: "utext \<Rightarrow> utext" where
  "wire_quoted t = [34] @ concat (map wire_char t) @ [34]"

primrec join_with :: "utext \<Rightarrow> utext list \<Rightarrow> utext" where
  "join_with sep [] = []"
| "join_with sep (t # ts) = (if ts = [] then t else t @ sep @ join_with sep ts)"

fun all_texts :: "utext option list \<Rightarrow> utext list option" where
  "all_texts [] = Some []"
| "all_texts (None # xs) = None"
| "all_texts (Some x # xs) = map_option (Cons x) (all_texts xs)"

fun wire_json :: "wire \<Rightarrow> utext option" where
  "wire_json (WStr t) = Some (wire_quoted t)"
| "wire_json (WBool b) = Some (if b then u ''true'' else u ''false'')"
| "wire_json (WList xs) = map_option (\<lambda>ts. u ''['' @ join_with (u '','') ts @ u '']'') (all_texts (map wire_json xs))"
| "wire_json (WOther t) = t"

definition json_object :: "(utext \<times> wire) list \<Rightarrow> utext option" where
  "json_object entries =
     map_option (\<lambda>ts. u ''{'' @ join_with (u '','') ts @ u ''}'')
       (all_texts (map (\<lambda>(k, x). map_option (\<lambda>t. wire_quoted k @ u '':'' @ t) (wire_json x)) (sort_key fst entries)))"

text \<open>\<open>_bytes\<close>: bytes are represented by the text they encode.\<close>

definition encoded :: "utext option \<Rightarrow> exc + utext" where
  "encoded t = (case t of None \<Rightarrow> Inl (ValueErr ''invalid JSON payload'')
     | Some s \<Rightarrow> (case utf8_length s of Inl e \<Rightarrow> Inl (ValueErr ''invalid JSON payload'') | Inr n \<Rightarrow> Inr s))"

definition byte_length :: "utext \<Rightarrow> nat" where
  "byte_length t = sum_list (map utf8_char t)"

section \<open>Strings, numbers, names and metadata\<close>

definition wire_string :: "wire \<Rightarrow> exc + utext" where
  "wire_string w = (case w of
     WStr t \<Rightarrow> rbind (utf8_length t) (\<lambda>n. if 1048576 < n then Inl (ValueErr ''invalid or oversized string'') else Inr t)
   | _ \<Rightarrow> Inl (ValueErr ''invalid or oversized string''))"

definition wire_digit :: "nat \<Rightarrow> bool" where
  "wire_digit c \<longleftrightarrow> 48 \<le> c \<and> c \<le> 57"

definition canonical_nat :: "utext \<Rightarrow> bool" where
  "canonical_nat t \<longleftrightarrow> t = [48] \<or> (t \<noteq> [] \<and> hd t \<noteq> 48 \<and> list_all wire_digit t)"

definition digits_number :: "utext \<Rightarrow> nat" where
  "digits_number t = foldl (\<lambda>a c. a * 10 + (c - 48)) 0 t"

definition wire_nat :: "nat option \<Rightarrow> wire \<Rightarrow> exc + nat" where
  "wire_nat bound w = (case w of
     WStr t \<Rightarrow>
       if 4096 < length t \<or> \<not> canonical_nat t then Inl (ValueErr ''canonical decimal natural string expected'')
       else (let n = digits_number t in
         case bound of None \<Rightarrow> Inr n
         | Some b \<Rightarrow> if b \<le> n then Inl (ValueErr ''forward or out-of-range reference/index'') else Inr n)
   | _ \<Rightarrow> Inl (ValueErr ''canonical decimal natural string expected''))"

definition name_part :: "wire \<Rightarrow> exc + unit" where
  "name_part w = (case w of
     WList [tag, x] \<Rightarrow>
       if tag = WStr (u ''s'') then rbind (wire_string x) (\<lambda>_. Inr ())
       else if tag = WStr (u ''n'') then rbind (wire_nat None x) (\<lambda>_. Inr ())
       else Inl (ValueErr ''invalid name tag'')
   | _ \<Rightarrow> Inl (ValueErr ''invalid name component''))"

definition wire_name :: "wire \<Rightarrow> exc + unit" where
  "wire_name w = (case w of
     WList parts \<Rightarrow> if 64 < length parts then Inl (ValueErr ''invalid name/depth'')
       else rbind (rmap name_part parts) (\<lambda>_. Inr ())
   | _ \<Rightarrow> Inl (ValueErr ''invalid name/depth''))"

definition canonical_int :: "utext \<Rightarrow> bool" where
  "canonical_int t \<longleftrightarrow> canonical_nat t \<or> (\<exists>d. t = 45 # d \<and> canonical_nat d \<and> d \<noteq> [48])"

definition metadata_value :: "wire \<Rightarrow> wire \<Rightarrow> exc + unit" where
  "metadata_value tag x =
     (if tag = WStr (u ''string'') then rbind (wire_string x) (\<lambda>_. Inr ())
      else if tag = WStr (u ''name'') then wire_name x
      else if tag = WStr (u ''nat'') then rbind (wire_nat None x) (\<lambda>_. Inr ())
      else if tag = WStr (u ''int'') then
        (case x of WStr t \<Rightarrow> ensure (length t \<le> 4096 \<and> canonical_int t) (ValueErr ''invalid metadata integer'')
         | _ \<Rightarrow> Inl (ValueErr ''invalid metadata integer''))
      else if tag = WStr (u ''bool'') \<and> (\<exists>b. x = WBool b) then Inr ()
      else Inl (ValueErr ''unsupported metadata; syntax values are not discarded''))"

definition metadata_entry :: "wire \<Rightarrow> exc + unit" where
  "metadata_entry w = (case w of
     WList [name, data] \<Rightarrow> rbind (wire_name name) (\<lambda>_.
       (case data of WList [tag, x] \<Rightarrow> metadata_value tag x | _ \<Rightarrow> Inl (ValueErr ''invalid metadata value'')))
   | _ \<Rightarrow> Inl (ValueErr ''invalid metadata entry''))"

definition wire_metadata :: "wire \<Rightarrow> exc + unit" where
  "wire_metadata w = (case w of
     WList entries \<Rightarrow> if 256 < length entries then Inl (ValueErr ''metadata entry budget'')
       else rbind (rmap metadata_entry entries) (\<lambda>_. Inr ())
   | _ \<Rightarrow> Inl (ValueErr ''metadata entry budget''))"

section \<open>Rows\<close>

text \<open>The children of level row \<open>i\<close>.\<close>

definition level_row :: "nat \<Rightarrow> wire \<Rightarrow> exc + nat list" where
  "level_row i row = (case row of
     WList (WStr tag # args) \<Rightarrow>
       if tag = u ''zero'' \<and> args = [] then Inr []
       else if tag = u ''param'' \<and> length args = 1 then rbind (wire_name (args ! 0)) (\<lambda>_. Inr [])
       else if (tag = u ''succ'' \<and> length args = 1) \<or> (tag \<in> {u ''max'', u ''imax''} \<and> length args = 2)
         then rmap (wire_nat (Some i)) args
       else Inl (ValueErr ''invalid level constructor'')
   | _ \<Rightarrow> Inl (ValueErr ''invalid level row''))"

definition binder_kinds :: "wire list" where
  "binder_kinds = map (\<lambda>s. WStr (u s)) [''explicit'', ''implicit'', ''strictImplicit'', ''instance'']"

text \<open>The children, the universe levels and the bound-variable need of expression row \<open>i\<close>, with
  \<open>nl\<close> rows in the table of levels.\<close>

definition expr_row :: "nat \<Rightarrow> nat \<Rightarrow> wire \<Rightarrow> exc + nat list \<times> nat list \<times> nat" where
  "expr_row nl i row = (case row of
     WList (WStr tag # args) \<Rightarrow>
       if tag = u ''bvar'' \<and> length args = 1 then rbind (wire_nat (Some 65536) (args ! 0)) (\<lambda>n. Inr ([], [], n + 1))
       else if tag = u ''sort'' \<and> length args = 1 then rbind (wire_nat (Some nl) (args ! 0)) (\<lambda>n. Inr ([], [n], 0))
       else if tag = u ''const'' \<and> length args = 2 \<and> (\<exists>us. args ! 1 = WList us) then
         rbind (wire_name (args ! 0)) (\<lambda>_. (case args ! 1 of
           WList us \<Rightarrow> if 256 < length us then Inl (ValueErr ''constant universe arity budget'')
             else rbind (rmap (wire_nat (Some nl)) us) (\<lambda>ns. Inr ([], ns, 0))
         | _ \<Rightarrow> Inl (ValueErr ''invalid expression constructor'')))
       else if tag = u ''app'' \<and> length args = 2 then rbind (rmap (wire_nat (Some i)) args) (\<lambda>cs. Inr (cs, [], 0))
       else if tag \<in> {u ''lam'', u ''forall''} \<and> length args = 4 then
         rbind (wire_name (args ! 0)) (\<lambda>_.
         if args ! 1 \<notin> set binder_kinds then Inl (ValueErr ''invalid binder annotation'')
         else rbind (rmap (wire_nat (Some i)) (drop 2 args)) (\<lambda>cs. Inr (cs, [], 0)))
       else if tag = u ''let'' \<and> length args = 5 \<and> (\<exists>b. args ! 1 = WBool b) then
         rbind (wire_name (args ! 0)) (\<lambda>_. rbind (rmap (wire_nat (Some i)) (drop 2 args)) (\<lambda>cs. Inr (cs, [], 0)))
       else if tag = u ''nat'' \<and> length args = 1 then rbind (wire_nat None (args ! 0)) (\<lambda>_. Inr ([], [], 0))
       else if tag = u ''string'' \<and> length args = 1 then rbind (wire_string (args ! 0)) (\<lambda>_. Inr ([], [], 0))
       else if tag = u ''mdata'' \<and> length args = 2 then
         rbind (wire_metadata (args ! 0)) (\<lambda>_. rbind (wire_nat (Some i) (args ! 1)) (\<lambda>c. Inr ([c], [], 0)))
       else if tag = u ''proj'' \<and> length args = 3 then
         rbind (wire_name (args ! 0)) (\<lambda>_. rbind (wire_nat None (args ! 1)) (\<lambda>_.
         rbind (wire_nat (Some i) (args ! 2)) (\<lambda>c. Inr ([c], [], 0))))
       else Inl (ValueErr ''invalid expression constructor'')
   | _ \<Rightarrow> Inl (ValueErr ''invalid expression row''))"

definition wire_tag :: "wire \<Rightarrow> utext" where
  "wire_tag row = (case row of WList (WStr tag # args) \<Rightarrow> tag | _ \<Rightarrow> [])"

section \<open>The two tables\<close>

record level_table =
  lt_refs :: "nat list list"
  lt_heights :: "nat list"
  lt_seen :: "utext list"

definition add_level :: "wire \<Rightarrow> level_table \<Rightarrow> exc + level_table" where
  "add_level row T =
     rbind (level_row (length (lt_refs T)) row) (\<lambda>cs.
     rbind (encoded (wire_json row)) (\<lambda>key.
     if key \<in> set (lt_seen T) then Inl (ValueErr ''duplicate level row'')
     else (let height = 1 + foldr max (map ((!) (lt_heights T)) cs) 0 in
       if 256 < height then Inl (ValueErr ''level depth budget'')
       else Inr \<lparr>lt_refs = lt_refs T @ [cs], lt_heights = lt_heights T @ [height], lt_seen = lt_seen T @ [key]\<rparr>)))"

record expr_table =
  et_refs :: "nat list list"
  et_levels :: "nat list list"
  et_heights :: "nat list"
  et_needs :: "nat list"
  et_sizes :: "nat list"
  et_seen :: "utext list"

definition row_need :: "utext \<Rightarrow> nat list \<Rightarrow> nat list \<Rightarrow> nat \<Rightarrow> nat" where
  "row_need tag needs cs need =
     (if cs = [] then need
      else if tag \<in> {u ''lam'', u ''forall'', u ''let''}
        then max (foldr max (map ((!) needs) (butlast cs)) 0) (needs ! List.last cs - 1)
      else foldr max (map ((!) needs) cs) 0)"

definition add_expr :: "nat \<Rightarrow> wire \<Rightarrow> expr_table \<Rightarrow> exc + expr_table" where
  "add_expr nl row T =
     rbind (expr_row nl (length (et_refs T)) row) (\<lambda>(cs, us, need).
     rbind (encoded (wire_json row)) (\<lambda>key.
     if key \<in> set (et_seen T) then Inl (ValueErr ''duplicate expression row'')
     else (let height = 1 + foldr max (map ((!) (et_heights T)) cs) 0 in
       if 256 < height then Inl (ValueErr ''expression depth budget'')
       else Inr \<lparr>et_refs = et_refs T @ [cs], et_levels = et_levels T @ [us], et_heights = et_heights T @ [height],
                 et_needs = et_needs T @ [row_need (wire_tag row) (et_needs T) cs need],
                 et_sizes = et_sizes T @ [1 + sum_list (map ((!) (et_sizes T)) cs)], et_seen = et_seen T @ [key]\<rparr>)))"

primrec read_table :: "(wire \<Rightarrow> 't \<Rightarrow> exc + 't) \<Rightarrow> wire list \<Rightarrow> 't \<Rightarrow> exc + 't" where
  "read_table f [] T = Inr T"
| "read_table f (row # rows) T = rbind (f row T) (read_table f rows)"

section \<open>Reachability and numbering\<close>

text \<open>The end of a list is the top of a stack. An index outside the table raises.\<close>

lemma more_reached:
  fixes i n :: nat
  assumes "i \<notin> set seen" and "\<not> n \<le> i"
  shows "card ({..<n} - set (i # seen)) < card ({..<n} - set seen)"
proof (rule psubset_card_mono)
  have "i \<in> {..<n} - set seen" and "i \<notin> {..<n} - set (i # seen)" using assms by simp_all
  moreover have "{..<n} - set (i # seen) \<subseteq> {..<n} - set seen" by auto
  ultimately show "{..<n} - set (i # seen) \<subset> {..<n} - set seen" by blast
qed simp

function mark_loop :: "nat list list \<Rightarrow> nat list list \<Rightarrow> nat list \<Rightarrow> nat list \<Rightarrow> nat list \<Rightarrow> exc + nat list \<times> nat list" where
  "mark_loop refs lvls pending reached used =
     (if pending = [] then Inr (reached, used)
      else (let i = List.last pending; rest = butlast pending in
        if i \<in> set reached then mark_loop refs lvls rest reached used
        else if length refs \<le> i \<or> length lvls \<le> i then Inl IndexErr
        else mark_loop refs lvls (rest @ refs ! i) (i # reached) (List.union (lvls ! i) used)))"
  by pat_completeness auto
termination
  by (relation "inv_image (less_than <*lex*> less_than)
       (\<lambda>(refs, lvls, pending, reached, used). (card ({..<length refs} - set reached), length pending))")
     (auto simp del: card_Diff_insert set_simps intro!: more_reached)

declare mark_loop.simps [simp del]

definition new_levels :: "nat list \<Rightarrow> nat list \<times> nat list \<Rightarrow> nat list \<times> nat list" where
  "new_levels js acc = foldl (\<lambda>(pending, used) j. if j \<in> set used then (pending, used) else (pending @ [j], j # used)) acc js"

text \<open>Levels that used levels refer to.\<close>

lemma new_levels_measure:
  assumes "set js \<subseteq> U" and "finite U" and "new_levels js (p, used) = (p', used')"
  shows "(p' = p \<and> used' = used) \<or> card (U - set used') < card (U - set used)"
  using assms
proof (induction js arbitrary: p used)
  case (Cons j js)
  show ?case
  proof (cases "j \<in> set used")
    case True
    then show ?thesis using Cons by (simp add: new_levels_def)
  next
    case False
    then have step: "new_levels js (p @ [j], j # used) = (p', used')" using Cons.prems by (simp add: new_levels_def)
    have less: "card (U - set (j # used)) < card (U - set used)"
      using False Cons.prems(1,2) by (intro psubset_card_mono) auto
    show ?thesis using Cons.IH [OF _ Cons.prems(2) step] Cons.prems(1) less by auto
  qed
qed (simp add: new_levels_def)

function level_loop :: "nat list list \<Rightarrow> nat list \<Rightarrow> nat list \<Rightarrow> exc + nat list" where
  "level_loop refs pending used =
     (if pending = [] then Inr used
      else if length refs \<le> List.last pending then Inl IndexErr
      else (let acc = new_levels (refs ! List.last pending) (butlast pending, used) in level_loop refs (fst acc) (snd acc)))"
  by pat_completeness auto
termination
proof (relation "inv_image (less_than <*lex*> less_than)
    (\<lambda>(refs, pending, used). (card (set (concat refs) - set used), length pending))")
  fix refs pending and used :: "nat list" and acc
  assume ne: "pending \<noteq> []" and l: "\<not> length refs \<le> List.last pending"
    and acc: "acc = new_levels (refs ! List.last pending) (butlast pending, used)"
  obtain p used' where a: "acc = (p, used')" by (cases acc)
  have "set (refs ! List.last pending) \<subseteq> set (concat refs)" using l by fastforce
  from new_levels_measure [OF this _, of "butlast pending" used p used'] acc a
  have "p = butlast pending \<and> used' = used \<or> card (set (concat refs) - set used') < card (set (concat refs) - set used)" by simp
  then show "((refs, fst acc, snd acc), refs, pending, used) \<in> inv_image (less_than <*lex*> less_than)
      (\<lambda>(refs, pending, used). (card (set (concat refs) - set used), length pending))"
    using ne a by auto
qed auto

declare level_loop.simps [simp del]

text \<open>\<open>postorder\<close>. On a graph with a cycle the loop does not end: the result is then \<open>None\<close>.\<close>

partial_function (option) postorder_loop :: "nat list list \<Rightarrow> (nat \<times> bool) list \<Rightarrow> nat list \<Rightarrow> (exc + nat list) option" where
  "postorder_loop edges stack order =
     (if stack = [] then Some (Inr order)
      else (let (i, done) = List.last stack; rest = butlast stack in
        if i \<in> set order then postorder_loop edges rest order
        else if done then postorder_loop edges rest (order @ [i])
        else if length edges \<le> i then Some (Inl IndexErr)
        else postorder_loop edges (rest @ [(i, True)] @ map (\<lambda>j. (j, False)) (rev (edges ! i))) order))"

definition postorder :: "nat list \<Rightarrow> nat list list \<Rightarrow> (exc + nat list) option" where
  "postorder initial edges = postorder_loop edges (map (\<lambda>i. (i, False)) (rev initial)) []"

section \<open>\<open>validate_dag\<close>\<close>

record dag_stats =
  ds_expressions :: nat
  ds_levels :: nat
  ds_sizes :: "nat list"
  ds_depths :: "nat list"
  ds_json_bytes :: nat
  ds_zlib_bytes :: nat

definition dag_fields :: "utext list" where
  "dag_fields = map u [''schema'', ''environment'', ''lean_version'', ''lean_githash'', ''metadata_policy'', ''levels'',
     ''expressions'', ''roots'']"

definition dag_field :: "(utext \<times> wire) list \<Rightarrow> string \<Rightarrow> wire" where
  "dag_field w k = (case map_of w (u k) of Some x \<Rightarrow> x | None \<Rightarrow> WOther None)"

definition wire_list :: "wire \<Rightarrow> wire list option" where
  "wire_list x = (case x of WList xs \<Rightarrow> Some xs | _ \<Rightarrow> None)"

definition is_fingerprint :: "utext \<Rightarrow> bool" where
  "is_fingerprint t \<longleftrightarrow> length t = 64 \<and> list_all (\<lambda>c. wire_digit c \<or> 97 \<le> c \<and> c \<le> 102) t"

text \<open>The checks before the tables: the answer is the size of the payload and the three tables.\<close>

definition check_envelope :: "(utext \<times> wire) list \<Rightarrow> utext \<Rightarrow> int \<Rightarrow> (utext \<times> utext) option
    \<Rightarrow> exc + utext \<times> wire list \<times> wire list \<times> wire list" where
  "check_envelope w environment node_budget toolchain =
     rbind (ensure (1 \<le> node_budget \<and> node_budget \<le> 100000) (ValueErr ''invalid node budget'')) (\<lambda>_.
     rbind (ensure (is_fingerprint environment) (ValueErr ''environment must be a SHA-256 fingerprint'')) (\<lambda>_.
     rbind (ensure (set (map fst w) = set dag_fields) (ValueErr ''invalid wire fields'')) (\<lambda>_.
     rbind (ensure (dag_field w ''schema'' = WStr (u ''jevops-lean-expr-dag/v1'')
         \<and> dag_field w ''metadata_policy'' = WStr (u ''ordered-scalars-v1-reject-syntax'')
         \<and> dag_field w ''environment'' = WStr environment) (ValueErr ''schema, metadata policy or environment mismatch'')) (\<lambda>_.
     rbind (wire_string (dag_field w ''lean_version'')) (\<lambda>version.
     rbind (ensure (version \<noteq> []) (ValueErr ''missing toolchain identity'')) (\<lambda>_.
     rbind (wire_string (dag_field w ''lean_githash'')) (\<lambda>githash.
     rbind (ensure (githash \<noteq> []) (ValueErr ''missing toolchain identity'')) (\<lambda>_.
     rbind (ensure (toolchain \<in> {None, Some (version, githash)}) (ValueErr ''toolchain mismatch'')) (\<lambda>_.
     rbind (encoded (json_object w)) (\<lambda>payload.
     rbind (ensure (byte_length payload \<le> 16777216) (ValueErr ''wire byte budget'')) (\<lambda>_.
     (case (wire_list (dag_field w ''levels''), wire_list (dag_field w ''expressions''), wire_list (dag_field w ''roots'')) of
        (Some lvls, Some exprs, Some roots) \<Rightarrow>
          rbind (ensure (1 \<le> length roots \<and> length roots \<le> 64) (ValueErr ''invalid tables or root budget'')) (\<lambda>_.
          rbind (ensure (int (length lvls + length exprs) \<le> node_budget) (ValueErr ''node budget'')) (\<lambda>_.
          Inr (payload, lvls, exprs, roots)))
      | _ \<Rightarrow> Inl (ValueErr ''invalid tables or root budget''))))))))))))) "

text \<open>The tests on the numbered tables: closed roots, everything reachable, canonical numbering.\<close>

definition check_graph :: "level_table \<Rightarrow> expr_table \<Rightarrow> nat list \<Rightarrow> (exc + unit) option" where
  "check_graph L X roots =
     (if \<exists>i \<in> set roots. et_needs X ! i \<noteq> 0 then Some (Inl (ValueErr ''loose bound variable at root''))
      else case mark_loop (et_refs X) (et_levels X) roots [] [] of
        Inl e \<Rightarrow> Some (Inl e)
      | Inr (reached, used) \<Rightarrow>
          (case level_loop (lt_refs L) used used of
             Inl e \<Rightarrow> Some (Inl e)
           | Inr used' \<Rightarrow>
               if card (set reached) \<noteq> length (et_refs X) \<or> card (set used') \<noteq> length (lt_refs L)
                 then Some (Inl (ValueErr ''unreachable DAG nodes''))
               else Option.bind (postorder roots (et_refs X)) (\<lambda>r. case r of
                 Inl e \<Rightarrow> Some (Inl e)
               | Inr order \<Rightarrow>
                   if order \<noteq> [0..<length (et_refs X)] then Some (Inl (ValueErr ''noncanonical expression numbering''))
                   else Option.bind (postorder (concat (map ((!) (et_levels X)) order)) (lt_refs L)) (\<lambda>r. case r of
                     Inl e \<Rightarrow> Some (Inl e)
                   | Inr universes \<Rightarrow>
                       if universes \<noteq> [0..<length (lt_refs L)] then Some (Inl (ValueErr ''noncanonical level numbering''))
                       else Some (Inr ())))))"

definition no_levels :: level_table where
  "no_levels = \<lparr>lt_refs = [], lt_heights = [], lt_seen = []\<rparr>"

definition no_exprs :: expr_table where
  "no_exprs = \<lparr>et_refs = [], et_levels = [], et_heights = [], et_needs = [], et_sizes = [], et_seen = []\<rparr>"

definition read_tables :: "wire list \<Rightarrow> wire list \<Rightarrow> wire list \<Rightarrow> exc + level_table \<times> expr_table \<times> nat list" where
  "read_tables lvls exprs roots =
     rbind (read_table add_level lvls no_levels) (\<lambda>L.
     rbind (read_table (add_expr (length lvls)) exprs no_exprs) (\<lambda>X.
     rbind (rmap (wire_nat (Some (length exprs))) roots) (\<lambda>ids. Inr (L, X, ids))))"

text \<open>\<open>None\<close> would be a run that does not end.\<close>

definition validate_dag :: "(utext \<Rightarrow> nat) \<Rightarrow> (utext \<times> wire) list \<Rightarrow> utext \<Rightarrow> int \<Rightarrow> (utext \<times> utext) option
    \<Rightarrow> (exc + dag_stats) option" where
  "validate_dag zlib_size w environment node_budget toolchain =
     (case check_envelope w environment node_budget toolchain of
        Inl e \<Rightarrow> Some (Inl e)
      | Inr (payload, lvls, exprs, roots) \<Rightarrow>
          (case read_tables lvls exprs roots of
             Inl e \<Rightarrow> Some (Inl e)
           | Inr (L, X, ids) \<Rightarrow> map_option (\<lambda>r. rbind r (\<lambda>_.
               Inr \<lparr>ds_expressions = length exprs, ds_levels = length lvls, ds_sizes = map ((!) (et_sizes X)) ids,
                    ds_depths = map ((!) (et_heights X)) ids, ds_json_bytes = byte_length payload,
                    ds_zlib_bytes = zlib_size payload\<rparr>)) (check_graph L X ids)))"

end
