(* ===== verification/Dag_Order.thy ===== *)
theory Dag_Order
  imports Dag_Wire
begin

text \<open>
  Tables of numbered nodes as trees. A row is a label and the numbers of its children, all smaller
  than its own; \<open>unfold_rows\<close> gives the tree of every row. Without equal rows the trees are distinct
  (\<open>unfold_distinct\<close>), and the numbering loop of \<open>validate_dag\<close> visits them in postorder, each tree at
  its first use (\<open>postorder_trees\<close>). Two tables numbered in that order from the same trees are equal
  (\<open>same_rows\<close>).
\<close>

section \<open>Unfolding\<close>

datatype 'a dtree = DNode (dlabel: 'a) (dparts: "'a dtree list")

primrec tree_nodes :: "'a dtree \<Rightarrow> nat" where
  "tree_nodes (DNode a ts) = 1 + sum_list (map tree_nodes ts)"

primrec tree_height :: "'a dtree \<Rightarrow> nat" where
  "tree_height (DNode a ts) = 1 + foldr max (map tree_height ts) 0"

definition unfold_rows :: "('a \<times> nat list) list \<Rightarrow> 'a dtree list" where
  "unfold_rows rows = foldl (\<lambda>ts (a, cs). ts @ [DNode a (map ((!) ts) cs)]) [] rows"

definition children_below :: "nat list list \<Rightarrow> bool" where
  "children_below refs \<longleftrightarrow> (\<forall>i < length refs. \<forall>c \<in> set (refs ! i). c < i)"

lemma unfold_snoc: "unfold_rows (rows @ [(a, cs)]) = unfold_rows rows @ [DNode a (map ((!) (unfold_rows rows)) cs)]"
  by (simp add: unfold_rows_def)

lemma length_unfold [simp]: "length (unfold_rows rows) = length rows"
  by (induction rows rule: rev_induct) (auto simp: unfold_rows_def split: prod.splits)

lemma children_below_snoc: "children_below (refs @ [cs]) \<longleftrightarrow> children_below refs \<and> (\<forall>c \<in> set cs. c < length refs)"
  by (auto simp: children_below_def nth_append less_Suc_eq)

lemma children_belowD: "children_below refs \<Longrightarrow> i < length refs \<Longrightarrow> c \<in> set (refs ! i) \<Longrightarrow> c < i"
  by (simp add: children_below_def)

lemma unfold_nth:
  assumes "children_below (map snd rows)" and "i < length rows"
  shows "unfold_rows rows ! i = DNode (fst (rows ! i)) (map ((!) (unfold_rows rows)) (snd (rows ! i)))"
  using assms
proof (induction rows rule: rev_induct)
  case (snoc r rows)
  obtain a cs where r: "r = (a, cs)" by fastforce
  have below: "children_below (map snd rows)" "\<forall>c \<in> set cs. c < length rows"
    using snoc.prems(1) by (simp_all add: children_below_snoc r)
  show ?case
  proof (cases "i < length rows")
    case True
    have "c < length rows" if "c \<in> set (snd (rows ! i))" for c
      using children_belowD [OF below(1), of i c] True that by simp
    then show ?thesis using snoc.IH [OF below(1) True] True by (simp add: r unfold_snoc nth_append)
  next
    case False
    then have "i = length rows" using snoc.prems(2) by simp
    then show ?thesis using below(2) by (simp add: r unfold_snoc nth_append)
  qed
qed simp

lemma unfold_distinct:
  assumes below: "children_below (map snd rows)" and d: "distinct rows"
  shows "distinct (unfold_rows rows)"
proof -
  have "i = j" if "i < length rows" "j < length rows" "unfold_rows rows ! i = unfold_rows rows ! j" for i j
    using that
  proof (induction i arbitrary: j rule: less_induct)
    case (less i)
    let ?t = "unfold_rows rows"
    have eq: "fst (rows ! i) = fst (rows ! j)" "map ((!) ?t) (snd (rows ! i)) = map ((!) ?t) (snd (rows ! j))"
      using less.prems unfold_nth [OF below less.prems(1)] unfold_nth [OF below less.prems(2)] by simp_all
    have len: "length (snd (rows ! i)) = length (snd (rows ! j))" using eq(2) by (rule map_eq_imp_length_eq)
    have "snd (rows ! i) ! k = snd (rows ! j) ! k" if k: "k < length (snd (rows ! i))" for k
    proof (rule less.IH)
      show a: "snd (rows ! i) ! k < i" using children_belowD [OF below, of i] less.prems(1) k by simp
      then show "snd (rows ! i) ! k < length rows" using less.prems(1) by simp
      have "snd (rows ! j) ! k < j" using children_belowD [OF below, of j] less.prems(2) k len by simp
      then show "snd (rows ! j) ! k < length rows" using less.prems(2) by simp
      show "?t ! (snd (rows ! i) ! k) = ?t ! (snd (rows ! j) ! k)" using arg_cong [OF eq(2), of "\<lambda>xs. xs ! k"] k len by simp
    qed
    then have "snd (rows ! i) = snd (rows ! j)" using len by (auto intro: nth_equalityI)
    then have "rows ! i = rows ! j" using eq(1) by (simp add: prod_eq_iff)
    then show ?case using nth_eq_iff_index_eq [OF d] less.prems by simp
  qed
  then show ?thesis by (auto simp: distinct_conv_nth)
qed

section \<open>Postorder\<close>

text \<open>The trees below \<open>t\<close> and \<open>t\<close>, each after its parts and only the first time it is met.\<close>

fun post_tree :: "'a dtree \<Rightarrow> 'a dtree list \<Rightarrow> 'a dtree list" where
  "post_tree (DNode a ts) seen =
     (if DNode a ts \<in> set seen then seen else fold post_tree ts seen @ [DNode a ts])"

lemma post_tree_seen: "t \<in> set seen \<Longrightarrow> post_tree t seen = seen"
  by (cases t) simp

lemma post_tree_new: "t \<notin> set seen \<Longrightarrow> post_tree t seen = fold post_tree (dparts t) seen @ [t]"
  by (cases t) simp

lemma loop_pop: "stack \<noteq> [] \<Longrightarrow> postorder_loop edges stack order =
  (let (i, finished) = List.last stack; rest = butlast stack in
        if i \<in> set order then postorder_loop edges rest order
        else if finished then postorder_loop edges rest (order @ [i])
        else if length edges \<le> i then Some (Inl IndexErr)
        else postorder_loop edges (rest @ [(i, True)] @ map (\<lambda>j. (j, False)) (rev (edges ! i))) order)"
  by (subst postorder_loop.simps) (simp add: Let_def split: prod.splits)

lemma loop_visit:
  assumes rows: "children_below (map snd rows)" "distinct rows" and i: "i < length rows"
    and order: "set order \<subseteq> {..<length rows}"
  shows "\<exists>order'. postorder_loop (map snd rows) (stack @ [(i, False)]) order = postorder_loop (map snd rows) stack order'
     \<and> map ((!) (unfold_rows rows)) order' = post_tree (unfold_rows rows ! i) (map ((!) (unfold_rows rows)) order)
     \<and> set order \<subseteq> set order' \<and> set order' \<subseteq> set order \<union> {..i}"
  using i order
proof (induction i arbitrary: stack order rule: less_induct)
  case (less i)
  let ?t = "unfold_rows rows" and ?e = "map snd rows"
  have member: "?t ! j \<in> set (map ((!) ?t) os) \<longleftrightarrow> j \<in> set os" if "j < length rows" "set os \<subseteq> {..<length rows}" for j os
  proof -
    have "inj_on ((!) ?t) {..<length rows}"
      using unfold_distinct [OF rows] by (auto simp: inj_on_def nth_eq_iff_index_eq)
    then show ?thesis using that inj_on_image_mem_iff [of "(!) ?t" "{..<length rows}" j "set os"] by auto
  qed
  have children: "\<exists>order'. postorder_loop ?e (stack @ map (\<lambda>j. (j, False)) (rev js)) os = postorder_loop ?e stack order'
     \<and> map ((!) ?t) order' = fold post_tree (map ((!) ?t) js) (map ((!) ?t) os)
     \<and> set os \<subseteq> set order' \<and> set order' \<subseteq> set os \<union> {..<i}"
    if "\<forall>j \<in> set js. j < i" "set os \<subseteq> {..<length rows}" for js os stack
    using that
  proof (induction js arbitrary: os)
    case (Cons j js)
    have "j < i" "j < length rows" using Cons.prems less.prems(1) by auto
    from less.IH [OF this Cons.prems(2), of "stack @ map (\<lambda>j. (j, False)) (rev js)"] obtain o1 where
      o1: "postorder_loop ?e ((stack @ map (\<lambda>j. (j, False)) (rev js)) @ [(j, False)]) os
             = postorder_loop ?e (stack @ map (\<lambda>j. (j, False)) (rev js)) o1"
        "map ((!) ?t) o1 = post_tree (?t ! j) (map ((!) ?t) os)" "set os \<subseteq> set o1" "set o1 \<subseteq> set os \<union> {..j}" by blast
    have "set o1 \<subseteq> {..<length rows}" using o1(4) Cons.prems(2) \<open>j < length rows\<close> by auto
    from Cons.IH [OF _ this] Cons.prems(1) obtain o2 where
      o2: "postorder_loop ?e (stack @ map (\<lambda>j. (j, False)) (rev js)) o1 = postorder_loop ?e stack o2"
        "map ((!) ?t) o2 = fold post_tree (map ((!) ?t) js) (map ((!) ?t) o1)" "set o1 \<subseteq> set o2" "set o2 \<subseteq> set o1 \<union> {..<i}"
      by auto
    show ?case using o1 o2 \<open>j < i\<close> by (intro exI [of _ o2]) auto
  qed auto
  show ?case
  proof (cases "i \<in> set order")
    case True
    then have "?t ! i \<in> set (map ((!) ?t) order)" by simp
    then have "post_tree (?t ! i) (map ((!) ?t) order) = map ((!) ?t) order" by (rule post_tree_seen)
    then show ?thesis using True by (intro exI [of _ order]) (simp add: loop_pop)
  next
    case False
    have cs: "\<forall>j \<in> set (?e ! i). j < i" using children_belowD [OF rows(1), of i] less.prems(1) by simp
    from children [OF cs less.prems(2), of "stack @ [(i, True)]"] obtain o1 where
      o1: "postorder_loop ?e ((stack @ [(i, True)]) @ map (\<lambda>j. (j, False)) (rev (?e ! i))) order = postorder_loop ?e (stack @ [(i, True)]) o1"
        "map ((!) ?t) o1 = fold post_tree (map ((!) ?t) (?e ! i)) (map ((!) ?t) order)"
        "set order \<subseteq> set o1" "set o1 \<subseteq> set order \<union> {..<i}" by blast
    have i1: "i \<notin> set o1" using False o1(4) by auto
    have "postorder_loop ?e (stack @ [(i, False)]) order = postorder_loop ?e (stack @ [(i, True)]) o1"
      using False less.prems(1) o1(1) by (simp add: loop_pop)
    also have "\<dots> = postorder_loop ?e stack (o1 @ [i])" using i1 by (simp add: loop_pop)
    finally have loop: "postorder_loop ?e (stack @ [(i, False)]) order = postorder_loop ?e stack (o1 @ [i])" .
    have node: "?t ! i = DNode (fst (rows ! i)) (map ((!) ?t) (?e ! i))" using unfold_nth [OF rows(1) less.prems(1)] less.prems(1) by simp
    have "?t ! i \<notin> set (map ((!) ?t) order)" using member [OF less.prems] False by simp
    then have "post_tree (?t ! i) (map ((!) ?t) order) = fold post_tree (map ((!) ?t) (?e ! i)) (map ((!) ?t) order) @ [?t ! i]"
      using node post_tree_new [of "?t ! i"] by (metis dtree.sel(2))
    then show ?thesis using loop o1 by (intro exI [of _ "o1 @ [i]"]) auto
  qed
qed

lemma loop_visits:
  assumes rows: "children_below (map snd rows)" "distinct rows" and "set js \<subseteq> {..<length rows}"
    and "set order \<subseteq> {..<length rows}"
  shows "\<exists>order'. postorder_loop (map snd rows) (map (\<lambda>j. (j, False)) (rev js)) order = Some (Inr order')
     \<and> map ((!) (unfold_rows rows)) order' = fold post_tree (map ((!) (unfold_rows rows)) js) (map ((!) (unfold_rows rows)) order)"
  using assms(3-)
proof (induction js arbitrary: order)
  case Nil
  then show ?case by (subst postorder_loop.simps) simp
next
  case (Cons j js)
  have j: "j < length rows" using Cons.prems(1) by simp
  from loop_visit [OF rows j Cons.prems(2), of "map (\<lambda>j. (j, False)) (rev js)"] obtain o1 where
    o1: "postorder_loop (map snd rows) (map (\<lambda>j. (j, False)) (rev js) @ [(j, False)]) order
           = postorder_loop (map snd rows) (map (\<lambda>j. (j, False)) (rev js)) o1"
      "map ((!) (unfold_rows rows)) o1 = post_tree (unfold_rows rows ! j) (map ((!) (unfold_rows rows)) order)"
      "set o1 \<subseteq> set order \<union> {..j}" by blast
  have "set o1 \<subseteq> {..<length rows}" using o1(3) Cons.prems(2) j by auto
  from Cons.IH [OF _ this] Cons.prems(1) o1 show ?case by auto
qed

lemma postorder_trees:
  assumes "children_below (map snd rows)" "distinct rows" "set js \<subseteq> {..<length rows}"
  obtains order where "postorder js (map snd rows) = Some (Inr order)"
    "map ((!) (unfold_rows rows)) order = fold post_tree (map ((!) (unfold_rows rows)) js) []"
  using loop_visits [OF assms, of "[]"] by (auto simp: postorder_def)

section \<open>Equal tables\<close>

lemma same_rows:
  assumes 1: "children_below (map snd rows)" "distinct rows" and 2: "children_below (map snd rows')" "distinct rows'"
    and eq: "unfold_rows rows = unfold_rows rows'"
  shows "rows = rows'"
proof (rule nth_equalityI)
  show len: "length rows = length rows'" using eq length_unfold by metis
  fix i assume i: "i < length rows"
  let ?t = "unfold_rows rows"
  have i': "i < length rows'" using i len by simp
  have n: "fst (rows ! i) = fst (rows' ! i)" "map ((!) ?t) (snd (rows ! i)) = map ((!) ?t) (snd (rows' ! i))"
    using unfold_nth [OF 1(1) i] unfold_nth [OF 2(1) i'] eq by simp_all
  have l: "length (snd (rows ! i)) = length (snd (rows' ! i))" using n(2) by (rule map_eq_imp_length_eq)
  have "snd (rows ! i) ! k = snd (rows' ! i) ! k" if k: "k < length (snd (rows ! i))" for k
  proof -
    have "snd (rows ! i) ! k < length rows" "snd (rows' ! i) ! k < length rows"
      using children_belowD [OF 1(1), of i] children_belowD [OF 2(1), of i] i i' k l len
      by (metis length_map less_trans nth_map nth_mem)+
    moreover have "?t ! (snd (rows ! i) ! k) = ?t ! (snd (rows' ! i) ! k)"
      using arg_cong [OF n(2), of "\<lambda>xs. xs ! k"] k l by simp
    ultimately show ?thesis using nth_eq_iff_index_eq [OF unfold_distinct [OF 1]] by simp
  qed
  then have "snd (rows ! i) = snd (rows' ! i)" using l by (auto intro: nth_equalityI)
  then show "rows ! i = rows' ! i" using n(1) by (simp add: prod_eq_iff)
qed

end
