(* ===== verification/Dag_Rows.thy ===== *)
theory Dag_Rows
  imports Dag_Order
begin

text \<open>
  The rows of the wire format. A row is its shape, the row without its references, and the two lists of
  references; the shape and the references determine the row (\<open>level_row_unique\<close>, \<open>expr_row_unique\<close>),
  because a decimal numeral without leading zeros is the only one of its value. All that is raised
  while rows are read is a \<open>ValueError\<close>.
\<close>

section \<open>Numerals\<close>

definition numeral_text :: "utext \<Rightarrow> bool" where
  "numeral_text t \<longleftrightarrow> (t = [] \<or> hd t \<noteq> 48) \<and> list_all wire_digit t"

lemma digits_number_snoc: "digits_number (t @ [c]) = digits_number t * 10 + (c - 48)"
  by (simp add: digits_number_def)

lemma numeral_text_snoc: "numeral_text (t @ [c]) \<longleftrightarrow> numeral_text t \<and> wire_digit c \<and> (t = [] \<longrightarrow> c \<noteq> 48)"
  by (cases t) (auto simp: numeral_text_def)

lemma digits_number_zero: "numeral_text t \<Longrightarrow> digits_number t = 0 \<longleftrightarrow> t = []"
  by (induction t rule: rev_induct) (auto simp: digits_number_snoc numeral_text_snoc wire_digit_def, simp add: digits_number_def)

lemma digits_number_unique: "numeral_text s \<Longrightarrow> numeral_text t \<Longrightarrow> digits_number s = digits_number t \<Longrightarrow> s = t"
proof (induction s arbitrary: t rule: rev_induct)
  case Nil
  then show ?case using digits_number_zero [of t] digits_number_zero [of "[]"] by simp
next
  case (snoc c s)
  have "t \<noteq> []" using snoc.prems digits_number_zero [of "s @ [c]"] by (auto simp: digits_number_def)
  then obtain t' c' where t: "t = t' @ [c']" using rev_exhaust by blast
  have "digits_number s * 10 + (c - 48) = digits_number t' * 10 + (c' - 48)"
    and d: "48 \<le> c" "c \<le> 57" "48 \<le> c'" "c' \<le> 57"
    using snoc.prems by (simp_all add: t digits_number_snoc numeral_text_snoc wire_digit_def)
  then have "digits_number s = digits_number t'" "c = c'" by presburger+
  then show ?case using snoc by (simp add: t numeral_text_snoc)
qed

lemma canonical_nat_unique:
  assumes "canonical_nat s" and "canonical_nat t" and eq: "digits_number s = digits_number t"
  shows "s = t"
proof -
  have zero: "digits_number [48] = 0" by (simp add: digits_number_def)
  have "s = [48] \<longleftrightarrow> digits_number s = 0" if "canonical_nat s" for s
    using that digits_number_zero [of s] zero by (auto simp: canonical_nat_def numeral_text_def)
  then show ?thesis using assms digits_number_unique [of s t]
    by (metis canonical_nat_def numeral_text_def)
qed

lemma wire_nat_bound: "wire_nat (Some b) w = Inr n \<Longrightarrow> n < b"
  by (auto simp: wire_nat_def Let_def split: wire.splits if_splits)

lemma wire_nat_any: "wire_nat b w = Inr n \<Longrightarrow> wire_nat None w = Inr n"
  by (auto simp: wire_nat_def Let_def split: wire.splits if_splits option.splits)

lemma wire_nat_unique: "wire_nat b v = Inr n \<Longrightarrow> wire_nat b' w = Inr n \<Longrightarrow> v = w"
  by (drule wire_nat_any, drule wire_nat_any)
    (auto simp: wire_nat_def split: wire.splits if_splits intro: canonical_nat_unique)

lemma wire_nats_bound: "rmap (wire_nat (Some b)) ws = Inr ns \<Longrightarrow> n \<in> set ns \<Longrightarrow> n < b"
  by (induction ws arbitrary: ns) (auto simp: res_simps dest: wire_nat_bound)

lemma wire_nats_unique: "rmap (wire_nat b) vs = Inr ns \<Longrightarrow> rmap (wire_nat b') ws = Inr ns \<Longrightarrow> vs = ws"
proof (induction vs arbitrary: ns ws)
  case (Cons v vs)
  then show ?case by (cases ws) (auto simp: res_simps dest: wire_nat_unique)
qed (auto simp: rmap_Inr_iff)

section \<open>Shapes\<close>

definition level_shape :: "wire \<Rightarrow> wire" where
  "level_shape row = (case row of
     WList (WStr tag # args) \<Rightarrow> if tag \<in> {u ''succ'', u ''max'', u ''imax''} then WList [WStr tag] else row
   | _ \<Rightarrow> row)"

definition expr_shape :: "wire \<Rightarrow> wire" where
  "expr_shape row = (case row of
     WList (WStr tag # args) \<Rightarrow>
       if tag \<in> {u ''sort'', u ''app''} then WList [WStr tag]
       else if tag \<in> {u ''const'', u ''mdata''} then WList (WStr tag # take 1 args)
       else if tag \<in> {u ''lam'', u ''forall'', u ''let'', u ''proj''} then WList (WStr tag # take 2 args)
       else row
   | _ \<Rightarrow> row)"

definition binder_row :: "wire \<Rightarrow> bool" where
  "binder_row row \<longleftrightarrow> wire_tag row \<in> {u ''lam'', u ''forall'', u ''let''}"

lemma tag_eq: "u s = u t \<longleftrightarrow> s = t"
  unfolding u_def by (rule inj_map_eq_map) (simp add: inj_def)

lemma level_row_parts:
  assumes "level_row i row = Inr cs"
  shows "\<exists>tag pre ws. row = WList (WStr tag # pre @ ws) \<and> level_shape row = WList (WStr tag # pre)
    \<and> rmap (wire_nat (Some i)) ws = Inr cs"
proof -
  obtain tag args where row: "row = WList (WStr tag # args)"
    using assms by (auto simp: level_row_def split: wire.splits list.splits)
  note T = tag_eq
  show ?thesis
  proof (cases "tag \<in> {u ''succ'', u ''max'', u ''imax''}")
    case True
    then have "rmap (wire_nat (Some i)) args = Inr cs"
      using assms by (auto simp: T level_row_def row split: if_splits)
    then show ?thesis using True row by (intro exI [of _ tag] exI [of _ "[]"] exI [of _ args]) (simp add: level_shape_def)
  next
    case False
    then have "cs = []" using assms by (auto simp: level_row_def row res_simps split: if_splits)
    then show ?thesis using False row by (intro exI [of _ tag] exI [of _ args] exI [of _ "[]"]) (simp add: level_shape_def)
  qed
qed

lemma level_row_unique:
  assumes "level_row i r = Inr cs" and "level_row i' r' = Inr cs" and "level_shape r = level_shape r'"
  shows "r = r'"
  using level_row_parts [OF assms(1)] level_row_parts [OF assms(2)] assms(3) wire_nats_unique by fastforce

text \<open>The row with a shape, its references to expressions and its references to levels.\<close>

definition whole_row :: "utext \<Rightarrow> wire list \<Rightarrow> wire list \<Rightarrow> wire list \<Rightarrow> wire" where
  "whole_row tag pre ws vs =
     (if tag = u ''sort'' then WList (WStr tag # vs)
      else if tag = u ''const'' then WList (WStr tag # pre @ [WList vs])
      else WList (WStr tag # pre @ ws))"

lemma expr_row_parts:
  assumes "expr_row nl i row = Inr (cs, us, k)"
  shows "\<exists>tag pre ws vs. row = whole_row tag pre ws vs \<and> expr_shape row = WList (WStr tag # pre)
    \<and> rmap (wire_nat (Some i)) ws = Inr cs \<and> rmap (wire_nat (Some nl)) vs = Inr us
    \<and> (tag \<in> {u ''lam'', u ''forall'', u ''let''} \<longrightarrow> cs \<noteq> [])
    \<and> (if tag = u ''bvar'' then cs = [] \<and> (\<exists>w n. pre = [w] \<and> wire_nat None w = Inr n \<and> k = n + 1) else k = 0)"
proof -
  obtain tag args where row: "row = WList (WStr tag # args)"
    using assms by (auto simp: expr_row_def split: wire.splits list.splits)
  note E = assms [unfolded expr_row_def row wire.case list.case]
  note T = tag_eq
  consider (bvar) "tag = u ''bvar''" | (sort) "tag = u ''sort''" | (cst) "tag = u ''const''" | (app) "tag = u ''app''"
    | (lam) "tag \<in> {u ''lam'', u ''forall''}" | (letx) "tag = u ''let''" | (mdata) "tag = u ''mdata''"
    | (proj) "tag = u ''proj''" | (leaf) "tag \<in> {u ''nat'', u ''string''}"
    using E by (simp split: if_split_asm)
  then show ?thesis
  proof cases
    case bvar
    obtain w n where "args = [w]" "wire_nat (Some 65536) w = Inr n" "cs = []" "us = []" "k = n + 1"
      using E by (auto simp: bvar T res_simps length_Suc_conv split: if_splits)
    then show ?thesis using bvar wire_nat_any
      by (intro exI [of _ tag] exI [of _ args] exI [of _ "[]"]) (auto simp: T whole_row_def expr_shape_def row)
  next
    case sort
    obtain w n where "args = [w]" "wire_nat (Some nl) w = Inr n" "cs = []" "us = [n]" "k = 0"
      using E by (auto simp: sort T res_simps length_Suc_conv split: if_splits)
    then show ?thesis using sort
      by (intro exI [of _ tag] exI [of _ "[]"] exI [of _ "[]"] exI [of _ args]) (auto simp: T whole_row_def expr_shape_def row)
  next
    case cst
    obtain w vs where "args = [w, WList vs]" "rmap (wire_nat (Some nl)) vs = Inr us" "cs = []" "k = 0"
      using E by (auto simp: cst T res_simps length_Suc_conv numeral_2_eq_2 split: if_splits)
    then show ?thesis using cst
      by (intro exI [of _ tag] exI [of _ "[w]"] exI [of _ "[]"] exI [of _ vs]) (auto simp: T whole_row_def expr_shape_def row)
  next
    case app
    obtain "rmap (wire_nat (Some i)) args = Inr cs" "us = []" "k = 0"
      using E by (auto simp: app T res_simps split: if_splits)
    then show ?thesis using app
      by (intro exI [of _ tag] exI [of _ "[]"] exI [of _ args] exI [of _ "[]"]) (auto simp: T whole_row_def expr_shape_def row)
  next
    case lam
    then obtain "rmap (wire_nat (Some i)) (drop 2 args) = Inr cs" "us = []" "k = 0" "length args = 4"
      using E by (auto simp: T res_simps split: if_splits)
    moreover from this have "cs \<noteq> []" by (auto simp: rmap_Inr_iff)
    ultimately show ?thesis using lam
      by (intro exI [of _ tag] exI [of _ "take 2 args"] exI [of _ "drop 2 args"] exI [of _ "[]"])
        (auto simp: T whole_row_def expr_shape_def row)
  next
    case letx
    obtain "rmap (wire_nat (Some i)) (drop 2 args) = Inr cs" "us = []" "k = 0" "length args = 5"
      using E by (auto simp: letx T res_simps split: if_splits)
    moreover from this have "cs \<noteq> []" by (auto simp: rmap_Inr_iff)
    ultimately show ?thesis using letx
      by (intro exI [of _ tag] exI [of _ "take 2 args"] exI [of _ "drop 2 args"] exI [of _ "[]"])
        (auto simp: T whole_row_def expr_shape_def row)
  next
    case mdata
    obtain m w c where "args = [m, w]" "wire_nat (Some i) w = Inr c" "cs = [c]" "us = []" "k = 0"
      using E by (auto simp: mdata T res_simps length_Suc_conv numeral_2_eq_2 split: if_splits)
    then show ?thesis using mdata
      by (intro exI [of _ tag] exI [of _ "[m]"] exI [of _ "[w]"] exI [of _ "[]"]) (auto simp: T whole_row_def expr_shape_def row)
  next
    case proj
    obtain m j w c where "args = [m, j, w]" "wire_nat (Some i) w = Inr c" "cs = [c]" "us = []" "k = 0"
      using E by (auto simp: proj T res_simps length_Suc_conv numeral_3_eq_3 split: if_splits)
    then show ?thesis using proj
      by (intro exI [of _ tag] exI [of _ "[m, j]"] exI [of _ "[w]"] exI [of _ "[]"]) (auto simp: T whole_row_def expr_shape_def row)
  next
    case leaf
    then have "cs = []" "us = []" "k = 0" using E by (auto simp: T res_simps split: if_splits)
    then show ?thesis using leaf
      by (intro exI [of _ tag] exI [of _ args] exI [of _ "[]"]) (auto simp: T whole_row_def expr_shape_def row)
  qed
qed

lemma expr_row_unique:
  assumes "expr_row nl i r = Inr (cs, us, k)" and "expr_row nl' i' r' = Inr (cs, us, k')" and "expr_shape r = expr_shape r'"
  shows "r = r'"
  using expr_row_parts [OF assms(1)] expr_row_parts [OF assms(2)] assms(3) wire_nats_unique by (metis wire.inject(3) list.inject wire.inject(1))

lemma expr_row_bounds:
  assumes "expr_row nl i row = Inr (cs, us, k)"
  shows "\<forall>c \<in> set cs. c < i" and "\<forall>n \<in> set us. n < nl"
  using expr_row_parts [OF assms] wire_nats_bound by blast+

end
