(* ===== verification/Dag_Tables.thy ===== *)
theory Dag_Tables
  imports Dag_Rows
begin

text \<open>
  The two tables of \<open>validate_dag\<close> after all rows are read (\<open>level_table_ok\<close>, \<open>expr_table_ok\<close>): references
  point backwards, no two rows are equal, and the recorded heights, sizes and bound-variable needs are
  those of the trees the rows stand for. Reading a row raises only a \<open>ValueError\<close>.
\<close>

section \<open>Only value errors\<close>

definition value_error :: "exc + 'a \<Rightarrow> bool" where
  "value_error m \<longleftrightarrow> (\<forall>e. m = Inl e \<longrightarrow> exc_type e = ''ValueError'')"

named_theorems only_value_errors

lemma value_error_simps [simp]: "value_error (Inr x)" "value_error (Inl (ValueErr s))" "value_error (ensure b (ValueErr s))"
  by (simp_all add: value_error_def ensure_def)

lemma value_error_rbind [only_value_errors]: "value_error m \<Longrightarrow> (\<And>x. m = Inr x \<Longrightarrow> value_error (f x)) \<Longrightarrow> value_error (rbind m f)"
  by (cases m) (auto simp: value_error_def)

lemma value_error_rmap [only_value_errors]: "(\<And>x. value_error (f x)) \<Longrightarrow> value_error (rmap f xs)"
  by (induction xs) (auto intro!: value_error_rbind)

lemma value_error_read_table [only_value_errors]: "(\<And>r T. value_error (f r T)) \<Longrightarrow> value_error (read_table f rows T)"
  by (induction rows arbitrary: T) (auto intro!: value_error_rbind)

lemma value_error_utf8 [simp]: "value_error (utf8_length t)"
  by (simp add: utf8_length_def)

lemma value_error_encoded [simp]: "value_error (encoded t)"
  by (simp add: encoded_def split: option.splits sum.splits)

lemma value_error_nat [simp]: "value_error (wire_nat b w)"
  by (simp add: wire_nat_def Let_def split: wire.splits option.splits)

lemma value_error_string [simp]: "value_error (wire_string w)"
  by (auto simp: wire_string_def split: wire.splits intro!: only_value_errors)

lemma value_error_name [simp]: "value_error (wire_name w)"
proof -
  have "value_error (name_part w)" for w
    by (auto simp: name_part_def split: wire.splits list.splits intro!: only_value_errors)
  then show ?thesis by (auto simp: wire_name_def split: wire.splits intro!: only_value_errors)
qed

lemma value_error_metadata [simp]: "value_error (wire_metadata w)"
proof -
  have "value_error (metadata_value t w)" for t w
    by (auto simp: metadata_value_def split: wire.splits intro!: only_value_errors)
  then have "value_error (metadata_entry w)" for w
    by (auto simp: metadata_entry_def split: wire.splits list.splits intro!: only_value_errors)
  then show ?thesis by (auto simp: wire_metadata_def split: wire.splits intro!: only_value_errors)
qed

lemma value_error_level_row [simp]: "value_error (level_row i row)"
  unfolding level_row_def by (auto split: wire.splits list.splits intro!: only_value_errors)

lemma value_error_if: "(b \<Longrightarrow> value_error m) \<Longrightarrow> (\<not> b \<Longrightarrow> value_error n) \<Longrightarrow> value_error (if b then m else n)"
  by simp

lemma value_error_wire_case:
  "(\<And>t. row = WStr t \<Longrightarrow> value_error (f1 t)) \<Longrightarrow> (\<And>b. row = WBool b \<Longrightarrow> value_error (f2 b)) \<Longrightarrow>
   (\<And>xs. row = WList xs \<Longrightarrow> value_error (f3 xs)) \<Longrightarrow> (\<And>x. row = WOther x \<Longrightarrow> value_error (f4 x)) \<Longrightarrow>
   value_error (case row of WStr t \<Rightarrow> f1 t | WBool b \<Rightarrow> f2 b | WList xs \<Rightarrow> f3 xs | WOther x \<Rightarrow> f4 x)"
  by (cases row) simp_all

lemma value_error_list_case:
  "(xs = [] \<Longrightarrow> value_error m) \<Longrightarrow> (\<And>y ys. xs = y # ys \<Longrightarrow> value_error (f y ys)) \<Longrightarrow>
   value_error (case xs of [] \<Rightarrow> m | y # ys \<Rightarrow> f y ys)"
  by (cases xs) simp_all

lemma value_error_expr_row [simp]: "value_error (expr_row nl i row)"
  unfolding expr_row_def
  by (intro value_error_if value_error_wire_case value_error_list_case only_value_errors value_error_simps
      value_error_nat value_error_string value_error_name value_error_metadata)

lemma value_error_tables: "value_error (read_tables ls es rs)"
proof -
  have "value_error (add_level row T)" for row T
    unfolding add_level_def by (auto simp: Let_def intro!: only_value_errors)
  moreover have "value_error (add_expr nl row T)" for nl row T
    unfolding add_expr_def by (auto simp: Let_def intro!: only_value_errors)
  ultimately show ?thesis unfolding read_tables_def by (auto intro!: only_value_errors)
qed

lemma value_error_envelope: "value_error (check_envelope w environment node_budget toolchain)"
  unfolding check_envelope_def by (auto split: option.splits intro!: only_value_errors)

section \<open>The tables\<close>

lemma read_table_snoc: "read_table f (rows @ [r]) T = rbind (read_table f rows T) (f r)"
proof (induction rows arbitrary: T)
  case (Cons r' rows)
  then show ?case by (cases "f r' T") simp_all
next
  case Nil
  show ?case by (cases "f r T") simp_all
qed

definition level_rows :: "wire list \<Rightarrow> level_table \<Rightarrow> (wire \<times> nat list) list" where
  "level_rows rows L = zip (map level_shape rows) (lt_refs L)"

definition level_table_ok :: "wire list \<Rightarrow> level_table \<Rightarrow> bool" where
  "level_table_ok rows L \<longleftrightarrow>
     length (lt_refs L) = length rows \<and> children_below (lt_refs L)
     \<and> (\<forall>i < length rows. \<exists>b. level_row b (rows ! i) = Inr (lt_refs L ! i))
     \<and> lt_heights L = map tree_height (unfold_rows (level_rows rows L))
     \<and> map Some (lt_seen L) = map wire_json rows \<and> distinct (lt_seen L)"

lemma encoded_Inr: "encoded t = Inr s \<Longrightarrow> t = Some s"
  by (auto simp: encoded_def split: option.splits sum.splits)

lemma level_table_read: "read_table add_level rows no_levels = Inr L \<Longrightarrow> level_table_ok rows L"
proof (induction rows arbitrary: L rule: rev_induct)
  case Nil
  then show ?case by (auto simp: no_levels_def level_table_ok_def children_below_def level_rows_def unfold_rows_def)
next
  case (snoc r rows)
  then obtain K where K: "read_table add_level rows no_levels = Inr K" and L: "add_level r K = Inr L"
    by (auto simp: read_table_snoc res_simps)
  note ok = snoc.IH [OF K, unfolded level_table_ok_def]
  from L obtain cs key where row: "level_row (length (lt_refs K)) r = Inr cs"
    and key: "wire_json r = Some key" "key \<notin> set (lt_seen K)"
    and new: "L = \<lparr>lt_refs = lt_refs K @ [cs], lt_heights = lt_heights K @ [1 + foldr max (map ((!) (lt_heights K)) cs) 0],
                lt_seen = lt_seen K @ [key]\<rparr>"
    by (auto simp: add_level_def res_simps Let_def dest!: encoded_Inr split: if_splits)
  have cs: "\<forall>c \<in> set cs. c < length rows" using level_row_parts [OF row] wire_nats_bound ok by metis
  have rows: "level_rows (rows @ [r]) L = level_rows rows K @ [(level_shape r, cs)]"
    using ok by (simp add: level_rows_def new)
  have len: "length (level_rows rows K) = length rows" using ok by (simp add: level_rows_def)
  have heights: "map ((!) (lt_heights K)) cs = map (tree_height \<circ> (!) (unfold_rows (level_rows rows K))) cs"
    using ok cs len by auto
  have heights_new: "lt_heights L = lt_heights K @ [1 + foldr max (map ((!) (lt_heights K)) cs) 0]" by (simp add: new)
  show ?case
    unfolding level_table_ok_def
  proof (intro conjI allI impI)
    show "\<exists>b. level_row b ((rows @ [r]) ! i) = Inr (lt_refs L ! i)" if "i < length (rows @ [r])" for i
      using that ok row by (auto simp: new nth_append less_Suc_eq)
    show "lt_heights L = map tree_height (unfold_rows (level_rows (rows @ [r]) L))"
      using ok unfolding heights_new rows unfold_snoc heights by (simp add: comp_def)
  qed (use ok key cs in \<open>simp_all add: new children_below_snoc\<close>)
qed

lemma distinct_keys: "map Some keys = map f rows \<Longrightarrow> distinct keys \<Longrightarrow> distinct rows"
  by (metis distinct_map inj_Some inj_on_subset subset_UNIV)

lemma level_rows_ok:
  assumes "level_table_ok rows L"
  shows "length (level_rows rows L) = length rows" and "map snd (level_rows rows L) = lt_refs L"
    and "children_below (map snd (level_rows rows L))" and "distinct (level_rows rows L)"
proof -
  note ok = assms [unfolded level_table_ok_def]
  show "length (level_rows rows L) = length rows" "map snd (level_rows rows L) = lt_refs L"
    using ok by (simp_all add: level_rows_def)
  then show "children_below (map snd (level_rows rows L))" using ok by simp
  have d: "distinct rows" using ok distinct_keys by blast
  have "i = j" if "i < length rows" "j < length rows" "level_rows rows L ! i = level_rows rows L ! j" for i j
  proof -
    have "level_shape (rows ! i) = level_shape (rows ! j)" "lt_refs L ! i = lt_refs L ! j"
      using that ok by (simp_all add: level_rows_def)
    then have "rows ! i = rows ! j" using ok that(1,2) level_row_unique by metis
    then show ?thesis using nth_eq_iff_index_eq [OF d] that by simp
  qed
  then show "distinct (level_rows rows L)" using ok by (simp add: distinct_conv_nth level_rows_def) blast
qed

lemma map_nth_eq:
  assumes "distinct ts" and "map ((!) ts) js = map ((!) ts) ks"
    and "\<And>j. j \<in> set js \<Longrightarrow> j < length ts" and "\<And>k. k \<in> set ks \<Longrightarrow> k < length ts"
  shows "js = ks"
  using assms(2-) by (induction js arbitrary: ks) (auto simp: nth_eq_iff_index_eq [OF assms(1)])

text \<open>The rows are those of another table with the same numbered shapes.\<close>

lemma level_rows_same:
  assumes "level_table_ok rows L" and "level_table_ok rows' L'" and "level_rows rows L = level_rows rows' L'"
  shows "rows = rows'"
proof (rule nth_equalityI)
  note ok = assms(1) [unfolded level_table_ok_def] and ok' = assms(2) [unfolded level_table_ok_def]
  show len: "length rows = length rows'"
    using level_rows_ok(1) [OF assms(1)] level_rows_ok(1) [OF assms(2)] assms(3) by simp
  fix i assume i: "i < length rows"
  have "level_rows rows L ! i = level_rows rows' L' ! i" using assms(3) by simp
  then have "level_shape (rows ! i) = level_shape (rows' ! i)" "lt_refs L ! i = lt_refs L' ! i"
    using i len ok ok' by (simp_all add: level_rows_def)
  then show "rows ! i = rows' ! i" using ok ok' i len level_row_unique by metis
qed

section \<open>Expressions\<close>

text \<open>No variable of the tree points outside the \<open>d\<close> binders around it and the binders inside it.\<close>

inductive closed_at :: "nat \<Rightarrow> (wire \<times> 'b) dtree \<Rightarrow> bool" where
  closed_var: "wire_nat None w = Inr k \<Longrightarrow> k < d \<Longrightarrow> closed_at d (DNode (WList [WStr (u ''bvar''), w], us) [])"
| closed_under: "binder_row shape \<Longrightarrow> (\<And>t. t \<in> set ts \<Longrightarrow> closed_at d t) \<Longrightarrow> closed_at (d + 1) t'
    \<Longrightarrow> closed_at d (DNode (shape, us) (ts @ [t']))"
| closed_other: "\<not> binder_row shape \<Longrightarrow> wire_tag shape \<noteq> u ''bvar'' \<Longrightarrow> (\<And>t. t \<in> set ts \<Longrightarrow> closed_at d t)
    \<Longrightarrow> closed_at d (DNode (shape, us) ts)"

lemma closed_at_mono: "closed_at d t \<Longrightarrow> d \<le> d' \<Longrightarrow> closed_at d' t"
proof (induction d t arbitrary: d' rule: closed_at.induct)
  case (closed_under shape ts d t' us)
  then show ?case by (intro closed_at.closed_under) auto
next
  case (closed_other shape ts d us)
  then show ?case by (intro closed_at.closed_other) auto
next
  case (closed_var w k d us)
  then show ?case by (intro closed_at.closed_var) auto
qed

definition expr_rows :: "'l dtree list \<Rightarrow> wire list \<Rightarrow> expr_table \<Rightarrow> ((wire \<times> 'l dtree list) \<times> nat list) list" where
  "expr_rows lts rows X = zip (zip (map expr_shape rows) (map (map ((!) lts)) (et_levels X))) (et_refs X)"

definition expr_table_ok :: "nat \<Rightarrow> 'l dtree list \<Rightarrow> wire list \<Rightarrow> expr_table \<Rightarrow> bool" where
  "expr_table_ok nl lts rows X \<longleftrightarrow>
     length (et_refs X) = length rows \<and> length (et_levels X) = length rows \<and> children_below (et_refs X)
     \<and> (\<forall>i < length rows. \<exists>b k. expr_row nl b (rows ! i) = Inr (et_refs X ! i, et_levels X ! i, k))
     \<and> et_heights X = map tree_height (unfold_rows (expr_rows lts rows X))
     \<and> et_sizes X = map tree_nodes (unfold_rows (expr_rows lts rows X))
     \<and> (\<forall>i < length rows. closed_at (et_needs X ! i) (unfold_rows (expr_rows lts rows X) ! i))
     \<and> length (et_needs X) = length rows \<and> list_all (\<lambda>h. h \<le> 256) (et_heights X)
     \<and> map Some (et_seen X) = map wire_json rows \<and> distinct (et_seen X)"

lemma foldr_max_ge: "n \<in> set ns \<Longrightarrow> n \<le> foldr max ns (0 :: nat)"
  by (induction ns) auto

lemma row_need_closed:
  assumes row: "expr_row nl i row = Inr (cs, us, k)"
    and parts: "\<And>c. c \<in> set cs \<Longrightarrow> closed_at (needs ! c) (ts ! c)"
  shows "closed_at (row_need (wire_tag row) needs cs k) (DNode (expr_shape row, ls) (map ((!) ts) cs))"
proof -
  obtain tag pre ws vs where p: "row = whole_row tag pre ws vs" "expr_shape row = WList (WStr tag # pre)"
    and bind: "tag \<in> {u ''lam'', u ''forall'', u ''let''} \<Longrightarrow> cs \<noteq> []"
    and need: "if tag = u ''bvar'' then cs = [] \<and> (\<exists>w n. pre = [w] \<and> wire_nat None w = Inr n \<and> k = n + 1) else k = 0"
    using expr_row_parts [OF row] by blast
  have tag: "wire_tag row = tag" "wire_tag (expr_shape row) = tag"
    by (simp add: p(1) whole_row_def wire_tag_def) (simp add: p(2) wire_tag_def)
  show ?thesis
  proof (cases "tag \<in> {u ''lam'', u ''forall'', u ''let''}")
    case True
    then have split: "cs = butlast cs @ [List.last cs]" using bind by simp
    let ?n = "row_need tag needs cs k"
    have n: "?n = max (foldr max (map ((!) needs) (butlast cs)) 0) (needs ! List.last cs - 1)"
      using True bind by (auto simp: row_need_def)
    have "closed_at ?n (ts ! c)" if "c \<in> set (butlast cs)" for c
    proof (rule closed_at_mono)
      show "closed_at (needs ! c) (ts ! c)" using parts that by (auto dest: in_set_butlastD)
      show "needs ! c \<le> ?n" unfolding n using that by (intro max.coboundedI1 foldr_max_ge) simp
    qed
    moreover have "closed_at (?n + 1) (ts ! List.last cs)"
    proof (rule closed_at_mono)
      show "closed_at (needs ! List.last cs) (ts ! List.last cs)" using parts split by (metis in_set_conv_decomp)
      show "needs ! List.last cs \<le> ?n + 1" unfolding n by simp
    qed
    ultimately have "closed_at ?n (DNode (expr_shape row, ls) (map ((!) ts) (butlast cs) @ [ts ! List.last cs]))"
      using True by (intro closed_under) (auto simp: binder_row_def tag)
    moreover have "map ((!) ts) (butlast cs) @ [ts ! List.last cs] = map ((!) ts) cs" by (subst (3) split) simp
    ultimately show ?thesis by (simp add: tag)
  next
    case False
    show ?thesis
    proof (cases "tag = u ''bvar''")
      case True
      then show ?thesis using need False by (auto simp: p(2) row_need_def intro!: closed_var)
    next
      case bvar: False
      have "needs ! c \<le> row_need tag needs cs k" if "c \<in> set cs" for c
        using False that by (auto simp: row_need_def intro!: foldr_max_ge)
      then have "closed_at (row_need tag needs cs k) (ts ! c)" if "c \<in> set cs" for c
        using parts that closed_at_mono by blast
      then show ?thesis using False bvar by (intro closed_other) (auto simp: tag binder_row_def)
    qed
  qed
qed

lemma add_expr_step:
  assumes "add_expr nl r Y = Inr X" and lens: "length (et_refs Y) = n" "length (et_needs Y) = n"
  obtains cs us k key where "expr_row nl n r = Inr (cs, us, k)" and "wire_json r = Some key" "key \<notin> set (et_seen Y)"
    and "1 + foldr max (map ((!) (et_heights Y)) cs) 0 \<le> 256"
    and "X = \<lparr>et_refs = et_refs Y @ [cs], et_levels = et_levels Y @ [us],
               et_heights = et_heights Y @ [1 + foldr max (map ((!) (et_heights Y)) cs) 0],
               et_needs = et_needs Y @ [row_need (wire_tag r) (et_needs Y) cs k],
               et_sizes = et_sizes Y @ [1 + sum_list (map ((!) (et_sizes Y)) cs)], et_seen = et_seen Y @ [key]\<rparr>"
  using assms by (auto simp: add_expr_def res_simps Let_def dest!: encoded_Inr split: if_splits)

lemma expr_table_read: "read_table (add_expr nl) rows no_exprs = Inr X \<Longrightarrow> expr_table_ok nl lts rows X"
proof (induction rows arbitrary: X rule: rev_induct)
  case Nil
  then show ?case by (auto simp: no_exprs_def expr_table_ok_def children_below_def expr_rows_def unfold_rows_def)
next
  case (snoc r rows)
  then obtain Y where Y: "read_table (add_expr nl) rows no_exprs = Inr Y" and X: "add_expr nl r Y = Inr X"
    by (auto simp: read_table_snoc res_simps)
  note ok = snoc.IH [OF Y, unfolded expr_table_ok_def]
  let ?t = "unfold_rows (expr_rows lts rows Y)"
  obtain cs us k key where row: "expr_row nl (length rows) r = Inr (cs, us, k)"
    and key: "wire_json r = Some key" "key \<notin> set (et_seen Y)" and le: "1 + foldr max (map ((!) (et_heights Y)) cs) 0 \<le> 256"
    and new: "X = \<lparr>et_refs = et_refs Y @ [cs], et_levels = et_levels Y @ [us],
               et_heights = et_heights Y @ [1 + foldr max (map ((!) (et_heights Y)) cs) 0],
               et_needs = et_needs Y @ [row_need (wire_tag r) (et_needs Y) cs k],
               et_sizes = et_sizes Y @ [1 + sum_list (map ((!) (et_sizes Y)) cs)], et_seen = et_seen Y @ [key]\<rparr>"
    using add_expr_step [OF X] ok by metis
  have cs: "\<forall>c \<in> set cs. c < length rows" using expr_row_bounds [OF row] by simp
  have rows: "expr_rows lts (rows @ [r]) X = expr_rows lts rows Y @ [((expr_shape r, map ((!) lts) us), cs)]"
    using ok by (simp add: expr_rows_def new)
  have len: "length (expr_rows lts rows Y) = length rows" using ok by (simp add: expr_rows_def)
  have parts: "map ((!) (et_heights Y)) cs = map (tree_height \<circ> (!) ?t) cs" "map ((!) (et_sizes Y)) cs = map (tree_nodes \<circ> (!) ?t) cs"
    using ok cs len by auto
  have news: "et_heights X = et_heights Y @ [1 + foldr max (map ((!) (et_heights Y)) cs) 0]"
    "et_sizes X = et_sizes Y @ [1 + sum_list (map ((!) (et_sizes Y)) cs)]" by (simp_all add: new)
  show ?case
    unfolding expr_table_ok_def
  proof (intro conjI allI impI)
    show "\<exists>b k. expr_row nl b ((rows @ [r]) ! i) = Inr (et_refs X ! i, et_levels X ! i, k)" if "i < length (rows @ [r])" for i
    proof (cases "i = length rows")
      case True
      then have "expr_row nl (length rows) ((rows @ [r]) ! i) = Inr (et_refs X ! i, et_levels X ! i, k)"
        using row ok by (simp add: new nth_append)
      then show ?thesis by blast
    next
      case False
      then show ?thesis using that ok by (simp add: new nth_append)
    qed
    show "et_heights X = map tree_height (unfold_rows (expr_rows lts (rows @ [r]) X))"
      using ok unfolding news rows unfold_snoc parts by (simp add: comp_def)
    show "et_sizes X = map tree_nodes (unfold_rows (expr_rows lts (rows @ [r]) X))"
      using ok unfolding news rows unfold_snoc parts by (simp add: comp_def)
    have "closed_at (et_needs Y ! c) (?t ! c)" if "c \<in> set cs" for c using ok cs that by simp
    note closed = row_need_closed [OF row this]
    show "closed_at (et_needs X ! i) (unfold_rows (expr_rows lts (rows @ [r]) X) ! i)" if i: "i < length (rows @ [r])" for i
    proof (cases "i = length rows")
      case True
      have "et_needs X ! i = row_need (wire_tag r) (et_needs Y) cs k" using ok by (simp add: True new nth_append)
      moreover have "unfold_rows (expr_rows lts (rows @ [r]) X) ! i = DNode (expr_shape r, map ((!) lts) us) (map ((!) ?t) cs)"
        using len by (simp add: True rows unfold_snoc nth_append)
      ultimately show ?thesis using closed by simp
    next
      case False
      then have "i < length rows" using i by simp
      moreover from this have "et_needs X ! i = et_needs Y ! i" using ok by (simp add: new nth_append)
      ultimately show ?thesis using ok len by (simp add: rows unfold_snoc nth_append)
    qed
    have "list_all (\<lambda>h. h \<le> 256) (et_heights Y)" using ok by blast
    then show "list_all (\<lambda>h. h \<le> 256) (et_heights X)" using le by (simp add: news(1))
  qed (use ok key cs in \<open>simp_all add: new children_below_snoc\<close>)
qed

lemma expr_rows_ok:
  assumes "expr_table_ok nl lts rows X" and lts: "distinct lts" "length lts = nl"
  shows "length (expr_rows lts rows X) = length rows" and "map snd (expr_rows lts rows X) = et_refs X"
    and "children_below (map snd (expr_rows lts rows X))" and "distinct (expr_rows lts rows X)"
    and "list_all (list_all (\<lambda>u. u < nl)) (et_levels X)"
proof -
  note ok = assms(1) [unfolded expr_table_ok_def]
  show "length (expr_rows lts rows X) = length rows" "map snd (expr_rows lts rows X) = et_refs X"
    using ok by (simp_all add: expr_rows_def)
  then show "children_below (map snd (expr_rows lts rows X))" using ok by simp
  have us: "n < nl" if i: "i < length rows" and n: "n \<in> set (et_levels X ! i)" for i n
  proof -
    obtain b k where "expr_row nl b (rows ! i) = Inr (et_refs X ! i, et_levels X ! i, k)" using ok i by blast
    then show ?thesis using expr_row_bounds(2) n by blast
  qed
  then show "list_all (list_all (\<lambda>u. u < nl)) (et_levels X)"
    using ok by (auto simp: list_all_length)
  have d: "distinct rows" using ok distinct_keys by blast
  have "i = j" if "i < length rows" "j < length rows" "expr_rows lts rows X ! i = expr_rows lts rows X ! j" for i j
  proof -
    have eq: "expr_shape (rows ! i) = expr_shape (rows ! j)" "et_refs X ! i = et_refs X ! j"
      "map ((!) lts) (et_levels X ! i) = map ((!) lts) (et_levels X ! j)"
      using that ok by (simp_all add: expr_rows_def)
    have "et_levels X ! i = et_levels X ! j"
      using eq(3) us that(1,2) lts by (intro map_nth_eq) auto
    then have "rows ! i = rows ! j" using ok that(1,2) eq expr_row_unique by metis
    then show ?thesis using nth_eq_iff_index_eq [OF d] that by simp
  qed
  then show "distinct (expr_rows lts rows X)" using ok by (simp add: distinct_conv_nth expr_rows_def) blast
qed

lemma expr_rows_same:
  assumes "expr_table_ok nl lts rows X" and "expr_table_ok nl lts rows' X'" and "distinct lts" "length lts = nl"
    and "expr_rows lts rows X = expr_rows lts rows' X'"
  shows "rows = rows'"
proof (rule nth_equalityI)
  note ok = assms(1) [unfolded expr_table_ok_def] and ok' = assms(2) [unfolded expr_table_ok_def]
  note r = expr_rows_ok [OF assms(1,3,4)] and r' = expr_rows_ok [OF assms(2,3,4)]
  show len: "length rows = length rows'" using r(1) r'(1) assms(5) by simp
  fix i assume i: "i < length rows"
  have "expr_rows lts rows X ! i = expr_rows lts rows' X' ! i" using assms(5) by simp
  then have eq: "expr_shape (rows ! i) = expr_shape (rows' ! i)" "et_refs X ! i = et_refs X' ! i"
    "map ((!) lts) (et_levels X ! i) = map ((!) lts) (et_levels X' ! i)"
    using i len ok ok' by (simp_all add: expr_rows_def)
  have "list_all (\<lambda>u. u < nl) (et_levels X ! i)" "list_all (\<lambda>u. u < nl) (et_levels X' ! i)"
    using r(5) r'(5) i len ok ok' by (simp_all add: list_all_length)
  then have "et_levels X ! i = et_levels X' ! i"
    using eq(3) assms(3,4) by (intro map_nth_eq) (auto simp: list_all_iff)
  then show "rows ! i = rows' ! i" using ok ok' i len eq expr_row_unique by metis
qed

end
