(* ===== verification/Dag_Correct.thy ===== *)
theory Dag_Correct
  imports Dag_Tables
begin

text \<open>
  What \<open>validate_dag\<close> of \<open>jevops/expr_dag.py\<close> guarantees, stated on the trees the roots stand for: it
  always ends, with an answer or a \<open>ValueError\<close>; an accepted graph has closed roots, its statistics are
  those of the trees, and it has one node for every distinct subtree; and there is only one accepted
  wire for a list of trees.
\<close>

section \<open>The marking loops\<close>

lemma mark_loop_total:
  assumes "length lvls = length refs" and "\<forall>cs \<in> set refs. \<forall>c \<in> set cs. c < length refs"
    and "set pending \<subseteq> {..<length refs}"
  shows "\<exists>reached' used'. mark_loop refs lvls pending reached used = Inr (reached', used')
    \<and> set used' \<subseteq> set used \<union> set (concat lvls)"
  using assms
proof (induction refs lvls pending reached used rule: mark_loop.induct)
  case (1 refs lvls pending reached used)
  show ?case
  proof (cases "pending = []")
    case True
    then show ?thesis by (simp add: mark_loop.simps)
  next
    case False
    let ?i = "List.last pending" and ?rest = "butlast pending"
    have i: "?i < length refs" using False "1.prems"(3) last_in_set by fastforce
    have rest: "set ?rest \<subseteq> {..<length refs}" using "1.prems"(3) by (auto dest: in_set_butlastD)
    show ?thesis
    proof (cases "?i \<in> set reached")
      case True
      then show ?thesis
        using "1.IH"(1) [OF False refl refl True "1.prems"(1,2) rest] False by (subst mark_loop.simps) (simp add: Let_def)
    next
      case new: False
      have "set (?rest @ refs ! ?i) \<subseteq> {..<length refs}" using rest i "1.prems"(2) by auto
      moreover have "\<not> (length refs \<le> ?i \<or> length lvls \<le> ?i)" using i "1.prems"(1) by simp
      ultimately obtain r' u' where loop: "mark_loop refs lvls (?rest @ refs ! ?i) (?i # reached) (List.union (lvls ! ?i) used) = Inr (r', u')"
        and u': "set u' \<subseteq> set (List.union (lvls ! ?i) used) \<union> set (concat lvls)"
        using "1.IH"(2) [OF False refl refl new _ "1.prems"(1,2)] by blast
      have "set (lvls ! ?i) \<subseteq> set (concat lvls)" using i "1.prems"(1) by fastforce
      then have "set u' \<subseteq> set used \<union> set (concat lvls)" using u' by auto
      moreover have "mark_loop refs lvls pending reached used = Inr (r', u')"
        using loop False new i "1.prems"(1) by (subst mark_loop.simps) (simp add: Let_def)
      ultimately show ?thesis by blast
    qed
  qed
qed

lemma new_levels_set: "set (fst (new_levels js (p, used))) \<subseteq> set p \<union> set js"
proof (induction js arbitrary: p used)
  case (Cons j js)
  then show ?case using Cons.IH [of p used] Cons.IH [of "p @ [j]" "j # used"] by (auto simp: new_levels_def)
qed (simp add: new_levels_def)

lemma level_loop_total:
  assumes "\<forall>cs \<in> set refs. \<forall>c \<in> set cs. c < length refs" and "set pending \<subseteq> {..<length refs}"
  shows "\<exists>used'. level_loop refs pending used = Inr used'"
  using assms
proof (induction refs pending used rule: level_loop.induct)
  case (1 refs pending used)
  show ?case
  proof (cases "pending = []")
    case False
    have i: "List.last pending < length refs" using False "1.prems"(2) last_in_set by fastforce
    have "set (fst (new_levels (refs ! List.last pending) (butlast pending, used))) \<subseteq> {..<length refs}"
      using new_levels_set [of "refs ! List.last pending" "butlast pending" used] i "1.prems"
      by (fastforce dest: in_set_butlastD)
    from "1.IH" [OF False _ refl "1.prems"(1) this] i show ?thesis
      using False by (subst level_loop.simps) (simp add: Let_def)
  qed (simp add: level_loop.simps)
qed

lemma children_below_less: "children_below refs \<Longrightarrow> \<forall>cs \<in> set refs. \<forall>c \<in> set cs. c < length refs"
  unfolding children_below_def by (metis in_set_conv_nth less_trans)

section \<open>Subtrees\<close>

primrec subtrees :: "'a dtree \<Rightarrow> 'a dtree set" where
  "subtrees (DNode a ts) = insert (DNode a ts) (\<Union> (set (map subtrees ts)))"

definition parts_closed :: "'a dtree set \<Rightarrow> bool" where
  "parts_closed S \<longleftrightarrow> (\<forall>t \<in> S. subtrees t \<subseteq> S)"

lemma subtrees_self: "t \<in> subtrees t"
  by (cases t) simp

lemma subtrees_trans: "s \<in> subtrees t \<Longrightarrow> subtrees s \<subseteq> subtrees t"
  by (induction t) auto

lemma post_tree_set: "parts_closed (set seen) \<Longrightarrow> set (post_tree t seen) = set seen \<union> subtrees t"
proof (induction t arbitrary: seen)
  case (DNode a ts)
  show ?case
  proof (cases "DNode a ts \<in> set seen")
    case True
    then have "subtrees (DNode a ts) \<subseteq> set seen" using DNode.prems unfolding parts_closed_def by blast
    then show ?thesis using post_tree_seen [OF True] by (simp only: Un_absorb2)
  next
    case False
    have "set (fold post_tree ts' seen) = set seen \<union> \<Union> (subtrees ` set ts')" if "set ts' \<subseteq> set ts" for ts'
      using that DNode.prems
    proof (induction ts' arbitrary: seen)
      case (Cons t ts')
      have t: "set (post_tree t seen) = set seen \<union> subtrees t" using DNode.IH [of t seen] Cons.prems by simp
      then have "parts_closed (set (post_tree t seen))"
        using Cons.prems(2) subtrees_trans by (auto simp: parts_closed_def) blast
      then show ?case using Cons t by auto
    qed simp
    then show ?thesis using False by auto
  qed
qed

lemma post_trees_set: "parts_closed (set seen) \<Longrightarrow> set (fold post_tree ts seen) = set seen \<union> \<Union> (subtrees ` set ts)"
proof (induction ts arbitrary: seen)
  case (Cons t ts)
  have "parts_closed (set (post_tree t seen))"
    using Cons.prems subtrees_trans [of _ t] unfolding parts_closed_def
    by (auto simp: post_tree_set [unfolded parts_closed_def])
  then show ?case using Cons by (auto simp: post_tree_set)
qed simp

section \<open>The checked graph\<close>

definition wire_tables :: "(utext \<times> wire) list \<Rightarrow> (wire list \<times> wire list \<times> wire list) option" where
  "wire_tables w =
     (case (wire_list (dag_field w ''levels''), wire_list (dag_field w ''expressions''), wire_list (dag_field w ''roots'')) of
        (Some ls, Some es, Some rs) \<Rightarrow> Some (ls, es, rs)
      | _ \<Rightarrow> None)"

definition level_trees :: "wire list \<Rightarrow> level_table \<Rightarrow> wire dtree list" where
  "level_trees ls L = unfold_rows (level_rows ls L)"

definition expr_trees :: "wire dtree list \<Rightarrow> wire list \<Rightarrow> expr_table \<Rightarrow> (wire \<times> wire dtree list) dtree list" where
  "expr_trees lts es X = unfold_rows (expr_rows lts es X)"

text \<open>The expressions a wire stands for: the trees of its roots, with the universe levels as trees.\<close>

definition dag_roots :: "(utext \<times> wire) list \<Rightarrow> (wire \<times> wire dtree list) dtree list" where
  "dag_roots w = (case wire_tables w of None \<Rightarrow> []
     | Some (ls, es, rs) \<Rightarrow> (case read_tables ls es rs of Inl e \<Rightarrow> []
       | Inr (L, X, ids) \<Rightarrow> map ((!) (expr_trees (level_trees ls L) es X)) ids))"

lemma read_tables_ok:
  assumes "read_tables ls es rs = Inr (L, X, ids)"
  shows "level_table_ok ls L" and "expr_table_ok (length ls) lts es X" and "rmap (wire_nat (Some (length es))) rs = Inr ids"
  using assms level_table_read expr_table_read by (auto simp: read_tables_def res_simps)

lemma level_trees_ok: "level_table_ok ls L \<Longrightarrow> distinct (level_trees ls L) \<and> length (level_trees ls L) = length ls"
  using level_rows_ok(1,3,4) unfold_distinct unfolding level_trees_def by fastforce

lemma graph_check:
  assumes L: "level_table_ok ls L" and X: "expr_table_ok (length ls) (level_trees ls L) es X" and ids: "set ids \<subseteq> {..<length es}"
  obtains e where "check_graph L X ids = Some (Inl e)" and "exc_type e = ''ValueError''"
  | "check_graph L X ids = Some (Inr ())" and "\<forall>i \<in> set ids. et_needs X ! i = 0"
    and "fold post_tree (map ((!) (expr_trees (level_trees ls L) es X)) ids) [] = expr_trees (level_trees ls L) es X"
    and "fold post_tree (concat (map (snd \<circ> dlabel) (expr_trees (level_trees ls L) es X))) [] = level_trees ls L"
proof -
  let ?lts = "level_trees ls L"
  let ?rows = "expr_rows ?lts es X" and ?lrows = "level_rows ls L" and ?xts = "expr_trees ?lts es X"
  note lr = level_rows_ok [OF L] and lts = level_trees_ok [OF L]
  note xr = expr_rows_ok [OF X conjunct1 [OF lts] conjunct2 [OF lts]]
  have lens: "length (et_refs X) = length es" "length (et_levels X) = length es" "length (lt_refs L) = length ls"
    using X L by (simp_all add: expr_table_ok_def level_table_ok_def)
  have below: "children_below (et_refs X)" "children_below (lt_refs L)" using xr(2,3) lr(2,3) by simp_all
  have lv: "set (concat (et_levels X)) \<subseteq> {..<length ls}" using xr(5) by (auto simp: list_all_iff)
  obtain reached used where mark: "mark_loop (et_refs X) (et_levels X) ids [] [] = Inr (reached, used)"
    and used: "set used \<subseteq> set (concat (et_levels X))"
    using mark_loop_total [OF _ children_below_less [OF below(1)], of "et_levels X" ids "[]" "[]"] lens ids by auto
  obtain used' where level: "level_loop (lt_refs L) used used = Inr used'"
    using level_loop_total [OF children_below_less [OF below(2)], of used used] used lv lens by auto
  obtain order where order: "postorder ids (et_refs X) = Some (Inr order)"
    and xt: "map ((!) ?xts) order = fold post_tree (map ((!) ?xts) ids) []"
    using postorder_trees [OF xr(3,4), of ids] ids xr(1,2) unfolding expr_trees_def by auto
  let ?us = "concat (map ((!) (et_levels X)) order)"
  show thesis
  proof (cases "(\<exists>i \<in> set ids. et_needs X ! i \<noteq> 0) \<or> card (set reached) \<noteq> length (et_refs X)
      \<or> card (set used') \<noteq> length (lt_refs L) \<or> order \<noteq> [0..<length es]")
    case True
    then have "\<exists>s. check_graph L X ids = Some (Inl (ValueErr s))"
      by (auto simp: check_graph_def mark level order lens)
    then show thesis using that(1) exc_type.simps(5) by blast
  next
    case False
    then have ord: "order = [0..<length es]" by simp
    then have us: "?us = concat (et_levels X)" using lens(2) by (metis map_nth)
    obtain universes where uni: "postorder ?us (lt_refs L) = Some (Inr universes)"
      and lt: "map ((!) ?lts) universes = fold post_tree (map ((!) ?lts) ?us) []"
      using postorder_trees [OF lr(3,4), of ?us] us lv lr(1,2) unfolding level_trees_def by auto
    have labels: "concat (map (snd \<circ> dlabel) ?xts) = map ((!) ?lts) ?us"
    proof -
      have "(snd \<circ> dlabel) (?xts ! i) = map ((!) ?lts) (et_levels X ! i)" if "i < length es" for i
        using unfold_nth [OF xr(3), of i] that xr(1) lens by (simp add: expr_trees_def) (simp add: expr_rows_def)
      then have "map (snd \<circ> dlabel) ?xts = map (map ((!) ?lts)) (et_levels X)"
        using xr(1) lens by (intro nth_equalityI) (simp_all add: expr_trees_def)
      then show ?thesis by (simp add: us map_concat)
    qed
    have whole: "map ((!) ?xts) [0..<length es] = ?xts" "map ((!) ?lts) [0..<length ls] = ?lts"
      using xr(1) lts map_nth [of ?xts] map_nth [of ?lts] by (simp_all add: expr_trees_def)
    show thesis
    proof (cases "universes = [0..<length ls]")
      case True
      show thesis
      proof (rule that(2))
        show "check_graph L X ids = Some (Inr ())"
          using False True uni by (auto simp: check_graph_def mark level order lens)
        show "fold post_tree (map ((!) ?xts) ids) [] = ?xts" using xt whole by (simp add: ord)
        show "fold post_tree (concat (map (snd \<circ> dlabel) ?xts)) [] = ?lts" using lt whole True labels by simp
      qed (use False in auto)
    next
      case wrong: False
      then have "\<exists>s. check_graph L X ids = Some (Inl (ValueErr s))"
        using False uni by (auto simp: check_graph_def mark level order lens)
      then show thesis using that(1) exc_type.simps(5) by blast
    qed
  qed
qed

lemma envelope_tables:
  "check_envelope w environment node_budget toolchain = Inr (payload, ls, es, rs) \<Longrightarrow> wire_tables w = Some (ls, es, rs) \<and> rs \<noteq> []"
  by (auto simp: check_envelope_def wire_tables_def res_simps split: option.splits)

text \<open>An accepted wire, with the tables read from it.\<close>

definition accepted_tables :: "(utext \<times> wire) list \<Rightarrow> wire list \<Rightarrow> wire list \<Rightarrow> wire list
    \<Rightarrow> level_table \<Rightarrow> expr_table \<Rightarrow> nat list \<Rightarrow> bool" where
  "accepted_tables w ls es rs L X ids \<longleftrightarrow>
     wire_tables w = Some (ls, es, rs) \<and> rs \<noteq> [] \<and> read_tables ls es rs = Inr (L, X, ids)
     \<and> check_graph L X ids = Some (Inr ())"

lemma validate_cases:
  obtains e where "validate_dag zlib_size w environment node_budget toolchain = Some (Inl e)" and "exc_type e = ''ValueError''"
  | ls es rs L X ids payload where "accepted_tables w ls es rs L X ids"
    and "validate_dag zlib_size w environment node_budget toolchain =
       Some (Inr \<lparr>ds_expressions = length es, ds_levels = length ls, ds_sizes = map ((!) (et_sizes X)) ids,
                  ds_depths = map ((!) (et_heights X)) ids, ds_json_bytes = byte_length payload,
                  ds_zlib_bytes = zlib_size payload\<rparr>)"
proof (cases "check_envelope w environment node_budget toolchain")
  case (Inl e)
  then show thesis using that(1) [of e] value_error_envelope [of w environment node_budget toolchain]
    by (simp add: validate_dag_def value_error_def)
next
  case (Inr a)
  then obtain payload ls es rs where env: "check_envelope w environment node_budget toolchain = Inr (payload, ls, es, rs)"
    by (cases a) auto
  show thesis
  proof (cases "read_tables ls es rs")
    case (Inl e)
    then show thesis using that(1) [of e] value_error_tables [of ls es rs]
      by (simp add: validate_dag_def env value_error_def)
  next
    case (Inr b)
    then obtain L X ids where tables: "read_tables ls es rs = Inr (L, X, ids)" by (cases b) auto
    note ok = read_tables_ok [OF tables]
    have ids: "set ids \<subseteq> {..<length es}" using wire_nats_bound [OF ok(3)] by auto
    show thesis
    proof (rule graph_check [OF ok(1) ok(2) [of "level_trees ls L"] ids])
      fix e assume "check_graph L X ids = Some (Inl e)" and "exc_type e = ''ValueError''"
      then show thesis using that(1) [of e] by (simp add: validate_dag_def env tables)
    next
      assume "check_graph L X ids = Some (Inr ())"
      then show thesis using that(2) [of ls es rs L X ids payload] envelope_tables [OF env]
        by (simp add: accepted_tables_def validate_dag_def env tables)
    qed
  qed
qed

lemma accepted_facts:
  assumes "accepted_tables w ls es rs L X ids"
  shows "level_table_ok ls L" and "expr_table_ok (length ls) (level_trees ls L) es X"
    and "rmap (wire_nat (Some (length es))) rs = Inr ids" and "set ids \<subseteq> {..<length es}"
    and "dag_roots w = map ((!) (expr_trees (level_trees ls L) es X)) ids" and "\<forall>i \<in> set ids. et_needs X ! i = 0"
    and "fold post_tree (dag_roots w) [] = expr_trees (level_trees ls L) es X"
    and "fold post_tree (concat (map (snd \<circ> dlabel) (expr_trees (level_trees ls L) es X))) [] = level_trees ls L"
    and "distinct (expr_trees (level_trees ls L) es X)" and "length (expr_trees (level_trees ls L) es X) = length es"
proof -
  note a = assms [unfolded accepted_tables_def]
  have tables: "read_tables ls es rs = Inr (L, X, ids)" using a by blast
  note ok = read_tables_ok(1,2) [OF tables]
  show L: "level_table_ok ls L" and X: "expr_table_ok (length ls) (level_trees ls L) es X"
    and rs: "rmap (wire_nat (Some (length es))) rs = Inr ids"
    using read_tables_ok [OF tables] by blast+
  show ids: "set ids \<subseteq> {..<length es}" using wire_nats_bound [OF rs] by auto
  show roots: "dag_roots w = map ((!) (expr_trees (level_trees ls L) es X)) ids" using a by (simp add: dag_roots_def)
  have checked: "check_graph L X ids = Some (Inr ())" using a by blast
  show "\<forall>i \<in> set ids. et_needs X ! i = 0" "fold post_tree (dag_roots w) [] = expr_trees (level_trees ls L) es X"
    "fold post_tree (concat (map (snd \<circ> dlabel) (expr_trees (level_trees ls L) es X))) [] = level_trees ls L"
    using graph_check [OF L X ids] checked unfolding roots by (metis option.inject sum.distinct(1))+
  have lts: "distinct (level_trees ls L)" "length (level_trees ls L) = length ls" using level_trees_ok [OF L] by simp_all
  show "distinct (expr_trees (level_trees ls L) es X)" "length (expr_trees (level_trees ls L) es X) = length es"
    using expr_rows_ok(1,3,4) [OF X lts] unfold_distinct unfolding expr_trees_def by simp_all
qed

definition all_subtrees :: "'a dtree list \<Rightarrow> 'a dtree set" where
  "all_subtrees ts = \<Union> (subtrees ` set ts)"

section \<open>An accepted wire\<close>

text \<open>The function that returns its argument, \<open>fun x : Sort 0 => x\<close>, in two environments.\<close>

definition sample_levels :: "wire list" where
  "sample_levels = [WList [WStr (u ''zero'')]]"

definition sample_exprs :: "wire list" where
  "sample_exprs = [WList [WStr (u ''sort''), WStr (u ''0'')], WList [WStr (u ''bvar''), WStr (u ''0'')],
         WList [WStr (u ''lam''), WList [WList [WStr (u ''s''), WStr (u ''x'')]], WStr (u ''explicit''), WStr (u ''0''), WStr (u ''1'')]]"

definition identity_wire :: "utext \<Rightarrow> (utext \<times> wire) list" where
  "identity_wire environment =
     [(u ''schema'', WStr (u ''jevops-lean-expr-dag/v1'')), (u ''environment'', WStr environment),
      (u ''lean_version'', WStr (u ''4'')), (u ''lean_githash'', WStr (u ''ab'')),
      (u ''metadata_policy'', WStr (u ''ordered-scalars-v1-reject-syntax'')),
      (u ''levels'', WList sample_levels), (u ''expressions'', WList sample_exprs), (u ''roots'', WList [WStr (u ''2'')])]"

definition ascii_key :: "utext option \<Rightarrow> utext" where
  "ascii_key t = (case t of Some s \<Rightarrow> if list_all (\<lambda>c. c < 128) s then s else [] | None \<Rightarrow> [])"

lemma ascii_encoded: "ascii_key t \<noteq> [] \<Longrightarrow> encoded t = Inr (ascii_key t) \<and> byte_length (ascii_key t) = length (ascii_key t)"
proof (cases t)
  case (Some s)
  assume "ascii_key t \<noteq> []"
  then have "\<forall>c \<in> set s. c < 128" by (auto simp: ascii_key_def Some list_all_iff split: if_splits)
  moreover from this have "\<not> (\<exists>c \<in> set s. 0xD800 \<le> c \<and> c \<le> 0xDFFF)" by fastforce
  moreover have "sum_list (map utf8_char s) = length s" if "\<forall>c \<in> set s. c < 128" for s
    using that by (induction s) (auto simp: utf8_char_def)
  ultimately show ?thesis by (auto simp: ascii_key_def Some encoded_def utf8_length_def byte_length_def list_all_iff)
qed (simp add: ascii_key_def)

lemma sample_keys: "list_all (\<lambda>r. ascii_key (wire_json r) \<noteq> []) (sample_levels @ sample_exprs)
   \<and> distinct (map (\<lambda>r. ascii_key (wire_json r)) sample_exprs)"
  by code_simp

lemma sample_payload:
  assumes "c = 97 \<or> c = 98"
  shows "let t = ascii_key (json_object (identity_wire (replicate 64 c))) in t \<noteq> [] \<and> length t < 1000"
proof -
  have "let t = ascii_key (json_object (identity_wire (replicate 64 97))) in t \<noteq> [] \<and> length t < 1000" by code_simp
  moreover have "let t = ascii_key (json_object (identity_wire (replicate 64 98))) in t \<noteq> [] \<and> length t < 1000" by code_simp
  ultimately show ?thesis using assms by blast
qed

lemma sample_row_zero: "level_row 0 (WList [WStr (u ''zero'')]) = Inr []" by (simp add: level_row_def)
lemma sample_row_sort: "expr_row 1 0 (WList [WStr (u ''sort''), WStr (u ''0'')]) = Inr ([], [0], 0)"
  by (subst expr_row_def) (simp add: tag_eq wire_nat_def u_def canonical_nat_def digits_number_def)
lemma sample_row_bvar: "expr_row 1 1 (WList [WStr (u ''bvar''), WStr (u ''0'')]) = Inr ([], [], 1)"
  by (subst expr_row_def) (simp add: tag_eq wire_nat_def u_def canonical_nat_def digits_number_def)
lemma sample_row_lam: "expr_row 1 2 (WList [WStr (u ''lam''), WList [WList [WStr (u ''s''), WStr (u ''x'')]], WStr (u ''explicit''), WStr (u ''0''), WStr (u ''1'')]) = Inr ([0, 1], [], 0)"
  by (subst expr_row_def) (simp add: tag_eq wire_nat_def u_def canonical_nat_def digits_number_def wire_name_def name_part_def wire_string_def utf8_length_def utf8_char_def binder_kinds_def wire_digit_def)

definition sample_level_table :: level_table where
  "sample_level_table = \<lparr>lt_refs = [[]], lt_heights = [1], lt_seen = map (\<lambda>r. ascii_key (wire_json r)) sample_levels\<rparr>"

definition sample_expr_table :: expr_table where
  "sample_expr_table = \<lparr>et_refs = [[], [], [0, 1]], et_levels = [[0], [], []], et_heights = [1, 1, 2], et_needs = [0, 1, 0],
     et_sizes = [1, 1, 3], et_seen = map (\<lambda>r. ascii_key (wire_json r)) sample_exprs\<rparr>"

lemma sample_tables:
  "read_tables sample_levels sample_exprs [WStr (u ''2'')] = Inr (sample_level_table, sample_expr_table, [2])"
proof -
  have e: "encoded (wire_json r) = Inr (ascii_key (wire_json r))" if "r \<in> set (sample_levels @ sample_exprs)" for r
    using ascii_encoded [of "wire_json r"] sample_keys that unfolding list_all_iff by blast
  have l: "read_table add_level sample_levels no_levels = Inr sample_level_table"
    using e by (simp del: wire_json.simps add: sample_levels_def no_levels_def add_level_def sample_row_zero sample_level_table_def)
  have d: "distinct (map (\<lambda>r. ascii_key (wire_json r)) sample_exprs)" using sample_keys by blast
  have x: "read_table (add_expr 1) sample_exprs no_exprs = Inr sample_expr_table"
    using e d d [unfolded distinct_rev [symmetric, of "map f xs" for f xs]] unfolding sample_exprs_def
    by (simp del: wire_json.simps add: no_exprs_def add_expr_def sample_row_sort [simplified] sample_row_bvar [simplified] sample_row_lam [simplified One_nat_def numeral_2_eq_2] sample_expr_table_def sample_exprs_def row_need_def wire_tag_def tag_eq)
  have "wire_nat (Some 3) (WStr (u ''2'')) = Inr 2"
    by (simp add: wire_nat_def u_def canonical_nat_def digits_number_def wire_digit_def)
  moreover have "length sample_levels = 1" "length sample_exprs = 3" by (simp_all add: sample_levels_def sample_exprs_def)
  ultimately show ?thesis using l x by (simp add: read_tables_def)
qed

lemma sample_graph: "check_graph sample_level_table sample_expr_table [2] = Some (Inr ())"
proof -
  have stop: "postorder_loop edges [] order = Some (Inr order)" for edges order
    by (subst postorder_loop.simps) simp
  have "postorder [2] [[], [], [0, 1]] = Some (Inr [0, 1, 2])" and "postorder [0] [[]] = Some (Inr [0])"
    by (simp_all add: postorder_def loop_pop stop)
  moreover have "[0..<3] = [0, 1, 2]" by (simp add: upt_rec)
  moreover have "mark_loop [[], [], [0, 1]] [[0], [], []] [2] [] [] = Inr ([0, 1, 2], [0])" "level_loop [[]] [0] [0] = Inr [0]"
    by code_simp+
  ultimately show ?thesis
    by (simp add: check_graph_def sample_level_table_def sample_expr_table_def)
qed

lemma sample_accepted:
  assumes c: "c = 97 \<or> c = 98"
  shows "\<exists>st. validate_dag z (identity_wire (replicate 64 c)) (replicate 64 c) 50000 None = Some (Inr st)"
proof -
  let ?w = "identity_wire (replicate 64 c)"
  have "encoded (json_object ?w) = Inr (ascii_key (json_object ?w))" "byte_length (ascii_key (json_object ?w)) < 1000"
    using sample_payload [OF c] ascii_encoded [of "json_object ?w"] by (simp_all add: Let_def)
  moreover have "set (map fst ?w) = set dag_fields" by (auto simp: identity_wire_def dag_fields_def)
  moreover have "is_fingerprint (replicate 64 c)" using c by (auto simp add: is_fingerprint_def wire_digit_def list_all_iff)
  moreover have "dag_field ?w ''schema'' = WStr (u ''jevops-lean-expr-dag/v1'')"
    "dag_field ?w ''metadata_policy'' = WStr (u ''ordered-scalars-v1-reject-syntax'')"
    "dag_field ?w ''environment'' = WStr (replicate 64 c)" "dag_field ?w ''lean_version'' = WStr (u ''4'')"
    "dag_field ?w ''lean_githash'' = WStr (u ''ab'')" "dag_field ?w ''levels'' = WList sample_levels"
    "dag_field ?w ''expressions'' = WList sample_exprs" "dag_field ?w ''roots'' = WList [WStr (u ''2'')]"
    by (simp_all add: dag_field_def identity_wire_def tag_eq)
  moreover have "wire_string (WStr (u ''4'')) = Inr (u ''4'')" "wire_string (WStr (u ''ab'')) = Inr (u ''ab'')"
    "u ''4'' \<noteq> []" "u ''ab'' \<noteq> []"
    by (simp_all add: wire_string_def u_def utf8_length_def utf8_char_def)
  moreover have "length sample_levels = 1" "length sample_exprs = 3" by (simp_all add: sample_levels_def sample_exprs_def)
  ultimately have "check_envelope ?w (replicate 64 c) 50000 None =
      Inr (ascii_key (json_object ?w), sample_levels, sample_exprs, [WStr (u ''2'')])"
    by (simp add: check_envelope_def wire_list_def)
  then show ?thesis by (simp add: validate_dag_def sample_tables sample_graph)
qed

section \<open>Properties\<close>

text \<open>C30: validation of a wire graph always ends, and what it raises is a \<open>ValueError\<close>: no reference is
  looked up outside its table. When it accepts, there is a root, every root is a closed expression of depth
  at most 256 whatever its bound variables and binders are, the sizes and depths it reports are those of the
  expressions the roots stand for with all sharing undone, and the number of nodes is the number of distinct
  subexpressions of the roots: the sharing is maximal and no node is unused.\<close>

theorem validate_dag_meaning:
  "\<exists>r. validate_dag zlib_size w environment node_budget toolchain = Some r
     \<and> (case r of Inl e \<Rightarrow> exc_type e = ''ValueError''
       | Inr st \<Rightarrow> dag_roots w \<noteq> [] \<and> list_all (\<lambda>t. closed_at 0 t \<and> tree_height t \<le> 256) (dag_roots w)
           \<and> ds_sizes st = map tree_nodes (dag_roots w) \<and> ds_depths st = map tree_height (dag_roots w)
           \<and> ds_expressions st = card (all_subtrees (dag_roots w)))"
proof (rule validate_cases [of zlib_size w environment node_budget toolchain])
  fix ls es rs L X ids payload
  assume acc: "accepted_tables w ls es rs L X ids"
    and run: "validate_dag zlib_size w environment node_budget toolchain =
       Some (Inr \<lparr>ds_expressions = length es, ds_levels = length ls, ds_sizes = map ((!) (et_sizes X)) ids,
                  ds_depths = map ((!) (et_heights X)) ids, ds_json_bytes = byte_length payload,
                  ds_zlib_bytes = zlib_size payload\<rparr>)"
  note F = accepted_facts [OF acc]
  let ?xts = "expr_trees (level_trees ls L) es X"
  note X = F(2) [unfolded expr_table_ok_def, folded expr_trees_def]
  have rs: "rs \<noteq> []" using acc by (simp add: accepted_tables_def)
  then have "ids \<noteq> []" using F(3) by (auto simp: rmap_Inr_iff)
  then have ne: "dag_roots w \<noteq> []" by (simp add: F(5))
  have i: "closed_at 0 (?xts ! i) \<and> tree_height (?xts ! i) \<le> 256 \<and> et_sizes X ! i = tree_nodes (?xts ! i)
      \<and> et_heights X ! i = tree_height (?xts ! i)" if "i \<in> set ids" for i
  proof -
    have "i < length es" using F(4) that by auto
    moreover from this have "et_heights X ! i \<le> 256" using X by (auto simp: list_all_length F(10))
    moreover have "et_needs X ! i = 0" using F(6) that by simp
    ultimately show ?thesis using X F(10) by (metis nth_map)
  qed
  have "set ?xts = all_subtrees (dag_roots w)"
    using post_trees_set [of "[]" "dag_roots w"] by (simp add: F(7) parts_closed_def all_subtrees_def)
  then have "length es = card (all_subtrees (dag_roots w))" using distinct_card [OF F(9)] F(10) by simp
  then show ?thesis using run ne i by (auto simp: F(5) list_all_iff)
qed auto

text \<open>C9: the wire form of a list of expressions is unique. Two wires that are accepted, under any
  environments, budgets and toolchains, and whose roots stand for the same expressions have the same level
  table, the same expression table and the same root list.\<close>

theorem dag_form_unique:
  assumes "validate_dag z w env budget tools = Some (Inr st)"
    and "validate_dag z' w' env' budget' tools' = Some (Inr st')"
    and roots: "dag_roots w = dag_roots w'"
  shows "dag_field w ''levels'' = dag_field w' ''levels'' \<and> dag_field w ''expressions'' = dag_field w' ''expressions''
    \<and> dag_field w ''roots'' = dag_field w' ''roots''"
proof -
  obtain ls es rs L X ids where a: "accepted_tables w ls es rs L X ids"
    using validate_cases [of z w env budget tools] assms(1) by (metis option.inject sum.distinct(1))
  obtain ls' es' rs' L' X' ids' where a': "accepted_tables w' ls' es' rs' L' X' ids'"
    using validate_cases [of z' w' env' budget' tools'] assms(2) by (metis option.inject sum.distinct(1))
  note F = accepted_facts [OF a] and F' = accepted_facts [OF a']
  have xts: "expr_trees (level_trees ls L) es X = expr_trees (level_trees ls' L') es' X'" using F(7) F'(7) roots by simp
  then have lts: "level_trees ls L = level_trees ls' L'" using F(8) F'(8) by simp
  have "level_rows ls L = level_rows ls' L'"
    using same_rows [OF level_rows_ok(3,4) [OF F(1)] level_rows_ok(3,4) [OF F'(1)]] lts by (simp add: level_trees_def)
  then have ls: "ls = ls'" by (rule level_rows_same [OF F(1) F'(1)])
  have ok: "distinct (level_trees ls L)" "length (level_trees ls L) = length ls" using level_trees_ok [OF F(1)] by simp_all
  have X': "expr_table_ok (length ls) (level_trees ls L) es' X'" using F'(2) ls lts by simp
  have "expr_rows (level_trees ls L) es X = expr_rows (level_trees ls L) es' X'"
    using same_rows [OF expr_rows_ok(3,4) [OF F(2) ok] expr_rows_ok(3,4) [OF X' ok]] xts lts by (simp add: expr_trees_def)
  then have es: "es = es'" by (rule expr_rows_same [OF F(2) X' ok])
  have "map ((!) (expr_trees (level_trees ls L) es X)) ids = map ((!) (expr_trees (level_trees ls L) es X)) ids'"
    using roots F(5) F'(5) xts by simp
  then have "ids = ids'" using F(4,10) F'(4) es by (intro map_nth_eq [OF F(9)]) auto
  then have rs: "rs = rs'" using F(3) F'(3) wire_nats_unique by blast
  have "wire_tables w = wire_tables w'" using a a' ls es rs by (simp add: accepted_tables_def)
  moreover have "wire_tables w \<noteq> None" using a by (simp add: accepted_tables_def)
  ultimately show ?thesis by (auto simp: wire_tables_def wire_list_def split: option.splits wire.splits)
qed

theorem dag_form_unique_witness:
  "dag_field (identity_wire (replicate 64 97)) ''levels'' = dag_field (identity_wire (replicate 64 98)) ''levels''
    \<and> dag_field (identity_wire (replicate 64 97)) ''expressions'' = dag_field (identity_wire (replicate 64 98)) ''expressions''
    \<and> dag_field (identity_wire (replicate 64 97)) ''roots'' = dag_field (identity_wire (replicate 64 98)) ''roots''"
proof -
  obtain st where a: "validate_dag length (identity_wire (replicate 64 97)) (replicate 64 97) 50000 None = Some (Inr st)"
    using sample_accepted [of 97 length] by auto
  obtain st' where b: "validate_dag length (identity_wire (replicate 64 98)) (replicate 64 98) 50000 None = Some (Inr st')"
    using sample_accepted [of 98 length] by auto
  have "dag_roots (identity_wire (replicate 64 97)) = dag_roots (identity_wire (replicate 64 98))"
    by (simp add: dag_roots_def wire_tables_def dag_field_def identity_wire_def tag_eq)
  then show ?thesis by (rule dag_form_unique [OF a b])
qed

end
