(* ===== verification/Spec2Isabelle.thy ===== *)
theory Spec2Isabelle
  imports CA_Checker CA_Recovery Logic_NNF Logic_Canonical Logic_Maps Logic_Minimize Logic_Analyze Affine_Infer
    Linear_Correct Diff_Lean TM_Calls EG_Correct Cp_Sound Dag_Correct
begin

text \<open>
  A verification library for JevOps: its proof-carrying cellular automaton
  (\<open>jevops/proof_ca.py\<close>), its propositional logic (\<open>jevops/logic_ir.py\<close>), the four invariant and
  constraint engines built on exact arithmetic (\<open>invariant_inference.py\<close>, \<open>affine_invariants.py\<close>,
  \<open>linear_invariants.py\<close>, \<open>difference_bounds.py\<close>), the rewriting of formulas on an e-graph
  (\<open>equality_saturation.py\<close>), the constructive proof search (\<open>constructive_proofs.py\<close>,
  \<open>constructive_terms.py\<close>, \<open>proof_tokens.py\<close>), the storage format of Lean expressions
  (\<open>expr_dag.py\<close>), the call stack with its pointers (\<open>stack.py\<close>), and the Turing-machine tools on the
  bounded tape and that stack (\<open>tape.py\<close>, \<open>turing.py\<close>).

  How Python is represented. An exception is a value of \<open>exc\<close>; a function that may raise returns
  \<open>exc + result\<close>, and an operation of the automaton returns \<open>(exc + result) \<times> state\<close>, so the state
  at the point of the exception is kept. Dynamically typed values are \<open>pyval\<close>, with exact rationals
  for finite floats. Dictionaries are association lists in insertion order, Python integers are
  \<open>int\<close> (or \<open>nat\<close> where the code keeps them non-negative). Names and rendered formulas are lists of
  code points, other text is \<open>string\<close>. SHA-256 and the conversions between numbers and text of the
  standard library are the fields of \<open>pylib\<close>. \<open>Prelude\<close>, \<open>Py_Values\<close> and \<open>Py_Reading\<close> hold this
  vocabulary with its \<open>res_simps\<close> and \<open>dict_simps\<close> collections; \<open>Machines\<close> holds the interface of
  components with a step function.

  The cellular automaton. A runtime accepts ground facts on evidence: declared assumptions,
  derivations by declared Horn rules, or receipts of an external verifier. A policy proposes
  actions, \<open>checked_apply\<close> admits them, notifications travel through a message queue, and a
  scheduler serves a queue of rules under an operation budget.
    \<^item> \<open>CA_Types\<close>, \<open>CA_Protocol\<close>: the immutable records and their constructors; snapshots, answers,
      proposals, receipts, messages, metrics and the ledger; the policies the source ships.
    \<^item> \<open>CA_State\<close>, \<open>CA_Admission\<close>, \<open>CA_Actions\<close>, \<open>CA_Scheduler\<close>: construction, graph, events and
      messages; evidence store and authority check; the five actions; \<open>step\<close> and \<open>run\<close>. A policy
      call and a verifier call may yield anything: they are the fields of \<open>step_input\<close>.
    \<^item> \<open>CA_Records\<close>, \<open>CA_Restore\<close>: \<open>from_dict\<close> and \<open>to_dict\<close>, \<open>report\<close>, \<open>checkpoint\<close>,
      \<open>from_checkpoint\<close>, \<open>new_epoch\<close>, \<open>replay\<close> and the proposals a caller makes.
    \<^item> \<open>CA_Frames\<close>, \<open>CA_Runs\<close>: which fields the operations leave alone, and the locales
      \<open>work_relation\<close> and \<open>step_relation\<close>: a relation that the building blocks of a step respect is
      respected by steps and runs. Soundness, the bounds and the agenda invariant interpret them.
    \<^item> \<open>CA_Soundness\<close>, \<open>CA_Reach\<close> (C1, C2): accepted facts are derivable and keep their evidence.
    \<^item> \<open>CA_Agenda\<close>, \<open>CA_Complete\<close> (C3): a run that ends quiescent or complete has accepted exactly
      the least Horn model, unless a rule is left that lost a notification: one above the message
      limit is dropped (\<open>large_notice_dropped\<close>), one with the digest of another is taken for a
      duplicate. No other enabled rule is forgotten.
    \<^item> \<open>CA_Bounds\<close> (C4), \<open>CA_Checker\<close> (C5): queue, log, store and ledger limits; through
      which rule or which verified receipt a proposal can admit a fact, and that applying it twice
      changes nothing more.
    \<^item> \<open>CA_Recovery\<close> (C34 to C37): restored facts are derivable whatever the checkpoint holds;
      evidence records are read exactly when genuine; epochs share one budget; replays prove nothing.

  The logic. \<open>Logic_Formula\<close> (C8), \<open>Logic_NNF\<close>, \<open>Logic_Decide\<close> (C11), \<open>Logic_Diagram\<close>
  (C12), \<open>Logic_Canonical\<close> (C13) and \<open>Logic_Maps\<close> (C15) hold construction, evaluation and
  simplification, normal forms, equivalence and inductive invariants, decision diagrams and why they
  are the smallest, Karnaugh maps and entailed facts.
  \<open>Logic_Cover\<close>, \<open>Logic_Primes\<close> and \<open>Logic_Minimize\<close> (C16, C17) hold two-level minimisation: the
  merging loop computes the prime implicants, the branch and bound ends within its budget, and a
  result reported optimal is optimal. \<open>Logic_Parse\<close>, \<open>Logic_Roundtrip\<close> (C22) and \<open>Logic_Analyze\<close>
  (C23, C25) hold the tokenizer and parser, reading back rendered text, the dictionary form and
  the report of \<open>analyze_formula\<close>, each part of which means the parsed formula.

  The engines. \<open>Inv_Houdini\<close>, \<open>Inv_Correct\<close> (C18, C19): Houdini inference keeps the greatest
  inductive set of candidates; reachability is exact. \<open>Affine_Nullspace\<close>, \<open>Affine_Infer\<close>
  (C27): the elimination over GF(2) returns a basis, so the candidates describe the affine hull of
  the reachable states. \<open>Linear_Farkas\<close> (C28), \<open>Linear_Text\<close>, \<open>Linear_Solve\<close>,
  \<open>Linear_Infer\<close> and \<open>Linear_Correct\<close> (C32, C33): accepted certificates prove their targets,
  the exact solver is right, reductions keep solutions, and kept invariants hold in every reachable
  state. \<open>Diff_Bounds\<close>, \<open>Diff_Correct\<close> (C20), \<open>Diff_Reduce\<close> (C21) and \<open>Diff_Lean\<close>: the closure of
  a difference system is exact and its reduction irredundant and certified.

  Equality saturation. \<open>EG_Graph\<close> models the e-graph (parents, classes and memo), union, rebuild,
  matching and the rules in a state monad whose result keeps the exception and the state;
  \<open>EG_Saturate\<close> the rounds, the extraction and the report. \<open>EG_Sound\<close> gives every class one truth value
  under a valuation (\<open>graph_ok\<close>) and shows that the operations keep it, \<open>EG_Repair\<close> that rebuilding ends and
  closes the graph under congruence, \<open>EG_Match\<close> that a match is an instance of its pattern, and
  \<open>EG_Correct\<close> (C6, C29) that each rule is an equivalence and the reported formula means the source.

  Proof search. \<open>Cp_Terms\<close> (C24) models proof-term trees, their validation and rendering, \<open>Cp_Search\<close>
  the goal-directed search with its counters, fresh names and tables of facts and active goals, and
  the token count that ranks proofs. \<open>Cp_Sound\<close> (C7) gives the trees a typing relation and the formulas
  Kripke semantics: what the search returns is typed and intuitionistically valid
  (\<open>no_excluded_middle\<close>: it never proves \<open>p \<or> \<not> p\<close>).

  Expression graphs. \<open>Dag_Wire\<close> models \<open>validate_dag\<close>: rows of levels and expressions that refer to
  earlier rows, the marking of what the roots reach, and the numbering in postorder. \<open>Dag_Order\<close> unfolds
  such tables into trees and relates the numbering loop to the recursive postorder of trees,
  \<open>Dag_Rows\<close> shows that a row is determined by its shape and references, \<open>Dag_Tables\<close> that the recorded
  heights, sizes and needs are those of the trees, and \<open>Dag_Correct\<close> (C9, C30) that accepted graphs mean
  closed expressions and that the wire form of expressions is unique.

  The Turing machine. \<open>TM_Tape\<close> (C38) models every operation of the bounded tape and its stored
  form; \<open>TM_Machine\<close> (C39, C40) models the control and the tools, the refinement of an abstract
  machine, and the halting of the default scanner. A stored head of 0 is read back as the last
  cell; the abstract machine says so explicitly (\<open>reload\<close>).

  The call stack. \<open>CS_Pointers\<close> models the reading, completion and resolution of pointers and the
  arguments of a child call; \<open>CS_Stack\<close> the stack on an explicit heap of frames, because the list of
  live frames and the forest share them and the code relies on that. \<open>CS_Correct\<close> (C10, C14, C26)
  shows that pointers are resolved fail-closed, that a new stack keeps its discipline under any
  operations and what \<open>walk\<close> and \<open>ancestors\<close> then return, and that a restored stack can lose a frame.
  \<open>TM_Calls\<close> (C31) models push, pop and the choice of a tool by name on tape, control and call stack together.

  Bounds and fuel. \<open>ca_run\<close> takes fuel for its loop, because a policy may defer for ever; C3 speaks
  of the runs that end. Every other loop is a total function: structural recursion, a proved
  measure, or a number of rounds that is proved to be enough (\<open>Logic_Minimize\<close>, \<open>Inv_Correct\<close>,
  \<open>EG_Repair\<close>: each pass of a rebuild but the last merges two classes). The numbering loop of
  \<open>validate_dag\<close> would not end on a cyclic graph; it is a partial function, and C30 shows that it ends
  on what has passed the checks before it. The walk of a stack takes a limit for its nesting,
  Python's recursion limit; C26 shows that four is enough.
  The loop that recomputes accepted facts in a restore ends because each round but the last accepts
  a subject of stored evidence (\<open>restore_loop\<close>).

  Not modelled. Files, subprocesses and clocks: \<open>save_checkpoint\<close>, reading a checkpoint from a path,
  the clock reading in a report (an argument). Mutation of a cell or a frame through an alias
  outside the tape or the stack. The order in which \<open>simplify_formula\<close> puts two terms that render
  alike. In \<open>constructive_proofs.py\<close> the reading of a proposition from Lean text and the editing of a
  proof file; in \<open>expr_dag.py\<close> the fingerprints of roots, the compression, and the export by a Lean
  process. The rest of the repository (the arena and Lean drivers, search and training code, provider
  and prompt tables) is orchestration of external programs or floating-point optimisation.
\<close>

end
